(* ===== verification/Prelude.thy ===== *)
theory Prelude
  imports Main "HOL-Library.Word" "HOL-Library.List_Lexorder" "HOL-Library.Sublist"
    "HOL-Library.Signed_Division"
begin

text \<open>
  Shared vocabulary of the development: Go's fixed-width integers, byte strings and
  slices, the big-endian encodings of \<open>encoding/binary\<close>, \<open>bytes.Compare\<close>
  as the lexicographic order on byte lists, and results that are either an error or a value.
\<close>

unbundle bit_operations_syntax

named_theorems codec_simps \<open>round-trip equations of readers on written bytes\<close>
named_theorems key_simps \<open>unfolding of physical key builders\<close>

subsection \<open>Machine integers and byte strings\<close>

type_synonym byte = "8 word"
type_synonym bytes = "byte list"
type_synonym uint16 = "16 word"
type_synonym uint32 = "32 word"
type_synonym uint64 = "64 word"
type_synonym int64 = "64 word"

text \<open>A Go string literal is its UTF-8 byte sequence; every literal used here is ASCII.\<close>

definition ascii :: "string \<Rightarrow> bytes" where
  "ascii s = map of_char s"

lemma length_ascii [simp]: "length (ascii s) = length s"
  by (simp add: ascii_def)

text \<open>\<open>xs[i:j]\<close> for \<open>i \<le> j \<le> len(xs)\<close>; the code checks lengths before it slices.\<close>

definition slice :: "nat \<Rightarrow> nat \<Rightarrow> 'a list \<Rightarrow> 'a list" where
  "slice i j xs = take (j - i) (drop i xs)"

lemma length_slice [simp]: "j \<le> length xs \<Longrightarrow> length (slice i j xs) = j - i"
  by (simp add: slice_def)

lemma slice_append_left: "j \<le> length xs \<Longrightarrow> slice i j (xs @ ys) = slice i j xs"
  by (cases "i \<le> length xs") (simp_all add: slice_def)

lemma slice_append_right:
  "length xs \<le> i \<Longrightarrow> slice i j (xs @ ys) = slice (i - length xs) (j - length xs) ys"
  by (simp add: slice_def)

lemma slice_whole: "length xs = j \<Longrightarrow> slice 0 j xs = xs"
  by (simp add: slice_def)

subsection \<open>Results: an error or a value\<close>

definition bindR :: "'e + 'a \<Rightarrow> ('a \<Rightarrow> 'e + 'b) \<Rightarrow> 'e + 'b" where
  "bindR m f = (case m of Inl e \<Rightarrow> Inl e | Inr x \<Rightarrow> f x)"

lemma bindR_Inr [simp]: "bindR (Inr x) f = f x"
  by (simp add: bindR_def)

lemma bindR_Inl [simp]: "bindR (Inl e) f = Inl e"
  by (simp add: bindR_def)

lemma bindR_eq_Inr: "bindR m f = Inr y \<longleftrightarrow> (\<exists>x. m = Inr x \<and> f x = Inr y)"
  by (cases m) (auto simp: bindR_def)

lemma bindR_eq_Inl: "bindR m f = Inl e \<longleftrightarrow> m = Inl e \<or> (\<exists>x. m = Inr x \<and> f x = Inl e)"
  by (cases m) (auto simp: bindR_def)

definition mapR :: "('a \<Rightarrow> 'b) \<Rightarrow> 'e + 'a \<Rightarrow> 'e + 'b" where
  "mapR f m = bindR m (\<lambda>x. Inr (f x))"

lemma mapR_simps [simp]: "mapR f (Inr x) = Inr (f x)" "mapR f (Inl e) = Inl e"
  by (simp_all add: mapR_def)

lemma mapR_eq_Inr: "mapR f m = Inr y \<longleftrightarrow> (\<exists>x. m = Inr x \<and> y = f x)"
  by (cases m) auto

definition isOk :: "'e + 'a \<Rightarrow> bool" where
  "isOk m = (case m of Inl _ \<Rightarrow> False | Inr _ \<Rightarrow> True)"

lemma isOk_simps [simp]: "isOk (Inr x)" "\<not> isOk (Inl e)"
  by (simp_all add: isOk_def)

subsection \<open>Big-endian encodings\<close>

primrec beBytes :: "nat \<Rightarrow> nat \<Rightarrow> bytes" where
  "beBytes 0 v = []"
| "beBytes (Suc n) v = beBytes n (v div 256) @ [word_of_nat v]"

definition natOfBE :: "bytes \<Rightarrow> nat" where
  "natOfBE bs = foldl (\<lambda>a b. a * 256 + unat b) 0 bs"

lemma length_beBytes [simp]: "length (beBytes n v) = n"
  by (induction n arbitrary: v) auto

lemma natOfBE_Nil [simp]: "natOfBE [] = 0"
  by (simp add: natOfBE_def)

lemma natOfBE_snoc [simp]: "natOfBE (bs @ [b]) = natOfBE bs * 256 + unat b"
  by (simp add: natOfBE_def)

lemma natOfBE_less: "natOfBE bs < 256 ^ length bs"
proof (induction bs rule: rev_induct)
  case (snoc b bs)
  have "unat b < 256" using unsigned_less [of b] by simp
  with snoc show ?case by simp
qed simp

lemma natOfBE_append: "natOfBE (xs @ ys) = natOfBE xs * 256 ^ length ys + natOfBE ys"
  by (induction ys rule: rev_induct) (simp_all flip: append_assoc add: algebra_simps)

lemma natOfBE_Cons: "natOfBE (b # bs) = unat b * 256 ^ length bs + natOfBE bs"
  using natOfBE_append [of "[b]" bs] natOfBE_snoc [of "[]" b] by simp

lemma natOfBE_beBytes [simp]: "natOfBE (beBytes n v) = v mod 256 ^ n"
proof (induction n arbitrary: v)
  case (Suc n)
  have "v div 256 mod 256 ^ n * 256 + v mod 256 = v mod 256 ^ Suc n"
    using mod_mult2_eq [of v 256 "256 ^ n"] by (simp add: mult.commute)
  then show ?case by (simp add: Suc.IH unat_of_nat)
qed simp

lemma byte_256: "(256 :: byte) = 0"
  by simp

lemma beBytes_natOfBE: "length bs = n \<Longrightarrow> beBytes n (natOfBE bs) = bs"
proof (induction bs arbitrary: n rule: rev_induct)
  case (snoc b bs)
  have "unat b < 256" using unsigned_less [of b] by simp
  then have d: "(natOfBE bs * 256 + unat b) div 256 = natOfBE bs" by simp
  have w: "(word_of_nat (natOfBE bs * 256 + unat b) :: byte) = b"
    by (simp add: byte_256)
  have "n = Suc (length bs)" using snoc.prems by simp
  then show ?case
    by (simp only: natOfBE_snoc beBytes.simps d w snoc.IH [OF refl])
qed simp

lemma beBytes_inject: "v < 256 ^ n \<Longrightarrow> w < 256 ^ n \<Longrightarrow> beBytes n v = beBytes n w \<longleftrightarrow> v = w"
  by (metis mod_less natOfBE_beBytes)

text \<open>\<open>bytes.Compare\<close> is the lexicographic order \<open><\<close> of \<open>List_Lexorder\<close>.\<close>

lemma lex_append_same [simp]: "(p @ xs < p @ ys) = (xs < (ys :: bytes))"
  by (induction p) simp_all

lemma lex_append_same_le [simp]: "(p @ xs \<le> p @ ys) = (xs \<le> (ys :: bytes))"
  by (induction p) simp_all

lemma lex_append:
  "length xs = length ys \<Longrightarrow> (xs @ us < ys @ vs) = (xs < ys \<or> xs = ys \<and> us < (vs :: bytes))"
  by (induction xs ys rule: list_induct2) auto

lemma lex_append_le:
  "length xs = length ys \<Longrightarrow> (xs @ us \<le> ys @ vs) = (xs < ys \<or> xs = ys \<and> us \<le> (vs :: bytes))"
  by (induction xs ys rule: list_induct2) auto

lemma lex_natOfBE:
  assumes "length xs = length ys"
  shows "xs < ys \<longleftrightarrow> natOfBE xs < natOfBE ys"
  using assms
proof (induction xs ys rule: list_induct2)
  case (Cons x xs y ys)
  have lt: "natOfBE xs < 256 ^ length ys" "natOfBE ys < 256 ^ length ys"
    using natOfBE_less [of xs] natOfBE_less [of ys] Cons.hyps by simp_all
  consider "x < y" | "x = y" | "y < x" by (rule linorder_cases)
  then show ?case
  proof cases
    case 1
    then have "Suc (unat x) * 256 ^ length ys \<le> unat y * 256 ^ length ys"
      by (intro mult_le_mono1) (simp add: Suc_leI word_less_nat_alt)
    with 1 lt Cons.hyps show ?thesis by (simp add: natOfBE_Cons)
  next
    case 2
    with Cons show ?thesis by (simp add: natOfBE_Cons)
  next
    case 3
    then have "Suc (unat y) * 256 ^ length ys \<le> unat x * 256 ^ length ys"
      by (intro mult_le_mono1) (simp add: Suc_leI word_less_nat_alt)
    with 3 lt Cons.hyps show ?thesis by (auto simp: natOfBE_Cons)
  qed
qed simp

lemma beBytes_less:
  "v < 256 ^ n \<Longrightarrow> w < 256 ^ n \<Longrightarrow> beBytes n v < beBytes n w \<longleftrightarrow> v < w"
  by (simp add: lex_natOfBE)

text \<open>\<open>binary.BigEndian.PutUint*\<close> and \<open>Uint*\<close> on the exact slices the code passes.\<close>

definition PutUint64 :: "uint64 \<Rightarrow> bytes" where "PutUint64 v = beBytes 8 (unat v)"
definition PutUint32 :: "uint32 \<Rightarrow> bytes" where "PutUint32 v = beBytes 4 (unat v)"
definition PutUint16 :: "uint16 \<Rightarrow> bytes" where "PutUint16 v = beBytes 2 (unat v)"
definition Uint64 :: "bytes \<Rightarrow> uint64" where "Uint64 bs = word_of_nat (natOfBE bs)"
definition Uint32 :: "bytes \<Rightarrow> uint32" where "Uint32 bs = word_of_nat (natOfBE bs)"
definition Uint16 :: "bytes \<Rightarrow> uint16" where "Uint16 bs = word_of_nat (natOfBE bs)"

lemma length_PutUint [simp]:
  "length (PutUint64 a) = 8" "length (PutUint32 b) = 4" "length (PutUint16 c) = 2"
  by (simp_all add: PutUint64_def PutUint32_def PutUint16_def)

lemma unat_bounds:
  "unat (a :: uint64) < 256 ^ 8" "unat (b :: uint32) < 256 ^ 4" "unat (c :: uint16) < 256 ^ 2"
  using unsigned_less [of a] unsigned_less [of b] unsigned_less [of c] by simp_all

lemma Uint_Put [simp]:
  "Uint64 (PutUint64 a) = a" "Uint32 (PutUint32 b) = b" "Uint16 (PutUint16 c) = c"
  using unat_bounds(1) [of a] unat_bounds(2) [of b] unat_bounds(3) [of c]
  by (simp_all add: Uint64_def PutUint64_def Uint32_def PutUint32_def Uint16_def PutUint16_def
      del: power_numeral)

lemma Put_Uint:
  "length bs = 8 \<Longrightarrow> PutUint64 (Uint64 bs) = bs"
  "length bs = 4 \<Longrightarrow> PutUint32 (Uint32 bs) = bs"
  "length bs = 2 \<Longrightarrow> PutUint16 (Uint16 bs) = bs"
  using natOfBE_less [of bs]
  by (simp_all add: Uint64_def PutUint64_def Uint32_def PutUint32_def Uint16_def PutUint16_def
      unat_of_nat beBytes_natOfBE)

lemma PutUint_inject [simp]:
  "PutUint64 a = PutUint64 a' \<longleftrightarrow> a = a'" "PutUint32 b = PutUint32 b' \<longleftrightarrow> b = b'"
  "PutUint16 c = PutUint16 c' \<longleftrightarrow> c = c'"
  by (metis Uint_Put)+

lemma PutUint_less [simp]:
  "PutUint64 a < PutUint64 a' \<longleftrightarrow> a < a'" "PutUint32 b < PutUint32 b' \<longleftrightarrow> b < b'"
  "PutUint16 c < PutUint16 c' \<longleftrightarrow> c < c'"
  using unat_bounds(1) [of a] unat_bounds(2) [of b] unat_bounds(3) [of c]
    unat_bounds(1) [of a'] unat_bounds(2) [of b'] unat_bounds(3) [of c']
  by (simp_all add: PutUint64_def PutUint32_def PutUint16_def beBytes_less word_less_nat_alt
      del: power_numeral)

lemma PutUint_le [simp]:
  "PutUint64 a \<le> PutUint64 a' \<longleftrightarrow> a \<le> a'" "PutUint32 b \<le> PutUint32 b' \<longleftrightarrow> b \<le> b'"
  "PutUint16 c \<le> PutUint16 c' \<longleftrightarrow> c \<le> c'"
  by (simp_all add: le_less)

end
