(* ===== verification/Lattice.thy ===== *)
theory Lattice
  imports Prelude
begin

text \<open>
  Hexagonal coordinates and their packed keys: \<open>internal/lattice/coord.go\<close>,
  \<open>neighbors.go\<close>, \<open>bounds.go\<close> and \<open>packed.go\<close>. A Go \<open>int\<close> is a
  64-bit word read as two's complement, so every \<open>+\<close>, \<open>-\<close> and unary minus below
  wraps exactly as the code's does. The main results: the zigzag map is a bijection of the
  64-bit words, the Morton interleaving and its inverse are mutually inverse on 3 x 21 bits,
  and \<open>Pack\<close> and \<open>Unpack\<close> are inverse partial functions with the documented domain.
\<close>

subsection \<open>Signed machine arithmetic\<close>

text \<open>Go's \<open>/\<close> on \<open>int\<close>: truncation towards zero, with the one wrapping quotient.\<close>

definition divGo :: "int64 \<Rightarrow> int64 \<Rightarrow> int64" where
  "divGo a b = word_of_int (sint a sdiv sint b)"

definition abs64 :: "int64 \<Rightarrow> int64" where
  "abs64 x = (if x <s 0 then - x else x)"

definition minInt64 :: int64 where
  "minInt64 = push_bit 63 1"

subsection \<open>Coordinates\<close>

record Coord =
  coordQ :: int64
  coordR :: int64

record Cube =
  cubeQ :: int64
  cubeR :: int64
  cubeS :: int64

definition toCube :: "Coord \<Rightarrow> Cube" where
  "toCube c = \<lparr>cubeQ = coordQ c, cubeR = coordR c, cubeS = - coordQ c - coordR c\<rparr>"

definition Distance :: "Coord \<Rightarrow> Coord \<Rightarrow> int64" where
  "Distance c c' =
     (let dq = coordQ c - coordQ c';
          dr = coordR c - coordR c';
          ds = (coordQ c + coordR c) - (coordQ c' + coordR c')
      in divGo (abs64 dq + abs64 dr + abs64 ds) 2)"

definition Neighbors :: "Coord \<Rightarrow> Coord list" where
  "Neighbors c =
     [\<lparr>coordQ = coordQ c + 1, coordR = coordR c\<rparr>,
      \<lparr>coordQ = coordQ c + 1, coordR = coordR c - 1\<rparr>,
      \<lparr>coordQ = coordQ c, coordR = coordR c - 1\<rparr>,
      \<lparr>coordQ = coordQ c - 1, coordR = coordR c\<rparr>,
      \<lparr>coordQ = coordQ c - 1, coordR = coordR c + 1\<rparr>,
      \<lparr>coordQ = coordQ c, coordR = coordR c + 1\<rparr>]"

subsection \<open>Bounds and zigzag\<close>

datatype lattice_error =
    ErrCoordOutOfRange
  | LatticePanic string
  | LatticeError string

definition MaxAxialAbs :: int64 where
  "MaxAxialAbs = push_bit 18 1 - 1"

definition maxZigzagLimb :: uint64 where
  "maxZigzagLimb = push_bit 21 1 - 1"

definition zigzag64 :: "int64 \<Rightarrow> lattice_error + uint64" where
  "zigzag64 n =
     (if 0 \<le>s n then Inr (n * 2)
      else let k = - (n + 1)
           in if k <s 0 then Inl (LatticePanic ''lattice: zigzag64 internal error'')
              else Inr (k * 2 + 1))"

definition unzigzag64 :: "uint64 \<Rightarrow> int64" where
  "unzigzag64 z =
     (if z AND 1 = 0 then drop_bit 1 z
      else let t = drop_bit 1 (z + 1) in if t = 0 then minInt64 else - t)"

definition inPackRangeCube :: "int64 \<Rightarrow> int64 \<Rightarrow> int64 \<Rightarrow> bool" where
  "inPackRangeCube q r s =
     (if MaxAxialAbs <s q \<or> q <s - MaxAxialAbs then False
      else if MaxAxialAbs <s r \<or> r <s - MaxAxialAbs then False
      else if MaxAxialAbs <s s \<or> s <s - MaxAxialAbs then False
      else True)"

definition zigzagFits21 :: "uint64 \<Rightarrow> bool" where
  "zigzagFits21 z \<longleftrightarrow> z \<le> maxZigzagLimb"

subsection \<open>Morton codes\<close>

text \<open>The 128-entry table of the code, computed by the loop that fills it.\<close>

definition mortonExpand7 :: "uint64 \<Rightarrow> uint64" where
  "mortonExpand7 b = fold (\<lambda>i e. e OR push_bit (3 * i) (drop_bit i b AND 1)) [0..<7] 0"

definition mortonPack63 :: "uint64 \<Rightarrow> uint64 \<Rightarrow> uint64 \<Rightarrow> uint64" where
  "mortonPack63 qp rp sp =
     fold (\<lambda>pass m.
       let axisShift = pass * 7; mortonBase = pass * 21;
           m = m OR push_bit mortonBase (mortonExpand7 (drop_bit axisShift qp AND 0x7f));
           m = m OR push_bit (mortonBase + 1) (mortonExpand7 (drop_bit axisShift rp AND 0x7f))
       in m OR push_bit (mortonBase + 2) (mortonExpand7 (drop_bit axisShift sp AND 0x7f)))
       [0..<3] 0"

definition mortonUnpack63 :: "uint64 \<Rightarrow> uint64 \<times> uint64 \<times> uint64" where
  "mortonUnpack63 m =
     fold (\<lambda>i (qp, rp, sp).
       (qp OR push_bit i (drop_bit (3 * i) m AND 1),
        rp OR push_bit i (drop_bit (3 * i + 1) m AND 1),
        sp OR push_bit i (drop_bit (3 * i + 2) m AND 1)))
       [0..<21] (0, 0, 0)"

subsection \<open>Packed coordinates\<close>

text \<open>\<open>[2]uint64\<close>: index 0 is the low word, index 1 the high word.\<close>

datatype PackedCoord = PackedCoord (packedLo: uint64) (packedHi: uint64)

definition Pack :: "Coord \<Rightarrow> lattice_error + PackedCoord" where
  "Pack c =
     (let cb = toCube c; q = cubeQ cb; r = cubeR cb; s = cubeS cb
      in if \<not> inPackRangeCube q r s then Inl ErrCoordOutOfRange
         else bindR (zigzag64 q) (\<lambda>qp. bindR (zigzag64 r) (\<lambda>rp. bindR (zigzag64 s) (\<lambda>sp.
           if \<not> zigzagFits21 qp \<or> \<not> zigzagFits21 rp \<or> \<not> zigzagFits21 sp
           then Inl ErrCoordOutOfRange
           else Inr (PackedCoord (mortonPack63 qp rp sp) 0)))))"

definition Unpack :: "PackedCoord \<Rightarrow> lattice_error + Coord" where
  "Unpack p =
     (if packedHi p \<noteq> 0 then Inl ErrCoordOutOfRange
      else if drop_bit 63 (packedLo p) \<noteq> 0 then Inl ErrCoordOutOfRange
      else case mortonUnpack63 (packedLo p) of (qp, rp, sp) \<Rightarrow>
        if \<not> zigzagFits21 qp \<or> \<not> zigzagFits21 rp \<or> \<not> zigzagFits21 sp
        then Inl ErrCoordOutOfRange
        else let q = unzigzag64 qp; r = unzigzag64 rp; s = unzigzag64 sp
          in if q + r + s \<noteq> 0 then Inl ErrCoordOutOfRange
             else if \<not> inPackRangeCube q r s then Inl ErrCoordOutOfRange
             else Inr \<lparr>coordQ = q, coordR = r\<rparr>)"

definition Compare :: "PackedCoord \<Rightarrow> PackedCoord \<Rightarrow> int" where
  "Compare p q =
     (if packedHi p < packedHi q then -1
      else if packedHi q < packedHi p then 1
      else if packedLo p < packedLo q then -1
      else if packedLo q < packedLo p then 1
      else 0)"

definition Less :: "PackedCoord \<Rightarrow> PackedCoord \<Rightarrow> bool" where
  "Less p q \<longleftrightarrow> Compare p q < 0"

text \<open>The total order of packed keys, for which \<open>Compare\<close> is the three-way comparison.\<close>

lemma PackedCoord_eq_iff: "p = q \<longleftrightarrow> packedHi p = packedHi q \<and> packedLo p = packedLo q"
  by (cases p; cases q) auto

instantiation PackedCoord :: linorder
begin

definition less_PackedCoord :: "PackedCoord \<Rightarrow> PackedCoord \<Rightarrow> bool" where
  "p < q \<longleftrightarrow> packedHi p < packedHi q \<or> packedHi p = packedHi q \<and> packedLo p < packedLo q"

definition less_eq_PackedCoord :: "PackedCoord \<Rightarrow> PackedCoord \<Rightarrow> bool" where
  "p \<le> q \<longleftrightarrow> p < q \<or> p = (q :: PackedCoord)"

instance
  by standard
    (auto simp: less_PackedCoord_def less_eq_PackedCoord_def PackedCoord_eq_iff)

end

lemma Less_iff: "Less p q \<longleftrightarrow> p < q"
  by (auto simp: Less_def Compare_def less_PackedCoord_def)

lemma Compare_cases:
  "Compare p q = (if p < q then -1 else if p = q then 0 else 1)"
  by (auto simp: Compare_def less_PackedCoord_def PackedCoord_eq_iff)

subsection \<open>Zigzag is a bijection\<close>

lemma sint_bounds64: "- (2 ^ 63) \<le> sint (n :: int64)" "sint (n :: int64) < 2 ^ 63"
  using sint_greater_eq [of n] sint_lt [of n] by simp_all

lemma sint_word_of_int_range:
  "- (2 ^ 63) \<le> i \<Longrightarrow> i < 2 ^ 63 \<Longrightarrow> sint (word_of_int i :: int64) = i"
  by (simp add: sint_sbintrunc' signed_take_bit_int_eq_self)

lemma word_of_sint: "word_of_int (sint (n :: int64)) = n"
  by simp

lemma zigzag64_nonneg:
  assumes "0 \<le> sint n"
  shows "zigzag64 n = Inr (word_of_int (2 * sint n))"
  using assms by (simp add: zigzag64_def word_sle_eq mult.commute)

lemma zigzag64_neg:
  assumes "sint n < 0"
  shows "zigzag64 n = Inr (word_of_int (- 2 * sint n - 1))"
proof -
  have k: "- (n + 1) = word_of_int (- sint n - 1)" by simp
  have "sint (- (n + 1)) = - sint n - 1"
    unfolding k using assms sint_bounds64 [of n] by (intro sint_word_of_int_range) simp_all
  then have "\<not> - (n + 1) <s 0" using assms by (simp add: word_sless_alt)
  moreover have "- (n + 1) * 2 + 1 = word_of_int (- 2 * sint n - 1)"
    by (simp add: algebra_simps)
  ultimately show ?thesis
    using assms by (simp add: zigzag64_def word_sle_eq Let_def)
qed

definition zigzag :: "int \<Rightarrow> int" where
  "zigzag i = (if 0 \<le> i then 2 * i else - 2 * i - 1)"

lemma zigzag64_value: "zigzag64 n = Inr (word_of_int (zigzag (sint n)))"
  by (cases "0 \<le> sint n") (simp_all add: zigzag64_nonneg zigzag64_neg zigzag_def)

lemma zigzag_range: "0 \<le> zigzag (sint (n :: int64))" "zigzag (sint n) < 2 ^ 64"
  using sint_bounds64 [of n] by (auto simp: zigzag_def)

lemma uint_zigzag64: "zigzag64 n = Inr z \<Longrightarrow> uint z = zigzag (sint n)"
  using zigzag_range [of n] by (auto simp: zigzag64_value uint_word_of_int)

lemma drop_bit_1_value: "drop_bit (Suc 0) (w :: uint64) = word_of_int (uint w div 2)"
proof -
  have "word_of_int (uint (w div 2)) = w div 2" by simp
  then show ?thesis by (simp add: uint_div drop_bit_eq_div)
qed

lemma and_1_eq_0_iff: "(z :: uint64) AND 1 = 0 \<longleftrightarrow> even (uint z)"
proof -
  have "bit (uint z) 0 \<longleftrightarrow> bit z 0" by (simp add: bit_uint_iff del: bit_0)
  then have "even (uint z) \<longleftrightarrow> even z" by (simp add: bit_0)
  then show ?thesis by (simp add: and_one_eq even_iff_mod_2_eq_zero)
qed

lemma unzigzag64_value:
  "unzigzag64 z = word_of_int (if even (uint z) then uint z div 2 else - ((uint z + 1) div 2))"
proof (cases "even (uint z)")
  case True
  then show ?thesis by (simp add: unzigzag64_def and_1_eq_0_iff drop_bit_1_value)
next
  case odd: False
  have lt: "uint z < 2 ^ 64" using unsigned_less [of z] by simp
  show ?thesis
  proof (cases "uint z = 2 ^ 64 - 1")
    case True
    have "word_of_int (uint z) = (- 1 :: uint64)" unfolding True by simp
    then have "z = - 1" by simp
    then have "unzigzag64 z = minInt64" by (simp add: unzigzag64_def)
    then show ?thesis unfolding True by (simp add: minInt64_def)
  next
    case False
    with lt have "uint (z + 1) = uint z + 1"
      by (simp add: uint_word_ariths)
    then have d: "drop_bit 1 (z + 1) = word_of_int ((uint z + 1) div 2)"
      by (simp add: drop_bit_1_value)
    have "0 < (uint z + 1) div 2" "(uint z + 1) div 2 < 2 ^ 64"
      using odd lt uint_ge_0 [of z] by (auto elim!: oddE)
    then have "(word_of_int ((uint z + 1) div 2) :: uint64) \<noteq> 0"
      by (auto simp only: word_of_int_eq_0_iff dest!: zdvd_imp_le) simp
    with odd d show ?thesis
      by (simp only: unzigzag64_def and_1_eq_0_iff Let_def if_False) simp
  qed
qed

theorem unzigzag_zigzag:
  assumes "zigzag64 n = Inr z"
  shows "unzigzag64 z = n"
proof (cases "0 \<le> sint n")
  case True
  with assms show ?thesis by (simp add: unzigzag64_value uint_zigzag64 zigzag_def)
next
  case False
  then have "(- 2 * sint n - 1 + 1) div 2 = - sint n" "odd (- 2 * sint n - 1)" by simp_all
  with assms False show ?thesis
    by (simp only: unzigzag64_value uint_zigzag64 zigzag_def if_False if_True) simp
qed

definition unzigzag :: "int \<Rightarrow> int" where
  "unzigzag x = (if even x then x div 2 else - ((x + 1) div 2))"

lemma unzigzag_range:
  assumes "0 \<le> x" "x < 2 ^ 64"
  shows "- (2 ^ 63) \<le> unzigzag x" "unzigzag x < 2 ^ 63" "zigzag (unzigzag x) = x"
  using assms by (auto simp: unzigzag_def zigzag_def elim!: evenE oddE)

theorem zigzag_unzigzag: "zigzag64 (unzigzag64 z) = Inr z"
proof -
  have "0 \<le> uint z" "uint z < 2 ^ 64" using unsigned_less [of z] by simp_all
  then have "sint (word_of_int (unzigzag (uint z)) :: int64) = unzigzag (uint z)"
    and "zigzag (unzigzag (uint z)) = uint z"
    by (simp_all only: sint_word_of_int_range unzigzag_range)
  then show ?thesis by (simp add: unzigzag64_value zigzag64_value flip: unzigzag_def)
qed

text \<open>The closed form in \<open>PACKED_COORD.md\<close>: \<open>(n << 1) ^ (n >> 63)\<close> on \<open>int64\<close>.\<close>

lemma signed_shift_63: "signed_drop_bit 63 (n :: int64) = (if sint n < 0 then - 1 else 0)"
  using bit_last_iff [of n] by (intro bit_word_eqI) (auto simp: bit_simps not_le)

theorem zigzag64_closed_form:
  "zigzag64 n = Inr (push_bit 1 n XOR signed_drop_bit 63 n)"
proof (cases "0 \<le> sint n")
  case True
  then show ?thesis by (simp add: signed_shift_63 zigzag64_nonneg push_bit_eq_mult mult.commute)
next
  case False
  then have "push_bit 1 n XOR - 1 = word_of_int (- 2 * sint n - 1)"
    by (simp add: push_bit_eq_mult not_eq_complement algebra_simps)
  with False show ?thesis by (simp add: signed_shift_63 zigzag64_neg del: push_bit_of_1)
qed

subsection \<open>Morton interleaving, bit by bit\<close>

lemma bit_expand_term:
  "bit (push_bit (3 * i) (drop_bit i b AND 1) :: uint64) k \<longleftrightarrow> k = 3 * i \<and> k < 64 \<and> bit b i"
  by (auto simp: bit_simps)

lemma bit_expand_fold:
  "bit (fold (\<lambda>i e. e OR push_bit (3 * i) (drop_bit i b AND 1)) is e :: uint64) k \<longleftrightarrow>
     bit e k \<or> (\<exists>i \<in> set is. k = 3 * i \<and> k < 64 \<and> bit b i)"
  by (induction "is" arbitrary: e) (auto simp: bit_or_iff bit_expand_term simp del: push_bit_and)

lemma bit_mortonExpand7:
  "bit (mortonExpand7 b) k \<longleftrightarrow> k < 21 \<and> k mod 3 = 0 \<and> bit b (k div 3)"
proof -
  have "(\<exists>i \<in> {0..<7}. k = 3 * i \<and> k < 64 \<and> bit b i) \<longleftrightarrow>
      k < 21 \<and> k mod 3 = 0 \<and> bit b (k div 3)"
    by (auto intro!: bexI [of _ "k div 3"])
  then show ?thesis by (simp add: mortonExpand7_def bit_expand_fold del: push_bit_and)
qed

lemma pack_index:
  fixes d j p :: nat
  assumes "j < 3"
  shows "(21 * p + j + d) div 21 = p \<and> (21 * p + j + d) mod 3 = j \<longleftrightarrow> d < 21 \<and> d mod 3 = 0"
    and "d mod 3 = 0 \<Longrightarrow> (21 * p + j + d) div 3 = 7 * p + d div 3"
proof -
  have "(21 * p + (j + d)) div 21 = p + (j + d) div 21" by simp
  then have 1: "(21 * p + j + d) div 21 = p \<longleftrightarrow> j + d < 21"
    by (auto simp: add.assoc div_eq_0_iff)
  have "(3 * (7 * p) + (j + d)) mod 3 = (j + d) mod 3" by (rule mod_mult_self4)
  then have 2: "(21 * p + j + d) mod 3 = (j + d) mod 3" by (simp add: add.assoc)
  have 3: "j = 0 \<or> j = 1 \<or> j = 2" using assms by auto
  have "(j + d) mod 3 = j \<longleftrightarrow> d mod 3 = 0"
    using 3 by (elim disjE; simp; presburger)
  moreover have "d mod 3 = 0 \<Longrightarrow> j + d < 21 \<longleftrightarrow> d < 21"
    using 3 by (elim disjE; simp; presburger)
  ultimately show "(21 * p + j + d) div 21 = p \<and> (21 * p + j + d) mod 3 = j \<longleftrightarrow>
      d < 21 \<and> d mod 3 = 0"
    unfolding 1 2 by metis
  have "(3 * (7 * p) + (j + d)) div 3 = 7 * p + (j + d) div 3" by simp
  moreover have "d mod 3 = 0 \<Longrightarrow> (j + d) div 3 = d div 3"
    using 3 by (elim disjE; simp; presburger)
  ultimately show "d mod 3 = 0 \<Longrightarrow> (21 * p + j + d) div 3 = 7 * p + d div 3"
    by (simp add: add.assoc)
qed

lemma bit_pack_term:
  assumes "j < 3" "p < 3"
  shows "bit (push_bit (21 * p + j) (mortonExpand7 (drop_bit (7 * p) q AND 0x7f))) k \<longleftrightarrow>
    k div 21 = p \<and> k mod 3 = j \<and> bit q (k div 3)"
proof (cases "21 * p + j \<le> k \<and> k < 64")
  case False
  moreover have "21 * p + j \<le> k \<and> k < 64" if "k div 21 = p" "k mod 3 = j"
  proof -
    have "k = 21 * p + k mod 21" "k mod 21 < 21" using that(1) by auto
    moreover have "k mod 21 mod 3 = j" using that(2) by (simp add: mod_mod_cancel)
    then have "j \<le> k mod 21" by (metis mod_less_eq_dividend)
    ultimately show ?thesis using assms(2) by linarith
  qed
  ultimately show ?thesis by (auto simp: bit_push_bit_iff)
next
  case True
  define d where "d = k - (21 * p + j)"
  have k: "k = 21 * p + j + d" using True by (simp add: d_def)
  have m: "bit (0x7f :: uint64) i \<longleftrightarrow> i < 7" for i
    using bit_mask_iff [of 7 i, where 'a = uint64] by (auto simp: mask_eq_exp_minus_1)
  have "bit (push_bit (21 * p + j) (mortonExpand7 (drop_bit (7 * p) q AND 0x7f))) k \<longleftrightarrow>
      d < 21 \<and> d mod 3 = 0 \<and> bit q (7 * p + d div 3) \<and> d div 3 < 7"
    unfolding bit_push_bit_iff bit_mortonExpand7 bit_and_iff bit_drop_bit_eq comp_def m
      d_def [symmetric]
    using True by (simp add: possible_bit_def)
  moreover have "k div 21 = p \<and> k mod 3 = j \<longleftrightarrow> d < 21 \<and> d mod 3 = 0"
    unfolding k by (rule pack_index(1) [OF assms(1)])
  moreover have "d mod 3 = 0 \<Longrightarrow> k div 3 = 7 * p + d div 3"
    unfolding k by (rule pack_index(2) [OF assms(1)])
  moreover have "d < 21 \<Longrightarrow> d div 3 < 7" by simp
  ultimately show ?thesis by metis
qed

lemma bit_mortonPack63:
  "bit (mortonPack63 qp rp sp) k \<longleftrightarrow>
     k < 63 \<and> bit (if k mod 3 = 0 then qp else if k mod 3 = 1 then rp else sp) (k div 3)"
proof -
  have u: "[0..<3] = [0, 1, 2 :: nat]" by (simp add: upt_rec)
  have t: "bit (push_bit (p * 21 + j) (mortonExpand7 (drop_bit (p * 7) q AND 0x7f))) k \<longleftrightarrow>
    k div 21 = p \<and> k mod 3 = j \<and> bit q (k div 3)" if "j < 3" "p < 3" for j p q
    using bit_pack_term [OF that] by (simp only: mult.commute)
  have t0: "bit (push_bit (p * 21) (mortonExpand7 (drop_bit (p * 7) q AND 0x7f))) k \<longleftrightarrow>
    k div 21 = p \<and> k mod 3 = 0 \<and> bit q (k div 3)" if "p < 3" for p q
    using t [of 0 p] that by (simp only: add_0_right)
  have p: "0 < (3::nat)" "1 < (3::nat)" "2 < (3::nat)" by simp_all
  have taut: "(((((((((False \<or> A \<and> X) \<or> A \<and> Y) \<or> A \<and> Z) \<or> B \<and> X) \<or> B \<and> Y) \<or> B \<and> Z) \<or>
      C \<and> X) \<or> C \<and> Y) \<or> C \<and> Z) \<longleftrightarrow> (A \<or> B \<or> C) \<and> (X \<or> Y \<or> Z)" for A B C X Y Z
    by blast
  have "bit (mortonPack63 qp rp sp) k \<longleftrightarrow>
     (k div 21 = 0 \<or> k div 21 = 1 \<or> k div 21 = 2) \<and>
     (k mod 3 = 0 \<and> bit qp (k div 3) \<or> k mod 3 = 1 \<and> bit rp (k div 3) \<or>
      k mod 3 = 2 \<and> bit sp (k div 3))"
    unfolding mortonPack63_def u fold_simps Let_def bit_or_iff
      t0 [OF p(1)] t0 [OF p(2)] t0 [OF p(3)]
      t [OF p(2) p(1)] t [OF p(2) p(2)] t [OF p(2) p(3)]
      t [OF p(3) p(1)] t [OF p(3) p(2)] t [OF p(3) p(3)] bit_0_eq bot_apply bot_bool_def id_apply
    by (rule taut)
  moreover have "k div 21 = 0 \<or> k div 21 = 1 \<or> k div 21 = 2 \<longleftrightarrow> k < 63"
    using div_less_iff_less_mult [of 21 k 3] by auto
  moreover have "k mod 3 = 0 \<or> k mod 3 = 1 \<or> k mod 3 = 2" by presburger
  ultimately show ?thesis by auto
qed

lemma bit_unpack_term:
  "bit (push_bit i (drop_bit n m AND 1) :: uint64) k \<longleftrightarrow> k = i \<and> k < 64 \<and> bit m n"
  by (auto simp: bit_simps)

lemma mortonUnpack_fold:
  "fold (\<lambda>i (qp, rp, sp).
       (qp OR push_bit i (drop_bit (3 * i) m AND 1),
        rp OR push_bit i (drop_bit (3 * i + 1) m AND 1),
        sp OR push_bit i (drop_bit (3 * i + 2) m AND 1))) is (q, r, s) = (q', r', s' :: uint64) \<Longrightarrow>
   bit q' k = (bit q k \<or> k \<in> set is \<and> k < 64 \<and> bit m (3 * k)) \<and>
   bit r' k = (bit r k \<or> k \<in> set is \<and> k < 64 \<and> bit m (3 * k + 1)) \<and>
   bit s' k = (bit s k \<or> k \<in> set is \<and> k < 64 \<and> bit m (3 * k + 2))"
  by (induction "is" arbitrary: q r s)
    (auto simp: bit_or_iff bit_unpack_term simp del: push_bit_and)

lemma bit_mortonUnpack63:
  assumes "mortonUnpack63 m = (q, r, s)"
  shows "bit q k \<longleftrightarrow> k < 21 \<and> bit m (3 * k)"
    and "bit r k \<longleftrightarrow> k < 21 \<and> bit m (3 * k + 1)"
    and "bit s k \<longleftrightarrow> k < 21 \<and> bit m (3 * k + 2)"
  using mortonUnpack_fold [OF assms [unfolded mortonUnpack63_def], of k] by auto

text \<open>A word fits in \<open>n\<close> bits when it has no bit from \<open>n\<close> on.\<close>

lemma less_exp_iff_bits: "(z :: uint64) < 2 ^ n \<longleftrightarrow> (\<forall>k \<ge> n. \<not> bit z k)" if "n < 64"
proof -
  have "z < 2 ^ n \<longleftrightarrow> take_bit n z = z"
    using that by (simp add: take_bit_eq_mask mask_eq_iff_w2p word_size)
  also have "\<dots> \<longleftrightarrow> (\<forall>k \<ge> n. \<not> bit z k)"
  proof
    assume t: "take_bit n z = z"
    show "\<forall>k \<ge> n. \<not> bit z k"
      by (subst t [symmetric]) (simp add: bit_take_bit_iff)
  next
    assume "\<forall>k \<ge> n. \<not> bit z k"
    then show "take_bit n z = z"
      by (intro bit_word_eqI) (auto simp: bit_take_bit_iff not_less intro: ccontr)
  qed
  finally show ?thesis .
qed

lemma zigzagFits21_iff: "zigzagFits21 z \<longleftrightarrow> (\<forall>k \<ge> 21. \<not> bit z k)"
proof -
  have "zigzagFits21 z \<longleftrightarrow> z < 2 ^ 21"
    by (simp add: zigzagFits21_def maxZigzagLimb_def word_le_nat_alt word_less_nat_alt le_less_Suc_eq flip: less_Suc_eq_le)
  then show ?thesis by (simp only: less_exp_iff_bits)
qed

lemma bit_mortonPack63_axes:
  "bit (mortonPack63 q r s) (3 * k) \<longleftrightarrow> k < 21 \<and> bit q k"
  "bit (mortonPack63 q r s) (3 * k + 1) \<longleftrightarrow> k < 21 \<and> bit r k"
  "bit (mortonPack63 q r s) (3 * k + 2) \<longleftrightarrow> k < 21 \<and> bit s k"
proof -
  have "(3 * k) mod 3 = 0" "(3 * k) div 3 = k" "(3 * k + 1) mod 3 = 1" "(3 * k + 1) div 3 = k"
    "(3 * k + 2) mod 3 = 2" "(3 * k + 2) div 3 = k" by presburger+
  then show
    "bit (mortonPack63 q r s) (3 * k) \<longleftrightarrow> k < 21 \<and> bit q k"
    "bit (mortonPack63 q r s) (3 * k + 1) \<longleftrightarrow> k < 21 \<and> bit r k"
    "bit (mortonPack63 q r s) (3 * k + 2) \<longleftrightarrow> k < 21 \<and> bit s k"
    by (simp_all only: bit_mortonPack63) auto
qed

theorem mortonUnpack_mortonPack:
  assumes "zigzagFits21 qp" "zigzagFits21 rp" "zigzagFits21 sp"
  shows "mortonUnpack63 (mortonPack63 qp rp sp) = (qp, rp, sp)"
proof -
  obtain q r s where u: "mortonUnpack63 (mortonPack63 qp rp sp) = (q, r, s)"
    by (metis prod_cases3)
  have "bit qp k \<Longrightarrow> k < 21" "bit rp k \<Longrightarrow> k < 21" "bit sp k \<Longrightarrow> k < 21" for k
    using assms by (meson zigzagFits21_iff not_less)+
  then have "bit q = bit qp" "bit r = bit rp" "bit s = bit sp"
    by (auto simp only: fun_eq_iff bit_mortonUnpack63 [OF u] bit_mortonPack63_axes)
  with u show ?thesis by (simp add: bit_eq_iff fun_eq_iff)
qed

theorem mortonPack_mortonUnpack:
  assumes "mortonUnpack63 m = (q, r, s)" "drop_bit 63 m = 0"
  shows "mortonPack63 q r s = m"
proof (rule bit_word_eqI)
  fix k assume "k < LENGTH(64)"
  have "bit (drop_bit 63 m) 0 \<longleftrightarrow> False" using assms(2) by simp
  then have top: "\<not> bit m 63" by (simp add: bit_drop_bit_eq del: bit_0)
  have e: "3 * (k div 3) = k" if "k mod 3 = 0" using that by presburger
  have e1: "3 * (k div 3) + 1 = k" if "k mod 3 = 1" using that by presburger
  have e2: "3 * (k div 3) + 2 = k" if "k mod 3 \<noteq> 0" "k mod 3 \<noteq> 1" using that by presburger
  have "k < 63 \<longleftrightarrow> k \<noteq> 63" "k < 63 \<Longrightarrow> k div 3 < 21" using \<open>k < LENGTH(64)\<close> by auto
  then show "bit (mortonPack63 q r s) k \<longleftrightarrow> bit m k"
    using top bit_mortonUnpack63 [OF assms(1)] e e1 e2
    by (auto simp: bit_mortonPack63)
qed

lemma mortonPack_top: "drop_bit 63 (mortonPack63 q r s) = 0"
  by (rule bit_word_eqI) (auto simp: bit_drop_bit_eq bit_mortonPack63)

subsection \<open>Pack and Unpack\<close>

lemma MaxAxialAbs_value: "MaxAxialAbs = 262143"
  by (simp add: MaxAxialAbs_def)

definition inBox :: "int64 \<Rightarrow> bool" where
  "inBox x \<longleftrightarrow> - 262143 \<le> sint x \<and> sint x \<le> 262143"

lemma inPackRangeCube_iff: "inPackRangeCube q r s \<longleftrightarrow> inBox q \<and> inBox r \<and> inBox s"
  by (auto simp: inPackRangeCube_def inBox_def MaxAxialAbs_value word_sless_alt)

lemma inBox_fits:
  assumes "inBox x"
  obtains z where "zigzag64 x = Inr z" "zigzagFits21 z" "unzigzag64 z = x"
proof -
  have u: "0 \<le> zigzag (sint x)" "zigzag (sint x) < 2 ^ 21"
    using assms by (auto simp: inBox_def zigzag_def)
  then have "uint (word_of_int (zigzag (sint x)) :: uint64) = zigzag (sint x)"
    by (simp add: uint_word_of_int)
  then have "zigzagFits21 (word_of_int (zigzag (sint x)))"
    using u by (simp add: zigzagFits21_def maxZigzagLimb_def word_le_def)
  then show ?thesis using that zigzag64_value unzigzag_zigzag by blast
qed

text \<open>The cube coordinate \<open>s = -q-r\<close> of an axial pair, computed with wrap-around.\<close>

definition packable :: "Coord \<Rightarrow> bool" where
  "packable c \<longleftrightarrow> inBox (coordQ c) \<and> inBox (coordR c) \<and> inBox (- coordQ c - coordR c)"

lemma Pack_in_range:
  assumes "packable c"
  obtains qp rp sp where "Pack c = Inr (PackedCoord (mortonPack63 qp rp sp) 0)"
    "zigzag64 (coordQ c) = Inr qp" "zigzag64 (coordR c) = Inr rp"
    "zigzag64 (- coordQ c - coordR c) = Inr sp"
    "zigzagFits21 qp" "zigzagFits21 rp" "zigzagFits21 sp"
proof -
  from assms obtain qp rp sp where
    "zigzag64 (coordQ c) = Inr qp" "zigzagFits21 qp"
    "zigzag64 (coordR c) = Inr rp" "zigzagFits21 rp"
    "zigzag64 (- coordQ c - coordR c) = Inr sp" "zigzagFits21 sp"
    unfolding packable_def by (metis inBox_fits)
  moreover from this assms have "Pack c = Inr (PackedCoord (mortonPack63 qp rp sp) 0)"
    by (simp add: Pack_def toCube_def packable_def inPackRangeCube_iff)
  ultimately show ?thesis using that by blast
qed

theorem Pack_error: "\<not> packable c \<Longrightarrow> Pack c = Inl ErrCoordOutOfRange"
  by (simp add: Pack_def toCube_def packable_def inPackRangeCube_iff Let_def)

theorem Unpack_Pack:
  assumes "Pack c = Inr p"
  shows "Unpack p = Inr c"
proof -
  have "packable c" using assms Pack_error [of c] by auto
  then obtain qp rp sp where *: "Pack c = Inr (PackedCoord (mortonPack63 qp rp sp) 0)"
    "zigzag64 (coordQ c) = Inr qp" "zigzag64 (coordR c) = Inr rp"
    "zigzag64 (- coordQ c - coordR c) = Inr sp"
    "zigzagFits21 qp" "zigzagFits21 rp" "zigzagFits21 sp"
    by (rule Pack_in_range)
  from * have "unzigzag64 qp = coordQ c" "unzigzag64 rp = coordR c"
    "unzigzag64 sp = - coordQ c - coordR c" by (simp_all add: unzigzag_zigzag)
  with * \<open>packable c\<close> assms show ?thesis
    by (simp add: Unpack_def mortonPack_top mortonUnpack_mortonPack packable_def
        inPackRangeCube_iff)
qed

theorem Pack_Unpack:
  assumes "Unpack p = Inr c"
  shows "Pack c = Inr p"
proof -
  obtain qp rp sp where m: "mortonUnpack63 (packedLo p) = (qp, rp, sp)" by (metis prod_cases3)
  let ?q = "unzigzag64 qp" and ?r = "unzigzag64 rp" and ?s = "unzigzag64 sp"
  have *: "packedHi p = 0" "drop_bit 63 (packedLo p) = 0" "?q + ?r + ?s = 0"
    "zigzagFits21 qp" "zigzagFits21 rp" "zigzagFits21 sp"
    "inPackRangeCube ?q ?r ?s" "c = \<lparr>coordQ = ?q, coordR = ?r\<rparr>"
    using assms by (auto simp: Unpack_def m Let_def split: if_splits)
  have "- ?q - ?r = ?s" using *(3) by (metis add.commute add_diff_cancel_left' diff_0 diff_diff_eq)
  with * show ?thesis
    by (simp add: Pack_def toCube_def Let_def zigzag_unzigzag
        mortonPack_mortonUnpack [OF m] PackedCoord_eq_iff)
qed

lemma Pack_ok_iff: "(\<exists>p. Pack c = Inr p) \<longleftrightarrow> packable c"
  by (metis Inl_Inr_False Pack_error Pack_in_range)

lemma Pack_inject: "Pack c = Inr p \<Longrightarrow> Pack c' = Inr p \<Longrightarrow> c = c'"
  by (metis Unpack_Pack sum.inject(2))

lemma Pack_reserved_bits:
  assumes "Pack c = Inr p"
  shows "packedHi p = 0" "\<not> bit (packedLo p) 63"
proof -
  have "packable c" using assms Pack_error [of c] by auto
  then obtain qp rp sp where "p = PackedCoord (mortonPack63 qp rp sp) 0"
    using assms by (metis Pack_in_range sum.inject(2))
  then show "packedHi p = 0" "\<not> bit (packedLo p) 63"
    by (simp_all add: bit_mortonPack63)
qed

subsection \<open>Properties\<close>

text \<open>C16: \<open>Pack\<close> and \<open>Unpack\<close> are inverse partial functions: a packed key decodes to a
  coordinate exactly when that coordinate encodes to the key, whatever the key's bits are.\<close>
theorem Pack_Unpack_inverse: "Unpack p = Inr c \<longleftrightarrow> Pack c = Inr p"
  using Pack_Unpack [of p c] Unpack_Pack [of c p] by blast

text \<open>C17: the domain and the error of \<open>Pack\<close>: it answers \<open>ErrCoordOutOfRange\<close> exactly
  when one of the three cube components, computed with the code's wrapping arithmetic, leaves
  -(2^18-1) .. 2^18-1; otherwise it succeeds, and the key keeps the high word and bit 63 of the
  low word clear.\<close>
theorem Pack_domain:
  "case Pack c of
     Inl e \<Rightarrow> e = ErrCoordOutOfRange \<and> \<not> packable c
   | Inr p \<Rightarrow> packable c \<and> packedHi p = 0 \<and> \<not> bit (packedLo p) 63"
proof (cases "Pack c")
  case (Inl e)
  then show ?thesis using Pack_error [of c] Pack_ok_iff [of c] by auto
next
  case (Inr p)
  then show ?thesis using Pack_ok_iff [of c] Pack_reserved_bits [of c p] by auto
qed

text \<open>the zigzag map of \<open>bounds.go\<close> never fails, not even on the most negative
  integer it treats separately, has the usual branch-free form, and is a bijection of the
  64-bit words whose inverse is \<open>unzigzag64\<close>.\<close>
theorem zigzag_bijection:
  "zigzag64 n = Inr (push_bit 1 n XOR signed_drop_bit 63 n) \<and>
   (zigzag64 n = Inr z \<longleftrightarrow> unzigzag64 z = n)"
  using zigzag64_closed_form [of n] unzigzag_zigzag [of n z] zigzag_unzigzag [of z] by auto

end
