(* ===== verification/HexRings.thy ===== *)
theory HexRings
  imports Lattice
begin

text \<open>
  Hexagonal rings, spirals and hierarchies: \<open>internal/lattice/ring.go\<close>,
  \<open>walk.go\<close>, \<open>superhex.go\<close> and \<open>lod.go\<close>. The loops of the code are
  recursions that thread the destination slice and the cursor; an iterator
  (\<open>iter.Seq\<close>) is a function of the consumer \<open>yield\<close>, which answers whether
  it wants more and threads the consumer's own state. Coordinates are machine words and wrap.
  The theorems compare the walks with the distance of \<open>Lattice\<close>: a ring is exactly
  the set of cells at its radius, a walk is the whole disc, without repetition, and the
  aperture-7 hierarchy assigns every cell to exactly one parent.
\<close>

subsection \<open>Cube steps and rings\<close>

definition cubeDirections :: "Cube list" where
  "cubeDirections =
     [\<lparr>cubeQ = 1, cubeR = 0, cubeS = -1\<rparr>, \<lparr>cubeQ = 1, cubeR = -1, cubeS = 0\<rparr>,
      \<lparr>cubeQ = 0, cubeR = -1, cubeS = 1\<rparr>, \<lparr>cubeQ = -1, cubeR = 0, cubeS = 1\<rparr>,
      \<lparr>cubeQ = -1, cubeR = 1, cubeS = 0\<rparr>, \<lparr>cubeQ = 0, cubeR = 1, cubeS = -1\<rparr>]"

definition cubeAdd :: "Cube \<Rightarrow> Cube \<Rightarrow> Cube" where
  "cubeAdd a b = \<lparr>cubeQ = cubeQ a + cubeQ b, cubeR = cubeR a + cubeR b, cubeS = cubeS a + cubeS b\<rparr>"

definition cubeScale :: "Cube \<Rightarrow> int64 \<Rightarrow> Cube" where
  "cubeScale d k = \<lparr>cubeQ = cubeQ d * k, cubeR = cubeR d * k, cubeS = cubeS d * k\<rparr>"

definition cubeNeighbor :: "Cube \<Rightarrow> nat \<Rightarrow> Cube" where
  "cubeNeighbor c dir =
     (let d = cubeDirections ! dir
      in \<lparr>cubeQ = cubeQ c + cubeQ d, cubeR = cubeR c + cubeR d, cubeS = cubeS c + cubeS d\<rparr>)"

definition cubeToCoord :: "Cube \<Rightarrow> Coord" where
  "cubeToCoord c = \<lparr>coordQ = cubeQ c, coordR = cubeR c\<rparr>"

text \<open>One side: the inner loop \<open>for range k\<close> over the slice and the cursor.\<close>

primrec ringSide :: "nat \<Rightarrow> nat \<Rightarrow> Coord list \<times> Cube \<Rightarrow> Coord list \<times> Cube" where
  "ringSide 0 dir st = st"
| "ringSide (Suc n) dir st =
     ringSide n dir (fst st @ [cubeToCoord (snd st)], cubeNeighbor (snd st) dir)"

definition RingInto :: "Coord list \<Rightarrow> Coord \<Rightarrow> int64 \<Rightarrow> Coord list" where
  "RingInto dst center k =
     (if k <s 0 then dst
      else let cb = toCube center
      in if k = 0 then dst @ [center]
      else let cur = cubeAdd cb (cubeScale (cubeDirections ! 0) k)
      in fst (fold (\<lambda>i. ringSide (unat k) ((i + 2) mod 6)) [0..<6] (dst, cur)))"

definition Ring :: "Coord \<Rightarrow> int64 \<Rightarrow> Coord list" where
  "Ring center k =
     (if k <s 0 then []
      else let cb = toCube center
      in if k = 0 then [center]
      else let cur = cubeAdd cb (cubeScale (cubeDirections ! 0) k)
      in fst (fold (\<lambda>i. ringSide (unat k) ((i + 2) mod 6)) [0..<6] ([], cur)))"

text \<open>
  The counters of \<open>for k := a; k <= b; k++\<close> and \<open>for k := range b\<close>. (With
  \<open>b\<close> the largest \<open>int\<close> the first loop of the code would not end; the walks below
  are the code's for every smaller bound.)
\<close>

definition countUp :: "int64 \<Rightarrow> int64 \<Rightarrow> int64 list" where
  "countUp a b = map word_of_int [sint a..sint b]"

definition countBelow :: "int64 \<Rightarrow> int64 list" where
  "countBelow b = map word_of_int [0..sint b - 1]"

definition maxInt :: "int64 \<Rightarrow> int64 \<Rightarrow> int64" where
  "maxInt a b = (if a <s b then b else a)"

definition SpiralRange :: "Coord list \<Rightarrow> Coord \<Rightarrow> int64 \<Rightarrow> int64 \<Rightarrow> Coord list" where
  "SpiralRange dst center minR maxR =
     (if maxR <s 0 \<or> maxR <s minR then dst
      else let dst = (if minR \<le>s 0 then dst @ [center] else dst);
               start = maxInt minR 1
      in fold (\<lambda>k dst. RingInto dst center k) (countUp start maxR) dst)"

definition WalkRings :: "Coord list \<Rightarrow> Coord \<Rightarrow> int64 \<Rightarrow> Coord list" where
  "WalkRings dst center maxR =
     (if maxR <s 0 then dst
      else fold (\<lambda>k dst. RingInto dst center k) (countUp 1 maxR) (dst @ [center]))"

subsection \<open>Lazy iterators\<close>

text \<open>A consumer answers \<open>(more, state)\<close>; an iterator answers whether it was not stopped.\<close>

type_synonym ('a, 's) yield = "'a \<Rightarrow> 's \<Rightarrow> bool \<times> 's"

primrec ringSideSeq :: "(Coord, 's) yield \<Rightarrow> nat \<Rightarrow> nat \<Rightarrow> Cube \<Rightarrow> 's \<Rightarrow> bool \<times> Cube \<times> 's" where
  "ringSideSeq yield 0 dir cur s = (True, cur, s)"
| "ringSideSeq yield (Suc n) dir cur s =
     (let (more, s') = yield (cubeToCoord cur) s
      in if \<not> more then (False, cur, s')
         else ringSideSeq yield n dir (cubeNeighbor cur dir) s')"

primrec ringSidesSeq :: "(Coord, 's) yield \<Rightarrow> nat \<Rightarrow> nat list \<Rightarrow> Cube \<Rightarrow> 's \<Rightarrow> bool \<times> 's" where
  "ringSidesSeq yield n [] cur s = (True, s)"
| "ringSidesSeq yield n (i # is) cur s =
     (let (more, cur', s') = ringSideSeq yield n ((i + 2) mod 6) cur s
      in if \<not> more then (False, s') else ringSidesSeq yield n is cur' s')"

definition RingSeq :: "Coord \<Rightarrow> int64 \<Rightarrow> (Coord, 's) yield \<Rightarrow> 's \<Rightarrow> bool \<times> 's" where
  "RingSeq center k yield s =
     (if k <s 0 then (True, s)
      else let cb = toCube center
      in if k = 0 then yield center s
      else let cur = cubeAdd cb (cubeScale (cubeDirections ! 0) k)
      in ringSidesSeq yield (unat k) [0..<6] cur s)"

primrec ringsSeq :: "Coord \<Rightarrow> int64 list \<Rightarrow> (Coord, 's) yield \<Rightarrow> 's \<Rightarrow> bool \<times> 's" where
  "ringsSeq center [] yield s = (True, s)"
| "ringsSeq center (k # ks) yield s =
     (let (more, s') = RingSeq center k yield s
      in if \<not> more then (False, s') else ringsSeq center ks yield s')"

definition WalkRingsSeq :: "Coord \<Rightarrow> int64 \<Rightarrow> (Coord, 's) yield \<Rightarrow> 's \<Rightarrow> bool \<times> 's" where
  "WalkRingsSeq center maxR yield s =
     (if maxR <s 0 then (True, s)
      else let (more, s') = yield center s
      in if \<not> more then (False, s') else ringsSeq center (countUp 1 maxR) yield s')"

definition SpiralRangeSeq ::
  "Coord \<Rightarrow> int64 \<Rightarrow> int64 \<Rightarrow> (Coord, 's) yield \<Rightarrow> 's \<Rightarrow> bool \<times> 's" where
  "SpiralRangeSeq center minR maxR yield s =
     (if maxR <s 0 \<or> maxR <s minR then (True, s)
      else let (more, s') = (if minR \<le>s 0 then yield center s else (True, s))
      in if \<not> more then (False, s')
         else ringsSeq center (countUp (maxInt minR 1) maxR) yield s')"

subsection \<open>Packed walks\<close>

record CoordPacked =
  cpCoord :: Coord
  cpPacked :: PackedCoord

definition WalkRingsPacked :: "Coord \<Rightarrow> int64 \<Rightarrow> PackedCoord list" where
  "WalkRingsPacked center maxR =
     (if maxR <s 0 then []
      else fold (\<lambda>k out.
        fold (\<lambda>c out. case Pack c of Inl _ \<Rightarrow> out | Inr p \<Rightarrow> out @ [p])
          (RingInto [] center k) out) (countBelow (maxR + 1)) [])"

definition WalkRingsCoordPacked :: "Coord \<Rightarrow> int64 \<Rightarrow> CoordPacked list" where
  "WalkRingsCoordPacked center maxR =
     (if maxR <s 0 then []
      else fold (\<lambda>k out.
        fold (\<lambda>c out. case Pack c of Inl _ \<Rightarrow> out | Inr p \<Rightarrow> out @ [\<lparr>cpCoord = c, cpPacked = p\<rparr>])
          (RingInto [] center k) out) (countBelow (maxR + 1)) [])"

definition packedYield :: "(CoordPacked, 's) yield \<Rightarrow> (Coord, 's) yield" where
  "packedYield yield c s =
     (case Pack c of Inl _ \<Rightarrow> (True, s) | Inr p \<Rightarrow> yield \<lparr>cpCoord = c, cpPacked = p\<rparr> s)"

definition WalkRingsPackedSeq ::
  "Coord \<Rightarrow> int64 \<Rightarrow> (CoordPacked, 's) yield \<Rightarrow> 's \<Rightarrow> bool \<times> 's" where
  "WalkRingsPackedSeq center maxR yield s = WalkRingsSeq center maxR (packedYield yield) s"

definition SpiralRangePackedSeq ::
  "Coord \<Rightarrow> int64 \<Rightarrow> int64 \<Rightarrow> (CoordPacked, 's) yield \<Rightarrow> 's \<Rightarrow> bool \<times> 's" where
  "SpiralRangePackedSeq center minR maxR yield s =
     SpiralRangeSeq center minR maxR (packedYield yield) s"

subsection \<open>Resolution levels\<close>

definition floorDiv :: "int64 \<Rightarrow> int64 \<Rightarrow> int64" where
  "floorDiv a b =
     (let q = divGo a b in if (a XOR b) <s 0 \<and> q * b \<noteq> a then q - 1 else q)"

definition CoarsenCoord :: "Coord \<Rightarrow> int64 \<Rightarrow> lattice_error + Coord" where
  "CoarsenCoord c factor =
     (if factor <s 2 then Inl (LatticeError ''lattice: CoarsenCoord factor must be >= 2'')
      else Inr \<lparr>coordQ = floorDiv (coordQ c) factor, coordR = floorDiv (coordR c) factor\<rparr>)"

definition RefineCoord :: "Coord \<Rightarrow> int64 \<Rightarrow> lattice_error + Coord list" where
  "RefineCoord coarse factor =
     (if factor <s 2 then Inl (LatticeError ''lattice: RefineCoord factor must be >= 2'')
      else let baseQ = coordQ coarse * factor; baseR = coordR coarse * factor
      in Inr (concat (map (\<lambda>dq. map (\<lambda>dr. \<lparr>coordQ = baseQ + dq, coordR = baseR + dr\<rparr>)
           (countBelow factor)) (countBelow factor))))"

definition CoarsenMulti :: "Coord \<Rightarrow> int64 \<Rightarrow> int64 \<Rightarrow> lattice_error + Coord" where
  "CoarsenMulti c factor levels =
     (if factor <s 2 then Inl (LatticeError ''lattice: CoarsenMulti factor must be >= 2'')
      else if levels <s 1 then Inl (LatticeError ''lattice: CoarsenMulti levels must be >= 1'')
      else Inr (((\<lambda>cur. \<lparr>coordQ = floorDiv (coordQ cur) factor,
                         coordR = floorDiv (coordR cur) factor\<rparr>) ^^ unat levels) c))"

subsection \<open>The aperture-7 hierarchy\<close>

definition coordLess :: "Coord \<Rightarrow> Coord \<Rightarrow> bool" where
  "coordLess a b \<longleftrightarrow> coordQ a <s coordQ b \<or> coordQ a = coordQ b \<and> coordR a <s coordR b"

definition SuperHexCenter :: "Coord \<Rightarrow> Coord" where
  "SuperHexCenter parent =
     \<lparr>coordQ = 2 * coordQ parent - coordR parent, coordR = coordQ parent + 3 * coordR parent\<rparr>"

definition superHexStep :: "Coord \<Rightarrow> Coord \<Rightarrow> Coord \<times> int64 \<Rightarrow> Coord \<times> int64" where
  "superHexStep c candidate best =
     (let distance = Distance c (SuperHexCenter candidate)
      in if distance <s snd best \<or> distance = snd best \<and> coordLess candidate (fst best)
         then (candidate, distance) else best)"

definition superHexDeltas :: "(int64 \<times> int64) list" where
  "superHexDeltas = [(-1, -1), (-1, 0), (-1, 1), (0, -1), (0, 0), (0, 1), (1, -1), (1, 0), (1, 1)]"

definition SuperHexParent :: "Coord \<Rightarrow> Coord" where
  "SuperHexParent c =
     (let approxQ = floorDiv (3 * coordQ c + coordR c) 7;
          approxR = floorDiv (- coordQ c + 2 * coordR c) 7;
          best = \<lparr>coordQ = approxQ, coordR = approxR\<rparr>;
          bestDistance = Distance c (SuperHexCenter best)
      in fst (fold (\<lambda>(dq, dr). superHexStep c \<lparr>coordQ = approxQ + dq, coordR = approxR + dr\<rparr>)
           superHexDeltas (best, bestDistance)))"

definition SuperHexParentAtLevel :: "Coord \<Rightarrow> int64 \<Rightarrow> Coord" where
  "SuperHexParentAtLevel c levels = (SuperHexParent ^^ unat (maxInt levels 0)) c"

definition SuperHexCenterAtLevel :: "Coord \<Rightarrow> int64 \<Rightarrow> Coord" where
  "SuperHexCenterAtLevel parent levels = (SuperHexCenter ^^ unat (maxInt levels 0)) parent"

definition SuperHexChildren :: "Coord \<Rightarrow> Coord list" where
  "SuperHexChildren parent =
     (let center = SuperHexCenter parent in RingInto [center] center 1)"

subsection \<open>Rings as integer offsets\<close>

definition hexDist :: "int \<times> int \<Rightarrow> int" where
  "hexDist p = (\<bar>fst p\<bar> + \<bar>snd p\<bar> + \<bar>fst p + snd p\<bar>) div 2"

definition shift :: "Coord \<Rightarrow> int \<times> int \<Rightarrow> Coord" where
  "shift c p = \<lparr>coordQ = coordQ c + word_of_int (fst p), coordR = coordR c + word_of_int (snd p)\<rparr>"

definition ringOffsets :: "nat \<Rightarrow> (int \<times> int) list" where
  "ringOffsets k = (let K = int k in
     map (\<lambda>j. (K, - int j)) [0..<k] @ map (\<lambda>j. (K - int j, - K)) [0..<k] @
     map (\<lambda>j. (- int j, int j - K)) [0..<k] @ map (\<lambda>j. (- K, int j)) [0..<k] @
     map (\<lambda>j. (int j - K, K)) [0..<k] @ map (\<lambda>j. (int j, K - int j)) [0..<k])"

definition cubeMove :: "Cube \<Rightarrow> nat \<Rightarrow> nat \<Rightarrow> Cube" where
  "cubeMove c dir j = cubeAdd c (cubeScale (cubeDirections ! dir) (of_nat j))"

lemma cubeMove_Suc: "cubeMove (cubeNeighbor c dir) dir j = cubeMove c dir (Suc j)"
  by (simp add: cubeMove_def cubeNeighbor_def cubeAdd_def cubeScale_def Let_def algebra_simps)

lemma cubeMove_0 [simp]: "cubeMove c dir 0 = c"
  by (simp add: cubeMove_def cubeAdd_def cubeScale_def)

lemma ringSide_eq:
  "ringSide n dir (dst, cur) =
     (dst @ map (\<lambda>j. cubeToCoord (cubeMove cur dir j)) [0..<n], cubeMove cur dir n)"
proof (induction n arbitrary: dst cur)
  case (Suc n)
  have "[0..<Suc n] = 0 # map Suc [0..<n]"
    by (simp only: map_Suc_upt upt_conv_Cons [of 0 "Suc n"] zero_less_Suc)
  with Suc show ?case by (simp add: cubeMove_Suc comp_def del: upt_Suc)
qed simp

lemma six: "[0..<6] = [0, 1, 2, 3, 4, 5::nat]"
  by (simp add: upt_rec)

lemma ring_walk_eq:
  assumes "k \<noteq> 0"
  shows "fst (fold (\<lambda>i. ringSide (unat k) ((i + 2) mod 6)) [0..<6]
           (dst, cubeAdd (toCube center) (cubeScale (cubeDirections ! 0) k))) =
         dst @ map (shift center) (ringOffsets (unat k))"
proof -
  define n where "n = unat k"
  then have k: "k = of_nat n" by simp
  show ?thesis
    unfolding n_def [symmetric] unfolding k six
    by (simp add: ringSide_eq ringOffsets_def Let_def shift_def cubeMove_def cubeAdd_def cubeScale_def
        cubeDirections_def toCube_def cubeToCoord_def algebra_simps comp_def)
qed

lemma Ring_offsets:
  assumes "0 \<le>s k"
  shows "Ring center k = (if k = 0 then [center] else map (shift center) (ringOffsets (unat k)))"
  using assms ring_walk_eq [of k "[]" center] by (auto simp: Ring_def Let_def not_le word_sless_alt word_sle_eq)

lemma RingInto_append: "RingInto dst center k = dst @ Ring center k"
  using ring_walk_eq [of k dst center] ring_walk_eq [of k "[]" center]
  by (simp add: Ring_def RingInto_def Let_def)

lemma length_ringOffsets: "length (ringOffsets k) = 6 * k"
  by (simp add: ringOffsets_def Let_def)

lemma hexDist_ringOffsets: "p \<in> set (ringOffsets k) \<Longrightarrow> hexDist p = int k"
  by (auto simp: ringOffsets_def Let_def hexDist_def)

lemma distinct_ringOffsets: "distinct (ringOffsets k)"
  by (auto simp: ringOffsets_def Let_def distinct_map inj_on_def)

lemma ringOffsets_complete:
  assumes "hexDist (q, r) = int k" "0 < k"
  shows "(q, r) \<in> set (ringOffsets k)"
proof -
  have sum: "\<bar>q\<bar> + \<bar>r\<bar> + \<bar>q + r\<bar> = 2 * int k"
    using assms by (simp add: hexDist_def) presburger
  have img: "(q, r) \<in> (\<lambda>j. f j) ` {0..<k}" if "0 \<le> j" "j < int k" "f (nat j) = (q, r)"
    for j and f :: "nat \<Rightarrow> int \<times> int"
    using that by (intro image_eqI [of _ _ "nat j"]) auto
  have cases: "q = int k \<and> - int k < r \<and> r \<le> 0 \<or> r = - int k \<and> 0 < q \<and> q \<le> int k \<or>
      q + r = - int k \<and> - int k < q \<and> q \<le> 0 \<or> q = - int k \<and> 0 \<le> r \<and> r < int k \<or>
      r = int k \<and> - int k \<le> q \<and> q < 0 \<or> q + r = int k \<and> 0 \<le> q \<and> q < int k"
  proof (cases "0 \<le> q"; cases "0 \<le> r"; cases "0 \<le> q + r")
  qed (use sum assms(2) in auto)
  then consider "q = int k \<and> - int k < r \<and> r \<le> 0" | "r = - int k \<and> 0 < q \<and> q \<le> int k"
    | "q + r = - int k \<and> - int k < q \<and> q \<le> 0" | "q = - int k \<and> 0 \<le> r \<and> r < int k"
    | "r = int k \<and> - int k \<le> q \<and> q < 0" | "q + r = int k \<and> 0 \<le> q \<and> q < int k"
    by blast
  then show ?thesis
  proof cases
    case 1
    then show ?thesis using img [of "- r" "\<lambda>j. (int k, - int j)"] 
      by (simp add: ringOffsets_def Let_def)
  next
    case 2
    then show ?thesis using img [of "int k - q" "\<lambda>j. (int k - int j, - int k)"]
      by (simp add: ringOffsets_def Let_def)
  next
    case 3
    then have "r = - q - int k" by simp
    then show ?thesis using 3 img [of "- q" "\<lambda>j. (- int j, int j - int k)"]
      by (simp add: ringOffsets_def Let_def)
  next
    case 4
    then show ?thesis using img [of r "\<lambda>j. (- int k, int j)"]
      by (simp add: ringOffsets_def Let_def)
  next
    case 5
    then show ?thesis using img [of "q + int k" "\<lambda>j. (int j - int k, int k)"]
      by (simp add: ringOffsets_def Let_def)
  next
    case 6
    then have "r = int k - q" by simp
    then show ?thesis using 6 img [of q "\<lambda>j. (int j, int k - int j)"]
      by (simp add: ringOffsets_def Let_def)
  qed
qed

lemma set_ringOffsets:
  assumes "0 < k"
  shows "set (ringOffsets k) = {p. hexDist p = int k}"
proof (intro equalityI subsetI)
  fix p assume "p \<in> {p. hexDist p = int k}"
  with assms show "p \<in> set (ringOffsets k)" by (cases p) (simp add: ringOffsets_complete)
qed (simp add: hexDist_ringOffsets)

subsection \<open>Distances on machine words\<close>

lemma abs64_value: "- (2 ^ 63) < sint x \<Longrightarrow> sint (abs64 x) = \<bar>sint x\<bar>"
proof -
  assume gt: "- (2 ^ 63) < sint x"
  have "sint (- x) = - sint x"
    using gt sint_bounds64 [of x] sint_word_of_int_range [of "- sint x"] by simp
  then show ?thesis by (simp add: abs64_def word_sless_alt)
qed

lemma divGo_value:
  assumes "sint b \<noteq> 0" "sint a \<noteq> - (2 ^ 63) \<or> sint b \<noteq> - 1"
  shows "sint (divGo a b) = sint a sdiv sint b"
proof -
  have "- (2 ^ 63) \<le> sint a sdiv sint b \<and> sint a sdiv sint b < 2 ^ 63"
  proof (cases "\<bar>sint b\<bar> = 1")
    case True
    then consider "sint b = 1" | "sint b = - 1" by linarith
    then show ?thesis
      by cases (use assms sint_bounds64 [of a] in \<open>auto simp: signed_divide_int_def sgn_if\<close>)
  next
    case False
    with assms have "2 \<le> \<bar>sint b\<bar>" by linarith
    then have "\<bar>sint a\<bar> div \<bar>sint b\<bar> \<le> \<bar>sint a\<bar> div 2" by (intro zdiv_mono2) auto
    moreover have "\<bar>sint a\<bar> \<le> 2 ^ 63" using sint_bounds64 [of a] by linarith
    moreover have "0 \<le> \<bar>sint a\<bar> div \<bar>sint b\<bar>" by (simp add: div_int_pos_iff)
    moreover have "i div 2 < 2 ^ 63" if "i \<le> 2 ^ 63" for i :: int using that by simp
    ultimately have "\<bar>\<bar>sint a\<bar> div \<bar>sint b\<bar>\<bar> < 2 ^ 63" by (metis abs_of_nonneg le_less_trans)
    then show ?thesis by (auto simp: signed_divide_int_def sgn_if)
  qed
  then show ?thesis by (simp add: divGo_def sint_word_of_int_range)
qed

lemma sint_small: "\<bar>i\<bar> < 2 ^ 63 \<Longrightarrow> sint (word_of_int i :: int64) = i"
  by (intro sint_word_of_int_range) linarith+

lemma hexDist_even: "even (\<bar>q\<bar> + \<bar>r\<bar> + \<bar>q + r\<bar> :: int)"
  by simp

lemma Distance_offsets:
  assumes d: "coordQ c - coordQ c' = word_of_int q" "coordR c - coordR c' = word_of_int r"
    and b: "hexDist (q, r) < 2 ^ 62"
  shows "Distance c c' = word_of_int (hexDist (q, r))"
proof -
  have sum: "\<bar>q\<bar> + \<bar>r\<bar> + \<bar>q + r\<bar> = 2 * hexDist (q, r)"
    using hexDist_even [of q r] by (simp only: hexDist_def fst_conv snd_conv) simp
  then have lt: "\<bar>q\<bar> < 2 ^ 63" "\<bar>r\<bar> < 2 ^ 63" "\<bar>q + r\<bar> < 2 ^ 63"
    "\<bar>2 * hexDist (q, r)\<bar> < 2 ^ 63"
    using b abs_ge_zero [of q] abs_ge_zero [of r] abs_ge_zero [of "q + r"]
    by (simp_all del: abs_ge_zero)
  have ds: "(coordQ c + coordR c) - (coordQ c' + coordR c') = word_of_int (q + r)"
    using d by (simp add: algebra_simps)
  have a: "abs64 (word_of_int i) = word_of_int \<bar>i\<bar>" if "\<bar>i\<bar> < 2 ^ 63" for i
    using sint_small [OF that] by (simp add: abs64_def word_sless_alt)
  have "abs64 (word_of_int q) + abs64 (word_of_int r) + abs64 (word_of_int (q + r)) =
      word_of_int (2 * hexDist (q, r))"
    by (simp only: a lt sum [symmetric]) simp
  moreover have "0 \<le> hexDist (q, r)" by (simp add: hexDist_def)
  then have "(2 * hexDist (q, r)) sdiv 2 = hexDist (q, r)"
    by (auto simp: signed_divide_int_def sgn_if)
  then have "divGo (word_of_int (2 * hexDist (q, r))) 2 = word_of_int (hexDist (q, r))"
    using lt by (simp only: divGo_def sint_small) simp
  ultimately show ?thesis by (simp only: Distance_def Let_def d ds)
qed

lemma hexDist_neg: "hexDist (- q, - r) = hexDist (q, r)"
  by (simp add: hexDist_def abs_minus_commute)

lemma Distance_shift:
  assumes "hexDist p < 2 ^ 62"
  shows "Distance c (shift c p) = word_of_int (hexDist p)" "Distance (shift c p) c = word_of_int (hexDist p)"
  using assms Distance_offsets [of c "shift c p" "- fst p" "- snd p"]
    Distance_offsets [of "shift c p" c "fst p" "snd p"]
  by (simp_all add: shift_def hexDist_neg)


lemma shift_inj:
  assumes "shift c p = shift c p'" "hexDist p < 2 ^ 62" "hexDist p' < 2 ^ 62"
  shows "p = p'"
proof -
  have *: "word_of_int i = (word_of_int j :: int64) \<Longrightarrow> \<bar>i\<bar> < 2 ^ 63 \<Longrightarrow> \<bar>j\<bar> < 2 ^ 63 \<Longrightarrow> i = j"
    for i j by (metis sint_small)
  have b: "\<bar>fst p\<bar> < 2 ^ 63" "\<bar>snd p\<bar> < 2 ^ 63" if "hexDist p < 2 ^ 62" for p
    using that by (simp_all add: hexDist_def)
  have "fst p = fst p'" "snd p = snd p'"
    using assms by (auto simp: shift_def intro!: * b)
  then show ?thesis by (simp add: prod_eq_iff)
qed

text \<open>Cells whose coordinate differences stay clear of the word boundary.\<close>

definition near :: "Coord \<Rightarrow> Coord \<Rightarrow> bool" where
  "near c c' \<longleftrightarrow> \<bar>sint (coordQ c' - coordQ c)\<bar> < 2 ^ 60 \<and> \<bar>sint (coordR c' - coordR c)\<bar> < 2 ^ 60"

definition offsetOf :: "Coord \<Rightarrow> Coord \<Rightarrow> int \<times> int" where
  "offsetOf c c' = (sint (coordQ c' - coordQ c), sint (coordR c' - coordR c))"

lemma shift_offsetOf [simp]: "shift c (offsetOf c c') = c'"
  by (simp add: shift_def offsetOf_def)

lemma offsetOf_shift: "\<bar>fst p\<bar> < 2 ^ 63 \<Longrightarrow> \<bar>snd p\<bar> < 2 ^ 63 \<Longrightarrow> offsetOf c (shift c p) = p"
  by (simp only: offsetOf_def shift_def Coord.simps add_diff_cancel_left' sint_small prod.collapse)

lemma near_hexDist: "near c c' \<Longrightarrow> hexDist (offsetOf c c') < 2 ^ 62"
  by (auto simp: near_def offsetOf_def hexDist_def)

lemma near_Distance:
  assumes "near c c'"
  shows "Distance c c' = word_of_int (hexDist (offsetOf c c'))"
  using Distance_shift(1) [OF near_hexDist [OF assms], of c] by simp

lemma near_shift: "hexDist p < 2 ^ 60 \<Longrightarrow> near c (shift c p)"
proof -
  assume "hexDist p < 2 ^ 60"
  then have "\<bar>fst p\<bar> < 2 ^ 60" "\<bar>snd p\<bar> < 2 ^ 60" by (auto simp: hexDist_def)
  moreover have "near c c' \<longleftrightarrow> \<bar>fst (offsetOf c c')\<bar> < 2 ^ 60 \<and> \<bar>snd (offsetOf c c')\<bar> < 2 ^ 60" for c'
    by (simp add: near_def offsetOf_def)
  ultimately show ?thesis by (simp add: offsetOf_shift)
qed

lemma sint_Distance_shift:
  assumes "hexDist p < 2 ^ 62"
  shows "sint (Distance c (shift c p)) = hexDist p"
proof -
  have "0 \<le> hexDist p" by (simp add: hexDist_def)
  then have "\<bar>hexDist p\<bar> < 2 ^ 63" using assms by simp
  then show ?thesis using assms by (simp only: Distance_shift sint_small)
qed

subsection \<open>Rings and discs\<close>

lemma hexDist_nonneg [simp]: "0 \<le> hexDist p"
  by (simp add: hexDist_def)

lemma hexDist_0_iff: "hexDist p = 0 \<longleftrightarrow> p = (0, 0)"
  by (cases p) (auto simp: hexDist_def)

lemma shift_0 [simp]: "shift c (0, 0) = c"
  by (simp add: shift_def)

lemma hexDist_0 [simp]: "hexDist (0, 0) = 0"
  by (simp add: hexDist_def)

definition ringOffsets0 :: "nat \<Rightarrow> (int \<times> int) list" where
  "ringOffsets0 k = (if k = 0 then [(0, 0)] else ringOffsets k)"

lemma Ring_shift: "0 \<le>s k \<Longrightarrow> Ring center k = map (shift center) (ringOffsets0 (unat k))"
  by (auto simp: Ring_offsets ringOffsets0_def unat_eq_zero)

lemma set_ringOffsets0: "set (ringOffsets0 k) = {p. hexDist p = int k}"
  using hexDist_0_iff by (auto simp: ringOffsets0_def set_ringOffsets)

lemma distinct_ringOffsets0: "distinct (ringOffsets0 k)"
  by (simp add: ringOffsets0_def distinct_ringOffsets)

lemma length_ringOffsets0: "length (ringOffsets0 k) = (if k = 0 then 1 else 6 * k)"
  by (simp add: ringOffsets0_def length_ringOffsets)

definition discOffsets :: "nat \<Rightarrow> (int \<times> int) list" where
  "discOffsets n = concat (map ringOffsets0 [0..<Suc n])"

lemma discOffsets_Suc: "discOffsets (Suc n) = discOffsets n @ ringOffsets (Suc n)"
  by (simp add: discOffsets_def ringOffsets0_def)

lemma discOffsets_0: "discOffsets 0 = [(0, 0)]"
  by (simp add: discOffsets_def ringOffsets0_def)

lemma set_discOffsets: "set (discOffsets n) = {p. hexDist p \<le> int n}"
proof (induction n)
  case 0
  have "hexDist p \<le> 0 \<longleftrightarrow> p = (0, 0)" for p
    using hexDist_nonneg [of p] hexDist_0_iff [of p] by linarith
  then show ?case by (simp add: discOffsets_0)
next
  case (Suc n)
  have "hexDist p \<le> int (Suc n) \<longleftrightarrow> hexDist p \<le> int n \<or> hexDist p = int (Suc n)" for p
    by linarith
  then show ?case
    by (simp only: discOffsets_Suc set_append Suc.IH set_ringOffsets zero_less_Suc Collect_disj_eq)
qed

lemma distinct_discOffsets: "distinct (discOffsets n)"
proof (induction n)
  case (Suc n)
  then show ?case
    by (simp only: discOffsets_Suc distinct_append distinct_ringOffsets set_ringOffsets
        set_discOffsets zero_less_Suc) auto
qed (simp add: discOffsets_0)

lemma length_discOffsets: "length (discOffsets n) = 3 * n * n + 3 * n + 1"
  by (induction n) (simp_all add: discOffsets_0 discOffsets_Suc length_ringOffsets algebra_simps)

lemma unat_sint: "0 \<le>s (k :: int64) \<Longrightarrow> unat k = nat (sint k)"
proof -
  assume "0 \<le>s k"
  then have k: "0 \<le> sint k" by (simp add: word_sle_eq)
  then have "uint (word_of_int (sint k) :: int64) = sint k"
    using sint_bounds64 [of k] by (simp only: uint_word_of_int) simp
  then have "uint k = sint k" by (simp only: word_of_sint)
  then show ?thesis by (simp flip: nat_uint_eq)
qed

lemma mem_Ring_iff:
  assumes k: "0 \<le> sint k" "sint k < 2 ^ 60"
  shows "c \<in> set (Ring center k) \<longleftrightarrow> near center c \<and> Distance center c = k"
proof
  have n: "unat k = nat (sint k)" using k by (intro unat_sint) (simp add: word_sle_eq)
  have ring: "Ring center k = map (shift center) (ringOffsets0 (unat k))"
    using k by (simp add: Ring_shift word_sle_eq)
  {
    assume "c \<in> set (Ring center k)"
    then obtain p where p: "c = shift center p" "hexDist p = sint k"
      using k by (auto simp: ring set_ringOffsets0 n)
    then have "near center c" using k by (simp add: near_shift)
    moreover have "Distance center c = k" using p k by (simp add: Distance_shift)
    ultimately show "near center c \<and> Distance center c = k" by simp
  next
    assume c: "near center c \<and> Distance center c = k"
    have "hexDist (offsetOf center c) = sint k"
      using c near_hexDist [of center c] sint_Distance_shift [of "offsetOf center c" center]
      by simp
    then show "c \<in> set (Ring center k)"
      unfolding ring set_map set_ringOffsets0 n using k
      by (intro image_eqI [of _ _ "offsetOf center c"]) simp_all
  }
qed

lemma distinct_Ring:
  assumes k: "0 \<le> sint k" "sint k < 2 ^ 60"
  shows "distinct (Ring center k)" "length (Ring center k) = (if k = 0 then 1 else 6 * unat k)"
proof -
  have n: "unat k = nat (sint k)" using k by (intro unat_sint) (simp add: word_sle_eq)
  have "inj_on (shift center) (set (ringOffsets0 (unat k)))"
    using k by (intro inj_onI shift_inj) (simp_all add: set_ringOffsets0 n)
  then show "distinct (Ring center k)"
    using k by (simp add: Ring_shift word_sle_eq distinct_map distinct_ringOffsets0)
  show "length (Ring center k) = (if k = 0 then 1 else 6 * unat k)"
    using k by (simp add: Ring_shift word_sle_eq length_ringOffsets0 unat_eq_zero)
qed

lemma walk_fold:
  "fold (\<lambda>k dst. RingInto dst center k) ks dst = dst @ concat (map (Ring center) ks)"
  by (induction ks arbitrary: dst) (simp_all add: RingInto_append)

lemma upto_nat: "[int a..int b] = map int [a..<Suc b]"
proof (induction b)
  case (Suc b)
  show ?case
  proof (cases "a \<le> Suc b")
    case True
    then have "[int a..int (Suc b)] = [int a..int b] @ [int (Suc b)]"
      using upto_rec2 [of "int a" "int (Suc b)"] by simp
    with Suc True show ?thesis by simp
  qed simp
qed (cases a; simp)

lemma countUp_nat:
  "0 \<le> sint a \<Longrightarrow> 0 \<le> sint b \<Longrightarrow> countUp a b = map of_nat [nat (sint a)..<Suc (nat (sint b))]"
  using upto_nat [of "nat (sint a)" "nat (sint b)"] by (simp add: countUp_def comp_def del: upt_Suc)

lemma countBelow_nat: "0 \<le> sint b \<Longrightarrow> countBelow b = map of_nat [0..<nat (sint b)]"
proof (cases "sint b = 0")
  case False
  assume "0 \<le> sint b"
  with False have "sint b - 1 = int (nat (sint b - 1))" "Suc (nat (sint b - 1)) = nat (sint b)" by simp_all
  then show ?thesis
    using upto_nat [of 0 "nat (sint b - 1)"] by (simp add: countBelow_def comp_def del: upt_Suc)
qed (simp add: countBelow_def)

lemma Ring_of_nat:
  assumes "int n < 2 ^ 63"
  shows "Ring center (of_nat n) = map (shift center) (ringOffsets0 n)"
proof -
  have "sint (word_of_int (int n) :: int64) = int n" by (rule sint_small) (use assms in simp)
  then have s: "sint (of_nat n :: int64) = int n" by simp
  then have "0 \<le>s (of_nat n :: int64)" by (simp add: word_sle_eq)
  with s show ?thesis using unat_sint [of "of_nat n"] by (simp add: Ring_shift)
qed

lemma Rings_of_nat:
  assumes "int n < 2 ^ 63"
  shows "concat (map (Ring center) (map of_nat [m..<Suc n])) =
         map (shift center) (concat (map ringOffsets0 [m..<Suc n]))"
proof -
  have "map (Ring center) (map of_nat [m..<Suc n]) = map (\<lambda>k. map (shift center) (ringOffsets0 k)) [m..<Suc n]"
    using assms by (auto intro!: Ring_of_nat simp del: upt_Suc)
  then show ?thesis by (simp only: map_concat map_map comp_def)
qed

lemma SpiralRange_shift:
  assumes "0 \<le> sint maxR" "0 \<le> sint minR" "sint minR \<le> sint maxR"
  shows "SpiralRange dst center minR maxR =
         dst @ map (shift center) (concat (map ringOffsets0 [nat (sint minR)..<Suc (nat (sint maxR))]))"
proof -
  define m n where mn: "m = nat (sint minR)" "n = nat (sint maxR)"
  have b: "int n < 2 ^ 63" using assms sint_bounds64 [of maxR] mn by simp
  have "SpiralRange dst center minR maxR =
      dst @ (if m = 0 then [center] else []) @ concat (map (Ring center) (countUp (maxInt minR 1) maxR))"
    using assms by (simp add: SpiralRange_def Let_def walk_fold word_sless_alt word_sle_eq mn)
  moreover have "nat (sint (maxInt minR 1)) = max m 1" "0 \<le> sint (maxInt minR 1)"
    using assms by (auto simp: maxInt_def word_sless_alt mn)
  then have "countUp (maxInt minR 1) maxR = map of_nat [max m 1..<Suc n]"
    using assms by (simp add: countUp_nat mn del: upt_Suc)
  moreover have "[m..<Suc n] = (if m = 0 then [0] else []) @ [max m 1..<Suc n]"
    by (cases m) (simp_all add: upt_conv_Cons max_def del: upt_Suc)
  ultimately have "SpiralRange dst center minR maxR =
      dst @ (if m = 0 then [center] else []) @
      map (shift center) (concat (map ringOffsets0 [max m 1..<Suc n]))"
    and "map (shift center) (concat (map ringOffsets0 [m..<Suc n])) = (if m = 0 then [center] else []) @
      map (shift center) (concat (map ringOffsets0 [max m 1..<Suc n]))"
    using Rings_of_nat [OF b, of center "max m 1"]
    by (simp_all only: map_append concat_append split: if_split) (simp_all add: ringOffsets0_def)
  then show ?thesis by (simp only: mn)
qed

lemma WalkRings_SpiralRange:
  assumes "0 \<le> sint maxR"
  shows "WalkRings dst center maxR = SpiralRange dst center 0 maxR"
  using assms by (simp add: WalkRings_def SpiralRange_def Let_def word_sless_alt word_sle_eq maxInt_def)

lemma WalkRings_shift:
  assumes "0 \<le> sint maxR"
  shows "WalkRings dst center maxR = dst @ map (shift center) (discOffsets (unat maxR))"
  using assms SpiralRange_shift [of maxR 0 dst center] unat_sint [of maxR]
  by (simp add: WalkRings_SpiralRange discOffsets_def word_sle_eq del: upt_Suc)

lemma sorted_map_const: "(\<And>x. x \<in> set xs \<Longrightarrow> f x = c) \<Longrightarrow> sorted (map f xs)"
  by (induction xs) auto

lemma sorted_discOffsets: "sorted (map hexDist (discOffsets n))"
proof (induction n)
  case (Suc n)
  have "sorted (map hexDist (ringOffsets (Suc n)))"
    by (rule sorted_map_const [where c = "int (Suc n)"]) (simp only: set_ringOffsets mem_Collect_eq zero_less_Suc)
  with Suc show ?case
    by (auto simp: discOffsets_Suc sorted_append set_discOffsets set_ringOffsets)
qed (simp add: discOffsets_0)

lemma WalkRings_disc:
  assumes r: "0 \<le> sint maxR" "sint maxR < 2 ^ 60"
  shows "distinct (WalkRings [] center maxR)"
    and "length (WalkRings [] center maxR) = 3 * unat maxR * unat maxR + 3 * unat maxR + 1"
    and "c \<in> set (WalkRings [] center maxR) \<longleftrightarrow> near center c \<and> Distance center c \<le>s maxR"
    and "sorted (map (\<lambda>c. sint (Distance center c)) (WalkRings [] center maxR))"
proof -
  have n: "unat maxR = nat (sint maxR)" using r by (intro unat_sint) (simp add: word_sle_eq)
  have walk: "WalkRings [] center maxR = map (shift center) (discOffsets (unat maxR))"
    using r by (simp add: WalkRings_shift)
  have disc: "p \<in> set (discOffsets (unat maxR)) \<longleftrightarrow> hexDist p \<le> sint maxR" for p
    using r by (simp add: set_discOffsets n)
  have "inj_on (shift center) (set (discOffsets (unat maxR)))"
    using r by (intro inj_onI shift_inj) (simp_all add: disc)
  then show "distinct (WalkRings [] center maxR)"
    by (simp add: walk distinct_map distinct_discOffsets)
  show "length (WalkRings [] center maxR) = 3 * unat maxR * unat maxR + 3 * unat maxR + 1"
    by (simp add: walk length_discOffsets)
  show "sorted (map (\<lambda>c. sint (Distance center c)) (WalkRings [] center maxR))"
  proof -
    have "map (\<lambda>c. sint (Distance center c)) (WalkRings [] center maxR) =
        map hexDist (discOffsets (unat maxR))"
      unfolding walk map_map comp_def using r
      by (intro map_cong refl sint_Distance_shift) (simp add: disc)
    then show ?thesis by (simp add: sorted_discOffsets)
  qed
  show "c \<in> set (WalkRings [] center maxR) \<longleftrightarrow> near center c \<and> Distance center c \<le>s maxR"
  proof
    assume "c \<in> set (WalkRings [] center maxR)"
    then obtain p where p: "c = shift center p" "hexDist p \<le> sint maxR"
      by (auto simp: walk disc)
    then show "near center c \<and> Distance center c \<le>s maxR"
      using r by (simp add: near_shift sint_Distance_shift word_sle_eq)
  next
    assume c: "near center c \<and> Distance center c \<le>s maxR"
    then have "hexDist (offsetOf center c) \<le> sint maxR"
      using near_hexDist [of center c] sint_Distance_shift [of "offsetOf center c" center]
      by (simp add: word_sle_eq)
    then have "shift center (offsetOf center c) \<in> set (WalkRings [] center maxR)"
      unfolding walk set_map by (intro imageI) (simp add: disc)
    then show "c \<in> set (WalkRings [] center maxR)" by simp
  qed
qed

subsection \<open>Iterators visit the slice until the consumer stops\<close>

primrec runYield :: "('a, 's) yield \<Rightarrow> 'a list \<Rightarrow> 's \<Rightarrow> bool \<times> 's" where
  "runYield yield [] s = (True, s)"
| "runYield yield (x # xs) s =
     (let (more, s') = yield x s in if \<not> more then (False, s') else runYield yield xs s')"

lemma runYield_append:
  "runYield yield (xs @ ys) s =
     (let (more, s') = runYield yield xs s in if \<not> more then (False, s') else runYield yield ys s')"
  by (induction xs arbitrary: s) (auto split: prod.splits)

lemma ringSideSeq_eq:
  "ringSideSeq yield n dir cur s =
     (let (more, s') = runYield yield (map (\<lambda>j. cubeToCoord (cubeMove cur dir j)) [0..<n]) s
      in (more, if more then cubeMove cur dir n else fst (snd (ringSideSeq yield n dir cur s)), s'))"
proof (induction n arbitrary: cur s)
  case (Suc n)
  have "[0..<Suc n] = 0 # map Suc [0..<n]"
    by (simp only: map_Suc_upt upt_conv_Cons [of 0 "Suc n"] zero_less_Suc)
  then show ?case
    by (subst (1 2) ringSideSeq.simps, subst Suc.IH)
      (auto simp: cubeMove_Suc comp_def Let_def simp del: upt_Suc split: prod.splits)
qed simp

lemma ringSides_append:
  "fst (fold (\<lambda>i. ringSide n ((i + 2) mod 6)) is (dst, cur)) =
   dst @ fst (fold (\<lambda>i. ringSide n ((i + 2) mod 6)) is ([], cur))"
proof (induction "is" arbitrary: dst cur)
  case (Cons i "is")
  show ?case
    unfolding fold.simps comp_def ringSide_eq
    by (subst (1 2) Cons.IH) simp
qed simp

lemma ringSidesSeq_eq:
  "ringSidesSeq yield n is cur s =
   runYield yield (fst (fold (\<lambda>i. ringSide n ((i + 2) mod 6)) is ([], cur))) s"
proof (induction "is" arbitrary: cur s)
  case (Cons i "is")
  show ?case
    unfolding fold.simps comp_def ringSide_eq ringSidesSeq.simps
    by (subst ringSideSeq_eq, subst ringSides_append)
      (auto simp: runYield_append Cons.IH Let_def split: prod.splits)
qed simp

lemma RingSeq_eq: "RingSeq center k yield s = runYield yield (Ring center k) s"
  by (auto simp: RingSeq_def Ring_def Let_def ringSidesSeq_eq split: prod.splits)

lemma ringsSeq_eq: "ringsSeq center ks yield s = runYield yield (concat (map (Ring center) ks)) s"
  by (induction ks arbitrary: s) (auto simp: RingSeq_eq runYield_append split: prod.splits)

lemma WalkRingsSeq_eq: "WalkRingsSeq center maxR yield s = runYield yield (WalkRings [] center maxR) s"
  by (simp add: WalkRingsSeq_def WalkRings_def walk_fold ringsSeq_eq split: prod.splits)

lemma SpiralRangeSeq_eq:
  "SpiralRangeSeq center minR maxR yield s = runYield yield (SpiralRange [] center minR maxR) s"
  by (simp add: SpiralRangeSeq_def SpiralRange_def walk_fold ringsSeq_eq Let_def split: prod.splits)

subsection \<open>Packed walks keep exactly the packable cells\<close>

definition packRight :: "Coord \<Rightarrow> CoordPacked option" where
  "packRight c = (case Pack c of Inl _ \<Rightarrow> None | Inr p \<Rightarrow> Some \<lparr>cpCoord = c, cpPacked = p\<rparr>)"

lemma packedYield_run: "runYield (packedYield yield) cs s = runYield yield (List.map_filter packRight cs) s"
  by (induction cs arbitrary: s)
    (auto simp: packedYield_def packRight_def List.map_filter_def split: sum.splits prod.splits)

lemma WalkRingsPackedSeq_eq:
  "WalkRingsPackedSeq center maxR yield s =
   runYield yield (List.map_filter packRight (WalkRings [] center maxR)) s"
  by (simp add: WalkRingsPackedSeq_def WalkRingsSeq_eq packedYield_run)

lemma SpiralRangePackedSeq_eq:
  "SpiralRangePackedSeq center minR maxR yield s =
   runYield yield (List.map_filter packRight (SpiralRange [] center minR maxR)) s"
  by (simp add: SpiralRangePackedSeq_def SpiralRangeSeq_eq packedYield_run)

lemma coordPacked_fold:
  "fold (\<lambda>c out. case Pack c of Inl _ \<Rightarrow> out | Inr p \<Rightarrow> out @ [\<lparr>cpCoord = c, cpPacked = p\<rparr>]) cs = (\<lambda>out.
   out @ List.map_filter packRight cs)"
  by (induction cs) (auto simp: fun_eq_iff packRight_def List.map_filter_def split: sum.splits)

lemma packed_fold:
  "fold (\<lambda>c out. case Pack c of Inl _ \<Rightarrow> out | Inr p \<Rightarrow> out @ [p]) cs = (\<lambda>out.
   out @ map cpPacked (List.map_filter packRight cs))"
  by (induction cs) (auto simp: fun_eq_iff packRight_def List.map_filter_def split: sum.splits)

lemma map_filter_append: "List.map_filter f (xs @ ys) = List.map_filter f xs @ List.map_filter f ys"
  by (simp add: List.map_filter_def)

lemma map_filter_concat: "List.map_filter f (concat xss) = concat (map (List.map_filter f) xss)"
  by (induction xss) (simp_all add: map_filter_append List.map_filter_def)

lemma fold_append_concat: "fold (\<lambda>k out. out @ g k) ks out = out @ concat (map g ks)"
  by (induction ks arbitrary: out) simp_all

lemma WalkRingsCoordPacked_eq:
  assumes "0 \<le> sint maxR" "sint maxR < 2 ^ 63 - 1"
  shows "WalkRingsCoordPacked center maxR = List.map_filter packRight (WalkRings [] center maxR)"
    and "WalkRingsPacked center maxR = map cpPacked (WalkRingsCoordPacked center maxR)"
proof -
  define n where "n = nat (sint maxR)"
  have "sint (maxR + 1) = sint maxR + 1"
    using assms sint_small [of "sint maxR + 1"] by simp
  then have cb: "countBelow (maxR + 1) = map of_nat [0..<Suc n]"
    using assms countBelow_nat [of "maxR + 1"] by (simp add: n_def nat_add_distrib del: upt_Suc)
  have "concat (map (Ring center) (map of_nat [0..<Suc n])) = WalkRings [] center maxR"
    using assms Rings_of_nat [of n center 0]
    by (simp add: WalkRings_shift discOffsets_def unat_sint word_sle_eq n_def del: upt_Suc)
  then have walk: "concat (map (Ring center) (countBelow (maxR + 1))) = WalkRings [] center maxR"
    by (simp only: cb)
  have R: "RingInto [] center k = Ring center k" for k by (simp add: RingInto_append)
  have pos: "\<not> maxR <s 0" using assms by (simp add: word_sless_alt)
  show c: "WalkRingsCoordPacked center maxR = List.map_filter packRight (WalkRings [] center maxR)"
    using pos by (simp add: WalkRingsCoordPacked_def coordPacked_fold R fold_append_concat
        walk [symmetric] map_filter_concat comp_def)
  show "WalkRingsPacked center maxR = map cpPacked (WalkRingsCoordPacked center maxR)"
    using pos by (simp add: WalkRingsPacked_def packed_fold R fold_append_concat c
        walk [symmetric] map_filter_concat comp_def map_concat)
qed

subsection \<open>Floor division and square subdivision\<close>

lemma divGo_pos:
  assumes "0 < sint b"
  shows "sint (divGo a b) = sint a sdiv sint b"
  using assms by (intro divGo_value) auto

lemma sdiv_floor:
  fixes a b :: int
  assumes "0 < b"
  shows "a div b = (if a < 0 \<and> (a sdiv b) * b \<noteq> a then a sdiv b - 1 else a sdiv b)"
proof (cases "a < 0")
  case True
  have q: "a sdiv b = - (- a div b)" using True assms by (simp add: signed_divide_int_def)
  show ?thesis
  proof (cases "b dvd a")
    case dvd: True
    then obtain c where "a = b * c" by auto
    then have "- a div b = - c" "a div b = c" using assms by (simp_all flip: mult_minus_right)
    then have "a sdiv b = c" using q by simp
    then show ?thesis using \<open>a div b = c\<close> \<open>a = b * c\<close> by (simp only: mult.commute if_False) simp
  next
    case False
    then have "- a div b * b \<noteq> - a" using dvd_div_mult_self [of b "- a"] by (metis dvd_minus_iff dvd_triv_right)
    then have "(a sdiv b) * b \<noteq> a" by (simp add: q)
    moreover have "- a mod b \<noteq> 0" using False by (simp flip: dvd_eq_mod_eq_0)
    then have "a div b = - (- a div b) - 1"
      using zdiv_zminus1_eq_if [of b "- a"] assms by simp
    ultimately show ?thesis using True q by simp
  qed
qed (use assms in \<open>simp add: signed_divide_int_def sgn_if\<close>)

lemma xor_negative: "0 \<le> sint b \<Longrightarrow> (a XOR b) <s 0 \<longleftrightarrow> sint a < 0" for a b :: int64
proof -
  have "sint w < 0 \<longleftrightarrow> bit w 63" for w :: int64 using bit_last_iff [of w] by simp
  then show "0 \<le> sint b \<Longrightarrow> (a XOR b) <s 0 \<longleftrightarrow> sint a < 0"
    by (simp add: word_sless_alt bit_xor_iff flip: not_less)
qed

lemma sdiv_mult_le:
  fixes a b :: int
  assumes "0 < b"
  shows "\<bar>(a sdiv b) * b\<bar> \<le> \<bar>a\<bar>"
proof (cases "0 \<le> a")
  case True
  with assms have "(a sdiv b) * b = a - a mod b" "0 \<le> a mod b" "a mod b \<le> a"
    by (auto simp: signed_divide_int_def sgn_if minus_mod_eq_div_mult zmod_le_nonneg_dividend)
  then show ?thesis by simp
next
  case False
  then have "(a sdiv b) * b = - (- a div b * b)" using assms by (simp add: signed_divide_int_def)
  moreover have "- a div b * b = - a - (- a mod b)" "0 \<le> - a mod b" "- a mod b \<le> - a"
    using assms False by (auto simp: minus_mod_eq_div_mult zmod_le_nonneg_dividend)
  ultimately show ?thesis by simp
qed

lemma floorDiv_value:
  assumes b: "0 < sint b"
  shows "sint (floorDiv a b) = sint a div sint b"
proof -
  define q where "q = sint a sdiv sint b"
  have sq: "sint (divGo a b) = q" using b by (simp add: divGo_pos q_def)
  have le: "\<bar>q * sint b\<bar> \<le> \<bar>sint a\<bar>" using b by (simp add: q_def sdiv_mult_le)
  have qb: "divGo a b * b = word_of_int (q * sint b)" by (simp flip: sq)
  have "divGo a b * b = a \<longleftrightarrow> q * sint b = sint a"
  proof
    assume eq: "divGo a b * b = a"
    show "q * sint b = sint a"
    proof (cases "\<bar>q * sint b\<bar> < 2 ^ 63")
      case True
      then show ?thesis using eq qb sint_small by metis
    next
      case False
      then have "\<bar>q * sint b\<bar> = 2 ^ 63" "sint a = - (2 ^ 63)" using le sint_bounds64 [of a] by linarith+
      moreover have "q * sint b \<le> 0"
        using b \<open>sint a = _\<close> by (simp add: q_def signed_divide_int_def mult_nonpos_nonneg pos_imp_zdiv_nonneg_iff)
      ultimately show ?thesis by linarith
    qed
  next
    assume "q * sint b = sint a"
    then show "divGo a b * b = a" by (simp add: qb)
  qed
  then have f: "floorDiv a b =
      (if sint a < 0 \<and> q * sint b \<noteq> sint a then divGo a b - 1 else divGo a b)"
    using b by (simp add: floorDiv_def Let_def xor_negative)
  have "divGo a b - 1 = word_of_int (q - 1)" by (simp flip: sq)
  moreover have "sint (word_of_int (q - 1) :: int64) = q - 1" if "sint a < 0" "q * sint b \<noteq> sint a"
  proof (rule sint_word_of_int_range)
    have "q - 1 = sint a div sint b" using that b sdiv_floor [of "sint b" "sint a"] by (simp add: q_def)
    moreover have "- (2 ^ 63) \<le> sint a div sint b"
    proof -
      have "sint a \<le> sint a div sint b" using that b zdiv_mono2_neg [of "sint a" 1 "sint b"] by simp
      then show ?thesis using sint_bounds64 [of a] by linarith
    qed
    ultimately show "- (2 ^ 63) \<le> q - 1" by simp
    have "q < 2 ^ 63" using sint_bounds64 [of "divGo a b"] sq by simp
    then show "q - 1 < 2 ^ 63" by simp
  qed
  ultimately show ?thesis
    using b sq sdiv_floor [of "sint b" "sint a"] by (simp add: f q_def)
qed

lemma floorDiv_pos:
  assumes "0 < sint b"
  shows "floorDiv a b = word_of_int (sint a div sint b)"
  using floorDiv_value [OF assms, of a] by (metis word_of_sint)

text \<open>The children of a coarse cell do not wrap around.\<close>

definition refinable :: "int64 \<Rightarrow> int64 \<Rightarrow> bool" where
  "refinable x factor \<longleftrightarrow> - (2 ^ 63) \<le> sint x * sint factor \<and> sint x * sint factor + sint factor \<le> 2 ^ 63"

lemma refine_axis:
  assumes f: "2 \<le> sint factor" and x: "refinable x factor"
  shows "y \<in> (\<lambda>d. x * factor + d) ` set (countBelow factor) \<longleftrightarrow> floorDiv y factor = x"
    and "distinct (map (\<lambda>d. x * factor + d) (countBelow factor))"
proof -
  have cb: "countBelow factor = map of_nat [0..<nat (sint factor)]" using f by (simp add: countBelow_nat)
  have v: "sint (x * factor + of_nat i) = sint x * sint factor + int i" if "i < nat (sint factor)" for i
  proof -
    have "x * factor + of_nat i = word_of_int (sint x * sint factor + int i)" by simp
    moreover have "sint (word_of_int (sint x * sint factor + int i) :: int64) = sint x * sint factor + int i"
      by (rule sint_word_of_int_range) (use that x in \<open>auto simp: refinable_def\<close>)
    ultimately show ?thesis by (simp only:)
  qed
  show "distinct (map (\<lambda>d. x * factor + d) (countBelow factor))"
    unfolding cb map_map distinct_map
  proof (intro conjI inj_onI)
    fix i j assume "i \<in> set [0..<nat (sint factor)]" "j \<in> set [0..<nat (sint factor)]"
      and "((\<lambda>d. x * factor + d) \<circ> of_nat) i = ((\<lambda>d. x * factor + d) \<circ> of_nat) j"
    then have "i < nat (sint factor)" "j < nat (sint factor)"
      "sint (x * factor + of_nat i) = sint (x * factor + of_nat j)" by simp_all
    then show "i = j" by (simp only: v)
  qed simp
  show "y \<in> (\<lambda>d. x * factor + d) ` set (countBelow factor) \<longleftrightarrow> floorDiv y factor = x"
  proof
    assume "y \<in> (\<lambda>d. x * factor + d) ` set (countBelow factor)"
    then obtain i where i: "i < nat (sint factor)" "y = x * factor + of_nat i" by (auto simp: cb)
    have "(sint x * sint factor + int i) div sint factor = sint x"
      using i f by (simp add: div_add1_eq)
    then have "sint y div sint factor = sint x" using i v by simp
    then show "floorDiv y factor = x" using f by (simp add: floorDiv_pos)
  next
    assume "floorDiv y factor = x"
    then have "sint x = sint y div sint factor" using f floorDiv_value [of factor y] by simp
    then have y: "sint y = sint x * sint factor + sint y mod sint factor" by simp
    have m: "0 \<le> sint y mod sint factor" "sint y mod sint factor < sint factor" using f by simp_all
    have "y = word_of_int (sint y)" by simp
    also have "\<dots> = x * factor + of_nat (nat (sint y mod sint factor))"
      using m by (subst y) (simp del: sint_uint)
    finally show "y \<in> (\<lambda>d. x * factor + d) ` set (countBelow factor)"
      unfolding cb set_map image_image using m
      by (intro image_eqI [of _ _ "nat (sint y mod sint factor)"]) auto
  qed
qed

lemma RefineCoord_cells:
  assumes f: "2 \<le> sint factor" and q: "refinable (coordQ p) factor" and r: "refinable (coordR p) factor"
  obtains cs where "RefineCoord p factor = Inr cs" "set cs = {c. CoarsenCoord c factor = Inr p}"
    "distinct cs" "length cs = nat (sint factor) * nat (sint factor)"
proof
  define qs where "qs = map (\<lambda>d. coordQ p * factor + d) (countBelow factor)"
  define rs where "rs = map (\<lambda>d. coordR p * factor + d) (countBelow factor)"
  define cs where "cs = map (\<lambda>(q, r). \<lparr>coordQ = q, coordR = r\<rparr>) (List.product qs rs)"
  have n: "\<not> factor <s 2" using f by (simp add: word_sless_alt)
  have prod: "concat (map (\<lambda>dq. map (\<lambda>dr. \<lparr>coordQ = a + dq, coordR = b + dr\<rparr>) ys) xs) =
      map (\<lambda>(q, r). \<lparr>coordQ = q, coordR = r\<rparr>) (List.product (map (\<lambda>d. a + d) xs) (map (\<lambda>d. b + d) ys))"
    for a b :: int64 and xs ys by (induction xs) simp_all
  show "RefineCoord p factor = Inr cs"
    using n by (simp add: RefineCoord_def Let_def cs_def qs_def rs_def prod)
  show "set cs = {c. CoarsenCoord c factor = Inr p}"
  proof (rule set_eqI)
    fix c :: Coord
    have "c \<in> set cs \<longleftrightarrow> coordQ c \<in> set qs \<and> coordR c \<in> set rs"
      by (cases c) (force simp: cs_def)
    also have "\<dots> \<longleftrightarrow> floorDiv (coordQ c) factor = coordQ p \<and> floorDiv (coordR c) factor = coordR p"
      unfolding qs_def rs_def set_map by (simp only: refine_axis(1) f q r)
    also have "\<dots> \<longleftrightarrow> c \<in> {c. CoarsenCoord c factor = Inr p}"
      using n by (cases p) (auto simp: CoarsenCoord_def)
    finally show "c \<in> set cs \<longleftrightarrow> c \<in> {c. CoarsenCoord c factor = Inr p}" .
  qed
  have "distinct qs" "distinct rs" unfolding qs_def rs_def by (simp_all only: refine_axis(2) f q r)
  then show "distinct cs"
    by (auto simp: cs_def distinct_map distinct_product inj_on_def)
  have "length (countBelow factor) = nat (sint factor)" using f by (simp add: countBelow_nat)
  then show "length cs = nat (sint factor) * nat (sint factor)"
    by (simp add: cs_def qs_def rs_def)
qed

subsection \<open>The aperture-7 hierarchy\<close>

definition within :: "nat \<Rightarrow> Coord \<Rightarrow> bool" where
  "within n c \<longleftrightarrow> \<bar>sint (coordQ c)\<bar> < 2 ^ n \<and> \<bar>sint (coordR c)\<bar> < 2 ^ n"

definition superCell :: "Coord \<Rightarrow> int \<times> int \<Rightarrow> Coord" where
  "superCell p d = \<lparr>coordQ = coordQ p + word_of_int (fst d), coordR = coordR p + word_of_int (snd d)\<rparr>"

lemma SuperHexCenter_superCell:
  "SuperHexCenter (superCell p (x, y)) = shift (SuperHexCenter p) (2 * x - y, x + 3 * y)"
  by (simp add: SuperHexCenter_def superCell_def shift_def algebra_simps)

lemma superHex_fold:
  assumes "snd st = Distance c (SuperHexCenter (fst st))"
    and "fold (superHexStep c) cs st = (p, d)"
  shows "d = Distance c (SuperHexCenter p) \<and> p \<in> set (fst st # cs) \<and>
    (\<forall>x \<in> set (fst st # cs). d \<le>s Distance c (SuperHexCenter x))"
  using assms
proof (induction cs arbitrary: st)
  case (Cons x cs)
  define st' where "st' = superHexStep c x st"
  have st': "snd st' = Distance c (SuperHexCenter (fst st'))" "fst st' = fst st \<or> fst st' = x"
    "snd st' \<le>s snd st" "snd st' \<le>s Distance c (SuperHexCenter x)"
    using Cons.prems(1) by (auto simp: st'_def superHexStep_def Let_def word_sless_alt word_sle_eq)
  have "fold (superHexStep c) cs st' = (p, d)" using Cons.prems(2) by (simp add: st'_def)
  from Cons.IH [OF st'(1) this] st' Cons.prems(1) show ?case by (auto simp: word_sle_eq)
qed auto

lemma superHex_residue:
  fixes q r :: int
  defines "a \<equiv> (3 * q + r) div 7" and "b \<equiv> (2 * r - q) div 7"
  shows "(q - (2 * a - b), r - (a + 3 * b)) \<in> {(0, 0), (0, 1), (0, 2), (0, 3), (1, 1), (1, 2), (1, 3)}"
proof -
  define m n X Y where mn: "m = (3 * q + r) mod 7" "n = (2 * r - q) mod 7"
    and XY: "X = q - (2 * a - b)" "Y = r - (a + 3 * b)"
  have e: "3 * q + r = 7 * a + m" "2 * r - q = 7 * b + n" by (simp_all add: a_def b_def mn)
  have bounds: "0 \<le> m" "m < 7" "0 \<le> n" "n < 7" by (simp_all add: mn)
  have "7 * X = 2 * m - n" "7 * Y = m + 3 * n" using e by (simp_all add: XY algebra_simps)
  then have n: "n = 2 * m - 7 * X" and Y: "Y = m - 3 * X" by simp_all
  then have "X = 0 \<or> X = 1" using bounds by arith
  then show ?thesis
  proof
    assume "X = 0"
    with n Y bounds have "Y = 0 \<or> Y = 1 \<or> Y = 2 \<or> Y = 3" by arith
    with \<open>X = 0\<close> show ?thesis by (auto simp flip: XY)
  next
    assume "X = 1"
    with n Y bounds have "Y = 1 \<or> Y = 2 \<or> Y = 3" by arith
    with \<open>X = 1\<close> show ?thesis by (auto simp flip: XY)
  qed
qed

text \<open>The scan ends at a candidate whose centre is the cell or one of its six neighbours.\<close>

lemma SuperHexParent_scan:
  fixes c :: Coord
  defines "best \<equiv> \<lparr>coordQ = floorDiv (3 * coordQ c + coordR c) 7,
                   coordR = floorDiv (- coordQ c + 2 * coordR c) 7\<rparr>"
  assumes c: "c = shift (SuperHexCenter best) o1"
    and o1: "o1 \<in> {(0, 0), (0, 1), (0, 2), (0, 3), (1, 1), (1, 2), (1, 3)}"
  obtains d where "SuperHexParent c = superCell best d" "\<bar>fst d\<bar> \<le> 1" "\<bar>snd d\<bar> \<le> 1"
    "hexDist (fst o1 - (2 * fst d - snd d), snd o1 - (fst d + 3 * snd d)) \<le> 1"
proof -
  define ds :: "(int \<times> int) list" where
    "ds = [(-1, -1), (-1, 0), (-1, 1), (0, -1), (0, 0), (0, 1), (1, -1), (1, 0), (1, 1)]"
  define off where "off d = (fst o1 - (2 * fst d - snd d), snd o1 - (fst d + 3 * snd d))" for d
  have dist: "Distance c (SuperHexCenter (superCell best d)) = word_of_int (hexDist (off d))"
    if "d \<in> set ds" for d
    by (rule Distance_offsets [of _ _ "fst (off d)" "snd (off d)", simplified prod.collapse])
      (use that o1 in \<open>auto simp: c SuperHexCenter_superCell shift_def off_def ds_def hexDist_def
        SuperHexCenter_def superCell_def algebra_simps\<close>)
  have cells: "fold (\<lambda>(dq, dr). superHexStep c \<lparr>coordQ = coordQ best + dq, coordR = coordR best + dr\<rparr>)
      superHexDeltas st = fold (superHexStep c) (map (superCell best) ds) st" for st
    by (simp add: superHexDeltas_def ds_def superCell_def)
  obtain p d where pd: "fold (superHexStep c) (map (superCell best) ds)
      (best, Distance c (SuperHexCenter best)) = (p, d)"
    by (cases "fold (superHexStep c) (map (superCell best) ds) (best, Distance c (SuperHexCenter best))")
  have par: "SuperHexParent c = p"
    using cells [of "(best, Distance c (SuperHexCenter best))"] pd
    by (simp add: SuperHexParent_def Let_def best_def)
  have "best = superCell best (0, 0)" "(0, 0) \<in> set ds" by (simp_all add: superCell_def ds_def)
  then have best: "best \<in> superCell best ` set ds" by blast
  from superHex_fold [of "(best, Distance c (SuperHexCenter best))" c _ p d, OF _ pd] best
  obtain e where e: "e \<in> set ds" "p = superCell best e" "d = Distance c (SuperHexCenter p)"
    and least: "\<And>x. x \<in> set ds \<Longrightarrow> d \<le>s Distance c (SuperHexCenter (superCell best x))"
    by auto
  have "\<exists>x \<in> set ds. hexDist (off x) \<le> 1"
    using o1 by (auto simp: ds_def off_def hexDist_def)
  then obtain x where x: "x \<in> set ds" "hexDist (off x) \<le> 1" by blast
  have small: "sint (word_of_int (hexDist (off y)) :: int64) = hexDist (off y)" if "y \<in> set ds" for y
    by (rule sint_small) (use that o1 in \<open>auto simp: ds_def off_def hexDist_def\<close>)
  have "hexDist (off e) \<le> hexDist (off x)"
    using least [OF x(1)] e x by (simp only: dist word_sle_eq small)
  then have "hexDist (off e) \<le> 1" using x by simp
  moreover have "\<bar>fst e\<bar> \<le> 1" "\<bar>snd e\<bar> \<le> 1" using e(1) by (auto simp: ds_def)
  ultimately show thesis using that [of e] par e(2) by (simp add: off_def)
qed

lemma within_value:
  assumes "within 60 c"
  shows "floorDiv (3 * coordQ c + coordR c) 7 = word_of_int ((3 * sint (coordQ c) + sint (coordR c)) div 7)"
    and "floorDiv (- coordQ c + 2 * coordR c) 7 = word_of_int ((2 * sint (coordR c) - sint (coordQ c)) div 7)"
proof -
  define q r where qr: "q = sint (coordQ c)" "r = sint (coordR c)"
  have b: "\<bar>q\<bar> < 2 ^ 60" "\<bar>r\<bar> < 2 ^ 60" using assms by (simp_all add: within_def qr)
  have c: "coordQ c = word_of_int q" "coordR c = word_of_int r" by (simp_all add: qr)
  have "\<bar>3 * q + r\<bar> < 2 ^ 63" "\<bar>2 * r - q\<bar> < 2 ^ 63" using b by (auto simp: abs_less_iff)
  then have v: "sint (word_of_int (3 * q + r) :: int64) = 3 * q + r"
    "sint (word_of_int (2 * r - q) :: int64) = 2 * r - q" by (simp_all only: sint_small)
  have e: "3 * coordQ c + coordR c = word_of_int (3 * q + r)"
    "- coordQ c + 2 * coordR c = word_of_int (2 * r - q)" by (simp_all add: c)
  have f: "floorDiv x 7 = word_of_int (sint x div 7)" for x
    using floorDiv_pos [of 7 x] by simp
  show "floorDiv (3 * coordQ c + coordR c) 7 = word_of_int ((3 * sint (coordQ c) + sint (coordR c)) div 7)"
    unfolding f e v unfolding qr ..
  show "floorDiv (- coordQ c + 2 * coordR c) 7 = word_of_int ((2 * sint (coordR c) - sint (coordQ c)) div 7)"
    unfolding f e v unfolding qr ..
qed

lemma SuperHexParent_near:
  assumes "within 60 c"
  obtains a b o1 o2 where "SuperHexParent c = \<lparr>coordQ = word_of_int a, coordR = word_of_int b\<rparr>"
    "\<bar>a\<bar> < 2 ^ 60" "\<bar>b\<bar> < 2 ^ 60" "hexDist (o1, o2) \<le> 1"
    "sint (coordQ c) = 2 * a - b + o1" "sint (coordR c) = a + 3 * b + o2"
proof -
  define q r where qr: "q = sint (coordQ c)" "r = sint (coordR c)"
  define a b where ab: "a = (3 * q + r) div 7" "b = (2 * r - q) div 7"
  define p1 p2 where p: "p1 = q - (2 * a - b)" "p2 = r - (a + 3 * b)"
  define best where "best = \<lparr>coordQ = floorDiv (3 * coordQ c + coordR c) 7,
                   coordR = floorDiv (- coordQ c + 2 * coordR c) 7\<rparr>"
  have best: "best = \<lparr>coordQ = word_of_int a, coordR = word_of_int b\<rparr>"
    using within_value [OF assms] by (simp add: best_def ab qr)
  have res: "(p1, p2) \<in> {(0, 0), (0, 1), (0, 2), (0, 3), (1, 1), (1, 2), (1, 3)}"
    using superHex_residue [of q r] by (simp only: ab p)
  have "coordQ c = word_of_int (2 * a - b + p1)" "coordR c = word_of_int (a + 3 * b + p2)"
    by (simp_all add: p qr)
  then have "c = shift (SuperHexCenter best) (p1, p2)"
    by (cases c) (simp add: best shift_def SuperHexCenter_def)
  note scan = SuperHexParent_scan [OF this [unfolded best_def] res, folded best_def]
  obtain d where d: "SuperHexParent c = superCell best d" "\<bar>fst d\<bar> \<le> 1" "\<bar>snd d\<bar> \<le> 1"
    "hexDist (p1 - (2 * fst d - snd d), p2 - (fst d + 3 * snd d)) \<le> 1"
    by (rule scan) (simp only: fst_conv snd_conv)
  have bnd: "\<bar>q\<bar> < 2 ^ 60" "\<bar>r\<bar> < 2 ^ 60" using assms by (simp_all add: within_def qr)
  have "\<bar>a\<bar> < 2 ^ 60 - 1" "\<bar>b\<bar> < 2 ^ 60 - 1" using bnd by (simp_all add: ab abs_less_iff) linarith+
  then have "\<bar>a + fst d\<bar> < 2 ^ 60" "\<bar>b + snd d\<bar> < 2 ^ 60" using d by linarith+
  moreover have "SuperHexParent c = \<lparr>coordQ = word_of_int (a + fst d), coordR = word_of_int (b + snd d)\<rparr>"
    by (simp add: d superCell_def best)
  moreover have "sint (coordQ c) = 2 * (a + fst d) - (b + snd d) + (p1 - (2 * fst d - snd d))"
    and "sint (coordR c) = a + fst d + 3 * (b + snd d) + (p2 - (fst d + 3 * snd d))"
    by (simp_all add: p flip: qr)
  ultimately show thesis using that d(4) by blast
qed

lemma superHex_unique:
  fixes a b a' b' :: int
  assumes "hexDist (o1, o2) \<le> 1" "hexDist (o1', o2') \<le> 1"
    and "2 * a - b + o1 = 2 * a' - b' + o1'" "a + 3 * b + o2 = a' + 3 * b' + o2'"
  shows "a = a' \<and> b = b'"
proof -
  define x y where xy: "x = a - a'" "y = b - b'"
  have o: "\<bar>o1\<bar> \<le> 1" "\<bar>o2\<bar> \<le> 1" "\<bar>o1 + o2\<bar> \<le> 1" "\<bar>o1'\<bar> \<le> 1" "\<bar>o2'\<bar> \<le> 1" "\<bar>o1' + o2'\<bar> \<le> 1"
    using assms(1,2) by (auto simp: hexDist_def)
  have e: "2 * x - y = o1' - o1" "x + 3 * y = o2' - o2" using assms(3,4) by (simp_all add: xy)
  have "\<bar>2 * x - y\<bar> \<le> 2" "\<bar>x + 3 * y\<bar> \<le> 2" unfolding e using o by linarith+
  then have "y = 0" "\<bar>x\<bar> \<le> 1" by arith+
  moreover have "3 * x = (o1' + o2') - (o1 + o2)" using e \<open>y = 0\<close> by simp
  then have "\<bar>3 * x\<bar> \<le> 2" using o by linarith
  ultimately show ?thesis by (simp add: xy)
qed

lemma SuperHexChildren_walk: "SuperHexChildren p = WalkRings [] (SuperHexCenter p) 1"
  by (simp add: SuperHexChildren_def WalkRings_def countUp_def Let_def word_sless_alt)

lemma SuperHexChildren_partition:
  assumes p: "within 57 p"
  shows "c \<in> set (SuperHexChildren p) \<longleftrightarrow> within 60 c \<and> SuperHexParent c = p"
proof
  define P Q where PQ: "P = sint (coordQ p)" "Q = sint (coordR p)"
  have b: "\<bar>P\<bar> < 2 ^ 57" "\<bar>Q\<bar> < 2 ^ 57" using p by (simp_all add: within_def PQ)
  have pw: "p = \<lparr>coordQ = word_of_int P, coordR = word_of_int Q\<rparr>" by (simp add: PQ)
  have walk: "SuperHexChildren p = map (shift (SuperHexCenter p)) (discOffsets 1)"
    by (simp add: SuperHexChildren_walk WalkRings_shift)
  {
    assume "c \<in> set (SuperHexChildren p)"
    then obtain o1 o2 where c: "c = shift (SuperHexCenter p) (o1, o2)" and h: "hexDist (o1, o2) \<le> 1"
      by (auto simp: walk set_discOffsets)
    have o: "\<bar>o1\<bar> \<le> 1" "\<bar>o2\<bar> \<le> 1" using h by (auto simp: hexDist_def)
    have cw: "coordQ c = word_of_int (2 * P - Q + o1)" "coordR c = word_of_int (P + 3 * Q + o2)"
      unfolding c by (simp_all add: pw SuperHexCenter_def shift_def)
    have s: "sint (coordQ c) = 2 * P - Q + o1" "sint (coordR c) = P + 3 * Q + o2"
      unfolding cw by (rule sint_small; use b o in simp)+
    then have w: "within 60 c" unfolding within_def using b o
      by (simp only: abs_less_iff abs_le_iff) simp
    obtain a b' o1' o2' where *: "SuperHexParent c = \<lparr>coordQ = word_of_int a, coordR = word_of_int b'\<rparr>"
      "hexDist (o1', o2') \<le> 1" "sint (coordQ c) = 2 * a - b' + o1'" "sint (coordR c) = a + 3 * b' + o2'"
      using SuperHexParent_near [OF w] by metis
    have "P = a \<and> Q = b'"
      by (rule superHex_unique [OF h *(2)]; simp only: s [symmetric] *(3,4))
    with * w show "within 60 c \<and> SuperHexParent c = p" by (simp add: pw)
  next
    assume c: "within 60 c \<and> SuperHexParent c = p"
    then obtain a b' o1 o2 where *: "p = \<lparr>coordQ = word_of_int a, coordR = word_of_int b'\<rparr>"
      "hexDist (o1, o2) \<le> 1" "sint (coordQ c) = 2 * a - b' + o1" "sint (coordR c) = a + 3 * b' + o2"
      using SuperHexParent_near by metis
    have "coordQ c = word_of_int (2 * a - b' + o1)" "coordR c = word_of_int (a + 3 * b' + o2)"
      by (simp_all flip: *(3,4))
    then have "c = shift (SuperHexCenter p) (o1, o2)"
      by (cases c) (simp add: *(1) SuperHexCenter_def shift_def)
    then show "c \<in> set (SuperHexChildren p)"
      using *(2) by (simp add: walk set_discOffsets)
  }
qed

subsection \<open>Properties\<close>

text \<open>C18: the disc walk. \<open>WalkRings\<close> lists, without a repetition, exactly the cells whose
  hexagonal distance from the centre is at most the radius, 3r(r+1)+1 of them, in the order of
  their distance.\<close>
theorem WalkRings_is_disc:
  assumes "0 \<le> sint maxR" "sint maxR < 2 ^ 60"
  shows "distinct (WalkRings [] center maxR) \<and>
    length (WalkRings [] center maxR) = 3 * unat maxR * unat maxR + 3 * unat maxR + 1 \<and>
    set (WalkRings [] center maxR) = {c. near center c \<and> Distance center c \<le>s maxR} \<and>
    sorted (map (\<lambda>c. sint (Distance center c)) (WalkRings [] center maxR))"
  using WalkRings_disc(1,2,4) [OF assms, of center] WalkRings_disc(3) [OF assms, of _ center]
  by (intro conjI set_eqI) simp_all

theorem WalkRings_is_disc_witness:
  "length (WalkRings [] \<lparr>coordQ = 4, coordR = - 2\<rparr> 3) = 37"
  using WalkRings_is_disc [of 3 "\<lparr>coordQ = 4, coordR = - 2\<rparr>"] by simp

text \<open>a ring. \<open>Ring\<close> lists, without a repetition, exactly the cells at distance k
  from the centre: one cell for k = 0, otherwise 6k.\<close>
theorem Ring_is_ring:
  assumes "0 \<le> sint k" "sint k < 2 ^ 60"
  shows "distinct (Ring center k) \<and>
    length (Ring center k) = (if k = 0 then 1 else 6 * unat k) \<and>
    set (Ring center k) = {c. near center c \<and> Distance center c = k}"
  using mem_Ring_iff [OF assms, of _ center] distinct_Ring [OF assms, of center]
  by (intro conjI set_eqI) simp_all

theorem Ring_is_ring_witness: "length (Ring \<lparr>coordQ = 7, coordR = - 9\<rparr> 5) = 30"
  using Ring_is_ring [of 5 "\<lparr>coordQ = 7, coordR = - 9\<rparr>"] by simp

text \<open>C19: the lazy iterators. For every consumer (also one that stops early), running a
  \<open>Seq\<close> iterator is feeding the consumer the slice the eager function returns; the packed
  iterators feed the slice with the unpackable cells left out.\<close>
theorem iterators_refine_slices:
  "RingSeq center k yield s = runYield yield (Ring center k) s \<and>
   WalkRingsSeq center k yield s = runYield yield (WalkRings [] center k) s \<and>
   SpiralRangeSeq center minR k yield s = runYield yield (SpiralRange [] center minR k) s \<and>
   WalkRingsPackedSeq center k pyield s =
     runYield pyield (List.map_filter packRight (WalkRings [] center k)) s \<and>
   SpiralRangePackedSeq center minR k pyield s =
     runYield pyield (List.map_filter packRight (SpiralRange [] center minR k)) s"
  by (simp add: RingSeq_eq WalkRingsSeq_eq SpiralRangeSeq_eq WalkRingsPackedSeq_eq
      SpiralRangePackedSeq_eq)

text \<open>C20: level of detail. Refining a coarse cell by a factor yields, without a repetition,
  exactly the fine cells that coarsen to it, factor squared of them, also on the negative axes
  where Go's division truncates towards zero.\<close>
theorem Refine_inverts_Coarsen:
  assumes "2 \<le> sint factor" "refinable (coordQ p) factor" "refinable (coordR p) factor"
  shows "\<exists>cs. RefineCoord p factor = Inr cs \<and> set cs = {c. CoarsenCoord c factor = Inr p} \<and>
    distinct cs \<and> length cs = nat (sint factor) * nat (sint factor)"
  by (rule RefineCoord_cells [OF assms]) blast

theorem Refine_inverts_Coarsen_witness:
  "\<exists>cs. RefineCoord \<lparr>coordQ = - 4, coordR = 5\<rparr> 3 = Inr cs \<and>
     set cs = {c. CoarsenCoord c 3 = Inr \<lparr>coordQ = - 4, coordR = 5\<rparr>} \<and> length cs = 9"
  using Refine_inverts_Coarsen [of 3 "\<lparr>coordQ = - 4, coordR = 5\<rparr>"]
  by (auto simp: refinable_def)

text \<open>C21: super-hexes partition the lattice: a cell is listed as a child of a super-hex
  exactly when \<open>SuperHexParent\<close> maps it to that super-hex.\<close>
theorem SuperHex_partition:
  assumes "within 57 p"
  shows "set (SuperHexChildren p) = {c. within 60 c \<and> SuperHexParent c = p}"
  using SuperHexChildren_partition [OF assms] by blast

theorem SuperHex_partition_witness:
  "set (SuperHexChildren \<lparr>coordQ = 2, coordR = - 1\<rparr>) =
   {c. within 60 c \<and> SuperHexParent c = \<lparr>coordQ = 2, coordR = - 1\<rparr>}"
  by (rule SuperHex_partition) (simp add: within_def)

end
