(* ===== verification/Records.thy ===== *)
theory Records
  imports Lattice
begin

text \<open>
  The binary record formats of \<open>internal/record\<close>: field writers and readers
  (\<open>wire.go\<close>, \<open>conv.go\<close>), the envelope (\<open>envelope.go\<close>,
  \<open>format.go\<close>), and the v1 payloads of cells, facets, edges and seams. A Go string
  is its bytes; a \<open>float64\<close> is its 64-bit pattern (\<open>math.Float64bits\<close>);
  \<open>*int64\<close> and \<open>*PackedCoord\<close> are options. A reader returns the value and
  the bytes that follow it. The package \<open>oklog/ulid\<close> is a parameter: its
  \<open>Parse\<close> and \<open>String\<close>.

  The locale \<open>wire_codec\<close> is the contract of a reader and its writer: the reader
  accepts exactly the written forms. Every field and every payload below is an instance, so the
  record theorems hold in both directions: what is encoded is decoded, and a blob that decodes is
  the encoding of what it decodes to.
\<close>

subsection \<open>Records and errors\<close>

datatype record_error =
    ErrInvalidRecord string
  | ErrUnsupportedFormatVersion uint16
  | ErrUnknownFormatVersion
  | ErrWrongMagic
  | ErrInvalidULID

record ProvenanceWire =
  SourceID :: bytes
  Confidence :: uint64
  CreatedAt :: int64
  UpdatedAt :: int64

record ValidityWire =
  ValidFrom :: "int64 option"
  ValidTo :: "int64 option"

record CellRecord =
  cellKey :: PackedCoord
  RawContent :: bytes
  cellProvenance :: ProvenanceWire
  cellValidity :: ValidityWire
  Tags :: "bytes list"
  ClusterHint :: "PackedCoord option"

record FacetRecord =
  facetKey :: PackedCoord
  FacetID :: byte
  DerivedContent :: bytes
  LastRotated :: int64
  DerivationHash :: bytes

record EdgeRecord =
  edgeFrom :: PackedCoord
  edgeTo :: PackedCoord
  RelationType :: bytes
  Weight :: uint64
  edgeProvenance :: ProvenanceWire

record SeamRecord =
  seamID :: bytes
  CellA :: PackedCoord
  CellB :: PackedCoord
  SeamType :: bytes
  Reason :: bytes
  ConfidenceDelta :: uint64
  DetectedAt :: int64
  ResolutionStatus :: bytes
  ResolutionNote :: bytes
  seamValidity :: ValidityWire
  seamProvenance :: ProvenanceWire

definition headerSize :: nat where "headerSize = 4 + 2 + 4"
definition FormatVersionV1 :: uint16 where "FormatVersionV1 = 1"
definition SupportedFormatVersion :: uint16 where "SupportedFormatVersion = FormatVersionV1"
definition MaxPayload :: nat where "MaxPayload = 16 * 2 ^ 20"
definition MaxStringField :: nat where "MaxStringField = 2 ^ 20"
definition MagicCell :: bytes where "MagicCell = ascii ''HXCL''"
definition MagicFacet :: bytes where "MagicFacet = ascii ''HXFC''"
definition MagicEdge :: bytes where "MagicEdge = ascii ''HXED''"
definition MagicSeam :: bytes where "MagicSeam = ascii ''HXSM''"
definition maxTags :: nat where "maxTags = 65536"

subsection \<open>Field writers and readers\<close>

definition uint32FromInt :: "int \<Rightarrow> record_error + uint32" where
  "uint32FromInt n =
     (if n < 0 then Inl (ErrInvalidRecord ''negative integer'')
      else if n > 2 ^ 32 - 1 then Inl (ErrInvalidRecord ''value overflows uint32'')
      else Inr (word_of_int n))"

definition putUint32BE :: "int \<Rightarrow> record_error + bytes" where
  "putUint32BE n = bindR (uint32FromInt n) (\<lambda>u. Inr (PutUint32 u))"

definition appendInt64BE :: "bytes \<Rightarrow> int64 \<Rightarrow> bytes" where
  "appendInt64BE dst v = dst @ PutUint64 v"

definition readInt64BE :: "bytes \<Rightarrow> record_error + int64 \<times> bytes" where
  "readInt64BE data =
     (if length data < 8 then Inl (ErrInvalidRecord ''int64'')
      else Inr (Uint64 (take 8 data), drop 8 data))"

definition appendPackedCoord :: "bytes \<Rightarrow> PackedCoord \<Rightarrow> bytes" where
  "appendPackedCoord dst p = dst @ PutUint64 (packedLo p) @ PutUint64 (packedHi p)"

definition readPackedCoord :: "bytes \<Rightarrow> record_error + PackedCoord \<times> bytes" where
  "readPackedCoord data =
     (if length data < 16 then Inl (ErrInvalidRecord ''packed coord'')
      else Inr (PackedCoord (Uint64 (slice 0 8 data)) (Uint64 (slice 8 16 data)), drop 16 data))"

definition appendString32 :: "bytes \<Rightarrow> bytes \<Rightarrow> record_error + bytes" where
  "appendString32 dst s =
     (if length s > MaxStringField then Inl (ErrInvalidRecord ''string field too long'')
      else bindR (putUint32BE (int (length s))) (\<lambda>b. Inr (dst @ b @ s)))"

definition readString32 :: "bytes \<Rightarrow> record_error + bytes \<times> bytes" where
  "readString32 data =
     (if length data < 4 then Inl (ErrInvalidRecord ''string length'')
      else let n = unat (Uint32 (take 4 data))
      in if n > MaxStringField then Inl (ErrInvalidRecord ''string field too long'')
      else if length data < 4 + n then Inl (ErrInvalidRecord ''string data'')
      else Inr (slice 4 (4 + n) data, drop (4 + n) data))"

definition appendFloat64BE :: "bytes \<Rightarrow> uint64 \<Rightarrow> bytes" where
  "appendFloat64BE dst v = dst @ PutUint64 v"

definition readFloat64BE :: "bytes \<Rightarrow> record_error + uint64 \<times> bytes" where
  "readFloat64BE data =
     (if length data < 8 then Inl (ErrInvalidRecord ''float64'')
      else Inr (Uint64 (take 8 data), drop 8 data))"

definition appendOptionalInt64 :: "bytes \<Rightarrow> int64 option \<Rightarrow> bytes" where
  "appendOptionalInt64 dst v =
     (case v of None \<Rightarrow> dst @ [0] | Some x \<Rightarrow> appendInt64BE (dst @ [1]) x)"

definition readOptionalInt64 :: "bytes \<Rightarrow> record_error + int64 option \<times> bytes" where
  "readOptionalInt64 data =
     (if length data < 1 then Inl (ErrInvalidRecord ''optional int64'')
      else if data ! 0 = 0 then Inr (None, drop 1 data)
      else if data ! 0 = 1 then
        (if length data < 1 + 8 then Inl (ErrInvalidRecord ''optional int64 value'')
         else bindR (readInt64BE (drop 1 data)) (\<lambda>(x, rest). Inr (Some x, rest)))
      else Inl (ErrInvalidRecord ''optional int64 flag''))"

definition appendProvenance :: "bytes \<Rightarrow> ProvenanceWire \<Rightarrow> record_error + bytes" where
  "appendProvenance dst p =
     bindR (appendString32 dst (SourceID p)) (\<lambda>dst.
       Inr (appendInt64BE (appendInt64BE (appendFloat64BE dst (Confidence p)) (CreatedAt p)) (UpdatedAt p)))"

definition readProvenance :: "bytes \<Rightarrow> record_error + ProvenanceWire \<times> bytes" where
  "readProvenance data =
     bindR (readString32 data) (\<lambda>(src, data).
     bindR (readFloat64BE data) (\<lambda>(conf, data).
     bindR (readInt64BE data) (\<lambda>(created, data).
     bindR (readInt64BE data) (\<lambda>(updated, data).
       Inr (\<lparr>SourceID = src, Confidence = conf, CreatedAt = created, UpdatedAt = updated\<rparr>, data)))))"

definition appendValidity :: "bytes \<Rightarrow> ValidityWire \<Rightarrow> record_error + bytes" where
  "appendValidity dst v = Inr (appendOptionalInt64 (appendOptionalInt64 dst (ValidFrom v)) (ValidTo v))"

definition readValidity :: "bytes \<Rightarrow> record_error + ValidityWire \<times> bytes" where
  "readValidity data =
     bindR (readOptionalInt64 data) (\<lambda>(f, data).
     bindR (readOptionalInt64 data) (\<lambda>(t, data).
       Inr (\<lparr>ValidFrom = f, ValidTo = t\<rparr>, data)))"

definition ValidAt :: "ValidityWire \<Rightarrow> int64 \<Rightarrow> bool" where
  "ValidAt v t =
     (if (case ValidFrom v of Some f \<Rightarrow> t <s f | None \<Rightarrow> False) then False
      else if (case ValidTo v of Some e \<Rightarrow> e \<le>s t | None \<Rightarrow> False) then False
      else True)"

subsection \<open>Envelope\<close>

definition AppendEnvelope :: "bytes \<Rightarrow> bytes \<Rightarrow> uint16 \<Rightarrow> bytes \<Rightarrow> record_error + bytes" where
  "AppendEnvelope dst magic formatVersion payload =
     (if length payload > MaxPayload then Inl (ErrInvalidRecord ''payload too large'')
      else bindR (uint32FromInt (int (length payload))) (\<lambda>u.
        Inr (dst @ (magic @ PutUint16 formatVersion @ PutUint32 u) @ payload)))"

definition ParseEnvelope :: "bytes \<Rightarrow> bytes \<Rightarrow> record_error + uint16 \<times> bytes" where
  "ParseEnvelope magicWant data =
     (if length data < headerSize then Inl (ErrInvalidRecord ''truncated header'')
      else if slice 0 4 data \<noteq> magicWant then Inl ErrWrongMagic
      else let formatVersion = Uint16 (slice 4 6 data); n = unat (Uint32 (slice 6 10 data))
      in if n > MaxPayload then Inl (ErrInvalidRecord ''payload too large'')
      else if length data \<noteq> headerSize + n then Inl (ErrInvalidRecord ''length mismatch'')
      else let payload = drop headerSize data
      in if formatVersion < FormatVersionV1 then Inl ErrUnknownFormatVersion
      else if formatVersion > SupportedFormatVersion then Inl (ErrUnsupportedFormatVersion formatVersion)
      else Inr (formatVersion, payload))"

subsection \<open>Cells\<close>

primrec appendTags :: "bytes \<Rightarrow> bytes list \<Rightarrow> record_error + bytes" where
  "appendTags dst [] = Inr dst"
| "appendTags dst (t # ts) = bindR (appendString32 dst t) (\<lambda>dst. appendTags dst ts)"

primrec readTags :: "nat \<Rightarrow> bytes \<Rightarrow> record_error + bytes list \<times> bytes" where
  "readTags 0 data = Inr ([], data)"
| "readTags (Suc n) data =
     bindR (readString32 data) (\<lambda>(s, data). bindR (readTags n data) (\<lambda>(ss, data). Inr (s # ss, data)))"

text \<open>The tag list (count, then the strings) and the flagged cluster hint.\<close>

definition appendTagList :: "bytes \<Rightarrow> bytes list \<Rightarrow> record_error + bytes" where
  "appendTagList dst ts =
     bindR (putUint32BE (int (length ts))) (\<lambda>ntags. appendTags (dst @ ntags) ts)"

definition readTagList :: "bytes \<Rightarrow> record_error + bytes list \<times> bytes" where
  "readTagList data =
     (if length data < 4 then Inl (ErrInvalidRecord ''tag count'')
      else let nt = unat (Uint32 (take 4 data)); data = drop 4 data
      in if nt > maxTags then Inl (ErrInvalidRecord ''too many tags'') else readTags nt data)"

definition appendClusterHint :: "bytes \<Rightarrow> PackedCoord option \<Rightarrow> bytes" where
  "appendClusterHint dst hint =
     (case hint of None \<Rightarrow> dst @ [0] | Some h \<Rightarrow> appendPackedCoord (dst @ [1]) h)"

definition readClusterHint :: "bytes \<Rightarrow> record_error + PackedCoord option \<times> bytes" where
  "readClusterHint data =
     (if length data < 1 then Inl (ErrInvalidRecord ''cluster hint'')
      else if data ! 0 = 0 then Inr (None, drop 1 data)
      else if data ! 0 = 1
      then bindR (readPackedCoord (drop 1 data)) (\<lambda>(h, data). Inr (Some h, data))
      else Inl (ErrInvalidRecord ''cluster hint flag''))"

definition encodeCellPayloadV1 :: "CellRecord \<Rightarrow> record_error + bytes" where
  "encodeCellPayloadV1 r =
     (if length (Tags r) > maxTags then Inl (ErrInvalidRecord ''too many tags'')
      else let dst = appendPackedCoord [] (cellKey r)
      in bindR (appendString32 dst (RawContent r)) (\<lambda>dst.
         bindR (appendProvenance dst (cellProvenance r)) (\<lambda>dst.
         bindR (appendValidity dst (cellValidity r)) (\<lambda>dst.
         bindR (appendTagList dst (Tags r)) (\<lambda>dst.
           Inr (appendClusterHint dst (ClusterHint r)))))))"

definition decodeCellPayloadV1 :: "bytes \<Rightarrow> record_error + CellRecord" where
  "decodeCellPayloadV1 data =
     bindR (readPackedCoord data) (\<lambda>(key, data).
     bindR (readString32 data) (\<lambda>(raw, data).
     bindR (readProvenance data) (\<lambda>(prov, data).
     bindR (readValidity data) (\<lambda>(val, data).
     bindR (readTagList data) (\<lambda>(tags, data).
     bindR (readClusterHint data) (\<lambda>(hint, data).
       if length data \<noteq> 0 then Inl (ErrInvalidRecord ''trailing cell bytes'')
       else Inr \<lparr>cellKey = key, RawContent = raw, cellProvenance = prov,
                  cellValidity = val, Tags = tags, ClusterHint = hint\<rparr>))))))"

definition EncodeCell :: "CellRecord \<Rightarrow> record_error + bytes" where
  "EncodeCell r = bindR (encodeCellPayloadV1 r) (AppendEnvelope [] MagicCell FormatVersionV1)"

definition DecodeCell :: "bytes \<Rightarrow> record_error + CellRecord" where
  "DecodeCell data = bindR (ParseEnvelope MagicCell data) (\<lambda>(_, payload). decodeCellPayloadV1 payload)"

subsection \<open>Facets\<close>

definition encodeFacetPayloadV1 :: "FacetRecord \<Rightarrow> record_error + bytes" where
  "encodeFacetPayloadV1 r =
     (let dst = appendPackedCoord [] (facetKey r) @ [FacetID r]
      in bindR (appendString32 dst (DerivedContent r)) (\<lambda>dst.
           Inr (appendInt64BE dst (LastRotated r) @ DerivationHash r)))"

definition decodeFacetPayloadV1 :: "bytes \<Rightarrow> record_error + FacetRecord" where
  "decodeFacetPayloadV1 data =
     bindR (readPackedCoord data) (\<lambda>(key, data).
       if length data < 1 then Inl (ErrInvalidRecord ''facet id'')
       else let fid = data ! 0
       in if fid > 5 then Inl (ErrInvalidRecord ''facet id out of range'')
       else bindR (readString32 (drop 1 data)) (\<lambda>(content, data).
         bindR (readInt64BE data) (\<lambda>(rot, data).
           if length data \<noteq> 32 then Inl (ErrInvalidRecord ''derivation hash'')
           else let hash = slice 0 32 data; data = drop 32 data
           in if length data \<noteq> 0 then Inl (ErrInvalidRecord ''trailing facet bytes'')
           else Inr \<lparr>facetKey = key, FacetID = fid, DerivedContent = content,
                      LastRotated = rot, DerivationHash = hash\<rparr>)))"

definition EncodeFacet :: "FacetRecord \<Rightarrow> record_error + bytes" where
  "EncodeFacet r =
     (if FacetID r > 5 then Inl (ErrInvalidRecord ''facet id out of range'')
      else bindR (encodeFacetPayloadV1 r) (AppendEnvelope [] MagicFacet FormatVersionV1))"

definition DecodeFacet :: "bytes \<Rightarrow> record_error + FacetRecord" where
  "DecodeFacet data = bindR (ParseEnvelope MagicFacet data) (\<lambda>(_, payload). decodeFacetPayloadV1 payload)"

subsection \<open>Edges\<close>

definition encodeEdgePayloadV1 :: "EdgeRecord \<Rightarrow> record_error + bytes" where
  "encodeEdgePayloadV1 r =
     (let dst = appendPackedCoord (appendPackedCoord [] (edgeFrom r)) (edgeTo r)
      in bindR (appendString32 dst (RelationType r)) (\<lambda>dst.
           appendProvenance (appendFloat64BE dst (Weight r)) (edgeProvenance r)))"

definition decodeEdgePayloadV1 :: "bytes \<Rightarrow> record_error + EdgeRecord" where
  "decodeEdgePayloadV1 data =
     bindR (readPackedCoord data) (\<lambda>(from, data).
     bindR (readPackedCoord data) (\<lambda>(to, data).
     bindR (readString32 data) (\<lambda>(rel, data).
     bindR (readFloat64BE data) (\<lambda>(w, data).
     bindR (readProvenance data) (\<lambda>(prov, data).
       if length data \<noteq> 0 then Inl (ErrInvalidRecord ''trailing edge bytes'')
       else Inr \<lparr>edgeFrom = from, edgeTo = to, RelationType = rel, Weight = w,
                  edgeProvenance = prov\<rparr>)))))"

definition EncodeEdge :: "EdgeRecord \<Rightarrow> record_error + bytes" where
  "EncodeEdge r = bindR (encodeEdgePayloadV1 r) (AppendEnvelope [] MagicEdge FormatVersionV1)"

definition DecodeEdge :: "bytes \<Rightarrow> record_error + EdgeRecord" where
  "DecodeEdge data = bindR (ParseEnvelope MagicEdge data) (\<lambda>(_, payload). decodeEdgePayloadV1 payload)"

subsection \<open>Seams\<close>

text \<open>\<open>ulidParse\<close> answers the 16 bytes of a ULID string, \<open>ulidString\<close> prints them.\<close>

definition noValidity :: ValidityWire where
  "noValidity = \<lparr>ValidFrom = None, ValidTo = None\<rparr>"

definition zeroProvenance :: ProvenanceWire where
  "zeroProvenance = \<lparr>SourceID = [], Confidence = 0, CreatedAt = 0, UpdatedAt = 0\<rparr>"

definition encodeSeamPayloadV1 :: "SeamRecord \<Rightarrow> bytes \<Rightarrow> record_error + bytes" where
  "encodeSeamPayloadV1 r uid =
     (let dst = appendPackedCoord (appendPackedCoord uid (CellA r)) (CellB r)
      in bindR (appendString32 dst (SeamType r)) (\<lambda>dst.
         bindR (appendString32 dst (Reason r)) (\<lambda>dst.
         let dst = appendInt64BE (appendFloat64BE dst (ConfidenceDelta r)) (DetectedAt r)
         in bindR (appendString32 dst (ResolutionStatus r)) (\<lambda>dst.
         bindR (appendString32 dst (ResolutionNote r)) (\<lambda>dst.
         bindR (appendValidity dst (seamValidity r)) (\<lambda>dst.
           appendProvenance dst (seamProvenance r)))))))"

definition decodeSeamPayloadV1 ::
  "(bytes \<Rightarrow> bytes option) \<Rightarrow> (bytes \<Rightarrow> bytes) \<Rightarrow> bytes \<Rightarrow> record_error + SeamRecord" where
  "decodeSeamPayloadV1 ulidParse ulidString data =
     (if length data < 16 then Inl (ErrInvalidRecord ''ulid'')
      else let uid = slice 0 16 data; data = drop 16 data
      in if ulidParse (ulidString uid) = None then Inl ErrInvalidULID
      else bindR (readPackedCoord data) (\<lambda>(a, data).
      bindR (readPackedCoord data) (\<lambda>(b, data).
      bindR (readString32 data) (\<lambda>(ty, data).
      bindR (readString32 data) (\<lambda>(reason, data).
      bindR (readFloat64BE data) (\<lambda>(conf, data).
      bindR (readInt64BE data) (\<lambda>(det, data).
      bindR (readString32 data) (\<lambda>(status, data).
      bindR (readString32 data) (\<lambda>(note, data).
        let r = \<lparr>seamID = ulidString uid, CellA = a, CellB = b, SeamType = ty, Reason = reason,
                  ConfidenceDelta = conf, DetectedAt = det, ResolutionStatus = status,
                  ResolutionNote = note, seamValidity = noValidity, seamProvenance = zeroProvenance\<rparr>
        in if length data = 0 then Inr r
        else bindR (readValidity data) (\<lambda>(val, data).
          let r = r\<lparr>seamValidity := val\<rparr>
          in if length data = 0 then Inr r
          else bindR (readProvenance data) (\<lambda>(prov, data).
            if length data \<noteq> 0 then Inl (ErrInvalidRecord ''trailing seam bytes'')
            else Inr (r\<lparr>seamProvenance := prov\<rparr>))))))))))))"

definition EncodeSeam :: "(bytes \<Rightarrow> bytes option) \<Rightarrow> SeamRecord \<Rightarrow> record_error + bytes" where
  "EncodeSeam ulidParse r =
     (case ulidParse (seamID r) of None \<Rightarrow> Inl ErrInvalidULID
      | Some uid \<Rightarrow> bindR (encodeSeamPayloadV1 r uid) (AppendEnvelope [] MagicSeam FormatVersionV1))"

definition DecodeSeam ::
  "(bytes \<Rightarrow> bytes option) \<Rightarrow> (bytes \<Rightarrow> bytes) \<Rightarrow> bytes \<Rightarrow> record_error + SeamRecord" where
  "DecodeSeam ulidParse ulidString data =
     bindR (ParseEnvelope MagicSeam data) (\<lambda>(_, payload). decodeSeamPayloadV1 ulidParse ulidString payload)"

definition CanonicalCellPair :: "PackedCoord \<Rightarrow> PackedCoord \<Rightarrow> PackedCoord \<times> PackedCoord" where
  "CanonicalCellPair a b = (if Compare a b \<le> 0 then (a, b) else (b, a))"

subsection \<open>The contract of a field codec\<close>

locale wire_codec =
  fixes ok :: "'a \<Rightarrow> bool" and enc :: "'a \<Rightarrow> bytes" and rd :: "bytes \<Rightarrow> 'e + 'a \<times> bytes"
  assumes read_written: "ok x \<Longrightarrow> rd (enc x @ rest) = Inr (x, rest)"
    and read_sound: "rd data = Inr (x, rest) \<Longrightarrow> ok x \<and> data = enc x @ rest"
begin

lemma read_iff: "rd data = Inr (x, rest) \<longleftrightarrow> ok x \<and> data = enc x @ rest"
  using read_written read_sound by blast

lemma read_all: "ok x \<Longrightarrow> rd (enc x) = Inr (x, [])"
  using read_written [of x "[]"] by simp

lemma enc_inject_rest:
  assumes "ok x" "ok y" "enc x @ us = enc y @ vs"
  shows "x = y \<and> us = vs"
  using read_written [OF assms(1), of us] read_written [OF assms(2), of vs]
  unfolding assms(3) by simp

lemma prefix_free: "ok x \<Longrightarrow> ok y \<Longrightarrow> prefix (enc x) (enc y) \<Longrightarrow> x = y"
  using enc_inject_rest [of x y _ "[]"] by (auto simp: prefix_def)

lemma bind_read:
  "bindR (rd data) f = Inr y \<longleftrightarrow> (\<exists>x rest. ok x \<and> data = enc x @ rest \<and> f (x, rest) = Inr y)"
  by (auto simp: bindR_eq_Inr read_iff)

lemma bind_written [simp]: "ok x \<Longrightarrow> bindR (rd (enc x @ rest)) f = f (x, rest)"
  by (simp add: read_written)

end

text \<open>Reading a counted sequence of fields.\<close>

locale wire_codec_loop = wire_codec ok enc rd
  for ok :: "'a \<Rightarrow> bool" and enc :: "'a \<Rightarrow> bytes" and rd :: "bytes \<Rightarrow> 'e + 'a \<times> bytes" +
  fixes loop :: "nat \<Rightarrow> bytes \<Rightarrow> 'e + 'a list \<times> bytes"
  assumes loop_0: "loop 0 data = Inr ([], data)"
    and loop_Suc: "loop (Suc n) data =
      bindR (rd data) (\<lambda>(x, data). bindR (loop n data) (\<lambda>(xs, data). Inr (x # xs, data)))"
begin

definition encs :: "'a list \<Rightarrow> bytes" where
  "encs xs = concat (map enc xs)"

lemma loop_iff:
  "loop n data = Inr (xs, rest) \<longleftrightarrow> length xs = n \<and> (\<forall>x \<in> set xs. ok x) \<and> data = encs xs @ rest"
proof (induction n arbitrary: data xs)
  case 0
  then show ?case by (auto simp: loop_0 encs_def)
next
  case (Suc n)
  show ?case
    by (cases xs) (auto simp: loop_Suc bindR_eq_Inr read_iff Suc.IH encs_def)
qed

end

subsection \<open>Codecs of the fields\<close>

definition encPackedCoord :: "PackedCoord \<Rightarrow> bytes" where
  "encPackedCoord p = PutUint64 (packedLo p) @ PutUint64 (packedHi p)"

definition okString :: "bytes \<Rightarrow> bool" where
  "okString s \<longleftrightarrow> length s \<le> MaxStringField"

definition encString32 :: "bytes \<Rightarrow> bytes" where
  "encString32 s = PutUint32 (of_nat (length s)) @ s"

definition encOptionalInt64 :: "int64 option \<Rightarrow> bytes" where
  "encOptionalInt64 v = (case v of None \<Rightarrow> [0] | Some x \<Rightarrow> 1 # PutUint64 x)"

definition okProvenance :: "ProvenanceWire \<Rightarrow> bool" where
  "okProvenance p \<longleftrightarrow> okString (SourceID p)"

definition encProvenance :: "ProvenanceWire \<Rightarrow> bytes" where
  "encProvenance p = encString32 (SourceID p) @ PutUint64 (Confidence p) @
     PutUint64 (CreatedAt p) @ PutUint64 (UpdatedAt p)"

definition encValidity :: "ValidityWire \<Rightarrow> bytes" where
  "encValidity v = encOptionalInt64 (ValidFrom v) @ encOptionalInt64 (ValidTo v)"

lemma take_drop_exact: "length xs = n \<Longrightarrow> take n (xs @ ys) = xs" "length xs = n \<Longrightarrow> drop n (xs @ ys) = ys"
  by simp_all

lemma encPackedCoord_not_Nil [simp]: "encPackedCoord p \<noteq> []"
  by (simp add: encPackedCoord_def flip: length_0_conv)

interpretation i64: wire_codec "\<lambda>_. True" PutUint64 readInt64BE
  by unfold_locales (auto simp: readInt64BE_def Put_Uint split: if_splits)

interpretation f64: wire_codec "\<lambda>_. True" PutUint64 readFloat64BE
  by unfold_locales (auto simp: readFloat64BE_def Put_Uint split: if_splits)

interpretation pc: wire_codec "\<lambda>_. True" encPackedCoord readPackedCoord
proof
  fix data x rest
  assume "readPackedCoord data = Inr (x, rest)"
  then have "16 \<le> length data" "rest = drop 16 data"
    "x = PackedCoord (Uint64 (slice 0 8 data)) (Uint64 (slice 8 16 data))"
    by (auto simp: readPackedCoord_def split: if_splits)
  moreover from this have "encPackedCoord x = take 16 data"
    using take_add [of 8 8 data] by (simp add: encPackedCoord_def Put_Uint) (simp add: slice_def)
  ultimately show "True \<and> data = encPackedCoord x @ rest" by simp
qed (auto simp: readPackedCoord_def encPackedCoord_def slice_def)

lemma MaxStringField_lt: "n \<le> MaxStringField \<Longrightarrow> n < 2 ^ 32"
  by (simp add: MaxStringField_def)

interpretation str: wire_codec okString encString32 readString32
proof
  fix x rest
  assume "okString x"
  then have "unat (of_nat (length x) :: uint32) = length x" "length x \<le> MaxStringField"
    by (simp_all add: okString_def unat_of_nat MaxStringField_def)
  then show "readString32 (encString32 x @ rest) = Inr (x, rest)"
    by (simp add: readString32_def encString32_def Let_def slice_def)
next
  fix data x rest
  assume r: "readString32 data = Inr (x, rest)"
  define n where "n = unat (Uint32 (take 4 data))"
  have n: "4 + n \<le> length data" "n \<le> MaxStringField" "x = slice 4 (4 + n) data" "rest = drop (4 + n) data"
    using r by (auto simp: readString32_def n_def Let_def split: if_splits)
  then have "length x = n" "PutUint32 (of_nat n) = take 4 data"
    by (simp_all add: n_def Put_Uint)
  moreover have "data = take 4 data @ slice 4 (4 + n) data @ drop (4 + n) data"
    unfolding slice_def by (metis add_diff_cancel_left' append_take_drop_id drop_drop add.commute)
  ultimately show "okString x \<and> data = encString32 x @ rest"
    using n by (simp add: okString_def encString32_def)
qed

interpretation opt: wire_codec "\<lambda>_. True" encOptionalInt64 readOptionalInt64
proof
  fix data x rest
  assume r: "readOptionalInt64 data = Inr (x, rest)"
  then obtain b bs where "data = b # bs" by (cases data) (auto simp: readOptionalInt64_def)
  with r show "True \<and> data = encOptionalInt64 x @ rest"
    by (auto simp: readOptionalInt64_def encOptionalInt64_def i64.bind_read split: if_splits)
qed (auto simp: readOptionalInt64_def encOptionalInt64_def i64.read_written split: option.splits)

interpretation prov: wire_codec okProvenance encProvenance readProvenance
  by unfold_locales
    (auto simp: readProvenance_def encProvenance_def okProvenance_def str.bind_read f64.bind_read i64.bind_read)

interpretation val: wire_codec "\<lambda>_. True" encValidity readValidity
  by unfold_locales (auto simp: readValidity_def encValidity_def opt.bind_read)

interpretation tags: wire_codec_loop okString encString32 readString32 readTags
  by unfold_locales simp_all

subsection \<open>Writers append the codec's bytes\<close>

lemma appendPackedCoord_enc [codec_simps]: "appendPackedCoord dst p = dst @ encPackedCoord p"
  by (simp add: appendPackedCoord_def encPackedCoord_def)

lemma putUint32BE_length [codec_simps]:
  "n < 2 ^ 32 \<Longrightarrow> putUint32BE (int n) = Inr (PutUint32 (of_nat n))"
  by (simp add: putUint32BE_def uint32FromInt_def)

lemma appendString32_enc [codec_simps]:
  "appendString32 dst s =
     (if okString s then Inr (dst @ encString32 s) else Inl (ErrInvalidRecord ''string field too long''))"
  using MaxStringField_lt [of "length s"]
  by (auto simp: appendString32_def okString_def encString32_def putUint32BE_length)

lemma appendOptionalInt64_enc [codec_simps]: "appendOptionalInt64 dst v = dst @ encOptionalInt64 v"
  by (auto simp: appendOptionalInt64_def encOptionalInt64_def appendInt64BE_def split: option.splits)

lemma appendProvenance_enc [codec_simps]:
  "appendProvenance dst p =
     (if okProvenance p then Inr (dst @ encProvenance p) else Inl (ErrInvalidRecord ''string field too long''))"
  by (simp add: appendProvenance_def appendString32_enc okProvenance_def encProvenance_def
      appendInt64BE_def appendFloat64BE_def)

lemma appendValidity_enc [codec_simps]: "appendValidity dst v = Inr (dst @ encValidity v)"
  by (simp add: appendValidity_def appendOptionalInt64_enc encValidity_def)

lemma appendTags_enc:
  "appendTags dst ts = Inr out \<longleftrightarrow> (\<forall>t \<in> set ts. okString t) \<and> out = dst @ tags.encs ts"
  by (induction ts arbitrary: dst) (auto simp: bindR_eq_Inr appendString32_enc tags.encs_def)

subsection \<open>Envelopes\<close>

definition envelope :: "bytes \<Rightarrow> bytes \<Rightarrow> bytes" where
  "envelope magic payload =
     magic @ PutUint16 FormatVersionV1 @ PutUint32 (of_nat (length payload)) @ payload"

lemma AppendEnvelope_enc:
  "AppendEnvelope dst magic FormatVersionV1 payload = Inr out \<longleftrightarrow>
     length payload \<le> MaxPayload \<and> out = dst @ envelope magic payload"
  by (auto simp: AppendEnvelope_def envelope_def uint32FromInt_def MaxPayload_def bindR_def)

lemma ParseEnvelope_iff:
  assumes m: "length magic = 4"
  shows "ParseEnvelope magic data = Inr (v, payload) \<longleftrightarrow>
    v = FormatVersionV1 \<and> length payload \<le> MaxPayload \<and> data = envelope magic payload"
proof
  assume p: "ParseEnvelope magic data = Inr (v, payload)"
  then have len: "10 \<le> length data" by (auto simp: ParseEnvelope_def headerSize_def split: if_splits)
  define n where "n = unat (Uint32 (slice 6 10 data))"
  have "\<not> v < FormatVersionV1" "\<not> FormatVersionV1 < v"
    and f: "slice 0 4 data = magic" "n \<le> MaxPayload" "length data = 10 + n" "payload = drop 10 data"
    "v = Uint16 (slice 4 6 data)"
    using p len by (auto simp: ParseEnvelope_def headerSize_def n_def Let_def
        SupportedFormatVersion_def split: if_splits)
  then have v: "v = FormatVersionV1" by simp
  have "PutUint16 v = slice 4 6 data" "PutUint32 (of_nat n) = slice 6 10 data" "length payload = n"
    using f len by (simp_all add: Put_Uint n_def)
  moreover have "data = slice 0 4 data @ slice 4 6 data @ slice 6 10 data @ drop 10 data"
    unfolding slice_def using append_take_drop_id [of 4 data] append_take_drop_id [of 2 "drop 4 data"]
      append_take_drop_id [of 4 "drop 6 data"] by simp
  ultimately show "v = FormatVersionV1 \<and> length payload \<le> MaxPayload \<and> data = envelope magic payload"
    using f v by (simp add: envelope_def)
next
  assume a: "v = FormatVersionV1 \<and> length payload \<le> MaxPayload \<and> data = envelope magic payload"
  then have "unat (of_nat (length payload) :: uint32) = length payload"
    by (simp add: unat_of_nat MaxPayload_def)
  with a m show "ParseEnvelope magic data = Inr (v, payload)"
    by (simp add: ParseEnvelope_def envelope_def headerSize_def slice_def FormatVersionV1_def
        SupportedFormatVersion_def)
qed

lemma length_Magic [simp]:
  "length MagicCell = 4" "length MagicFacet = 4" "length MagicEdge = 4" "length MagicSeam = 4"
  by (simp_all add: MagicCell_def MagicFacet_def MagicEdge_def MagicSeam_def)

text \<open>A payload reader that accepts exactly the written payloads makes an exact record codec.\<close>

lemma record_codec:
  assumes "length magic = 4"
    and enc: "\<And>p. encP = Inr p \<longleftrightarrow> okP \<and> p = bytesP"
    and dec: "\<And>p. decP p = Inr r \<longleftrightarrow> okP \<and> p = bytesP"
  shows "bindR (ParseEnvelope magic data) (\<lambda>(_, payload). decP payload) = Inr r \<longleftrightarrow>
         bindR encP (AppendEnvelope [] magic FormatVersionV1) = Inr data"
  using assms(1) by (auto simp: bindR_eq_Inr ParseEnvelope_iff AppendEnvelope_enc enc dec)

subsection \<open>Cells\<close>

definition okTagList :: "bytes list \<Rightarrow> bool" where
  "okTagList ts \<longleftrightarrow> length ts \<le> maxTags \<and> (\<forall>t \<in> set ts. okString t)"

definition encTagList :: "bytes list \<Rightarrow> bytes" where
  "encTagList ts = PutUint32 (of_nat (length ts)) @ tags.encs ts"

definition encHint :: "PackedCoord option \<Rightarrow> bytes" where
  "encHint h = (case h of None \<Rightarrow> [0] | Some h \<Rightarrow> 1 # encPackedCoord h)"

interpretation taglist: wire_codec okTagList encTagList readTagList
proof
  fix x rest
  assume "okTagList x"
  then have "unat (of_nat (length x) :: uint32) = length x" "length x \<le> maxTags"
    "readTags (length x) (tags.encs x @ rest) = Inr (x, rest)"
    by (simp_all add: okTagList_def unat_of_nat maxTags_def tags.loop_iff)
  then show "readTagList (encTagList x @ rest) = Inr (x, rest)"
    by (simp add: readTagList_def encTagList_def Let_def)
next
  fix data x rest
  assume r: "readTagList data = Inr (x, rest)"
  then have n: "4 \<le> length data" "unat (Uint32 (take 4 data)) \<le> maxTags"
    and "readTags (unat (Uint32 (take 4 data))) (drop 4 data) = Inr (x, rest)"
    by (auto simp: readTagList_def Let_def split: if_splits)
  then have t: "length x = unat (Uint32 (take 4 data))" "\<forall>t \<in> set x. okString t"
    "drop 4 data = tags.encs x @ rest"
    by (simp_all add: tags.loop_iff)
  have "take 4 data = PutUint32 (of_nat (length x))" using n t by (simp add: Put_Uint)
  then show "okTagList x \<and> data = encTagList x @ rest"
    using n t append_take_drop_id [of 4 data] by (simp add: okTagList_def encTagList_def)
qed

interpretation hint: wire_codec "\<lambda>_. True" encHint readClusterHint
proof
  fix data x rest
  assume r: "readClusterHint data = Inr (x, rest)"
  then obtain b bs where "data = b # bs" by (cases data) (auto simp: readClusterHint_def)
  with r show "True \<and> data = encHint x @ rest"
    by (auto simp: readClusterHint_def encHint_def pc.bind_read split: if_splits)
qed (auto simp: readClusterHint_def encHint_def split: option.splits)

lemma appendTagList_enc:
  "length ts \<le> maxTags \<Longrightarrow> appendTagList dst ts = Inr out \<longleftrightarrow> okTagList ts \<and> out = dst @ encTagList ts"
  by (simp add: appendTagList_def putUint32BE_length maxTags_def okTagList_def appendTags_enc encTagList_def)

lemma appendClusterHint_enc [codec_simps]: "appendClusterHint dst h = dst @ encHint h"
  by (simp add: appendClusterHint_def encHint_def appendPackedCoord_enc split: option.splits)

definition okCell :: "CellRecord \<Rightarrow> bool" where
  "okCell r \<longleftrightarrow> okString (RawContent r) \<and> okProvenance (cellProvenance r) \<and> okTagList (Tags r)"

definition encCell :: "CellRecord \<Rightarrow> bytes" where
  "encCell r = encPackedCoord (cellKey r) @ encString32 (RawContent r) @
     encProvenance (cellProvenance r) @ encValidity (cellValidity r) @
     encTagList (Tags r) @ encHint (ClusterHint r)"

lemma encodeCellPayloadV1_iff: "encodeCellPayloadV1 r = Inr p \<longleftrightarrow> okCell r \<and> p = encCell r"
  by (cases "length (Tags r) \<le> maxTags")
    (auto simp: encodeCellPayloadV1_def Let_def codec_simps okCell_def encCell_def bindR_eq_Inr
        appendTagList_enc, auto simp: okTagList_def)

lemmas read_binds = pc.bind_read str.bind_read prov.bind_read val.bind_read f64.bind_read i64.bind_read
  taglist.bind_read hint.bind_read

lemma decodeCellPayloadV1_iff: "decodeCellPayloadV1 p = Inr r \<longleftrightarrow> okCell r \<and> p = encCell r"
  by (cases r) (auto simp: decodeCellPayloadV1_def read_binds okCell_def encCell_def)

lemma cell_codec: "DecodeCell data = Inr r \<longleftrightarrow> EncodeCell r = Inr data"
  unfolding DecodeCell_def EncodeCell_def
  by (intro record_codec) (simp_all add: encodeCellPayloadV1_iff decodeCellPayloadV1_iff)

subsection \<open>Facets and edges\<close>

definition okFacet :: "FacetRecord \<Rightarrow> bool" where
  "okFacet r \<longleftrightarrow> FacetID r \<le> 5 \<and> okString (DerivedContent r)"

definition encFacet :: "FacetRecord \<Rightarrow> bytes" where
  "encFacet r = encPackedCoord (facetKey r) @ [FacetID r] @ encString32 (DerivedContent r) @
     PutUint64 (LastRotated r) @ DerivationHash r"

lemma encodeFacet_iff:
  "(if FacetID r > 5 then Inl e else encodeFacetPayloadV1 r) = Inr p \<longleftrightarrow> okFacet r \<and> p = encFacet r"
  by (auto simp: encodeFacetPayloadV1_def codec_simps okFacet_def encFacet_def bindR_eq_Inr appendInt64BE_def)

lemma decodeFacetPayloadV1_iff:
  "decodeFacetPayloadV1 p = Inr r \<longleftrightarrow> okFacet r \<and> length (DerivationHash r) = 32 \<and> p = encFacet r"
proof
  assume "decodeFacetPayloadV1 p = Inr r"
  then show "okFacet r \<and> length (DerivationHash r) = 32 \<and> p = encFacet r"
    by (auto simp: decodeFacetPayloadV1_def read_binds okFacet_def encFacet_def Let_def slice_def
       neq_Nil_conv split: if_splits)
next
  assume "okFacet r \<and> length (DerivationHash r) = 32 \<and> p = encFacet r"
  moreover from this have "\<not> 5 < FacetID r" by (simp add: okFacet_def linorder_not_less)
  ultimately show "decodeFacetPayloadV1 p = Inr r"
    by (simp add: decodeFacetPayloadV1_def encFacet_def okFacet_def Let_def slice_def)
qed

lemma facet_codec:
  "DecodeFacet data = Inr r \<longleftrightarrow> EncodeFacet r = Inr data \<and> length (DerivationHash r) = 32"
proof -
  have e: "EncodeFacet r = bindR (if FacetID r > 5 then Inl (ErrInvalidRecord ''facet id out of range'')
      else encodeFacetPayloadV1 r) (AppendEnvelope [] MagicFacet FormatVersionV1)"
    by (cases "FacetID r > 5") (simp_all add: EncodeFacet_def)
  show ?thesis
    unfolding DecodeFacet_def e
    by (auto simp: bindR_eq_Inr ParseEnvelope_iff AppendEnvelope_enc encodeFacet_iff decodeFacetPayloadV1_iff)
qed

definition okEdge :: "EdgeRecord \<Rightarrow> bool" where
  "okEdge r \<longleftrightarrow> okString (RelationType r) \<and> okProvenance (edgeProvenance r)"

definition encEdge :: "EdgeRecord \<Rightarrow> bytes" where
  "encEdge r = encPackedCoord (edgeFrom r) @ encPackedCoord (edgeTo r) @ encString32 (RelationType r) @
     PutUint64 (Weight r) @ encProvenance (edgeProvenance r)"

lemma encodeEdgePayloadV1_iff: "encodeEdgePayloadV1 r = Inr p \<longleftrightarrow> okEdge r \<and> p = encEdge r"
  by (auto simp: encodeEdgePayloadV1_def codec_simps okEdge_def encEdge_def appendFloat64BE_def)

lemma decodeEdgePayloadV1_iff: "decodeEdgePayloadV1 p = Inr r \<longleftrightarrow> okEdge r \<and> p = encEdge r"
  by (cases r) (auto simp: decodeEdgePayloadV1_def read_binds okEdge_def encEdge_def)

lemma edge_codec: "DecodeEdge data = Inr r \<longleftrightarrow> EncodeEdge r = Inr data"
  unfolding DecodeEdge_def EncodeEdge_def
  by (intro record_codec) (simp_all add: encodeEdgePayloadV1_iff decodeEdgePayloadV1_iff)

subsection \<open>Seams\<close>

definition okSeam :: "SeamRecord \<Rightarrow> bool" where
  "okSeam r \<longleftrightarrow> okString (SeamType r) \<and> okString (Reason r) \<and> okString (ResolutionStatus r) \<and>
     okString (ResolutionNote r) \<and> okProvenance (seamProvenance r)"

definition encSeamBase :: "bytes \<Rightarrow> SeamRecord \<Rightarrow> bytes" where
  "encSeamBase uid r = uid @ encPackedCoord (CellA r) @ encPackedCoord (CellB r) @
     encString32 (SeamType r) @ encString32 (Reason r) @ PutUint64 (ConfidenceDelta r) @
     PutUint64 (DetectedAt r) @ encString32 (ResolutionStatus r) @ encString32 (ResolutionNote r)"

definition encSeam :: "bytes \<Rightarrow> SeamRecord \<Rightarrow> bytes" where
  "encSeam uid r = encSeamBase uid r @ encValidity (seamValidity r) @ encProvenance (seamProvenance r)"

lemma encodeSeamPayloadV1_iff: "encodeSeamPayloadV1 r uid = Inr p \<longleftrightarrow> okSeam r \<and> p = encSeam uid r"
  by (auto simp: encodeSeamPayloadV1_def codec_simps okSeam_def encSeam_def encSeamBase_def Let_def
      appendFloat64BE_def appendInt64BE_def)

lemma encValidity_not_Nil [simp]: "encValidity v \<noteq> []"
  by (simp add: encValidity_def encOptionalInt64_def split: option.splits)

lemma encProvenance_not_Nil [simp]: "encProvenance p \<noteq> []"
  by (simp add: encProvenance_def flip: length_0_conv)

text \<open>
  A stored seam decodes to the encoded one with its id in the printed form of \<open>ulid\<close>.
\<close>

lemma decodeSeam_written:
  assumes "length uid = 16" "ulidParse (ulidString uid) \<noteq> None" "okSeam r"
  shows "decodeSeamPayloadV1 ulidParse ulidString (encSeam uid r) = Inr (r\<lparr>seamID := ulidString uid\<rparr>)"
  using assms
  by (cases r) (simp add: decodeSeamPayloadV1_def encSeam_def encSeamBase_def Let_def slice_def okSeam_def
      noValidity_def zeroProvenance_def prov.read_all)

text \<open>What decodes is one of the three payload layouts: the base, with validity, or complete.\<close>

lemma decodeSeam_sound:
  assumes "decodeSeamPayloadV1 ulidParse ulidString p = Inr r"
  obtains uid where "length uid = 16" "ulidParse (ulidString uid) \<noteq> None" "seamID r = ulidString uid"
    "okSeam r"
    "p = encSeam uid r \<or>
     p = encSeamBase uid r \<and> seamValidity r = noValidity \<and> seamProvenance r = zeroProvenance \<or>
     p = encSeamBase uid r @ encValidity (seamValidity r) \<and> seamProvenance r = zeroProvenance"
proof (rule that [of "slice 0 16 p"])
  have len: "16 \<le> length p"
    using assms by (auto simp: decodeSeamPayloadV1_def split: if_splits)
  then show "length (slice 0 16 p) = 16" by simp
  have p: "p = slice 0 16 p @ drop 16 p" by (simp add: slice_def)
  have zero: "okProvenance zeroProvenance" by (simp add: okProvenance_def zeroProvenance_def okString_def)
  from assms len show "ulidParse (ulidString (slice 0 16 p)) \<noteq> None"
    by (simp add: decodeSeamPayloadV1_def Let_def split: if_splits)
  from assms len show "seamID r = ulidString (slice 0 16 p)"
    by (auto simp: decodeSeamPayloadV1_def Let_def read_binds split: if_splits)
  from assms len show "okSeam r"
    by (auto simp: decodeSeamPayloadV1_def Let_def read_binds okSeam_def zero split: if_splits)
  from assms len show "p = encSeam (slice 0 16 p) r \<or>
     p = encSeamBase (slice 0 16 p) r \<and> seamValidity r = noValidity \<and> seamProvenance r = zeroProvenance \<or>
     p = encSeamBase (slice 0 16 p) r @ encValidity (seamValidity r) \<and> seamProvenance r = zeroProvenance"
    by (subst (1 3 5) p) (auto simp: decodeSeamPayloadV1_def Let_def read_binds encSeam_def encSeamBase_def
      split: if_splits)
qed

lemma seam_codec:
  assumes u: "ulidParse (seamID r) = Some uid" "length uid = 16" "ulidParse (ulidString uid) \<noteq> None"
    and e: "EncodeSeam ulidParse r = Inr data"
  shows "DecodeSeam ulidParse ulidString data = Inr (r\<lparr>seamID := ulidString uid\<rparr>)"
  using e u by (auto simp: EncodeSeam_def DecodeSeam_def bindR_eq_Inr AppendEnvelope_enc
      encodeSeamPayloadV1_iff ParseEnvelope_iff decodeSeam_written)

subsection \<open>Canonical cell pairs\<close>

lemma CanonicalCellPair_minmax: "CanonicalCellPair a b = (min a b, max a b)"
  by (auto simp: CanonicalCellPair_def Compare_cases min_def max_def)

lemma CanonicalCellPair_commute: "CanonicalCellPair a b = CanonicalCellPair b a"
  by (simp add: CanonicalCellPair_minmax min.commute max.commute)

subsection \<open>Tags\<close>

text \<open>
  \<open>strings.TrimSpace\<close> on UTF-8 bytes: the encodings of the Unicode white space code points
  (U+0009--000D, 0020, 0085, 00A0, 1680, 2000--200A, 2028, 2029, 202F, 205F, 3000) are removed
  at both ends.
\<close>

definition spaceRunes :: "bytes list" where
  "spaceRunes =
     [[0x09], [0x0A], [0x0B], [0x0C], [0x0D], [0x20], [0xC2, 0x85], [0xC2, 0xA0],
      [0xE1, 0x9A, 0x80], [0xE2, 0x80, 0x80], [0xE2, 0x80, 0x81], [0xE2, 0x80, 0x82],
      [0xE2, 0x80, 0x83], [0xE2, 0x80, 0x84], [0xE2, 0x80, 0x85], [0xE2, 0x80, 0x86],
      [0xE2, 0x80, 0x87], [0xE2, 0x80, 0x88], [0xE2, 0x80, 0x89], [0xE2, 0x80, 0x8A],
      [0xE2, 0x80, 0xA8], [0xE2, 0x80, 0xA9], [0xE2, 0x80, 0xAF], [0xE2, 0x81, 0x9F],
      [0xE3, 0x80, 0x80]]"

fun trimRunes :: "nat \<Rightarrow> bytes list \<Rightarrow> bytes \<Rightarrow> bytes" where
  "trimRunes 0 rs s = s"
| "trimRunes (Suc n) rs s =
     (case List.find (\<lambda>r. prefix r s) rs of
        None \<Rightarrow> s
      | Some r \<Rightarrow> trimRunes n rs (drop (length r) s))"

definition trimLeft :: "bytes list \<Rightarrow> bytes \<Rightarrow> bytes" where
  "trimLeft rs s = trimRunes (length s) rs s"

definition TrimSpace :: "bytes \<Rightarrow> bytes" where
  "TrimSpace s = rev (trimLeft (map rev spaceRunes) (rev (trimLeft spaceRunes s)))"

definition uniqueTagStep :: "bytes \<Rightarrow> bytes set \<times> bytes list \<Rightarrow> bytes set \<times> bytes list" where
  "uniqueTagStep t st =
     (let t = TrimSpace t
      in if t = [] then st
         else if t \<in> fst st then st
         else (insert t (fst st), snd st @ [t]))"

definition UniqueSortedTags :: "bytes list \<Rightarrow> bytes list" where
  "UniqueSortedTags tags =
     (if length tags = 0 then [] else sort (snd (fold uniqueTagStep tags ({}, []))))"

lemma unique_fold:
  assumes "distinct out" "set out = seen"
  shows "distinct (snd (fold uniqueTagStep ts (seen, out))) \<and>
         set (snd (fold uniqueTagStep ts (seen, out))) = seen \<union> (TrimSpace ` set ts - {[]})"
  using assms
proof (induction ts arbitrary: seen out)
  case (Cons t ts)
  show ?case
  proof (cases "TrimSpace t = [] \<or> TrimSpace t \<in> seen")
    case True
    then have "uniqueTagStep t (seen, out) = (seen, out)" by (auto simp: uniqueTagStep_def Let_def)
    with Cons.IH [OF Cons.prems] True show ?thesis by auto
  next
    case False
    then have "uniqueTagStep t (seen, out) = (insert (TrimSpace t) seen, out @ [TrimSpace t])"
      by (simp add: uniqueTagStep_def Let_def)
    with Cons.IH [of "out @ [TrimSpace t]" "insert (TrimSpace t) seen"] Cons.prems False
    show ?thesis by auto
  qed
qed auto

lemma UniqueSortedTags_sorted_set:
  "UniqueSortedTags ts = sorted_list_of_set (TrimSpace ` set ts - {[]})"
proof -
  have "distinct (snd (fold uniqueTagStep ts ({}, [])))"
    and "set (snd (fold uniqueTagStep ts ({}, []))) = TrimSpace ` set ts - {[]}"
    using unique_fold [of "[]" "{}" ts] by simp_all
  then have "sort (snd (fold uniqueTagStep ts ({}, []))) = sorted_list_of_set (TrimSpace ` set ts - {[]})"
    using sorted_list_of_set_sort_remdups [of "snd (fold uniqueTagStep ts ({}, []))"]
    by (simp add: distinct_remdups_id)
  then show ?thesis by (cases ts) (simp_all add: UniqueSortedTags_def)
qed

lemma trimRunes_suffix: "suffix (trimRunes n rs s) s"
proof (induction n arbitrary: s)
  case (Suc n)
  show ?case
  proof (cases "List.find (\<lambda>r. prefix r s) rs")
    case (Some r)
    have "suffix (drop (length r) s) s" by (rule suffix_drop)
    with Suc [of "drop (length r) s"] Some show ?thesis by (auto intro: suffix_order.trans)
  qed simp
qed simp

lemma trimRunes_stops:
  assumes "[] \<notin> set rs" "length s \<le> n"
  shows "\<forall>r \<in> set rs. \<not> prefix r (trimRunes n rs s)"
  using assms(2)
proof (induction n arbitrary: s)
  case 0
  then show ?case using assms(1) by auto
next
  case (Suc n)
  show ?case
  proof (cases "List.find (\<lambda>r. prefix r s) rs")
    case (Some r)
    then have "r \<in> set rs" "prefix r s" by (auto simp: find_Some_iff)
    then have "0 < length r" using assms(1) by (cases r) auto
    then have "length (drop (length r) s) \<le> n" using Suc.prems by (simp only: length_drop)
    with Suc.IH Some show ?thesis by simp
  next
    case None
    then have "\<forall>r \<in> set rs. \<not> prefix r s" by (auto simp: find_None_iff)
    with None show ?thesis by simp
  qed
qed

lemma trimRunes_fix: "\<forall>r \<in> set rs. \<not> prefix r s \<Longrightarrow> trimRunes n rs s = s"
  by (cases n) (auto simp: find_None_iff [THEN iffD2])

lemma prefix_rev: "prefix (rev r) (rev s) \<longleftrightarrow> suffix r s"
  by (simp add: suffix_to_prefix)

lemma spaceRunes_nonempty: "[] \<notin> set spaceRunes"
  by (simp add: spaceRunes_def)

lemma TrimSpace_clean:
  assumes "r \<in> set spaceRunes"
  shows "\<not> prefix r (TrimSpace s)" "\<not> suffix r (TrimSpace s)"
proof -
  define t where "t = trimLeft spaceRunes s"
  have t: "\<not> prefix r t"
    using trimRunes_stops [OF spaceRunes_nonempty, of s "length s"] assms by (auto simp: t_def trimLeft_def)
  have "suffix (rev (TrimSpace s)) (rev t)"
    by (simp add: TrimSpace_def t_def trimLeft_def trimRunes_suffix)
  then have "prefix (TrimSpace s) t" by (simp add: suffix_to_prefix)
  with t show "\<not> prefix r (TrimSpace s)" by (meson prefix_order.trans)
  have "\<forall>q \<in> set (map rev spaceRunes). \<not> prefix q (rev (TrimSpace s))"
    using trimRunes_stops [of "map rev spaceRunes" "rev t" "length t"] spaceRunes_nonempty
    by (auto simp: TrimSpace_def t_def trimLeft_def)
  with assms show "\<not> suffix r (TrimSpace s)" by (auto simp: prefix_rev)
qed

lemma TrimSpace_idem: "TrimSpace (TrimSpace s) = TrimSpace s"
proof -
  have "trimLeft spaceRunes (TrimSpace s) = TrimSpace s"
    unfolding trimLeft_def by (rule trimRunes_fix) (simp add: TrimSpace_clean)
  moreover have "trimLeft (map rev spaceRunes) (rev (TrimSpace s)) = rev (TrimSpace s)"
    unfolding trimLeft_def by (rule trimRunes_fix) (auto simp: TrimSpace_clean prefix_rev)
  ultimately show ?thesis by (simp add: TrimSpace_def [of "TrimSpace s"])
qed

lemma UniqueSortedTags_idem: "UniqueSortedTags (UniqueSortedTags ts) = UniqueSortedTags ts"
proof -
  define A where "A = TrimSpace ` set ts - {[]}"
  have fx: "TrimSpace t = t" if "t \<in> A" for t
    using that by (auto simp: A_def TrimSpace_idem)
  have "TrimSpace ` A = A" using fx by (simp cong: image_cong)
  then have "TrimSpace ` A - {[]} = A" by (simp add: A_def)
  moreover have "finite A" by (simp add: A_def)
  ultimately show ?thesis by (simp add: UniqueSortedTags_sorted_set flip: A_def)
qed

subsection \<open>Properties\<close>

text \<open>C22: the cell record's binary format: \<open>DecodeCell\<close> accepts exactly the bytes
  \<open>EncodeCell\<close> produces and returns the record that was encoded, so no two byte strings
  decode to the same record and no record is lost.\<close>
theorem Cell_roundtrip: "DecodeCell data = Inr r \<longleftrightarrow> EncodeCell r = Inr data"
  by (rule cell_codec)

text \<open>C23: the facet and edge formats are canonical in the same way (a facet's derivation
  hash is a fixed array of 32 bytes).\<close>
theorem Facet_Edge_roundtrip:
  "(DecodeFacet fd = Inr f \<longleftrightarrow> EncodeFacet f = Inr fd \<and> length (DerivationHash f) = 32) \<and>
   (DecodeEdge ed = Inr e \<longleftrightarrow> EncodeEdge e = Inr ed)"
  using facet_codec [of fd f] edge_codec [of ed e] by blast

text \<open>C25: tags are stored canonically: \<open>UniqueSortedTags\<close> is the sorted list of the
  distinct non-empty trimmed tags, and applying it again changes nothing.\<close>
theorem UniqueSortedTags_canonical:
  "UniqueSortedTags ts = sorted_list_of_set (TrimSpace ` set ts - {[]}) \<and>
   UniqueSortedTags (UniqueSortedTags ts) = UniqueSortedTags ts"
  using UniqueSortedTags_sorted_set UniqueSortedTags_idem by blast

text \<open>C24: a seam that encodes decodes to itself with its identifier in canonical ULID
  spelling. The ULID package's parser and printer are parameters: the identifier parses to 16
  bytes, and what the printer writes parses again.\<close>
theorem Seam_roundtrip:
  assumes "ulidParse (seamID r) = Some uid" "length uid = 16" "ulidParse (ulidString uid) \<noteq> None"
    and "EncodeSeam ulidParse r = Inr data"
  shows "DecodeSeam ulidParse ulidString data = Inr (r\<lparr>seamID := ulidString uid\<rparr>)"
  by (rule seam_codec) (rule assms)+

theorem Seam_roundtrip_witness:
  "\<exists>data. DecodeSeam (\<lambda>s. if length s = 26 then Some (take 16 s) else None)
       (\<lambda>u. u @ replicate 10 48) data =
     Inr \<lparr>seamID = replicate 26 48, CellA = PackedCoord 1 0, CellB = PackedCoord 2 0, SeamType = [97],
       Reason = [98], ConfidenceDelta = 0, DetectedAt = 5, ResolutionStatus = [], ResolutionNote = [],
       seamValidity = \<lparr>ValidFrom = None, ValidTo = Some 3\<rparr>,
       seamProvenance = \<lparr>SourceID = [99], Confidence = 1, CreatedAt = 2, UpdatedAt = 3\<rparr>\<rparr>"
proof -
  let ?p = "\<lambda>s. if length s = 26 then Some (take 16 s) else (None :: bytes option)"
  let ?r = "\<lparr>seamID = replicate 26 48, CellA = PackedCoord 1 0, CellB = PackedCoord 2 0, SeamType = [97],
       Reason = [98], ConfidenceDelta = 0, DetectedAt = 5, ResolutionStatus = [], ResolutionNote = [],
       seamValidity = \<lparr>ValidFrom = None, ValidTo = Some 3\<rparr>,
       seamProvenance = \<lparr>SourceID = [99], Confidence = 1, CreatedAt = 2, UpdatedAt = 3\<rparr>\<rparr>"
  have "okSeam ?r"
    by (simp add: okSeam_def okString_def okProvenance_def MaxStringField_def)
  then have "encodeSeamPayloadV1 ?r (replicate 16 48) = Inr (encSeam (replicate 16 48) ?r)"
    by (simp add: encodeSeamPayloadV1_iff)
  moreover have "length (encSeam (replicate 16 48) ?r) \<le> MaxPayload"
    by (simp add: encSeam_def encSeamBase_def encPackedCoord_def encString32_def encValidity_def
        encOptionalInt64_def encProvenance_def MaxPayload_def)
  ultimately have "\<exists>data. EncodeSeam ?p ?r = Inr data"
    by (simp add: EncodeSeam_def AppendEnvelope_enc)
  then obtain data where "EncodeSeam ?p ?r = Inr data" ..
  then have "DecodeSeam ?p (\<lambda>u. u @ replicate 10 48) data =
      Inr (?r\<lparr>seamID := replicate 16 48 @ replicate 10 48\<rparr>)"
    by (rule Seam_roundtrip [rotated 3]) simp_all
  then show ?thesis
    by (intro exI [of _ data]) (simp add: replicate_add [symmetric])
qed

end
