(* ===== verification/Keys.thy ===== *)
theory Keys
  imports Records "HOL-Library.Product_Lexorder"
begin

text \<open>
  Primary storage keys: \<open>cell_key.go\<close>, \<open>cell_version.go\<close>,
  \<open>embed_key.go\<close>, \<open>hnsw_key.go\<close>, \<open>facet_key.go\<close>,
  \<open>edge_key.go\<close>, \<open>commit_time_key.go\<close>, \<open>changelog_outbox_key.go\<close>,
  \<open>changelog_consumer.go\<close> and \<open>snap_tag_key.go\<close> of \<open>internal/index\<close>,
  and \<open>internal/mvcc/version_suffix_cell_key.go\<close>. The B+ tree orders keys by
  \<open>bytes.Compare\<close>, the order \<open><\<close> on byte lists; the locale
  \<open>ordered_key\<close> says that a key family sorts like the values it encodes, which is what
  makes its scan bounds exact.
\<close>

datatype index_error =
    IndexError string
  | ErrFacetIDOutOfRange byte
  | ErrEmptyRelationType
  | ErrSourceIDTooLong
  | ErrTagTooLong
  | ErrKeyInvalidULID

subsection \<open>Packed coordinates in keys\<close>

definition PackedCoordKeyLen :: nat where "PackedCoordKeyLen = 16"
definition VersionSuffixLen :: nat where "VersionSuffixLen = 8"

definition appendPackedCoordBE :: "bytes \<Rightarrow> PackedCoord \<Rightarrow> bytes" where
  "appendPackedCoordBE dst p = dst @ PutUint64 (packedHi p) @ PutUint64 (packedLo p)"

definition binaryUint64BE :: "bytes \<Rightarrow> uint64" where
  "binaryUint64BE b =
     push_bit 56 (ucast (b ! 0)) OR push_bit 48 (ucast (b ! 1)) OR push_bit 40 (ucast (b ! 2)) OR
     push_bit 32 (ucast (b ! 3)) OR push_bit 24 (ucast (b ! 4)) OR push_bit 16 (ucast (b ! 5)) OR
     push_bit 8 (ucast (b ! 6)) OR ucast (b ! 7)"

definition parsePackedCoordSegment :: "bytes \<Rightarrow> index_error + PackedCoord" where
  "parsePackedCoordSegment seg =
     (if length seg \<noteq> PackedCoordKeyLen then Inl (IndexError ''index: bad packed segment length'')
      else Inr (PackedCoord (binaryUint64BE (slice 8 16 seg)) (binaryUint64BE (slice 0 8 seg))))"

subsection \<open>Cells, embeddings and graph nodes\<close>

definition CellPrefix :: bytes where "CellPrefix = ascii ''cell/''"
definition EmbedPrefix :: bytes where "EmbedPrefix = ascii ''embed/''"
definition HNSWNodePrefix :: bytes where "HNSWNodePrefix = ascii ''hnsw/node/''"

definition CellKey :: "PackedCoord \<Rightarrow> bytes" where
  "CellKey p = appendPackedCoordBE CellPrefix p"

definition ParseCellKey :: "bytes \<Rightarrow> index_error + PackedCoord" where
  "ParseCellKey key =
     (if \<not> prefix CellPrefix key then Inl (IndexError ''index: not a cell key'')
      else let suf = drop (length CellPrefix) key
      in if length suf \<noteq> PackedCoordKeyLen then Inl (IndexError ''index: bad cell key length'')
      else Inr (PackedCoord (Uint64 (slice 8 16 suf)) (Uint64 (slice 0 8 suf))))"

definition CellKeyWithVersion :: "PackedCoord \<Rightarrow> uint64 \<Rightarrow> bytes" where
  "CellKeyWithVersion p commitSeq = CellKey p @ PutUint64 commitSeq"

definition ParseCellVersionKey :: "bytes \<Rightarrow> index_error + PackedCoord \<times> uint64" where
  "ParseCellVersionKey key =
     (let want = length CellPrefix + PackedCoordKeyLen + VersionSuffixLen
      in if length key \<noteq> want then Inl (IndexError ''index: bad cell version key length'')
         else bindR (ParseCellKey (take (length CellPrefix + PackedCoordKeyLen) key)) (\<lambda>p.
           Inr (p, Uint64 (drop (length key - VersionSuffixLen) key))))"

definition CellVersionScanBounds :: "PackedCoord \<Rightarrow> bytes \<times> bytes" where
  "CellVersionScanBounds p = (CellKeyWithVersion p 0, CellKeyWithVersion p (- 1))"

definition ParseCommitSeqFromCellKey :: "bytes \<Rightarrow> uint64 option" where
  "ParseCommitSeqFromCellKey key =
     (let want = length CellPrefix + PackedCoordKeyLen + VersionSuffixLen
      in if length key \<noteq> want then None
         else case ParseCellKey (take (length CellPrefix + PackedCoordKeyLen) key) of
             Inl _ \<Rightarrow> None
           | Inr _ \<Rightarrow> Some (Uint64 (drop (length key - VersionSuffixLen) key)))"

definition EmbedKey :: "PackedCoord \<Rightarrow> bytes" where
  "EmbedKey p = appendPackedCoordBE EmbedPrefix p"

definition EmbedKeyEnd :: bytes where
  "EmbedKeyEnd = EmbedPrefix[length EmbedPrefix - 1 := EmbedPrefix ! (length EmbedPrefix - 1) + 1]"

definition ParseEmbedKey :: "bytes \<Rightarrow> index_error + PackedCoord" where
  "ParseEmbedKey key =
     (if \<not> prefix EmbedPrefix key then Inl (IndexError ''index: not an embed key'')
      else let suf = drop (length EmbedPrefix) key
      in if length suf \<noteq> PackedCoordKeyLen then Inl (IndexError ''index: bad embed key length'')
      else Inr (PackedCoord (Uint64 (slice 8 16 suf)) (Uint64 (slice 0 8 suf))))"

definition HNSWNodeKey :: "PackedCoord \<Rightarrow> bytes" where
  "HNSWNodeKey p = appendPackedCoordBE HNSWNodePrefix p"

definition HNSWNodeKeyEnd :: bytes where
  "HNSWNodeKeyEnd = HNSWNodePrefix @ replicate PackedCoordKeyLen 0xff"

subsection \<open>Version suffixes of the MVCC package\<close>

definition CellPhysicalKeyWithVersionSuffix :: "PackedCoord \<Rightarrow> uint64 \<Rightarrow> bytes" where
  "CellPhysicalKeyWithVersionSuffix p commitSeq = CellKey p @ PutUint64 commitSeq"

definition ParseCommitSeqFromPhysicalKey :: "bytes \<Rightarrow> uint64 option" where
  "ParseCommitSeqFromPhysicalKey key =
     (if length key \<noteq> length CellPrefix + PackedCoordKeyLen + VersionSuffixLen then None
      else case ParseCellKey (take (length CellPrefix + PackedCoordKeyLen) key) of
          Inl _ \<Rightarrow> None
        | Inr _ \<Rightarrow> Some (Uint64 (drop (length key - VersionSuffixLen) key)))"

definition CellVersionSuffixScanBounds :: "PackedCoord \<Rightarrow> bytes \<times> bytes" where
  "CellVersionSuffixScanBounds p =
     (CellPhysicalKeyWithVersionSuffix p 0, CellPhysicalKeyWithVersionSuffix p (- 1))"

record VersionKV =
  CommitSeq :: uint64
  versionValue :: bytes

definition selectStep :: "uint64 \<Rightarrow> VersionKV \<Rightarrow> VersionKV option \<Rightarrow> VersionKV option" where
  "selectStep readSeq v best =
     (if CommitSeq v > readSeq then best
      else case best of None \<Rightarrow> Some v
        | Some b \<Rightarrow> if CommitSeq v > CommitSeq b then Some v else best)"

definition SelectVisible :: "VersionKV list \<Rightarrow> uint64 \<Rightarrow> (bytes \<times> uint64) option" where
  "SelectVisible versions readSeq =
     (case fold (selectStep readSeq) versions None of
        None \<Rightarrow> None
      | Some b \<Rightarrow> Some (versionValue b, CommitSeq b))"

subsection \<open>Facets\<close>

definition FacetPrefix :: bytes where "FacetPrefix = ascii ''facet/''"
definition MaxFacetID :: byte where "MaxFacetID = 5"
definition slash :: byte where "slash = 0x2F"

definition FacetKey :: "PackedCoord \<Rightarrow> byte \<Rightarrow> index_error + bytes" where
  "FacetKey p facetID =
     (if facetID > MaxFacetID then Inl (ErrFacetIDOutOfRange facetID)
      else Inr (appendPackedCoordBE FacetPrefix p @ [slash, facetID]))"

definition FacetRangeLower :: "PackedCoord \<Rightarrow> index_error + bytes" where
  "FacetRangeLower p = FacetKey p 0"

definition FacetRangeUpper :: "PackedCoord \<Rightarrow> index_error + bytes" where
  "FacetRangeUpper p = FacetKey p MaxFacetID"

definition FacetKeyWithVersion :: "PackedCoord \<Rightarrow> byte \<Rightarrow> uint64 \<Rightarrow> index_error + bytes" where
  "FacetKeyWithVersion p facetID commitSeq =
     bindR (FacetKey p facetID) (\<lambda>base. Inr (base @ PutUint64 commitSeq))"

definition FacetVersionScanBounds :: "PackedCoord \<Rightarrow> byte \<Rightarrow> index_error + bytes \<times> bytes" where
  "FacetVersionScanBounds p facetID =
     bindR (FacetKeyWithVersion p facetID 0) (\<lambda>from.
     bindR (FacetKeyWithVersion p facetID (- 1)) (\<lambda>to. Inr (from, to)))"

definition FacetCellAllVersionsRange :: "PackedCoord \<Rightarrow> index_error + bytes \<times> bytes" where
  "FacetCellAllVersionsRange p =
     bindR (FacetKeyWithVersion p 0 0) (\<lambda>from.
     bindR (FacetKeyWithVersion p MaxFacetID (- 1)) (\<lambda>to. Inr (from, to)))"

definition ParseFacetKey :: "bytes \<Rightarrow> index_error + PackedCoord \<times> byte" where
  "ParseFacetKey key =
     (if \<not> prefix FacetPrefix key then Inl (IndexError ''index: not a facet key'')
      else let rest = drop (length FacetPrefix) key
      in if length rest \<noteq> PackedCoordKeyLen + 1 + 1 \<and>
            length rest \<noteq> PackedCoordKeyLen + 1 + 1 + VersionSuffixLen
         then Inl (IndexError ''index: bad facet key length'')
      else let suf = take PackedCoordKeyLen rest;
               pc = PackedCoord (Uint64 (slice 8 16 suf)) (Uint64 (slice 0 8 suf))
      in if rest ! PackedCoordKeyLen \<noteq> slash then Inl (IndexError ''index: bad facet separator'')
      else let facetID = rest ! (PackedCoordKeyLen + 1)
      in if facetID > MaxFacetID then Inl (ErrFacetIDOutOfRange facetID)
      else Inr (pc, facetID))"

definition ParseFacetCommitSeq :: "bytes \<Rightarrow> uint64 option" where
  "ParseFacetCommitSeq key =
     (case ParseFacetKey key of Inl _ \<Rightarrow> None
      | Inr _ \<Rightarrow>
        let n = length key - length FacetPrefix
        in if n = PackedCoordKeyLen + 1 + 1 then Some 0
           else if n = PackedCoordKeyLen + 1 + 1 + VersionSuffixLen
           then Some (Uint64 (drop (length key - VersionSuffixLen) key))
           else None)"

subsection \<open>Edges\<close>

definition EdgePrefix :: bytes where "EdgePrefix = ascii ''edge/''"
definition maxRelationTypeBytes :: nat where "maxRelationTypeBytes = 16 * 2 ^ 20"

definition EdgeKey :: "PackedCoord \<Rightarrow> PackedCoord \<Rightarrow> bytes \<Rightarrow> index_error + bytes" where
  "EdgeKey from to relationType =
     (if relationType = [] then Inl ErrEmptyRelationType
      else if length relationType > maxRelationTypeBytes
      then Inl (IndexError ''index: relation type too long'')
      else let n = of_nat (length relationType);
               buf = appendPackedCoordBE EdgePrefix from @ [slash];
               buf = appendPackedCoordBE buf to @ [slash]
      in Inr (buf @ PutUint32 n @ relationType))"

definition EdgeFromPrefix :: "PackedCoord \<Rightarrow> bytes" where
  "EdgeFromPrefix from = appendPackedCoordBE EdgePrefix from @ [slash]"

definition ParseEdgeKey :: "bytes \<Rightarrow> index_error + PackedCoord \<times> PackedCoord \<times> bytes" where
  "ParseEdgeKey key =
     (if \<not> prefix EdgePrefix key then Inl (IndexError ''index: not an edge key'')
      else let rest = drop (length EdgePrefix) key
      in if length rest < PackedCoordKeyLen + 1 + PackedCoordKeyLen + 1 + 4
         then Inl (IndexError ''index: bad edge key (truncated)'')
      else bindR (parsePackedCoordSegment (take PackedCoordKeyLen rest)) (\<lambda>from.
        if rest ! PackedCoordKeyLen \<noteq> slash
        then Inl (IndexError ''index: bad edge separator after from'')
        else let rest = drop (PackedCoordKeyLen + 1) rest
        in bindR (parsePackedCoordSegment (take PackedCoordKeyLen rest)) (\<lambda>to.
          if rest ! PackedCoordKeyLen \<noteq> slash
          then Inl (IndexError ''index: bad edge separator after to'')
          else let rest = drop (PackedCoordKeyLen + 1) rest
          in if length rest < 4 then Inl (IndexError ''index: bad edge key length field'')
          else let n = unat (Uint32 (slice 0 4 rest)); rest = drop 4 rest
          in if length rest \<noteq> n then Inl (IndexError ''index: edge relation length mismatch'')
          else Inr (from, to, take n rest))))"

subsection \<open>Metadata keys\<close>

definition commitTimePrefix :: bytes where "commitTimePrefix = ascii ''__meta/commit-time/''"

definition CommitTimeKey :: "int64 \<Rightarrow> uint64 \<Rightarrow> bytes" where
  "CommitTimeKey unixNanos commitSeq = commitTimePrefix @ PutUint64 unixNanos @ PutUint64 commitSeq"

definition CommitTimeScanBounds :: "int64 \<Rightarrow> bytes \<times> bytes" where
  "CommitTimeScanBounds unixNanos = (CommitTimeKey 0 0, CommitTimeKey unixNanos (NOT 0))"

definition ParseCommitTimeKey :: "bytes \<Rightarrow> (int64 \<times> uint64) option" where
  "ParseCommitTimeKey key =
     (if length key \<noteq> length commitTimePrefix + 16 then None
      else if take (length commitTimePrefix) key \<noteq> commitTimePrefix then None
      else Some (Uint64 (slice (length commitTimePrefix) (length commitTimePrefix + 8) key),
                 Uint64 (drop (length commitTimePrefix + 8) key)))"

definition changelogOutboxPrefix :: bytes where
  "changelogOutboxPrefix = ascii ''__meta/changelog-outbox/''"

definition ChangelogOutboxKey :: "uint64 \<Rightarrow> uint32 \<Rightarrow> bytes \<Rightarrow> bytes" where
  "ChangelogOutboxKey commitSeq ordinal logicalKey =
     changelogOutboxPrefix @ PutUint64 commitSeq @ PutUint32 ordinal @ logicalKey"

definition ChangelogOutboxBounds :: "bytes \<times> bytes" where
  "ChangelogOutboxBounds = (changelogOutboxPrefix, changelogOutboxPrefix @ [0xff])"

definition ParseChangelogOutboxKey :: "bytes \<Rightarrow> (uint64 \<times> uint32 \<times> bytes) option" where
  "ParseChangelogOutboxKey key =
     (if length key < length changelogOutboxPrefix + 12 \<or> \<not> prefix changelogOutboxPrefix key then None
      else let off = length changelogOutboxPrefix
      in Some (Uint64 (slice off (off + 8) key), Uint32 (slice (off + 8) (off + 12) key),
               drop (off + 12) key))"

definition SnapTagPrefix :: bytes where "SnapTagPrefix = ascii ''__meta/snap-tag/''"

definition SnapTagKey :: "bytes \<Rightarrow> bytes" where
  "SnapTagKey label = SnapTagPrefix @ label"

definition ParseSnapTagLabel :: "bytes \<Rightarrow> bytes option" where
  "ParseSnapTagLabel key =
     (if length key \<le> length SnapTagPrefix then None
      else if take (length SnapTagPrefix) key \<noteq> SnapTagPrefix then None
      else Some (drop (length SnapTagPrefix) key))"

definition EncodeSnapTagValue :: "uint64 \<Rightarrow> bytes" where
  "EncodeSnapTagValue commitSeq = PutUint64 commitSeq"

definition DecodeSnapTagValue :: "bytes \<Rightarrow> uint64 option" where
  "DecodeSnapTagValue v = (if length v \<noteq> 8 then None else Some (Uint64 v))"

subsection \<open>Changelog consumers\<close>

text \<open>\<open>crc32.ChecksumIEEE\<close>: the reflected polynomial \<open>0xEDB88320\<close>.\<close>

definition crcBit :: "uint32 \<Rightarrow> uint32" where
  "crcBit c = (if bit c 0 then drop_bit 1 c XOR 0xEDB88320 else drop_bit 1 c)"

definition ChecksumIEEE :: "bytes \<Rightarrow> uint32" where
  "ChecksumIEEE bs = NOT (foldl (\<lambda>c b. (crcBit ^^ 8) (c XOR ucast b)) (NOT 0) bs)"

definition changelogConsumerPrefix :: bytes where
  "changelogConsumerPrefix = ascii ''__meta/changelog-consumer/''"

definition isConsumerIDAlphaNumeric :: "byte \<Rightarrow> bool" where
  "isConsumerIDAlphaNumeric b \<longleftrightarrow>
     of_char (CHR ''a'') \<le> b \<and> b \<le> of_char (CHR ''z'') \<or>
     of_char (CHR ''A'') \<le> b \<and> b \<le> of_char (CHR ''Z'') \<or>
     of_char (CHR ''0'') \<le> b \<and> b \<le> of_char (CHR ''9'')"

definition ChangelogConsumerMaxIDBytes :: nat where "ChangelogConsumerMaxIDBytes = 128"

definition ValidChangelogConsumerID :: "bytes \<Rightarrow> bool" where
  "ValidChangelogConsumerID s =
     (if s = [] \<or> length s > ChangelogConsumerMaxIDBytes \<or> \<not> isConsumerIDAlphaNumeric (s ! 0)
      then False
      else list_all (\<lambda>b. isConsumerIDAlphaNumeric b \<or> b \<in> set (ascii ''._:-'')) (drop 1 s))"

definition ChangelogConsumerKey :: "bytes \<Rightarrow> bytes" where
  "ChangelogConsumerKey s = changelogConsumerPrefix @ s"

definition ChangelogConsumerBounds :: "bytes \<times> bytes" where
  "ChangelogConsumerBounds = (changelogConsumerPrefix, changelogConsumerPrefix @ [0xff])"

definition ParseChangelogConsumerKey :: "bytes \<Rightarrow> bytes option" where
  "ParseChangelogConsumerKey key =
     (if \<not> prefix changelogConsumerPrefix key \<or>
         \<not> ValidChangelogConsumerID (drop (length changelogConsumerPrefix) key) then None
      else Some (drop (length changelogConsumerPrefix) key))"

definition EncodeChangelogConsumerCursor :: "uint64 \<Rightarrow> bytes" where
  "EncodeChangelogConsumerCursor s =
     (let body = [1] @ PutUint64 s in body @ PutUint32 (ChecksumIEEE body))"

definition DecodeChangelogConsumerCursor :: "bytes \<Rightarrow> uint64 option" where
  "DecodeChangelogConsumerCursor v =
     (if length v \<noteq> 1 + 8 + 4 \<or> v ! 0 \<noteq> 1 then None
      else if Uint32 (drop 9 v) \<noteq> ChecksumIEEE (take 9 v) then None
      else Some (Uint64 (slice 1 9 v)))"

definition EncodeChangelogProjectionCheckpoint :: "uint64 \<Rightarrow> bytes \<Rightarrow> bytes" where
  "EncodeChangelogProjectionCheckpoint s digest =
     (let body = [1] @ PutUint64 s @ digest in body @ PutUint32 (ChecksumIEEE body))"

definition DecodeChangelogProjectionCheckpoint :: "bytes \<Rightarrow> (uint64 \<times> bytes) option" where
  "DecodeChangelogProjectionCheckpoint v =
     (if length v \<noteq> 1 + 8 + 32 + 4 \<or> v ! 0 \<noteq> 1 then None
      else if Uint32 (drop 41 v) \<noteq> ChecksumIEEE (take 41 v) then None
      else Some (Uint64 (slice 1 9 v), slice 9 41 v))"

subsection \<open>Key families that sort like their values\<close>

locale ordered_key =
  fixes key :: "'a::linorder \<Rightarrow> bytes"
  assumes key_less: "key x < key y \<longleftrightarrow> x < y"
begin

lemma key_inject [simp]: "key x = key y \<longleftrightarrow> x = y"
  by (metis key_less neq_iff less_irrefl)

lemma key_le: "key x \<le> key y \<longleftrightarrow> x \<le> y"
  by (auto simp: le_less key_less)

lemma scan: "key a \<le> key x \<and> key x \<le> key b \<longleftrightarrow> a \<le> x \<and> x \<le> b"
  by (simp add: key_le)

end

text \<open>Fixed-width keys under a common prefix, extended by a big-endian version.\<close>

locale versioned_key = ordered_key key
  for key :: "'a::linorder \<Rightarrow> bytes" +
  fixes width :: nat
  assumes key_width: "length (key x) = width"
begin

definition vkey :: "'a \<times> uint64 \<Rightarrow> bytes" where
  "vkey v = key (fst v) @ PutUint64 (snd v)"

lemma vkey_less: "vkey v < vkey w \<longleftrightarrow> v < w"
  by (cases v; cases w) (simp add: vkey_def lex_append key_width key_less less_prod_def' le_less)

sublocale v: ordered_key vkey
  by unfold_locales (rule vkey_less)

text \<open>The rows of one logical key are exactly those between its versions 0 and \<open>2 ^ 64 - 1\<close>.\<close>

lemma versions_scan:
  "vkey (x, 0) \<le> vkey (y, s) \<and> vkey (y, s) \<le> vkey (x, - 1) \<longleftrightarrow> y = x"
  by (auto simp: v.key_le)

end

lemma appendPackedCoordBE_less:
  "length d = length e \<Longrightarrow>
   appendPackedCoordBE d p < appendPackedCoordBE e q \<longleftrightarrow> d < e \<or> d = e \<and> p < q"
  by (auto simp: appendPackedCoordBE_def lex_append less_PackedCoord_def)

interpretation cell: versioned_key CellKey 21
  by unfold_locales
    (simp_all add: CellKey_def appendPackedCoordBE_less, simp add: appendPackedCoordBE_def CellPrefix_def)

interpretation embed: versioned_key EmbedKey 22
  by unfold_locales
    (simp_all add: EmbedKey_def appendPackedCoordBE_less, simp add: appendPackedCoordBE_def EmbedPrefix_def)

interpretation hnsw: ordered_key HNSWNodeKey
  by unfold_locales (simp add: HNSWNodeKey_def appendPackedCoordBE_less)

interpretation commitTime: ordered_key "\<lambda>(t, s). CommitTimeKey t s"
  by unfold_locales (auto simp: CommitTimeKey_def lex_append less_prod_def' le_less)

lemma cell_vkey [simp]: "cell.vkey (p, s) = CellKeyWithVersion p s"
  by (simp add: cell.vkey_def CellKeyWithVersion_def)

lemma mvcc_vkey: "CellPhysicalKeyWithVersionSuffix p s = CellKeyWithVersion p s"
  by (simp add: CellPhysicalKeyWithVersionSuffix_def CellKeyWithVersion_def)

lemma CellKey_order: "CellKey p < CellKey q \<longleftrightarrow> Less p q"
  by (simp add: cell.key_less Less_iff)

lemma CellVersionScanBounds_exact:
  "fst (CellVersionScanBounds p) \<le> CellKeyWithVersion q s \<and>
   CellKeyWithVersion q s \<le> snd (CellVersionScanBounds p) \<longleftrightarrow> q = p"
  using cell.versions_scan [of p q s] by (simp add: CellVersionScanBounds_def)

lemma CellKeyWithVersion_order:
  "CellKeyWithVersion p s \<le> CellKeyWithVersion q t \<longleftrightarrow> p < q \<or> p = q \<and> s \<le> t"
  using cell.v.key_le [of "(p, s)" "(q, t)"] by auto

subsection \<open>Round trips of the parsers\<close>

locale key_codec =
  fixes key :: "'a \<Rightarrow> bytes" and parse :: "bytes \<Rightarrow> 'r" and result :: "'a \<Rightarrow> 'r" and valid :: "'a \<Rightarrow> bool"
  assumes parse_key: "valid x \<Longrightarrow> parse (key x) = result x"
    and result_inject: "result x = result y \<Longrightarrow> x = y"
begin

lemma key_unique: "valid x \<Longrightarrow> valid y \<Longrightarrow> key x = key y \<Longrightarrow> x = y"
  using parse_key result_inject by metis

end

lemma length_appendPackedCoordBE [simp]: "length (appendPackedCoordBE d p) = length d + 16"
  by (simp add: appendPackedCoordBE_def)

lemma parts_appendPackedCoordBE:
  "n = length d \<Longrightarrow> drop n (appendPackedCoordBE d p @ xs) = PutUint64 (packedHi p) @ PutUint64 (packedLo p) @ xs"
  "prefix d (appendPackedCoordBE d p @ xs)"
  by (simp_all add: appendPackedCoordBE_def)

lemma ParseCellKey_iff: "ParseCellKey k = Inr p \<longleftrightarrow> k = CellKey p"
proof
  assume "ParseCellKey k = Inr p"
  then obtain s where s: "k = CellPrefix @ s" "length s = 16"
    "p = PackedCoord (Uint64 (slice 8 16 s)) (Uint64 (slice 0 8 s))"
    by (auto simp: ParseCellKey_def PackedCoordKeyLen_def prefix_def split: if_splits)
  moreover have "s = slice 0 8 s @ slice 8 16 s" using s(2) by (simp add: slice_def)
  ultimately show "k = CellKey p" by (simp add: CellKey_def appendPackedCoordBE_def Put_Uint)
qed (simp add: ParseCellKey_def CellKey_def appendPackedCoordBE_def PackedCoordKeyLen_def slice_def)

lemma ParseEmbedKey_iff: "ParseEmbedKey k = Inr p \<longleftrightarrow> k = EmbedKey p"
proof
  assume "ParseEmbedKey k = Inr p"
  then obtain s where s: "k = EmbedPrefix @ s" "length s = 16"
    "p = PackedCoord (Uint64 (slice 8 16 s)) (Uint64 (slice 0 8 s))"
    by (auto simp: ParseEmbedKey_def PackedCoordKeyLen_def prefix_def split: if_splits)
  moreover have "s = slice 0 8 s @ slice 8 16 s" using s(2) by (simp add: slice_def)
  ultimately show "k = EmbedKey p" by (simp add: EmbedKey_def appendPackedCoordBE_def Put_Uint)
qed (simp add: ParseEmbedKey_def EmbedKey_def appendPackedCoordBE_def PackedCoordKeyLen_def slice_def)

interpretation cellCodec: key_codec CellKey ParseCellKey Inr "\<lambda>_. True"
  by unfold_locales (simp_all add: ParseCellKey_iff)

interpretation embedCodec: key_codec EmbedKey ParseEmbedKey Inr "\<lambda>_. True"
  by unfold_locales (simp_all add: ParseEmbedKey_iff)

lemma length_CellKey [simp]: "length (CellKey p) = 21"
  by (simp add: CellKey_def CellPrefix_def)

lemma ParseCellVersionKey_iff: "ParseCellVersionKey k = Inr (p, s) \<longleftrightarrow> k = CellKeyWithVersion p s"
proof
  assume "ParseCellVersionKey k = Inr (p, s)"
  then have "length k = 29" "ParseCellKey (take 21 k) = Inr p" "s = Uint64 (drop 21 k)"
    by (auto simp: ParseCellVersionKey_def CellPrefix_def PackedCoordKeyLen_def VersionSuffixLen_def
        Let_def bindR_eq_Inr split: if_splits)
  then show "k = CellKeyWithVersion p s"
    using append_take_drop_id [of 21 k] by (simp add: ParseCellKey_iff CellKeyWithVersion_def Put_Uint)
next
  assume "k = CellKeyWithVersion p s"
  then show "ParseCellVersionKey k = Inr (p, s)"
    by (simp add: ParseCellVersionKey_def CellKeyWithVersion_def CellPrefix_def PackedCoordKeyLen_def
        VersionSuffixLen_def ParseCellKey_iff [THEN iffD2, OF refl])
qed

lemma ParseCommitSeq_iff:
  "ParseCommitSeqFromCellKey k = Some s \<longleftrightarrow> (\<exists>p. ParseCellVersionKey k = Inr (p, s))"
  by (auto simp: ParseCommitSeqFromCellKey_def ParseCellVersionKey_def Let_def bindR_eq_Inr split: sum.splits)

lemma ParsePhysical_eq: "ParseCommitSeqFromPhysicalKey k = ParseCommitSeqFromCellKey k"
  by (simp add: ParseCommitSeqFromPhysicalKey_def ParseCommitSeqFromCellKey_def Let_def)

lemma binaryUint64BE_Uint64:
  assumes "length b = 8"
  shows "binaryUint64BE b = Uint64 b"
proof -
  obtain b0 b1 b2 b3 b4 b5 b6 b7 where b: "b = [b0, b1, b2, b3, b4, b5, b6, b7]"
    using assms by (auto simp: numeral_eq_Suc length_Suc_conv)
  have app: "(of_nat (n * 256 + unat x) :: uint64) = push_bit 8 (of_nat n) OR ucast x" for n and x :: byte
  proof -
    have "push_bit 8 (of_nat n :: uint64) AND ucast x = 0"
      by (rule bit_word_eqI) (auto simp: bit_simps dest: bit_imp_le_length)
    then have "push_bit 8 (of_nat n :: uint64) OR ucast x = push_bit 8 (of_nat n) + ucast x"
      by (simp add: disjunctive_add_eq_or)
    then show ?thesis by (simp add: push_bit_eq_mult)
  qed
  show ?thesis
    unfolding b Uint64_def natOfBE_def foldl.simps app
    by (simp add: binaryUint64BE_def push_bit_or or.assoc push_bit_push_bit)
qed

lemma parsePackedCoordSegment_iff:
  "parsePackedCoordSegment b = Inr p \<longleftrightarrow> b = appendPackedCoordBE [] p"
proof
  assume "parsePackedCoordSegment b = Inr p"
  then have l: "length b = 16" and p: "p = PackedCoord (Uint64 (slice 8 16 b)) (Uint64 (slice 0 8 b))"
    by (auto simp: parsePackedCoordSegment_def PackedCoordKeyLen_def binaryUint64BE_Uint64 split: if_splits)
  moreover have "b = slice 0 8 b @ slice 8 16 b" using l by (simp add: slice_def)
  ultimately show "b = appendPackedCoordBE [] p" by (simp add: appendPackedCoordBE_def Put_Uint)
qed (simp add: parsePackedCoordSegment_def appendPackedCoordBE_def PackedCoordKeyLen_def
    binaryUint64BE_Uint64 slice_def)

lemma appendPackedCoordBE_app: "appendPackedCoordBE d p = d @ appendPackedCoordBE [] p"
  by (simp add: appendPackedCoordBE_def)

subsection \<open>Facet keys\<close>

definition facetBase :: "PackedCoord \<times> byte \<Rightarrow> bytes" where
  "facetBase v = appendPackedCoordBE FacetPrefix (fst v) @ [slash, snd v]"

lemma length_facetBase [simp]: "length (facetBase v) = 24"
  by (simp add: facetBase_def FacetPrefix_def)

lemma facetBase_less: "facetBase v < facetBase w \<longleftrightarrow> v < w"
proof -
  have "appendPackedCoordBE FacetPrefix p = appendPackedCoordBE FacetPrefix q \<longleftrightarrow> p = q" for p q
    by (simp add: appendPackedCoordBE_def PackedCoord_eq_iff)
  then show ?thesis
    by (auto simp: facetBase_def lex_append appendPackedCoordBE_less less_prod_def')
qed

interpretation facet: versioned_key facetBase 24
  by unfold_locales (simp_all add: facetBase_less)

lemma FacetKey_base: "FacetKey p f = Inr k \<longleftrightarrow> f \<le> 5 \<and> k = facetBase (p, f)"
  by (auto simp: FacetKey_def facetBase_def MaxFacetID_def)

lemma FacetKeyWithVersion_base:
  "FacetKeyWithVersion p f s = Inr k \<longleftrightarrow> f \<le> 5 \<and> k = facet.vkey ((p, f), s)"
  by (auto simp: FacetKeyWithVersion_def bindR_eq_Inr FacetKey_base facet.vkey_def)

lemma FacetVersionScanBounds_exact:
  assumes "FacetVersionScanBounds p f = Inr (from, to)" "FacetKeyWithVersion q g s = Inr k"
  shows "from \<le> k \<and> k \<le> to \<longleftrightarrow> q = p \<and> g = f"
  using assms facet.versions_scan [of "(p, f)" "(q, g)" s]
  by (auto simp: FacetVersionScanBounds_def bindR_eq_Inr FacetKeyWithVersion_base)

lemma FacetCellAllVersionsRange_exact:
  assumes "FacetCellAllVersionsRange p = Inr (from, to)" "FacetKeyWithVersion q g s = Inr k"
  shows "from \<le> k \<and> k \<le> to \<longleftrightarrow> q = p"
proof -
  have "g \<le> 5" "k = facet.vkey ((q, g), s)" using assms(2) by (simp_all add: FacetKeyWithVersion_base)
  moreover have "from = facet.vkey ((p, 0), 0)" "to = facet.vkey ((p, 5), - 1)"
    using assms(1) by (auto simp: FacetCellAllVersionsRange_def bindR_eq_Inr FacetKeyWithVersion_base
        MaxFacetID_def)
  ultimately show ?thesis by (auto simp: facet.v.key_le)
qed

lemma ParseFacetKey_shape:
  "ParseFacetKey k = Inr (p, f) \<longleftrightarrow>
     f \<le> 5 \<and> (k = facetBase (p, f) \<or> (\<exists>s. k = facet.vkey ((p, f), s)))"
proof
  assume "ParseFacetKey k = Inr (p, f)"
  then obtain r where k: "k = FacetPrefix @ r" "length r = 18 \<or> length r = 26"
    "p = PackedCoord (Uint64 (slice 8 16 (take 16 r))) (Uint64 (slice 0 8 (take 16 r)))" "r ! 16 = slash"
    "f = r ! 17" "f \<le> 5"
    by (auto simp: ParseFacetKey_def PackedCoordKeyLen_def VersionSuffixLen_def MaxFacetID_def prefix_def
        Let_def split: if_splits)
  have "take 16 r = slice 0 8 (take 16 r) @ slice 8 16 (take 16 r)" using append_take_drop_id [of 8 "take 16 r"] by (simp add: slice_def)
  then have t: "take 16 r = PutUint64 (packedHi p) @ PutUint64 (packedLo p)"
    using k(2,3) by (auto simp: Put_Uint)
  have d: "drop 16 r = r ! 16 # r ! 17 # drop 18 r"
    using k(2) Cons_nth_drop_Suc [of 16 r] Cons_nth_drop_Suc [of 17 r] by auto
  have "r = take 16 r @ drop 16 r" by simp
  also have "\<dots> = (PutUint64 (packedHi p) @ PutUint64 (packedLo p)) @ slash # f # drop 18 r"
    unfolding t d k(4) k(5) [symmetric] ..
  finally have base: "k = facetBase (p, f) @ drop 18 r"
    unfolding k(1) facetBase_def appendPackedCoordBE_def by simp
  have "drop 18 r = [] \<or> drop 18 r = PutUint64 (Uint64 (drop 18 r))"
    using k(2) by (auto simp: Put_Uint)
  then show "f \<le> 5 \<and> (k = facetBase (p, f) \<or> (\<exists>s. k = facet.vkey ((p, f), s)))"
    unfolding facet.vkey_def fst_conv snd_conv using base k(6) by (metis append_Nil2)
next
  assume a: "f \<le> 5 \<and> (k = facetBase (p, f) \<or> (\<exists>s. k = facet.vkey ((p, f), s)))"
  then have "\<not> MaxFacetID < f" by (simp only: MaxFacetID_def not_less)
  with a show "ParseFacetKey k = Inr (p, f)"
    by (auto simp: ParseFacetKey_def facetBase_def facet.vkey_def appendPackedCoordBE_def PackedCoordKeyLen_def
        VersionSuffixLen_def slice_def Let_def nth_append)
qed

lemma ParseFacetKey_round:
  assumes "FacetKey p f = Inr k"
  shows "ParseFacetKey k = Inr (p, f)" "ParseFacetCommitSeq k = Some 0"
proof -
  show p: "ParseFacetKey k = Inr (p, f)"
    using assms by (simp add: ParseFacetKey_shape FacetKey_base)
  show "ParseFacetCommitSeq k = Some 0"
    unfolding ParseFacetCommitSeq_def p using assms
    by (simp add: FacetKey_base PackedCoordKeyLen_def FacetPrefix_def)
qed

lemma ParseFacetKeyWithVersion_round:
  assumes "FacetKeyWithVersion p f s = Inr k"
  shows "ParseFacetKey k = Inr (p, f)" "ParseFacetCommitSeq k = Some s"
proof -
  show p: "ParseFacetKey k = Inr (p, f)"
    using assms by (auto simp: ParseFacetKey_shape FacetKeyWithVersion_base)
  show "ParseFacetCommitSeq k = Some s"
    unfolding ParseFacetCommitSeq_def p using assms
    by (simp add: FacetKeyWithVersion_base facet.vkey_def PackedCoordKeyLen_def VersionSuffixLen_def
        FacetPrefix_def)
qed

subsection \<open>Edge keys\<close>

lemma EdgeKey_shape:
  "EdgeKey a b t = Inr k \<longleftrightarrow> t \<noteq> [] \<and> length t \<le> maxRelationTypeBytes \<and>
     k = EdgePrefix @ appendPackedCoordBE [] a @ slash # appendPackedCoordBE [] b @ slash #
       PutUint32 (of_nat (length t)) @ t"
  by (auto simp: EdgeKey_def Let_def appendPackedCoordBE_def)

lemma ParseEdgeKey_shape:
  "ParseEdgeKey k = Inr (a, b, t) \<longleftrightarrow> length t < 2 ^ 32 \<and>
     k = EdgePrefix @ appendPackedCoordBE [] a @ slash # appendPackedCoordBE [] b @ slash #
       PutUint32 (of_nat (length t)) @ t"
proof
  assume "ParseEdgeKey k = Inr (a, b, t)"
  then obtain r where k: "k = EdgePrefix @ r" "38 \<le> length r"
    and r: "take 16 r = appendPackedCoordBE [] a" "r ! 16 = slash" 
    "take 16 (drop 17 r) = appendPackedCoordBE [] b" "drop 17 r ! 16 = slash"
    "t = drop 38 r" "length t = unat (Uint32 (slice 0 4 (drop 34 r)))"
    by (auto simp: ParseEdgeKey_def PackedCoordKeyLen_def prefix_def Let_def bindR_eq_Inr
        parsePackedCoordSegment_iff split: if_splits)
  have "r = take 16 r @ r ! 16 # take 16 (drop 17 r) @ drop 17 r ! 16 # slice 0 4 (drop 34 r) @ drop 38 r"
  proof -
    have "r = take 16 r @ drop 16 r" by simp
    moreover have "drop 16 r = r ! 16 # drop 17 r" using k Cons_nth_drop_Suc [of 16 r] by simp
    moreover have "drop 17 r = take 16 (drop 17 r) @ drop 33 r"
      using append_take_drop_id [of 16 "drop 17 r"] by simp
    moreover have "drop 33 r = r ! 33 # drop 34 r" using k Cons_nth_drop_Suc [of 33 r] by simp
    moreover have "r ! 33 = drop 17 r ! 16" using k by simp
    moreover have "drop 34 r = slice 0 4 (drop 34 r) @ drop 38 r"
      using append_take_drop_id [of 4 "drop 34 r"] by (simp add: slice_def)
    ultimately show ?thesis by metis
  qed
  moreover have "slice 0 4 (drop 34 r) = PutUint32 (of_nat (length t))"
    using k unfolding r(6) by (simp add: Put_Uint)
  moreover have "length t < 2 ^ 32"
    unfolding r(6) using unsigned_less [of "Uint32 (slice 0 4 (drop 34 r))"] by simp
  ultimately show "length t < 2 ^ 32 \<and>
     k = EdgePrefix @ appendPackedCoordBE [] a @ slash # appendPackedCoordBE [] b @ slash #
       PutUint32 (of_nat (length t)) @ t"
    using k r(1-5) by simp
next
  assume a: "length t < 2 ^ 32 \<and>
     k = EdgePrefix @ appendPackedCoordBE [] a @ slash # appendPackedCoordBE [] b @ slash #
       PutUint32 (of_nat (length t)) @ t"
  then have n: "unat (of_nat (length t) :: uint32) = length t" by (simp add: unat_of_nat)
  have p: "parsePackedCoordSegment (appendPackedCoordBE [] c) = Inr c" for c
    by (simp add: parsePackedCoordSegment_iff)
  show "ParseEdgeKey k = Inr (a, b, t)"
    using a n p by (simp add: ParseEdgeKey_def PackedCoordKeyLen_def Let_def slice_def nth_append)
qed

lemma EdgeKey_codec:
  "EdgeKey a b t = Inr k \<longleftrightarrow>
   ParseEdgeKey k = Inr (a, b, t) \<and> t \<noteq> [] \<and> length t \<le> maxRelationTypeBytes"
  by (auto simp: EdgeKey_shape ParseEdgeKey_shape maxRelationTypeBytes_def)

lemma EdgeFromPrefix_exact:
  assumes "EdgeKey a b t = Inr k"
  shows "prefix (EdgeFromPrefix c) k \<longleftrightarrow> c = a"
  using assms by (auto simp: EdgeKey_shape EdgeFromPrefix_def appendPackedCoordBE_def prefix_def
      PackedCoord_eq_iff append_eq_append_conv)

subsection \<open>Metadata keys\<close>

lemma take_eq_prefix: "take (length p) k = p \<longleftrightarrow> prefix p k"
  by (metis append_eq_conv_conj prefix_def)

lemma ParseCommitTimeKey_iff: "ParseCommitTimeKey k = Some (t, s) \<longleftrightarrow> k = CommitTimeKey t s"
proof
  assume "ParseCommitTimeKey k = Some (t, s)"
  then obtain r where "k = commitTimePrefix @ r" "length r = 16" "t = Uint64 (slice 0 8 r)" "s = Uint64 (drop 8 r)"
    by (auto simp: ParseCommitTimeKey_def take_eq_prefix prefix_def slice_def split: if_splits)
  then show "k = CommitTimeKey t s"
    using append_take_drop_id [of 8 r] by (simp add: CommitTimeKey_def Put_Uint slice_def)
qed (simp add: ParseCommitTimeKey_def CommitTimeKey_def slice_def)

lemma uint_nonneg: "0 \<le> sint (w :: int64) \<Longrightarrow> uint w = sint w"
proof -
  assume "0 \<le> sint w"
  then have "uint (word_of_int (sint w) :: int64) = sint w"
    using sint_bounds64 [of w] by (simp only: uint_word_of_int) simp
  then show ?thesis by (simp only: word_of_sint)
qed

lemma uint_sign_le: "0 \<le> sint u \<Longrightarrow> sint t < 0 \<Longrightarrow> u \<le> t" for u t :: int64
proof -
  assume u: "0 \<le> sint u" and t: "sint t < 0"
  have "sint u < 2 ^ 63" using sint_bounds64 [of u] by simp
  then have "uint u < 2 ^ 63" using uint_nonneg [OF u] by simp
  moreover have "2 ^ 63 \<le> uint t"
  proof (rule ccontr)
    assume "\<not> 2 ^ 63 \<le> uint t"
    then have "signed_take_bit 63 (uint t) = uint t"
      using uint_ge_0 [of t] by (intro signed_take_bit_int_eq_self) linarith+
    then have "sint t = uint t" by (simp add: sint_uint)
    then show False using t by simp
  qed
  ultimately show "u \<le> t" by (simp add: word_le_def)
qed

text \<open>The scan returns the commits up to an instant whose time is not negative.\<close>

lemma CommitTimeScanBounds_exact:
  "fst (CommitTimeScanBounds t) \<le> CommitTimeKey u s \<and> CommitTimeKey u s \<le> snd (CommitTimeScanBounds t) \<longleftrightarrow> u \<le> t"
  using commitTime.key_le [of "(0, 0)" "(u, s)"] commitTime.key_le [of "(u, s)" "(t, - 1)"]
  by (auto simp: CommitTimeScanBounds_def)

lemma CommitTimeScanBounds_signed:
  assumes "0 \<le> sint t" "0 \<le> sint u"
  shows "fst (CommitTimeScanBounds t) \<le> CommitTimeKey u s \<and>
    CommitTimeKey u s \<le> snd (CommitTimeScanBounds t) \<longleftrightarrow> u \<le>s t"
proof -
  have "u \<le> t \<longleftrightarrow> sint u \<le> sint t"
    using assms by (simp add: word_le_def uint_nonneg)
  then show ?thesis by (simp add: CommitTimeScanBounds_exact word_sle_eq)
qed

lemma ParseChangelogOutboxKey_iff:
  "ParseChangelogOutboxKey k = Some (c, n, l) \<longleftrightarrow> k = ChangelogOutboxKey c n l"
proof
  assume "ParseChangelogOutboxKey k = Some (c, n, l)"
  then obtain r where k: "k = changelogOutboxPrefix @ r" and l: "12 \<le> length r"
    and r: "c = Uint64 (take 8 r)" "n = Uint32 (take 4 (drop 8 r))" "l = drop 12 r"
    by (auto simp: ParseChangelogOutboxKey_def prefix_def slice_def Let_def split: if_splits)
  have "r = take 8 r @ take 4 (drop 8 r) @ drop 12 r"
    using append_take_drop_id [of 8 r] append_take_drop_id [of 4 "drop 8 r"] by simp
  with k l r show "k = ChangelogOutboxKey c n l" by (simp add: ChangelogOutboxKey_def Put_Uint)
qed (simp add: ParseChangelogOutboxKey_def ChangelogOutboxKey_def slice_def Let_def)

lemma ChangelogOutboxKey_order:
  "ChangelogOutboxKey c n l < ChangelogOutboxKey c' n' l' \<longleftrightarrow> (c, n, l) < (c', n', l')"
  by (auto simp: ChangelogOutboxKey_def lex_append less_prod_def')

lemma ParseSnapTagLabel_iff: "ParseSnapTagLabel k = Some l \<longleftrightarrow> l \<noteq> [] \<and> k = SnapTagKey l"
  by (auto simp: ParseSnapTagLabel_def SnapTagKey_def) (metis append_take_drop_id)

lemma DecodeSnapTagValue_iff: "DecodeSnapTagValue v = Some s \<longleftrightarrow> v = EncodeSnapTagValue s"
  by (auto simp: DecodeSnapTagValue_def EncodeSnapTagValue_def Put_Uint)

lemma ParseChangelogConsumerKey_iff:
  "ParseChangelogConsumerKey k = Some s \<longleftrightarrow> ValidChangelogConsumerID s \<and> k = ChangelogConsumerKey s"
  by (auto simp: ParseChangelogConsumerKey_def ChangelogConsumerKey_def prefix_def)

lemma consumer_byte_ascii: "isConsumerIDAlphaNumeric b \<Longrightarrow> b < 0xff"
  by (auto simp: isConsumerIDAlphaNumeric_def word_le_nat_alt word_less_nat_alt)

lemma ChangelogConsumerBounds_cover:
  assumes "ValidChangelogConsumerID s"
  shows "fst ChangelogConsumerBounds \<le> ChangelogConsumerKey s"
    and "ChangelogConsumerKey s \<le> snd ChangelogConsumerBounds"
proof -
  obtain b bs where s: "s = b # bs" "b < 0xff"
    using assms consumer_byte_ascii by (cases s) (auto simp: ValidChangelogConsumerID_def split: if_splits)
  have "changelogConsumerPrefix @ [] \<le> changelogConsumerPrefix @ s" by (simp only: lex_append_same_le Nil_le_Cons s)
  then show "fst ChangelogConsumerBounds \<le> ChangelogConsumerKey s"
    by (simp add: ChangelogConsumerBounds_def ChangelogConsumerKey_def)
  show "ChangelogConsumerKey s \<le> snd ChangelogConsumerBounds"
    using s by (simp add: ChangelogConsumerBounds_def ChangelogConsumerKey_def)
qed

lemma DecodeChangelogConsumerCursor_iff:
  "DecodeChangelogConsumerCursor v = Some s \<longleftrightarrow> v = EncodeChangelogConsumerCursor s"
proof
  assume a: "DecodeChangelogConsumerCursor v = Some s"
  then have l: "length v = 13" "v ! 0 = 1" "Uint32 (drop 9 v) = ChecksumIEEE (take 9 v)" "s = Uint64 (slice 1 9 v)"
    by (auto simp: DecodeChangelogConsumerCursor_def split: if_splits)
  have "take 9 v = [1] @ PutUint64 s"
    using l by (cases v) (auto simp: slice_def Put_Uint take_Cons')
  moreover have "drop 9 v = PutUint32 (ChecksumIEEE (take 9 v))"
    using l(1) unfolding l(3) [symmetric] by (simp add: Put_Uint)
  ultimately show "v = EncodeChangelogConsumerCursor s"
    using append_take_drop_id [of 9 v] by (simp add: EncodeChangelogConsumerCursor_def Let_def)
qed (simp add: DecodeChangelogConsumerCursor_def EncodeChangelogConsumerCursor_def Let_def slice_def)

lemma DecodeChangelogProjectionCheckpoint_iff:
  "DecodeChangelogProjectionCheckpoint v = Some (s, d) \<longleftrightarrow>
     length d = 32 \<and> v = EncodeChangelogProjectionCheckpoint s d"
proof
  assume a: "DecodeChangelogProjectionCheckpoint v = Some (s, d)"
  then have l: "length v = 45" "v ! 0 = 1" "Uint32 (drop 41 v) = ChecksumIEEE (take 41 v)"
    "s = Uint64 (slice 1 9 v)" "d = slice 9 41 v"
    by (auto simp: DecodeChangelogProjectionCheckpoint_def split: if_splits)
  have "take 41 v = take 9 v @ slice 9 41 v"
    using take_add [of 9 32 v] by (simp add: slice_def)
  moreover have "take 9 v = [1] @ PutUint64 s"
    using l by (cases v) (auto simp: slice_def Put_Uint take_Cons')
  ultimately have t: "take 41 v = [1] @ PutUint64 s @ d" using l by simp
  moreover have "drop 41 v = PutUint32 (ChecksumIEEE (take 41 v))"
    using l(1) unfolding l(3) [symmetric] by (simp add: Put_Uint)
  ultimately show "length d = 32 \<and> v = EncodeChangelogProjectionCheckpoint s d"
    using l append_take_drop_id [of 41 v] by (simp add: EncodeChangelogProjectionCheckpoint_def Let_def)
qed (auto simp: DecodeChangelogProjectionCheckpoint_def EncodeChangelogProjectionCheckpoint_def Let_def slice_def)

subsection \<open>Visible versions\<close>

lemma select_fold:
  "case fold (selectStep r) vs b of
     None \<Rightarrow> b = None \<and> (\<forall>v \<in> set vs. r < CommitSeq v)
   | Some m \<Rightarrow> (b = Some m \<or> m \<in> set vs \<and> CommitSeq m \<le> r) \<and>
       (\<forall>v \<in> set vs. CommitSeq v \<le> r \<longrightarrow> CommitSeq v \<le> CommitSeq m) \<and>
       (\<forall>v. b = Some v \<longrightarrow> CommitSeq v \<le> CommitSeq m)"
proof (induction vs arbitrary: b)
  case (Cons v vs)
  show ?case
    using Cons [of "selectStep r v b"]
    by (auto simp: selectStep_def split: option.splits if_splits)
qed (auto split: option.splits)

lemma SelectVisible_Some:
  assumes "SelectVisible vs r = Some (val, s)"
  obtains v where "v \<in> set vs" "versionValue v = val" "CommitSeq v = s" "s \<le> r"
    "\<And>w. w \<in> set vs \<Longrightarrow> CommitSeq w \<le> r \<Longrightarrow> CommitSeq w \<le> s"
  using assms select_fold [where r = r and vs = vs and b = None] that
  by (auto simp: SelectVisible_def split: option.splits)

lemma SelectVisible_None: "SelectVisible vs r = None \<longleftrightarrow> (\<forall>v \<in> set vs. r < CommitSeq v)"
  using select_fold [where r = r and vs = vs and b = None]
  by (auto simp: SelectVisible_def not_less [symmetric] split: option.splits)

text \<open>Later commits are invisible to an older snapshot.\<close>

lemma SelectVisible_later:
  assumes "\<forall>v \<in> set new. r < CommitSeq v"
  shows "SelectVisible (vs @ new) r = SelectVisible vs r"
proof -
  have "fold (selectStep r) new b = b" for b
    using assms by (induction new arbitrary: b) (auto simp: selectStep_def)
  then show ?thesis by (simp add: SelectVisible_def)
qed

subsection \<open>Properties\<close>

text \<open>C26: versioned cell keys. Byte order is the order of (cell, commit), the scan bounds of
  a cell contain exactly the versions of that cell, and the parser inverts the encoder and
  accepts nothing else.\<close>
theorem CellVersion_keys:
  "(CellKeyWithVersion p s \<le> CellKeyWithVersion q t \<longleftrightarrow> p < q \<or> p = q \<and> s \<le> t) \<and>
   (fst (CellVersionScanBounds p) \<le> CellKeyWithVersion q s \<and>
      CellKeyWithVersion q s \<le> snd (CellVersionScanBounds p) \<longleftrightarrow> q = p) \<and>
   (ParseCellVersionKey k = Inr (p, s) \<longleftrightarrow> k = CellKeyWithVersion p s)"
  using CellKeyWithVersion_order CellVersionScanBounds_exact ParseCellVersionKey_iff by blast

text \<open>C27: snapshot reads. \<open>SelectVisible\<close> answers a version with the greatest commit
  sequence not above the reader's, fails exactly when every version is newer than the reader,
  and commits made after the snapshot do not change its answer.\<close>
theorem SelectVisible_snapshot:
  "(SelectVisible vs r = None \<longleftrightarrow> (\<forall>v \<in> set vs. r < CommitSeq v)) \<and>
   (\<forall>val s. SelectVisible vs r = Some (val, s) \<longrightarrow>
      (\<exists>v \<in> set vs. versionValue v = val \<and> CommitSeq v = s \<and> s \<le> r \<and>
         (\<forall>w \<in> set vs. CommitSeq w \<le> r \<longrightarrow> CommitSeq w \<le> s))) \<and>
   ((\<forall>v \<in> set new. r < CommitSeq v) \<longrightarrow> SelectVisible (vs @ new) r = SelectVisible vs r)"
proof (intro conjI allI impI)
  show "SelectVisible vs r = None \<longleftrightarrow> (\<forall>v \<in> set vs. r < CommitSeq v)"
    by (rule SelectVisible_None)
  show "\<exists>v \<in> set vs. versionValue v = val \<and> CommitSeq v = s \<and> s \<le> r \<and>
      (\<forall>w \<in> set vs. CommitSeq w \<le> r \<longrightarrow> CommitSeq w \<le> s)"
    if "SelectVisible vs r = Some (val, s)" for val s
    by (rule SelectVisible_Some [OF that]) blast
  show "SelectVisible (vs @ new) r = SelectVisible vs r" if "\<forall>v \<in> set new. r < CommitSeq v"
    by (rule SelectVisible_later [OF that])
qed

theorem SelectVisible_snapshot_witness:
  "SelectVisible [\<lparr>CommitSeq = 3, versionValue = [1]\<rparr>, \<lparr>CommitSeq = 5, versionValue = [2]\<rparr>] 4 =
     Some ([1], 3) \<and>
   SelectVisible [\<lparr>CommitSeq = 3, versionValue = [1]\<rparr>] 4 =
     SelectVisible ([\<lparr>CommitSeq = 3, versionValue = [1]\<rparr>] @ [\<lparr>CommitSeq = 5, versionValue = [2]\<rparr>]) 4"
  using SelectVisible_snapshot [of "[\<lparr>CommitSeq = 3, versionValue = [1]\<rparr>]" 4
      "[\<lparr>CommitSeq = 5, versionValue = [2]\<rparr>]"]
  by (simp add: SelectVisible_def selectStep_def)

text \<open>C28: facet scans. The bounds of one facet contain exactly that facet's versions, the
  bounds of a cell exactly the facets of that cell, and both parsers invert the encoder.\<close>
theorem Facet_scans:
  assumes "FacetKeyWithVersion q g s = Inr k"
  shows "(FacetVersionScanBounds p f = Inr (from, to) \<longrightarrow> (from \<le> k \<and> k \<le> to \<longleftrightarrow> q = p \<and> g = f)) \<and>
    (FacetCellAllVersionsRange p = Inr (lo, hi) \<longrightarrow> (lo \<le> k \<and> k \<le> hi \<longleftrightarrow> q = p)) \<and>
    ParseFacetKey k = Inr (q, g) \<and> ParseFacetCommitSeq k = Some s"
  using FacetVersionScanBounds_exact [OF _ assms, of p f "from" to]
    FacetCellAllVersionsRange_exact [OF _ assms, of p lo hi] ParseFacetKeyWithVersion_round [OF assms]
  by blast

theorem Facet_scans_witness:
  "\<exists>k. FacetKeyWithVersion (PackedCoord 9 0) 2 7 = Inr k \<and>
     ParseFacetKey k = Inr (PackedCoord 9 0, 2) \<and> ParseFacetCommitSeq k = Some 7"
proof -
  obtain k where "FacetKeyWithVersion (PackedCoord 9 0) 2 7 = Inr k"
    by (simp add: FacetKeyWithVersion_def FacetKey_def MaxFacetID_def)
  with Facet_scans [OF this] show ?thesis by blast
qed

text \<open>edge keys. An edge key parses to its endpoints and relation and nothing else
  parses to them, and the outgoing prefix of a cell is a prefix of exactly its own edges.\<close>
theorem Edge_keys:
  "(EdgeKey a b t = Inr k \<longleftrightarrow>
      ParseEdgeKey k = Inr (a, b, t) \<and> t \<noteq> [] \<and> length t \<le> maxRelationTypeBytes) \<and>
   (EdgeKey a b t = Inr k \<longrightarrow> (prefix (EdgeFromPrefix c) k \<longleftrightarrow> c = a))"
  using EdgeKey_codec EdgeFromPrefix_exact by blast

theorem Edge_keys_witness:
  "\<exists>k. EdgeKey (PackedCoord 1 0) (PackedCoord 2 0) [97] = Inr k \<and>
     prefix (EdgeFromPrefix (PackedCoord 1 0)) k \<and> \<not> prefix (EdgeFromPrefix (PackedCoord 2 0)) k"
proof -
  obtain k where "EdgeKey (PackedCoord 1 0) (PackedCoord 2 0) [97] = Inr k"
    by (simp add: EdgeKey_def maxRelationTypeBytes_def)
  with Edge_keys show ?thesis by fastforce
qed

text \<open>C29: the as-of-time scan, for commits made in 1970 or later. When the given time is not before
  1970 either, the bounds contain exactly the commits made no later than it. When it is before
  1970, they contain all of those commits, although each was made later: the sign of the
  nanoseconds is lost in the unsigned key.\<close>
theorem CommitTime_scan:
  assumes "0 \<le> sint u"
  shows "(0 \<le> sint t \<longrightarrow>
      (fst (CommitTimeScanBounds t) \<le> CommitTimeKey u s \<and>
       CommitTimeKey u s \<le> snd (CommitTimeScanBounds t) \<longleftrightarrow> u \<le>s t)) \<and>
    (sint t < 0 \<longrightarrow>
       fst (CommitTimeScanBounds t) \<le> CommitTimeKey u s \<and>
       CommitTimeKey u s \<le> snd (CommitTimeScanBounds t) \<and> \<not> u \<le>s t)"
proof (intro conjI impI)
  assume "0 \<le> sint t"
  from CommitTimeScanBounds_signed [OF this assms]
  show "fst (CommitTimeScanBounds t) \<le> CommitTimeKey u s \<and>
       CommitTimeKey u s \<le> snd (CommitTimeScanBounds t) \<longleftrightarrow> u \<le>s t" .
next
  assume t: "sint t < 0"
  from CommitTimeScanBounds_exact [of t u s] uint_sign_le [OF assms t]
  show "fst (CommitTimeScanBounds t) \<le> CommitTimeKey u s" "CommitTimeKey u s \<le> snd (CommitTimeScanBounds t)"
    by simp_all
  show "\<not> u \<le>s t" using assms t by (simp add: word_sle_eq)
qed

theorem CommitTime_scan_witness:
  "fst (CommitTimeScanBounds 6) \<le> CommitTimeKey 5 9 \<and> CommitTimeKey 5 9 \<le> snd (CommitTimeScanBounds 6) \<and>
   fst (CommitTimeScanBounds (- 6)) \<le> CommitTimeKey 5 9 \<and> CommitTimeKey 5 9 \<le> snd (CommitTimeScanBounds (- 6))"
  using CommitTime_scan [of 5 6 9] CommitTime_scan [of 5 "- 6" 9] by (simp add: word_sle_eq)

text \<open>the changelog's durable metadata. Outbox keys sort by (commit, ordinal, logical
  key) and parse back; a consumer cursor and a projection checkpoint decode exactly when their
  bytes, checksum included, are the ones the encoder writes.\<close>
theorem Changelog_metadata:
  "(ChangelogOutboxKey c n l < ChangelogOutboxKey c' n' l' \<longleftrightarrow> (c, n, l) < (c', n', l')) \<and>
   (ParseChangelogOutboxKey k = Some (c, n, l) \<longleftrightarrow> k = ChangelogOutboxKey c n l) \<and>
   (DecodeChangelogConsumerCursor v = Some s \<longleftrightarrow> v = EncodeChangelogConsumerCursor s) \<and>
   (DecodeChangelogProjectionCheckpoint w = Some (s, d) \<longleftrightarrow>
      length d = 32 \<and> w = EncodeChangelogProjectionCheckpoint s d)"
  by (simp only: ChangelogOutboxKey_order ParseChangelogOutboxKey_iff DecodeChangelogConsumerCursor_iff
      DecodeChangelogProjectionCheckpoint_iff simp_thms)

end
