(* ===== verification/SecondaryKeys.thy ===== *)
theory SecondaryKeys
  imports Keys HexRings
begin

text \<open>
  Secondary index keys of \<open>internal/index\<close>: \<open>secondary_segment.go\<close>,
  \<open>source_key.go\<close>, \<open>tag_key.go\<close>, \<open>time_key.go\<close>, the seam keys
  (\<open>seam_key.go\<close>, \<open>seam_version_key.go\<close>, \<open>seam_by_cells.go\<close>,
  \<open>seam_secondary_keys.go\<close>) and their inclusive scan ranges. Identifiers are framed by a
  two-byte length, so the framed heads of two different identifiers never extend each other; the
  locale \<open>prefix_family\<close> turns that into exactness of the ranges. \<open>ulid.Parse\<close>
  is the parameter \<open>ulidParse\<close>.
\<close>

subsection \<open>Length-prefixed identifiers\<close>

definition appendLenPrefixedUTF8 ::
  "bytes \<Rightarrow> bytes \<Rightarrow> nat \<Rightarrow> index_error \<Rightarrow> index_error + bytes" where
  "appendLenPrefixedUTF8 dst s maxBytes tooLong =
     (if length s > maxBytes then Inl tooLong
      else if length s > 0xffff then Inl tooLong
      else Inr (dst @ PutUint16 (of_nat (length s)) @ s))"

definition lenPrefixedIDPrefixAfterASCII ::
  "bytes \<Rightarrow> bytes \<Rightarrow> nat \<Rightarrow> index_error \<Rightarrow> index_error + bytes" where
  "lenPrefixedIDPrefixAfterASCII asciiPrefix s maxBytes errLong =
     (if length s > maxBytes then Inl errLong
      else if length s > 0xffff then Inl errLong
      else Inr (asciiPrefix @ PutUint16 (of_nat (length s)) @ s @ [slash]))"

definition zeroPacked :: PackedCoord where "zeroPacked = PackedCoord 0 0"
definition maxPacked :: PackedCoord where "maxPacked = PackedCoord (NOT 0) (NOT 0)"

subsection \<open>Sources\<close>

definition SourcePrefix :: bytes where "SourcePrefix = ascii ''source/''"
definition MaxSourceIDBytes :: nat where "MaxSourceIDBytes = 220"

definition SourceKey :: "bytes \<Rightarrow> PackedCoord \<Rightarrow> index_error + bytes" where
  "SourceKey sourceID p =
     bindR (appendLenPrefixedUTF8 SourcePrefix sourceID MaxSourceIDBytes ErrSourceIDTooLong) (\<lambda>buf.
       Inr (appendPackedCoordBE (buf @ [slash]) p))"

definition SourceKeyWithVersion :: "bytes \<Rightarrow> PackedCoord \<Rightarrow> uint64 \<Rightarrow> index_error + bytes" where
  "SourceKeyWithVersion sourceID p commitSeq =
     bindR (SourceKey sourceID p) (\<lambda>base. Inr (base @ PutUint64 commitSeq))"

definition SourceRangePrefix :: "bytes \<Rightarrow> index_error + bytes \<times> bytes" where
  "SourceRangePrefix sourceID =
     bindR (lenPrefixedIDPrefixAfterASCII SourcePrefix sourceID MaxSourceIDBytes ErrSourceIDTooLong)
       (\<lambda>head. Inr (appendPackedCoordBE head zeroPacked, appendPackedCoordBE head maxPacked))"

definition SourceRangePrefixAllVersions :: "bytes \<Rightarrow> index_error + bytes \<times> bytes" where
  "SourceRangePrefixAllVersions sourceID =
     bindR (SourceRangePrefix sourceID) (\<lambda>(from, to).
       Inr (from @ replicate VersionSuffixLen 0, to @ replicate VersionSuffixLen 0xff))"

definition ParseSourceKey :: "bytes \<Rightarrow> index_error + bytes \<times> PackedCoord" where
  "ParseSourceKey key =
     (if \<not> prefix SourcePrefix key then Inl (IndexError ''index: not a source key'')
      else let rest = drop (length SourcePrefix) key
      in if length rest < 2 then Inl (IndexError ''index: source key truncated'')
      else let n = unat (Uint16 (take 2 rest)); rest = drop 2 rest
      in if n > MaxSourceIDBytes \<or> length rest < n + 1 + PackedCoordKeyLen
         then Inl (IndexError ''index: bad source key layout'')
      else let s = take n rest; rest = drop n rest
      in if rest ! 0 \<noteq> slash then Inl (IndexError ''index: source key separator'')
      else let rest = drop 1 rest
      in if length rest \<noteq> PackedCoordKeyLen \<and> length rest \<noteq> PackedCoordKeyLen + VersionSuffixLen
         then Inl (IndexError ''index: source key packed len'')
      else let rest = take PackedCoordKeyLen rest
      in Inr (s, PackedCoord (Uint64 (slice 8 16 rest)) (Uint64 (slice 0 8 rest))))"

text \<open>\<open>hasSeq\<close> and \<open>commitSeq\<close> as an option.\<close>

definition ParseSourceKeyWithSeq ::
  "bytes \<Rightarrow> index_error + bytes \<times> PackedCoord \<times> uint64 option" where
  "ParseSourceKeyWithSeq key =
     (if \<not> prefix SourcePrefix key then Inl (IndexError ''index: not a source key'')
      else let rest = drop (length SourcePrefix) key
      in if length rest < 2 then Inl (IndexError ''index: source key truncated'')
      else let n = unat (Uint16 (take 2 rest)); rest = drop 2 rest
      in if n > MaxSourceIDBytes \<or> length rest < n + 1 + PackedCoordKeyLen
         then Inl (IndexError ''index: bad source key layout'')
      else let s = take n rest; rest = drop n rest
      in if length rest < 1 \<or> rest ! 0 \<noteq> slash then Inl (IndexError ''index: source key separator'')
      else let rest = drop 1 rest
      in if length rest \<noteq> PackedCoordKeyLen \<and> length rest \<noteq> PackedCoordKeyLen + VersionSuffixLen
         then Inl (IndexError ''index: source key packed len'')
      else let commitSeq = (if length rest = PackedCoordKeyLen then None
                            else Some (Uint64 (drop PackedCoordKeyLen rest)));
               rest = take PackedCoordKeyLen rest
      in Inr (s, PackedCoord (Uint64 (slice 8 16 rest)) (Uint64 (slice 0 8 rest)), commitSeq))"

subsection \<open>Tags\<close>

definition TagPrefix :: bytes where "TagPrefix = ascii ''tag/''"
definition MaxTagBytes :: nat where "MaxTagBytes = 220"

definition TagKey :: "bytes \<Rightarrow> PackedCoord \<Rightarrow> index_error + bytes" where
  "TagKey tag p =
     bindR (appendLenPrefixedUTF8 TagPrefix tag MaxTagBytes ErrTagTooLong) (\<lambda>buf.
       Inr (appendPackedCoordBE (buf @ [slash]) p))"

definition TagKeyWithVersion :: "bytes \<Rightarrow> PackedCoord \<Rightarrow> uint64 \<Rightarrow> index_error + bytes" where
  "TagKeyWithVersion tag p commitSeq =
     bindR (TagKey tag p) (\<lambda>base. Inr (base @ PutUint64 commitSeq))"

definition TagRangePrefix :: "bytes \<Rightarrow> index_error + bytes \<times> bytes" where
  "TagRangePrefix tag =
     bindR (lenPrefixedIDPrefixAfterASCII TagPrefix tag MaxTagBytes ErrTagTooLong)
       (\<lambda>head. Inr (appendPackedCoordBE head zeroPacked, appendPackedCoordBE head maxPacked))"

definition TagRangePrefixAllVersions :: "bytes \<Rightarrow> index_error + bytes \<times> bytes" where
  "TagRangePrefixAllVersions tag =
     bindR (TagRangePrefix tag) (\<lambda>(from, to).
       Inr (from @ replicate VersionSuffixLen 0, to @ replicate VersionSuffixLen 0xff))"

definition ParseTagKey :: "bytes \<Rightarrow> index_error + bytes \<times> PackedCoord" where
  "ParseTagKey key =
     (if \<not> prefix TagPrefix key then Inl (IndexError ''index: not a tag key'')
      else let rest = drop (length TagPrefix) key
      in if length rest < 2 then Inl (IndexError ''index: tag key truncated'')
      else let n = unat (Uint16 (take 2 rest)); rest = drop 2 rest
      in if n > MaxTagBytes \<or> length rest < n + 1 + PackedCoordKeyLen
         then Inl (IndexError ''index: bad tag key layout'')
      else let s = take n rest; rest = drop n rest
      in if rest ! 0 \<noteq> slash then Inl (IndexError ''index: tag key separator'')
      else let rest = drop 1 rest
      in if length rest \<noteq> PackedCoordKeyLen \<and> length rest \<noteq> PackedCoordKeyLen + VersionSuffixLen
         then Inl (IndexError ''index: tag key packed len'')
      else let rest = take PackedCoordKeyLen rest
      in Inr (s, PackedCoord (Uint64 (slice 8 16 rest)) (Uint64 (slice 0 8 rest))))"

definition ParseTagKeyWithSeq ::
  "bytes \<Rightarrow> index_error + bytes \<times> PackedCoord \<times> uint64 option" where
  "ParseTagKeyWithSeq key =
     (if \<not> prefix TagPrefix key then Inl (IndexError ''index: not a tag key'')
      else let rest = drop (length TagPrefix) key
      in if length rest < 2 then Inl (IndexError ''index: tag key truncated'')
      else let n = unat (Uint16 (take 2 rest)); rest = drop 2 rest
      in if n > MaxTagBytes \<or> length rest < n + 1 + PackedCoordKeyLen
         then Inl (IndexError ''index: bad tag key layout'')
      else let s = take n rest; rest = drop n rest
      in if length rest < 1 \<or> rest ! 0 \<noteq> slash then Inl (IndexError ''index: tag key separator'')
      else let rest = drop 1 rest
      in if length rest \<noteq> PackedCoordKeyLen \<and> length rest \<noteq> PackedCoordKeyLen + VersionSuffixLen
         then Inl (IndexError ''index: tag key packed len'')
      else let commitSeq = (if length rest = PackedCoordKeyLen then None
                            else Some (Uint64 (drop PackedCoordKeyLen rest)));
               rest = take PackedCoordKeyLen rest
      in Inr (s, PackedCoord (Uint64 (slice 8 16 rest)) (Uint64 (slice 0 8 rest)), commitSeq))"

definition TagFamilyScanBounds :: "bytes \<times> bytes" where
  "TagFamilyScanBounds = (TagPrefix, ascii ''tau'')"

subsection \<open>Week buckets\<close>

definition TimePrefix :: bytes where "TimePrefix = ascii ''time/''"
definition WeekNanos :: int64 where "WeekNanos = 7 * 24 * 3600 * 1000000000"

definition TimeKey :: "int64 \<Rightarrow> PackedCoord \<Rightarrow> bytes" where
  "TimeKey bucket p = appendPackedCoordBE (TimePrefix @ PutUint64 bucket @ [slash]) p"

definition TimeKeyWithVersion :: "int64 \<Rightarrow> PackedCoord \<Rightarrow> uint64 \<Rightarrow> bytes" where
  "TimeKeyWithVersion bucket p commitSeq = TimeKey bucket p @ PutUint64 commitSeq"

text \<open>Go's \<open>%\<close> on \<open>int64\<close>: the remainder of the truncated quotient.\<close>

definition modGo :: "int64 \<Rightarrow> int64 \<Rightarrow> int64" where
  "modGo a b = word_of_int (sint a smod sint b)"

definition WeekBucketFromValidity :: "ValidityWire \<Rightarrow> int64 option" where
  "WeekBucketFromValidity v =
     (case ValidFrom v of None \<Rightarrow> None
      | Some nanos \<Rightarrow>
        let bucket = divGo nanos WeekNanos
        in Some (if nanos <s 0 \<and> modGo nanos WeekNanos \<noteq> 0 then bucket - 1 else bucket))"

definition TimeRangePrefix :: "int64 \<Rightarrow> bytes \<times> bytes" where
  "TimeRangePrefix bucket =
     (let head = TimePrefix @ PutUint64 bucket @ [slash]
      in (appendPackedCoordBE head zeroPacked, appendPackedCoordBE head maxPacked))"

definition TimeRangePrefixAllVersions :: "int64 \<Rightarrow> bytes \<times> bytes" where
  "TimeRangePrefixAllVersions bucket =
     (let (fromB, toB) = TimeRangePrefix bucket
      in (fromB @ replicate VersionSuffixLen 0, toB @ replicate VersionSuffixLen 0xff))"

definition ParseTimeKey :: "bytes \<Rightarrow> index_error + int64 \<times> PackedCoord" where
  "ParseTimeKey key =
     (if \<not> prefix TimePrefix key then Inl (IndexError ''index: not a time key'')
      else let rest = drop (length TimePrefix) key
      in if length rest < 8 + 1 + PackedCoordKeyLen then Inl (IndexError ''index: time key truncated'')
      else let bucket = Uint64 (take 8 rest)
      in if rest ! 8 \<noteq> slash then Inl (IndexError ''index: time key separator'')
      else let rest = drop 9 rest
      in if length rest \<noteq> PackedCoordKeyLen \<and> length rest \<noteq> PackedCoordKeyLen + VersionSuffixLen
         then Inl (IndexError ''index: time key packed len'')
      else let rest = take PackedCoordKeyLen rest
      in Inr (bucket, PackedCoord (Uint64 (slice 8 16 rest)) (Uint64 (slice 0 8 rest))))"

subsection \<open>Seams\<close>

definition SeamPrefix :: bytes where "SeamPrefix = ascii ''seam/''"
definition SeamByCellsPrefix :: bytes where "SeamByCellsPrefix = ascii ''seam-by-cells/''"
definition ULIDKeyLen :: nat where "ULIDKeyLen = 26"

definition SeamKey :: "(bytes \<Rightarrow> bytes option) \<Rightarrow> bytes \<Rightarrow> index_error + bytes" where
  "SeamKey ulidParse u = (if ulidParse u = None then Inl ErrKeyInvalidULID else Inr (SeamPrefix @ u))"

definition SeamScanUpperBound :: bytes where "SeamScanUpperBound = ascii ''seam0''"

definition SeamKeyWithVersion ::
  "(bytes \<Rightarrow> bytes option) \<Rightarrow> bytes \<Rightarrow> uint64 \<Rightarrow> index_error + bytes" where
  "SeamKeyWithVersion ulidParse u commitSeq =
     (if ulidParse u = None then Inl ErrKeyInvalidULID
      else Inr (SeamPrefix @ u @ [slash] @ PutUint64 commitSeq))"

definition SeamVersionScanBounds ::
  "(bytes \<Rightarrow> bytes option) \<Rightarrow> bytes \<Rightarrow> index_error + bytes \<times> bytes" where
  "SeamVersionScanBounds ulidParse u =
     bindR (SeamKeyWithVersion ulidParse u 0) (\<lambda>from.
     bindR (SeamKeyWithVersion ulidParse u (- 1)) (\<lambda>to. Inr (from, to)))"

definition ParseSeamCommitSeq :: "bytes \<Rightarrow> uint64 option" where
  "ParseSeamCommitSeq key =
     (let want = length SeamPrefix + ULIDKeyLen + 1 + VersionSuffixLen
      in if length key \<noteq> want then None
         else if key ! (length SeamPrefix + ULIDKeyLen) \<noteq> slash then None
         else Some (Uint64 (drop (length key - VersionSuffixLen) key)))"

definition ParseSeamVersionKey ::
  "(bytes \<Rightarrow> bytes option) \<Rightarrow> bytes \<Rightarrow> index_error + bytes \<times> uint64" where
  "ParseSeamVersionKey ulidParse key =
     (if length key \<noteq> length SeamPrefix + ULIDKeyLen + 1 + VersionSuffixLen
      then Inl (IndexError ''index: seam version key length'')
      else if take (length SeamPrefix) key \<noteq> SeamPrefix
      then Inl (IndexError ''index: seam version prefix'')
      else let u = slice (length SeamPrefix) (length SeamPrefix + ULIDKeyLen) key
      in if ulidParse u = None then Inl ErrKeyInvalidULID
      else if key ! (length SeamPrefix + ULIDKeyLen) \<noteq> slash
      then Inl (IndexError ''index: seam version separator'')
      else Inr (u, Uint64 (drop (length key - VersionSuffixLen) key)))"

subsection \<open>Seams by their cells\<close>

definition SeamByCellsKey ::
  "(bytes \<Rightarrow> bytes option) \<Rightarrow> PackedCoord \<Rightarrow> PackedCoord \<Rightarrow> bytes \<Rightarrow> index_error + bytes" where
  "SeamByCellsKey ulidParse lo hi u =
     (if ulidParse u = None then Inl ErrKeyInvalidULID
      else if length u \<noteq> ULIDKeyLen then Inl ErrKeyInvalidULID
      else let out = appendPackedCoordBE SeamByCellsPrefix lo @ [slash];
               out = appendPackedCoordBE out hi @ [slash]
      in Inr (out @ u))"

definition ParseSeamByCellsKey ::
  "(bytes \<Rightarrow> bytes option) \<Rightarrow> bytes \<Rightarrow> index_error + PackedCoord \<times> PackedCoord \<times> bytes" where
  "ParseSeamByCellsKey ulidParse key =
     (if \<not> prefix SeamByCellsPrefix key then Inl (IndexError ''index: not a seam-by-cells key'')
      else let rest = drop (length SeamByCellsPrefix) key
      in if length rest \<noteq> PackedCoordKeyLen + 1 + PackedCoordKeyLen + 1 + ULIDKeyLen
         then Inl (IndexError ''index: bad seam-by-cells key length'')
      else bindR (parsePackedCoordSegment (take PackedCoordKeyLen rest)) (\<lambda>lo.
        if rest ! PackedCoordKeyLen \<noteq> slash then Inl (IndexError ''index: bad seam-by-cells separator'')
        else let rest = drop (PackedCoordKeyLen + 1) rest
        in bindR (parsePackedCoordSegment (take PackedCoordKeyLen rest)) (\<lambda>hi.
          if rest ! PackedCoordKeyLen \<noteq> slash
          then Inl (IndexError ''index: bad seam-by-cells separator'')
          else let u = drop (PackedCoordKeyLen + 1) rest
          in if ulidParse u = None then Inl ErrKeyInvalidULID else Inr (lo, hi, u))))"

definition SeamByCellsScanUpperBound :: bytes where
  "SeamByCellsScanUpperBound = ascii ''seam-by-cells0''"

text \<open>The raw builder panics on a suffix of another length; both callers pass 26 bytes.\<close>

definition seamByCellsKeyRaw :: "PackedCoord \<Rightarrow> PackedCoord \<Rightarrow> bytes \<Rightarrow> bytes" where
  "seamByCellsKeyRaw lo hi ulidSuffix =
     (let out = appendPackedCoordBE SeamByCellsPrefix lo @ [slash];
          out = appendPackedCoordBE out hi @ [slash]
      in out @ ulidSuffix)"

definition minULIDKeySuffix :: bytes where
  "minULIDKeySuffix = replicate ULIDKeyLen (of_char (CHR ''0''))"

definition maxULIDKeySuffix :: bytes where
  "maxULIDKeySuffix = replicate ULIDKeyLen 0xff"

definition SeamByCellsRangeLoFixed :: "PackedCoord \<Rightarrow> bytes \<times> bytes" where
  "SeamByCellsRangeLoFixed lo =
     (seamByCellsKeyRaw lo lo minULIDKeySuffix, seamByCellsKeyRaw lo maxPacked maxULIDKeySuffix)"

definition packedCoordToKeyBytes :: "PackedCoord \<Rightarrow> bytes" where
  "packedCoordToKeyBytes p = appendPackedCoordBE [] p"

definition bytesToPackedCoord :: "bytes \<Rightarrow> PackedCoord option" where
  "bytesToPackedCoord b =
     (if length b \<noteq> PackedCoordKeyLen then None
      else Some (PackedCoord (binaryUint64BE (slice 8 16 b)) (binaryUint64BE (slice 0 8 b))))"

text \<open>The backward borrow loop: indices \<open>i - 1\<close> down to 0 of the copy \<open>out\<close>.\<close>

primrec packedDecFrom :: "nat \<Rightarrow> bytes \<Rightarrow> bytes option" where
  "packedDecFrom 0 out = None"
| "packedDecFrom (Suc i) out =
     (if out ! i \<noteq> 0 then Some (out[i := out ! i - 1])
      else packedDecFrom i (out[i := 0xff]))"

definition packedKeyBytesDec :: "bytes \<Rightarrow> bytes option" where
  "packedKeyBytesDec packed = packedDecFrom (length packed) packed"

definition SeamByCellsRangeHiFixedLoLess :: "PackedCoord \<Rightarrow> (bytes \<times> bytes) option" where
  "SeamByCellsRangeHiFixedLoLess hi =
     (case packedKeyBytesDec (packedCoordToKeyBytes hi) of None \<Rightarrow> None
      | Some pred \<Rightarrow>
        (case bytesToPackedCoord pred of None \<Rightarrow> None
         | Some loMax \<Rightarrow>
           Some (seamByCellsKeyRaw zeroPacked hi minULIDKeySuffix,
                 seamByCellsKeyRaw loMax hi maxULIDKeySuffix)))"

subsection \<open>Seams by week and by source\<close>

definition SeamTimePrefix :: bytes where "SeamTimePrefix = ascii ''seam-time/''"
definition SeamSourcePrefix :: bytes where "SeamSourcePrefix = ascii ''seam-source/''"
definition ULIDStringLen :: nat where "ULIDStringLen = 26"

definition SeamTimeKey :: "(bytes \<Rightarrow> bytes option) \<Rightarrow> int64 \<Rightarrow> bytes \<Rightarrow> index_error + bytes" where
  "SeamTimeKey ulidParse bucket u =
     (if length u \<noteq> ULIDStringLen then Inl ErrKeyInvalidULID
      else if ulidParse u = None then Inl ErrKeyInvalidULID
      else Inr (SeamTimePrefix @ PutUint64 bucket @ [slash] @ u))"

definition SeamTimeKeyWithVersion ::
  "(bytes \<Rightarrow> bytes option) \<Rightarrow> int64 \<Rightarrow> bytes \<Rightarrow> uint64 \<Rightarrow> index_error + bytes" where
  "SeamTimeKeyWithVersion ulidParse bucket u commitSeq =
     bindR (SeamTimeKey ulidParse bucket u) (\<lambda>base. Inr (base @ [slash] @ PutUint64 commitSeq))"

definition zeros26 :: bytes where "zeros26 = replicate ULIDStringLen (of_char (CHR ''0''))"
definition zeds26 :: bytes where "zeds26 = replicate ULIDStringLen (of_char (CHR ''Z''))"

definition SeamTimeRangePrefix :: "int64 \<Rightarrow> bytes \<times> bytes" where
  "SeamTimeRangePrefix bucket =
     (SeamTimePrefix @ PutUint64 bucket @ [slash] @ zeros26,
      SeamTimePrefix @ PutUint64 bucket @ [slash] @ zeds26)"

definition SeamTimeRangePrefixAllVersions :: "int64 \<Rightarrow> bytes \<times> bytes" where
  "SeamTimeRangePrefixAllVersions bucket =
     (SeamTimePrefix @ PutUint64 bucket @ [slash] @ zeros26 @ [slash] @ replicate VersionSuffixLen 0,
      SeamTimePrefix @ PutUint64 bucket @ [slash] @ zeds26 @ [slash] @ PutUint64 (- 1))"

definition ParseSeamTimeKey ::
  "(bytes \<Rightarrow> bytes option) \<Rightarrow> bytes \<Rightarrow> index_error + int64 \<times> bytes" where
  "ParseSeamTimeKey ulidParse key =
     (if \<not> prefix SeamTimePrefix key then Inl (IndexError ''index: not a seam-time key'')
      else let rest = drop (length SeamTimePrefix) key
      in if length rest < 8 + 1 + ULIDStringLen then Inl (IndexError ''index: seam-time key truncated'')
      else let bucket = Uint64 (take 8 rest)
      in if rest ! 8 \<noteq> slash then Inl (IndexError ''index: seam-time separator'')
      else let rest = drop 9 rest
      in if length rest \<noteq> ULIDStringLen \<and> length rest \<noteq> ULIDStringLen + 1 + VersionSuffixLen
         then Inl (IndexError ''index: seam-time ulid len'')
      else if length rest = ULIDStringLen + 1 + VersionSuffixLen \<and> rest ! ULIDStringLen \<noteq> slash
      then Inl (IndexError ''index: seam-time version separator'')
      else let u = take ULIDStringLen rest
      in if ulidParse u = None then Inl ErrKeyInvalidULID else Inr (bucket, u))"

definition ParseSeamTimeCommitSeq :: "bytes \<Rightarrow> uint64 option" where
  "ParseSeamTimeCommitSeq key =
     (if length key \<noteq> length SeamTimePrefix + 8 + 1 + ULIDStringLen + 1 + VersionSuffixLen then None
      else if key ! (length key - VersionSuffixLen - 1) \<noteq> slash then None
      else Some (Uint64 (drop (length key - VersionSuffixLen) key)))"

definition SeamSourceKey :: "(bytes \<Rightarrow> bytes option) \<Rightarrow> bytes \<Rightarrow> bytes \<Rightarrow> index_error + bytes" where
  "SeamSourceKey ulidParse sourceID u =
     (if length u \<noteq> ULIDStringLen then Inl ErrKeyInvalidULID
      else if ulidParse u = None then Inl ErrKeyInvalidULID
      else if length sourceID > MaxSourceIDBytes then Inl ErrSourceIDTooLong
      else if length sourceID > 0xffff then Inl ErrSourceIDTooLong
      else Inr (SeamSourcePrefix @ PutUint16 (of_nat (length sourceID)) @ sourceID @ [slash] @ u))"

definition SeamSourceKeyWithVersion ::
  "(bytes \<Rightarrow> bytes option) \<Rightarrow> bytes \<Rightarrow> bytes \<Rightarrow> uint64 \<Rightarrow> index_error + bytes" where
  "SeamSourceKeyWithVersion ulidParse sourceID u commitSeq =
     bindR (SeamSourceKey ulidParse sourceID u) (\<lambda>base. Inr (base @ [slash] @ PutUint64 commitSeq))"

definition SeamSourceRangePrefix :: "bytes \<Rightarrow> index_error + bytes \<times> bytes" where
  "SeamSourceRangePrefix sourceID =
     (if length sourceID > MaxSourceIDBytes then Inl ErrSourceIDTooLong
      else let head = SeamSourcePrefix @ PutUint16 (of_nat (length sourceID)) @ sourceID @ [slash]
      in Inr (head @ zeros26, head @ zeds26))"

definition SeamSourceRangePrefixAllVersions :: "bytes \<Rightarrow> index_error + bytes \<times> bytes" where
  "SeamSourceRangePrefixAllVersions sourceID =
     (if length sourceID > MaxSourceIDBytes then Inl ErrSourceIDTooLong
      else let head = SeamSourcePrefix @ PutUint16 (of_nat (length sourceID)) @ sourceID @ [slash]
      in Inr (head @ zeros26 @ [slash] @ replicate VersionSuffixLen 0,
              head @ zeds26 @ [slash] @ PutUint64 (- 1)))"

definition ParseSeamSourceKey ::
  "(bytes \<Rightarrow> bytes option) \<Rightarrow> bytes \<Rightarrow> index_error + bytes \<times> bytes" where
  "ParseSeamSourceKey ulidParse key =
     (if \<not> prefix SeamSourcePrefix key then Inl (IndexError ''index: not a seam-source key'')
      else let rest = drop (length SeamSourcePrefix) key
      in if length rest < 2 then Inl (IndexError ''index: seam-source key truncated'')
      else let n = unat (Uint16 (take 2 rest)); rest = drop 2 rest
      in if n > MaxSourceIDBytes \<or> length rest < n + 1 + ULIDStringLen
         then Inl (IndexError ''index: bad seam-source layout'')
      else let s = take n rest; rest = drop n rest
      in if rest ! 0 \<noteq> slash then Inl (IndexError ''index: seam-source separator'')
      else let rest = drop 1 rest
      in if length rest \<noteq> ULIDStringLen \<and> length rest \<noteq> ULIDStringLen + 1 + VersionSuffixLen
         then Inl (IndexError ''index: seam-source ulid len'')
      else if length rest = ULIDStringLen + 1 + VersionSuffixLen \<and> rest ! ULIDStringLen \<noteq> slash
      then Inl (IndexError ''index: seam-source version separator'')
      else let u = take ULIDStringLen rest
      in if ulidParse u = None then Inl ErrKeyInvalidULID else Inr (s, u))"

definition ParseSeamSourceCommitSeq :: "bytes \<Rightarrow> uint64 option" where
  "ParseSeamSourceCommitSeq key =
     (if length key < VersionSuffixLen + 1 then None
      else if key ! (length key - VersionSuffixLen - 1) \<noteq> slash then None
      else Some (Uint64 (drop (length key - VersionSuffixLen) key)))"

subsection \<open>Families of framed keys\<close>

lemma lex_between_prefix:
  "h @ lo \<le> k \<Longrightarrow> k \<le> h @ hi \<Longrightarrow> prefix h (k :: bytes)"
proof (induction h arbitrary: k)
  case (Cons x h)
  from Cons.prems obtain y k' where "k = y # k'" by (cases k) auto
  with Cons show ?case by auto
qed simp

locale prefix_family =
  fixes head :: "'i \<Rightarrow> bytes" and valid :: "'i \<Rightarrow> bool"
  assumes prefix_free: "valid i \<Longrightarrow> valid j \<Longrightarrow> prefix (head i) (head j) \<Longrightarrow> i = j"
begin

lemma between:
  assumes "valid i" "valid j" "head i @ lo \<le> head j @ b" "head j @ b \<le> head i @ hi"
  shows "j = i"
proof -
  have "prefix (head i) (head j @ b)" using assms(3,4) by (rule lex_between_prefix)
  then consider "prefix (head i) (head j)" | "prefix (head j) (head i)"
    using prefix_same_cases [of "head i" "head j @ b" "head j"] by auto
  then show ?thesis
    by cases (use assms(1,2) prefix_free in auto)
qed

lemma range_exact:
  assumes "valid i" "valid j" "lo \<le> b" "b \<le> hi"
  shows "head i @ lo \<le> head j @ b \<and> head j @ b \<le> head i @ hi \<longleftrightarrow> j = i"
  using between [OF assms(1,2)] assms(3,4) by auto

end

definition framedHead :: "bytes \<Rightarrow> bytes \<Rightarrow> bytes" where
  "framedHead p s = p @ PutUint16 (of_nat (length s)) @ s @ [slash]"

lemma framed_prefix_free:
  assumes "length s < 2 ^ 16" "length t < 2 ^ 16" "prefix (framedHead p s) (framedHead p t)"
  shows "s = t"
proof -
  have "prefix (PutUint16 (of_nat (length s)) @ s @ [slash]) (PutUint16 (of_nat (length t)) @ t @ [slash])"
    using assms(3) by (simp add: framedHead_def)
  then obtain zs where z: "PutUint16 (of_nat (length t)) @ t @ [slash] =
      PutUint16 (of_nat (length s)) @ s @ [slash] @ zs" by (auto simp: prefix_def)
  then have "PutUint16 (of_nat (length t)) = PutUint16 (of_nat (length s))"
    and r: "t @ [slash] = s @ [slash] @ zs" by (simp_all add: append_eq_append_conv)
  then have "unat (of_nat (length t) :: uint16) = unat (of_nat (length s) :: uint16)" by simp
  then have "length s = length t" using assms(1,2) by (simp add: unat_of_nat)
  with r show ?thesis by (simp add: append_eq_append_conv)
qed

interpretation src: prefix_family "framedHead SourcePrefix" "\<lambda>s. length s \<le> MaxSourceIDBytes"
  by unfold_locales (rule framed_prefix_free; simp add: MaxSourceIDBytes_def)

interpretation tag: prefix_family "framedHead TagPrefix" "\<lambda>s. length s \<le> MaxTagBytes"
  by unfold_locales (rule framed_prefix_free; simp add: MaxTagBytes_def)

interpretation seamsrc: prefix_family "framedHead SeamSourcePrefix" "\<lambda>s. length s \<le> MaxSourceIDBytes"
  by unfold_locales (rule framed_prefix_free; simp add: MaxSourceIDBytes_def)

definition timeHead :: "int64 \<Rightarrow> bytes" where
  "timeHead b = TimePrefix @ PutUint64 b @ [slash]"

definition seamTimeHead :: "int64 \<Rightarrow> bytes" where
  "seamTimeHead b = SeamTimePrefix @ PutUint64 b @ [slash]"

interpretation time: prefix_family timeHead "\<lambda>_. True"
  by unfold_locales (auto simp: timeHead_def prefix_def)

interpretation seamtime: prefix_family seamTimeHead "\<lambda>_. True"
  by unfold_locales (auto simp: seamTimeHead_def prefix_def)

lemma packed_bounds: "appendPackedCoordBE [] zeroPacked \<le> appendPackedCoordBE [] p"
  "appendPackedCoordBE [] p \<le> appendPackedCoordBE [] maxPacked"
proof -
  have "packedHi p = 0 \<or> 0 < packedHi p" "packedHi p = - 1 \<or> packedHi p < - 1"
    by (simp_all only: word_gt_0 word_order.not_eq_extremum [symmetric]) auto
  then show "appendPackedCoordBE [] zeroPacked \<le> appendPackedCoordBE [] p"
    "appendPackedCoordBE [] p \<le> appendPackedCoordBE [] maxPacked"
    by (auto simp: appendPackedCoordBE_def zeroPacked_def maxPacked_def lex_append_le)
qed

lemma natOfBE_replicate: "natOfBE (replicate n 0) = 0" "natOfBE (replicate n 0xff) = 256 ^ n - 1"
proof -
  have r: "replicate (Suc m) (x :: byte) = replicate m x @ [x]" for m x
    by (simp add: replicate_append_same)
  show "natOfBE (replicate n 0) = 0"
    by (induction n) (simp_all only: r natOfBE_snoc, simp_all)
  have "natOfBE (replicate n 0xff) + 1 = 256 ^ n"
    by (induction n) (simp_all only: r natOfBE_snoc, simp_all)
  then show "natOfBE (replicate n 0xff) = 256 ^ n - 1" by simp
qed

lemma PutUint64_ends: "PutUint64 0 = replicate 8 0" "PutUint64 (- 1) = replicate 8 0xff"
proof -
  have "Uint64 (replicate 8 0) = 0" "Uint64 (replicate 8 0xff) = - 1"
    by (simp_all add: Uint64_def natOfBE_replicate)
  then show "PutUint64 0 = replicate 8 0" "PutUint64 (- 1) = replicate 8 0xff"
    using Put_Uint(1) [of "replicate 8 0"] Put_Uint(1) [of "replicate 8 0xff"] by (simp_all only: length_replicate)
qed

lemma version_bounds: "replicate VersionSuffixLen 0 \<le> PutUint64 s" "PutUint64 s \<le> replicate VersionSuffixLen 0xff"
  by (simp_all add: VersionSuffixLen_def flip: PutUint64_ends)

subsection \<open>Source and tag indexes\<close>

lemma appendLenPrefixed_framed:
  "bindR (appendLenPrefixedUTF8 pre s m e) (\<lambda>buf. Inr (appendPackedCoordBE (buf @ [slash]) p)) = Inr k \<longleftrightarrow>
     length s \<le> m \<and> length s \<le> 0xffff \<and> k = framedHead pre s @ appendPackedCoordBE [] p"
  by (auto simp: appendLenPrefixedUTF8_def framedHead_def appendPackedCoordBE_def)

lemma lenPrefixed_framed:
  "lenPrefixedIDPrefixAfterASCII pre s m e = Inr h \<longleftrightarrow>
     length s \<le> m \<and> length s \<le> 0xffff \<and> h = framedHead pre s"
  by (auto simp: lenPrefixedIDPrefixAfterASCII_def framedHead_def)

lemma SourceKey_iff:
  "SourceKey s p = Inr k \<longleftrightarrow> length s \<le> MaxSourceIDBytes \<and>
     k = framedHead SourcePrefix s @ appendPackedCoordBE [] p"
  by (auto simp: SourceKey_def appendLenPrefixed_framed MaxSourceIDBytes_def)

lemma SourceKeyWithVersion_iff:
  "SourceKeyWithVersion s p q = Inr k \<longleftrightarrow> length s \<le> MaxSourceIDBytes \<and>
     k = framedHead SourcePrefix s @ appendPackedCoordBE [] p @ PutUint64 q"
  by (auto simp: SourceKeyWithVersion_def bindR_eq_Inr SourceKey_iff)

lemma SourceRangePrefix_iff:
  "SourceRangePrefix s = Inr (from, to) \<longleftrightarrow> length s \<le> MaxSourceIDBytes \<and>
     from = framedHead SourcePrefix s @ appendPackedCoordBE [] zeroPacked \<and>
     to = framedHead SourcePrefix s @ appendPackedCoordBE [] maxPacked"
  by (auto simp: SourceRangePrefix_def bindR_eq_Inr lenPrefixed_framed MaxSourceIDBytes_def
      appendPackedCoordBE_def)

lemma TagKey_iff:
  "TagKey s p = Inr k \<longleftrightarrow> length s \<le> MaxTagBytes \<and>
     k = framedHead TagPrefix s @ appendPackedCoordBE [] p"
  by (auto simp: TagKey_def appendLenPrefixed_framed MaxTagBytes_def)

lemma TagKeyWithVersion_iff:
  "TagKeyWithVersion s p q = Inr k \<longleftrightarrow> length s \<le> MaxTagBytes \<and>
     k = framedHead TagPrefix s @ appendPackedCoordBE [] p @ PutUint64 q"
  by (auto simp: TagKeyWithVersion_def bindR_eq_Inr TagKey_iff)

lemma TagRangePrefix_iff:
  "TagRangePrefix s = Inr (from, to) \<longleftrightarrow> length s \<le> MaxTagBytes \<and>
     from = framedHead TagPrefix s @ appendPackedCoordBE [] zeroPacked \<and>
     to = framedHead TagPrefix s @ appendPackedCoordBE [] maxPacked"
  by (auto simp: TagRangePrefix_def bindR_eq_Inr lenPrefixed_framed MaxTagBytes_def
      appendPackedCoordBE_def)

lemma lex_append_mono:
  "length xs = length ys \<Longrightarrow> xs \<le> ys \<Longrightarrow> us \<le> vs \<Longrightarrow> xs @ us \<le> ys @ (vs :: bytes)"
  by (cases "xs = ys") (simp_all add: lex_append_le)

lemma version_packed_bounds:
  "appendPackedCoordBE [] zeroPacked @ replicate VersionSuffixLen 0 \<le> appendPackedCoordBE [] p @ PutUint64 q"
  "appendPackedCoordBE [] p @ PutUint64 q \<le> appendPackedCoordBE [] maxPacked @ replicate VersionSuffixLen 0xff"
  using packed_bounds [of p] version_bounds [of q] by (simp_all add: lex_append_mono)

lemma SourceRange_exact:
  assumes "SourceRangePrefix s = Inr (from, to)" "SourceKey t p = Inr k"
  shows "from \<le> k \<and> k \<le> to \<longleftrightarrow> t = s"
  using assms src.range_exact [OF _ _ packed_bounds] by (auto simp: SourceRangePrefix_iff SourceKey_iff)

lemma SourceRangeAllVersions_exact:
  assumes "SourceRangePrefixAllVersions s = Inr (from, to)" "SourceKeyWithVersion t p q = Inr k"
  shows "from \<le> k \<and> k \<le> to \<longleftrightarrow> t = s"
  using assms src.range_exact [OF _ _ version_packed_bounds]
  by (auto simp: SourceRangePrefixAllVersions_def bindR_eq_Inr SourceRangePrefix_iff SourceKeyWithVersion_iff)

lemma TagRange_exact:
  assumes "TagRangePrefix s = Inr (from, to)" "TagKey t p = Inr k"
  shows "from \<le> k \<and> k \<le> to \<longleftrightarrow> t = s"
  using assms tag.range_exact [OF _ _ packed_bounds] by (auto simp: TagRangePrefix_iff TagKey_iff)

lemma TagRangeAllVersions_exact:
  assumes "TagRangePrefixAllVersions s = Inr (from, to)" "TagKeyWithVersion t p q = Inr k"
  shows "from \<le> k \<and> k \<le> to \<longleftrightarrow> t = s"
  using assms tag.range_exact [OF _ _ version_packed_bounds]
  by (auto simp: TagRangePrefixAllVersions_def bindR_eq_Inr TagRangePrefix_iff TagKeyWithVersion_iff)

lemma TagFamilyScanBounds_cover:
  assumes "TagKey t p = Inr k \<or> TagKeyWithVersion t p q = Inr k"
  shows "fst TagFamilyScanBounds \<le> k \<and> k \<le> snd TagFamilyScanBounds"
proof -
  obtain r where "k = TagPrefix @ r" using assms by (auto simp: TagKey_iff TagKeyWithVersion_iff framedHead_def)
  then show ?thesis by (simp add: TagFamilyScanBounds_def TagPrefix_def ascii_def)
qed

text \<open>The parsers read back what the builders frame.\<close>

lemma take_packed: "take 16 (appendPackedCoordBE [] p @ r) = appendPackedCoordBE [] p"
  by simp

lemma packed_words:
  "PackedCoord (Uint64 (slice 8 16 (appendPackedCoordBE [] p))) (Uint64 (slice 0 8 (appendPackedCoordBE [] p))) = p"
  by (simp add: appendPackedCoordBE_def slice_def)

lemma ParseSourceKey_written:
  assumes "length s \<le> MaxSourceIDBytes" "r = [] \<or> length r = 8"
  shows "ParseSourceKey (framedHead SourcePrefix s @ appendPackedCoordBE [] p @ r) = Inr (s, p)"
    and "ParseSourceKeyWithSeq (framedHead SourcePrefix s @ appendPackedCoordBE [] p @ r) =
         Inr (s, p, if r = [] then None else Some (Uint64 r))"
proof -
  have n: "unat (of_nat (length s) :: uint16) = length s"
    using assms(1) by (simp add: unat_of_nat MaxSourceIDBytes_def)
  show "ParseSourceKey (framedHead SourcePrefix s @ appendPackedCoordBE [] p @ r) = Inr (s, p)"
    and "ParseSourceKeyWithSeq (framedHead SourcePrefix s @ appendPackedCoordBE [] p @ r) =
         Inr (s, p, if r = [] then None else Some (Uint64 r))"
    using assms n
    by (auto simp: ParseSourceKey_def ParseSourceKeyWithSeq_def framedHead_def Let_def PackedCoordKeyLen_def
        VersionSuffixLen_def packed_words)
qed

lemma ParseTagKey_written:
  assumes "length s \<le> MaxTagBytes" "r = [] \<or> length r = 8"
  shows "ParseTagKey (framedHead TagPrefix s @ appendPackedCoordBE [] p @ r) = Inr (s, p)"
    and "ParseTagKeyWithSeq (framedHead TagPrefix s @ appendPackedCoordBE [] p @ r) =
         Inr (s, p, if r = [] then None else Some (Uint64 r))"
proof -
  have n: "unat (of_nat (length s) :: uint16) = length s"
    using assms(1) by (simp add: unat_of_nat MaxTagBytes_def)
  show "ParseTagKey (framedHead TagPrefix s @ appendPackedCoordBE [] p @ r) = Inr (s, p)"
    and "ParseTagKeyWithSeq (framedHead TagPrefix s @ appendPackedCoordBE [] p @ r) =
         Inr (s, p, if r = [] then None else Some (Uint64 r))"
    using assms n
    by (auto simp: ParseTagKey_def ParseTagKeyWithSeq_def framedHead_def Let_def PackedCoordKeyLen_def
        VersionSuffixLen_def packed_words)
qed

lemma ParseSourceKeyWithSeq_round:
  "SourceKey s p = Inr k \<Longrightarrow> ParseSourceKeyWithSeq k = Inr (s, p, None)"
  "SourceKeyWithVersion s p q = Inr k \<Longrightarrow> ParseSourceKeyWithSeq k = Inr (s, p, Some q)"
  using ParseSourceKey_written(2) [of s "[]" p] ParseSourceKey_written(2) [of s "PutUint64 q" p]
  by (auto simp: SourceKey_iff SourceKeyWithVersion_iff simp flip: length_0_conv)

lemma ParseTagKeyWithSeq_round:
  "TagKey s p = Inr k \<Longrightarrow> ParseTagKeyWithSeq k = Inr (s, p, None)"
  "TagKeyWithVersion s p q = Inr k \<Longrightarrow> ParseTagKeyWithSeq k = Inr (s, p, Some q)"
  using ParseTagKey_written(2) [of s "[]" p] ParseTagKey_written(2) [of s "PutUint64 q" p]
  by (auto simp: TagKey_iff TagKeyWithVersion_iff simp flip: length_0_conv)

subsection \<open>Week buckets\<close>

lemma TimeKey_head: "TimeKey b p = timeHead b @ appendPackedCoordBE [] p"
  by (simp add: TimeKey_def timeHead_def appendPackedCoordBE_def)

lemma TimeRangePrefix_head: "TimeRangePrefix b =
   (timeHead b @ appendPackedCoordBE [] zeroPacked, timeHead b @ appendPackedCoordBE [] maxPacked)"
  by (simp add: TimeRangePrefix_def timeHead_def appendPackedCoordBE_def Let_def)

lemma TimeRange_exact:
  "fst (TimeRangePrefix b) \<le> TimeKey c p \<and> TimeKey c p \<le> snd (TimeRangePrefix b) \<longleftrightarrow> c = b"
  using time.range_exact [OF _ _ packed_bounds, of b c] by (simp add: TimeKey_head TimeRangePrefix_head)

lemma TimeRangeAllVersions_exact:
  "fst (TimeRangePrefixAllVersions b) \<le> TimeKeyWithVersion c p q \<and>
   TimeKeyWithVersion c p q \<le> snd (TimeRangePrefixAllVersions b) \<longleftrightarrow> c = b"
  using time.range_exact [OF _ _ version_packed_bounds, of b c]
  by (simp add: TimeKey_head TimeKeyWithVersion_def TimeRangePrefixAllVersions_def TimeRangePrefix_head)

lemma ParseTimeKey_round:
  "ParseTimeKey (TimeKey b p) = Inr (b, p)" "ParseTimeKey (TimeKeyWithVersion b p q) = Inr (b, p)"
  by (simp_all add: ParseTimeKey_def TimeKeyWithVersion_def TimeKey_head timeHead_def Let_def PackedCoordKeyLen_def
      VersionSuffixLen_def packed_words nth_append)

lemma WeekNanos_value: "sint WeekNanos = 604800000000000"
  by (simp add: WeekNanos_def)

text \<open>The bucket is the floor of the division by a week, also before 1970.\<close>

lemma WeekBucket_floor:
  assumes "WeekBucketFromValidity v = Some b" "ValidFrom v = Some n"
  shows "sint b = sint n div 604800000000000"
proof -
  let ?W = "604800000000000 :: int"
  have d: "sint (divGo n WeekNanos) = sint n sdiv ?W"
    using divGo_pos [of WeekNanos n] by (simp add: WeekNanos_value)
  have "\<bar>sint n smod ?W\<bar> < 2 ^ 63"
    by (simp add: signed_modulo_int_def signed_divide_int_def) (auto simp: sgn_if abs_if minus_div_mult_eq_mod)
  then have "modGo n WeekNanos = 0 \<longleftrightarrow> sint n smod ?W = 0"
    using sint_small [of "sint n smod ?W"] by (auto simp: modGo_def WeekNanos_value) 
  also have "sint n smod ?W = sint n - (sint n sdiv ?W) * ?W"
    by (rule minus_sdiv_mult_eq_smod [symmetric])
  finally have m: "modGo n WeekNanos \<noteq> 0 \<longleftrightarrow> (sint n sdiv ?W) * ?W \<noteq> sint n" by auto
  have b: "b = (if sint n < 0 \<and> (sint n sdiv ?W) * ?W \<noteq> sint n then divGo n WeekNanos - 1 else divGo n WeekNanos)"
    using assms m by (auto simp: WeekBucketFromValidity_def Let_def word_sless_alt)
  have "\<bar>sint n sdiv ?W\<bar> * ?W \<le> \<bar>sint n\<bar>" using sdiv_mult_le [of ?W "sint n"] by (simp add: abs_mult)
  moreover have "\<bar>sint n\<bar> \<le> 2 ^ 63" using sint_bounds64 [of n] by (simp add: abs_le_iff)
  ultimately have "\<bar>sint n sdiv ?W\<bar> < 2 ^ 62" by simp
  then have "\<bar>sint n sdiv ?W - 1\<bar> < 2 ^ 63" by (simp add: abs_less_iff)
  moreover have "divGo n WeekNanos - 1 = word_of_int (sint n sdiv ?W - 1)" by (simp flip: d)
  ultimately have "sint (divGo n WeekNanos - 1) = sint n sdiv ?W - 1" by (simp only: sint_small)
  with d show ?thesis using sdiv_floor [of ?W "sint n"] by (simp add: b)
qed

subsection \<open>Seam keys\<close>

lemma SeamVersionScanBounds_exact:
  assumes "SeamVersionScanBounds ulidParse u = Inr (from, to)" "SeamKeyWithVersion ulidParse w s = Inr k"
    and "length u = length w"
  shows "from \<le> k \<and> k \<le> to \<longleftrightarrow> w = u"
proof -
  have f: "from = SeamPrefix @ u @ [slash] @ PutUint64 0" "to = SeamPrefix @ u @ [slash] @ PutUint64 (- 1)"
    and k: "k = SeamPrefix @ w @ [slash] @ PutUint64 s"
    using assms(1,2) by (auto simp: SeamVersionScanBounds_def SeamKeyWithVersion_def bindR_eq_Inr split: if_splits)
  have "from \<le> k \<longleftrightarrow> u \<le> w" "k \<le> to \<longleftrightarrow> w \<le> u"
    unfolding f k lex_append_same_le using assms(3) by (auto simp: lex_append_le word_order.extremum)
  then show ?thesis by auto
qed

lemma ParseSeamVersionKey_round:
  assumes "SeamKeyWithVersion ulidParse u s = Inr k" "length u = 26"
  shows "ParseSeamVersionKey ulidParse k = Inr (u, s)" "ParseSeamCommitSeq k = Some s"
  using assms
  by (auto simp: SeamKeyWithVersion_def ParseSeamVersionKey_def ParseSeamCommitSeq_def ULIDKeyLen_def
      VersionSuffixLen_def slice_def nth_append Let_def split: if_splits)

lemma SeamKey_scan:
  assumes "SeamKey ulidParse u = Inr k"
  shows "SeamPrefix \<le> k \<and> k < SeamScanUpperBound"
  using assms by (auto simp: SeamKey_def SeamPrefix_def SeamScanUpperBound_def ascii_def split: if_splits)

definition cellsKey :: "PackedCoord \<times> PackedCoord \<Rightarrow> bytes" where
  "cellsKey v = (appendPackedCoordBE (appendPackedCoordBE SeamByCellsPrefix (fst v) @ [slash]) (snd v)) @ [slash]"

lemma length_cellsKey [simp]: "length (cellsKey v) = 48"
  by (simp add: cellsKey_def SeamByCellsPrefix_def)

lemma cellsKey_less: "cellsKey v < cellsKey w \<longleftrightarrow> v < w"
proof -
  have [simp]: "appendPackedCoordBE d p = appendPackedCoordBE d q \<longleftrightarrow> p = q" for d p q
    by (simp add: appendPackedCoordBE_def PackedCoord_eq_iff)
  show ?thesis
    by (auto simp: cellsKey_def lex_append appendPackedCoordBE_less less_prod_def')
qed

interpretation cells: ordered_key cellsKey
  by unfold_locales (rule cellsKey_less)

lemma seamByCellsKeyRaw_cells: "seamByCellsKeyRaw lo hi u = cellsKey (lo, hi) @ u"
  by (simp add: seamByCellsKeyRaw_def cellsKey_def Let_def)

lemma SeamByCellsKey_cells:
  "SeamByCellsKey ulidParse lo hi u = Inr k \<longleftrightarrow>
     ulidParse u \<noteq> None \<and> length u = 26 \<and> k = cellsKey (lo, hi) @ u"
  by (auto simp: SeamByCellsKey_def cellsKey_def ULIDKeyLen_def Let_def)

lemma cells_scan:
  assumes "length u = 26" "length w = 26" "length w' = 26"
  shows "cellsKey a @ w \<le> cellsKey x @ u \<longleftrightarrow> a < x \<or> a = x \<and> w \<le> u"
    and "cellsKey x @ u \<le> cellsKey b @ w' \<longleftrightarrow> x < b \<or> x = b \<and> u \<le> w'"
  by (simp_all add: lex_append_le cells.key_less)

lemma length_suffixes [simp]: "length minULIDKeySuffix = 26" "length maxULIDKeySuffix = 26"
  by (simp_all add: minULIDKeySuffix_def maxULIDKeySuffix_def ULIDKeyLen_def)

lemma maxULIDKeySuffix_max: "length u = 26 \<Longrightarrow> u \<le> maxULIDKeySuffix"
proof -
  have le: "length v = n \<Longrightarrow> v \<le> replicate n (0xff :: byte)" for n and v :: bytes
  proof (induction n arbitrary: v)
    case (Suc n)
    then obtain x v' where v: "v = x # v'" by (cases v) auto
    have "unat x < 256" using unsigned_less [of x] by simp
    then have "x \<le> 0xff" by (simp add: word_le_nat_alt)
    then have "x < 0xff \<or> x = 0xff" by (simp only: le_less)
    with Suc v show ?case by auto
  qed simp
  show "length u = 26 \<Longrightarrow> u \<le> maxULIDKeySuffix"
    unfolding maxULIDKeySuffix_def ULIDKeyLen_def by (rule le)
qed

lemma maxPacked_max: "p \<le> maxPacked"
proof -
  have "packedHi p = - 1 \<or> packedHi p < - 1" by (simp only: word_order.not_eq_extremum [symmetric]) auto
  moreover have "packedLo p = - 1 \<or> packedLo p < - 1" by (simp only: word_order.not_eq_extremum [symmetric]) auto
  ultimately show ?thesis
    by (auto simp: maxPacked_def less_eq_PackedCoord_def less_PackedCoord_def PackedCoord_eq_iff)
qed

text \<open>The first range holds exactly the pairs that begin with the cell (for ULIDs from \<open>0\<close> on).\<close>

lemma SeamByCellsRangeLoFixed_exact:
  assumes "SeamByCellsKey ulidParse lo hi u = Inr k" "minULIDKeySuffix \<le> u" "lo \<le> hi"
  shows "fst (SeamByCellsRangeLoFixed c) \<le> k \<and> k \<le> snd (SeamByCellsRangeLoFixed c) \<longleftrightarrow> lo = c"
proof -
  have k: "k = cellsKey (lo, hi) @ u" and u: "length u = 26" using assms by (simp_all add: SeamByCellsKey_cells)
  show ?thesis
    using u assms(2,3) maxULIDKeySuffix_max [OF u] maxPacked_max [of hi]
    by (auto simp: k SeamByCellsRangeLoFixed_def seamByCellsKeyRaw_cells cells_scan)
qed

text \<open>The borrow loop subtracts one from the big-endian number.\<close>

lemma packedDecFrom_spec:
  assumes "i \<le> length out"
  shows "case packedDecFrom i out of
      None \<Rightarrow> natOfBE (take i out) = 0
    | Some r \<Rightarrow> length r = length out \<and> drop i r = drop i out \<and>
        natOfBE (take i r) + 1 = natOfBE (take i out)"
  using assms
proof (induction i arbitrary: out)
  case (Suc i)
  then have i: "i < length out" by simp
  have tk: "take (Suc i) out = take i out @ [out ! i]" using i by (simp add: take_Suc_conv_app_nth)
  show ?case
  proof (cases "out ! i = 0")
    case False
    have "take (Suc i) (out[i := out ! i - 1]) = take i out @ [out ! i - 1]"
      using i by (simp add: take_Suc_conv_app_nth)
    moreover have "unat (out ! i - 1) + 1 = unat (out ! i)"
      using False unat_eq_zero [of "out ! i"] by (simp add: unat_minus_one del: unat_eq_zero)
    ultimately show ?thesis using False i by (simp add: tk)
  next
    case True
    define out' where "out' = out[i := 0xff]"
    have IH: "case packedDecFrom i out' of
      None \<Rightarrow> natOfBE (take i out') = 0
    | Some r \<Rightarrow> length r = length out' \<and> drop i r = drop i out' \<and>
        natOfBE (take i r) + 1 = natOfBE (take i out')"
      using Suc.IH [of out'] i by (simp add: out'_def)
    have t': "take i out' = take i out" by (simp add: out'_def)
    show ?thesis
    proof (cases "packedDecFrom i out'")
      case None
      with IH True show ?thesis by (simp add: tk t' flip: out'_def)
    next
      case (Some r)
      then have r: "length r = length out'" "drop i r = drop i out'" "natOfBE (take i r) + 1 = natOfBE (take i out)"
        using IH by (simp_all add: t')
      have "r ! i = 0xff"
        using r(1,2) i by (metis hd_drop_conv_nth length_list_update nth_list_update_eq out'_def)
      moreover have "drop (Suc i) r = drop (Suc i) out"
        using arg_cong [OF r(2), of "drop 1"] by (simp add: out'_def)
      moreover have "take (Suc i) r = take i r @ [r ! i]"
        using r(1) i by (simp add: take_Suc_conv_app_nth out'_def)
      ultimately show ?thesis
        using Some True r i by (simp add: tk out'_def)
    qed
  qed
qed simp

lemma packedKeyBytesDec_spec:
  "packedKeyBytesDec b = None \<longleftrightarrow> natOfBE b = 0"
  "packedKeyBytesDec b = Some r \<Longrightarrow> length r = length b \<and> natOfBE r + 1 = natOfBE b"
  using packedDecFrom_spec [of "length b" b]
  by (auto simp: packedKeyBytesDec_def split: option.splits)

lemma natOfBE_packed: "natOfBE (packedCoordToKeyBytes p) = unat (packedHi p) * 2 ^ 64 + unat (packedLo p)"
  using unat_bounds(1) [of "packedHi p"] unat_bounds(1) [of "packedLo p"]
  by (simp add: packedCoordToKeyBytes_def appendPackedCoordBE_def natOfBE_append PutUint64_def)

lemma packed_less_nat: "p < q \<longleftrightarrow> natOfBE (packedCoordToKeyBytes p) < natOfBE (packedCoordToKeyBytes q)"
proof -
  have "p < q \<longleftrightarrow> packedCoordToKeyBytes p < packedCoordToKeyBytes q"
    by (auto simp: packedCoordToKeyBytes_def appendPackedCoordBE_less)
  then show ?thesis by (simp add: lex_natOfBE packedCoordToKeyBytes_def)
qed

lemma bytesToPackedCoord_bytes: "bytesToPackedCoord b = Some p \<Longrightarrow> packedCoordToKeyBytes p = b"
proof -
  assume a: "bytesToPackedCoord b = Some p"
  then have l: "length b = 16" "p = PackedCoord (Uint64 (slice 8 16 b)) (Uint64 (slice 0 8 b))"
    by (auto simp: bytesToPackedCoord_def PackedCoordKeyLen_def binaryUint64BE_Uint64 split: if_splits)
  then show ?thesis
    using append_take_drop_id [of 8 b] by (simp add: packedCoordToKeyBytes_def appendPackedCoordBE_def Put_Uint)
      (simp add: slice_def)
qed

text \<open>The predecessor key: the largest packed coordinate below \<open>hi\<close>.\<close>

lemma packed_predecessor:
  assumes "packedKeyBytesDec (packedCoordToKeyBytes hi) = Some r" "bytesToPackedCoord r = Some m"
  shows "x \<le> m \<longleftrightarrow> x < hi"
proof -
  have "natOfBE (packedCoordToKeyBytes m) + 1 = natOfBE (packedCoordToKeyBytes hi)"
    using packedKeyBytesDec_spec(2) [OF assms(1)] bytesToPackedCoord_bytes [OF assms(2)] by simp
  then show ?thesis
    using packed_less_nat [of m x] packed_less_nat [of x hi] by (simp add: linorder_not_less [symmetric]) linarith
qed

text \<open>
  The second range covers every pair whose larger cell is \<open>hi\<close>, and holds only pairs whose
  smaller cell is below \<open>hi\<close>; it is absent only for the smallest cell, which has none.
\<close>

lemma SeamByCellsRangeHiFixedLoLess_cover:
  assumes "SeamByCellsRangeHiFixedLoLess hi = Some (from, to)"
    and "SeamByCellsKey ulidParse lo h u = Inr k" "minULIDKeySuffix \<le> u"
  shows "h = hi \<and> lo < hi \<Longrightarrow> from \<le> k \<and> k \<le> to"
    and "from \<le> k \<and> k \<le> to \<Longrightarrow> lo < hi"
proof -
  obtain r m where r: "packedKeyBytesDec (packedCoordToKeyBytes hi) = Some r" "bytesToPackedCoord r = Some m"
    and f: "from = cellsKey (zeroPacked, hi) @ minULIDKeySuffix" "to = cellsKey (m, hi) @ maxULIDKeySuffix"
    using assms(1) by (auto simp: SeamByCellsRangeHiFixedLoLess_def seamByCellsKeyRaw_cells split: option.splits)
  have k: "k = cellsKey (lo, h) @ u" and u: "length u = 26" using assms(2) by (simp_all add: SeamByCellsKey_cells)
  have z: "zeroPacked = lo \<or> zeroPacked < lo"
    by (auto simp: zeroPacked_def less_PackedCoord_def PackedCoord_eq_iff word_gt_0)
  note pred = packed_predecessor [OF r]
  show "h = hi \<and> lo < hi \<Longrightarrow> from \<le> k \<and> k \<le> to"
    using u assms(3) maxULIDKeySuffix_max [OF u] z pred [of lo]
    by (auto simp: f k cells_scan order.order_iff_strict [of lo m])
  show "from \<le> k \<and> k \<le> to \<Longrightarrow> lo < hi"
    using u pred [of lo] by (auto simp: f k cells_scan)
qed

lemma SeamByCellsRangeHiFixedLoLess_None:
  "SeamByCellsRangeHiFixedLoLess hi = None \<longleftrightarrow> hi = zeroPacked"
proof -
  have "bytesToPackedCoord r \<noteq> None" if "packedKeyBytesDec (packedCoordToKeyBytes hi) = Some r" for r
    using packedKeyBytesDec_spec(2) [OF that]
    by (simp add: bytesToPackedCoord_def PackedCoordKeyLen_def packedCoordToKeyBytes_def)
  then have "SeamByCellsRangeHiFixedLoLess hi = None \<longleftrightarrow> packedKeyBytesDec (packedCoordToKeyBytes hi) = None"
    by (auto simp: SeamByCellsRangeHiFixedLoLess_def split: option.splits)
  also have "\<dots> \<longleftrightarrow> hi = zeroPacked"
    unfolding packedKeyBytesDec_spec(1) natOfBE_packed
    by (auto simp: zeroPacked_def PackedCoord_eq_iff unat_eq_zero)
  finally show ?thesis .
qed

lemma ParseSeamByCellsKey_round:
  assumes "SeamByCellsKey ulidParse lo hi u = Inr k"
  shows "ParseSeamByCellsKey ulidParse k = Inr (lo, hi, u)"
proof -
  have k: "k = SeamByCellsPrefix @ appendPackedCoordBE [] lo @ slash # appendPackedCoordBE [] hi @ slash # u"
    and u: "ulidParse u \<noteq> None" "length u = 26"
    using assms by (auto simp: SeamByCellsKey_cells cellsKey_def appendPackedCoordBE_def)
  have p: "parsePackedCoordSegment (appendPackedCoordBE [] c) = Inr c" for c
    by (simp add: parsePackedCoordSegment_iff)
  show ?thesis
    using u p by (simp add: k ParseSeamByCellsKey_def PackedCoordKeyLen_def ULIDKeyLen_def Let_def nth_append)
qed

subsection \<open>Seams by week and by source\<close>

text \<open>ULID texts in the alphabet of the bounds, \<open>'0'\<close> to \<open>'Z'\<close>.\<close>

definition upperULID :: "bytes \<Rightarrow> bool" where
  "upperULID u \<longleftrightarrow> length u = 26 \<and> list_all (\<lambda>b. 0x30 \<le> b \<and> b \<le> 0x5A) u"

lemma replicate_bounds:
  "list_all (\<lambda>b. l \<le> b \<and> b \<le> (h :: byte)) u \<Longrightarrow> replicate (length u) l \<le> u \<and> u \<le> replicate (length u) h"
  by (induction u) (auto simp: le_less)

lemma upperULID_bounds: "upperULID u \<Longrightarrow> zeros26 \<le> u \<and> u \<le> zeds26"
  using replicate_bounds [of "0x30" "0x5A" u]
  by (simp add: upperULID_def zeros26_def zeds26_def ULIDStringLen_def)

lemma SeamTimeKey_iff:
  "SeamTimeKey ulidParse b u = Inr k \<longleftrightarrow> length u = 26 \<and> ulidParse u \<noteq> None \<and> k = seamTimeHead b @ u"
  by (auto simp: SeamTimeKey_def seamTimeHead_def ULIDStringLen_def)

lemma SeamTimeRange_exact:
  assumes "SeamTimeKey ulidParse c u = Inr k" "upperULID u"
  shows "fst (SeamTimeRangePrefix b) \<le> k \<and> k \<le> snd (SeamTimeRangePrefix b) \<longleftrightarrow> c = b"
  using assms seamtime.range_exact [where i = b and j = c and lo = zeros26 and b = u and hi = zeds26] upperULID_bounds [of u]
  by (simp add: SeamTimeRangePrefix_def SeamTimeKey_iff) (simp add: seamTimeHead_def)

lemma SeamTimeRangeAllVersions_exact:
  assumes "SeamTimeKeyWithVersion ulidParse c u s = Inr k" "upperULID u"
  shows "fst (SeamTimeRangePrefixAllVersions b) \<le> k \<and> k \<le> snd (SeamTimeRangePrefixAllVersions b) \<longleftrightarrow> c = b"
proof -
  have k: "k = seamTimeHead c @ u @ [slash] @ PutUint64 s" and u: "length u = 26" "zeros26 \<le> u" "u \<le> zeds26"
    using assms upperULID_bounds [of u] by (auto simp: SeamTimeKeyWithVersion_def bindR_eq_Inr SeamTimeKey_iff upperULID_def)
  have "zeros26 @ [slash] @ replicate VersionSuffixLen 0 \<le> u @ [slash] @ PutUint64 s"
    "u @ [slash] @ PutUint64 s \<le> zeds26 @ [slash] @ PutUint64 (- 1)"
    using u version_bounds [of s] word_order.extremum [of s]
    by (auto intro!: lex_append_mono simp: zeros26_def zeds26_def ULIDStringLen_def)
  from seamtime.range_exact [OF _ _ this, of b c] show ?thesis
    by (simp add: k SeamTimeRangePrefixAllVersions_def seamTimeHead_def)
qed

lemma ParseSeamTimeKey_round:
  assumes "SeamTimeKey ulidParse b u = Inr k"
  shows "ParseSeamTimeKey ulidParse k = Inr (b, u)"
proof -
  have k: "k = SeamTimePrefix @ PutUint64 b @ slash # u" and u: "length u = 26" "ulidParse u \<noteq> None"
    using assms by (simp_all add: SeamTimeKey_iff seamTimeHead_def)
  show ?thesis
    using u by (simp add: k ParseSeamTimeKey_def Let_def ULIDStringLen_def VersionSuffixLen_def nth_append)
qed

lemma ParseSeamTimeKeyWithVersion_round:
  assumes "SeamTimeKeyWithVersion ulidParse b u s = Inr k"
  shows "ParseSeamTimeKey ulidParse k = Inr (b, u)" "ParseSeamTimeCommitSeq k = Some s"
proof -
  have k: "k = SeamTimePrefix @ PutUint64 b @ slash # u @ slash # PutUint64 s"
    and u: "length u = 26" "ulidParse u \<noteq> None"
    using assms by (auto simp: SeamTimeKeyWithVersion_def bindR_eq_Inr SeamTimeKey_iff seamTimeHead_def)
  show "ParseSeamTimeKey ulidParse k = Inr (b, u)"
    using u by (simp add: k ParseSeamTimeKey_def Let_def ULIDStringLen_def VersionSuffixLen_def nth_append)
  show "ParseSeamTimeCommitSeq k = Some s"
    using u by (simp add: k ParseSeamTimeCommitSeq_def ULIDStringLen_def VersionSuffixLen_def nth_append)
qed

lemma SeamSourceKey_iff:
  "SeamSourceKey ulidParse s u = Inr k \<longleftrightarrow> length u = 26 \<and> ulidParse u \<noteq> None \<and>
     length s \<le> MaxSourceIDBytes \<and> k = framedHead SeamSourcePrefix s @ u"
  by (auto simp: SeamSourceKey_def framedHead_def ULIDStringLen_def MaxSourceIDBytes_def)

lemma SeamSourceRange_exact:
  assumes "SeamSourceRangePrefix s = Inr (from, to)" "SeamSourceKey ulidParse t u = Inr k" "upperULID u"
  shows "from \<le> k \<and> k \<le> to \<longleftrightarrow> t = s"
  using assms seamsrc.range_exact [where i = s and j = t and lo = zeros26 and b = u and hi = zeds26] upperULID_bounds [of u]
  by (auto simp: SeamSourceRangePrefix_def SeamSourceKey_iff Let_def framedHead_def split: if_splits)

lemma SeamSourceRangeAllVersions_exact:
  assumes "SeamSourceRangePrefixAllVersions s = Inr (from, to)"
    and "SeamSourceKeyWithVersion ulidParse t u q = Inr k" "upperULID u"
  shows "from \<le> k \<and> k \<le> to \<longleftrightarrow> t = s"
proof -
  have k: "k = framedHead SeamSourcePrefix t @ u @ [slash] @ PutUint64 q"
    and u: "length u = 26" "zeros26 \<le> u" "u \<le> zeds26" and t: "length t \<le> MaxSourceIDBytes"
    using assms upperULID_bounds [of u]
    by (auto simp: SeamSourceKeyWithVersion_def bindR_eq_Inr SeamSourceKey_iff upperULID_def)
  have s: "length s \<le> MaxSourceIDBytes"
    "from = framedHead SeamSourcePrefix s @ zeros26 @ [slash] @ replicate VersionSuffixLen 0"
    "to = framedHead SeamSourcePrefix s @ zeds26 @ [slash] @ PutUint64 (- 1)"
    using assms(1) by (auto simp: SeamSourceRangePrefixAllVersions_def Let_def framedHead_def split: if_splits)
  have "zeros26 @ [slash] @ replicate VersionSuffixLen 0 \<le> u @ [slash] @ PutUint64 q"
    "u @ [slash] @ PutUint64 q \<le> zeds26 @ [slash] @ PutUint64 (- 1)"
    using u version_bounds [of q] word_order.extremum [of q]
    by (auto intro!: lex_append_mono simp: zeros26_def zeds26_def ULIDStringLen_def)
  from seamsrc.range_exact [OF s(1) t this] show ?thesis by (simp add: k s)
qed

lemma ParseSeamSourceKey_round:
  assumes "SeamSourceKey ulidParse s u = Inr k"
  shows "ParseSeamSourceKey ulidParse k = Inr (s, u)"
proof -
  have k: "length s \<le> MaxSourceIDBytes" "k = framedHead SeamSourcePrefix s @ u" "length u = 26" "ulidParse u \<noteq> None"
    using assms by (simp_all add: SeamSourceKey_iff)
  have "unat (of_nat (length s) :: uint16) = length s"
    using k(1) by (simp add: unat_of_nat MaxSourceIDBytes_def)
  then show ?thesis
    using k by (auto simp: ParseSeamSourceKey_def framedHead_def Let_def ULIDStringLen_def)
qed

subsection \<open>Properties\<close>

text \<open>C30: scans of the source and tag indexes. The range of a source (or tag) contains
  exactly the keys of that source (or tag), also when one identifier is a prefix of another,
  and every key parses back to what it was built from.\<close>
theorem Source_Tag_scans:
  "(SourceRangePrefixAllVersions s = Inr (from, to) \<and> SourceKeyWithVersion t p q = Inr k \<longrightarrow>
      (from \<le> k \<and> k \<le> to \<longleftrightarrow> t = s) \<and> ParseSourceKeyWithSeq k = Inr (t, p, Some q)) \<and>
   (TagRangePrefixAllVersions s = Inr (lo, hi) \<and> TagKeyWithVersion t p q = Inr l \<longrightarrow>
      (lo \<le> l \<and> l \<le> hi \<longleftrightarrow> t = s) \<and> ParseTagKeyWithSeq l = Inr (t, p, Some q))"
proof (intro conjI impI; elim conjE)
  assume a: "SourceRangePrefixAllVersions s = Inr (from, to)" "SourceKeyWithVersion t p q = Inr k"
  show "from \<le> k \<and> k \<le> to \<longleftrightarrow> t = s" by (rule SourceRangeAllVersions_exact [OF a])
  show "ParseSourceKeyWithSeq k = Inr (t, p, Some q)" by (rule ParseSourceKeyWithSeq_round(2) [OF a(2)])
next
  assume a: "TagRangePrefixAllVersions s = Inr (lo, hi)" "TagKeyWithVersion t p q = Inr l"
  show "lo \<le> l \<and> l \<le> hi \<longleftrightarrow> t = s" by (rule TagRangeAllVersions_exact [OF a])
  show "ParseTagKeyWithSeq l = Inr (t, p, Some q)" by (rule ParseTagKeyWithSeq_round(2) [OF a(2)])
qed

theorem Source_Tag_scans_witness:
  "\<exists>k. SourceKeyWithVersion [97, 98] (PackedCoord 3 0) 4 = Inr k \<and>
     ParseSourceKeyWithSeq k = Inr ([97, 98], PackedCoord 3 0, Some 4)"
proof -
  obtain k where k: "SourceKeyWithVersion [97, 98] (PackedCoord 3 0) 4 = Inr k"
    using SourceKeyWithVersion_iff [of "[97, 98]" "PackedCoord 3 0" 4] by (simp add: MaxSourceIDBytes_def)
  obtain lo hi where r: "SourceRangePrefix [97] = Inr (lo, hi)"
    using SourceRangePrefix_iff [of "[97]"] by (simp add: MaxSourceIDBytes_def)
  then have "\<exists>lo hi. SourceRangePrefixAllVersions [97] = Inr (lo, hi)"
    by (simp add: SourceRangePrefixAllVersions_def)
  with k Source_Tag_scans [of "[97]" _ _ "[97, 98]" "PackedCoord 3 0" 4 k] show ?thesis by fast
qed

text \<open>the week index. A record valid from time n falls in the bucket n div (one week),
  rounded down also before 1970, and the range of a bucket contains exactly the keys of that
  bucket, at every version.\<close>
theorem Week_index:
  "(WeekBucketFromValidity v = Some b \<and> ValidFrom v = Some n \<longrightarrow> sint b = sint n div 604800000000000) \<and>
   (fst (TimeRangePrefixAllVersions b) \<le> TimeKeyWithVersion c p q \<and>
    TimeKeyWithVersion c p q \<le> snd (TimeRangePrefixAllVersions b) \<longleftrightarrow> c = b) \<and>
   ParseTimeKey (TimeKeyWithVersion c p q) = Inr (c, p)"
  using WeekBucket_floor TimeRangeAllVersions_exact ParseTimeKey_round(2) by blast

theorem Week_index_witness:
  "\<exists>b. WeekBucketFromValidity \<lparr>ValidFrom = Some (- 1), ValidTo = None\<rparr> = Some b \<and> sint b = - 1"
proof -
  have "\<exists>b. WeekBucketFromValidity \<lparr>ValidFrom = Some (- 1), ValidTo = None\<rparr> = Some b"
    by (simp add: WeekBucketFromValidity_def Let_def)
  then obtain b where "WeekBucketFromValidity \<lparr>ValidFrom = Some (- 1), ValidTo = None\<rparr> = Some b" ..
  with Week_index [of "\<lparr>ValidFrom = Some (- 1), ValidTo = None\<rparr>" b "- 1"] show ?thesis by simp
qed

text \<open>the seams of a cell pair. Scanning with a fixed lower cell finds exactly the seams
  stored under it; scanning with a fixed upper cell finds every seam whose lower cell is
  smaller, finds only seams with a smaller lower cell, and is refused only for the all-zero
  cell, which has no smaller one.\<close>
theorem SeamByCells_scans:
  assumes "SeamByCellsKey ulidParse lo hi u = Inr k" "minULIDKeySuffix \<le> u"
  shows "(lo \<le> hi \<longrightarrow>
      (fst (SeamByCellsRangeLoFixed c) \<le> k \<and> k \<le> snd (SeamByCellsRangeLoFixed c) \<longleftrightarrow> lo = c)) \<and>
    (case SeamByCellsRangeHiFixedLoLess c of
       None \<Rightarrow> c = zeroPacked
     | Some (from, to) \<Rightarrow>
         (hi = c \<and> lo < c \<longrightarrow> from \<le> k \<and> k \<le> to) \<and> (from \<le> k \<and> k \<le> to \<longrightarrow> lo < c))"
  using SeamByCellsRangeLoFixed_exact [OF assms] SeamByCellsRangeHiFixedLoLess_cover [OF _ assms]
    SeamByCellsRangeHiFixedLoLess_None [of c]
  by (auto split: option.splits)

theorem SeamByCells_scans_witness:
  "\<exists>k. SeamByCellsKey (\<lambda>s. if length s = 26 then Some (take 16 s) else None)
       (PackedCoord 1 0) (PackedCoord 2 0) (replicate 26 65) = Inr k \<and>
     fst (SeamByCellsRangeLoFixed (PackedCoord 1 0)) \<le> k \<and>
     k \<le> snd (SeamByCellsRangeLoFixed (PackedCoord 1 0))"
proof -
  let ?p = "\<lambda>s. if length s = 26 then Some (take 16 s) else (None :: bytes option)"
  have "\<exists>k. SeamByCellsKey ?p (PackedCoord 1 0) (PackedCoord 2 0) (replicate 26 65) = Inr k"
    by (simp add: SeamByCellsKey_def ULIDKeyLen_def Let_def)
  then obtain k where k: "SeamByCellsKey ?p (PackedCoord 1 0) (PackedCoord 2 0) (replicate 26 65) = Inr k" ..
  have m: "minULIDKeySuffix \<le> replicate 26 65"
    using replicate_bounds [of 48 65 "replicate 26 65"]
    by (simp add: minULIDKeySuffix_def ULIDKeyLen_def list_all_iff)
  show ?thesis
    using k SeamByCells_scans [OF k m, of "PackedCoord 1 0"] by (simp add: less_PackedCoord_def less_eq_PackedCoord_def)
qed

text \<open>C31: scans of the seam time and source indexes find exactly the seams of their bucket or
  source as long as the stored identifier is spelled with the digits and upper-case letters of
  the ULID alphabet.\<close>
theorem SeamSecondary_scans:
  assumes "upperULID u"
  shows "(SeamTimeKeyWithVersion ulidParse c u s = Inr k \<longrightarrow>
      (fst (SeamTimeRangePrefixAllVersions b) \<le> k \<and> k \<le> snd (SeamTimeRangePrefixAllVersions b) \<longleftrightarrow> c = b) \<and>
      ParseSeamTimeKey ulidParse k = Inr (c, u) \<and> ParseSeamTimeCommitSeq k = Some s) \<and>
    (SeamSourceRangePrefixAllVersions src = Inr (from, to) \<and> SeamSourceKeyWithVersion ulidParse t u q = Inr l \<longrightarrow>
      (from \<le> l \<and> l \<le> to \<longleftrightarrow> t = src))"
proof (intro conjI impI; (elim conjE)?)
  assume k: "SeamTimeKeyWithVersion ulidParse c u s = Inr k"
  show "fst (SeamTimeRangePrefixAllVersions b) \<le> k \<and> k \<le> snd (SeamTimeRangePrefixAllVersions b) \<longleftrightarrow> c = b"
    by (rule SeamTimeRangeAllVersions_exact [OF k assms])
  show "ParseSeamTimeKey ulidParse k = Inr (c, u)" "ParseSeamTimeCommitSeq k = Some s"
    using ParseSeamTimeKeyWithVersion_round [OF k] by simp_all
next
  assume a: "SeamSourceRangePrefixAllVersions src = Inr (from, to)"
    "SeamSourceKeyWithVersion ulidParse t u q = Inr l"
  show "from \<le> l \<and> l \<le> to \<longleftrightarrow> t = src"
    by (rule SeamSourceRangeAllVersions_exact [OF a assms])
qed

theorem SeamSecondary_scans_witness:
  "\<exists>k. SeamTimeKeyWithVersion (\<lambda>s. if length s = 26 then Some (take 16 s) else None) 5 (replicate 26 65) 9 = Inr k \<and>
     fst (SeamTimeRangePrefixAllVersions 5) \<le> k \<and> k \<le> snd (SeamTimeRangePrefixAllVersions 5)"
proof -
  let ?p = "\<lambda>s. if length s = 26 then Some (take 16 s) else (None :: bytes option)"
  have "\<exists>k. SeamTimeKeyWithVersion ?p 5 (replicate 26 65) 9 = Inr k"
    by (simp add: SeamTimeKeyWithVersion_def SeamTimeKey_def ULIDStringLen_def)
  then obtain k where k: "SeamTimeKeyWithVersion ?p 5 (replicate 26 65) 9 = Inr k" ..
  have u: "upperULID (replicate 26 65)" by (simp add: upperULID_def list_all_iff)
  show ?thesis using k SeamSecondary_scans [OF u, of ?p 5 9 k 5] by blast
qed

end
