(* ===== verification/PageFormat.thy ===== *)
theory PageFormat
  imports Prelude
begin

text \<open>
  The B+ tree page format: \<open>internal/engine/btree_page.go\<close>, the constants of
  \<open>const.go\<close> it uses, \<open>page_offset.go\<close>, \<open>errors.go\<close> and the size
  functions of \<open>btree.go\<close>. A page is a byte list of the page size; a builder lays the
  header, the entries and the zero rest of the page one after the other, which is where the code
  copies them. The theorems: what is built is what is parsed; building succeeds exactly when the
  sizes fit; and the two lookups that walk the raw bytes agree, on every byte string, with a
  lookup in the parsed page.
\<close>

subsection \<open>Errors and constants\<close>

datatype engine_error =
    ErrCorruptHeader string
  | ErrUnsupportedFormatVersion uint32
  | ErrCorruptWAL
  | ErrBadPageID
  | ErrBadPageSize
  | ErrInvalidPageSize uint32
  | ErrBadEncryptionKey
  | ErrPageAuthentication
  | ErrCorruptTree string
  | ErrKeyTooLarge
  | ErrValueTooLarge
  | ErrWriteTxnActive
  | ErrNoWriteTxn
  | ErrInvalidMaxValueBytes
  | ErrInvalidEmbeddingConfig
  | ErrDatabaseLocked
  | ErrFileLockUnsupported
  | EngineFailure string
  | OutOfFuel

text \<open>
  \<open>EngineFailure\<close> stands for the errors the code makes with \<open>fmt.Errorf\<close> and for
  panics, with their text; \<open>OutOfFuel\<close> is not an error of the code but the value of a loop
  whose step bound, chosen by the caller of the model, was too small.
\<close>

definition DefaultPageSize :: nat where "DefaultPageSize = 4 * 2 ^ 10"
definition LegacyPageSize :: nat where "LegacyPageSize = 64 * 2 ^ 10"

definition validPageSizes :: "uint32 list" where
  "validPageSizes = [4096, 8192, 16384, 65536]"

definition IsValidPageSize :: "uint32 \<Rightarrow> bool" where
  "IsValidPageSize ps = list_ex (\<lambda>v. ps = v) validPageSizes"

text \<open>\<open>resolvePageSize\<close>: \<open>None\<close> stands for nil options, the field's zero for unset.\<close>

definition resolvePageSize :: "uint32 option \<Rightarrow> engine_error + uint32" where
  "resolvePageSize opts =
     (case opts of None \<Rightarrow> Inr (of_nat DefaultPageSize)
      | Some ps \<Rightarrow>
        if ps = 0 then Inr (of_nat DefaultPageSize)
        else if \<not> IsValidPageSize ps then Inl (ErrInvalidPageSize ps)
        else Inr ps)"

definition btreeNodeMagic :: bytes where "btreeNodeMagic = ascii ''HXBT''"
definition btreeVersion :: byte where "btreeVersion = 1"
definition btreeKindLeaf :: byte where "btreeKindLeaf = 1"
definition btreeKindInternal :: byte where "btreeKindInternal = 2"
definition btreeHeaderSize :: nat where "btreeHeaderSize = 64"
definition maxKeyBytes :: nat where "maxKeyBytes = 256"

definition uint16FromInt :: "nat \<Rightarrow> string \<Rightarrow> engine_error + uint16" where
  "uint16FromInt n ctx = (if n > 65535 then Inl (ErrCorruptTree ctx) else Inr (of_nat n))"

record leafData =
  leafNext :: uint64
  leafParent :: uint64
  leafKeys :: "bytes list"
  leafVals :: "bytes list"

record internalData =
  inParent :: uint64
  inPtrs :: "uint64 list"
  inKeys :: "bytes list"

definition maxLeafEntriesForPage :: "nat \<Rightarrow> nat" where
  "maxLeafEntriesForPage pageSize = min ((pageSize - btreeHeaderSize) div 5) 65535"

definition maxInternalKeysForPage :: "nat \<Rightarrow> nat" where
  "maxInternalKeysForPage pageSize = min ((pageSize - btreeHeaderSize - 8) div 11) 65535"

definition u16at :: "bytes \<Rightarrow> nat \<Rightarrow> nat" where
  "u16at page off = unat (Uint16 (slice off (off + 2) page))"

subsection \<open>Leaf pages\<close>

text \<open>The entry loop from offset \<open>off\<close>: the decoded keys and values.\<close>

primrec parseLeafEntries :: "nat \<Rightarrow> bytes \<Rightarrow> nat \<Rightarrow> engine_error + bytes list \<times> bytes list" where
  "parseLeafEntries 0 page off = Inr ([], [])"
| "parseLeafEntries (Suc n) page off =
     (if off + 4 > length page then Inl (ErrCorruptTree ''leaf truncated'')
      else let kl = u16at page off; vl = u16at page (off + 2); off = off + 4
      in if kl > maxKeyBytes then Inl (ErrCorruptTree ''leaf key len'')
      else if off + kl + vl > length page then Inl (ErrCorruptTree ''leaf payload'')
      else let k = slice off (off + kl) page; off = off + kl;
               v = slice off (off + vl) page; off = off + vl
      in bindR (parseLeafEntries n page off) (\<lambda>(keys, vals). Inr (k # keys, v # vals)))"

definition parseLeafPage :: "bytes \<Rightarrow> engine_error + leafData" where
  "parseLeafPage page =
     (let pageSize = length page
      in if \<not> IsValidPageSize (of_nat pageSize) then Inl (ErrCorruptTree ''bad page len'')
      else if slice 0 4 page \<noteq> btreeNodeMagic then Inl (ErrCorruptTree ''leaf magic'')
      else if page ! 4 \<noteq> btreeVersion then Inl (ErrCorruptTree ''leaf version'')
      else if page ! 5 \<noteq> btreeKindLeaf then Inl (ErrCorruptTree ''not leaf'')
      else let n = u16at page 6
      in if n > maxLeafEntriesForPage pageSize then Inl (ErrCorruptTree ''leaf nkeys'')
      else let next = Uint64 (slice 8 16 page); parent = Uint64 (slice 16 24 page)
      in bindR (parseLeafEntries n page btreeHeaderSize) (\<lambda>(keys, vals).
           Inr \<lparr>leafNext = next, leafParent = parent, leafKeys = keys, leafVals = vals\<rparr>))"

primrec lookupLeafEntries ::
  "nat \<Rightarrow> bytes \<Rightarrow> bytes \<Rightarrow> nat \<Rightarrow> bytes option \<Rightarrow> engine_error + bytes option" where
  "lookupLeafEntries 0 page key off found = Inr found"
| "lookupLeafEntries (Suc n) page key off found =
     (if off + 4 > length page then Inl (ErrCorruptTree ''leaf truncated'')
      else let keyLen = u16at page off; valueLen = u16at page (off + 2); off = off + 4
      in if keyLen > maxKeyBytes then Inl (ErrCorruptTree ''leaf key len'')
      else if off + keyLen + valueLen > length page then Inl (ErrCorruptTree ''leaf payload'')
      else let storedKey = slice off (off + keyLen) page; off = off + keyLen;
               v = slice off (off + valueLen) page; off = off + valueLen;
               found = (if storedKey = key then Some v else found)
      in lookupLeafEntries n page key off found)"

definition lookupLeafValue :: "bytes \<Rightarrow> bytes \<Rightarrow> engine_error + bytes option" where
  "lookupLeafValue page key =
     (let pageSize = length page
      in if \<not> IsValidPageSize (of_nat pageSize) then Inl (ErrCorruptTree ''bad page len'')
      else if slice 0 4 page \<noteq> btreeNodeMagic then Inl (ErrCorruptTree ''leaf magic'')
      else if page ! 4 \<noteq> btreeVersion then Inl (ErrCorruptTree ''leaf version'')
      else if page ! 5 \<noteq> btreeKindLeaf then Inl (ErrCorruptTree ''not leaf'')
      else let n = u16at page 6
      in if n > maxLeafEntriesForPage pageSize then Inl (ErrCorruptTree ''leaf nkeys'')
      else lookupLeafEntries n page key btreeHeaderSize None)"

text \<open>
  The builder's entry loop yields the bytes it copies from offset \<open>off\<close> on.
\<close>

fun buildLeafEntries ::
  "nat \<Rightarrow> nat \<Rightarrow> bytes list \<Rightarrow> bytes list \<Rightarrow> engine_error + bytes" where
  "buildLeafEntries pageSize off (k # ks) (v # vs) =
     (if length k > maxKeyBytes then Inl ErrKeyTooLarge
      else if off + 4 + length k + length v > pageSize then Inl (ErrCorruptTree ''leaf page full'')
      else bindR (uint16FromInt (length k) ''key len'') (\<lambda>kl.
           bindR (uint16FromInt (length v) ''val len'') (\<lambda>vl.
           bindR (buildLeafEntries pageSize (off + 4 + length k + length v) ks vs) (\<lambda>rest.
             Inr (PutUint16 kl @ PutUint16 vl @ k @ v @ rest)))))"
| "buildLeafEntries pageSize off _ _ = Inr []"

definition buildLeafPage ::
  "nat \<Rightarrow> uint64 \<Rightarrow> uint64 \<Rightarrow> bytes list \<Rightarrow> bytes list \<Rightarrow> engine_error + bytes" where
  "buildLeafPage pageSize parent next keys vals =
     (if length keys \<noteq> length vals then Inl (ErrCorruptTree ''leaf kv mismatch'')
      else bindR (uint16FromInt (length keys) ''leaf nkeys'') (\<lambda>nk.
        let hdr = btreeNodeMagic @ [btreeVersion, btreeKindLeaf] @ PutUint16 nk @
                  PutUint64 next @ PutUint64 parent @ replicate (btreeHeaderSize - 24) 0
        in bindR (buildLeafEntries pageSize btreeHeaderSize keys vals) (\<lambda>body.
             Inr (hdr @ body @ replicate (pageSize - (btreeHeaderSize + length body)) 0))))"

subsection \<open>Internal pages\<close>

primrec parseInternalEntries ::
  "nat \<Rightarrow> bytes \<Rightarrow> nat \<Rightarrow> engine_error + bytes list \<times> uint64 list" where
  "parseInternalEntries 0 page off = Inr ([], [])"
| "parseInternalEntries (Suc n) page off =
     (if off + 2 > length page then Inl (ErrCorruptTree ''internal key len'')
      else let kl = u16at page off; off = off + 2
      in if kl > maxKeyBytes then Inl (ErrCorruptTree ''internal key'')
      else if off + kl + 8 > length page then Inl (ErrCorruptTree ''internal key data'')
      else let k = slice off (off + kl) page; off = off + kl;
               p = Uint64 (slice off (off + 8) page); off = off + 8
      in bindR (parseInternalEntries n page off) (\<lambda>(keys, ptrs). Inr (k # keys, p # ptrs)))"

definition parseInternalPage :: "bytes \<Rightarrow> engine_error + internalData" where
  "parseInternalPage page =
     (let pageSize = length page
      in if \<not> IsValidPageSize (of_nat pageSize) then Inl (ErrCorruptTree ''bad page len'')
      else if slice 0 4 page \<noteq> btreeNodeMagic then Inl (ErrCorruptTree ''internal magic'')
      else if page ! 4 \<noteq> btreeVersion then Inl (ErrCorruptTree ''internal version'')
      else if page ! 5 \<noteq> btreeKindInternal then Inl (ErrCorruptTree ''not internal'')
      else let n = u16at page 6
      in if n > maxInternalKeysForPage pageSize then Inl (ErrCorruptTree ''internal nkeys'')
      else let parent = Uint64 (slice 16 24 page); off = btreeHeaderSize
      in if off + 8 > length page then Inl (ErrCorruptTree ''internal ptr0'')
      else let ptr0 = Uint64 (slice off (off + 8) page); off = off + 8
      in bindR (parseInternalEntries n page off) (\<lambda>(keys, ptrs).
           Inr \<lparr>inParent = parent, inPtrs = ptr0 # ptrs, inKeys = keys\<rparr>))"

primrec lookupInternalEntries ::
  "nat \<Rightarrow> bytes \<Rightarrow> bytes \<Rightarrow> nat \<Rightarrow> uint64 \<Rightarrow> bool \<Rightarrow> engine_error + uint64" where
  "lookupInternalEntries 0 page key off child chooseRight = Inr child"
| "lookupInternalEntries (Suc n) page key off child chooseRight =
     (if off + 2 > length page then Inl (ErrCorruptTree ''internal key len'')
      else let keyLen = u16at page off; off = off + 2
      in if keyLen > maxKeyBytes then Inl (ErrCorruptTree ''internal key'')
      else if off + keyLen + 8 > length page then Inl (ErrCorruptTree ''internal key data'')
      else let separator = slice off (off + keyLen) page; off = off + keyLen;
               pointer = Uint64 (slice off (off + 8) page); off = off + 8
      in if chooseRight \<and> separator \<le> key
         then lookupInternalEntries n page key off pointer chooseRight
         else lookupInternalEntries n page key off child False)"

definition lookupInternalChild :: "bytes \<Rightarrow> bytes \<Rightarrow> engine_error + uint64" where
  "lookupInternalChild page key =
     (let pageSize = length page
      in if \<not> IsValidPageSize (of_nat pageSize) then Inl (ErrCorruptTree ''bad page len'')
      else if slice 0 4 page \<noteq> btreeNodeMagic then Inl (ErrCorruptTree ''internal magic'')
      else if page ! 4 \<noteq> btreeVersion then Inl (ErrCorruptTree ''internal version'')
      else if page ! 5 \<noteq> btreeKindInternal then Inl (ErrCorruptTree ''not internal'')
      else let n = u16at page 6
      in if n > maxInternalKeysForPage pageSize then Inl (ErrCorruptTree ''internal nkeys'')
      else let off = btreeHeaderSize
      in if off + 8 > length page then Inl (ErrCorruptTree ''internal ptr0'')
      else let child = Uint64 (slice off (off + 8) page); off = off + 8
      in lookupInternalEntries n page key off child True)"

fun buildInternalEntries ::
  "nat \<Rightarrow> nat \<Rightarrow> bytes list \<Rightarrow> uint64 list \<Rightarrow> engine_error + bytes" where
  "buildInternalEntries pageSize off (k # ks) (p # ps) =
     (if length k > maxKeyBytes then Inl ErrKeyTooLarge
      else if off + 2 + length k + 8 > pageSize then Inl (ErrCorruptTree ''internal page full'')
      else bindR (uint16FromInt (length k) ''internal key len'') (\<lambda>kl.
           bindR (buildInternalEntries pageSize (off + 2 + length k + 8) ks ps) (\<lambda>rest.
             Inr (PutUint16 kl @ k @ PutUint64 p @ rest))))"
| "buildInternalEntries pageSize off _ _ = Inr []"

definition buildInternalPage ::
  "nat \<Rightarrow> uint64 \<Rightarrow> uint64 list \<Rightarrow> bytes list \<Rightarrow> engine_error + bytes" where
  "buildInternalPage pageSize parent ptrs keys =
     (if length ptrs \<noteq> length keys + 1 then Inl (ErrCorruptTree ''internal ptr/key mismatch'')
      else bindR (uint16FromInt (length keys) ''internal nkeys'') (\<lambda>nk.
        let hdr = btreeNodeMagic @ [btreeVersion, btreeKindInternal] @ PutUint16 nk @
                  PutUint64 0 @ PutUint64 parent @ replicate (btreeHeaderSize - 24) 0 @
                  PutUint64 (hd ptrs)
        in bindR (buildInternalEntries pageSize (btreeHeaderSize + 8) keys (tl ptrs)) (\<lambda>body.
             Inr (hdr @ body @ replicate (pageSize - (btreeHeaderSize + 8 + length body)) 0))))"

subsection \<open>Searches and sizes\<close>

text \<open>\<open>sort.Search\<close>: the bisection of the standard library on \<open>[i, j)\<close>.\<close>

function sortSearchFrom :: "(nat \<Rightarrow> bool) \<Rightarrow> nat \<Rightarrow> nat \<Rightarrow> nat" where
  "sortSearchFrom f i j =
     (if i < j then
        (let h = (i + j) div 2
         in if \<not> f h then sortSearchFrom f (h + 1) j else sortSearchFrom f i h)
      else i)"
  by auto

termination
  by (relation "measure (\<lambda>(f, i, j). j - i)") auto

declare sortSearchFrom.simps [simp del]

definition sortSearch :: "nat \<Rightarrow> (nat \<Rightarrow> bool) \<Rightarrow> nat" where
  "sortSearch n f = sortSearchFrom f 0 n"

definition leafKeyIndex :: "bytes list \<Rightarrow> bytes \<Rightarrow> nat" where
  "leafKeyIndex keys key = sortSearch (length keys) (\<lambda>i. key \<le> keys ! i)"

definition internalPickChild :: "bytes list \<Rightarrow> bytes \<Rightarrow> nat" where
  "internalPickChild keys key = sortSearch (length keys) (\<lambda>j. key < keys ! j)"

fun leafEntriesSize :: "bytes list \<Rightarrow> bytes list \<Rightarrow> nat" where
  "leafEntriesSize (k # ks) (v # vs) = 4 + length k + length v + leafEntriesSize ks vs"
| "leafEntriesSize _ _ = 0"

definition leafSerializedSize :: "bytes list \<Rightarrow> bytes list \<Rightarrow> nat" where
  "leafSerializedSize keys vals = btreeHeaderSize + leafEntriesSize keys vals"

definition internalSerializedSize :: "bytes list \<Rightarrow> nat" where
  "internalSerializedSize keys = btreeHeaderSize + 8 + (\<Sum>k\<leftarrow>keys. 2 + length k + 8)"

subsection \<open>File offsets\<close>

text \<open>\<open>bits.Mul64\<close>: the high and low words of the 128-bit product.\<close>

definition pageByteOffset :: "uint64 \<Rightarrow> nat \<Rightarrow> nat \<Rightarrow> engine_error + int64" where
  "pageByteOffset pageID pageSize physicalPageSize =
     (if pageID = 0 then Inr 0
      else let m = unat (pageID - 1) * physicalPageSize; hi = m div 2 ^ 64; lo = m mod 2 ^ 64
      in if hi \<noteq> 0 \<or> lo > 2 ^ 63 - 1 then Inl ErrBadPageID
      else if lo > 2 ^ 63 - 1 - pageSize then Inl ErrBadPageID
      else Inr (of_nat (lo + pageSize)))"

subsection \<open>Bisection\<close>

lemma sortSearchFrom_spec:
  assumes "i \<le> j" "\<And>a b. i \<le> a \<Longrightarrow> a \<le> b \<Longrightarrow> b < j \<Longrightarrow> f a \<Longrightarrow> f b"
  shows "i \<le> sortSearchFrom f i j \<and> sortSearchFrom f i j \<le> j \<and>
    (\<forall>a. i \<le> a \<longrightarrow> a < sortSearchFrom f i j \<longrightarrow> \<not> f a) \<and>
    (\<forall>a. sortSearchFrom f i j \<le> a \<longrightarrow> a < j \<longrightarrow> f a)"
  using assms
proof (induction f i j rule: sortSearchFrom.induct)
  case (1 f i j)
  show ?case
  proof (cases "i < j")
    case True
    define h where "h = (i + j) div 2"
    have h: "i \<le> h" "h < j" using True by (auto simp: h_def)
    note mono = 1(4)
    show ?thesis
    proof (cases "f h")
      case fh: True
      have IH: "i \<le> sortSearchFrom f i h \<and> sortSearchFrom f i h \<le> h \<and>
          (\<forall>a. i \<le> a \<longrightarrow> a < sortSearchFrom f i h \<longrightarrow> \<not> f a) \<and>
          (\<forall>a. sortSearchFrom f i h \<le> a \<longrightarrow> a < h \<longrightarrow> f a)"
      proof (rule 1(2) [OF True h_def])
        show "f b" if "i \<le> a" "a \<le> b" "b < h" "f a" for a b
          using mono [OF that(1,2)] that(3,4) h(2) by simp
      qed (use fh h in auto)
      have up: "f a" if "h \<le> a" "a < j" for a using mono [OF h(1) that fh] .
      have eq: "sortSearchFrom f i j = sortSearchFrom f i h"
        using True fh by (subst sortSearchFrom.simps) (simp add: Let_def flip: h_def)
      show ?thesis
        unfolding eq
      proof (intro conjI allI impI)
        show "f a" if "sortSearchFrom f i h \<le> a" "a < j" for a
          using IH up that by (cases "a < h") auto
      qed (use IH h in auto)
    next
      case nf: False
      have IH: "h + 1 \<le> sortSearchFrom f (h + 1) j \<and> sortSearchFrom f (h + 1) j \<le> j \<and>
          (\<forall>a. h + 1 \<le> a \<longrightarrow> a < sortSearchFrom f (h + 1) j \<longrightarrow> \<not> f a) \<and>
          (\<forall>a. sortSearchFrom f (h + 1) j \<le> a \<longrightarrow> a < j \<longrightarrow> f a)"
      proof (rule 1(1) [OF True h_def])
        show "f b" if "h + 1 \<le> a" "a \<le> b" "b < j" "f a" for a b
          using mono [of a b] that h(1) by simp
      qed (use nf h in auto)
      have down: "\<not> f a" if "i \<le> a" "a \<le> h" for a using mono [OF that h(2)] nf by blast
      have eq: "sortSearchFrom f i j = sortSearchFrom f (h + 1) j"
        using True nf by (subst sortSearchFrom.simps) (simp add: Let_def flip: h_def)
      have low: "\<not> f a" if "i \<le> a" "a < sortSearchFrom f (h + 1) j" for a
        using IH down [OF that(1)] that(2) by (cases "a \<le> h") auto
      show ?thesis
        unfolding eq
      proof (intro conjI allI impI)
        show "\<not> f a" if "i \<le> a" "a < sortSearchFrom f (h + 1) j" for a using low that .
      qed (use IH h in auto)
    qed
  next
    case False
    then have "sortSearchFrom f i j = i" by (subst sortSearchFrom.simps) simp
    then show ?thesis using False 1(3) by auto
  qed
qed

lemma sortSearch_takeWhile:
  assumes "\<And>a b. a \<le> b \<Longrightarrow> b < length xs \<Longrightarrow> P (xs ! b) \<Longrightarrow> P (xs ! a)"
  shows "sortSearch (length xs) (\<lambda>i. \<not> P (xs ! i)) = length (takeWhile P xs)"
proof -
  let ?r = "sortSearch (length xs) (\<lambda>i. \<not> P (xs ! i))"
  have "0 \<le> ?r \<and> ?r \<le> length xs \<and>
    (\<forall>a. 0 \<le> a \<longrightarrow> a < ?r \<longrightarrow> \<not> \<not> P (xs ! a)) \<and>
    (\<forall>a. ?r \<le> a \<longrightarrow> a < length xs \<longrightarrow> \<not> P (xs ! a))"
    unfolding sortSearch_def by (rule sortSearchFrom_spec) (use assms in blast)+
  then have r: "?r \<le> length xs" "\<And>a. a < ?r \<Longrightarrow> P (xs ! a)" "\<And>a. ?r \<le> a \<Longrightarrow> a < length xs \<Longrightarrow> \<not> P (xs ! a)"
    by blast+
  have "takeWhile P xs = take ?r xs"
    by (rule takeWhile_eq_take_P_nth) (use r(2,3) in blast)+
  then show ?thesis using r(1) by (metis length_take min.absorb2)
qed

lemma leafKeyIndex_takeWhile:
  assumes "sorted keys"
  shows "leafKeyIndex keys key = length (takeWhile (\<lambda>k. k < key) keys)"
proof -
  have "keys ! a < key" if "a \<le> b" "b < length keys" "keys ! b < key" for a b
    using sorted_nth_mono [OF assms that(1,2)] that(3) by (rule le_less_trans)
  from sortSearch_takeWhile [of keys "\<lambda>k. k < key", OF this] show ?thesis
    by (simp only: leafKeyIndex_def not_less)
qed

lemma internalPickChild_takeWhile:
  assumes "sorted keys"
  shows "internalPickChild keys key = length (takeWhile (\<lambda>k. k \<le> key) keys)"
proof -
  have "keys ! a \<le> key" if "a \<le> b" "b < length keys" "keys ! b \<le> key" for a b
    using sorted_nth_mono [OF assms that(1,2)] that(3) by (rule order_trans)
  from sortSearch_takeWhile [of keys "\<lambda>k. k \<le> key", OF this] show ?thesis
    by (simp only: internalPickChild_def not_le)
qed

subsection \<open>Lookups on raw pages\<close>

definition lastMatch :: "bytes \<Rightarrow> bytes list \<Rightarrow> bytes list \<Rightarrow> bytes option \<Rightarrow> bytes option" where
  "lastMatch key ks vs found = fold (\<lambda>(k, v) f. if k = key then Some v else f) (zip ks vs) found"

lemma lookupLeafEntries_parse:
  "lookupLeafEntries n page key off found =
     bindR (parseLeafEntries n page off) (\<lambda>(ks, vs). Inr (lastMatch key ks vs found))"
proof (induction n arbitrary: off found)
  case (Suc n)
  show ?case
    by (cases "parseLeafEntries n page (off + 4 + u16at page off + u16at page (off + 2))")
      (auto simp: Let_def Suc.IH lastMatch_def)
qed (simp add: lastMatch_def)

lemma lookupLeafValue_parse:
  "lookupLeafValue page key =
     bindR (parseLeafPage page) (\<lambda>ld. Inr (lastMatch key (leafKeys ld) (leafVals ld) None))"
  by (cases "parseLeafEntries (u16at page 6) page btreeHeaderSize")
    (auto simp: lookupLeafValue_def parseLeafPage_def Let_def lookupLeafEntries_parse)

lemma lastMatch_rev: "lastMatch key ks vs None = map_of (rev (zip ks vs)) key"
proof -
  have "fold (\<lambda>(k, v) f. if k = key then Some v else f) kvs found =
      (case map_of (rev kvs) key of None \<Rightarrow> found | Some v \<Rightarrow> Some v)"
    for kvs and found :: "bytes option"
    by (induction kvs arbitrary: found) (auto simp: map_add_def split: option.splits)
  then show ?thesis by (simp add: lastMatch_def split: option.split)
qed

lemma lastMatch_distinct:
  assumes "distinct ks" "length ks = length vs"
  shows "lastMatch key ks vs None = map_of (zip ks vs) key"
proof -
  have keep: "key \<notin> set ks \<Longrightarrow> fold (\<lambda>(k, v) f. if k = key then Some v else f) (zip ks vs) found = found"
    for ks vs and found :: "bytes option"
    by (induction ks arbitrary: vs) (auto simp: zip_Cons1 split: list.splits)
  show ?thesis
    unfolding lastMatch_def using assms
    by (induction ks vs rule: list_induct2') (auto simp: keep)
qed

definition pickPtr :: "bytes \<Rightarrow> bytes list \<Rightarrow> uint64 list \<Rightarrow> uint64" where
  "pickPtr key ks ps = ps ! length (takeWhile (\<lambda>k. k \<le> key) ks)"

lemma lookupInternalEntries_stop:
  "lookupInternalEntries n page key off child False =
     bindR (parseInternalEntries n page off) (\<lambda>_. Inr child)"
proof (induction n arbitrary: off)
  case (Suc n)
  show ?case
    by (cases "parseInternalEntries n page (off + 2 + u16at page off + 8)") (auto simp: Let_def Suc.IH)
qed simp

lemma lookupInternalEntries_parse:
  "lookupInternalEntries n page key off child True =
     bindR (parseInternalEntries n page off) (\<lambda>(ks, ps). Inr (pickPtr key ks (child # ps)))"
proof (induction n arbitrary: off child)
  case (Suc n)
  show ?case
    by (cases "parseInternalEntries n page (off + 2 + u16at page off + 8)")
      (auto simp: Let_def Suc.IH lookupInternalEntries_stop pickPtr_def)
qed (simp add: pickPtr_def)

lemma lookupInternalChild_parse:
  "lookupInternalChild page key =
     bindR (parseInternalPage page) (\<lambda>ind. Inr (pickPtr key (inKeys ind) (inPtrs ind)))"
  by (cases "parseInternalEntries (u16at page 6) page (btreeHeaderSize + 8)")
    (auto simp: lookupInternalChild_def parseInternalPage_def Let_def lookupInternalEntries_parse)

subsection \<open>What is built is what is parsed\<close>

definition leafBody :: "bytes list \<Rightarrow> bytes list \<Rightarrow> bytes" where
  "leafBody ks vs =
     concat (map2 (\<lambda>k v. PutUint16 (of_nat (length k)) @ PutUint16 (of_nat (length v)) @ k @ v) ks vs)"

definition internalBody :: "bytes list \<Rightarrow> uint64 list \<Rightarrow> bytes" where
  "internalBody ks ps = concat (map2 (\<lambda>k p. PutUint16 (of_nat (length k)) @ k @ PutUint64 p) ks ps)"

definition keysFit :: "bytes list \<Rightarrow> bool" where
  "keysFit ks \<longleftrightarrow> (\<forall>k \<in> set ks. length k \<le> maxKeyBytes)"

definition valsFit :: "bytes list \<Rightarrow> bool" where
  "valsFit vs \<longleftrightarrow> (\<forall>v \<in> set vs. length v \<le> 65535)"

lemma leafBody_Cons [simp]:
  "leafBody (k # ks) (v # vs) =
     PutUint16 (of_nat (length k)) @ PutUint16 (of_nat (length v)) @ k @ v @ leafBody ks vs"
  by (simp add: leafBody_def)

lemma internalBody_Cons [simp]:
  "internalBody (k # ks) (p # ps) = PutUint16 (of_nat (length k)) @ k @ PutUint64 p @ internalBody ks ps"
  by (simp add: internalBody_def)

lemma bodies_Nil [simp]: "leafBody [] vs = []" "internalBody [] ps = []"
  by (simp_all add: leafBody_def internalBody_def)

lemma fits_simps [simp]:
  "keysFit []" "keysFit (k # ks) \<longleftrightarrow> length k \<le> maxKeyBytes \<and> keysFit ks"
  "valsFit []" "valsFit (v # vs) \<longleftrightarrow> length v \<le> 65535 \<and> valsFit vs"
  by (simp_all add: keysFit_def valsFit_def)

lemma length_leafBody: "length ks = length vs \<Longrightarrow> length (leafBody ks vs) = leafEntriesSize ks vs"
  by (induction ks vs rule: list_induct2) simp_all

lemma length_internalBody:
  "length ks = length ps \<Longrightarrow> length (internalBody ks ps) = (\<Sum>k\<leftarrow>ks. 2 + length k + 8)"
  by (induction ks ps rule: list_induct2) simp_all

lemma uint16FromInt_iff: "uint16FromInt n c = Inr x \<longleftrightarrow> n \<le> 65535 \<and> x = of_nat n"
  by (auto simp: uint16FromInt_def)

lemma buildLeafEntries_iff:
  assumes "length ks = length vs" "off \<le> ps"
  shows "buildLeafEntries ps off ks vs = Inr body \<longleftrightarrow>
    keysFit ks \<and> valsFit vs \<and> off + leafEntriesSize ks vs \<le> ps \<and> body = leafBody ks vs"
  using assms
proof (induction ks vs arbitrary: off body rule: list_induct2)
  case (Cons k ks v vs)
  show ?case
  proof (cases "off + 4 + length k + length v \<le> ps")
    case True
    then have "buildLeafEntries ps off (k # ks) (v # vs) = Inr body \<longleftrightarrow>
        length k \<le> maxKeyBytes \<and> length v \<le> 65535 \<and>
        (\<exists>rest. buildLeafEntries ps (off + 4 + length k + length v) ks vs = Inr rest \<and>
          body = PutUint16 (of_nat (length k)) @ PutUint16 (of_nat (length v)) @ k @ v @ rest)"
      by (auto simp: bindR_eq_Inr uint16FromInt_iff maxKeyBytes_def)
    also have "\<dots> \<longleftrightarrow> length k \<le> maxKeyBytes \<and> length v \<le> 65535 \<and> keysFit ks \<and> valsFit vs \<and>
        off + 4 + length k + length v + leafEntriesSize ks vs \<le> ps \<and> body = leafBody (k # ks) (v # vs)"
      unfolding Cons.IH [OF True] by auto
    finally show ?thesis by (simp add: add.assoc add.left_commute conj_ac)
  next
    case False
    then show ?thesis by auto
  qed
next
  case Nil
  then show ?case by auto
qed

lemma buildInternalEntries_iff:
  assumes "length ks = length ptrs" "off \<le> ps"
  shows "buildInternalEntries ps off ks ptrs = Inr body \<longleftrightarrow>
    keysFit ks \<and> off + (\<Sum>k\<leftarrow>ks. 2 + length k + 8) \<le> ps \<and> body = internalBody ks ptrs"
  using assms
proof (induction ks ptrs arbitrary: off body rule: list_induct2)
  case (Cons k ks p ptrs)
  show ?case
  proof (cases "off + 2 + length k + 8 \<le> ps")
    case True
    then have "buildInternalEntries ps off (k # ks) (p # ptrs) = Inr body \<longleftrightarrow>
        length k \<le> maxKeyBytes \<and>
        (\<exists>rest. buildInternalEntries ps (off + 2 + length k + 8) ks ptrs = Inr rest \<and>
          body = PutUint16 (of_nat (length k)) @ k @ PutUint64 p @ rest)"
      by (auto simp: bindR_eq_Inr uint16FromInt_iff maxKeyBytes_def)
    also have "\<dots> \<longleftrightarrow> length k \<le> maxKeyBytes \<and> keysFit ks \<and>
        off + 2 + length k + 8 + (\<Sum>k\<leftarrow>ks. 2 + length k + 8) \<le> ps \<and> body = internalBody (k # ks) (p # ptrs)"
      unfolding Cons.IH [OF True] by auto
    finally show ?thesis by (simp add: add.assoc add.left_commute conj_ac)
  next
    case False
    then show ?thesis by auto
  qed
next
  case Nil
  then show ?case by auto
qed

lemma slice_mid: "slice (length a) (length a + length b) (a @ b @ c) = b"
  by (simp add: slice_def)

lemma slice_at: "off = length a \<Longrightarrow> n = off + length b \<Longrightarrow> slice off n (a @ b @ c) = b"
  by (simp add: slice_mid)

lemma u16at_mid: "off = length a \<Longrightarrow> u16at (a @ PutUint16 x @ c) off = unat x"
  using slice_mid [of a "PutUint16 x" c] by (simp add: u16at_def)

lemma unat_length16: "n \<le> 65535 \<Longrightarrow> unat (of_nat n :: uint16) = n"
  by (simp add: unat_of_nat take_bit_nat_eq_self)

lemma parseLeafEntries_body:
  assumes "length ks = length vs" "keysFit ks" "valsFit vs"
  shows "parseLeafEntries (length ks) (pre @ leafBody ks vs @ rest) (length pre) = Inr (ks, vs)"
  using assms
proof (induction ks vs arbitrary: pre rule: list_induct2)
  case (Cons k ks v vs)
  let ?a = "PutUint16 (of_nat (length k))" and ?b = "PutUint16 (of_nat (length v))"
  define page where page: "page = pre @ leafBody (k # ks) (v # vs) @ rest"
  have l: "length k \<le> 65535" "length v \<le> 65535" "length k \<le> maxKeyBytes"
    using Cons.prems by (auto simp: maxKeyBytes_def)
  have kl: "u16at page (length pre) = length k"
    using u16at_mid [of "length pre" pre "of_nat (length k)"] l by (simp add: page unat_length16)
  have vl: "u16at page (length pre + 2) = length v"
    using u16at_mid [of "length pre + 2" "pre @ ?a" "of_nat (length v)"] l by (simp add: page unat_length16)
  have k: "slice (length pre + 4) (length pre + 4 + length k) page = k"
    using slice_at [of "length pre + 4" "pre @ ?a @ ?b" _ k] by (simp add: page)
  have v: "slice (length pre + 4 + length k) (length pre + 4 + length k + length v) page = v"
    using slice_at [of "length pre + 4 + length k" "pre @ ?a @ ?b @ k" _ v] by (simp add: page)
  have "parseLeafEntries (length ks) page (length pre + 4 + length k + length v) = Inr (ks, vs)"
  proof -
    have "page = (pre @ ?a @ ?b @ k @ v) @ leafBody ks vs @ rest"
      "length pre + 4 + length k + length v = length (pre @ ?a @ ?b @ k @ v)"
      by (simp_all add: page)
    then show ?thesis using Cons.IH [of "pre @ ?a @ ?b @ k @ v"] Cons.prems by (simp only: fits_simps)
  qed
  moreover have "length page = length pre + 4 + length k + length v + length (leafBody ks vs @ rest)"
    by (simp add: page)
  ultimately show ?case
    unfolding page [symmetric] using l by (simp add: Let_def kl vl k v del: add_2_eq_Suc add_2_eq_Suc')
qed simp

lemma parseInternalEntries_body:
  assumes "length ks = length ptrs" "keysFit ks"
  shows "parseInternalEntries (length ks) (pre @ internalBody ks ptrs @ rest) (length pre) = Inr (ks, ptrs)"
  using assms
proof (induction ks ptrs arbitrary: pre rule: list_induct2)
  case (Cons k ks p ptrs)
  let ?a = "PutUint16 (of_nat (length k))"
  define page where page: "page = pre @ internalBody (k # ks) (p # ptrs) @ rest"
  have l: "length k \<le> 65535" "length k \<le> maxKeyBytes"
    using Cons.prems by (auto simp: maxKeyBytes_def)
  have kl: "u16at page (length pre) = length k"
    using u16at_mid [of "length pre" pre "of_nat (length k)"] l by (simp add: page unat_length16)
  have k: "slice (length pre + 2) (length pre + 2 + length k) page = k"
    using slice_at [of "length pre + 2" "pre @ ?a" _ k] by (simp add: page)
  have p: "slice (length pre + 2 + length k) (length pre + 2 + length k + 8) page = PutUint64 p"
    using slice_at [of "length pre + 2 + length k" "pre @ ?a @ k" _ "PutUint64 p"] by (simp add: page)
  have "parseInternalEntries (length ks) page (length pre + 2 + length k + 8) = Inr (ks, ptrs)"
  proof -
    have "page = (pre @ ?a @ k @ PutUint64 p) @ internalBody ks ptrs @ rest"
      "length pre + 2 + length k + 8 = length (pre @ ?a @ k @ PutUint64 p)"
      by (simp_all add: page)
    then show ?thesis using Cons.IH [of "pre @ ?a @ k @ PutUint64 p"] Cons.prems by (simp only: fits_simps)
  qed
  moreover have "\<not> length page < length pre + 2" "\<not> length page < length pre + 2 + length k + 8"
    "\<not> maxKeyBytes < length k"
    using l by (simp_all add: page)
  ultimately show ?case
    unfolding page [symmetric]
    by (simp only: list.size add_Suc_right add_0_right One_nat_def parseInternalEntries.simps Let_def kl k p
        if_False bindR_Inr prod.case Uint_Put simp_thms)
qed simp

lemma validPageSize_cases:
  assumes "IsValidPageSize (of_nat ps)" "ps < 2 ^ 32"
  shows "ps \<in> {4096, 8192, 16384, 65536}"
proof -
  have "ps = n" if "(of_nat ps :: uint32) = of_nat n" "n < 2 ^ 32" for n
    using arg_cong [OF that(1), of unat] assms(2) that(2)
    by (simp add: unat_of_nat take_bit_nat_eq_self)
  from this [of 4096] this [of 8192] this [of 16384] this [of 65536] assms(1) show ?thesis
    by (auto simp: IsValidPageSize_def validPageSizes_def)
qed

definition nodeHeader :: "byte \<Rightarrow> nat \<Rightarrow> uint64 \<Rightarrow> uint64 \<Rightarrow> bytes" where
  "nodeHeader kind n next parent = btreeNodeMagic @ [btreeVersion, kind] @ PutUint16 (of_nat n) @
     PutUint64 next @ PutUint64 parent @ replicate (btreeHeaderSize - 24) 0"

lemma length_nodeHeader [simp]: "length (nodeHeader kind n next parent) = btreeHeaderSize"
  by (simp add: nodeHeader_def btreeNodeMagic_def btreeHeaderSize_def)

lemma nodeHeader_fields:
  assumes "n \<le> 65535"
  shows "slice 0 4 (nodeHeader kind n next parent @ r) = btreeNodeMagic"
    and "(nodeHeader kind n next parent @ r) ! 4 = btreeVersion"
    and "(nodeHeader kind n next parent @ r) ! 5 = kind"
    and "u16at (nodeHeader kind n next parent @ r) 6 = n"
    and "Uint64 (slice 8 16 (nodeHeader kind n next parent @ r)) = next"
    and "Uint64 (slice 16 24 (nodeHeader kind n next parent @ r)) = parent"
proof -
  let ?z = "replicate (btreeHeaderSize - 24) 0"
  have m: "length btreeNodeMagic = 4" by (simp add: btreeNodeMagic_def)
  show "slice 0 4 (nodeHeader kind n next parent @ r) = btreeNodeMagic"
    by (simp add: nodeHeader_def slice_def m)
  show "(nodeHeader kind n next parent @ r) ! 4 = btreeVersion"
    "(nodeHeader kind n next parent @ r) ! 5 = kind"
    by (simp_all add: nodeHeader_def nth_append m)
  show "u16at (nodeHeader kind n next parent @ r) 6 = n"
    using u16at_mid [of 6 "btreeNodeMagic @ [btreeVersion, kind]" "of_nat n"
        "PutUint64 next @ PutUint64 parent @ ?z @ r"] assms
    by (simp add: nodeHeader_def m unat_length16)
  show "Uint64 (slice 8 16 (nodeHeader kind n next parent @ r)) = next"
    using slice_at [of 8 "btreeNodeMagic @ [btreeVersion, kind] @ PutUint16 (of_nat n)" 16
        "PutUint64 next" "PutUint64 parent @ ?z @ r"]
    by (simp add: nodeHeader_def m)
  show "Uint64 (slice 16 24 (nodeHeader kind n next parent @ r)) = parent"
    using slice_at [of 16 "btreeNodeMagic @ [btreeVersion, kind] @ PutUint16 (of_nat n) @ PutUint64 next" 24
        "PutUint64 parent" "?z @ r"]
    by (simp add: nodeHeader_def m)
qed

definition leafFits :: "nat \<Rightarrow> bytes list \<Rightarrow> bytes list \<Rightarrow> bool" where
  "leafFits ps ks vs \<longleftrightarrow> length ks = length vs \<and> length ks \<le> 65535 \<and> keysFit ks \<and> valsFit vs \<and>
     leafSerializedSize ks vs \<le> ps"

definition internalFits :: "nat \<Rightarrow> uint64 list \<Rightarrow> bytes list \<Rightarrow> bool" where
  "internalFits ps ptrs ks \<longleftrightarrow> length ptrs = length ks + 1 \<and> length ks \<le> 65535 \<and> keysFit ks \<and>
     internalSerializedSize ks \<le> ps"

lemma buildLeafPage_iff:
  assumes "btreeHeaderSize \<le> ps"
  shows "buildLeafPage ps parent next ks vs = Inr page \<longleftrightarrow> leafFits ps ks vs \<and>
    page = nodeHeader btreeKindLeaf (length ks) next parent @ leafBody ks vs @
           replicate (ps - leafSerializedSize ks vs) 0"
proof (cases "length ks = length vs")
  case True
  show ?thesis
    using True buildLeafEntries_iff [OF True assms]
    by (auto simp: buildLeafPage_def bindR_eq_Inr uint16FromInt_iff leafFits_def leafSerializedSize_def
        nodeHeader_def length_leafBody Let_def)
qed (simp add: buildLeafPage_def leafFits_def)

lemma buildInternalPage_iff:
  assumes "btreeHeaderSize + 8 \<le> ps"
  shows "buildInternalPage ps parent ptrs ks = Inr page \<longleftrightarrow> internalFits ps ptrs ks \<and>
    page = nodeHeader btreeKindInternal (length ks) 0 parent @ PutUint64 (hd ptrs) @
           internalBody ks (tl ptrs) @ replicate (ps - internalSerializedSize ks) 0"
proof (cases "length ptrs = length ks + 1")
  case True
  then have "length ks = length (tl ptrs)" by simp
  from buildInternalEntries_iff [OF this assms] length_internalBody [OF this] True show ?thesis
    by (auto simp: buildInternalPage_def bindR_eq_Inr uint16FromInt_iff internalFits_def
        internalSerializedSize_def nodeHeader_def Let_def)
qed (simp add: buildInternalPage_def internalFits_def)

lemma leafEntriesSize_count:
  assumes "distinct ks" "length ks = length vs"
  shows "5 * length ks \<le> leafEntriesSize ks vs + (if [] \<in> set ks then 1 else 0)"
  using assms(2,1)
proof (induction ks vs rule: list_induct2)
  case (Cons k ks v vs)
  then show ?case by (cases k) auto
qed simp

lemma leafFits_count:
  assumes "leafFits ps ks vs" "distinct ks" "ps \<in> {4096, 8192, 16384, 65536}"
  shows "length ks \<le> maxLeafEntriesForPage ps"
proof -
  have "5 * length ks \<le> leafEntriesSize ks vs + 1"
    using leafEntriesSize_count [OF assms(2), of vs] assms(1) by (simp add: leafFits_def split: if_splits)
  moreover have "64 + leafEntriesSize ks vs \<le> ps" "length ks \<le> 65535"
    using assms(1) by (auto simp: leafFits_def leafSerializedSize_def btreeHeaderSize_def)
  ultimately show ?thesis
    using assms(3) by (auto simp: maxLeafEntriesForPage_def btreeHeaderSize_def)
qed

lemma internalFits_count:
  assumes "internalFits ps ptrs ks" "[] \<notin> set ks"
  shows "length ks \<le> maxInternalKeysForPage ps"
proof -
  have "11 * length ks \<le> (\<Sum>k\<leftarrow>ks. 2 + length k + 8)"
    using assms(2)
  proof (induction ks)
    case (Cons k ks)
    then show ?case by (cases k) auto
  qed simp
  then show ?thesis
    using assms(1)
    by (auto simp: internalFits_def internalSerializedSize_def maxInternalKeysForPage_def)
qed

lemma leaf_page_parses:
  assumes "leafFits ps ks vs" "ps \<in> {4096, 8192, 16384, 65536}" "length ks \<le> maxLeafEntriesForPage ps"
    and page: "page = nodeHeader btreeKindLeaf (length ks) next parent @ leafBody ks vs @
           replicate (ps - leafSerializedSize ks vs) 0"
  shows "length page = ps"
    and "parseLeafPage page = Inr \<lparr>leafNext = next, leafParent = parent, leafKeys = ks, leafVals = vs\<rparr>"
proof -
  show len: "length page = ps"
    using assms(1) by (simp add: page leafFits_def leafSerializedSize_def length_leafBody)
  have n: "length ks \<le> 65535" and kv: "length ks = length vs" "keysFit ks" "valsFit vs"
    using assms(1) by (auto simp: leafFits_def)
  have "parseLeafEntries (length ks) page btreeHeaderSize = Inr (ks, vs)"
    using parseLeafEntries_body [OF kv, of "nodeHeader btreeKindLeaf (length ks) next parent"]
    by (simp add: page)
  moreover have "IsValidPageSize (of_nat ps)"
    using assms(2) by (auto simp: IsValidPageSize_def validPageSizes_def)
  moreover note nodeHeader_fields [OF n, of btreeKindLeaf "next" parent, where
      r = "leafBody ks vs @ replicate (ps - leafSerializedSize ks vs) 0", folded page]
  ultimately show "parseLeafPage page =
      Inr \<lparr>leafNext = next, leafParent = parent, leafKeys = ks, leafVals = vs\<rparr>"
    using assms(3) by (simp add: parseLeafPage_def len Let_def)
qed

lemma internal_page_parses:
  assumes "internalFits ps ptrs ks" "ps \<in> {4096, 8192, 16384, 65536}" "length ks \<le> maxInternalKeysForPage ps"
    and page: "page = nodeHeader btreeKindInternal (length ks) 0 parent @ PutUint64 (hd ptrs) @
           internalBody ks (tl ptrs) @ replicate (ps - internalSerializedSize ks) 0"
  shows "length page = ps"
    and "parseInternalPage page = Inr \<lparr>inParent = parent, inPtrs = ptrs, inKeys = ks\<rparr>"
proof -
  have kp: "length ks = length (tl ptrs)" "keysFit ks" and n: "length ks \<le> 65535"
    and ptrs: "ptrs = hd ptrs # tl ptrs"
    using assms(1) by (auto simp: internalFits_def) (cases ptrs; simp)
  show len: "length page = ps"
    using assms(1) by (simp add: page internalFits_def internalSerializedSize_def length_internalBody [OF kp(1)])
  let ?h = "nodeHeader btreeKindInternal (length ks) 0 parent"
  have "parseInternalEntries (length ks) page (btreeHeaderSize + 8) = Inr (ks, tl ptrs)"
    using parseInternalEntries_body [OF kp, of "?h @ PutUint64 (hd ptrs)"] by (simp add: page)
  moreover have "slice btreeHeaderSize (btreeHeaderSize + 8) page = PutUint64 (hd ptrs)"
    unfolding page by (rule slice_at) simp_all
  moreover have "\<not> length page < btreeHeaderSize + 8"
    using assms(2) by (auto simp: len btreeHeaderSize_def)
  moreover have "IsValidPageSize (of_nat ps)"
    using assms(2) by (auto simp: IsValidPageSize_def validPageSizes_def)
  moreover note nodeHeader_fields [OF n, of btreeKindInternal 0 parent, where
      r = "PutUint64 (hd ptrs) @ internalBody ks (tl ptrs) @ replicate (ps - internalSerializedSize ks) 0",
      folded page]
  ultimately show "parseInternalPage page = Inr \<lparr>inParent = parent, inPtrs = ptrs, inKeys = ks\<rparr>"
    using assms(3) ptrs by (simp add: parseInternalPage_def len Let_def)
qed

subsection \<open>Page offsets\<close>

lemma pageByteOffset_iff:
  assumes "ps < 2 ^ 63" "p \<noteq> 0"
  shows "pageByteOffset p ps pps = Inr off \<longleftrightarrow>
    ps + unat (p - 1) * pps < 2 ^ 63 \<and> off = of_nat (ps + unat (p - 1) * pps)"
proof -
  let ?m = "unat (p - 1) * pps"
  have "?m div 2 ^ 64 = 0 \<and> \<not> ?m mod 2 ^ 64 > 2 ^ 63 - 1 - ps \<longleftrightarrow> ps + ?m < 2 ^ 63"
  proof (cases "?m < 2 ^ 64")
    case True
    then show ?thesis using assms(1) by auto
  next
    case False
    then have "1 \<le> ?m div 2 ^ 64" by (simp add: Suc_le_eq div_greater_zero_iff)
    with False show ?thesis by auto
  qed
  then show ?thesis
    using assms(2) by (auto simp: pageByteOffset_def Let_def)
qed

subsection \<open>Properties\<close>

lemma validPageSize_ge: "IsValidPageSize (of_nat ps) \<Longrightarrow> ps < 2 ^ 32 \<Longrightarrow> btreeHeaderSize + 8 \<le> ps"
  using validPageSize_cases [of ps] by (auto simp: btreeHeaderSize_def)

lemma sint_of_nat64: "n < 2 ^ 63 \<Longrightarrow> sint (of_nat n :: int64) = int n"
  by (simp add: signed_of_nat signed_take_bit_int_eq_self)

text \<open>C33: leaf pages. For distinct keys the builder succeeds exactly when every key has at
  most 256 bytes, every value at most 65535 and the entries fit in the page; then the page has
  the page size, parses back to the same entries and links, and the lookup that walks the raw
  bytes answers as the map of the entries. On any byte string at all, that lookup fails exactly as
  the parser does and otherwise answers the value of the last parsed entry with the key.\<close>
theorem Leaf_page_codec:
  assumes "IsValidPageSize (of_nat ps)" "ps < 2 ^ 32" "distinct ks"
  shows "(isOk (buildLeafPage ps parent next ks vs) \<longleftrightarrow> leafFits ps ks vs) \<and>
    (\<forall>page. buildLeafPage ps parent next ks vs = Inr page \<longrightarrow>
       length page = ps \<and>
       parseLeafPage page = Inr \<lparr>leafNext = next, leafParent = parent, leafKeys = ks, leafVals = vs\<rparr> \<and>
       lookupLeafValue page key = Inr (map_of (zip ks vs) key)) \<and>
    (\<forall>raw. lookupLeafValue raw key = (case parseLeafPage raw of
       Inl e \<Rightarrow> Inl e
     | Inr ld \<Rightarrow> Inr (map_of (rev (zip (leafKeys ld) (leafVals ld))) key)))"
proof (intro conjI allI impI)
  note build = buildLeafPage_iff [OF add_leD1 [OF validPageSize_ge [OF assms(1,2)]]]
  show "isOk (buildLeafPage ps parent next ks vs) \<longleftrightarrow> leafFits ps ks vs"
    using build [of parent "next" ks vs] by (cases "buildLeafPage ps parent next ks vs") auto
  fix page assume b: "buildLeafPage ps parent next ks vs = Inr page"
  then have fits: "leafFits ps ks vs" by (simp add: build)
  from leaf_page_parses [OF fits validPageSize_cases [OF assms(1,2)]
      leafFits_count [OF fits assms(3) validPageSize_cases [OF assms(1,2)]] conjunct2 [OF b [unfolded build]]]
  show "length page = ps"
    and p: "parseLeafPage page = Inr \<lparr>leafNext = next, leafParent = parent, leafKeys = ks, leafVals = vs\<rparr>"
    by simp_all
  show "lookupLeafValue page key = Inr (map_of (zip ks vs) key)"
    using fits assms(3) by (simp add: lookupLeafValue_parse p lastMatch_distinct leafFits_def)
next
  fix raw
  show "lookupLeafValue raw key = (case parseLeafPage raw of
       Inl e \<Rightarrow> Inl e
     | Inr ld \<Rightarrow> Inr (map_of (rev (zip (leafKeys ld) (leafVals ld))) key))"
    by (cases "parseLeafPage raw") (simp_all add: lookupLeafValue_parse lastMatch_rev)
qed

theorem Leaf_page_codec_witness:
  "\<exists>page. buildLeafPage 4096 7 9 [[1], [2, 3]] [[4], []] = Inr page \<and> length page = 4096 \<and>
     lookupLeafValue page [2, 3] = Inr (Some [])"
proof -
  have "leafFits 4096 [[1], [2, 3]] [[4], []]"
    by (simp add: leafFits_def leafSerializedSize_def btreeHeaderSize_def maxKeyBytes_def)
  then show ?thesis
    using Leaf_page_codec [of 4096 "[[1], [2, 3]]" 7 9 "[[4], []]" "[2, 3]"]
    by (cases "buildLeafPage 4096 7 9 [[1], [2, 3]] [[4], []]")
      (simp_all add: IsValidPageSize_def validPageSizes_def)
qed

text \<open>C34: internal pages. The builder succeeds exactly when there is one pointer more than there are
  separators, every separator has at most 256 bytes and they fit in the page. For sorted and
  non-empty separators the page then parses back to the same pointers and separators, and the
  lookup on the raw bytes follows the pointer that the bisection over the parsed separators
  picks.\<close>
theorem Internal_page_codec:
  assumes "IsValidPageSize (of_nat ps)" "ps < 2 ^ 32"
  shows "(isOk (buildInternalPage ps parent ptrs ks) \<longleftrightarrow> internalFits ps ptrs ks) \<and>
    (\<forall>page. buildInternalPage ps parent ptrs ks = Inr page \<and> sorted ks \<and> [] \<notin> set ks \<longrightarrow>
       length page = ps \<and>
       parseInternalPage page = Inr \<lparr>inParent = parent, inPtrs = ptrs, inKeys = ks\<rparr> \<and>
       lookupInternalChild page key = Inr (ptrs ! internalPickChild ks key))"
proof (intro conjI allI impI; (elim conjE)?)
  note build = buildInternalPage_iff [OF validPageSize_ge [OF assms]]
  show "isOk (buildInternalPage ps parent ptrs ks) \<longleftrightarrow> internalFits ps ptrs ks"
    using build [of parent ptrs ks] by (cases "buildInternalPage ps parent ptrs ks") auto
  fix page assume built: "buildInternalPage ps parent ptrs ks = Inr page" and ks: "sorted ks" "[] \<notin> set ks"
  note b = built [unfolded build]
  from internal_page_parses [OF conjunct1 [OF b] validPageSize_cases [OF assms]
      internalFits_count [OF conjunct1 [OF b] ks(2)] conjunct2 [OF b]]
  show "length page = ps" "parseInternalPage page = Inr \<lparr>inParent = parent, inPtrs = ptrs, inKeys = ks\<rparr>"
    "lookupInternalChild page key = Inr (ptrs ! internalPickChild ks key)"
    by (simp_all add: lookupInternalChild_parse pickPtr_def internalPickChild_takeWhile [OF ks(1)])
qed

theorem Internal_page_codec_witness:
  "\<exists>page. buildInternalPage 4096 0 [5, 6] [[9]] = Inr page \<and> lookupInternalChild page [9] = Inr 6"
proof -
  have "internalFits 4096 [5, 6] [[9]]"
    by (simp add: internalFits_def internalSerializedSize_def btreeHeaderSize_def maxKeyBytes_def)
  then have "\<exists>page. buildInternalPage 4096 0 [5, 6] [[9]] = Inr page"
    by (simp add: buildInternalPage_iff btreeHeaderSize_def)
  then obtain page where page: "buildInternalPage 4096 0 [5, 6] [[9]] = Inr page" ..
  have "internalPickChild [[9]] [9] = 1" by (simp add: internalPickChild_takeWhile)
  with page Internal_page_codec [of 4096 0 "[5, 6]" "[[9]]" "[9]"] show ?thesis
    by (simp add: IsValidPageSize_def validPageSizes_def)
qed

text \<open>C40: page offsets. Offsets never wrap around, and two distinct pages (the header page 0
  takes one logical page, every other page one physical page) occupy disjoint stretches of the
  file in the order of their identifiers.\<close>
theorem Page_offsets_disjoint:
  assumes "pageByteOffset p ps pps = Inr a" "pageByteOffset q ps pps = Inr b" "p < q" "ps < 2 ^ 63"
  shows "0 \<le> sint a \<and> sint a + int (if p = 0 then ps else pps) \<le> sint b"
proof -
  have val: "sint off = int (ps + unat (r - 1) * pps) \<and> ps + unat (r - 1) * pps < 2 ^ 63"
    if "pageByteOffset r ps pps = Inr off" "r \<noteq> 0" for r off
  proof -
    have "ps + unat (r - 1) * pps < 2 ^ 63 \<and> off = of_nat (ps + unat (r - 1) * pps)"
      using that(1) unfolding pageByteOffset_iff [OF assms(4) that(2)] .
    then show ?thesis using sint_of_nat64 by metis
  qed
  have q: "q \<noteq> 0" using assms(3) by auto
  show ?thesis
  proof (cases "p = 0")
    case True
    then show ?thesis using assms(1) val [OF assms(2) q] by (simp add: pageByteOffset_def)
  next
    case False
    have "unat (p - 1) + 1 \<le> unat (q - 1)"
    proof -
      have "0 < unat p" "unat p < unat q"
        using False assms(3) by (simp_all add: unat_gt_0 word_less_nat_alt)
      then show ?thesis using False q by (simp add: unat_minus_one)
    qed
    then have "(unat (p - 1) + 1) * pps \<le> unat (q - 1) * pps" by (rule mult_le_mono1)
    then show ?thesis
      using val [OF assms(1) False] val [OF assms(2) q] False by (simp add: algebra_simps del: of_nat_mult)
  qed
qed

theorem Page_offsets_disjoint_witness:
  "\<exists>a b. pageByteOffset 2 4096 4096 = Inr a \<and> pageByteOffset 3 4096 4096 = Inr b \<and> sint a + 4096 \<le> sint b"
proof -
  have "pageByteOffset 2 4096 4096 = Inr 8192" "pageByteOffset 3 4096 4096 = Inr 12288"
    by (simp_all add: pageByteOffset_def)
  with Page_offsets_disjoint [OF this] show ?thesis by auto
qed

end
