(* ===== verification/LeafSplit.thy ===== *)
theory LeafSplit
  imports PageFormat
begin

text \<open>
  The pure parts of the B+ tree's splits: \<open>internal/engine/btree_cascade_split.go\<close>
  (leaf entries into pages), \<open>splitInternalGroups\<close> of \<open>btree_cascade_internal.go\<close>
  and \<open>insertSorted\<close> of \<open>btree_cascade_insert.go\<close>. The theorems: the greedy leaf split
  succeeds exactly when every entry fits in a page of its own, keeps all entries in order, makes
  every page fit and no fewer pages are possible; the internal split keeps the children and
  routes every key to the child the unsplit node routes it to; insertion updates the map of the
  entries and keeps them sorted.
\<close>

subsection \<open>Splitting a leaf\<close>

record leafSplit =
  lsKeys :: "bytes list"
  lsVals :: "bytes list"
  lsSep :: bytes

definition entrySize :: "bytes \<Rightarrow> bytes \<Rightarrow> nat" where
  "entrySize key val = 4 + length key + length val"

fun rangeSize :: "nat \<Rightarrow> bytes list \<Rightarrow> bytes list \<Rightarrow> nat" where
  "rangeSize sz (k # ks) (v # vs) = rangeSize (sz + entrySize k v) ks vs"
| "rangeSize sz _ _ = sz"

definition calcRangeSize :: "bytes list \<Rightarrow> bytes list \<Rightarrow> nat" where
  "calcRangeSize keys vals = rangeSize btreeHeaderSize keys vals"

text \<open>
  The inner loop of \<open>splitRecursively\<close> on the entries not looked at yet: how many entries
  the page takes. A value list shorter than the key list is the code's index panic.
\<close>

fun fillPage :: "nat \<Rightarrow> nat \<Rightarrow> nat \<Rightarrow> bytes list \<Rightarrow> bytes list \<Rightarrow> engine_error + nat" where
  "fillPage pageSize sz i [] vals = Inr i"
| "fillPage pageSize sz i (k # ks) [] = Inl (EngineFailure ''panic: index out of range'')"
| "fillPage pageSize sz i (k # ks) (v # vs) =
     (let entry = entrySize k v
      in if i > 0 \<and> sz + entry > pageSize then Inr i
      else let sz = sz + entry; i = i + 1
      in if i = 1 \<and> sz > pageSize then Inl (EngineFailure ''single entry exceeds pageSize'')
      else fillPage pageSize sz i ks vs)"

lemma fillPage_ge: "fillPage ps sz i ks vs = Inr n \<Longrightarrow> i \<le> n"
proof (induction ps sz i ks vs rule: fillPage.induct)
  case (3 ps sz i k ks v vs)
  then show ?case by (fastforce simp: Let_def split: if_splits)
qed auto

lemma fillPage_pos: "fillPage ps sz 0 (k # ks) vs = Inr n \<Longrightarrow> 0 < n"
  by (cases vs) (auto simp: Let_def split: if_splits dest!: fillPage_ge)

function splitRecursively ::
  "bytes list \<Rightarrow> bytes list \<Rightarrow> nat \<Rightarrow> leafSplit list \<Rightarrow> engine_error + leafSplit list" where
  "splitRecursively keys vals pageSize acc =
     (case fillPage pageSize btreeHeaderSize 0 keys vals of
        Inl e \<Rightarrow> Inl e
      | Inr i \<Rightarrow>
          let leftKeys = take i keys; leftVals = take i vals
          in if leftKeys = [] then Inl (EngineFailure ''panic: index out of range'')
          else let acc = acc @ [\<lparr>lsKeys = leftKeys, lsVals = leftVals, lsSep = leftKeys ! 0\<rparr>]
          in if i = length keys then Inr acc
             else splitRecursively (drop i keys) (drop i vals) pageSize acc)"
  by auto

termination
  by (relation "measure (\<lambda>(keys, vals, pageSize, acc). length keys)") auto

declare splitRecursively.simps [simp del]

definition cascadingLeafSplit ::
  "bytes list \<Rightarrow> bytes list \<Rightarrow> nat \<Rightarrow> engine_error + leafSplit list" where
  "cascadingLeafSplit keys vals pageSize =
     (if length keys = 0 then Inr []
      else if length keys = 1 then
        let sz = entrySize (keys ! 0) (vals ! 0)
        in if sz > pageSize then Inl (EngineFailure ''single entry exceeds pageSize'')
           else Inr [\<lparr>lsKeys = keys, lsVals = vals, lsSep = keys ! 0\<rparr>]
      else splitRecursively keys vals pageSize [])"

subsection \<open>Splitting an internal node\<close>

record internalGroup =
  grPtrs :: "uint64 list"
  grKeys :: "bytes list"

text \<open>
  The inner loop of \<open>splitInternalGroups\<close>: the group, the pointers and keys left for the
  next groups, and the separator promoted between, if the loop stopped before the end.
\<close>

fun fillGroup ::
  "nat \<Rightarrow> nat \<Rightarrow> internalGroup \<Rightarrow> uint64 list \<Rightarrow> bytes list \<Rightarrow>
   internalGroup \<times> uint64 list \<times> bytes list \<times> bytes option" where
  "fillGroup pageSize sz g (p # ptrs) (sep # keys) =
     (let add = 2 + length sep + 8
      in if sz + add > pageSize then (g, p # ptrs, keys, Some sep)
         else fillGroup pageSize (sz + add)
                (g\<lparr>grKeys := grKeys g @ [sep], grPtrs := grPtrs g @ [p]\<rparr>) ptrs keys)"
| "fillGroup pageSize sz g _ keys = (g, [], keys, None)"

lemma fillGroup_length: "fillGroup ps sz g ptrs keys = (h, ptrs', keys', s) \<Longrightarrow> length ptrs' \<le> length ptrs"
  by (induction ps sz g ptrs keys rule: fillGroup.induct)
    (auto simp: Let_def split: if_splits)

function splitGroupsFrom :: "nat \<Rightarrow> uint64 list \<Rightarrow> bytes list \<Rightarrow> internalGroup list \<times> bytes list" where
  "splitGroupsFrom pageSize [] keys = ([], [])"
| "splitGroupsFrom pageSize (p # ptrs) keys =
     (case fillGroup pageSize (btreeHeaderSize + 8) \<lparr>grPtrs = [p], grKeys = []\<rparr> ptrs keys of
        (g, ptrs', keys', promoted) \<Rightarrow>
          case splitGroupsFrom pageSize ptrs' keys' of
            (groups, seps) \<Rightarrow>
              (g # groups, (case promoted of None \<Rightarrow> [] | Some sep \<Rightarrow> [sep]) @ seps))"
  by pat_completeness auto

termination
  by (relation "measure (\<lambda>(pageSize, ptrs, keys). length ptrs)")
    (auto dest!: fillGroup_length [OF sym])

definition splitInternalGroups :: "uint64 list \<Rightarrow> bytes list \<Rightarrow> nat \<Rightarrow> internalGroup list \<times> bytes list" where
  "splitInternalGroups ptrs keys pageSize = splitGroupsFrom pageSize ptrs keys"

subsection \<open>Inserting in order\<close>

primrec insertPos :: "bytes list \<Rightarrow> bytes \<Rightarrow> nat" where
  "insertPos [] newKey = 0"
| "insertPos (k # ks) newKey = (if k < newKey then Suc (insertPos ks newKey) else 0)"

definition insertSorted ::
  "bytes list \<Rightarrow> bytes list \<Rightarrow> bytes \<Rightarrow> bytes \<Rightarrow> bytes list \<times> bytes list" where
  "insertSorted keys vals newKey newVal =
     (let n = length keys; pos = insertPos keys newKey
      in if pos < n \<and> keys ! pos = newKey then (keys, vals[pos := newVal])
         else (take pos keys @ [newKey] @ drop pos keys, take pos vals @ [newVal] @ drop pos vals))"

subsection \<open>The greedy fill\<close>

lemma leafEntriesSize_append:
  "length ks = length vs \<Longrightarrow>
   leafEntriesSize (ks @ ks') (vs @ vs') = leafEntriesSize ks vs + leafEntriesSize ks' vs'"
  by (induction ks vs rule: list_induct2) simp_all

lemma fillPage_more:
  assumes "length ks = length vs" "sz \<le> ps"
  shows "\<exists>m \<le> length ks. fillPage ps sz (Suc i) ks vs = Inr (Suc i + m) \<and>
    sz + leafEntriesSize (take m ks) (take m vs) \<le> ps \<and>
    (m < length ks \<longrightarrow> ps < sz + leafEntriesSize (take m ks) (take m vs) + entrySize (ks ! m) (vs ! m))"
  using assms
proof (induction ks vs arbitrary: sz i rule: list_induct2)
  case (Cons k ks v vs)
  show ?case
  proof (cases "sz + entrySize k v \<le> ps")
    case True
    from Cons.IH [OF True, of "Suc i"] obtain m where "m \<le> length ks"
      "fillPage ps (sz + entrySize k v) (Suc (Suc i)) ks vs = Inr (Suc (Suc i) + m)"
      "sz + entrySize k v + leafEntriesSize (take m ks) (take m vs) \<le> ps"
      "m < length ks \<longrightarrow>
       ps < sz + entrySize k v + leafEntriesSize (take m ks) (take m vs) + entrySize (ks ! m) (vs ! m)"
      by blast
    with True show ?thesis
      by (intro exI [of _ "Suc m"]) (auto simp: entrySize_def add.assoc)
  next
    case False
    then show ?thesis using Cons.prems by (intro exI [of _ 0]) simp
  qed
qed simp

lemma fillPage_too_big:
  "ps < sz + entrySize k v \<Longrightarrow> \<exists>e. fillPage ps sz 0 (k # ks) (v # vs) = Inl e"
  by simp

lemma fillPage_first:
  assumes "length ks = length vs" "ks \<noteq> []" "btreeHeaderSize + entrySize (hd ks) (hd vs) \<le> ps"
  obtains m where "0 < m" "m \<le> length ks" "fillPage ps btreeHeaderSize 0 ks vs = Inr m"
    "leafSerializedSize (take m ks) (take m vs) \<le> ps"
    "m < length ks \<Longrightarrow>
      ps < leafSerializedSize (take m ks) (take m vs) + entrySize (ks ! m) (vs ! m)"
proof -
  obtain k ks' v vs' where kv: "ks = k # ks'" "vs = v # vs'" "length ks' = length vs'"
    using assms(1,2) by (cases ks; cases vs) auto
  have fit: "btreeHeaderSize + entrySize k v \<le> ps" using assms(3) kv by simp
  from fillPage_more [OF kv(3) fit, of 0] obtain m where m: "m \<le> length ks'"
    "fillPage ps (btreeHeaderSize + entrySize k v) (Suc 0) ks' vs' = Inr (Suc 0 + m)"
    "btreeHeaderSize + entrySize k v + leafEntriesSize (take m ks') (take m vs') \<le> ps"
    "m < length ks' \<longrightarrow> ps < btreeHeaderSize + entrySize k v +
       leafEntriesSize (take m ks') (take m vs') + entrySize (ks' ! m) (vs' ! m)"
    by blast
  show thesis
  proof (rule that [of "Suc m"])
    show "leafSerializedSize (take (Suc m) ks) (take (Suc m) vs) \<le> ps"
      using m(3) by (simp add: kv leafSerializedSize_def entrySize_def)
    show "ps < leafSerializedSize (take (Suc m) ks) (take (Suc m) vs) + entrySize (ks ! Suc m) (vs ! Suc m)"
      if "Suc m < length ks"
      using m(4) that by (simp add: kv leafSerializedSize_def entrySize_def)
  qed (use m(1,2) fit in \<open>simp_all add: kv\<close>)
qed

definition pageOk :: "nat \<Rightarrow> leafSplit \<Rightarrow> bool" where
  "pageOk ps p \<longleftrightarrow> lsKeys p \<noteq> [] \<and> length (lsVals p) = length (lsKeys p) \<and> lsSep p = hd (lsKeys p) \<and>
     leafSerializedSize (lsKeys p) (lsVals p) \<le> ps"

text \<open>The next page's first entry did not fit in this one any more.\<close>

definition pageFull :: "nat \<Rightarrow> leafSplit \<Rightarrow> leafSplit \<Rightarrow> bool" where
  "pageFull ps p q \<longleftrightarrow>
     ps < leafSerializedSize (lsKeys p) (lsVals p) + entrySize (hd (lsKeys q)) (hd (lsVals q))"

definition entriesFit :: "nat \<Rightarrow> bytes list \<Rightarrow> bytes list \<Rightarrow> bool" where
  "entriesFit ps ks vs \<longleftrightarrow> list_all2 (\<lambda>k v. btreeHeaderSize + entrySize k v \<le> ps) ks vs"

definition splitInto :: "nat \<Rightarrow> bytes list \<Rightarrow> bytes list \<Rightarrow> leafSplit list \<Rightarrow> bool" where
  "splitInto ps ks vs pages \<longleftrightarrow> concat (map lsKeys pages) = ks \<and> concat (map lsVals pages) = vs \<and>
     list_all (pageOk ps) pages \<and> successively (pageFull ps) pages"

lemma splitInto_Cons:
  assumes "splitInto ps (drop i ks) (drop i vs) pages" "pageOk ps p" "lsKeys p = take i ks" "lsVals p = take i vs"
    and "pages \<noteq> [] \<Longrightarrow> ps < leafSerializedSize (take i ks) (take i vs) + entrySize (ks ! i) (vs ! i)"
  shows "splitInto ps ks vs (p # pages)"
proof -
  have c: "concat (map lsKeys pages) = drop i ks" "concat (map lsVals pages) = drop i vs"
    "list_all (pageOk ps) pages" "successively (pageFull ps) pages"
    using assms(1) unfolding splitInto_def by blast+
  have "pageFull ps p (hd pages)" if some: "pages \<noteq> []"
  proof -
    obtain q pages' where q: "pages = q # pages'" using some by (cases pages) auto
    have ne: "lsKeys q \<noteq> []" "lsVals q \<noteq> []" using c(3) unfolding q by (auto simp: pageOk_def)
    have "hd (drop i ks) = hd (lsKeys q)" "hd (drop i vs) = hd (lsVals q)" "drop i ks \<noteq> []" "drop i vs \<noteq> []"
      using ne unfolding c(1,2) [symmetric] q by simp_all
    then have "hd (lsKeys q) = ks ! i" "hd (lsVals q) = vs ! i"
      by (metis drop_eq_Nil hd_drop_conv_nth not_le)+
    then show ?thesis using assms(5) [OF some] assms(3,4) by (simp add: pageFull_def q)
  qed
  then show ?thesis
    unfolding splitInto_def list.map concat.simps c(1,2) assms(3,4) append_take_drop_id
    using c(3,4) assms(2) by (cases "pages = []") (simp_all add: successively_Cons)
qed

lemma entriesFit_page:
  assumes "length ks = length vs" "leafSerializedSize ks vs \<le> ps"
  shows "entriesFit ps ks vs"
  using assms
proof (induction ks vs rule: list_induct2)
  case (Cons k ks v vs)
  then show ?case by (simp add: leafSerializedSize_def entriesFit_def entrySize_def)
qed (simp add: entriesFit_def)

lemma entriesFit_split:
  assumes "length ks = length vs"
  shows "entriesFit ps ks vs \<longleftrightarrow>
    entriesFit ps (take m ks) (take m vs) \<and> entriesFit ps (drop m ks) (drop m vs)"
proof -
  have "list_all2 R ks vs \<longleftrightarrow> list_all2 R (take m ks) (take m vs) \<and> list_all2 R (drop m ks) (drop m vs)" for R
    by (rule list_all2_append [of "take m ks" "take m vs" R "drop m ks" "drop m vs",
          unfolded append_take_drop_id]) (simp add: assms)
  then show ?thesis unfolding entriesFit_def .
qed

lemma splitRecursively_spec:
  assumes "length keys = length vals" "keys \<noteq> []"
  shows "if entriesFit ps keys vals
    then \<exists>pages. splitRecursively keys vals ps acc = Inr (acc @ pages) \<and> splitInto ps keys vals pages
    else \<exists>e. splitRecursively keys vals ps acc = Inl e"
  using assms
proof (induction keys vals ps acc rule: splitRecursively.induct)
  case (1 keys vals ps acc)
  then obtain k ks v vs where kv: "keys = k # ks" "vals = v # vs" "length ks = length vs"
    by (cases keys; cases vals) auto
  note step = splitRecursively.simps [of keys vals ps acc]
  show ?case
  proof (cases "ps < btreeHeaderSize + entrySize k v")
    case True
    then have "\<not> entriesFit ps keys vals" by (simp add: entriesFit_def kv)
    moreover have "\<exists>e. splitRecursively keys vals ps acc = Inl e"
      using fillPage_too_big [OF True, of ks vs] step by (auto simp: kv)
    ultimately show ?thesis by simp
  next
    case False
    have "btreeHeaderSize + entrySize (hd keys) (hd vals) \<le> ps" using False by (simp add: kv)
    from fillPage_first [OF 1(2,3) this] obtain m where
      m: "0 < m" "m \<le> length keys" "fillPage ps btreeHeaderSize 0 keys vals = Inr m"
      and fits: "leafSerializedSize (take m keys) (take m vals) \<le> ps"
      and full: "m < length keys \<Longrightarrow>
        ps < leafSerializedSize (take m keys) (take m vals) + entrySize (keys ! m) (vals ! m)" by blast
    define p where "p = \<lparr>lsKeys = take m keys, lsVals = take m vals, lsSep = take m keys ! 0\<rparr>"
    have len: "length (take m keys) = length (take m vals)" using 1(2) by simp
    have ne: "take m keys \<noteq> []" using m(1) 1(3) by simp
    have p: "pageOk ps p" "lsKeys p = take m keys" "lsVals p = take m vals"
      using fits ne len by (simp_all add: pageOk_def p_def hd_conv_nth)
    have fit: "entriesFit ps keys vals \<longleftrightarrow> entriesFit ps (drop m keys) (drop m vals)"
      using entriesFit_split [OF 1(2), of ps m] entriesFit_page [OF len fits] by simp
    show ?thesis
    proof (cases "m = length keys")
      case True
      then have "splitRecursively keys vals ps acc = Inr (acc @ [p])"
        using step m ne by (simp add: p_def)
      moreover have "splitInto ps keys vals [p]"
        using True p 1(2) by (simp add: splitInto_def)
      moreover have "entriesFit ps keys vals" using fit True 1(2) by (simp add: entriesFit_def)
      ultimately show ?thesis by auto
    next
      case False
      have eq: "splitRecursively keys vals ps acc = splitRecursively (drop m keys) (drop m vals) ps (acc @ [p])"
        using step m False ne by (simp add: p_def)
      have IH: "if entriesFit ps (drop m keys) (drop m vals)
        then \<exists>pages. splitRecursively (drop m keys) (drop m vals) ps (acc @ [p]) = Inr ((acc @ [p]) @ pages) \<and>
               splitInto ps (drop m keys) (drop m vals) pages
        else \<exists>e. splitRecursively (drop m keys) (drop m vals) ps (acc @ [p]) = Inl e"
        unfolding p_def by (rule 1(1) [OF m(3) refl refl ne refl False]) (use 1(2) m(2) False in auto)
      show ?thesis
      proof (cases "entriesFit ps keys vals")
        case True
        with IH fit obtain pages where
          "splitRecursively (drop m keys) (drop m vals) ps (acc @ [p]) = Inr ((acc @ [p]) @ pages)"
          and into: "splitInto ps (drop m keys) (drop m vals) pages" by auto
        moreover have "splitInto ps keys vals (p # pages)"
          using m(2) False by (intro splitInto_Cons [OF into p] full) simp
        ultimately show ?thesis using True eq by auto
      qed (use IH fit eq in simp)
    qed
  qed
qed

subsection \<open>No fewer pages\<close>

lemma greedy_minimal:
  fixes P Q :: "nat list list"
  assumes "\<forall>c \<in> set P. c \<noteq> []" "successively (\<lambda>c d. cap < sum_list c + hd d) P"
    and "\<forall>q \<in> set Q. sum_list q \<le> cap" "concat P = drop j (concat Q)"
  shows "length P \<le> length Q"
  using assms
proof (induction Q arbitrary: P j)
  case Nil
  then show ?case by (cases P) auto
next
  case (Cons q Q)
  show ?case
  proof (cases "length q \<le> j")
    case True
    then have "length P \<le> length Q"
      using Cons.prems by (intro Cons.IH [of P "j - length q"]) auto
    then show ?thesis by simp
  next
    case short: False
    then have P: "concat P = drop j q @ concat Q" using Cons.prems(4) by simp
    show ?thesis
    proof (cases P)
      case (Cons c P')
      have "length (drop j q) \<le> length c"
      proof (rule ccontr)
        assume less: "\<not> length (drop j q) \<le> length c"
        then obtain d P'' where P': "P' = d # P''"
          using arg_cong [OF P, of length] Cons by (cases P') simp_all
        then have d: "d \<noteq> []" "cap < sum_list c + hd d"
          using Cons.prems(1,2) Cons by auto
        have "c = take (length c) (drop j q)"
          using P Cons less by (metis append_eq_append_conv_if concat.simps(2) not_le less_imp_le)
        moreover have "hd d = drop j q ! length c"
        proof -
          have "hd d = concat P ! length c" using Cons P' d(1) by (simp add: nth_append hd_conv_nth)
          then show ?thesis using P less by (simp add: nth_append)
        qed
        ultimately have "sum_list c + hd d = sum_list (take (Suc (length c)) (drop j q))"
          using less by (simp add: take_Suc_conv_app_nth)
        also have "\<dots> \<le> sum_list q"
        proof -
          have "sum_list q = sum_list (take j q) + sum_list (take (Suc (length c)) (drop j q)) +
              sum_list (drop (Suc (length c)) (drop j q))"
            by (metis append_take_drop_id sum_list_append add.assoc)
          then show ?thesis by simp
        qed
        finally show False using d(2) Cons.prems(3) by auto
      qed
      then have "concat P' = drop (length c - length (drop j q)) (concat Q)"
        using P Cons by (metis append_eq_conv_conj concat.simps(2) drop_append drop_all append_Nil)
      then have "length P' \<le> length Q"
        using Cons.prems Cons by (intro Cons.IH) (auto simp: successively_Cons)
      then show ?thesis using Cons by simp
    qed simp
  qed
qed

subsection \<open>Groups of an internal node\<close>

definition groupOk :: "nat \<Rightarrow> internalGroup \<Rightarrow> bool" where
  "groupOk ps g \<longleftrightarrow> length (grPtrs g) = length (grKeys g) + 1 \<and> internalSerializedSize (grKeys g) \<le> ps"

fun joinGroups :: "internalGroup list \<Rightarrow> bytes list \<Rightarrow> bytes list" where
  "joinGroups (g # gs) (s # seps) = grKeys g @ s # joinGroups gs seps"
| "joinGroups (g # gs) [] = grKeys g"
| "joinGroups [] seps = []"

lemma fillGroup_spec:
  assumes "fillGroup ps sz g ptrs keys = (h, ptrs', keys', prom)" "length ptrs = length keys"
    and "groupOk ps g" "sz = internalSerializedSize (grKeys g)"
  shows "groupOk ps h \<and>
    (case prom of
       None \<Rightarrow> ptrs' = [] \<and> grKeys h = grKeys g @ keys \<and> grPtrs h = grPtrs g @ ptrs
     | Some s \<Rightarrow> grKeys h @ s # keys' = grKeys g @ keys \<and> grPtrs h @ ptrs' = grPtrs g @ ptrs \<and>
         length ptrs' = length keys' + 1)"
  using assms
proof (induction ps sz g ptrs keys rule: fillGroup.induct)
  case (1 ps sz g p ptrs sep keys)
  show ?case
  proof (cases "sz + (2 + length sep + 8) > ps")
    case True
    then show ?thesis using "1.prems" by auto
  next
    case False
    let ?g = "g\<lparr>grKeys := grKeys g @ [sep], grPtrs := grPtrs g @ [p]\<rparr>"
    have size: "internalSerializedSize (grKeys g @ [sep]) = internalSerializedSize (grKeys g) + (2 + length sep + 8)"
      by (simp add: internalSerializedSize_def)
    have "groupOk ps ?g" using False "1.prems"(3,4) size by (simp add: groupOk_def)
    moreover have "fillGroup ps (sz + (2 + length sep + 8)) ?g ptrs keys = (h, ptrs', keys', prom)"
      using "1.prems"(1) False by (simp add: Let_def)
    ultimately show ?thesis
      using "1.IH" [OF refl False] "1.prems"(2,4) size by (auto split: option.splits)
  qed
qed auto

lemma splitGroupsFrom_ne: "ptrs \<noteq> [] \<Longrightarrow> fst (splitGroupsFrom ps ptrs keys) \<noteq> []"
  by (cases ptrs) (auto split: prod.splits)

lemma splitGroupsFrom_step:
  assumes "length ptrs = length keys" "btreeHeaderSize + 8 \<le> ps"
  obtains (last) g where "splitGroupsFrom ps (p # ptrs) keys = ([g], [])" "groupOk ps g"
      "grPtrs g = p # ptrs" "grKeys g = keys"
  | (more) g sep ptrs' keys' where
      "splitGroupsFrom ps (p # ptrs) keys =
         (g # fst (splitGroupsFrom ps ptrs' keys'), sep # snd (splitGroupsFrom ps ptrs' keys'))"
      "groupOk ps g" "grKeys g @ sep # keys' = keys" "grPtrs g @ ptrs' = p # ptrs"
      "length ptrs' = length keys' + 1" "length ptrs' \<le> length ptrs"
proof -
  let ?g0 = "\<lparr>grPtrs = [p], grKeys = []\<rparr>"
  obtain g ptrs' keys' prom where
    fill: "fillGroup ps (btreeHeaderSize + 8) ?g0 ptrs keys = (g, ptrs', keys', prom)"
    by (metis prod_cases4)
  have "groupOk ps ?g0" "btreeHeaderSize + 8 = internalSerializedSize (grKeys ?g0)"
    using assms(2) by (simp_all add: groupOk_def internalSerializedSize_def)
  note spec = fillGroup_spec [OF fill assms(1) this]
  show thesis
  proof (cases prom)
    case None
    then show thesis using spec fill by (intro last [of g]) auto
  next
    case (Some sep)
    then show thesis
      using spec fill fillGroup_length [OF fill]
      by (intro more [of g ptrs' keys' sep]) (auto simp: case_prod_beta)
  qed
qed

lemma splitGroupsFrom_spec:
  assumes "length ptrs = length keys + 1" "btreeHeaderSize + 8 \<le> ps"
    and "splitGroupsFrom ps ptrs keys = (groups, seps)"
  shows "list_all (groupOk ps) groups \<and> length groups = length seps + 1 \<and>
    concat (map grPtrs groups) = ptrs \<and> joinGroups groups seps = keys"
  using assms
proof (induction "length ptrs" arbitrary: ptrs keys groups seps rule: less_induct)
  case less
  obtain p ptrs1 where p: "ptrs = p # ptrs1" "length ptrs1 = length keys"
    using less.prems(1) by (cases ptrs) auto
  from p(2) less.prems(2) show ?case
  proof (cases rule: splitGroupsFrom_step [where p = p])
    case (last g)
    then show ?thesis using less.prems(3) p(1) by auto
  next
    case (more g sep ptrs' keys')
    from less.hyps [OF _ more(5) less.prems(2) prod.collapse [symmetric]] more(6) p(1)
    have "list_all (groupOk ps) (fst (splitGroupsFrom ps ptrs' keys')) \<and>
      length (fst (splitGroupsFrom ps ptrs' keys')) = length (snd (splitGroupsFrom ps ptrs' keys')) + 1 \<and>
      concat (map grPtrs (fst (splitGroupsFrom ps ptrs' keys'))) = ptrs' \<and>
      joinGroups (fst (splitGroupsFrom ps ptrs' keys')) (snd (splitGroupsFrom ps ptrs' keys')) = keys'"
      by simp
    then show ?thesis using more(1-4) less.prems(3) p(1) by auto
  qed
qed

lemma pickPtr_append:
  assumes "sorted (ks @ sep # ks')" "length ptrs = length ks + 1"
  shows "pickPtr key (ks @ sep # ks') (ptrs @ ptrs') =
    (if sep \<le> key then pickPtr key ks' ptrs' else pickPtr key ks ptrs)"
proof (cases "sep \<le> key")
  case True
  then have "takeWhile (\<lambda>k. k \<le> key) ks = ks"
    using assms(1) by (auto simp: takeWhile_eq_all_conv sorted_append)
  then show ?thesis using True assms(2) by (simp add: pickPtr_def takeWhile_append nth_append)
next
  case False
  have "length (takeWhile (\<lambda>k. k \<le> key) ks) \<le> length ks" by (rule length_takeWhile_le)
  moreover have "takeWhile (\<lambda>k. k \<le> key) (ks @ sep # ks') = takeWhile (\<lambda>k. k \<le> key) ks"
    using False by (induction ks) auto
  ultimately show ?thesis using False assms(2) by (simp add: pickPtr_def nth_append)
qed

text \<open>Two-level search: first the promoted separators, then the chosen group.\<close>

definition routeGroups :: "bytes \<Rightarrow> internalGroup list \<Rightarrow> bytes list \<Rightarrow> uint64" where
  "routeGroups key groups seps =
     (let g = groups ! length (takeWhile (\<lambda>s. s \<le> key) seps) in pickPtr key (grKeys g) (grPtrs g))"

lemma splitGroupsFrom_route:
  assumes "length ptrs = length keys + 1" "btreeHeaderSize + 8 \<le> ps" "sorted keys"
    and "splitGroupsFrom ps ptrs keys = (groups, seps)"
  shows "routeGroups key groups seps = pickPtr key keys ptrs \<and> set seps \<subseteq> set keys"
  using assms
proof (induction "length ptrs" arbitrary: ptrs keys groups seps rule: less_induct)
  case less
  obtain p ptrs1 where p: "ptrs = p # ptrs1" "length ptrs1 = length keys"
    using less.prems(1) by (cases ptrs) auto
  from p(2) less.prems(2) show ?case
  proof (cases rule: splitGroupsFrom_step [where p = p])
    case (last g)
    then show ?thesis using less.prems(4) p(1) by (auto simp: routeGroups_def)
  next
    case (more g sep ptrs' keys')
    obtain gs ss where rest: "splitGroupsFrom ps ptrs' keys' = (gs, ss)" by fastforce
    have eqs: "groups = g # gs" "seps = sep # ss" using more(1) rest less.prems(4) p(1) by auto
    have s: "sorted (grKeys g @ sep # keys')" using less.prems(3) more(3) by simp
    then have "sorted keys'" by (simp add: sorted_append)
    from less.hyps [OF _ more(5) less.prems(2) this rest] more(6) p(1)
    have IH: "routeGroups key gs ss = pickPtr key keys' ptrs'" "set ss \<subseteq> set keys'" by auto
    have "pickPtr key keys ptrs = (if sep \<le> key then pickPtr key keys' ptrs' else pickPtr key (grKeys g) (grPtrs g))"
      using pickPtr_append [OF s, of "grPtrs g" key ptrs'] more(2-4) p(1) by (simp add: groupOk_def)
    then show ?thesis
      using IH more(3) by (auto simp: eqs routeGroups_def)
  qed
qed

subsection \<open>Insertion in order\<close>

lemma insertPos_takeWhile: "insertPos keys key = length (takeWhile (\<lambda>k. k < key) keys)"
  by (induction keys) simp_all

lemma insertSorted_cases:
  assumes "sorted_wrt (<) keys" "length vals = length keys"
  obtains (replace) ks1 ks2 vs1 v vs2 where "keys = ks1 @ key # ks2" "vals = vs1 @ v # vs2"
      "length vs1 = length ks1" "\<forall>k \<in> set ks1. k < key" "\<forall>k \<in> set ks2. key < k"
      "insertSorted keys vals key val = (keys, vs1 @ val # vs2)"
  | (insert) ks1 ks2 vs1 vs2 where "keys = ks1 @ ks2" "vals = vs1 @ vs2"
      "length vs1 = length ks1" "\<forall>k \<in> set ks1. k < key" "\<forall>k \<in> set ks2. key < k"
      "insertSorted keys vals key val = (ks1 @ key # ks2, vs1 @ val # vs2)"
proof -
  define n where "n = insertPos keys key"
  let ?ks1 = "take n keys" and ?ks2 = "drop n keys"
  have n: "?ks1 = takeWhile (\<lambda>k. k < key) keys" "?ks2 = dropWhile (\<lambda>k. k < key) keys" "n \<le> length keys"
    by (simp_all add: n_def insertPos_takeWhile takeWhile_eq_take [symmetric] dropWhile_eq_drop [symmetric]
        length_takeWhile_le)
  have low: "\<forall>k \<in> set ?ks1. k < key" unfolding n(1) by (auto dest: set_takeWhileD)
  have s2: "sorted_wrt (<) ?ks2" using assms(1) by (rule sorted_wrt_drop)
  show thesis
  proof (cases "n < length keys \<and> keys ! n = key")
    case True
    then have ks: "keys = ?ks1 @ key # drop (Suc n) keys"
      by (metis append_take_drop_id Cons_nth_drop_Suc)
    have vs: "vals = take n vals @ vals ! n # drop (Suc n) vals"
      using True assms(2) by (metis append_take_drop_id Cons_nth_drop_Suc)
    have high: "\<forall>k \<in> set (drop (Suc n) keys). key < k"
      using s2 True by (simp add: Cons_nth_drop_Suc [of n keys, symmetric])
    show thesis
      by (rule replace [OF ks vs _ low high])
        (use True assms(2) in \<open>simp_all add: insertSorted_def Let_def flip: n_def, simp add: upd_conv_take_nth_drop\<close>)
  next
    case False
    have "\<forall>k \<in> set ?ks2. key < k"
    proof (cases ?ks2)
      case (Cons a l)
      then have "n < length keys" by (metis drop_all linorder_not_less list.distinct(1))
      moreover have "keys ! n = a" using Cons calculation by (metis hd_drop_conv_nth list.sel(1))
      moreover have "\<not> a < key" using hd_dropWhile [of "\<lambda>k. k < key" keys] Cons n(2) by (metis list.sel(1) list.distinct(1))
      ultimately have "key < a" using False by auto
      then show ?thesis using s2 Cons by auto
    qed simp
    moreover have "insertSorted keys vals key val =
        (take n keys @ key # drop n keys, take n vals @ val # drop n vals)"
      unfolding insertSorted_def Let_def n_def [symmetric] using False by (subst if_not_P) simp_all
    ultimately show thesis
      using assms(2) low n(3) by (intro insert [of ?ks1 ?ks2 "take n vals" "drop n vals"]) simp_all
  qed
qed

subsection \<open>Properties\<close>

lemma sum_entrySize: "sum_list (map2 entrySize ks vs) = leafEntriesSize ks vs"
  by (induction ks vs rule: leafEntriesSize.induct) (simp_all add: entrySize_def)

lemma map2_concat:
  "list_all (\<lambda>p. length (lsVals p) = length (lsKeys p)) ps \<Longrightarrow>
   concat (map (\<lambda>p. map2 f (lsKeys p) (lsVals p)) ps) = map2 f (concat (map lsKeys ps)) (concat (map lsVals ps))"
  by (induction ps) simp_all

definition fitsPage :: "nat \<Rightarrow> leafSplit \<Rightarrow> bool" where
  "fitsPage ps p \<longleftrightarrow> length (lsVals p) = length (lsKeys p) \<and> leafSerializedSize (lsKeys p) (lsVals p) \<le> ps"

lemma pageOk_nonempty: "pageOk ps p \<Longrightarrow> lsKeys p \<noteq> []" "pageOk ps p \<Longrightarrow> lsVals p \<noteq> []"
  by (cases "lsVals p"; auto simp: pageOk_def)+

lemma splitInto_minimal:
  assumes "splitInto ps ks vs pages" "concat (map lsKeys Q) = ks" "concat (map lsVals Q) = vs" "list_all (fitsPage ps) Q"
  shows "length pages \<le> length Q"
proof -
  let ?w = "\<lambda>p. map2 entrySize (lsKeys p) (lsVals p)"
  have ok: "list_all (pageOk ps) pages" using assms(1) by (simp add: splitInto_def)
  have "length (map ?w pages) \<le> length (map ?w Q)"
  proof (rule greedy_minimal [where cap = "ps - btreeHeaderSize" and j = 0])
    show "\<forall>c \<in> set (map ?w pages). c \<noteq> []"
      using ok by (auto simp: list_all_iff dest: pageOk_nonempty)
    have full: "ps - btreeHeaderSize < sum_list (?w p) + hd (?w q)"
      if "pageOk ps p" "pageOk ps q" "pageFull ps p q" for p q
    proof -
      from pageOk_nonempty [OF \<open>pageOk ps q\<close>] obtain k ks' v vs' where "lsKeys q = k # ks'" "lsVals q = v # vs'"
        unfolding neq_Nil_conv by blast
      moreover have "0 < entrySize k v" by (simp add: entrySize_def)
      ultimately show ?thesis
        using \<open>pageFull ps p q\<close>
        by (simp add: pageFull_def sum_entrySize leafSerializedSize_def)
    qed
    have "successively (pageFull ps) pages" using assms(1) by (simp add: splitInto_def)
    with ok show "successively (\<lambda>c d. ps - btreeHeaderSize < sum_list c + hd d) (map ?w pages)"
    proof (induction pages rule: induct_list012)
      case (3 p q pages)
      then have "ps - btreeHeaderSize < sum_list (?w p) + hd (?w q)" by (intro full) simp_all
      with 3 show ?case by simp
    qed simp_all
    show "\<forall>q \<in> set (map ?w Q). sum_list q \<le> ps - btreeHeaderSize"
      using assms(4) by (auto simp: list_all_iff fitsPage_def sum_entrySize leafSerializedSize_def)
    have "list_all (\<lambda>p. length (lsVals p) = length (lsKeys p)) pages"
      "list_all (\<lambda>p. length (lsVals p) = length (lsKeys p)) Q"
      using ok assms(4) by (auto simp: list_all_iff pageOk_def fitsPage_def)
    then have "concat (map ?w pages) = map2 entrySize ks vs" "concat (map ?w Q) = map2 entrySize ks vs"
      using assms(1-3) by (simp_all add: map2_concat splitInto_def)
    then show "concat (map ?w pages) = drop 0 (concat (map ?w Q))" by simp
  qed
  then show ?thesis by simp
qed

text \<open>C35: the cascading leaf split. Two or more entries split exactly when each of them fits in
  a page of its own; the pages then hold all entries in order, none is empty, every one fits,
  its separator is its first key, and no other division into fitting pages has fewer pages. A
  single entry is checked against the page size without the page header: it becomes a page of its
  own whenever its own size is at most the page size, and that page fits only if the header does
  too.\<close>
theorem Leaf_split_correct:
  assumes "length keys = length vals"
  shows "(2 \<le> length keys \<longrightarrow>
    (if entriesFit ps keys vals
     then \<exists>pages. cascadingLeafSplit keys vals ps = Inr pages \<and> splitInto ps keys vals pages \<and>
       (\<forall>Q. concat (map lsKeys Q) = keys \<and> concat (map lsVals Q) = vals \<and> list_all (fitsPage ps) Q
         \<longrightarrow> length pages \<le> length Q)
     else \<exists>e. cascadingLeafSplit keys vals ps = Inl e)) \<and>
    (\<forall>k v. keys = [k] \<and> vals = [v] \<longrightarrow>
      (if entrySize k v \<le> ps
       then \<exists>page. cascadingLeafSplit keys vals ps = Inr [page] \<and> lsKeys page = [k] \<and> lsVals page = [v] \<and>
         (pageOk ps page \<longleftrightarrow> btreeHeaderSize + entrySize k v \<le> ps)
       else \<exists>e. cascadingLeafSplit keys vals ps = Inl e))"
proof (intro conjI allI impI)
  assume two: "2 \<le> length keys"
  then have "keys \<noteq> []" by auto
  moreover have "cascadingLeafSplit keys vals ps = splitRecursively keys vals ps []"
    using two by (auto simp: cascadingLeafSplit_def)
  ultimately show "if entriesFit ps keys vals
     then \<exists>pages. cascadingLeafSplit keys vals ps = Inr pages \<and> splitInto ps keys vals pages \<and>
       (\<forall>Q. concat (map lsKeys Q) = keys \<and> concat (map lsVals Q) = vals \<and> list_all (fitsPage ps) Q
         \<longrightarrow> length pages \<le> length Q)
     else \<exists>e. cascadingLeafSplit keys vals ps = Inl e"
    using splitRecursively_spec [OF assms, of ps "[]"]
    by (auto split: if_splits intro: splitInto_minimal)
qed (auto simp: cascadingLeafSplit_def pageOk_def leafSerializedSize_def entrySize_def)

theorem Leaf_split_correct_witness:
  "(\<exists>pages. cascadingLeafSplit [[1], [2]] [[0, 0, 0], [5, 5, 5]] 72 = Inr pages \<and>
     splitInto 72 [[1], [2]] [[0, 0, 0], [5, 5, 5]] pages) \<and>
   (\<exists>page. cascadingLeafSplit [[1]] [[0, 0, 0]] 71 = Inr [page] \<and> \<not> pageOk 71 page)"
proof -
  have "entriesFit 72 [[1], [2]] [[0, 0, 0], [5, 5, 5]]"
    by (simp add: entriesFit_def entrySize_def btreeHeaderSize_def)
  with Leaf_split_correct [of "[[1], [2]]" "[[0, 0, 0], [5, 5, 5]]" 72] Leaf_split_correct [of "[[1]]" "[[0, 0, 0]]" 71]
  show ?thesis by (auto simp: entrySize_def btreeHeaderSize_def)
qed

text \<open>C36: the internal split. The groups hold all children in order, the separators are the
  groups' keys joined by the promoted ones, every group fits, and for sorted separators the
  two-level search over promoted keys and groups reaches the child that the bisection in the
  unsplit node picks.\<close>
theorem Internal_split_correct:
  assumes "splitInternalGroups ptrs keys ps = (groups, seps)" "length ptrs = length keys + 1"
    and "btreeHeaderSize + 8 \<le> ps" "sorted keys"
  shows "list_all (groupOk ps) groups \<and> length groups = length seps + 1 \<and>
    concat (map grPtrs groups) = ptrs \<and> joinGroups groups seps = keys \<and>
    routeGroups key groups seps = ptrs ! internalPickChild keys key"
  using splitGroupsFrom_spec [OF assms(2,3)] splitGroupsFrom_route [OF assms(2-4)] assms(1)
  by (simp add: splitInternalGroups_def pickPtr_def internalPickChild_takeWhile [OF assms(4)])

theorem Internal_split_correct_witness:
  "\<exists>groups seps. splitInternalGroups [1, 2, 3] [[7], [9]] 83 = (groups, seps) \<and>
     length groups = length seps + 1 \<and> concat (map grPtrs groups) = [1, 2, 3]"
proof -
  obtain groups seps where "splitInternalGroups [1, 2, 3] [[7], [9]] 83 = (groups, seps)"
    by fastforce
  with Internal_split_correct [OF this] show ?thesis by (simp add: btreeHeaderSize_def)
qed

lemma map_of_insert:
  "k \<notin> fst ` set xs \<Longrightarrow> map_of (xs @ (k, v) # ys) = (map_of (xs @ ys))(k \<mapsto> v)"
  by (induction xs) (auto simp: fun_upd_twist)

lemma map_of_replace:
  "k \<notin> fst ` set xs \<Longrightarrow> map_of (xs @ (k, v') # ys) = (map_of (xs @ (k, v) # ys))(k \<mapsto> v')"
  by (metis fun_upd_upd map_of_insert)

lemma insertSorted_map:
  assumes "sorted_wrt (<) keys" "length vals = length keys" "insertSorted keys vals key val = (ks, vs)"
  shows "sorted_wrt (<) ks \<and> length vs = length ks \<and>
    map_of (zip ks vs) = (map_of (zip keys vals))(key \<mapsto> val)"
  using assms(1,2)
proof (cases rule: insertSorted_cases [where key = key and val = val])
  case (replace ks1 ks2 vs1 v vs2)
  have "key \<notin> fst ` set (zip ks1 vs1)" using replace(4) by (auto dest: set_zip_leftD)
  from map_of_replace [OF this, of val "zip ks2 vs2" v] replace(3)
  have "map_of (zip keys (vs1 @ val # vs2)) = (map_of (zip keys vals))(key \<mapsto> val)"
    unfolding replace(1,2) by simp
  moreover have "ks = keys" "vs = vs1 @ val # vs2" using assms(3) replace(6) by simp_all
  ultimately show ?thesis using assms(1,2) replace(2) by simp
next
  case (insert ks1 ks2 vs1 vs2)
  have "key \<notin> fst ` set (zip ks1 vs1)" using insert(4) by (auto dest: set_zip_leftD)
  from map_of_insert [OF this, of val "zip ks2 vs2"] insert(3)
  have "map_of (zip (ks1 @ key # ks2) (vs1 @ val # vs2)) = (map_of (zip keys vals))(key \<mapsto> val)"
    unfolding insert(1,2) by simp
  moreover have "ks = ks1 @ key # ks2" "vs = vs1 @ val # vs2" using assms(3) insert(6) by simp_all
  moreover have "sorted_wrt (<) (ks1 @ key # ks2)"
    using assms(1) insert(4,5) unfolding insert(1) by (auto simp: sorted_wrt_append intro: less_trans)
  ultimately show ?thesis using assms(2) insert(1,2) by simp
qed

text \<open>insertion into a leaf's sorted entries keeps them sorted and distinct and updates the
  map they stand for at exactly the inserted key.\<close>
theorem InsertSorted_updates_map:
  assumes "sorted_wrt (<) keys" "length vals = length keys" "insertSorted keys vals key val = (ks, vs)"
  shows "sorted_wrt (<) ks \<and> length vs = length ks \<and>
    map_of (zip ks vs) = (map_of (zip keys vals))(key \<mapsto> val)"
  by (rule insertSorted_map [OF assms])

theorem InsertSorted_updates_map_witness:
  "case insertSorted [[1], [4]] [[10], [40]] [2] [20] of (ks, vs) \<Rightarrow> map_of (zip ks vs) [2] = Some [20]"
proof -
  obtain ks vs where "insertSorted [[1], [4]] [[10], [40]] [2] [20] = (ks, vs)" by fastforce
  with InsertSorted_updates_map [OF _ _ this] show ?thesis by simp
qed

end
