(* ===== verification/HeaderFormat.thy ===== *)
theory HeaderFormat
  imports PageFormat
begin

text \<open>
  The database header: \<open>internal/engine/header.go\<close> and \<open>header_auth.go\<close>, the
  constants of \<open>const.go\<close> they use and \<open>max_value_bytes.go\<close>. Fixed-size Go arrays are
  byte lists; \<open>headerOk\<close> states their lengths. HMAC-SHA-256 is a parameter
  \<open>hmac key message\<close>. The theorems: decoding inverts encoding for every supported version,
  decoding only answers well-formed headers, the size read before the header agrees with it, and
  an authenticated header verifies under its own key and only with an unchanged prefix.
\<close>

subsection \<open>Data\<close>

definition headerMagic :: bytes where "headerMagic = ascii ''HEXXLADB''"
definition headerPrefixSize :: nat where "headerPrefixSize = 512"
definition formatVersionV1 :: uint32 where "formatVersionV1 = 1"
definition formatVersionV2 :: uint32 where "formatVersionV2 = 2"
definition formatVersionV3 :: uint32 where "formatVersionV3 = 3"
definition HeaderCommitSeqOffset :: nat where "HeaderCommitSeqOffset = 60"
definition HeaderEncryptionKeyCheckOffset :: nat where "HeaderEncryptionKeyCheckOffset = 68"
definition HeaderEncryptionKeyCheckLen :: nat where "HeaderEncryptionKeyCheckLen = 32"
definition HeaderMaxValueBytesOffset :: nat where "HeaderMaxValueBytesOffset = 100"
definition DefaultMaxValueBytes :: uint32 where "DefaultMaxValueBytes = 8192"
definition HeaderEmbeddingDimOffset :: nat where "HeaderEmbeddingDimOffset = 104"
definition HeaderEmbeddingMetricOffset :: nat where "HeaderEmbeddingMetricOffset = 106"
definition HeaderAuthTagOffset :: nat where "HeaderAuthTagOffset = 107"
definition HeaderAuthTagLen :: nat where "HeaderAuthTagLen = 32"
definition HeaderBTreeRootGenerationOffset :: nat where
  "HeaderBTreeRootGenerationOffset = HeaderAuthTagOffset + HeaderAuthTagLen"
definition HeaderFreelistHeadOffset :: nat where
  "HeaderFreelistHeadOffset = HeaderBTreeRootGenerationOffset + 8"
definition HeaderFreelistHeadGenerationOffset :: nat where
  "HeaderFreelistHeadGenerationOffset = HeaderFreelistHeadOffset + 8"
definition HeaderFreelistCountOffset :: nat where
  "HeaderFreelistCountOffset = HeaderFreelistHeadGenerationOffset + 8"
definition HeaderInlineFreelistOffset :: nat where
  "HeaderInlineFreelistOffset = HeaderFreelistCountOffset + 8"
definition HeaderInlineFreelistCapacity :: nat where "HeaderInlineFreelistCapacity = 40"
definition AuthenticatedPageOverhead :: nat where "AuthenticatedPageOverhead = 48"

lemmas header_consts =
  headerPrefixSize_def formatVersionV1_def formatVersionV2_def formatVersionV3_def HeaderCommitSeqOffset_def
  HeaderEncryptionKeyCheckOffset_def HeaderEncryptionKeyCheckLen_def HeaderMaxValueBytesOffset_def
  HeaderEmbeddingDimOffset_def HeaderEmbeddingMetricOffset_def HeaderAuthTagOffset_def HeaderAuthTagLen_def
  HeaderBTreeRootGenerationOffset_def HeaderFreelistHeadOffset_def HeaderFreelistHeadGenerationOffset_def
  HeaderFreelistCountOffset_def HeaderInlineFreelistOffset_def HeaderInlineFreelistCapacity_def

record Header =
  FormatVersion :: uint32
  hPageSize :: uint32
  LastWALSeq :: uint64
  NextPageID :: uint64
  BTreeRoot :: uint64
  Features :: uint32
  EncryptionSalt :: bytes
  hCommitSeq :: uint64
  EncryptionKeyCheck :: bytes
  MaxValueBytes :: uint32
  EmbeddingDim :: uint16
  EmbeddingMetric :: byte
  AuthTag :: bytes
  BTreeRootGeneration :: uint64
  FreelistHead :: uint64
  FreelistHeadGeneration :: uint64
  FreelistCount :: uint64
  InlineFreelist :: "uint64 list"

definition FeatureEncryptedDataPages :: uint32 where "FeatureEncryptedDataPages = 1"
definition FeatureWALKeyedMAC :: uint32 where "FeatureWALKeyedMAC = 2"
definition FeatureIncompleteCompaction :: uint32 where "FeatureIncompleteCompaction = 4"
definition FeatureAuthenticatedDataPages :: uint32 where "FeatureAuthenticatedDataPages = 8"

subsection \<open>Encoding and decoding\<close>

primrec readUint64s :: "nat \<Rightarrow> nat \<Rightarrow> bytes \<Rightarrow> uint64 list" where
  "readUint64s 0 off page = []"
| "readUint64s (Suc n) off page = Uint64 (slice off (off + 8) page) # readUint64s n (off + 8) page"

definition decodeHeaderPage :: "bytes \<Rightarrow> engine_error + Header" where
  "decodeHeaderPage page =
     (if length page < headerPrefixSize then Inl (ErrCorruptHeader ''short page'')
      else if \<not> prefix headerMagic page then Inl (ErrCorruptHeader ''magic'')
      else let h = \<lparr>FormatVersion = Uint32 (slice 8 12 page), hPageSize = Uint32 (slice 12 16 page),
             LastWALSeq = Uint64 (slice 16 24 page), NextPageID = Uint64 (slice 24 32 page),
             BTreeRoot = Uint64 (slice 32 40 page), Features = Uint32 (slice 40 44 page),
             EncryptionSalt = slice 44 60 page, hCommitSeq = 0,
             EncryptionKeyCheck = slice HeaderEncryptionKeyCheckOffset
               (HeaderEncryptionKeyCheckOffset + HeaderEncryptionKeyCheckLen) page,
             MaxValueBytes = Uint32 (slice HeaderMaxValueBytesOffset (HeaderMaxValueBytesOffset + 4) page),
             EmbeddingDim = Uint16 (slice HeaderEmbeddingDimOffset (HeaderEmbeddingDimOffset + 2) page),
             EmbeddingMetric = page ! HeaderEmbeddingMetricOffset,
             AuthTag = slice HeaderAuthTagOffset (HeaderAuthTagOffset + HeaderAuthTagLen) page,
             BTreeRootGeneration =
               Uint64 (slice HeaderBTreeRootGenerationOffset (HeaderBTreeRootGenerationOffset + 8) page),
             FreelistHead = Uint64 (slice HeaderFreelistHeadOffset (HeaderFreelistHeadOffset + 8) page),
             FreelistHeadGeneration =
               Uint64 (slice HeaderFreelistHeadGenerationOffset (HeaderFreelistHeadGenerationOffset + 8) page),
             FreelistCount = Uint64 (slice HeaderFreelistCountOffset (HeaderFreelistCountOffset + 8) page),
             InlineFreelist = readUint64s HeaderInlineFreelistCapacity HeaderInlineFreelistOffset page\<rparr>
      in bindR
          (if FormatVersion h = formatVersionV1 then Inr h
           else if FormatVersion h = formatVersionV2 \<or> FormatVersion h = formatVersionV3
           then Inr (h\<lparr>hCommitSeq := Uint64 (slice HeaderCommitSeqOffset (HeaderCommitSeqOffset + 8) page)\<rparr>)
           else if FormatVersion h > formatVersionV3 then Inl (ErrUnsupportedFormatVersion (FormatVersion h))
           else Inl (ErrCorruptHeader ''version''))
          (\<lambda>h. if \<not> IsValidPageSize (hPageSize h) then Inl (ErrCorruptHeader ''unsupported page size'')
                else Inr h))"

text \<open>The fields are contiguous, so the encoded page is their concatenation and the zero rest.\<close>

definition headerPrefix :: "Header \<Rightarrow> bytes" where
  "headerPrefix h = headerMagic @ PutUint32 (FormatVersion h) @ PutUint32 (hPageSize h) @
     PutUint64 (LastWALSeq h) @ PutUint64 (NextPageID h) @ PutUint64 (BTreeRoot h) @ PutUint32 (Features h) @
     EncryptionSalt h @
     PutUint64 (if FormatVersion h \<ge> formatVersionV2 then hCommitSeq h else 0) @
     EncryptionKeyCheck h @ PutUint32 (MaxValueBytes h) @ PutUint16 (EmbeddingDim h) @ [EmbeddingMetric h] @
     AuthTag h @ PutUint64 (BTreeRootGeneration h) @ PutUint64 (FreelistHead h) @
     PutUint64 (FreelistHeadGeneration h) @ PutUint64 (FreelistCount h) @
     concat (map PutUint64 (InlineFreelist h))"

definition encodeHeaderPage :: "Header \<Rightarrow> bytes" where
  "encodeHeaderPage h = headerPrefix h @ replicate (unat (hPageSize h) - length (headerPrefix h)) 0"

definition bootstrapPageSize :: "bytes \<Rightarrow> engine_error + uint32" where
  "bootstrapPageSize file =
     (if length file < 16 then Inl (ErrCorruptHeader ''cannot read header prefix'')
      else let buf = take 16 file
      in if \<not> prefix headerMagic buf then Inl (ErrCorruptHeader ''magic'')
      else let ps = Uint32 (slice 12 16 buf)
      in if \<not> IsValidPageSize ps then Inl (ErrCorruptHeader ''unsupported page size'') else Inr ps)"

text \<open>\<open>ReadAt\<close> of a whole page answers an error when the file is shorter.\<close>

definition readHeaderAt :: "bytes \<Rightarrow> nat \<Rightarrow> engine_error + Header" where
  "readHeaderAt file pageSize =
     (if length file < pageSize then Inl (EngineFailure ''EOF'') else decodeHeaderPage (take pageSize file))"

definition ReadHeaderFile :: "bytes \<Rightarrow> engine_error + Header" where
  "ReadHeaderFile file = bindR (bootstrapPageSize file) (\<lambda>ps. readHeaderAt file (unat ps))"

subsection \<open>Authentication\<close>

type_synonym hmac = "bytes \<Rightarrow> bytes \<Rightarrow> bytes"

definition authenticateHeader :: "hmac \<Rightarrow> Header \<Rightarrow> bytes \<Rightarrow> Header" where
  "authenticateHeader hmac h key =
     (let h = h\<lparr>AuthTag := replicate HeaderAuthTagLen 0\<rparr>; page = encodeHeaderPage h
      in h\<lparr>AuthTag := hmac key (take headerPrefixSize page)\<rparr>)"

definition verifyHeaderAuthentication :: "hmac \<Rightarrow> Header \<Rightarrow> bytes \<Rightarrow> bool" where
  "verifyHeaderAuthentication hmac h key \<longleftrightarrow> AuthTag h = AuthTag (authenticateHeader hmac h key)"

definition headerOnDisk :: "hmac \<Rightarrow> Header \<Rightarrow> bytes \<Rightarrow> bool \<Rightarrow> bytes" where
  "headerOnDisk hmac h key enabled = encodeHeaderPage (if enabled then authenticateHeader hmac h key else h)"

subsection \<open>Value size limits\<close>

definition validMaxValueBytes :: "uint32 list" where
  "validMaxValueBytes =
     [512, 1024, 2048, 4096, 8192, 16384, 32768, 65536, 131072, 262144, 524288, 1048576]"

definition resolveMaxValueBytes :: "uint32 option \<Rightarrow> engine_error + uint32" where
  "resolveMaxValueBytes opts =
     (case opts of None \<Rightarrow> Inr 0
      | Some mvb \<Rightarrow>
        if mvb = 0 then Inr 0
        else if list_ex (\<lambda>v. mvb = v) validMaxValueBytes then Inr mvb
        else Inl ErrInvalidMaxValueBytes)"

subsection \<open>Decoding inverts encoding\<close>

definition headerOk :: "Header \<Rightarrow> bool" where
  "headerOk h \<longleftrightarrow> IsValidPageSize (hPageSize h) \<and> FormatVersion h \<in> {1, 2, 3} \<and>
     (FormatVersion h = 1 \<longrightarrow> hCommitSeq h = 0) \<and>
     length (EncryptionSalt h) = 16 \<and> length (EncryptionKeyCheck h) = 32 \<and> length (AuthTag h) = 32 \<and>
     length (InlineFreelist h) = 40"

lemma length_headerMagic [simp]: "length headerMagic = 8"
  by (simp add: headerMagic_def)

lemma length_concat_PutUint64 [simp]: "length (concat (map PutUint64 xs)) = 8 * length xs"
  by (induction xs) simp_all

lemma length_headerPrefix: "headerOk h \<Longrightarrow> length (headerPrefix h) = 491"
  by (simp add: headerOk_def headerPrefix_def)

lemma slice_skip: "length xs \<le> a \<Longrightarrow> slice a b (xs @ ys) = slice (a - length xs) (b - length xs) ys"
  by (simp add: slice_def drop_append)

lemma slice_Cons: "0 < a \<Longrightarrow> slice a b (x # xs) = slice (a - 1) (b - 1) xs"
  using slice_skip [of "[x]" a b xs] by simp

lemma slice_stop: "b \<le> length xs \<Longrightarrow> slice a b (xs @ ys) = slice a b xs"
  by (simp add: slice_def)

lemma slice_all: "b = length xs \<Longrightarrow> slice 0 b xs = xs"
  by (simp add: slice_def)

lemma readUint64s_written:
  "readUint64s (length ids) (length pre) (pre @ concat (map PutUint64 ids) @ rest) = ids"
proof (induction ids arbitrary: pre)
  case (Cons x ids)
  have "slice (length pre) (length pre + 8) (pre @ PutUint64 x @ concat (map PutUint64 ids) @ rest) = PutUint64 x"
    by (rule slice_at) simp_all
  with Cons.IH [of "pre @ PutUint64 x"] show ?case by simp
qed simp

lemma decode_fields:
  assumes "headerOk h" "page = headerPrefix h @ rest"
  shows "slice 8 12 page = PutUint32 (FormatVersion h)" "slice 12 16 page = PutUint32 (hPageSize h)"
    "slice 16 24 page = PutUint64 (LastWALSeq h)" "slice 24 32 page = PutUint64 (NextPageID h)"
    "slice 32 40 page = PutUint64 (BTreeRoot h)" "slice 40 44 page = PutUint32 (Features h)"
    "slice 44 60 page = EncryptionSalt h"
    "slice 60 68 page = PutUint64 (if FormatVersion h \<ge> formatVersionV2 then hCommitSeq h else 0)"
    "slice 68 100 page = EncryptionKeyCheck h" "slice 100 104 page = PutUint32 (MaxValueBytes h)"
    "slice 104 106 page = PutUint16 (EmbeddingDim h)" "page ! 106 = EmbeddingMetric h"
    "slice 107 139 page = AuthTag h" "slice 139 147 page = PutUint64 (BTreeRootGeneration h)"
    "slice 147 155 page = PutUint64 (FreelistHead h)" "slice 155 163 page = PutUint64 (FreelistHeadGeneration h)"
    "slice 163 171 page = PutUint64 (FreelistCount h)" "readUint64s 40 171 page = InlineFreelist h"
proof -
  have l: "length (EncryptionSalt h) = 16" "length (EncryptionKeyCheck h) = 32" "length (AuthTag h) = 32"
    "length (InlineFreelist h) = 40"
    using assms(1) by (simp_all add: headerOk_def)
  note page = assms(2) [unfolded headerPrefix_def append_assoc]
  note s = slice_skip slice_stop slice_all slice_Cons l
  show "slice 8 12 page = PutUint32 (FormatVersion h)" "slice 12 16 page = PutUint32 (hPageSize h)"
    "slice 16 24 page = PutUint64 (LastWALSeq h)" "slice 24 32 page = PutUint64 (NextPageID h)"
    "slice 32 40 page = PutUint64 (BTreeRoot h)" "slice 40 44 page = PutUint32 (Features h)"
    "slice 44 60 page = EncryptionSalt h"
    "slice 60 68 page = PutUint64 (if FormatVersion h \<ge> formatVersionV2 then hCommitSeq h else 0)"
    "slice 68 100 page = EncryptionKeyCheck h" "slice 100 104 page = PutUint32 (MaxValueBytes h)"
    "slice 104 106 page = PutUint16 (EmbeddingDim h)" "page ! 106 = EmbeddingMetric h"
    "slice 107 139 page = AuthTag h" "slice 139 147 page = PutUint64 (BTreeRootGeneration h)"
    "slice 147 155 page = PutUint64 (FreelistHead h)" "slice 155 163 page = PutUint64 (FreelistHeadGeneration h)"
    "slice 163 171 page = PutUint64 (FreelistCount h)"
    unfolding page by (simp_all add: s nth_append del: append_assoc)
  define pre where "pre = headerMagic @ PutUint32 (FormatVersion h) @ PutUint32 (hPageSize h) @
     PutUint64 (LastWALSeq h) @ PutUint64 (NextPageID h) @ PutUint64 (BTreeRoot h) @ PutUint32 (Features h) @
     EncryptionSalt h @
     PutUint64 (if FormatVersion h \<ge> formatVersionV2 then hCommitSeq h else 0) @
     EncryptionKeyCheck h @ PutUint32 (MaxValueBytes h) @ PutUint16 (EmbeddingDim h) @ [EmbeddingMetric h] @
     AuthTag h @ PutUint64 (BTreeRootGeneration h) @ PutUint64 (FreelistHead h) @
     PutUint64 (FreelistHeadGeneration h) @ PutUint64 (FreelistCount h)"
  have "page = pre @ concat (map PutUint64 (InlineFreelist h)) @ rest"
    unfolding page pre_def by (simp only: append_assoc append_Cons append_Nil)
  moreover have "length pre = 171" by (simp add: pre_def l)
  ultimately show "readUint64s 40 171 page = InlineFreelist h"
    using readUint64s_written [of "InlineFreelist h" pre rest] l by simp
qed

lemma headerOk_page:
  assumes "headerOk h"
  shows "length (encodeHeaderPage h) = unat (hPageSize h)" "512 \<le> unat (hPageSize h)"
proof -
  have "hPageSize h \<in> {4096, 8192, 16384, 65536}"
    using assms by (auto simp: headerOk_def IsValidPageSize_def validPageSizes_def)
  then show *: "512 \<le> unat (hPageSize h)" by auto
  show "length (encodeHeaderPage h) = unat (hPageSize h)"
    using length_headerPrefix [OF assms] * by (simp add: encodeHeaderPage_def)
qed

lemma prefix_headerMagic: "prefix headerMagic (headerPrefix h @ rest)"
  by (simp add: headerPrefix_def)

lemma decode_encode:
  assumes "headerOk h" "512 \<le> length (headerPrefix h @ rest)"
  shows "decodeHeaderPage (headerPrefix h @ rest) = Inr h"
proof -
  have v: "FormatVersion h = 1 \<or> FormatVersion h = 2 \<or> FormatVersion h = 3" "IsValidPageSize (hPageSize h)"
    "FormatVersion h = 1 \<longrightarrow> hCommitSeq h = 0"
    using assms(1) by (auto simp: headerOk_def)
  note f = decode_fields [OF assms(1) refl, of rest]
  show ?thesis
    using v assms(2)
    by (auto simp: decodeHeaderPage_def header_consts f prefix_headerMagic Let_def simp del: length_append)
qed

lemma length_readUint64s [simp]: "length (readUint64s n off page) = n"
  by (induction n arbitrary: off) simp_all

lemma decode_headerOk:
  assumes "decodeHeaderPage page = Inr h"
  shows "headerOk h" "512 \<le> length page"
proof -
  show l: "512 \<le> length page"
    using assms by (simp add: decodeHeaderPage_def headerPrefixSize_def split: if_splits)
  show "headerOk h"
    using assms l
    by (auto simp: decodeHeaderPage_def header_consts headerOk_def bindR_eq_Inr Let_def split: if_splits)
qed

subsection \<open>Properties\<close>

lemma encode_prefix: "headerOk h \<Longrightarrow> \<exists>rest. encodeHeaderPage h = headerPrefix h @ rest"
  by (simp add: encodeHeaderPage_def)

lemma decode_encodeHeaderPage:
  assumes "headerOk h"
  shows "decodeHeaderPage (encodeHeaderPage h) = Inr h"
  using decode_encode [OF assms, of "replicate (unat (hPageSize h) - length (headerPrefix h)) 0"]
    headerOk_page [OF assms] by (simp add: encodeHeaderPage_def)

text \<open>C37: the file header. A well-formed header of any supported version decodes to itself, from
  the page alone and from a file that starts with it (where the page size is read first from
  its own field); and whatever bytes are given, only well-formed headers are ever decoded.\<close>
theorem Header_roundtrip:
  "(headerOk h \<longrightarrow> decodeHeaderPage (encodeHeaderPage h) = Inr h \<and>
      ReadHeaderFile (encodeHeaderPage h @ file) = Inr h) \<and>
   (\<forall>page h'. decodeHeaderPage page = Inr h' \<longrightarrow> headerOk h')"
proof (intro conjI impI allI)
  assume h: "headerOk h"
  then show d: "decodeHeaderPage (encodeHeaderPage h) = Inr h" by (rule decode_encodeHeaderPage)
  let ?z = "replicate (unat (hPageSize h) - length (headerPrefix h)) 0"
  have len: "length (encodeHeaderPage h) = unat (hPageSize h)" "512 \<le> unat (hPageSize h)"
    by (rule headerOk_page [OF h])+
  have t: "take 16 (encodeHeaderPage h @ file) = take 16 (headerPrefix h)"
    using length_headerPrefix [OF h] by (simp add: encodeHeaderPage_def)
  have "prefix headerMagic (take 16 (headerPrefix h))" by (simp add: headerPrefix_def)
  moreover have "slice 12 16 (take 16 (headerPrefix h)) = PutUint32 (hPageSize h)"
    using decode_fields(2) [OF h refl, of "[]"] by (simp add: slice_def drop_take)
  ultimately have "bootstrapPageSize (encodeHeaderPage h @ file) = Inr (hPageSize h)"
    using h len unfolding bootstrapPageSize_def Let_def t by (simp add: headerOk_def)
  then show "ReadHeaderFile (encodeHeaderPage h @ file) = Inr h"
    using len d by (simp add: ReadHeaderFile_def readHeaderAt_def)
next
  show "headerOk h'" if "decodeHeaderPage page = Inr h'" for page h'
    by (rule decode_headerOk(1) [OF that])
qed

definition sampleHeader :: Header where
  "sampleHeader = \<lparr>FormatVersion = 3, hPageSize = 4096, LastWALSeq = 7, NextPageID = 9, BTreeRoot = 2,
     Features = 11, EncryptionSalt = replicate 16 5, hCommitSeq = 4, EncryptionKeyCheck = replicate 32 6,
     MaxValueBytes = 8192, EmbeddingDim = 0, EmbeddingMetric = 0, AuthTag = replicate 32 0,
     BTreeRootGeneration = 6, FreelistHead = 0, FreelistHeadGeneration = 0, FreelistCount = 1,
     InlineFreelist = 3 # replicate 39 0\<rparr>"

lemma sampleHeader_ok: "headerOk sampleHeader"
  by (simp add: headerOk_def sampleHeader_def IsValidPageSize_def validPageSizes_def)

theorem Header_roundtrip_witness:
  "decodeHeaderPage (encodeHeaderPage sampleHeader) = Inr sampleHeader"
  using Header_roundtrip [of sampleHeader] sampleHeader_ok by simp

lemma take_encodeHeaderPage:
  assumes "headerOk h"
  shows "take headerPrefixSize (encodeHeaderPage h) = headerPrefix h @ replicate 21 0"
  using length_headerPrefix [OF assms] headerOk_page [OF assms]
  by (simp add: encodeHeaderPage_def headerPrefixSize_def min_def)

lemma macInput_inject:
  assumes "headerOk h" "headerOk h'"
    and "take headerPrefixSize (encodeHeaderPage h) = take headerPrefixSize (encodeHeaderPage h')"
  shows "h = h'"
proof -
  have dec: "decodeHeaderPage (headerPrefix g @ replicate 21 0) = Inr g" if "headerOk g" for g
    by (rule decode_encode [OF that]) (simp add: length_headerPrefix [OF that])
  have "headerPrefix h @ replicate 21 0 = headerPrefix h' @ replicate 21 0"
    using assms(3) by (simp only: take_encodeHeaderPage [OF assms(1)] take_encodeHeaderPage [OF assms(2)])
  with dec [OF assms(1)] dec [OF assms(2)] have "(Inr h :: engine_error + Header) = Inr h'" by metis
  then show ?thesis by simp
qed

text \<open>C38: header authentication. A header that is authenticated verifies under the same key; and
  if two well-formed headers with the same tag both verify, they are equal or the MAC of two
  different 512-byte prefixes collides.\<close>
theorem Header_authentication:
  assumes "\<forall>k m. length (hmac k m) = 32" "headerOk h"
  shows "verifyHeaderAuthentication hmac (authenticateHeader hmac h key) key \<and>
    headerOk (authenticateHeader hmac h key) \<and>
    (\<forall>h'. headerOk h' \<and> verifyHeaderAuthentication hmac h key \<and> verifyHeaderAuthentication hmac h' key \<and>
       AuthTag h' = AuthTag h \<longrightarrow>
       h' = h \<or> (\<exists>m m'. m \<noteq> m' \<and> length m = 512 \<and> length m' = 512 \<and> hmac key m = hmac key m'))"
proof (intro conjI allI impI)
  show "verifyHeaderAuthentication hmac (authenticateHeader hmac h key) key"
    by (simp add: verifyHeaderAuthentication_def authenticateHeader_def Let_def)
  show "headerOk (authenticateHeader hmac h key)"
    using assms by (simp add: headerOk_def authenticateHeader_def Let_def)
  fix h' assume a: "headerOk h' \<and> verifyHeaderAuthentication hmac h key \<and>
    verifyHeaderAuthentication hmac h' key \<and> AuthTag h' = AuthTag h"
  define z where "z = (\<lambda>g :: Header. g\<lparr>AuthTag := replicate HeaderAuthTagLen 0\<rparr>)"
  define m where "m = (\<lambda>g :: Header. take headerPrefixSize (encodeHeaderPage (z g)))"
  have ok: "headerOk (z g)" if "headerOk g" for g
    using that by (simp add: headerOk_def z_def HeaderAuthTagLen_def)
  have tags: "hmac key (m h) = hmac key (m h')"
  proof -
    have "AuthTag g = hmac key (m g)" if "verifyHeaderAuthentication hmac g key" for g :: Header
      using that by (simp add: verifyHeaderAuthentication_def authenticateHeader_def Let_def m_def z_def)
    with a show ?thesis by metis
  qed
  have len: "length (m g) = 512" if "headerOk g" for g
    using ok [OF that] length_headerPrefix by (simp add: m_def take_encodeHeaderPage)
  show "h' = h \<or> (\<exists>m m'. m \<noteq> m' \<and> length m = 512 \<and> length m' = 512 \<and> hmac key m = hmac key m')"
  proof (cases "m h = m h'")
    case True
    then have "z h = z h'"
      using macInput_inject ok a assms(2) by (simp add: m_def)
    then have "h\<lparr>AuthTag := AuthTag h\<rparr> = h'\<lparr>AuthTag := AuthTag h\<rparr>"
      unfolding z_def by (cases h; cases h') simp
    with a show ?thesis by (cases h; cases h') simp
  next
    case False
    with tags len a assms(2) show ?thesis by blast
  qed
qed

theorem Header_authentication_witness:
  "verifyHeaderAuthentication (\<lambda>k m. replicate 32 (hd k)) 
     (authenticateHeader (\<lambda>k m. replicate 32 (hd k)) sampleHeader [9]) [9]"
  using Header_authentication [of "\<lambda>k m. replicate 32 (hd k)" sampleHeader "[9]"] sampleHeader_ok by simp

end
