(* ===== verification/WalRecovery.thy ===== *)
theory WalRecovery
  imports HeaderFormat Keys
begin

text \<open>
  The redo log: \<open>internal/engine/wal.go\<close>, the recovery of \<open>engine.go\<close>
  (\<open>openReplayWAL\<close> and what it calls) and the commit of \<open>writetxn.go\<close> as a sequence
  of disk effects. The primary file is its header page and its data pages by page number, each at
  the offset \<open>pageByteOffset\<close> gives (two pages never overlap, see
  \<open>Page_offsets_disjoint\<close>); the log is its bytes. HMAC is the parameter of
  \<open>HeaderFormat\<close>.
\<close>

unbundle bit_operations_syntax

subsection \<open>Records\<close>

definition walRecordOverhead :: nat where "walRecordOverhead = 8 + 8 + 4"
definition walRecordMACSize :: nat where "walRecordMACSize = 32"

definition walRecordSize :: "nat \<Rightarrow> nat" where
  "walRecordSize pageSize = walRecordOverhead + pageSize"

definition sumMACInput :: "uint64 \<Rightarrow> uint64 \<Rightarrow> bytes \<Rightarrow> bytes" where
  "sumMACInput seq pageID payload = PutUint64 seq @ PutUint64 pageID @ payload"

definition walMAC :: "hmac \<Rightarrow> bytes \<Rightarrow> bytes \<Rightarrow> bytes" where
  "walMAC hmac input key = take walRecordMACSize (hmac key input)"

definition encodeWALRecordWithMAC ::
  "hmac \<Rightarrow> uint64 \<Rightarrow> uint64 \<Rightarrow> bytes \<Rightarrow> bytes \<Rightarrow> bool \<Rightarrow> nat \<Rightarrow> engine_error + bytes" where
  "encodeWALRecordWithMAC hmac seq pageID payload macKey useMAC pageSize =
     (if length payload \<noteq> pageSize then Inl (EngineFailure ''panic: wal payload size mismatch'')
      else Inr (PutUint64 seq @ PutUint64 pageID @ PutUint32 (ChecksumIEEE payload) @ payload @
             (if useMAC then walMAC hmac (sumMACInput seq pageID payload) macKey else [])))"

definition encodeWALRecord :: "hmac \<Rightarrow> uint64 \<Rightarrow> uint64 \<Rightarrow> bytes \<Rightarrow> nat \<Rightarrow> engine_error + bytes" where
  "encodeWALRecord hmac seq pageID payload pageSize =
     encodeWALRecordWithMAC hmac seq pageID payload (replicate 32 0) False pageSize"

definition walStride :: "bool \<Rightarrow> nat \<Rightarrow> nat" where
  "walStride useMAC pageSize = walRecordSize pageSize + (if useMAC then walRecordMACSize else 0)"

text \<open>The checks of the replay loop on one record: its sequence, page and payload.\<close>

definition readRecord :: "hmac \<Rightarrow> bytes \<Rightarrow> bool \<Rightarrow> nat \<Rightarrow> bytes \<Rightarrow> engine_error + uint64 \<times> uint64 \<times> bytes" where
  "readRecord hmac macKey useMAC pageSize chunk =
     (let seq = Uint64 (slice 0 8 chunk); pageID = Uint64 (slice 8 16 chunk);
          wantCRC = Uint32 (slice 16 20 chunk); payload = drop 20 chunk
      in bindR
          (if useMAC then
             (if length payload < pageSize + walRecordMACSize then Inl ErrCorruptWAL
              else let tagOff = 20 + pageSize; payloadData = take pageSize payload;
                       gotTag = slice tagOff (tagOff + walRecordMACSize) chunk;
                       wantTag = walMAC hmac (sumMACInput seq pageID payloadData) macKey
              in if gotTag \<noteq> wantTag then Inl ErrCorruptWAL else Inr payloadData)
           else Inr payload)
          (\<lambda>payload. if ChecksumIEEE payload \<noteq> wantCRC then Inl ErrCorruptWAL
                      else Inr (seq, pageID, payload)))"

text \<open>
  The replay loop on the bytes not read yet. \<open>apply\<close> answers an error and the state it leaves
  behind, which is kept when the loop stops.
\<close>

type_synonym 's wal_apply = "uint64 \<Rightarrow> uint64 \<Rightarrow> bytes \<Rightarrow> 's \<Rightarrow> engine_error option \<times> 's"

function replayFrom ::
  "hmac \<Rightarrow> bytes \<Rightarrow> bool \<Rightarrow> nat \<Rightarrow> uint64 \<Rightarrow> 's wal_apply \<Rightarrow> bytes \<Rightarrow> uint64 \<Rightarrow> 's \<Rightarrow>
   (engine_error + uint64) \<times> 's" where
  "replayFrom hmac macKey useMAC pageSize lastApplied apply data maxSeq st =
     (if data = [] then (Inr maxSeq, st)
      else if length data < walStride useMAC pageSize then (Inl ErrCorruptWAL, st)
      else case readRecord hmac macKey useMAC pageSize (take (walStride useMAC pageSize) data) of
        Inl e \<Rightarrow> (Inl e, st)
      | Inr (seq, pageID, payload) \<Rightarrow>
          let maxSeq = (if seq > maxSeq then seq else maxSeq);
              rest = drop (walStride useMAC pageSize) data
          in if seq \<le> lastApplied
             then replayFrom hmac macKey useMAC pageSize lastApplied apply rest maxSeq st
             else case apply seq pageID payload st of
               (Some e, st) \<Rightarrow> (Inl e, st)
             | (None, st) \<Rightarrow> replayFrom hmac macKey useMAC pageSize lastApplied apply rest maxSeq st)"
  by pat_completeness auto

termination
  by (relation "measure (\<lambda>(hmac, macKey, useMAC, pageSize, lastApplied, apply, data, maxSeq, st). length data)")
    (auto simp: walStride_def walRecordSize_def walRecordOverhead_def)

declare replayFrom.simps [simp del]

definition parseAndReplayWALWithMAC ::
  "hmac \<Rightarrow> bytes \<Rightarrow> uint64 \<Rightarrow> 's wal_apply \<Rightarrow> bytes \<Rightarrow> bool \<Rightarrow> nat \<Rightarrow> 's \<Rightarrow>
   (engine_error + uint64) \<times> 's" where
  "parseAndReplayWALWithMAC hmac walData lastApplied apply macKey useMAC pageSize st =
     replayFrom hmac macKey useMAC pageSize lastApplied apply walData 0 st"

subsection \<open>Recovery at open\<close>

record openOptions =
  ExpectEncryptionKeyCheck :: bool
  optEncryptionKeyCheck :: bytes
  WALMACKey :: bytes
  EnableWALMAC :: bool
  HeaderMACKey :: bytes
  EnableHeaderMAC :: bool

record primary =
  pHeader :: bytes
  pPages :: "uint64 \<Rightarrow> bytes option"

record replayPage =
  rpPageID :: uint64
  rpPayload :: bytes

record openWALReplay =
  rDb :: primary
  rHdr :: Header
  rOpts :: "openOptions option"
  rPageSize :: nat
  rPhysical :: nat
  rPending :: "replayPage list"
  rCommitted :: "replayPage list"
  rReplayHeader :: "Header option"

definition writeDataAt :: "nat \<Rightarrow> nat \<Rightarrow> replayPage \<Rightarrow> primary \<Rightarrow> engine_error option \<times> primary" where
  "writeDataAt pageSize physical p db =
     (case pageByteOffset (rpPageID p) pageSize physical of
        Inl e \<Rightarrow> (Some e, db)
      | Inr off \<Rightarrow> (None, db\<lparr>pPages := (pPages db)(rpPageID p \<mapsto> rpPayload p)\<rparr>))"

definition applyHeaderMarker ::
  "hmac \<Rightarrow> uint64 \<Rightarrow> bytes \<Rightarrow> openWALReplay \<Rightarrow> engine_error option \<times> openWALReplay" where
  "applyHeaderMarker hmac seq payload r =
     (case rOpts r of
        None \<Rightarrow> (Some ErrCorruptWAL, r)
      | Some opts \<Rightarrow>
          if FormatVersion (rHdr r) \<noteq> formatVersionV3 \<or> length payload < rPageSize r
          then (Some ErrCorruptWAL, r)
          else case decodeHeaderPage (take (rPageSize r) payload) of
            Inl e \<Rightarrow> (Some ErrCorruptWAL, r)
          | Inr candidate \<Rightarrow>
              if FormatVersion candidate \<noteq> formatVersionV3 \<or> LastWALSeq candidate \<noteq> seq \<or>
                 EncryptionSalt candidate \<noteq> EncryptionSalt (rHdr r) \<or>
                 \<not> verifyHeaderAuthentication hmac candidate (HeaderMACKey opts)
              then (Some ErrCorruptWAL, r)
              else (None, r\<lparr>rCommitted := rPending r, rPending := [], rReplayHeader := Some candidate\<rparr>))"

definition replayApply :: "hmac \<Rightarrow> openWALReplay wal_apply" where
  "replayApply hmac seq pageID payload r =
     (if pageID = 0 then applyHeaderMarker hmac seq payload r
      else if FormatVersion (rHdr r) = formatVersionV3 then
        (if length payload < 8 \<or> Uint64 (slice 0 8 payload) \<noteq> seq then (Some ErrCorruptWAL, r)
         else (None, r\<lparr>rPending := rPending r @ [\<lparr>rpPageID = pageID, rpPayload = payload\<rparr>]\<rparr>))
      else case writeDataAt (rPageSize r) (rPhysical r) \<lparr>rpPageID = pageID, rpPayload = payload\<rparr> (rDb r) of
        (e, db) \<Rightarrow> (e, r\<lparr>rDb := db\<rparr>))"

primrec writePagesAt :: "nat \<Rightarrow> nat \<Rightarrow> replayPage list \<Rightarrow> primary \<Rightarrow> engine_error option \<times> primary" where
  "writePagesAt pageSize physical [] db = (None, db)"
| "writePagesAt pageSize physical (p # ps) db =
     (case writeDataAt pageSize physical p db of
        (Some e, db) \<Rightarrow> (Some e, db)
      | (None, db) \<Rightarrow> writePagesAt pageSize physical ps db)"

definition publishAuthenticatedPages ::
  "uint64 \<Rightarrow> openWALReplay \<Rightarrow> engine_error option \<times> openWALReplay" where
  "publishAuthenticatedPages lastSeq r =
     (case rReplayHeader r of
        None \<Rightarrow> (Some ErrCorruptWAL, r)
      | Some h \<Rightarrow>
          if LastWALSeq h \<noteq> lastSeq then (Some ErrCorruptWAL, r)
          else case writePagesAt (rPageSize r) (rPhysical r) (rCommitted r) (rDb r) of
            (Some e, db) \<Rightarrow> (Some e, r\<lparr>rDb := db\<rparr>)
          | (None, db) \<Rightarrow> (None, r\<lparr>rDb := db, rHdr := h\<rparr>))"

definition publish :: "hmac \<Rightarrow> uint64 \<Rightarrow> openWALReplay \<Rightarrow> engine_error option \<times> openWALReplay" where
  "publish hmac lastSeq r =
     (case (if FormatVersion (rHdr r) = formatVersionV3 then publishAuthenticatedPages lastSeq r
            else (None, r\<lparr>rHdr := (rHdr r)\<lparr>LastWALSeq := lastSeq\<rparr>\<rparr>)) of
        (Some e, r) \<Rightarrow> (Some e, r)
      | (None, r) \<Rightarrow>
          let (headerKey, headerMACEnabled) =
            (case rOpts r of None \<Rightarrow> (replicate 32 0, False)
             | Some opts \<Rightarrow> (HeaderMACKey opts, EnableHeaderMAC opts \<and> FormatVersion (rHdr r) = formatVersionV3))
          in (None, r\<lparr>rDb := (rDb r)\<lparr>pHeader := headerOnDisk hmac (rHdr r) headerKey headerMACEnabled\<rparr>\<rparr>))"

definition openValidateEncryptionKey :: "hmac \<Rightarrow> openOptions option \<Rightarrow> Header \<Rightarrow> engine_error + unit" where
  "openValidateEncryptionKey hmac opts hdr =
     (if (case opts of None \<Rightarrow> False
          | Some opt \<Rightarrow> ExpectEncryptionKeyCheck opt \<and> Features hdr AND FeatureEncryptedDataPages \<noteq> 0 \<and>
              EncryptionKeyCheck hdr \<noteq> replicate HeaderEncryptionKeyCheckLen 0 \<and>
              EncryptionKeyCheck hdr \<noteq> optEncryptionKeyCheck opt)
      then Inl ErrBadEncryptionKey
      else if FormatVersion hdr = formatVersionV3 then
        (case opts of None \<Rightarrow> Inl ErrPageAuthentication
         | Some opt \<Rightarrow>
             if \<not> EnableHeaderMAC opt \<or> \<not> verifyHeaderAuthentication hmac hdr (HeaderMACKey opt)
             then Inl ErrPageAuthentication else Inr ())
      else Inr ())"

definition openWALMACConfig :: "Header \<Rightarrow> openOptions option \<Rightarrow> engine_error + bool \<times> bytes" where
  "openWALMACConfig hdr opts =
     (if Features hdr AND FeatureWALKeyedMAC = 0 then Inr (False, replicate 32 0)
      else case opts of None \<Rightarrow> Inl ErrBadEncryptionKey
      | Some opt \<Rightarrow> if EnableWALMAC opt then Inr (True, WALMACKey opt) else Inl ErrBadEncryptionKey)"

text \<open>
  The disk after the call and the result: the sequence, the MAC configuration, the header.
  \<open>openValidatedWALData\<close> refuses a log above 16 GiB before any of this; such logs are
  outside the model.
\<close>

definition openReplayWAL ::
  "hmac \<Rightarrow> primary \<Rightarrow> bytes \<Rightarrow> Header \<Rightarrow> openOptions option \<Rightarrow> nat \<Rightarrow> nat \<Rightarrow>
   (engine_error + uint64 \<times> bool \<times> bytes \<times> Header) \<times> primary \<times> bytes" where
  "openReplayWAL hmac db walData hdr opts pageSize physical =
     (case openWALMACConfig hdr opts of
        Inl e \<Rightarrow> (Inl e, db, walData)
      | Inr (macEnabled, macKey) \<Rightarrow>
          let replay = \<lparr>rDb = db, rHdr = hdr, rOpts = opts, rPageSize = pageSize, rPhysical = physical,
                        rPending = [], rCommitted = [], rReplayHeader = None\<rparr>
          in case parseAndReplayWALWithMAC hmac walData (LastWALSeq hdr) (replayApply hmac) macKey macEnabled
                    physical replay of
               (Inl e, r) \<Rightarrow> (Inl e, rDb r, walData)
             | (Inr maxSeq, r) \<Rightarrow>
                 let lastSeq = max (LastWALSeq hdr) maxSeq
                 in if lastSeq \<noteq> LastWALSeq hdr
                    then (case publish hmac lastSeq r of
                            (Some e, r) \<Rightarrow> (Inl e, rDb r, walData)
                          | (None, r) \<Rightarrow> (Inr (lastSeq, macEnabled, macKey, rHdr r), rDb r, []))
                    else (Inr (lastSeq, macEnabled, macKey, rHdr r), rDb r, []))"

subsection \<open>Commit\<close>

record pendingRedo =
  prSeq :: uint64
  prPageID :: uint64
  prPlain :: bytes

record diskConfig =
  dcPageSize :: nat
  dcPhysical :: nat
  dcWalMAC :: bool
  dcWalKey :: bytes
  dcHeaderMAC :: bool
  dcHeaderKey :: bytes

text \<open>
  The effects of \<open>CommitWriteTxn\<close> on the files, in order, when redo is pending and no
  call fails. The log is written from its start (\<open>walSize\<close> is zero between commits), over
  the records the previous commit left there.
\<close>

datatype disk_step =
    WalWrite bytes
  | WalSync
  | PageWrite pendingRedo
  | PrimarySync
  | HeaderWrite bytes
  | WalTruncate nat

definition redoRecord :: "hmac \<Rightarrow> diskConfig \<Rightarrow> uint64 \<Rightarrow> uint64 \<Rightarrow> bytes \<Rightarrow> engine_error + bytes" where
  "redoRecord hmac c seq pageID payload =
     encodeWALRecordWithMAC hmac seq pageID payload (dcWalKey c) (dcWalMAC c) (dcPhysical c)"

definition encodeHeaderWALRecord :: "hmac \<Rightarrow> diskConfig \<Rightarrow> Header \<Rightarrow> engine_error + bytes" where
  "encodeHeaderWALRecord hmac c hdr =
     (let authenticated = authenticateHeader hmac hdr (dcHeaderKey c);
          page = encodeHeaderPage authenticated;
          payload = take (dcPhysical c) page @ replicate (dcPhysical c - length page) 0
      in redoRecord hmac c (LastWALSeq hdr) 0 payload)"

primrec redoRecords :: "hmac \<Rightarrow> diskConfig \<Rightarrow> pendingRedo list \<Rightarrow> engine_error + bytes list" where
  "redoRecords hmac c [] = Inr []"
| "redoRecords hmac c (p # ps) =
     bindR (redoRecord hmac c (prSeq p) (prPageID p) (prPlain p)) (\<lambda>r.
     bindR (redoRecords hmac c ps) (\<lambda>rs. Inr (r # rs)))"

definition commitSteps :: "hmac \<Rightarrow> diskConfig \<Rightarrow> Header \<Rightarrow> pendingRedo list \<Rightarrow> engine_error + disk_step list" where
  "commitSteps hmac c hdr pending =
     (let final = hdr\<lparr>LastWALSeq := prSeq (last pending)\<rparr>
      in bindR (redoRecords hmac c pending) (\<lambda>recs.
         bindR (if dcHeaderMAC c then mapR (\<lambda>r. [r]) (encodeHeaderWALRecord hmac c final) else Inr []) (\<lambda>marker.
           let written = length (concat (recs @ marker))
           in Inr (map WalWrite (recs @ marker) @ [WalSync] @ map PageWrite pending @
                [PrimarySync, HeaderWrite (headerOnDisk hmac final (dcHeaderKey c) (dcHeaderMAC c)), PrimarySync,
                 WalTruncate written, WalSync]))))"

text \<open>
  The files as a running process sees them: every write takes effect at once, and a sync changes
  nothing it can read. What a crash leaves of them is the matter of \<open>ioStep\<close> and
  \<open>crashes\<close> below, where a sync is what makes the writes before it durable.
\<close>

record disk =
  dPrimary :: primary
  dWal :: bytes
  dWalPos :: nat

definition diskStep :: "disk_step \<Rightarrow> disk \<Rightarrow> disk" where
  "diskStep s d =
     (case s of
        WalWrite b \<Rightarrow> d\<lparr>dWal := take (dWalPos d) (dWal d) @ b @ drop (dWalPos d + length b) (dWal d),
                        dWalPos := dWalPos d + length b\<rparr>
      | WalSync \<Rightarrow> d
      | PageWrite p \<Rightarrow> d\<lparr>dPrimary := (dPrimary d)\<lparr>pPages := (pPages (dPrimary d))(prPageID p \<mapsto> prPlain p)\<rparr>\<rparr>
      | PrimarySync \<Rightarrow> d
      | HeaderWrite h \<Rightarrow> d\<lparr>dPrimary := (dPrimary d)\<lparr>pHeader := h\<rparr>\<rparr>
      | WalTruncate n \<Rightarrow> d\<lparr>dWal := take n (dWal d) @ replicate (n - length (dWal d)) 0, dWalPos := 0\<rparr>)"

text \<open>
  Opening the files a crash left behind, as far as the engine's \<open>open\<close> does it from the
  header to the replayed log: the header and data pages the engine then works with.
\<close>

definition reopen ::
  "hmac \<Rightarrow> openOptions option \<Rightarrow> nat \<Rightarrow> nat \<Rightarrow> disk \<Rightarrow> engine_error + Header \<times> (uint64 \<Rightarrow> bytes option)" where
  "reopen hmac opts pageSize physical d =
     bindR (readHeaderAt (pHeader (dPrimary d)) pageSize) (\<lambda>hdr.
     bindR (openValidateEncryptionKey hmac opts hdr) (\<lambda>_.
       case openReplayWAL hmac (dPrimary d) (dWal d) hdr opts pageSize physical of
         (Inl e, db, wal) \<Rightarrow> Inl e
       | (Inr (seq, macEnabled, macKey, hdr), db, wal) \<Rightarrow> Inr (hdr, pPages db)))"

subsection \<open>Crashes\<close>

text \<open>
  The files under the operating system's caches: \<open>synced\<close> is what is certainly on
  stable storage, the two lists are the writes to the primary file and to the log that their
  last sync does not cover. A sync makes the pending writes of its own file durable and says
  nothing of the other file.
\<close>

record files =
  synced :: disk
  unsyncedPrimary :: "disk_step list"
  unsyncedLog :: "disk_step list"

definition ioStep :: "disk_step \<Rightarrow> files \<Rightarrow> files" where
  "ioStep s f =
     (case s of
        WalWrite b \<Rightarrow> f\<lparr>unsyncedLog := unsyncedLog f @ [s]\<rparr>
      | WalTruncate n \<Rightarrow> f\<lparr>unsyncedLog := unsyncedLog f @ [s]\<rparr>
      | PageWrite p \<Rightarrow> f\<lparr>unsyncedPrimary := unsyncedPrimary f @ [s]\<rparr>
      | HeaderWrite h \<Rightarrow> f\<lparr>unsyncedPrimary := unsyncedPrimary f @ [s]\<rparr>
      | WalSync \<Rightarrow> f\<lparr>synced := fold diskStep (unsyncedLog f) (synced f), unsyncedLog := []\<rparr>
      | PrimarySync \<Rightarrow> f\<lparr>synced := fold diskStep (unsyncedPrimary f) (synced f), unsyncedPrimary := []\<rparr>)"

definition settled :: "disk \<Rightarrow> files" where
  "settled d = \<lparr>synced = d, unsyncedPrimary = [], unsyncedLog = []\<rparr>"

text \<open>
  What a crash keeps of the unsynced writes. Of the primary file: any of the writes, whatever
  was written before or after them; a data page may be left with arbitrary bytes, the header
  page with some of its 512-byte sectors written. Of the log: its writes reach the disk in
  order, the last of them in part. (For log writes out of order see
  \<open>Marker_accepts_missing_pages\<close>.)
\<close>

inductive keepsPrimary :: "disk_step list \<Rightarrow> disk \<Rightarrow> disk \<Rightarrow> bool" where
  none: "keepsPrimary [] d d"
| lost: "keepsPrimary us d d' \<Longrightarrow> keepsPrimary (u # us) d d'"
| kept: "keepsPrimary us (diskStep u d) d' \<Longrightarrow> keepsPrimary (u # us) d d'"
| tornPage: "keepsPrimary us (diskStep (PageWrite (p\<lparr>prPlain := garbage\<rparr>)) d) d' \<Longrightarrow>
    keepsPrimary (PageWrite p # us) d d'"
| tornHeader: "keepsPrimary us (diskStep (HeaderWrite (take (512 * n) h @ drop (512 * n) (pHeader (dPrimary d)))) d) d' \<Longrightarrow>
    keepsPrimary (HeaderWrite h # us) d d'"

inductive keepsLog :: "disk_step list \<Rightarrow> disk \<Rightarrow> disk \<Rightarrow> bool" where
  lost: "keepsLog us d d"
| kept: "keepsLog us (diskStep u d) d' \<Longrightarrow> keepsLog (u # us) d d'"
| torn: "keepsLog (WalWrite b # us) d (diskStep (WalWrite (take n b)) d)"

inductive_simps keepsPrimary_Nil [simp]: "keepsPrimary [] d d'"
inductive_simps keepsPrimary_Page: "keepsPrimary (PageWrite p # us) d d'"
inductive_simps keepsPrimary_Header: "keepsPrimary (HeaderWrite h # us) d d'"
inductive_simps keepsLog_Nil [simp]: "keepsLog [] d d'"
inductive_simps keepsLog_Wal: "keepsLog (WalWrite b # us) d d'"
inductive_simps keepsLog_Truncate: "keepsLog (WalTruncate n # us) d d'"

text \<open>A crash during a sequence of effects: after any number of them, the disk is left with what
  is synced and what the crash keeps of the rest.\<close>

inductive crashes :: "disk_step list \<Rightarrow> files \<Rightarrow> disk \<Rightarrow> bool" where
  stop: "keepsLog (unsyncedLog f) (synced f) d \<Longrightarrow> keepsPrimary (unsyncedPrimary f) d d' \<Longrightarrow> crashes steps f d'"
| step: "crashes steps (ioStep s f) d' \<Longrightarrow> crashes (s # steps) f d'"

inductive_simps crashes_Nil: "crashes [] f d'"
inductive_simps crashes_Cons: "crashes (s # steps) f d'"

text \<open>The two views agree: a process reads what is synced with the unsynced writes on top.\<close>

definition live :: "files \<Rightarrow> disk" where
  "live f = fold diskStep (unsyncedPrimary f) (fold diskStep (unsyncedLog f) (synced f))"

definition logStep :: "disk_step \<Rightarrow> bool" where
  "logStep s \<longleftrightarrow> (case s of WalWrite b \<Rightarrow> True | WalTruncate n \<Rightarrow> True | _ \<Rightarrow> False)"

definition primaryStep :: "disk_step \<Rightarrow> bool" where
  "primaryStep s \<longleftrightarrow> (case s of PageWrite p \<Rightarrow> True | HeaderWrite h \<Rightarrow> True | _ \<Rightarrow> False)"

definition separated :: "files \<Rightarrow> bool" where
  "separated f \<longleftrightarrow> list_all logStep (unsyncedLog f) \<and> list_all primaryStep (unsyncedPrimary f)"

lemma diskStep_commute:
  "logStep l \<Longrightarrow> primaryStep p \<Longrightarrow> diskStep l (diskStep p d) = diskStep p (diskStep l d)"
  by (auto simp: logStep_def primaryStep_def diskStep_def split: disk_step.splits)

lemma fold_commute_step:
  "logStep l \<Longrightarrow> list_all primaryStep ps \<Longrightarrow> diskStep l (fold diskStep ps d) = fold diskStep ps (diskStep l d)"
  by (induction ps arbitrary: d) (simp_all add: diskStep_commute)

lemma fold_commute:
  "list_all logStep ls \<Longrightarrow> list_all primaryStep ps \<Longrightarrow>
   fold diskStep ls (fold diskStep ps d) = fold diskStep ps (fold diskStep ls d)"
  by (induction ls arbitrary: d) (simp_all add: fold_commute_step)

lemma live_ioStep:
  assumes "separated f"
  shows "live (ioStep s f) = diskStep s (live f)" "separated (ioStep s f)"
  using assms fold_commute_step [of s "unsyncedPrimary f"] fold_commute [of "unsyncedLog f" "unsyncedPrimary f"]
  by (auto simp: live_def ioStep_def separated_def logStep_def primaryStep_def diskStep_def split: disk_step.split)

lemma live_ioSteps:
  "separated f \<Longrightarrow> live (fold ioStep steps f) = fold diskStep steps (live f)"
  by (induction steps arbitrary: f) (simp_all add: live_ioStep)

subsection \<open>Replaying what was written\<close>

type_synonym walEntry = "uint64 \<times> uint64 \<times> bytes"

definition recBytes :: "hmac \<Rightarrow> diskConfig \<Rightarrow> walEntry \<Rightarrow> bytes" where
  "recBytes hmac c = (\<lambda>(seq, pageID, payload).
     PutUint64 seq @ PutUint64 pageID @ PutUint32 (ChecksumIEEE payload) @ payload @
     (if dcWalMAC c then walMAC hmac (sumMACInput seq pageID payload) (dcWalKey c) else []))"

definition entryFits :: "diskConfig \<Rightarrow> walEntry \<Rightarrow> bool" where
  "entryFits c e \<longleftrightarrow> length (snd (snd e)) = dcPhysical c"

abbreviation stride :: "diskConfig \<Rightarrow> nat" where
  "stride c \<equiv> walStride (dcWalMAC c) (dcPhysical c)"

abbreviation mac32 :: "hmac \<Rightarrow> bool" where
  "mac32 hmac \<equiv> \<forall>k m. length (hmac k m) = 32"

lemma redoRecord_iff:
  "redoRecord hmac c seq pageID payload = Inr r \<longleftrightarrow>
   entryFits c (seq, pageID, payload) \<and> r = recBytes hmac c (seq, pageID, payload)"
  by (auto simp: redoRecord_def encodeWALRecordWithMAC_def entryFits_def recBytes_def)

lemma length_recBytes:
  assumes "mac32 hmac" "entryFits c e"
  shows "length (recBytes hmac c e) = stride c"
proof -
  obtain seq pageID payload where e: "e = (seq, pageID, payload)" by (cases e)
  have m: "length (walMAC hmac m k) = walRecordMACSize" for m k
    using assms(1) by (simp add: walMAC_def walRecordMACSize_def)
  show ?thesis
    using assms(2) m unfolding e
    by (simp add: recBytes_def entryFits_def walStride_def walRecordSize_def walRecordOverhead_def)
qed

lemma readRecord_written:
  assumes "mac32 hmac" "entryFits c (seq, pageID, payload)"
  shows "readRecord hmac (dcWalKey c) (dcWalMAC c) (dcPhysical c) (recBytes hmac c (seq, pageID, payload)) =
    Inr (seq, pageID, payload)"
proof -
  let ?r = "recBytes hmac c (seq, pageID, payload)"
  have l: "length payload = dcPhysical c" "\<And>m k. length (hmac k m) = 32"
    using assms by (simp_all add: entryFits_def)
  have f: "slice 0 8 ?r = PutUint64 seq" "slice 8 16 ?r = PutUint64 pageID"
    "slice 16 20 ?r = PutUint32 (ChecksumIEEE payload)"
    by (simp_all add: recBytes_def slice_skip slice_stop slice_all)
  have d: "drop 20 ?r = payload @
      (if dcWalMAC c then walMAC hmac (sumMACInput seq pageID payload) (dcWalKey c) else [])"
    by (simp add: recBytes_def)
  have t: "slice (20 + dcPhysical c) (20 + dcPhysical c + walRecordMACSize) ?r =
      walMAC hmac (sumMACInput seq pageID payload) (dcWalKey c)" if "dcWalMAC c"
  proof -
    have "slice (20 + dcPhysical c) (20 + dcPhysical c + walRecordMACSize) ?r =
      take walRecordMACSize (drop (dcPhysical c) (drop 20 ?r))" by (simp add: slice_def add.commute)
    then show ?thesis using that l by (simp add: d walMAC_def walRecordMACSize_def)
  qed
  show ?thesis
  proof (cases "dcWalMAC c")
    case True
    then show ?thesis
      using l t [OF True] by (simp add: readRecord_def f d Let_def walMAC_def walRecordMACSize_def)
  qed (simp add: readRecord_def f d Let_def)
qed

primrec replayList :: "uint64 \<Rightarrow> 's wal_apply \<Rightarrow> walEntry list \<Rightarrow> uint64 \<Rightarrow> 's \<Rightarrow> (engine_error + uint64) \<times> 's" where
  "replayList lastA apply [] m st = (Inr m, st)"
| "replayList lastA apply (e # es) m st =
     (let m = max m (fst e)
      in if fst e \<le> lastA then replayList lastA apply es m st
         else case apply (fst e) (fst (snd e)) (snd (snd e)) st of
           (Some err, st) \<Rightarrow> (Inl err, st)
         | (None, st) \<Rightarrow> replayList lastA apply es m st)"

abbreviation replayBytes where
  "replayBytes hmac c \<equiv> replayFrom hmac (dcWalKey c) (dcWalMAC c) (dcPhysical c)"

lemma replay_step:
  assumes "length r = walStride useMAC ps" "readRecord hmac key useMAC ps r = Inr (seq, pageID, payload)"
  shows "replayFrom hmac key useMAC ps lastA apply (r @ rest) m st =
    (if seq \<le> lastA then replayFrom hmac key useMAC ps lastA apply rest (max m seq) st
     else case apply seq pageID payload st of
       (Some e, st) \<Rightarrow> (Inl e, st)
     | (None, st) \<Rightarrow> replayFrom hmac key useMAC ps lastA apply rest (max m seq) st)"
proof -
  have "r \<noteq> []" using assms(1) by (auto simp: walStride_def walRecordSize_def walRecordOverhead_def)
  moreover have "(if seq > m then seq else m) = max m seq" by (auto simp: max_def)
  ultimately show ?thesis
    using assms by (subst replayFrom.simps) simp
qed

lemma replay_written:
  assumes "mac32 hmac" "\<forall>e \<in> set es. entryFits c e"
  shows "replayBytes hmac c lastA apply (concat (map (recBytes hmac c) es) @ rest) m st =
    (case replayList lastA apply es m st of
       (Inl err, st) \<Rightarrow> (Inl err, st)
     | (Inr m, st) \<Rightarrow> replayBytes hmac c lastA apply rest m st)"
  using assms(2)
proof (induction es arbitrary: m st)
  case (Cons e es)
  obtain seq pageID payload where e: "e = (seq, pageID, payload)" by (cases e)
  have fit: "entryFits c (seq, pageID, payload)" using Cons.prems e by simp
  note step = replay_step [OF length_recBytes [OF assms(1) fit] readRecord_written [OF assms(1) fit]]
  show ?case
    using Cons.IH Cons.prems by (simp add: e step split: prod.split option.split)
qed simp

subsection \<open>Replay of version 3 logs\<close>

definition maxSeqOf :: "uint64 \<Rightarrow> walEntry list \<Rightarrow> uint64" where
  "maxSeqOf m es = fold (\<lambda>e m. max m (fst e)) es m"

lemma maxSeqOf_simps [simp]:
  "maxSeqOf m [] = m" "maxSeqOf m (e # es) = maxSeqOf (max m (fst e)) es"
  "maxSeqOf m (es @ es') = maxSeqOf (maxSeqOf m es) es'"
  by (simp_all add: maxSeqOf_def)

lemma maxSeqOf_le_iff: "maxSeqOf m es \<le> b \<longleftrightarrow> m \<le> b \<and> (\<forall>e \<in> set es. fst e \<le> b)"
  by (induction es arbitrary: m) auto

lemma maxSeqOf_ge: "e \<in> set es \<Longrightarrow> fst e \<le> maxSeqOf m es" "m \<le> maxSeqOf m es"
  using maxSeqOf_le_iff [of m es "maxSeqOf m es"] by simp_all

definition toPage :: "walEntry \<Rightarrow> replayPage" where
  "toPage = (\<lambda>(seq, pageID, payload). \<lparr>rpPageID = pageID, rpPayload = payload\<rparr>)"

definition goodPage :: "walEntry \<Rightarrow> bool" where
  "goodPage = (\<lambda>(seq, pageID, payload).
     pageID \<noteq> 0 \<and> 8 \<le> length payload \<and> Uint64 (slice 0 8 payload) = seq)"

definition freshPages :: "uint64 \<Rightarrow> walEntry list \<Rightarrow> replayPage list" where
  "freshPages lastA es = map toPage (filter (\<lambda>e. lastA < fst e) es)"

lemma replay_pages:
  assumes "FormatVersion (rHdr r) = formatVersionV3" "\<forall>e \<in> set es. fst e \<le> lastA \<or> goodPage e"
  shows "replayList lastA (replayApply hmac) es m r =
    (Inr (maxSeqOf m es), r\<lparr>rPending := rPending r @ freshPages lastA es\<rparr>)"
  using assms
proof (induction es arbitrary: m r)
  case (Cons e es)
  obtain seq pageID payload where e: "e = (seq, pageID, payload)" by (cases e)
  show ?case
  proof (cases "seq \<le> lastA")
    case True
    then show ?thesis using Cons by (simp add: e freshPages_def)
  next
    case False
    then have "goodPage e" using Cons.prems(2) by (auto simp: e)
    then have "replayApply hmac seq pageID payload r =
        (None, r\<lparr>rPending := rPending r @ [toPage e]\<rparr>)"
      using Cons.prems(1) by (auto simp: replayApply_def goodPage_def toPage_def e)
    then show ?thesis
      using False Cons.prems Cons.IH [of "r\<lparr>rPending := rPending r @ [toPage e]\<rparr>" "max m seq"]
      by (simp add: e freshPages_def)
  qed
qed (simp add: freshPages_def)

lemma replayList_append:
  "replayList lastA apply (es @ es') m st =
    (case replayList lastA apply es m st of
       (Inl err, st) \<Rightarrow> (Inl err, st) | (Inr m, st) \<Rightarrow> replayList lastA apply es' m st)"
  by (induction es arbitrary: m st) (auto simp: Let_def split: option.split prod.split)

lemma replayFrom_Nil [simp]: "replayFrom hmac k u ps lastA apply [] m st = (Inr m, st)"
  by (simp add: replayFrom.simps)

lemma readRecord_error: "readRecord hmac k u ps chunk = Inl e \<Longrightarrow> e = ErrCorruptWAL"
  by (auto simp: readRecord_def Let_def bindR_def split: if_splits sum.splits)

subsection \<open>Opening after a commit was cut short\<close>

definition overlay :: "replayPage list \<Rightarrow> (uint64 \<Rightarrow> bytes option) \<Rightarrow> uint64 \<Rightarrow> bytes option" where
  "overlay ps f = fold (\<lambda>p f. f(rpPageID p \<mapsto> rpPayload p)) ps f"

definition offsetsOk :: "nat \<Rightarrow> nat \<Rightarrow> replayPage list \<Rightarrow> bool" where
  "offsetsOk ps phys pages = list_all (\<lambda>p. isOk (pageByteOffset (rpPageID p) ps phys)) pages"

lemma writePagesAt_ok:
  "offsetsOk ps phys pages \<Longrightarrow>
   writePagesAt ps phys pages db = (None, db\<lparr>pPages := overlay pages (pPages db)\<rparr>)"
proof (induction pages arbitrary: db)
  case (Cons p pages)
  then obtain off where "pageByteOffset (rpPageID p) ps phys = Inr off"
    by (cases "pageByteOffset (rpPageID p) ps phys") (auto simp: offsetsOk_def)
  with Cons show ?case by (simp add: writeDataAt_def offsetsOk_def overlay_def)
qed (simp add: overlay_def)

lemma overlay_apply:
  "overlay ps f x = (if x \<in> rpPageID ` set ps then overlay ps (\<lambda>_. None) x else f x)"
proof (induction ps arbitrary: f rule: rev_induct)
  case (snoc p ps)
  have step: "overlay (ps @ [p]) g = (overlay ps g)(rpPageID p \<mapsto> rpPayload p)" for g
    by (simp add: overlay_def)
  show ?case
    using snoc.IH [of f] by (cases "x = rpPageID p") (simp_all only: step, simp_all)
qed (simp add: overlay_def)

lemma overlay_agree:
  assumes "\<forall>x. x \<notin> rpPageID ` set ps \<longrightarrow> f x = g x"
  shows "overlay ps f = overlay ps g"
  using assms by (intro ext) (subst (1 2) overlay_apply, simp)

text \<open>
  What a version 3 commit starts from: the header on disk verifies and matches the
  configuration, the log holds the records of earlier commits, and the pages to commit are well
  formed and newer. \<open>finalHeader\<close> is the header the commit publishes.
\<close>

definition pendEntry :: "pendingRedo \<Rightarrow> walEntry" where
  "pendEntry p = (prSeq p, prPageID p, prPlain p)"

definition finalHeader :: "hmac \<Rightarrow> diskConfig \<Rightarrow> Header \<Rightarrow> pendingRedo list \<Rightarrow> Header" where
  "finalHeader hmac c txn pending =
     authenticateHeader hmac (txn\<lparr>LastWALSeq := prSeq (last pending)\<rparr>) (dcHeaderKey c)"

definition markerEntry :: "diskConfig \<Rightarrow> Header \<Rightarrow> walEntry" where
  "markerEntry c h = (LastWALSeq h, 0, encodeHeaderPage h @ replicate (dcPhysical c - dcPageSize c) 0)"

definition headerMatches :: "hmac \<Rightarrow> diskConfig \<Rightarrow> openOptions \<Rightarrow> Header \<Rightarrow> bool" where
  "headerMatches hmac c opts h \<longleftrightarrow> headerOk h \<and> FormatVersion h = formatVersionV3 \<and>
     unat (hPageSize h) = dcPageSize c \<and> openValidateEncryptionKey hmac (Some opts) h = Inr () \<and>
     Features h AND FeatureWALKeyedMAC \<noteq> 0"

definition configOk :: "hmac \<Rightarrow> diskConfig \<Rightarrow> openOptions \<Rightarrow> bool" where
  "configOk hmac c opts \<longleftrightarrow> mac32 hmac \<and> dcWalMAC c \<and> dcHeaderMAC c \<and> dcPageSize c \<le> dcPhysical c \<and>
     EnableWALMAC opts \<and> WALMACKey opts = dcWalKey c \<and>
     EnableHeaderMAC opts \<and> HeaderMACKey opts = dcHeaderKey c"

definition pendingOk :: "diskConfig \<Rightarrow> uint64 \<Rightarrow> pendingRedo list \<Rightarrow> bool" where
  "pendingOk c lastA pending \<longleftrightarrow> pending \<noteq> [] \<and>
     (\<forall>p \<in> set pending. lastA < prSeq p \<and> prSeq p \<le> prSeq (last pending) \<and>
        goodPage (pendEntry p) \<and> entryFits c (pendEntry p) \<and>
        isOk (pageByteOffset (prPageID p) (dcPageSize c) (dcPhysical c)))"

definition staleOk :: "diskConfig \<Rightarrow> uint64 \<Rightarrow> walEntry list \<Rightarrow> bool" where
  "staleOk c lastA es \<longleftrightarrow> (\<forall>e \<in> set es. fst e \<le> lastA \<and> entryFits c e)"

definition logBytes :: "hmac \<Rightarrow> diskConfig \<Rightarrow> walEntry list \<Rightarrow> bytes" where
  "logBytes hmac c es = concat (map (recBytes hmac c) es)"

lemma logBytes_simps [simp]:
  "logBytes hmac c [] = []" "logBytes hmac c (e # es) = recBytes hmac c e @ logBytes hmac c es"
  "logBytes hmac c (es @ es') = logBytes hmac c es @ logBytes hmac c es'"
  by (simp_all add: logBytes_def)

abbreviation reopenDisk where
  "reopenDisk hmac c opts d \<equiv> reopen hmac (Some opts) (dcPageSize c) (dcPhysical c) d"

definition startReplay :: "diskConfig \<Rightarrow> openOptions \<Rightarrow> Header \<Rightarrow> primary \<Rightarrow> openWALReplay" where
  "startReplay c opts h db = \<lparr>rDb = db, rHdr = h, rOpts = Some opts, rPageSize = dcPageSize c,
     rPhysical = dcPhysical c, rPending = [], rCommitted = [], rReplayHeader = None\<rparr>"

lemma read_header:
  assumes "headerMatches hmac c opts h" "pHeader db = encodeHeaderPage h"
  shows "readHeaderAt (pHeader db) (dcPageSize c) = Inr h"
  using assms headerOk_page [of h]
  by (simp add: headerMatches_def readHeaderAt_def decode_encodeHeaderPage)

text \<open>Opening reduces to the replay of the log and the decision at its end.\<close>

lemma reopen_replay:
  assumes "configOk hmac c opts" "headerMatches hmac c opts h" "pHeader (dPrimary d) = encodeHeaderPage h"
  shows "reopenDisk hmac c opts d =
    (case replayBytes hmac c (LastWALSeq h) (replayApply hmac) (dWal d) 0 (startReplay c opts h (dPrimary d)) of
       (Inl e, r) \<Rightarrow> Inl e
     | (Inr maxSeq, r) \<Rightarrow>
         let lastSeq = max (LastWALSeq h) maxSeq
         in if lastSeq \<noteq> LastWALSeq h
            then (case publish hmac lastSeq r of (Some e, r) \<Rightarrow> Inl e
                  | (None, r) \<Rightarrow> Inr (rHdr r, pPages (rDb r)))
            else Inr (rHdr r, pPages (rDb r)))"
  using assms read_header [OF assms(2,3)]
  by (simp add: reopen_def openReplayWAL_def openWALMACConfig_def headerMatches_def configOk_def
      parseAndReplayWALWithMAC_def startReplay_def Let_def split: sum.split prod.split option.split)

lemma reopen_stale:
  assumes "configOk hmac c opts" "headerMatches hmac c opts h" "pHeader (dPrimary d) = encodeHeaderPage h"
    and "staleOk c (LastWALSeq h) es" "dWal d = logBytes hmac c es"
  shows "reopenDisk hmac c opts d = Inr (h, pPages (dPrimary d))"
proof -
  have fits: "mac32 hmac" "\<forall>e \<in> set es. entryFits c e" "\<forall>e \<in> set es. fst e \<le> LastWALSeq h"
    using assms(1,4) by (simp_all add: configOk_def staleOk_def)
  have "filter (\<lambda>e. LastWALSeq h < fst e) es = []"
    using fits(3) by (auto simp: filter_empty_conv)
  then have "freshPages (LastWALSeq h) es = []" by (simp add: freshPages_def)
  moreover have "FormatVersion (rHdr (startReplay c opts h (dPrimary d))) = formatVersionV3"
    using assms(2) by (simp add: startReplay_def headerMatches_def)
  note replay_pages [OF this, of es "LastWALSeq h" hmac 0]
  moreover have "max (LastWALSeq h) (maxSeqOf 0 es) = LastWALSeq h"
    using fits(3) maxSeqOf_le_iff [of 0 es "LastWALSeq h"] by (simp add: max_absorb1)
  ultimately show ?thesis
    using fits(3) replay_written [OF fits(1,2), of "LastWALSeq h" "replayApply hmac" "[]" 0]
    by (simp add: reopen_replay [OF assms(1-3)] assms(5) logBytes_def startReplay_def)
qed

definition txnOk :: "Header \<Rightarrow> Header \<Rightarrow> bool" where
  "txnOk h txn \<longleftrightarrow> headerOk txn \<and> FormatVersion txn = FormatVersion h \<and> hPageSize txn = hPageSize h \<and>
     EncryptionSalt txn = EncryptionSalt h \<and> Features txn = Features h \<and>
     EncryptionKeyCheck txn = EncryptionKeyCheck h"

lemma finalHeader_ok:
  assumes "configOk hmac c opts" "headerMatches hmac c opts h" "txnOk h txn"
  shows "headerMatches hmac c opts (finalHeader hmac c txn pending)"
    "EncryptionSalt (finalHeader hmac c txn pending) = EncryptionSalt h"
    "LastWALSeq (finalHeader hmac c txn pending) = prSeq (last pending)"
    "verifyHeaderAuthentication hmac (finalHeader hmac c txn pending) (dcHeaderKey c)"
proof -
  let ?f = "finalHeader hmac c txn pending"
  show v: "verifyHeaderAuthentication hmac ?f (dcHeaderKey c)"
    by (simp add: finalHeader_def verifyHeaderAuthentication_def authenticateHeader_def Let_def)
  show "EncryptionSalt ?f = EncryptionSalt h" "LastWALSeq ?f = prSeq (last pending)"
    using assms(3) by (simp_all add: finalHeader_def authenticateHeader_def Let_def txnOk_def)
  have f: "FormatVersion ?f = FormatVersion h" "hPageSize ?f = hPageSize h" "Features ?f = Features h"
    "EncryptionKeyCheck ?f = EncryptionKeyCheck h" "headerOk ?f"
    using assms(1,3) by (auto simp: finalHeader_def authenticateHeader_def Let_def txnOk_def headerOk_def configOk_def)
  show "headerMatches hmac c opts ?f"
    using assms(1,2) f v
    by (auto simp: headerMatches_def openValidateEncryptionKey_def configOk_def split: if_splits)
qed

lemma replay_marker:
  assumes "configOk hmac c opts" "headerMatches hmac c opts h" "headerMatches hmac c opts g"
    and "EncryptionSalt g = EncryptionSalt h" "verifyHeaderAuthentication hmac g (dcHeaderKey c)"
    and "rHdr r = h" "rOpts r = Some opts" "rPageSize r = dcPageSize c"
  shows "replayApply hmac (LastWALSeq g) 0 (snd (snd (markerEntry c g))) r =
    (None, r\<lparr>rCommitted := rPending r, rPending := [], rReplayHeader := Some g\<rparr>)"
proof -
  have len: "length (encodeHeaderPage g) = dcPageSize c" and ok: "headerOk g"
    using assms(3) headerOk_page [of g] by (auto simp: headerMatches_def)
  show ?thesis
    using assms by (simp add: replayApply_def applyHeaderMarker_def markerEntry_def len
        decode_encodeHeaderPage [OF ok] headerMatches_def configOk_def)
qed

lemma reopen_marked:
  assumes conf: "configOk hmac c opts" "headerMatches hmac c opts h" "pHeader (dPrimary d) = encodeHeaderPage h"
    and g: "headerMatches hmac c opts g" "EncryptionSalt g = EncryptionSalt h"
      "verifyHeaderAuthentication hmac g (dcHeaderKey c)" "LastWALSeq h < LastWALSeq g"
    and es: "\<forall>e \<in> set es. entryFits c e \<and> fst e \<le> LastWALSeq g \<and> (fst e \<le> LastWALSeq h \<or> goodPage e)"
      "offsetsOk (dcPageSize c) (dcPhysical c) (freshPages (LastWALSeq h) es)"
    and stale: "staleOk c (LastWALSeq h) st"
    and log: "dWal d = logBytes hmac c (es @ [markerEntry c g] @ st)"
  shows "reopenDisk hmac c opts d =
    Inr (g, overlay (freshPages (LastWALSeq h) es) (pPages (dPrimary d)))"
proof -
  let ?r = "startReplay c opts h (dPrimary d)"
  let ?fresh = "freshPages (LastWALSeq h) es"
  let ?all = "es @ [markerEntry c g] @ st"
  have v3: "FormatVersion (rHdr ?r) = formatVersionV3" "FormatVersion g = formatVersionV3"
    using conf(2) g(1) by (simp_all add: startReplay_def headerMatches_def)
  have "length (encodeHeaderPage g) = dcPageSize c" "dcPageSize c \<le> dcPhysical c"
    using g(1) headerOk_page [of g] conf(1) by (auto simp: headerMatches_def configOk_def)
  then have fits: "mac32 hmac" "\<forall>e \<in> set ?all. entryFits c e"
    using conf(1) es(1) stale by (auto simp: configOk_def staleOk_def markerEntry_def entryFits_def)
  define r1 where "r1 = ?r\<lparr>rPending := ?fresh\<rparr>"
  define r2 where "r2 = r1\<lparr>rCommitted := ?fresh, rPending := [], rReplayHeader := Some g\<rparr>"
  define m where "m = maxSeqOf 0 ?all"
  have m: "m = LastWALSeq g"
  proof (rule antisym)
    show "m \<le> LastWALSeq g"
      using es(1) stale g(4) by (auto simp: m_def maxSeqOf_le_iff staleOk_def markerEntry_def simp del: maxSeqOf_simps)
    show "LastWALSeq g \<le> m"
      using maxSeqOf_ge(1) [of "markerEntry c g" ?all 0] by (simp add: m_def markerEntry_def)
  qed
  have r: "rHdr r1 = h" "rOpts r1 = Some opts" "rPageSize r1 = dcPageSize c" "rPending r1 = ?fresh"
    by (simp_all add: r1_def startReplay_def)
  have pages: "replayList (LastWALSeq h) (replayApply hmac) es 0 ?r = (Inr (maxSeqOf 0 es), r1)"
    using replay_pages [OF v3(1), of es "LastWALSeq h" hmac 0] es(1) by (simp add: r1_def startReplay_def)
  have mark: "replayApply hmac (LastWALSeq g) 0 (snd (snd (markerEntry c g))) r1 = (None, r2)"
    using replay_marker [OF conf(1,2) g(1-3) r(1-3)] by (simp add: r2_def r(4))
  have "FormatVersion (rHdr r2) = formatVersionV3" using v3(1) by (simp add: r2_def r1_def)
  from replay_pages [OF this] have tail:
    "replayList (LastWALSeq h) (replayApply hmac) st k r2 = (Inr (maxSeqOf k st), r2)" for k
  proof -
    have old: "\<forall>e \<in> set st. fst e \<le> LastWALSeq h" using stale by (simp add: staleOk_def)
    then have "freshPages (LastWALSeq h) st = []" by (auto simp: freshPages_def filter_empty_conv)
    with old \<open>FormatVersion (rHdr r2) = formatVersionV3\<close> show ?thesis
      using replay_pages [of r2 st "LastWALSeq h" hmac k] by simp
  qed
  have "replayList (LastWALSeq h) (replayApply hmac) ?all 0 ?r = (Inr m, r2)"
    using pages mark linorder_not_le [THEN iffD2, OF g(4)]
    by (simp add: replayList_append tail m_def markerEntry_def Let_def)
  then have "replayBytes hmac c (LastWALSeq h) (replayApply hmac) (dWal d) 0 ?r = (Inr m, r2)"
    using replay_written [OF fits, of "LastWALSeq h" "replayApply hmac" "[]" 0 ?r]
    by (simp add: log logBytes_def)
  moreover have "publish hmac m r2 =
      (None, r2\<lparr>rDb := (rDb r2)\<lparr>pPages := overlay ?fresh (pPages (rDb r2)),
         pHeader := headerOnDisk hmac g (HeaderMACKey opts) True\<rparr>, rHdr := g\<rparr>)"
    using v3 es(2) conf(1)
    by (simp add: publish_def publishAuthenticatedPages_def r2_def r1_def startReplay_def m writePagesAt_ok configOk_def)
  moreover have "max (LastWALSeq h) m \<noteq> LastWALSeq h" "max (LastWALSeq h) m = m"
    using g(4) m by (auto simp: max_def)
  ultimately show ?thesis
    using g(4) by (simp add: reopen_replay [OF conf] m r2_def r1_def startReplay_def)
qed

lemma reopen_unfinished:
  assumes conf: "configOk hmac c opts" "headerMatches hmac c opts h" "pHeader (dPrimary d) = encodeHeaderPage h"
    and es: "es \<noteq> []" "\<forall>e \<in> set es. entryFits c e \<and> LastWALSeq h < fst e \<and> goodPage e"
    and stale: "staleOk c (LastWALSeq h) st"
    and log: "dWal d = logBytes hmac c (es @ st)"
  shows "reopenDisk hmac c opts d = Inl ErrCorruptWAL"
proof -
  let ?r = "startReplay c opts h (dPrimary d)"
  let ?m = "maxSeqOf 0 (es @ st)"
  have v3: "FormatVersion (rHdr ?r) = formatVersionV3"
    using conf(2) by (simp add: startReplay_def headerMatches_def)
  have ok: "mac32 hmac" "\<forall>e \<in> set (es @ st). entryFits c e"
    "\<forall>e \<in> set (es @ st). fst e \<le> LastWALSeq h \<or> goodPage e"
    using conf(1) es(2) stale by (auto simp: configOk_def staleOk_def)
  have "fst (hd es) \<le> ?m" by (rule maxSeqOf_ge) (use es(1) in simp)
  moreover have "LastWALSeq h < fst (hd es)" using es hd_in_set by blast
  ultimately have m: "LastWALSeq h < ?m" by (simp del: maxSeqOf_simps)
  have "replayBytes hmac c (LastWALSeq h) (replayApply hmac) (dWal d) 0 ?r =
      (Inr ?m, ?r\<lparr>rPending := freshPages (LastWALSeq h) (es @ st)\<rparr>)"
    using replay_written [OF ok(1,2), of "LastWALSeq h" "replayApply hmac" "[]" 0 ?r]
      replay_pages [OF v3 ok(3), of hmac 0]
    by (simp add: log logBytes_def startReplay_def del: maxSeqOf_simps)
  moreover have "max (LastWALSeq h) ?m = ?m" "?m \<noteq> LastWALSeq h" using m by auto
  ultimately show ?thesis
    using v3 by (simp add: reopen_replay [OF conf] Let_def publish_def publishAuthenticatedPages_def startReplay_def
        del: maxSeqOf_simps)
qed

lemma reopen_torn:
  assumes conf: "configOk hmac c opts" "headerMatches hmac c opts h" "pHeader (dPrimary d) = encodeHeaderPage h"
    and es: "\<forall>e \<in> set es. entryFits c e \<and> goodPage e"
    and log: "dWal d = logBytes hmac c es @ chunk @ rest"
    and chunk: "(length chunk < stride c \<and> chunk \<noteq> [] \<and> rest = []) \<or>
      (length chunk = stride c \<and> \<not> isOk (readRecord hmac (dcWalKey c) (dcWalMAC c) (dcPhysical c) chunk))"
  shows "reopenDisk hmac c opts d = Inl ErrCorruptWAL"
proof -
  let ?r = "startReplay c opts h (dPrimary d)"
  have v3: "FormatVersion (rHdr ?r) = formatVersionV3"
    using conf(2) by (simp add: startReplay_def headerMatches_def)
  have ok: "mac32 hmac" "\<forall>e \<in> set es. entryFits c e" "\<forall>e \<in> set es. fst e \<le> LastWALSeq h \<or> goodPage e"
    using conf(1) es by (auto simp: configOk_def)
  have bad: "replayBytes hmac c (LastWALSeq h) (replayApply hmac) (chunk @ rest) m r = (Inl ErrCorruptWAL, r)" for m r
  proof (cases "length chunk < stride c")
    case True
    then have "chunk \<noteq> []" "rest = []" using chunk by auto
    then show ?thesis using True by (subst replayFrom.simps) simp
  next
    case False
    then obtain e where "readRecord hmac (dcWalKey c) (dcWalMAC c) (dcPhysical c) chunk = Inl e" "length chunk = stride c"
      using chunk by (auto simp: isOk_def split: sum.splits)
    moreover have "stride c \<noteq> 0" by (simp add: walStride_def walRecordSize_def walRecordOverhead_def)
    ultimately show ?thesis
      using readRecord_error by (subst replayFrom.simps) (fastforce simp: Let_def)
  qed
  have "fst (replayBytes hmac c (LastWALSeq h) (replayApply hmac) (dWal d) 0 ?r) = Inl ErrCorruptWAL"
    using replay_written [OF ok(1,2), of "LastWALSeq h" "replayApply hmac" "chunk @ rest" 0 ?r]
      replay_pages [OF v3 ok(3), of hmac 0]
    by (simp add: log logBytes_def bad)
  then show ?thesis
    by (auto simp: reopen_replay [OF conf] split: prod.split)
qed

subsection \<open>The commit, crash by crash\<close>

lemma redoRecords_iff:
  "redoRecords hmac c ps = Inr recs \<longleftrightarrow>
   (\<forall>p \<in> set ps. entryFits c (pendEntry p)) \<and> recs = map (recBytes hmac c \<circ> pendEntry) ps"
  by (induction ps arbitrary: recs)
    (auto simp: bindR_eq_Inr redoRecord_iff pendEntry_def)

lemma crashes_append:
  "crashes (xs @ ys) f d' \<Longrightarrow> crashes xs f d' \<or> crashes ys (fold ioStep xs f) d'"
proof (induction xs arbitrary: f)
  case (Cons s xs)
  from Cons.prems consider "crashes [] f d'" | "crashes (xs @ ys) (ioStep s f) d'"
    by (auto simp: crashes_Cons crashes_Nil)
  then show ?case
  proof cases
    case 1
    then show ?thesis by (auto simp: crashes_Nil intro: crashes.stop)
  next
    case 2
    then show ?thesis using Cons.IH by (auto intro: crashes.step)
  qed
qed simp

lemma keepsLog_append: "keepsLog us d d' \<Longrightarrow> keepsLog (us @ vs) d d'"
  by (induction rule: keepsLog.induct) (auto intro: keepsLog.intros)

lemma keepsLog_all: "keepsLog us d (fold diskStep us d)"
  by (induction us arbitrary: d) (auto intro: keepsLog.intros)

lemma keepsPrimary_lost: "keepsPrimary us d d"
  by (induction us) (auto intro: keepsPrimary.intros)

lemma keepsPrimary_append: "keepsPrimary us d d' \<Longrightarrow> keepsPrimary (us @ vs) d d'"
  by (induction rule: keepsPrimary.induct) (auto intro: keepsPrimary.intros keepsPrimary_lost)

lemma ioSteps_log:
  "fold ioStep (map WalWrite bs) f = f\<lparr>unsyncedLog := unsyncedLog f @ map WalWrite bs\<rparr>"
  by (induction bs arbitrary: f) (simp_all add: ioStep_def)

lemma ioSteps_pages:
  "fold ioStep (map PageWrite ps) f = f\<lparr>unsyncedPrimary := unsyncedPrimary f @ map PageWrite ps\<rparr>"
  by (induction ps arbitrary: f) (simp_all add: ioStep_def)

lemma ioSteps_log_sync:
  "fold ioStep (map WalWrite bs @ [WalSync]) (settled d) = settled (fold diskStep (map WalWrite bs) d)"
  by (simp only: fold_append comp_apply ioSteps_log) (simp add: ioStep_def settled_def)

lemma crashes_log:
  "crashes (map WalWrite bs) f d' \<Longrightarrow> unsyncedPrimary f = [] \<Longrightarrow>
   keepsLog (unsyncedLog f @ map WalWrite bs) (synced f) d'"
proof (induction bs arbitrary: f)
  case (Cons b bs)
  then show ?case
    using Cons.IH [of "ioStep (WalWrite b) f"]
    by (auto simp: crashes_Cons ioStep_def intro: keepsLog_append)
qed (simp add: crashes_Nil)

lemma crashes_log_sync:
  assumes "crashes (map WalWrite bs @ [WalSync]) (settled d0) d"
  shows "keepsLog (map WalWrite bs) d0 d"
  using crashes_append [OF assms]
proof
  assume "crashes (map WalWrite bs) (settled d0) d"
  from crashes_log [OF this] show ?thesis by (simp add: settled_def)
next
  assume "crashes [WalSync] (fold ioStep (map WalWrite bs) (settled d0)) d"
  then have "keepsLog (map WalWrite bs) d0 d \<or> d = fold diskStep (map WalWrite bs) d0"
    by (auto simp: ioSteps_log settled_def crashes_Cons crashes_Nil ioStep_def)
  then show ?thesis using keepsLog_all by blast
qed

lemma crashes_pages:
  "crashes (map PageWrite ps) f d' \<Longrightarrow> unsyncedLog f = [] \<Longrightarrow>
   keepsPrimary (unsyncedPrimary f @ map PageWrite ps) (synced f) d'"
proof (induction ps arbitrary: f)
  case (Cons p ps)
  then show ?case
    using Cons.IH [of "ioStep (PageWrite p) f"]
    by (auto simp: crashes_Cons ioStep_def intro: keepsPrimary_append)
qed (simp add: crashes_Nil)

definition logState :: "disk \<Rightarrow> bytes \<Rightarrow> bytes \<Rightarrow> bool" where
  "logState d front beyond \<longleftrightarrow> dWal d = front @ beyond \<and> dWalPos d = length front"

lemma logState_write:
  "logState d front beyond \<Longrightarrow> logState (diskStep (WalWrite b) d) (front @ b) (drop (length b) beyond)"
  by (simp add: logState_def diskStep_def)

lemma logState_writes:
  "logState d front beyond \<Longrightarrow>
   logState (fold diskStep (map WalWrite bs) d) (front @ concat bs) (drop (length (concat bs)) beyond) \<and>
   dPrimary (fold diskStep (map WalWrite bs) d) = dPrimary d"
proof (induction bs arbitrary: d front beyond)
  case (Cons b bs)
  then show ?case
    using Cons.IH [OF logState_write [OF Cons.prems, of b]] by (simp add: diskStep_def add.commute)
qed (simp add: logState_def)

lemma crash_writes:
  assumes "keepsLog (map WalWrite bs) d d'" "logState d front beyond"
  obtains (between) don more where "bs = don @ more" "dPrimary d' = dPrimary d"
      "dWal d' = front @ concat don @ drop (length (concat don)) beyond"
  | (torn) don b more n where "bs = don @ b # more" "dPrimary d' = dPrimary d"
      "dWal d' = front @ concat don @ take n b @ drop (length (concat don) + length (take n b)) beyond"
  using assms
proof (induction bs arbitrary: d front beyond thesis)
  case Nil
  then show ?case by (auto simp: logState_def)
next
  case (Cons b bs)
  from Cons.prems(3) consider "d' = d" | "keepsLog (map WalWrite bs) (diskStep (WalWrite b) d) d'"
    | n where "d' = diskStep (WalWrite (take n b)) d"
    by (auto simp: keepsLog_Wal)
  then show ?case
  proof cases
    case 1
    then show ?thesis using Cons.prems(1) [of "[]" "b # bs"] Cons.prems(4) by (simp add: logState_def)
  next
    case 2
    show ?thesis
    proof (rule Cons.IH [OF _ _ 2 logState_write [OF Cons.prems(4)]])
      fix don more assume "bs = don @ more" "dPrimary d' = dPrimary (diskStep (WalWrite b) d)"
        "dWal d' = (front @ b) @ concat don @ drop (length (concat don)) (drop (length b) beyond)"
      then show thesis using Cons.prems(1) [of "b # don" more] by (simp add: diskStep_def add.commute)
    next
      fix don b' more n assume "bs = don @ b' # more" "dPrimary d' = dPrimary (diskStep (WalWrite b) d)"
        "dWal d' = (front @ b) @ concat don @ take n b' @
           drop (length (concat don) + length (take n b')) (drop (length b) beyond)"
      then show thesis using Cons.prems(2) [of "b # don" b' more n] by (simp add: diskStep_def ac_simps)
    qed
  next
    case (3 n)
    then show ?thesis
      using Cons.prems(2) [of "[]" b bs n] Cons.prems(4) by (simp add: diskStep_def logState_def)
  qed
qed

lemma crash_pages:
  assumes "keepsPrimary (map PageWrite ps) d d'"
  shows "dWal d' = dWal d \<and> pHeader (dPrimary d') = pHeader (dPrimary d) \<and>
    (\<forall>x. x \<notin> prPageID ` set ps \<longrightarrow> pPages (dPrimary d') x = pPages (dPrimary d) x)"
  using assms
proof (induction ps arbitrary: d)
  case (Cons p ps)
  from Cons.prems consider "keepsPrimary (map PageWrite ps) d d'"
    | bytes where "keepsPrimary (map PageWrite ps) (diskStep (PageWrite (p\<lparr>prPlain := bytes\<rparr>)) d) d'"
    by (auto simp: keepsPrimary_Page) (metis pendingRedo.surjective pendingRedo.update_convs(3))
  then show ?case
  proof cases
    case 1
    from Cons.IH [OF this] show ?thesis by simp
  next
    case 2
    from Cons.IH [OF this] show ?thesis by (simp add: diskStep_def)
  qed
qed simp

lemma write_pages:
  "fold diskStep (map PageWrite ps) d =
   d\<lparr>dPrimary := (dPrimary d)\<lparr>pPages := overlay (map (toPage \<circ> pendEntry) ps) (pPages (dPrimary d))\<rparr>\<rparr>"
  by (induction ps arbitrary: d)
    (simp_all add: diskStep_def overlay_def toPage_def pendEntry_def)

subsection \<open>Atomicity\<close>

text \<open>
  A record that was written in part over an older one is detected, unless it happens to be one
  of the two: what the record's MAC and CRC are for.
\<close>

definition tornDetected :: "hmac \<Rightarrow> diskConfig \<Rightarrow> bytes \<Rightarrow> bytes \<Rightarrow> bool" where
  "tornDetected hmac c new old \<longleftrightarrow>
     (\<forall>n. isOk (readRecord hmac (dcWalKey c) (dcWalMAC c) (dcPhysical c) (take n new @ drop n old)) \<longrightarrow>
          take n new @ drop n old = new \<or> take n new @ drop n old = old)"

definition commitEntries :: "hmac \<Rightarrow> diskConfig \<Rightarrow> Header \<Rightarrow> pendingRedo list \<Rightarrow> walEntry list" where
  "commitEntries hmac c txn pending =
     map pendEntry pending @ [markerEntry c (finalHeader hmac c txn pending)]"

definition commitReady ::
  "hmac \<Rightarrow> diskConfig \<Rightarrow> openOptions \<Rightarrow> Header \<Rightarrow> Header \<Rightarrow> primary \<Rightarrow> walEntry list \<Rightarrow> pendingRedo list \<Rightarrow> bool" where
  "commitReady hmac c opts h txn db stale pending \<longleftrightarrow>
     configOk hmac c opts \<and> headerMatches hmac c opts h \<and> pHeader db = encodeHeaderPage h \<and> txnOk h txn \<and>
     pendingOk c (LastWALSeq h) pending \<and> staleOk c (LastWALSeq h) stale \<and>
     list_all2 (\<lambda>new old. tornDetected hmac c (recBytes hmac c new) (recBytes hmac c old))
       (take (length stale) (commitEntries hmac c txn pending))
       (take (length (commitEntries hmac c txn pending)) stale)"

abbreviation newPages :: "pendingRedo list \<Rightarrow> primary \<Rightarrow> uint64 \<Rightarrow> bytes option" where
  "newPages pending db \<equiv> overlay (map (toPage \<circ> pendEntry) pending) (pPages db)"

definition outcomes ::
  "hmac \<Rightarrow> diskConfig \<Rightarrow> Header \<Rightarrow> Header \<Rightarrow> primary \<Rightarrow> pendingRedo list \<Rightarrow>
   (engine_error + Header \<times> (uint64 \<Rightarrow> bytes option)) set" where
  "outcomes hmac c h txn db pending =
     {Inr (h, pPages db), Inr (finalHeader hmac c txn pending, newPages pending db), Inl ErrCorruptWAL}"

lemma fresh_pending:
  assumes "pendingOk c lastA pending"
  shows "freshPages lastA (map pendEntry pending) = map (toPage \<circ> pendEntry) pending"
    "offsetsOk (dcPageSize c) (dcPhysical c) (map (toPage \<circ> pendEntry) pending)"
    "\<forall>e \<in> set (map pendEntry pending). entryFits c e \<and> lastA < fst e \<and> fst e \<le> prSeq (last pending) \<and> goodPage e"
    "lastA < prSeq (last pending)"
  using assms
  by (simp_all add: freshPages_def pendingOk_def pendEntry_def offsetsOk_def toPage_def list_all_iff filter_id_conv)

lemma commitSteps_eq:
  assumes "commitReady hmac c opts h txn db stale pending"
  shows "commitSteps hmac c txn pending =
    Inr (map WalWrite (map (recBytes hmac c) (commitEntries hmac c txn pending)) @ [WalSync] @
      map PageWrite pending @ [PrimarySync,
        HeaderWrite (encodeHeaderPage (finalHeader hmac c txn pending)), PrimarySync,
        WalTruncate (length (logBytes hmac c (commitEntries hmac c txn pending))), WalSync])"
proof -
  let ?g = "finalHeader hmac c txn pending"
  have conf: "configOk hmac c opts" "headerMatches hmac c opts h" "txnOk h txn" "pendingOk c (LastWALSeq h) pending"
    using assms by (simp_all add: commitReady_def)
  note g = finalHeader_ok [OF conf(1-3), of pending]
  have len: "length (encodeHeaderPage ?g) = dcPageSize c" "dcPageSize c \<le> dcPhysical c"
    using g(1) headerOk_page [of ?g] conf(1) by (auto simp: headerMatches_def configOk_def)
  have recs: "redoRecords hmac c pending = Inr (map (recBytes hmac c \<circ> pendEntry) pending)"
    using fresh_pending(3) [OF conf(4)] by (simp add: redoRecords_iff)
  have fit: "entryFits c (markerEntry c ?g)" using len by (simp add: markerEntry_def entryFits_def)
  have "authenticateHeader hmac (txn\<lparr>LastWALSeq := prSeq (last pending)\<rparr>) (dcHeaderKey c) = ?g"
    by (simp add: finalHeader_def)
  then have mark: "encodeHeaderWALRecord hmac c (txn\<lparr>LastWALSeq := prSeq (last pending)\<rparr>) =
      Inr (recBytes hmac c (markerEntry c ?g))"
    using len fit redoRecord_iff [of hmac c "LastWALSeq ?g" 0] g(3)
    by (simp add: encodeHeaderWALRecord_def Let_def markerEntry_def)
  show ?thesis
    using conf(1) mark recs
    by (simp add: commitSteps_def Let_def configOk_def commitEntries_def headerOnDisk_def finalHeader_def logBytes_def)
qed

lemma length_logBytes:
  "mac32 hmac \<Longrightarrow> \<forall>e \<in> set es. entryFits c e \<Longrightarrow> length (logBytes hmac c es) = length es * stride c"
  by (induction es) (simp_all add: length_recBytes)

lemma drop_logBytes:
  assumes "mac32 hmac" "\<forall>e \<in> set es. entryFits c e"
  shows "drop (n * stride c) (logBytes hmac c es) = logBytes hmac c (drop n es)"
proof (cases "n \<le> length es")
  case True
  have "logBytes hmac c es = logBytes hmac c (take n es) @ logBytes hmac c (drop n es)"
    by (simp flip: logBytes_simps)
  moreover have "length (logBytes hmac c (take n es)) = n * stride c"
    using True assms by (subst length_logBytes) (auto dest: in_set_takeD)
  ultimately show ?thesis by simp
next
  case False
  then have "length (logBytes hmac c es) \<le> n * stride c"
    using assms by (simp add: length_logBytes)
  then show ?thesis using False by simp
qed

lemma commitEntries_ok:
  assumes "commitReady hmac c opts h txn db stale pending"
  shows "staleOk c (prSeq (last pending)) (commitEntries hmac c txn pending)"
    "commitEntries hmac c txn pending = de @ me \<Longrightarrow> me \<noteq> [] \<Longrightarrow>
      \<forall>e \<in> set de. entryFits c e \<and> LastWALSeq h < fst e \<and> goodPage e"
proof -
  let ?g = "finalHeader hmac c txn pending"
  have conf: "configOk hmac c opts" "headerMatches hmac c opts h" "txnOk h txn" "pendingOk c (LastWALSeq h) pending"
    using assms by (simp_all add: commitReady_def)
  note g = finalHeader_ok [OF conf(1-3), of pending] and pend = fresh_pending(3) [OF conf(4)]
  have len: "length (encodeHeaderPage ?g) = dcPageSize c" "dcPageSize c \<le> dcPhysical c"
    using g(1) headerOk_page [of ?g] conf(1) by (auto simp: headerMatches_def configOk_def)
  then show "staleOk c (prSeq (last pending)) (commitEntries hmac c txn pending)"
    using pend g(3) by (auto simp: staleOk_def commitEntries_def markerEntry_def entryFits_def)
  assume "commitEntries hmac c txn pending = de @ me" "me \<noteq> []"
  then have "de @ butlast me = map pendEntry pending"
    unfolding commitEntries_def by (metis butlast_append butlast_snoc)
  then have "set de \<subseteq> set (map pendEntry pending)" by (metis set_append sup_ge1)
  with pend show "\<forall>e \<in> set de. entryFits c e \<and> LastWALSeq h < fst e \<and> goodPage e" by blast
qed

lemma reopen_complete:
  assumes "commitReady hmac c opts h txn db stale pending" "staleOk c (LastWALSeq h) st"
    and "dWal d = logBytes hmac c (commitEntries hmac c txn pending @ st)"
    and "pHeader (dPrimary d) = encodeHeaderPage h"
    and "\<forall>x. x \<notin> prPageID ` set pending \<longrightarrow> pPages (dPrimary d) x = pPages db x"
  shows "reopenDisk hmac c opts d = Inr (finalHeader hmac c txn pending, newPages pending db)"
proof -
  have conf: "configOk hmac c opts" "headerMatches hmac c opts h" "txnOk h txn" "pendingOk c (LastWALSeq h) pending"
    using assms(1) by (simp_all add: commitReady_def)
  note g = finalHeader_ok [OF conf(1-3), of pending] and pend = fresh_pending [OF conf(4)]
  have "reopenDisk hmac c opts d = Inr (finalHeader hmac c txn pending,
      overlay (freshPages (LastWALSeq h) (map pendEntry pending)) (pPages (dPrimary d)))"
  proof (rule reopen_marked [OF conf(1,2) assms(4) g(1,2,4)])
    show "LastWALSeq h < LastWALSeq (finalHeader hmac c txn pending)" using pend(4) g(3) by simp
    show "\<forall>e \<in> set (map pendEntry pending). entryFits c e \<and> fst e \<le> LastWALSeq (finalHeader hmac c txn pending) \<and>
        (fst e \<le> LastWALSeq h \<or> goodPage e)"
      using pend(3) g(3) by simp
    show "dWal d = logBytes hmac c (map pendEntry pending @ [markerEntry c (finalHeader hmac c txn pending)] @ st)"
      using assms(3) by (simp add: commitEntries_def)
  qed (use pend assms(2) in simp_all)
  also have "overlay (freshPages (LastWALSeq h) (map pendEntry pending)) (pPages (dPrimary d)) = newPages pending db"
    unfolding pend(1) by (rule overlay_agree) (use assms(5) in \<open>simp add: toPage_def pendEntry_def image_image\<close>)
  finally show ?thesis .
qed

lemma reopen_prefix:
  assumes "commitReady hmac c opts h txn db stale pending" "commitEntries hmac c txn pending = de @ me"
    and "staleOk c (LastWALSeq h) st" "dPrimary d = db" "dWal d = logBytes hmac c (de @ st)"
  shows "reopenDisk hmac c opts d \<in> outcomes hmac c h txn db pending"
proof -
  have conf: "configOk hmac c opts" "headerMatches hmac c opts h" "pHeader (dPrimary d) = encodeHeaderPage h"
    using assms(1,4) by (simp_all add: commitReady_def)
  consider "de = []" | "me = []" | "de \<noteq> []" "me \<noteq> []" by blast
  then show ?thesis
  proof cases
    case 1
    then show ?thesis using reopen_stale [OF conf assms(3)] assms(4,5) by (simp add: outcomes_def)
  next
    case 2
    then show ?thesis
      using reopen_complete [OF assms(1,3) _ conf(3)] assms(2,4,5) by (simp add: outcomes_def)
  next
    case 3
    from commitEntries_ok(2) [OF assms(1,2) 3(2)] show ?thesis
      using reopen_unfinished [OF conf 3(1) _ assms(3,5)] by (simp add: outcomes_def)
  qed
qed

lemma reopen_cut:
  assumes "commitReady hmac c opts h txn db stale pending" "commitEntries hmac c txn pending = de @ e # me"
    and "dPrimary d = db"
    and "dWal d = logBytes hmac c de @ take n (recBytes hmac c e) @
      drop (length (logBytes hmac c de) + length (take n (recBytes hmac c e))) (logBytes hmac c stale)"
  shows "reopenDisk hmac c opts d \<in> outcomes hmac c h txn db pending"
proof -
  let ?r = "recBytes hmac c e" and ?k = "length de"
  have conf: "configOk hmac c opts" "headerMatches hmac c opts h" "pHeader (dPrimary d) = encodeHeaderPage h"
    and stale: "staleOk c (LastWALSeq h) stale" and mac: "mac32 hmac"
    using assms(1,3) by (simp_all add: commitReady_def configOk_def)
  have fits: "\<forall>e \<in> set de. entryFits c e" "entryFits c e"
    using commitEntries_ok(1) [OF assms(1)] assms(2) by (auto simp: staleOk_def)
  have sfits: "\<forall>e \<in> set (drop j stale). entryFits c e" for j
    using stale by (auto simp: staleOk_def dest: in_set_dropD)
  have st: "staleOk c (LastWALSeq h) (drop j stale)" for j
    using stale by (auto simp: staleOk_def dest: in_set_dropD)
  have len: "length ?r = stride c" by (rule length_recBytes [OF mac fits(2)])
  have tail: "drop (length (logBytes hmac c de) + j) (logBytes hmac c stale) =
      drop j (logBytes hmac c (drop ?k stale))" for j
  proof -
    have "drop (length (logBytes hmac c de) + j) (logBytes hmac c stale) =
        drop j (drop (?k * stride c) (logBytes hmac c stale))"
      by (simp add: length_logBytes [OF mac fits(1)] add.commute)
    then show ?thesis unfolding drop_logBytes [OF mac sfits [of 0, unfolded drop_0]] .
  qed
  have log: "dWal d = logBytes hmac c de @ take n ?r @ drop (length (take n ?r)) (logBytes hmac c (drop ?k stale))"
    using assms(4) by (simp only: tail)
  have whole: ?thesis if "dWal d = logBytes hmac c (de @ e # drop (Suc ?k) stale)"
  proof (rule reopen_prefix [OF assms(1) _ st assms(3)])
    show "commitEntries hmac c txn pending = (de @ [e]) @ me" using assms(2) by simp
    show "dWal d = logBytes hmac c ((de @ [e]) @ drop (Suc ?k) stale)" using that by simp
  qed
  have none: ?thesis if "dWal d = logBytes hmac c (de @ drop ?k stale)"
    by (rule reopen_prefix [OF assms(1,2) st assms(3) that])
  have pages: "\<forall>e \<in> set de. entryFits c e \<and> goodPage e"
    using commitEntries_ok(2) [OF assms(1,2)] by simp
  have bad: ?thesis if "dWal d = logBytes hmac c de @ chunk @ rest"
      "(length chunk < stride c \<and> chunk \<noteq> [] \<and> rest = []) \<or>
       (length chunk = stride c \<and> \<not> isOk (readRecord hmac (dcWalKey c) (dcWalMAC c) (dcPhysical c) chunk))"
    for chunk rest
    using reopen_torn [OF conf pages that] by (simp add: outcomes_def)
  show ?thesis
  proof (cases "stride c \<le> n")
    case True
    then have "drop (length (take n ?r)) (logBytes hmac c (drop ?k stale)) = logBytes hmac c (drop (Suc ?k) stale)"
      using drop_logBytes [OF mac sfits, of 1 ?k] by (simp add: len)
    with True log len show ?thesis by (intro whole) simp
  next
    case False
    then have n: "length (take n ?r) = n" using len by simp
    show ?thesis
    proof (cases "drop ?k stale")
      case Nil
      show ?thesis
      proof (cases "n = 0")
        case True
        with log Nil show ?thesis by (intro none) simp
      next
        case nz: False
        show ?thesis
          by (rule bad [of "take n ?r" "[]"]) (use log Nil nz False len n in auto)
      qed
    next
      case (Cons s ss)
      have k: "?k < length stale" using Cons by (metis drop_all linorder_not_le list.distinct(1))
      have s: "s = stale ! ?k" "ss = drop (Suc ?k) stale"
        using Cons k by (metis Cons_nth_drop_Suc list.inject)+
      have slen: "length (recBytes hmac c s) = stride c"
        using length_recBytes [OF mac] sfits [of ?k] Cons by simp
      have torn: "tornDetected hmac c ?r (recBytes hmac c s)"
      proof -
        have "list_all2 (\<lambda>new old. tornDetected hmac c (recBytes hmac c new) (recBytes hmac c old))
            (take (length stale) (de @ e # me)) (take (length (de @ e # me)) stale)"
          using assms(1) by (simp add: commitReady_def assms(2))
        from list_all2_nthD [OF this, of ?k] k show ?thesis by (simp add: s(1) nth_append)
      qed
      define chunk where "chunk = take n ?r @ drop n (recBytes hmac c s)"
      have chunk: "length chunk = stride c" using n slen False by (simp add: chunk_def)
      have log': "dWal d = logBytes hmac c de @ chunk @ logBytes hmac c ss"
        using log n slen False by (simp add: Cons chunk_def)
      show ?thesis
      proof (cases "isOk (readRecord hmac (dcWalKey c) (dcWalMAC c) (dcPhysical c) chunk)")
        case True
        then have "chunk = ?r \<or> chunk = recBytes hmac c s"
          using torn by (auto simp: tornDetected_def chunk_def)
        then show ?thesis
          using log' whole none by (auto simp: Cons s(2))
      qed (use bad [OF log'] chunk in blast)
    qed
  qed
qed

lemma split_at_WalSync:
  "map WalWrite xs @ WalSync # rest = map WalWrite ys @ WalSync # rest' \<Longrightarrow> xs = ys \<and> rest = rest'"
proof (induction xs arbitrary: ys)
  case Nil
  then show ?case by (cases ys) auto
next
  case (Cons x xs)
  then show ?case by (cases ys) auto
qed

text \<open>A header page torn between two sectors is the old page or the new one: the header's fields
  lie in the first sector and both pages are zero beyond it.\<close>

lemma torn_header:
  assumes "headerOk h" "headerOk g" "hPageSize g = hPageSize h"
  shows "take (512 * n) (encodeHeaderPage g) @ drop (512 * n) (encodeHeaderPage h) =
    (if n = 0 then encodeHeaderPage h else encodeHeaderPage g)"
proof (cases n)
  case (Suc m)
  have "length (headerPrefix h) = length (headerPrefix g)" "length (headerPrefix h) \<le> 512"
    using length_headerPrefix [OF assms(1)] length_headerPrefix [OF assms(2)] by simp_all
  then have "drop (512 * n) (encodeHeaderPage h) = drop (512 * n) (encodeHeaderPage g)"
    using assms(3) Suc by (simp add: encodeHeaderPage_def)
  then show ?thesis using Suc by simp
qed simp

definition afterLogSync :: "hmac \<Rightarrow> diskConfig \<Rightarrow> Header \<Rightarrow> pendingRedo list \<Rightarrow> disk_step list" where
  "afterLogSync hmac c txn pending =
     map PageWrite pending @ [PrimarySync, HeaderWrite (encodeHeaderPage (finalHeader hmac c txn pending)),
       PrimarySync, WalTruncate (length (logBytes hmac c (commitEntries hmac c txn pending))), WalSync]"

definition committedDisk :: "hmac \<Rightarrow> diskConfig \<Rightarrow> Header \<Rightarrow> primary \<Rightarrow> pendingRedo list \<Rightarrow> disk" where
  "committedDisk hmac c txn db pending =
     \<lparr>dPrimary = \<lparr>pHeader = encodeHeaderPage (finalHeader hmac c txn pending), pPages = newPages pending db\<rparr>,
      dWal = logBytes hmac c (commitEntries hmac c txn pending), dWalPos = 0\<rparr>"

lemma crash_after_sync:
  assumes "commitReady hmac c opts h txn db stale pending" "staleOk c (LastWALSeq h) st"
    and "dPrimary d = db" "dWal d = logBytes hmac c (commitEntries hmac c txn pending @ st)"
  shows "crashes (afterLogSync hmac c txn pending) (settled d) d' \<Longrightarrow>
      reopenDisk hmac c opts d' = Inr (finalHeader hmac c txn pending, newPages pending db)"
    "fold ioStep (afterLogSync hmac c txn pending) (settled d) = settled (committedDisk hmac c txn db pending)"
proof -
  let ?g = "finalHeader hmac c txn pending" and ?all = "commitEntries hmac c txn pending"
  let ?tail = "[PrimarySync, HeaderWrite (encodeHeaderPage ?g), PrimarySync,
        WalTruncate (length (logBytes hmac c ?all)), WalSync]"
  have conf: "configOk hmac c opts" "headerMatches hmac c opts h" "txnOk h txn" "pendingOk c (LastWALSeq h) pending"
    "pHeader db = encodeHeaderPage h"
    using assms(1) by (simp_all add: commitReady_def)
  note g = finalHeader_ok [OF conf(1-3), of pending] and complete = reopen_complete [OF assms(1,2)]
  have ids: "rpPageID ` set (map (toPage \<circ> pendEntry) pending) = prPageID ` set pending"
    by (simp add: toPage_def pendEntry_def image_image)
  define d2 where "d2 = fold diskStep (map PageWrite pending) d"
  have d2: "dWal d2 = dWal d" "pHeader (dPrimary d2) = pHeader db" "pPages (dPrimary d2) = newPages pending db"
    using assms(3) by (simp_all add: d2_def write_pages)
  define d3 where "d3 = diskStep (HeaderWrite (encodeHeaderPage ?g)) d2"
  have d3: "dWal d3 = dWal d" "pHeader (dPrimary d3) = encodeHeaderPage ?g"
    "pPages (dPrimary d3) = newPages pending db"
    using d2 by (simp_all add: d3_def diskStep_def)
  define d4 where "d4 = diskStep (WalTruncate (length (logBytes hmac c ?all))) d3"
  have d4: "dWal d4 = logBytes hmac c ?all" "dPrimary d4 = dPrimary d3" "dWalPos d4 = 0"
    using d3 assms(4) by (simp_all add: d4_def diskStep_def)
  have old: "staleOk c (LastWALSeq ?g) ?all" "staleOk c (LastWALSeq ?g) (?all @ st)"
    using commitEntries_ok(1) [OF assms(1)] assms(2) fresh_pending(4) [OF conf(4)] g(3)
    by (auto simp: staleOk_def)
  have sz: "headerOk h" "headerOk ?g" "hPageSize ?g = hPageSize h"
    using conf(2,3) g(1)
    by (auto simp: headerMatches_def finalHeader_def authenticateHeader_def Let_def txnOk_def)
  have torn: "diskStep (HeaderWrite (take (512 * n) (encodeHeaderPage ?g) @ drop (512 * n) (pHeader (dPrimary d2)))) d2
      \<in> {d2, d3}" for n
    using torn_header [OF sz, of n] d2(2) conf(5)
    by (auto simp: d3_def diskStep_def)
  have pages: "fold ioStep (map PageWrite pending) (settled d) =
      (settled d)\<lparr>unsyncedPrimary := map PageWrite pending\<rparr>"
    by (simp add: ioSteps_pages settled_def)
  have run: "ioStep PrimarySync ((settled d)\<lparr>unsyncedPrimary := map PageWrite pending\<rparr>) = settled d2"
    "ioStep PrimarySync ((settled d2)\<lparr>unsyncedPrimary := [HeaderWrite (encodeHeaderPage ?g)]\<rparr>) = settled d3"
    "ioStep WalSync ((settled d3)\<lparr>unsyncedLog := [WalTruncate (length (logBytes hmac c ?all))]\<rparr>) = settled d4"
    "ioStep (HeaderWrite (encodeHeaderPage ?g)) (settled d2) =
      (settled d2)\<lparr>unsyncedPrimary := [HeaderWrite (encodeHeaderPage ?g)]\<rparr>"
    "ioStep (WalTruncate (length (logBytes hmac c ?all))) (settled d3) =
      (settled d3)\<lparr>unsyncedLog := [WalTruncate (length (logBytes hmac c ?all))]\<rparr>"
    by (simp_all add: ioStep_def settled_def d2_def d3_def d4_def)
  have "d4 = committedDisk hmac c txn db pending"
    using d3 d4 by (simp add: committedDisk_def)
  then show "fold ioStep (afterLogSync hmac c txn pending) (settled d) = settled (committedDisk hmac c txn db pending)"
    by (simp add: afterLogSync_def pages run)
  assume "crashes (afterLogSync hmac c txn pending) (settled d) d'"
  from crashes_append [OF this [unfolded afterLogSync_def]]
  consider "crashes (map PageWrite pending) (settled d) d'"
    | "crashes ?tail ((settled d)\<lparr>unsyncedPrimary := map PageWrite pending\<rparr>) d'"
    unfolding pages by blast
  then consider "keepsPrimary (map PageWrite pending) d d'" | "d' = d2" | "d' = d3" | "d' = d4"
  proof cases
    case 1
    from crashes_pages [OF this] that show ?thesis by (simp add: settled_def)
  next
    case 2
    have crash: "crashes steps (settled x) d' \<longleftrightarrow>
        d' = x \<or> (\<exists>s ss. steps = s # ss \<and> crashes ss (ioStep s (settled x)) d')" for steps x
      by (cases steps) (auto simp: crashes_Nil crashes_Cons settled_def)
    from 2 consider "keepsPrimary (map PageWrite pending) d d'" | "crashes (tl ?tail) (settled d2) d'"
      by (auto simp: crashes_Cons [of PrimarySync] run) (simp add: settled_def)
    then show ?thesis
    proof cases
      case 2
      then consider "d' = d2" | "keepsPrimary [HeaderWrite (encodeHeaderPage ?g)] d2 d'"
        | "crashes (drop 3 ?tail) (settled d3) d'"
        by (auto simp: crash [of _ d2] run crashes_Cons [of PrimarySync] numeral_3_eq_3) (simp add: settled_def)
      then show ?thesis
      proof cases
        case 2
        then have "d' \<in> {d2, d3}" using torn by (auto simp: keepsPrimary_Header d3_def)
        then show ?thesis using that by blast
      next
        case 3
        then consider "d' = d3" | "keepsLog [WalTruncate (length (logBytes hmac c ?all))] d3 d'" | "d' = d4"
          by (auto simp: crash [of _ d3] crash [of _ d4] run crashes_Cons [of WalSync] numeral_3_eq_3)
            (simp add: settled_def)
        then show ?thesis using that by cases (auto simp: keepsLog_Truncate d4_def)
      qed (use that in blast)
    qed (use that in blast)
  qed
  then show "reopenDisk hmac c opts d' = Inr (?g, newPages pending db)"
  proof cases
    case 1
    from crash_pages [OF this] assms(3,4) conf(5) show ?thesis by (intro complete) simp_all
  next
    case 2
    show ?thesis
    proof (rule complete)
      show "\<forall>x. x \<notin> prPageID ` set pending \<longrightarrow> pPages (dPrimary d') x = pPages db x"
        using d2(3) 2 overlay_apply [of _ "pPages db"] ids by metis
    qed (use 2 d2 assms(4) conf(5) in simp_all)
  next
    case 3
    then show ?thesis using reopen_stale [OF conf(1) g(1) _ old(2)] d3 assms(4) by simp
  next
    case 4
    then show ?thesis using reopen_stale [OF conf(1) g(1) _ old(1)] d3 d4 by simp
  qed
qed

subsection \<open>Replay of legacy logs\<close>

lemma overlay_Cons: "overlay (p # ps) f = overlay ps (f(rpPageID p \<mapsto> rpPayload p))"
  by (simp add: overlay_def)

lemma overlay_append: "overlay (ps @ qs) f = overlay qs (overlay ps f)"
  by (simp add: overlay_def)

lemma replay_legacy:
  assumes "FormatVersion (rHdr r) \<noteq> formatVersionV3"
    and "\<forall>e \<in> set es. fst e \<le> lastA \<or>
      fst (snd e) \<noteq> 0 \<and> isOk (pageByteOffset (fst (snd e)) (rPageSize r) (rPhysical r))"
  shows "replayList lastA (replayApply hmac) es m r =
    (Inr (maxSeqOf m es), r\<lparr>rDb := (rDb r)\<lparr>pPages := overlay (freshPages lastA es) (pPages (rDb r))\<rparr>\<rparr>)"
  using assms
proof (induction es arbitrary: m r)
  case (Cons e es)
  obtain seq pageID payload where e: "e = (seq, pageID, payload)" by (cases e)
  show ?case
  proof (cases "seq \<le> lastA")
    case True
    then show ?thesis using Cons by (simp add: e freshPages_def)
  next
    case False
    let ?r = "r\<lparr>rDb := (rDb r)\<lparr>pPages := (pPages (rDb r))(pageID \<mapsto> payload)\<rparr>\<rparr>"
    have "replayApply hmac seq pageID payload r = (None, ?r)"
      using False Cons.prems by (auto simp: replayApply_def writeDataAt_def e isOk_def split: sum.splits)
    then show ?thesis
      using False Cons.prems Cons.IH [of ?r "max m seq"]
      by (simp add: e freshPages_def overlay_Cons toPage_def Let_def del: fun_upd_apply)
  qed
qed (simp add: freshPages_def overlay_def)

lemma reopen_legacy:
  assumes h: "headerOk h" "FormatVersion h \<noteq> formatVersionV3" "unat (hPageSize h) = dcPageSize c"
    and conf: "mac32 hmac" "openWALMACConfig h opts = Inr (dcWalMAC c, dcWalKey c)"
      "openValidateEncryptionKey hmac opts h = Inr ()" "pHeader (dPrimary d) = encodeHeaderPage h"
    and es: "\<forall>e \<in> set es. entryFits c e \<and> fst (snd e) \<noteq> 0 \<and>
      isOk (pageByteOffset (fst (snd e)) (dcPageSize c) (dcPhysical c))"
    and log: "dWal d = logBytes hmac c es"
  shows "reopen hmac opts (dcPageSize c) (dcPhysical c) d =
    Inr (h\<lparr>LastWALSeq := maxSeqOf (LastWALSeq h) es\<rparr>,
      overlay (freshPages (LastWALSeq h) es) (pPages (dPrimary d)))"
proof -
  let ?m = "max (LastWALSeq h) (maxSeqOf 0 es)"
  define r where "r = \<lparr>rDb = dPrimary d, rHdr = h, rOpts = opts, rPageSize = dcPageSize c,
     rPhysical = dcPhysical c, rPending = [], rCommitted = [], rReplayHeader = None\<rparr>"
  have fits: "\<forall>e \<in> set es. entryFits c e" using es by simp
  have "replayBytes hmac c (LastWALSeq h) (replayApply hmac) (dWal d) 0 r =
      (Inr (maxSeqOf 0 es), r\<lparr>rDb := (dPrimary d)\<lparr>pPages :=
         overlay (freshPages (LastWALSeq h) es) (pPages (dPrimary d))\<rparr>\<rparr>)"
    using replay_legacy [of r es "LastWALSeq h" hmac 0] h(2) es
      replay_written [OF conf(1) fits, of "LastWALSeq h" "replayApply hmac" "[]" 0 r]
    by (simp add: log logBytes_def r_def)
  moreover have "readHeaderAt (pHeader (dPrimary d)) (dcPageSize c) = Inr h"
    using h headerOk_page [OF h(1)] by (simp add: conf(4) readHeaderAt_def decode_encodeHeaderPage)
  moreover have m: "?m = maxSeqOf (LastWALSeq h) es"
  proof (rule antisym)
    show "?m \<le> maxSeqOf (LastWALSeq h) es"
      using maxSeqOf_ge(1) [of _ es "LastWALSeq h"] maxSeqOf_ge(2) [of "LastWALSeq h" es] by (auto simp: maxSeqOf_le_iff)
    show "maxSeqOf (LastWALSeq h) es \<le> ?m"
      unfolding maxSeqOf_le_iff
    proof (intro conjI ballI)
      show "fst e \<le> ?m" if "e \<in> set es" for e
        using maxSeqOf_ge(1) [OF that, of 0] by (rule max.coboundedI2)
    qed simp
  qed
  moreover have "overlay (freshPages (LastWALSeq h) es) f = f" if "?m = LastWALSeq h" for f
  proof -
    have "fst e \<le> LastWALSeq h" if "e \<in> set es" for e
      using maxSeqOf_ge(1) [OF that, of "LastWALSeq h"] m \<open>?m = LastWALSeq h\<close> by simp
    then have "freshPages (LastWALSeq h) es = []" by (simp add: freshPages_def filter_empty_conv linorder_not_less)
    then show ?thesis by (simp add: overlay_def)
  qed
  ultimately show ?thesis
    using h(2) conf(2,3)
    by (auto simp: reopen_def openReplayWAL_def parseAndReplayWALWithMAC_def publish_def Let_def r_def
        split: option.split)
qed

subsection \<open>Recovery after reordered writes\<close>

lemma reopen_slots:
  assumes ready: "commitReady hmac c opts h txn db stale pending"
    and slots: "list_all2 (\<lambda>p e. e = pendEntry p \<or> fst e \<le> LastWALSeq h \<and> entryFits c e) pending slots"
    and rest: "staleOk c (LastWALSeq h) st"
    and d: "dPrimary d = db"
      "dWal d = logBytes hmac c (slots @ [markerEntry c (finalHeader hmac c txn pending)] @ st)"
  shows "reopenDisk hmac c opts d = Inr (finalHeader hmac c txn pending,
    overlay (freshPages (LastWALSeq h) slots) (pPages db))"
proof -
  have conf: "configOk hmac c opts" "headerMatches hmac c opts h" "txnOk h txn" "pendingOk c (LastWALSeq h) pending"
    "pHeader (dPrimary d) = encodeHeaderPage h"
    using ready d(1) by (simp_all add: commitReady_def)
  note g = finalHeader_ok [OF conf(1-3), of pending] and pend = fresh_pending [OF conf(4)]
  have mem: "e \<in> pendEntry ` set pending \<or> fst e \<le> LastWALSeq h \<and> entryFits c e" if "e \<in> set slots" for e
    using slots that by (induction rule: list_all2_induct) auto
  have off: "isOk (pageByteOffset (rpPageID (toPage e)) (dcPageSize c) (dcPhysical c))"
    if "e \<in> pendEntry ` set pending" for e
    using conf(4) that by (auto simp: pendingOk_def pendEntry_def toPage_def)
  have "reopenDisk hmac c opts d = Inr (finalHeader hmac c txn pending,
      overlay (freshPages (LastWALSeq h) slots) (pPages (dPrimary d)))"
  proof (rule reopen_marked [OF conf(1,2,5) g(1,2,4) _ _ _ rest d(2)])
    show "LastWALSeq h < LastWALSeq (finalHeader hmac c txn pending)" using pend(4) g(3) by simp
    show "\<forall>e \<in> set slots. entryFits c e \<and> fst e \<le> LastWALSeq (finalHeader hmac c txn pending) \<and>
        (fst e \<le> LastWALSeq h \<or> goodPage e)"
      using mem pend(3,4) g(3) by fastforce
    show "offsetsOk (dcPageSize c) (dcPhysical c) (freshPages (LastWALSeq h) slots)"
      using mem off by (fastforce simp: offsetsOk_def freshPages_def list_all_iff)
  qed
  then show ?thesis by (simp add: d(1))
qed

subsection \<open>Properties\<close>

lemma log_written:
  assumes "commitReady hmac c opts h txn db stale pending"
  defines "all \<equiv> commitEntries hmac c txn pending"
  defines "d1 \<equiv> fold diskStep (map WalWrite (map (recBytes hmac c) all))
    \<lparr>dPrimary = db, dWal = logBytes hmac c stale, dWalPos = 0\<rparr>"
  shows "dPrimary d1 = db" "dWal d1 = logBytes hmac c (all @ drop (length all) stale)"
proof -
  have start: "logState \<lparr>dPrimary = db, dWal = logBytes hmac c stale, dWalPos = 0\<rparr> [] (logBytes hmac c stale)"
    by (simp add: logState_def)
  have fits: "mac32 hmac" "\<forall>e \<in> set all. entryFits c e" "\<forall>e \<in> set stale. entryFits c e"
    using assms(1) commitEntries_ok(1) [OF assms(1)]
    by (auto simp: commitReady_def configOk_def staleOk_def all_def)
  have "concat (map (recBytes hmac c) all) = logBytes hmac c all" by (simp add: logBytes_def)
  then show "dPrimary d1 = db" "dWal d1 = logBytes hmac c (all @ drop (length all) stale)"
    using logState_writes [OF start, of "map (recBytes hmac c) all"] drop_logBytes [OF fits(1,3), of "length all"]
    by (simp_all add: d1_def logState_def length_logBytes [OF fits(1,2)])
qed

lemma crash_in_log:
  assumes "commitReady hmac c opts h txn db stale pending"
    and "crashes (map WalWrite (map (recBytes hmac c) (commitEntries hmac c txn pending)) @ [WalSync])
      (settled \<lparr>dPrimary = db, dWal = logBytes hmac c stale, dWalPos = 0\<rparr>) d"
  shows "reopenDisk hmac c opts d \<in> outcomes hmac c h txn db pending \<and>
    (reopenDisk hmac c opts d = Inl ErrCorruptWAL \<longrightarrow> dPrimary d = db)"
proof -
  let ?all = "commitEntries hmac c txn pending"
  let ?recs = "map (recBytes hmac c) ?all"
  let ?d0 = "\<lparr>dPrimary = db, dWal = logBytes hmac c stale, dWalPos = 0\<rparr>"
  have start: "logState ?d0 [] (logBytes hmac c stale)" by (simp add: logState_def)
  have fits: "mac32 hmac" "\<forall>e \<in> set ?all. entryFits c e" "\<forall>e \<in> set stale. entryFits c e"
    using assms(1) commitEntries_ok(1) [OF assms(1)]
    by (auto simp: commitReady_def configOk_def staleOk_def)
  from crashes_log_sync [OF assms(2)] show ?thesis using start
  proof (cases rule: crash_writes)
    case (between don more)
    then obtain de me where split: "?all = de @ me" "don = map (recBytes hmac c) de"
      by (auto simp: map_eq_append_conv)
    have "\<forall>e \<in> set de. entryFits c e" using fits(2) split(1) by simp
    then have "dWal d = logBytes hmac c (de @ drop (length de) stale)"
      using between(3) drop_logBytes [OF fits(1,3), of "length de"] length_logBytes [OF fits(1)]
      by (simp add: split(2) flip: logBytes_def)
    moreover have "staleOk c (LastWALSeq h) (drop (length de) stale)"
      using assms(1) by (auto simp: commitReady_def staleOk_def dest: in_set_dropD)
    ultimately show ?thesis using reopen_prefix [OF assms(1) split(1)] between(2) by simp
  next
    case (torn don b more n)
    then obtain de e me where "?all = de @ e # me" "don = map (recBytes hmac c) de" "b = recBytes hmac c e"
      by (auto simp: map_eq_append_conv map_eq_Cons_conv)
    then show ?thesis using reopen_cut [OF assms(1), of de e me d n] torn(2,3) by (simp flip: logBytes_def)
  qed
qed

text \<open>A crash after the first page record, before the marker, makes the log unreadable.\<close>

lemma crash_cuts_log:
  assumes "commitReady hmac c opts h txn db stale pending"
  shows "\<exists>d. crashes (map WalWrite (map (recBytes hmac c) (commitEntries hmac c txn pending)) @ rest)
      (settled \<lparr>dPrimary = db, dWal = logBytes hmac c stale, dWalPos = 0\<rparr>) d \<and>
    reopenDisk hmac c opts d = Inl ErrCorruptWAL"
proof -
  have conf: "configOk hmac c opts" "headerMatches hmac c opts h" "pHeader db = encodeHeaderPage h"
    "pendingOk c (LastWALSeq h) pending" "staleOk c (LastWALSeq h) stale"
    using assms by (simp_all add: commitReady_def)
  obtain p ps where pending: "pending = p # ps" using conf(4) by (cases pending) (auto simp: pendingOk_def)
  let ?e = "pendEntry p" and ?d0 = "\<lparr>dPrimary = db, dWal = logBytes hmac c stale, dWalPos = 0\<rparr>"
  define me where "me = map pendEntry ps @ [markerEntry c (finalHeader hmac c txn pending)]"
  have all: "commitEntries hmac c txn pending = [?e] @ me" "me \<noteq> []"
    by (simp_all add: commitEntries_def me_def pending)
  note good = commitEntries_ok(2) [OF assms all]
  have fits: "mac32 hmac" "\<forall>e \<in> set stale. entryFits c e" "staleOk c (LastWALSeq h) (drop 1 stale)"
    using conf(1,5) by (auto simp: configOk_def staleOk_def dest: in_set_dropD)
  define d where "d = diskStep (WalWrite (recBytes hmac c ?e)) ?d0"
  have "dWal d = logBytes hmac c ([?e] @ drop 1 stale)"
    using drop_logBytes [OF fits(1,2), of 1] length_recBytes [OF fits(1), of c ?e] good
    by (simp add: d_def diskStep_def)
  moreover have "dPrimary d = db" by (simp add: d_def diskStep_def)
  ultimately have "reopenDisk hmac c opts d = Inl ErrCorruptWAL"
    using reopen_unfinished [OF conf(1,2) _ _ good fits(3), of d] conf(3) by simp
  moreover have "crashes steps (ioStep (WalWrite (recBytes hmac c ?e)) (settled ?d0)) d" for steps
    unfolding d_def by (intro crashes.stop [of _ d]) (auto simp: settled_def ioStep_def d_def intro: keepsLog.intros)
  ultimately show ?thesis unfolding all by (auto simp: crashes_Cons)
qed

text \<open>C1: crash atomicity of a version 3 commit, for crashes that lose or tear any of the writes the
  last sync of their file does not cover: any subset of the page writes, the header write, and
  the end of the log, whose appends are taken to reach the disk in the order they were made
  (\<open>Marker_accepts_missing_pages\<close> is what happens otherwise). The commit produces its steps. Whatever such a crash
  leaves at any point reopens to the state before the commit, to the state after it, or (when
  the log was cut, and some crash does cut it) to \<open>ErrCorruptWAL\<close> with the primary file untouched; once the log is synced
  every crash reopens to the state after the commit, and when the steps are over, that state is
  on stable storage with nothing left to sync.\<close>
theorem Crash_atomicity:
  assumes "commitReady hmac c opts h txn db stale pending"
    and "start = settled \<lparr>dPrimary = db, dWal = logBytes hmac c stale, dWalPos = 0\<rparr>"
  shows "\<exists>steps. commitSteps hmac c txn pending = Inr steps \<and>
    (\<forall>d. crashes steps start d \<longrightarrow>
       reopenDisk hmac c opts d \<in> outcomes hmac c h txn db pending \<and>
       (reopenDisk hmac c opts d = Inl ErrCorruptWAL \<longrightarrow> dPrimary d = db)) \<and>
    (\<exists>d. crashes steps start d \<and> reopenDisk hmac c opts d = Inl ErrCorruptWAL) \<and>
    (\<forall>recs rest d. steps = map WalWrite recs @ WalSync # rest \<longrightarrow>
       crashes rest (fold ioStep (map WalWrite recs @ [WalSync]) start) d \<longrightarrow>
       reopenDisk hmac c opts d = Inr (finalHeader hmac c txn pending, newPages pending db)) \<and>
    fold ioStep steps start = settled (committedDisk hmac c txn db pending)"
proof -
  let ?all = "commitEntries hmac c txn pending"
  let ?recs = "map (recBytes hmac c) ?all"
  let ?body = "afterLogSync hmac c txn pending"
  let ?steps = "map WalWrite ?recs @ WalSync # ?body"
  let ?d0 = "\<lparr>dPrimary = db, dWal = logBytes hmac c stale, dWalPos = 0\<rparr>"
  let ?d1 = "fold diskStep (map WalWrite ?recs) ?d0"
  have steps: "commitSteps hmac c txn pending = Inr ?steps"
    using commitSteps_eq [OF assms(1)] by (simp only: append_Cons append_Nil afterLogSync_def)
  have fits: "staleOk c (LastWALSeq h) (drop (length ?all) stale)"
    using assms(1) by (auto simp: commitReady_def staleOk_def dest: in_set_dropD)
  note synced = crash_after_sync [OF assms(1) fits log_written [OF assms(1)]]
  have log: "fold ioStep (map WalWrite recs @ [WalSync]) start = settled (fold diskStep (map WalWrite recs) ?d0)"
    for recs by (simp only: assms(2) ioSteps_log_sync)
  have after: "reopenDisk hmac c opts d = Inr (finalHeader hmac c txn pending, newPages pending db)"
    if "?steps = map WalWrite recs @ WalSync # rest"
      "crashes rest (fold ioStep (map WalWrite recs @ [WalSync]) start) d" for recs rest d
    using split_at_WalSync [OF that(1)] that(2) synced(1) by (simp only: log)
  have any: "reopenDisk hmac c opts d \<in> outcomes hmac c h txn db pending \<and>
    (reopenDisk hmac c opts d = Inl ErrCorruptWAL \<longrightarrow> dPrimary d = db)" if "crashes ?steps start d" for d
  proof -
    have "crashes ((map WalWrite ?recs @ [WalSync]) @ ?body) start d" using that by simp
    then have "crashes (map WalWrite ?recs @ [WalSync]) start d \<or> crashes ?body (settled ?d1) d"
      using crashes_append log by metis
    then show ?thesis
    proof
      assume "crashes (map WalWrite ?recs @ [WalSync]) start d"
      from crash_in_log [OF assms(1) this [unfolded assms(2)]] show ?thesis .
    next
      assume "crashes ?body (settled ?d1) d"
      from synced(1) [OF this] show ?thesis by (simp add: outcomes_def)
    qed
  qed
  have cut: "\<exists>d. crashes ?steps start d \<and> reopenDisk hmac c opts d = Inl ErrCorruptWAL"
    using crash_cuts_log [OF assms(1)] by (simp add: assms(2))
  have over: "fold ioStep ?steps start = settled (committedDisk hmac c txn db pending)"
    using log [of ?recs] synced(2) by simp
  show ?thesis
    using after any cut over by (intro exI [of _ ?steps] conjI allI impI steps) blast+
qed

text \<open>A commit of one page over the log the commit before it left: the steps run, and a crash that
  comes after the log sync, leaves garbage in the page and loses the header is repaired.\<close>

text \<open>A stand-in for HMAC that depends on the key and on the message.\<close>

definition sampleMAC :: hmac where "sampleMAC k m = replicate 32 (hd k + m ! 7)"

definition sampleConfig :: diskConfig where
  "sampleConfig = \<lparr>dcPageSize = 4096, dcPhysical = 4144, dcWalMAC = True, dcWalKey = [5],
     dcHeaderMAC = True, dcHeaderKey = [9]\<rparr>"

definition sampleOptions :: openOptions where
  "sampleOptions = \<lparr>ExpectEncryptionKeyCheck = False, optEncryptionKeyCheck = [], WALMACKey = [5],
     EnableWALMAC = True, HeaderMACKey = [9], EnableHeaderMAC = True\<rparr>"

definition sampleOld :: Header where "sampleOld = authenticateHeader sampleMAC sampleHeader [9]"

definition samplePrimary :: primary where
  "samplePrimary = \<lparr>pHeader = encodeHeaderPage sampleOld, pPages = \<lambda>_. None\<rparr>"

definition samplePage :: pendingRedo where
  "samplePage = \<lparr>prSeq = 8, prPageID = 3, prPlain = PutUint64 8 @ replicate 4136 0\<rparr>"

definition samplePending :: "pendingRedo list" where "samplePending = [samplePage]"

definition sampleStale :: "walEntry list" where
  "sampleStale = [(7, 5, PutUint64 7 @ replicate 4136 1), (7, 0, replicate 4144 2)]"

lemma sampleOld_ok:
  "headerOk sampleOld" "txnOk sampleOld sampleHeader" "headerMatches sampleMAC sampleConfig sampleOptions sampleOld"
  "configOk sampleMAC sampleConfig sampleOptions" "LastWALSeq sampleOld = 7"
proof -
  show ok: "headerOk sampleOld"
    using sampleHeader_ok by (simp add: headerOk_def sampleOld_def authenticateHeader_def Let_def sampleMAC_def)
  show "txnOk sampleOld sampleHeader"
    using sampleHeader_ok by (simp add: txnOk_def sampleOld_def authenticateHeader_def Let_def)
  have "verifyHeaderAuthentication sampleMAC sampleOld [9]"
    by (simp add: sampleOld_def verifyHeaderAuthentication_def authenticateHeader_def Let_def)
  then show "headerMatches sampleMAC sampleConfig sampleOptions sampleOld"
    using ok by (simp add: headerMatches_def openValidateEncryptionKey_def sampleConfig_def sampleOptions_def
        FeatureWALKeyedMAC_def formatVersionV3_def) (simp add: sampleOld_def authenticateHeader_def Let_def sampleHeader_def)
  show "configOk sampleMAC sampleConfig sampleOptions"
    by (simp add: configOk_def sampleMAC_def sampleConfig_def sampleOptions_def)
  show "LastWALSeq sampleOld = 7"
    by (simp add: sampleOld_def authenticateHeader_def Let_def sampleHeader_def)
qed

lemma sample_torn:
  assumes "entryFits sampleConfig (8, p, x)" "entryFits sampleConfig (7, q, y)"
  shows "tornDetected sampleMAC sampleConfig (recBytes sampleMAC sampleConfig (8, p, x))
    (recBytes sampleMAC sampleConfig (7, q, y))"
  unfolding tornDetected_def
proof (intro allI impI)
  fix n
  let ?new = "recBytes sampleMAC sampleConfig (8, p, x)" and ?old = "recBytes sampleMAC sampleConfig (7, q, y)"
  let ?chunk = "take n ?new @ drop n ?old"
  assume ok: "isOk (readRecord sampleMAC (dcWalKey sampleConfig) (dcWalMAC sampleConfig) (dcPhysical sampleConfig) ?chunk)"
  have mac: "mac32 sampleMAC" using sampleOld_ok(4) by (simp add: configOk_def)
  have stride: "stride sampleConfig = 4196"
    by (simp add: walStride_def walRecordSize_def walRecordOverhead_def walRecordMACSize_def sampleConfig_def)
  have len: "length ?new = 4196" "length ?old = 4196"
    using length_recBytes [OF mac] assms stride by simp_all
  consider "n \<le> 7" | "4196 \<le> n" | "7 < n" "n < 4196" by linarith
  then show "?chunk = ?new \<or> ?chunk = ?old"
  proof cases
    case 1
    have "take n (PutUint64 8) = take n (PutUint64 7)"
    proof -
      have "take 7 (PutUint64 8) = take 7 (PutUint64 7)" by code_simp
      from arg_cong [OF this, of "take n"] show ?thesis using 1 by (simp add: min_absorb1)
    qed
    then have "take n ?new = take n ?old" using 1 by (simp add: recBytes_def)
    then show ?thesis by simp
  next
    case 2
    then show ?thesis using len by simp
  next
    case 3
    have old: "?old ! 4195 = 12"
    proof -
      have "?old = (PutUint64 7 @ PutUint64 q @ PutUint32 (ChecksumIEEE y) @ y) @ replicate 32 12"
        using mac by (simp add: recBytes_def sampleConfig_def walMAC_def walRecordMACSize_def sampleMAC_def
            sumMACInput_def nth_append) code_simp
      moreover have "length (PutUint64 7 @ PutUint64 q @ PutUint32 (ChecksumIEEE y) @ y) = 4164"
        using assms(2) by (simp add: entryFits_def sampleConfig_def)
      ultimately show ?thesis by (simp only: nth_append) simp
    qed
    have seq: "slice 0 8 ?chunk = PutUint64 8"
      using 3 len by (simp add: slice_def recBytes_def min_def)
    have "slice 4164 4196 ?chunk ! 31 = ?chunk ! 4195"
      using 3 len by (simp add: slice_def del: take_append drop_append)
    also have "\<dots> = 12"
      using 3 len old by (simp add: nth_append)
    finally have tag: "slice 4164 4196 ?chunk ! 31 = 12" .
    have "slice 4164 4196 ?chunk = walMAC sampleMAC (sumMACInput (Uint64 (slice 0 8 ?chunk))
        (Uint64 (slice 8 16 ?chunk)) (take 4144 (drop 20 ?chunk))) [5]"
      using ok by (auto simp: readRecord_def sampleConfig_def Let_def walRecordMACSize_def bindR_def split: if_splits)
    also have "\<dots> = replicate 32 13"
      unfolding seq by (simp add: walMAC_def walRecordMACSize_def sampleMAC_def sumMACInput_def nth_append) code_simp
    finally show ?thesis using tag by simp
  qed
qed

lemma sample_ready:
  "commitReady sampleMAC sampleConfig sampleOptions sampleOld sampleHeader samplePrimary [] samplePending"
proof -
  have "slice 0 8 (PutUint64 8 @ replicate 4136 (0::byte)) = PutUint64 8" by (simp add: slice_stop slice_all)
  then show ?thesis
    using sampleOld_ok
    by (simp add: commitReady_def samplePrimary_def pendingOk_def staleOk_def samplePending_def samplePage_def goodPage_def
        pendEntry_def entryFits_def sampleConfig_def pageByteOffset_def)
qed

lemma sample_ready_stale:
  "commitReady sampleMAC sampleConfig sampleOptions sampleOld sampleHeader samplePrimary sampleStale samplePending"
proof -
  have fits: "staleOk sampleConfig 7 sampleStale"
    by (simp add: staleOk_def sampleStale_def entryFits_def sampleConfig_def)
  have new: "staleOk sampleConfig 8 (commitEntries sampleMAC sampleConfig sampleHeader samplePending)"
    using commitEntries_ok(1) [OF sample_ready] by (simp add: samplePending_def samplePage_def)
  have g: "markerEntry sampleConfig (finalHeader sampleMAC sampleConfig sampleHeader samplePending) =
      (8, 0, snd (snd (markerEntry sampleConfig (finalHeader sampleMAC sampleConfig sampleHeader samplePending))))"
    using finalHeader_ok(3) [OF sampleOld_ok(4,3,2), of samplePending]
    by (simp add: markerEntry_def samplePending_def samplePage_def)
  have torn: "tornDetected sampleMAC sampleConfig (recBytes sampleMAC sampleConfig (pendEntry samplePage))
      (recBytes sampleMAC sampleConfig (7, 5, PutUint64 7 @ replicate 4136 1))"
    "tornDetected sampleMAC sampleConfig
      (recBytes sampleMAC sampleConfig (markerEntry sampleConfig (finalHeader sampleMAC sampleConfig sampleHeader samplePending)))
      (recBytes sampleMAC sampleConfig (7, 0, replicate 4144 2))"
  proof -
    show "tornDetected sampleMAC sampleConfig (recBytes sampleMAC sampleConfig (pendEntry samplePage))
        (recBytes sampleMAC sampleConfig (7, 5, PutUint64 7 @ replicate 4136 1))"
      using new fits unfolding pendEntry_def samplePage_def pendingRedo.simps
      by (intro sample_torn) (simp_all add: staleOk_def commitEntries_def samplePending_def pendEntry_def samplePage_def sampleStale_def)
    show "tornDetected sampleMAC sampleConfig
      (recBytes sampleMAC sampleConfig (markerEntry sampleConfig (finalHeader sampleMAC sampleConfig sampleHeader samplePending)))
      (recBytes sampleMAC sampleConfig (7, 0, replicate 4144 2))"
      using new fits g by (subst g, intro sample_torn) (simp_all add: staleOk_def commitEntries_def sampleStale_def)
  qed
  then show ?thesis
    using sample_ready fits sampleOld_ok(5)
    by (simp add: commitReady_def commitEntries_def samplePending_def sampleStale_def)
qed

theorem Crash_atomicity_witness:
  "\<exists>recs rest d. commitSteps sampleMAC sampleConfig sampleHeader samplePending = Inr (map WalWrite recs @ WalSync # rest) \<and>
    crashes rest (fold ioStep (map WalWrite recs @ [WalSync])
      (settled \<lparr>dPrimary = samplePrimary, dWal = logBytes sampleMAC sampleConfig sampleStale, dWalPos = 0\<rparr>)) d \<and>
    dPrimary d = samplePrimary\<lparr>pPages := [3 \<mapsto> [1, 2]]\<rparr> \<and>
    reopenDisk sampleMAC sampleConfig sampleOptions d =
      Inr (finalHeader sampleMAC sampleConfig sampleHeader samplePending, [3 \<mapsto> prPlain samplePage])"
proof -
  let ?start = "settled \<lparr>dPrimary = samplePrimary, dWal = logBytes sampleMAC sampleConfig sampleStale, dWalPos = 0\<rparr>"
  let ?recs = "map (recBytes sampleMAC sampleConfig) (commitEntries sampleMAC sampleConfig sampleHeader samplePending)"
  let ?rest = "afterLogSync sampleMAC sampleConfig sampleHeader samplePending"
  define d1 where "d1 = fold diskStep (map WalWrite ?recs)
    \<lparr>dPrimary = samplePrimary, dWal = logBytes sampleMAC sampleConfig sampleStale, dWalPos = 0\<rparr>"
  define d where "d = diskStep (PageWrite (samplePage\<lparr>prPlain := [1, 2]\<rparr>)) d1"
  have steps: "commitSteps sampleMAC sampleConfig sampleHeader samplePending = Inr (map WalWrite ?recs @ WalSync # ?rest)"
    using commitSteps_eq [OF sample_ready_stale] by (simp only: append_Cons append_Nil afterLogSync_def)
  have synced: "fold ioStep (map WalWrite ?recs @ [WalSync]) ?start = settled d1"
    by (simp only: ioSteps_log_sync d1_def)
  have "keepsPrimary [PageWrite samplePage] d1 d"
    unfolding d_def by (rule keepsPrimary.tornPage [OF keepsPrimary.none])
  then have "crashes steps (ioStep (PageWrite samplePage) (settled d1)) d" for steps
    by (intro crashes.stop [of _ d1]) (simp_all add: settled_def ioStep_def keepsLog.lost)
  then have crash: "crashes ?rest (settled d1) d"
    by (simp add: afterLogSync_def samplePending_def crashes_Cons)
  have "dPrimary d1 = samplePrimary" using log_written(1) [OF sample_ready_stale] by (simp add: d1_def)
  then have prim: "dPrimary d = samplePrimary\<lparr>pPages := [3 \<mapsto> [1, 2]]\<rparr>"
    by (simp add: d_def diskStep_def samplePage_def samplePrimary_def)
  have "newPages samplePending samplePrimary = [3 \<mapsto> prPlain samplePage]"
    by (simp add: overlay_def toPage_def pendEntry_def samplePending_def samplePage_def samplePrimary_def)
  note pages = this
  have "reopenDisk sampleMAC sampleConfig sampleOptions d =
      Inr (finalHeader sampleMAC sampleConfig sampleHeader samplePending, [3 \<mapsto> prPlain samplePage])"
  proof -
    from Crash_atomicity [OF sample_ready_stale refl] obtain ss where
      "commitSteps sampleMAC sampleConfig sampleHeader samplePending = Inr ss"
      and recovered: "\<forall>recs rest d. ss = map WalWrite recs @ WalSync # rest \<longrightarrow>
        crashes rest (fold ioStep (map WalWrite recs @ [WalSync]) ?start) d \<longrightarrow>
        reopenDisk sampleMAC sampleConfig sampleOptions d =
          Inr (finalHeader sampleMAC sampleConfig sampleHeader samplePending, newPages samplePending samplePrimary)"
      by blast
    then have "ss = map WalWrite ?recs @ WalSync # ?rest" using steps by simp
    from recovered [rule_format, OF this] crash pages show ?thesis by (simp only: synced)
  qed
  then show ?thesis
    using steps crash prim by (intro exI [of _ ?recs] exI [of _ ?rest] exI [of _ d] conjI) (simp_all only: synced)
qed

text \<open>C2: the commit marker does not say which pages belong to the commit. The log is reused
  without being erased, and all its records are written before one sync: when the marker
  reaches the disk and some page records do not, their slots still hold records of an earlier
  commit, which replay skips. The files then reopen, without an error, to the new header over
  the pages whose records did arrive.\<close>
theorem Marker_accepts_missing_pages:
  assumes "commitReady hmac c opts h txn db stale pending"
    and "list_all2 (\<lambda>p e. e = pendEntry p \<or> fst e \<le> LastWALSeq h \<and> entryFits c e) pending slots"
    and "staleOk c (LastWALSeq h) rest" "dPrimary d = db"
    and "dWal d = logBytes hmac c (slots @ [markerEntry c (finalHeader hmac c txn pending)] @ rest)"
  shows "reopenDisk hmac c opts d = Inr (finalHeader hmac c txn pending,
    overlay (freshPages (LastWALSeq h) slots) (pPages db))"
  by (rule reopen_slots [OF assms])

theorem Marker_accepts_missing_pages_witness:
  "\<exists>d hdr. reopenDisk sampleMAC sampleConfig sampleOptions d = Inr (hdr, \<lambda>_. None) \<and> LastWALSeq hdr = 8"
proof -
  let ?old = "(7, 5, replicate 4144 0) :: walEntry"
  let ?g = "finalHeader sampleMAC sampleConfig sampleHeader samplePending"
  let ?d = "\<lparr>dPrimary = samplePrimary,
    dWal = logBytes sampleMAC sampleConfig ([?old] @ [markerEntry sampleConfig ?g] @ []), dWalPos = 0\<rparr>"
  have "reopenDisk sampleMAC sampleConfig sampleOptions ?d =
      Inr (?g, overlay (freshPages (LastWALSeq sampleOld) [?old]) (pPages samplePrimary))"
  proof (rule Marker_accepts_missing_pages [OF sample_ready, where rest = "[]"])
    show "list_all2 (\<lambda>p e. e = pendEntry p \<or> fst e \<le> LastWALSeq sampleOld \<and> entryFits sampleConfig e)
        samplePending [?old]"
      using sampleOld_ok(5) by (simp add: samplePending_def samplePage_def entryFits_def sampleConfig_def)
  qed (simp_all add: staleOk_def)
  moreover have "freshPages (LastWALSeq sampleOld) [?old] = []"
    using sampleOld_ok(5) by (simp add: freshPages_def)
  moreover have "LastWALSeq ?g = 8"
    by (simp add: finalHeader_def authenticateHeader_def Let_def samplePending_def samplePage_def)
  ultimately show ?thesis by (auto simp: overlay_def samplePrimary_def)
qed

text \<open>C3: recovery of format versions 1 and 2. Their log holds pages only: reopening after the log
  was synced and before the header was written replays the pages under the header from before
  the commit, whose root and next page id are then wrong for a commit that changed them.\<close>
theorem Legacy_recovery_keeps_old_root:
  assumes "headerOk h" "FormatVersion h \<noteq> formatVersionV3" "unat (hPageSize h) = dcPageSize c"
    and "\<forall>k m. length (hmac k m) = 32" "openWALMACConfig h opts = Inr (dcWalMAC c, dcWalKey c)"
    and "openValidateEncryptionKey hmac opts h = Inr ()" "pHeader (dPrimary d) = encodeHeaderPage h"
    and "\<forall>e \<in> set es. entryFits c e \<and> fst (snd e) \<noteq> 0 \<and>
      isOk (pageByteOffset (fst (snd e)) (dcPageSize c) (dcPhysical c))"
    and "dWal d = logBytes hmac c es"
  shows "\<exists>hdr. reopen hmac opts (dcPageSize c) (dcPhysical c) d =
      Inr (hdr, overlay (freshPages (LastWALSeq h) es) (pPages (dPrimary d))) \<and>
    BTreeRoot hdr = BTreeRoot h \<and> NextPageID hdr = NextPageID h \<and> hCommitSeq hdr = hCommitSeq h \<and>
    LastWALSeq hdr = maxSeqOf (LastWALSeq h) es"
  by (rule exI [of _ "h\<lparr>LastWALSeq := maxSeqOf (LastWALSeq h) es\<rparr>"]) (simp add: reopen_legacy [OF assms])

definition plainConfig :: diskConfig where
  "plainConfig = \<lparr>dcPageSize = 4096, dcPhysical = 4096, dcWalMAC = False, dcWalKey = replicate 32 0,
     dcHeaderMAC = False, dcHeaderKey = []\<rparr>"

definition plainHeader :: Header where
  "plainHeader = sampleHeader\<lparr>FormatVersion := 2, Features := 0\<rparr>"

theorem Legacy_recovery_keeps_old_root_witness:
  "\<exists>d hdr. reopen sampleMAC None 4096 4096 d = Inr (hdr, [9 \<mapsto> replicate 4096 1]) \<and> NextPageID hdr = 9"
proof -
  let ?e = "(8, 9, replicate 4096 1) :: walEntry"
  let ?d = "\<lparr>dPrimary = \<lparr>pHeader = encodeHeaderPage plainHeader, pPages = \<lambda>_. None\<rparr>,
    dWal = logBytes sampleMAC plainConfig [?e], dWalPos = 0\<rparr>"
  have "\<exists>hdr. reopen sampleMAC None (dcPageSize plainConfig) (dcPhysical plainConfig) ?d =
      Inr (hdr, overlay (freshPages (LastWALSeq plainHeader) [?e]) (pPages (dPrimary ?d))) \<and>
    BTreeRoot hdr = BTreeRoot plainHeader \<and> NextPageID hdr = NextPageID plainHeader \<and>
    hCommitSeq hdr = hCommitSeq plainHeader \<and> LastWALSeq hdr = maxSeqOf (LastWALSeq plainHeader) [?e]"
  proof (rule Legacy_recovery_keeps_old_root)
    show "headerOk plainHeader"
      by (simp add: headerOk_def plainHeader_def sampleHeader_def IsValidPageSize_def validPageSizes_def)
    show "openWALMACConfig plainHeader None = Inr (dcWalMAC plainConfig, dcWalKey plainConfig)"
      by (simp add: openWALMACConfig_def plainHeader_def plainConfig_def)
    show "openValidateEncryptionKey sampleMAC None plainHeader = Inr ()"
      by (simp add: openValidateEncryptionKey_def plainHeader_def formatVersionV3_def)
  qed (simp_all add: plainHeader_def formatVersionV3_def sampleHeader_def plainConfig_def sampleMAC_def
      entryFits_def pageByteOffset_def)
  moreover have "freshPages (LastWALSeq plainHeader) [?e] = [\<lparr>rpPageID = 9, rpPayload = replicate 4096 1\<rparr>]"
    by (simp add: freshPages_def plainHeader_def sampleHeader_def toPage_def)
  moreover have "NextPageID plainHeader = 9" by (simp add: plainHeader_def sampleHeader_def)
  moreover have "dcPageSize plainConfig = 4096" "dcPhysical plainConfig = 4096" by (simp_all add: plainConfig_def)
  ultimately show ?thesis by (auto simp: overlay_def)
qed

end
