(* ===== verification/PageStore.thy ===== *)
theory PageStore
  imports LeafSplit
begin

text \<open>
  The interface between the B+ tree and the engine: the calls of \<open>Engine\<close> that
  \<open>btree.go\<close>, \<open>btree_cascade_insert.go\<close>, \<open>btree_cascade_internal.go\<close> and
  \<open>overflow.go\<close> make, as a record of operations on an engine state, and the contracts
  those files rely on, as locales. The B+ tree is defined over the record; its lemmas are proved in
  the locales; the engine of \<open>EngineStore\<close> provides both.
\<close>

subsection \<open>Operations\<close>

text \<open>
  An operation answers an error or its value and the new state. After an error the callers drop
  the write transaction and with it the state.
\<close>

record 's pageOps =
  opPageSize :: nat
  opMaxValueBytes :: uint32
  opRead :: "'s \<Rightarrow> uint64 \<Rightarrow> engine_error + bytes"
  opWrite :: "uint64 \<Rightarrow> bytes \<Rightarrow> 's \<Rightarrow> engine_error + 's"
  opRoot :: "'s \<Rightarrow> engine_error + uint64"
  opSetRoot :: "uint64 \<Rightarrow> 's \<Rightarrow> engine_error + 's"
  opAlloc :: "'s \<Rightarrow> engine_error + uint64 \<times> 's"
  opAuthenticated :: "'s \<Rightarrow> bool"
  opReserve :: "nat \<Rightarrow> 's \<Rightarrow> engine_error + uint64 \<times> 's"
  opRelease :: "uint64 \<Rightarrow> 's \<Rightarrow> engine_error + 's"
  opWaste :: "nat \<Rightarrow> 's \<Rightarrow> 's"

text \<open>
  \<open>opRead\<close> is \<open>readPagePooled\<close>, \<open>opWrite\<close> \<open>WritePage\<close>, \<open>opRoot\<close> the
  root in \<open>ReadHeader\<close>, \<open>opSetRoot\<close> and \<open>opReserve\<close> the two uses of
  \<open>UpdateHeader\<close>, \<open>opAlloc\<close> \<open>allocPageID\<close>, \<open>opAuthenticated\<close> the test
  for a version 3 write transaction, \<open>opRelease\<close> \<open>releasePageID\<close> and \<open>opWaste\<close>
  the waste counter.
\<close>

text \<open>
  The largest value a leaf holds itself; \<open>Put\<close> moves larger ones to overflow pages.
\<close>

definition inlineThreshold :: "nat \<Rightarrow> nat" where
  "inlineThreshold pageSize = max (pageSize div 3) 256"

subsection \<open>What the tree relies on\<close>

text \<open>
  The tree's view of an engine state: the page each id reads as, the root, the ids that are in
  use (and so not handed out), those written in this transaction and how many are left.
\<close>

record storeView =
  svPage :: "uint64 \<Rightarrow> engine_error + bytes"
  svRoot :: uint64
  svUsed :: "uint64 set"
  svWritten :: "uint64 set"
  svRoom :: nat

definition putPage :: "uint64 \<Rightarrow> bytes \<Rightarrow> storeView \<Rightarrow> storeView" where
  "putPage pid page V = V\<lparr>svPage := (svPage V)(pid := Inr page), svUsed := insert pid (svUsed V),
     svWritten := insert pid (svWritten V),
     svRoom := svRoom V - (if pid \<in> svUsed V then 0 else 1)\<rparr>"

locale page_store =
  fixes ops :: "'s pageOps" and ok :: "'s \<Rightarrow> bool" and view :: "'s \<Rightarrow> storeView"
  assumes page_size: "ok s \<Longrightarrow> opPageSize ops \<in> {4096, 8192, 16384, 65536}"
    and read_page: "ok s \<Longrightarrow> pid \<in> svUsed (view s) \<Longrightarrow> opRead ops s pid = svPage (view s) pid"
    and read_root: "ok s \<Longrightarrow> opRoot ops s = Inr (svRoot (view s))"
    and used_nonzero: "ok s \<Longrightarrow> 0 \<notin> svUsed (view s)"
    and write_page: "ok s \<Longrightarrow> pid \<in> svUsed (view s) \<Longrightarrow> length page = opPageSize ops \<Longrightarrow>
      \<exists>s'. opWrite ops pid page s = Inr s' \<and> ok s' \<and> view s' = putPage pid page (view s)"
    and alloc_page: "ok s \<Longrightarrow> 0 < svRoom (view s) \<Longrightarrow>
      \<exists>pid s1. opAlloc ops s = Inr (pid, s1) \<and> pid \<noteq> 0 \<and> pid \<notin> svUsed (view s) \<and>
        (\<forall>page. length page = opPageSize ops \<longrightarrow>
          (\<exists>s'. opWrite ops pid page s1 = Inr s' \<and> ok s' \<and> view s' = putPage pid page (view s)))"
    and set_root: "ok s \<Longrightarrow> pid \<in> svUsed (view s) \<Longrightarrow> pid \<in> svWritten (view s) \<Longrightarrow>
      \<exists>s'. opSetRoot ops pid s = Inr s' \<and> ok s' \<and> view s' = (view s)\<lparr>svRoot := pid\<rparr>"

subsection \<open>Changes\<close>

text \<open>From one view to a later one: only the pages of \<open>P\<close> change, \<open>n\<close> ids are taken at most.\<close>

definition changes :: "uint64 set \<Rightarrow> nat \<Rightarrow> storeView \<Rightarrow> storeView \<Rightarrow> bool" where
  "changes P n V V' \<longleftrightarrow> (\<forall>p. p \<notin> P \<longrightarrow> svPage V' p = svPage V p) \<and> svRoot V' = svRoot V \<and>
     svUsed V' = svUsed V \<union> P \<and> svWritten V \<subseteq> svWritten V' \<and> svRoom V \<le> svRoom V' + n"

lemma changes_refl: "changes {} 0 V V"
  by (simp add: changes_def)

lemma changes_trans: "changes P m V V1 \<Longrightarrow> changes Q n V1 V2 \<Longrightarrow> changes (P \<union> Q) (m + n) V V2"
  by (auto simp: changes_def)

lemma changes_mono: "changes P m V V' \<Longrightarrow> m \<le> n \<Longrightarrow> changes P n V V'"
  by (auto simp: changes_def)

lemma changes_put: "changes {pid} (if pid \<in> svUsed V then 0 else 1) V (putPage pid page V)"
  by (auto simp: changes_def putPage_def)

lemma changes_page: "changes P n V V' \<Longrightarrow> p \<notin> P \<Longrightarrow> svPage V' p = svPage V p"
  and changes_used: "changes P n V V' \<Longrightarrow> svUsed V' = svUsed V \<union> P"
  and changes_root: "changes P n V V' \<Longrightarrow> svRoot V' = svRoot V"
  and changes_room: "changes P n V V' \<Longrightarrow> svRoom V \<le> svRoom V' + n"
  and changes_written: "changes P n V V' \<Longrightarrow> svWritten V \<subseteq> svWritten V'"
  by (simp_all add: changes_def)

end
