(* ===== verification/BTree.thy ===== *)
theory BTree
  imports PageStore "HOL-Library.Multiset"
begin

text \<open>
  The B+ tree over the page interface: lookup, insertion with cascading splits, root growth and
  ordered scans of \<open>internal/engine/btree.go\<close>, with the page writes of
  \<open>btree_cascade_insert.go\<close> and \<open>btree_cascade_internal.go\<close>. The entries are the raw
  leaf values; overflow chains and compression are in \<open>Overflow\<close>. A descent takes fuel, one
  unit per level.
\<close>

subsection \<open>Operations\<close>

record childRef =
  sepKey :: bytes
  crPageID :: uint64

text \<open>The descent shared by \<open>GetUsingRoot\<close> and \<open>storedOverflowPage\<close>: the raw value.\<close>

primrec rawGet :: "'s pageOps \<Rightarrow> nat \<Rightarrow> 's \<Rightarrow> uint64 \<Rightarrow> bytes \<Rightarrow> engine_error + bytes option" where
  "rawGet ops 0 s pid key = Inl OutOfFuel"
| "rawGet ops (Suc fuel) s pid key =
     bindR (opRead ops s pid) (\<lambda>page.
       if page ! 5 = btreeKindLeaf then lookupLeafValue page key
       else if page ! 5 = btreeKindInternal
       then bindR (lookupInternalChild page key) (\<lambda>child. rawGet ops fuel s child key)
       else Inl (ErrCorruptTree ''''))"

definition setParent :: "'s pageOps \<Rightarrow> uint64 \<Rightarrow> uint64 \<Rightarrow> 's \<Rightarrow> engine_error + 's" where
  "setParent ops pageID parentID s =
     bindR (opRead ops s pageID) (\<lambda>page.
       opWrite ops pageID (take 16 page @ PutUint64 parentID @ drop 24 page) s)"

primrec setParents :: "'s pageOps \<Rightarrow> uint64 list \<Rightarrow> uint64 \<Rightarrow> 's \<Rightarrow> engine_error + 's" where
  "setParents ops [] pid s = Inr s"
| "setParents ops (p # ptrs) pid s = bindR (setParent ops p pid s) (setParents ops ptrs pid)"

definition writeInternal ::
  "'s pageOps \<Rightarrow> uint64 \<Rightarrow> uint64 \<Rightarrow> uint64 list \<Rightarrow> bytes list \<Rightarrow> 's \<Rightarrow> engine_error + 's" where
  "writeInternal ops pid parent ptrs keys s =
     bindR (buildInternalPage (opPageSize ops) parent ptrs keys) (\<lambda>pg.
     bindR (opWrite ops pid pg s) (setParents ops ptrs pid))"

text \<open>The groups after the first, each on a page of its own.\<close>

fun spillGroups ::
  "'s pageOps \<Rightarrow> uint64 \<Rightarrow> internalGroup list \<Rightarrow> bytes list \<Rightarrow> 's \<Rightarrow> engine_error + childRef list \<times> 's" where
  "spillGroups ops parent (g # groups) (sep # promoted) s =
     bindR (opAlloc ops s) (\<lambda>(gpid, s).
     bindR (writeInternal ops gpid parent (grPtrs g) (grKeys g) s) (\<lambda>s.
     bindR (spillGroups ops parent groups promoted s) (\<lambda>(refs, s).
       Inr (\<lparr>sepKey = sep, crPageID = gpid\<rparr> # refs, s))))"
| "spillGroups ops parent groups promoted s = Inr ([], s)"

definition spillInternal ::
  "'s pageOps \<Rightarrow> uint64 \<Rightarrow> uint64 \<Rightarrow> uint64 list \<Rightarrow> bytes list \<Rightarrow> 's \<Rightarrow>
   engine_error + childRef list \<times> 's" where
  "spillInternal ops pid parent ptrs keys s =
     (if length ptrs \<noteq> length keys + 1 then Inl (ErrCorruptTree ''internal ptr/key mismatch'')
      else if internalSerializedSize keys \<le> opPageSize ops
      then bindR (writeInternal ops pid parent ptrs keys s) (\<lambda>s. Inr ([], s))
      else case splitInternalGroups ptrs keys (opPageSize ops) of
        (groups, promoted) \<Rightarrow>
          bindR (writeInternal ops pid parent (grPtrs (hd groups)) (grKeys (hd groups)) s)
            (spillGroups ops parent (tl groups) promoted))"

text \<open>
  The page writes of a leaf split, from the last page to the first: every page links to the one
  written before it, the first one reuses the old id. The answer is the ids, left to right.
\<close>

primrec writeSplits ::
  "'s pageOps \<Rightarrow> uint64 \<Rightarrow> uint64 option \<Rightarrow> uint64 \<Rightarrow> leafSplit list \<Rightarrow> 's \<Rightarrow>
   engine_error + uint64 list \<times> 's" where
  "writeSplits ops parent pid nextPageID [] s = Inr ([], s)"
| "writeSplits ops parent pid nextPageID (sp # rest) s =
     bindR (writeSplits ops parent None nextPageID rest s) (\<lambda>(ids, s).
     bindR (case pid of None \<Rightarrow> opAlloc ops s | Some newID \<Rightarrow> Inr (newID, s)) (\<lambda>(newID, s).
     bindR (buildLeafPage (opPageSize ops) parent (case ids of [] \<Rightarrow> nextPageID | i # _ \<Rightarrow> i) (lsKeys sp) (lsVals sp)) (\<lambda>pg.
     bindR (opWrite ops newID pg s) (\<lambda>s. Inr (newID # ids, s)))))"

definition insertIntoLeafCascade ::
  "'s pageOps \<Rightarrow> uint64 \<Rightarrow> bytes \<Rightarrow> bytes \<Rightarrow> bytes \<Rightarrow> 's \<Rightarrow> engine_error + childRef list \<times> 's" where
  "insertIntoLeafCascade ops pid page key val s =
     bindR (parseLeafPage page) (\<lambda>ld.
       let (newKeys, newVals) = insertSorted (leafKeys ld) (leafVals ld) key val
       in if leafSerializedSize newKeys newVals \<le> opPageSize ops
          then bindR (buildLeafPage (opPageSize ops) (leafParent ld) (leafNext ld) newKeys newVals) (\<lambda>pg.
               bindR (opWrite ops pid pg s) (\<lambda>s. Inr ([], s)))
          else bindR (cascadingLeafSplit newKeys newVals (opPageSize ops)) (\<lambda>splits.
               bindR (writeSplits ops (leafParent ld) (Some pid) (leafNext ld) splits s) (\<lambda>(ids, s).
                 Inr (map2 (\<lambda>sp newID. \<lparr>sepKey = lsSep sp, crPageID = newID\<rparr>) (tl splits) (tl ids), s))))"

primrec insertAt ::
  "'s pageOps \<Rightarrow> nat \<Rightarrow> uint64 \<Rightarrow> bytes \<Rightarrow> bytes \<Rightarrow> 's \<Rightarrow> engine_error + childRef list \<times> 's" where
  "insertAt ops 0 pid key val s = Inl OutOfFuel"
| "insertAt ops (Suc fuel) pid key val s =
     bindR (opRead ops s pid) (\<lambda>page.
       if page ! 5 = btreeKindLeaf then insertIntoLeafCascade ops pid page key val s
       else if page ! 5 = btreeKindInternal then
         bindR (parseInternalPage page) (\<lambda>ind.
           let ci = internalPickChild (inKeys ind) key
           in bindR (insertAt ops fuel (inPtrs ind ! ci) key val s) (\<lambda>(refs, s).
             if refs = [] then Inr ([], s)
             else spillInternal ops pid (inParent ind)
                    (take (ci + 1) (inPtrs ind) @ map crPageID refs @ drop (ci + 1) (inPtrs ind))
                    (take ci (inKeys ind) @ map sepKey refs @ drop ci (inKeys ind)) s))
       else Inl (ErrCorruptTree ''''))"

text \<open>The loop of \<open>growRoot\<close>, with fuel.\<close>

primrec growRoot :: "'s pageOps \<Rightarrow> nat \<Rightarrow> uint64 \<Rightarrow> childRef list \<Rightarrow> 's \<Rightarrow> engine_error + 's" where
  "growRoot ops 0 oldRoot refs s = Inl OutOfFuel"
| "growRoot ops (Suc fuel) oldRoot refs s =
     bindR (opAlloc ops s) (\<lambda>(newRoot, s).
     bindR (spillInternal ops newRoot 0 (oldRoot # map crPageID refs) (map sepKey refs) s) (\<lambda>(moreRefs, s).
       if moreRefs = [] then opSetRoot ops newRoot s
       else growRoot ops fuel newRoot moreRefs s))"

definition putFirst :: "'s pageOps \<Rightarrow> bytes \<Rightarrow> bytes \<Rightarrow> 's \<Rightarrow> engine_error + 's" where
  "putFirst ops key val s =
     bindR (opAlloc ops s) (\<lambda>(newID, s).
     bindR (buildLeafPage (opPageSize ops) 0 0 [key] [val]) (\<lambda>page.
     bindR (opWrite ops newID page s) (opSetRoot ops newID)))"

text \<open>The part of \<open>Put\<close> that stores a raw leaf value.\<close>

definition rawPut :: "'s pageOps \<Rightarrow> nat \<Rightarrow> bytes \<Rightarrow> bytes \<Rightarrow> 's \<Rightarrow> engine_error + 's" where
  "rawPut ops fuel key leafVal s =
     bindR (opRoot ops s) (\<lambda>root.
       if root = 0 then putFirst ops key leafVal s
       else bindR (insertAt ops fuel root key leafVal s) (\<lambda>(refs, s).
              if refs \<noteq> [] then growRoot ops fuel root refs s else Inr s))"

text \<open>\<open>leftmostLeaf\<close>: \<open>None\<close> is a nil bound.\<close>

primrec leftmostLeaf :: "'s pageOps \<Rightarrow> nat \<Rightarrow> 's \<Rightarrow> uint64 \<Rightarrow> bytes option \<Rightarrow> engine_error + uint64" where
  "leftmostLeaf ops 0 s pid start = Inl OutOfFuel"
| "leftmostLeaf ops (Suc fuel) s pid start =
     bindR (opRead ops s pid) (\<lambda>page.
       if page ! 5 = btreeKindLeaf then Inr pid
       else bindR (parseInternalPage page) (\<lambda>ind.
         leftmostLeaf ops fuel s
           (case start of None \<Rightarrow> inPtrs ind ! 0 | Some k \<Rightarrow> inPtrs ind ! internalPickChild (inKeys ind) k) start))"

subsection \<open>The tree in the pages\<close>

datatype btree = Leaf uint64 "bytes list" "bytes list" | Node uint64 "bytes list" "btree list"

primrec rootId :: "btree \<Rightarrow> uint64" where
  "rootId (Leaf pid ks vs) = pid"
| "rootId (Node pid ks ts) = pid"

primrec pids :: "btree \<Rightarrow> uint64 list" where
  "pids (Leaf pid ks vs) = [pid]"
| "pids (Node pid ks ts) = pid # concat (map pids ts)"

primrec height :: "btree \<Rightarrow> nat" where
  "height (Leaf pid ks vs) = 0"
| "height (Node pid ks ts) = Suc (Max (insert 0 (set (map height ts))))"

text \<open>All leaves are at depth \<open>h\<close>.\<close>

primrec uniform :: "btree \<Rightarrow> nat \<Rightarrow> bool" where
  "uniform (Leaf pid ks vs) h \<longleftrightarrow> h = 0"
| "uniform (Node pid ks ts) h \<longleftrightarrow> (\<exists>h'. h = Suc h' \<and> list_all (\<lambda>u. u h') (map uniform ts))"

primrec entries :: "btree \<Rightarrow> (bytes \<times> bytes) list" where
  "entries (Leaf pid ks vs) = zip ks vs"
| "entries (Node pid ks ts) = concat (map entries ts)"

fun firstLeaf :: "btree \<Rightarrow> uint64" where
  "firstLeaf (Leaf pid ks vs) = pid"
| "firstLeaf (Node pid ks []) = pid"
| "firstLeaf (Node pid ks (t # ts)) = firstLeaf t"

definition leafAt ::
  "(uint64 \<Rightarrow> engine_error + bytes) \<Rightarrow> nat \<Rightarrow> uint64 \<Rightarrow> uint64 option \<Rightarrow> uint64 \<Rightarrow> bytes list \<Rightarrow> bytes list \<Rightarrow> bool" where
  "leafAt rd ps nx par pid ks vs \<longleftrightarrow> (\<exists>page parent. rd pid = Inr page \<and> length page = ps \<and>
     parseLeafPage page = Inr \<lparr>leafNext = nx, leafParent = parent, leafKeys = ks, leafVals = vs\<rparr> \<and>
     (par = None \<or> par = Some parent))"

definition nodeAt ::
  "(uint64 \<Rightarrow> engine_error + bytes) \<Rightarrow> nat \<Rightarrow> uint64 option \<Rightarrow> uint64 \<Rightarrow> bytes list \<Rightarrow> uint64 list \<Rightarrow> bool" where
  "nodeAt rd ps par pid ks ptrs \<longleftrightarrow> (\<exists>page parent. rd pid = Inr page \<and> length page = ps \<and>
     parseInternalPage page = Inr \<lparr>inParent = parent, inPtrs = ptrs, inKeys = ks\<rparr> \<and>
     (par = None \<or> par = Some parent))"

text \<open>
  The pages hold the tree: \<open>nx\<close> is the leaf after its last one, \<open>par\<close> the parent its root
  page names, if that matters.
\<close>

fun rep :: "(uint64 \<Rightarrow> engine_error + bytes) \<Rightarrow> nat \<Rightarrow> uint64 \<Rightarrow> uint64 option \<Rightarrow> btree \<Rightarrow> bool"
  and reps :: "(uint64 \<Rightarrow> engine_error + bytes) \<Rightarrow> nat \<Rightarrow> uint64 \<Rightarrow> uint64 option \<Rightarrow> btree list \<Rightarrow> bool" where
  "rep rd ps nx par (Leaf pid ks vs) = leafAt rd ps nx par pid ks vs"
| "rep rd ps nx par (Node pid ks ts) =
     (nodeAt rd ps par pid ks (map rootId ts) \<and> reps rd ps nx (Some pid) ts)"
| "reps rd ps nx par [] = True"
| "reps rd ps nx par (t # ts) =
     (rep rd ps (case ts of [] \<Rightarrow> nx | u # _ \<Rightarrow> firstLeaf u) par t \<and> reps rd ps nx par ts)"

definition within :: "bytes \<Rightarrow> bytes option \<Rightarrow> bytes \<Rightarrow> bool" where
  "within lo hi k \<longleftrightarrow> lo \<le> k \<and> (case hi of None \<Rightarrow> True | Some h \<Rightarrow> k < h)"

definition entriesOk :: "nat \<Rightarrow> bytes list \<Rightarrow> bytes list \<Rightarrow> bool" where
  "entriesOk ps ks vs \<longleftrightarrow> length vs = length ks \<and> sorted_wrt (<) ks \<and>
     (\<forall>k \<in> set ks. length k \<le> maxKeyBytes) \<and> (\<forall>v \<in> set vs. length v \<le> inlineThreshold ps) \<and>
     leafSerializedSize ks vs \<le> ps"

text \<open>Every key of the tree lies in its interval, and every page fits.\<close>

fun treeOk :: "nat \<Rightarrow> bytes \<Rightarrow> bytes option \<Rightarrow> btree \<Rightarrow> bool"
  and treesOk :: "nat \<Rightarrow> bytes \<Rightarrow> bytes option \<Rightarrow> bytes list \<Rightarrow> btree list \<Rightarrow> bool" where
  "treeOk ps lo hi (Leaf pid ks vs) = (entriesOk ps ks vs \<and> (\<forall>k \<in> set ks. within lo hi k))"
| "treeOk ps lo hi (Node pid ks ts) = (internalSerializedSize ks \<le> ps \<and> treesOk ps lo hi ks ts)"
| "treesOk ps lo hi [] [t] = treeOk ps lo hi t"
| "treesOk ps lo hi (k # ks) (t # ts) =
     (lo < k \<and> within lo hi k \<and> length k \<le> maxKeyBytes \<and> treeOk ps lo (Some k) t \<and> treesOk ps k hi ks ts)"
| "treesOk ps lo hi _ _ = False"

lemma pids_rootId: "rootId t \<in> set (pids t)"
  by (cases t) simp_all

lemma reps_append:
  "reps rd ps nx par (ts @ us) \<longleftrightarrow>
   reps rd ps (case us of [] \<Rightarrow> nx | u # _ \<Rightarrow> firstLeaf u) par ts \<and> reps rd ps nx par us"
  by (induction ts) (auto split: list.splits)

lemma rep_cong:
  "(\<And>p. p \<in> set (pids t) \<Longrightarrow> rd' p = rd p) \<Longrightarrow> rep rd' ps nx par t = rep rd ps nx par t"
  "(\<And>p. p \<in> set (concat (map pids ts)) \<Longrightarrow> rd' p = rd p) \<Longrightarrow> reps rd' ps nx par ts = reps rd ps nx par ts"
proof (induction rd ps nx par t and rd ps nx par ts rule: rep_reps.induct)
  case (1 rd ps nx par pid ks vs)
  then show ?case by (simp add: leafAt_def)
next
  case (2 rd ps nx par pid ks ts)
  then show ?case by (simp add: nodeAt_def)
qed auto

lemma rep_parent: "rep rd ps nx par t \<Longrightarrow> rep rd ps nx None t"
  by (cases t) (auto simp: leafAt_def nodeAt_def)

lemma reps_parent: "reps rd ps nx par ts \<Longrightarrow> reps rd ps nx None ts"
  by (induction ts) (auto intro: rep_parent)

lemma treesOk_length: "treesOk ps lo hi ks ts \<Longrightarrow> length ts = length ks + 1"
  by (induction ps lo hi ks ts rule: treeOk_treesOk.induct(2) [of "\<lambda>_ _ _ _. True"]) auto

subsection \<open>Single pages\<close>

abbreviation validPs :: "nat \<Rightarrow> bool" where
  "validPs ps \<equiv> ps \<in> {4096, 8192, 16384, 65536}"

lemma parseLeafPage_kind: "parseLeafPage page = Inr ld \<Longrightarrow> page ! 5 = btreeKindLeaf"
  by (auto simp: parseLeafPage_def Let_def split: if_splits)

lemma parseInternalPage_kind: "parseInternalPage page = Inr ind \<Longrightarrow> page ! 5 = btreeKindInternal"
  by (auto simp: parseInternalPage_def Let_def split: if_splits)

lemma kinds_differ [simp]: "btreeKindInternal \<noteq> btreeKindLeaf"
  by (simp add: btreeKindInternal_def btreeKindLeaf_def)

lemma entriesOk_build:
  assumes "entriesOk ps ks vs" "validPs ps"
  obtains page where "buildLeafPage ps parent nx ks vs = Inr page" "length page = ps"
    "parseLeafPage page = Inr \<lparr>leafNext = nx, leafParent = parent, leafKeys = ks, leafVals = vs\<rparr>"
proof -
  have ps: "btreeHeaderSize \<le> ps" using assms(2) by (auto simp: btreeHeaderSize_def)
  have len: "length vs = length ks" and size: "leafSerializedSize ks vs \<le> ps" and d: "distinct ks"
    using assms(1) by (auto simp: entriesOk_def strict_sorted_iff)
  have "4 * length ks \<le> leafEntriesSize ks vs" using len
    by (induction ks vs rule: leafEntriesSize.induct) auto
  then have "length ks \<le> 65535"
    using size assms(2) by (auto simp: leafSerializedSize_def btreeHeaderSize_def)
  moreover have "\<forall>v \<in> set vs. length v \<le> 65535"
    using assms by (fastforce simp: entriesOk_def inlineThreshold_def)
  ultimately have fits: "leafFits ps ks vs"
    using assms(1) by (simp add: leafFits_def entriesOk_def keysFit_def valsFit_def)
  then obtain page where b: "buildLeafPage ps parent nx ks vs = Inr page"
    using buildLeafPage_iff [OF ps] by blast
  note parses = leaf_page_parses [OF fits assms(2) leafFits_count [OF fits d assms(2)]
      conjunct2 [OF b [unfolded buildLeafPage_iff [OF ps]]]]
  show thesis by (rule that [OF b parses])
qed

lemma keysFit_build:
  assumes "keysFit ks" "[] \<notin> set ks" "length ptrs = length ks + 1" "internalSerializedSize ks \<le> ps" "validPs ps"
  obtains page where "buildInternalPage ps parent ptrs ks = Inr page" "length page = ps"
    "parseInternalPage page = Inr \<lparr>inParent = parent, inPtrs = ptrs, inKeys = ks\<rparr>"
proof -
  have ps: "btreeHeaderSize + 8 \<le> ps" using assms(5) by (auto simp: btreeHeaderSize_def)
  have "10 * length ks \<le> (\<Sum>k\<leftarrow>ks. 2 + length k + 8)" by (induction ks) auto
  then have "length ks \<le> 65535"
    using assms(4,5) by (auto simp: internalSerializedSize_def btreeHeaderSize_def)
  then have fits: "internalFits ps ptrs ks" using assms by (simp add: internalFits_def)
  then obtain page where b: "buildInternalPage ps parent ptrs ks = Inr page"
    using buildInternalPage_iff [OF ps] by blast
  note parses = internal_page_parses [OF fits assms(5) internalFits_count [OF fits assms(2)]
      conjunct2 [OF b [unfolded buildInternalPage_iff [OF ps]]]]
  show thesis by (rule that [OF b parses])
qed

subsection \<open>Changing the parent of a page\<close>

abbreviation withParent :: "bytes \<Rightarrow> uint64 \<Rightarrow> bytes" where
  "withParent page parentID \<equiv> take 16 page @ PutUint64 parentID @ drop 24 page"

lemma withParent_slices:
  assumes "24 \<le> length page"
  shows "length (withParent page p) = length page"
    "b \<le> 16 \<Longrightarrow> slice a b (withParent page p) = slice a b page"
    "24 \<le> a \<Longrightarrow> slice a b (withParent page p) = slice a b page"
    "slice 16 24 (withParent page p) = PutUint64 p"
    "i < 16 \<Longrightarrow> withParent page p ! i = page ! i"
proof -
  show "length (withParent page p) = length page" using assms by simp
  show "slice a b (withParent page p) = slice a b page" if "b \<le> 16"
    using that assms by (simp add: slice_append_left) (simp add: slice_def drop_take min_def)
  show "slice a b (withParent page p) = slice a b page" if "24 \<le> a"
    using that assms by (simp add: slice_def drop_append)
  show "slice 16 24 (withParent page p) = PutUint64 p"
    using assms by (simp add: slice_def)
  show "withParent page p ! i = page ! i" if "i < 16"
    using that assms by (simp add: nth_append)
qed

lemma entries_cong:
  assumes "length P = length Q" "\<And>a b. 24 \<le> a \<Longrightarrow> slice a b P = slice a b Q" "24 \<le> off"
  shows "parseLeafEntries n P off = parseLeafEntries n Q off"
    "parseInternalEntries n P off = parseInternalEntries n Q off"
  using assms(3)
  by (induction n arbitrary: off) (simp_all add: assms(1,2) u16at_def Let_def)

lemma withParent_parse:
  assumes "24 \<le> length page"
  shows "parseLeafPage page = Inr ld \<Longrightarrow> parseLeafPage (withParent page p) = Inr (ld\<lparr>leafParent := p\<rparr>)"
    "parseInternalPage page = Inr ind \<Longrightarrow> parseInternalPage (withParent page p) = Inr (ind\<lparr>inParent := p\<rparr>)"
proof -
  note w = withParent_slices [OF assms, where p = p]
  note e = entries_cong [OF w(1,3)]
  have s: "slice 0 4 (withParent page p) = slice 0 4 page" "u16at (withParent page p) 6 = u16at page 6"
    "slice 8 16 (withParent page p) = slice 8 16 page"
    "withParent page p ! 4 = page ! 4" "withParent page p ! 5 = page ! 5"
    "slice btreeHeaderSize (btreeHeaderSize + 8) (withParent page p) = slice btreeHeaderSize (btreeHeaderSize + 8) page"
    by (simp_all add: u16at_def w btreeHeaderSize_def)
  define Q where "Q = withParent page p"
  note s = s [folded Q_def] and l = w(1) [folded Q_def] and sp = w(4) [folded Q_def]
    and e = e [folded Q_def, of btreeHeaderSize] e [folded Q_def, of "btreeHeaderSize + 8"]
  have h: "24 \<le> btreeHeaderSize" "24 \<le> btreeHeaderSize + 8" by (simp_all add: btreeHeaderSize_def)
  show "parseLeafPage page = Inr ld \<Longrightarrow> parseLeafPage (withParent page p) = Inr (ld\<lparr>leafParent := p\<rparr>)"
    unfolding Q_def [symmetric]
    by (auto simp: parseLeafPage_def s l sp e h Let_def bindR_eq_Inr split: if_splits prod.splits)
  show "parseInternalPage page = Inr ind \<Longrightarrow> parseInternalPage (withParent page p) = Inr (ind\<lparr>inParent := p\<rparr>)"
    unfolding Q_def [symmetric]
    by (auto simp: parseInternalPage_def s l sp e h Let_def bindR_eq_Inr split: if_splits prod.splits)
qed

subsection \<open>Keys and intervals\<close>

lemma within_left: "within lo (Some k) x \<Longrightarrow> within lo hi k \<Longrightarrow> within lo hi x"
  by (auto simp: within_def split: option.splits)

lemma within_right: "within k hi x \<Longrightarrow> lo < k \<Longrightarrow> within lo hi x"
  by (auto simp: within_def)

lemma treeOk_within:
  "treeOk ps lo hi t \<Longrightarrow> k \<in> fst ` set (entries t) \<Longrightarrow> within lo hi k"
  "treesOk ps lo hi ks ts \<Longrightarrow> k \<in> fst ` set (concat (map entries ts)) \<Longrightarrow> within lo hi k"
proof (induction ps lo hi t and ps lo hi ks ts arbitrary: k and k rule: treeOk_treesOk.induct)
  case (1 ps lo hi pid ks vs)
  then show ?case by (auto dest: set_zip_leftD)
next
  case (4 ps lo hi k' ks t ts)
  from "4.prems"(2) consider "k \<in> fst ` set (entries t)" | "k \<in> fst ` set (concat (map entries ts))"
    by fastforce
  then show ?case
  proof cases
    case 1
    then show ?thesis using 4 by (auto intro: within_left)
  next
    case 2
    from "4.IH"(2) [OF _ this] "4.prems"(1) show ?thesis by (auto intro: within_right)
  qed
qed auto

lemma treeOk_sorted:
  "treeOk ps lo hi t \<Longrightarrow> sorted_wrt (<) (map fst (entries t))"
  "treesOk ps lo hi ks ts \<Longrightarrow> sorted_wrt (<) (map fst (concat (map entries ts)))"
proof (induction ps lo hi t and ps lo hi ks ts rule: treeOk_treesOk.induct)
  case (1 ps lo hi pid ks vs)
  then show ?case by (simp add: entriesOk_def)
next
  case (4 ps lo hi k ks t ts)
  have "x < y" if "x \<in> fst ` set (entries t)" "y \<in> fst ` set (concat (map entries ts))" for x y
  proof -
    have "within lo (Some k) x" "within k hi y"
      using "4.prems" treeOk_within(1) [OF _ that(1)] treeOk_within(2) [OF _ that(2)] by auto
    then show ?thesis by (auto simp: within_def)
  qed
  with 4 show ?case by (auto simp: sorted_wrt_append)
qed auto

text \<open>The child a key belongs to, and what may be put in its place.\<close>

lemma treesOk_splice:
  assumes "treesOk ps lo hi ks ts" "within lo hi key"
  obtains ks1 ks2 ts1 t ts2 lo' hi' where "ks = ks1 @ ks2" "ts = ts1 @ t # ts2" "length ts1 = length ks1"
    "\<forall>k \<in> set ks1. k \<le> key" "\<forall>k \<in> set ks2. key < k" "treeOk ps lo' hi' t" "within lo' hi' key"
    "\<And>seps us. treesOk ps lo' hi' seps us \<Longrightarrow> treesOk ps lo hi (ks1 @ seps @ ks2) (ts1 @ us @ ts2)"
    "key \<notin> fst ` set (concat (map entries ts1))" "key \<notin> fst ` set (concat (map entries ts2))"
  using assms
proof (induction ks arbitrary: lo ts thesis)
  case Nil
  then obtain t where ts: "ts = [t]" "treeOk ps lo hi t" by (cases ts; cases "tl ts") auto
  show ?case
    by (rule Nil.prems(1) [of "[]" "[]" "[]" t "[]" lo hi]) (use ts Nil.prems(3) in auto)
next
  case (Cons k ks)
  from Cons.prems(2) obtain t ts' where ts: "ts = t # ts'" by (cases ts) auto
  have w: "lo < k" "within lo hi k" "length k \<le> maxKeyBytes" "treeOk ps lo (Some k) t" "treesOk ps k hi ks ts'"
    using Cons.prems(2) by (simp_all add: ts)
  show ?case
  proof (cases "k \<le> key")
    case True
    then have "within k hi key" using Cons.prems(3) by (auto simp: within_def split: option.splits)
    from Cons.IH [OF _ w(5) this] obtain ks1 ks2 ts1 u ts2 lo' hi' where IH:
      "ks = ks1 @ ks2" "ts' = ts1 @ u # ts2" "length ts1 = length ks1"
      "\<forall>k \<in> set ks1. k \<le> key" "\<forall>k \<in> set ks2. key < k" "treeOk ps lo' hi' u" "within lo' hi' key"
      "\<And>seps us. treesOk ps lo' hi' seps us \<Longrightarrow> treesOk ps k hi (ks1 @ seps @ ks2) (ts1 @ us @ ts2)"
      "key \<notin> fst ` set (concat (map entries ts1))" "key \<notin> fst ` set (concat (map entries ts2))"
      by metis
    have "key \<notin> fst ` set (entries t)"
    proof
      assume "key \<in> fst ` set (entries t)"
      from treeOk_within(1) [OF w(4) this] True show False by (auto simp: within_def)
    qed
    then have "key \<notin> fst ` set (concat (map entries (t # ts1)))" using IH(9) by auto
    then show ?thesis
      by (intro Cons.prems(1) [of "k # ks1" ks2 "t # ts1" u ts2 lo' hi']) (use IH True w ts in auto)
  next
    case False
    then have key: "key < k" by simp
    have "k \<le> x" if "x \<in> set (k # ks)" for x
    proof -
      have "treesOk ps k hi ks ts' \<Longrightarrow> \<forall>x \<in> set ks. k < x" for k ts'
        by (induction ks arbitrary: k ts') (case_tac ts'; fastforce dest: less_trans)+
      with w(5) that show ?thesis by force
    qed
    then have "\<forall>x \<in> set (k # ks). key < x" using key by (meson order_less_le_trans)
    moreover have "key \<notin> fst ` set (concat (map entries ts'))"
    proof
      assume "key \<in> fst ` set (concat (map entries ts'))"
      from treeOk_within(2) [OF w(5) this] key show False by (auto simp: within_def)
    qed
    moreover have "within lo (Some k) key" using key Cons.prems(3) by (simp add: within_def)
    moreover have "treesOk ps lo hi (seps @ k # ks) (us @ ts')" if "treesOk ps lo (Some k) seps us" for seps us
      using that w(1-3,5)
    proof (induction seps arbitrary: lo us)
      case Nil
      then obtain u where "us = [u]" "treeOk ps lo (Some k) u" by (cases us; cases "tl us") auto
      with Nil show ?case by simp
    next
      case (Cons s seps)
      then obtain u us' where us: "us = u # us'" by (cases us) auto
      then have "s < k" "within lo hi s"
        using Cons.prems by (auto simp: within_def split: option.splits)
      then have "within s hi k" using Cons.prems(3) by (auto simp: within_def split: option.splits)
      with Cons us \<open>s < k\<close> \<open>within lo hi s\<close> show ?case by auto
    qed
    ultimately show ?thesis
      by (intro Cons.prems(1) [of "[]" "k # ks" "[]" t ts' lo "Some k"]) (use ts w in auto)
  qed
qed

subsection \<open>Splits as trees\<close>

definition leavesOf :: "uint64 list \<Rightarrow> leafSplit list \<Rightarrow> btree list" where
  "leavesOf newIDs splits = map2 (\<lambda>i sp. Leaf i (lsKeys sp) (lsVals sp)) newIDs splits"

lemma leavesOf_simps [simp]:
  "leavesOf [] splits = []" "leavesOf newIDs [] = []"
  "leavesOf (i # js) (sp # sps) = Leaf i (lsKeys sp) (lsVals sp) # leavesOf js sps"
  by (simp_all add: leavesOf_def)

definition entriesBounded :: "nat \<Rightarrow> bytes list \<Rightarrow> bytes list \<Rightarrow> bool" where
  "entriesBounded ps ks vs \<longleftrightarrow> (\<forall>k \<in> set ks. length k \<le> maxKeyBytes) \<and>
     (\<forall>v \<in> set vs. length v \<le> inlineThreshold ps)"

lemma entriesOk_bounded:
  "entriesOk ps ks vs \<longleftrightarrow> length vs = length ks \<and> sorted_wrt (<) ks \<and> entriesBounded ps ks vs \<and>
     leafSerializedSize ks vs \<le> ps"
  by (auto simp: entriesOk_def entriesBounded_def)

lemma leaves_ok:
  assumes "list_all (pageOk ps) splits" "splits \<noteq> []" "length js = length splits"
    and "sorted_wrt (<) (concat (map lsKeys splits))" "\<forall>k \<in> set (concat (map lsKeys splits)). within lo hi k"
    and "entriesBounded ps (concat (map lsKeys splits)) (concat (map lsVals splits))"
  shows "treesOk ps lo hi (map lsSep (tl splits)) (leavesOf js splits)"
  using assms
proof (induction splits arbitrary: js lo)
  case (Cons p splits)
  obtain i js' where js: "js = i # js'" "length js' = length splits" using Cons.prems(3) by (cases js) auto
  have p: "entriesOk ps (lsKeys p) (lsVals p)"
    using Cons.prems by (auto simp: entriesOk_bounded entriesBounded_def pageOk_def sorted_wrt_append)
  show ?case
  proof (cases splits)
    case Nil
    then show ?thesis using p Cons.prems(5) js by simp
  next
    case split: (Cons q rest)
    let ?k = "lsSep q"
    have q: "pageOk ps q" using Cons.prems(1) split by simp
    then have hq: "?k = hd (lsKeys q)" "lsKeys q \<noteq> []" by (simp_all add: pageOk_def)
    then have kin: "?k \<in> set (concat (map lsKeys splits))" using split by simp
    have kp: "x < ?k" if "x \<in> set (lsKeys p)" for x
      using Cons.prems(4) kin that by (auto simp: sorted_wrt_append)
    have kle: "?k \<le> x" if "x \<in> set (concat (map lsKeys splits))" for x
    proof -
      have "concat (map lsKeys splits) = ?k # (tl (lsKeys q) @ concat (map lsKeys rest))"
        using hq split by (metis append_Cons concat.simps(2) list.collapse list.simps(9))
      with Cons.prems(4) that show ?thesis by (auto simp: sorted_wrt_append intro: less_imp_le)
    qed
    obtain x where x: "x \<in> set (lsKeys p)" using Cons.prems(1) by (cases "lsKeys p") (auto simp: pageOk_def)
    then have "lo \<le> x" using Cons.prems(5) by (simp add: within_def)
    then have lok: "lo < ?k" using kp [OF x] by simp
    have wk: "within lo hi ?k" using Cons.prems(5) kin by simp
    have "treesOk ps ?k hi (map lsSep (tl splits)) (leavesOf js' splits)"
    proof (rule Cons.IH)
      show "\<forall>k \<in> set (concat (map lsKeys splits)). within ?k hi k"
        using kle Cons.prems(5) by (auto simp: within_def)
    qed (use Cons.prems js split in \<open>auto simp: sorted_wrt_append entriesBounded_def\<close>)
    moreover have "length ?k \<le> maxKeyBytes" using Cons.prems(6) kin by (simp add: entriesBounded_def)
    moreover have "\<forall>x \<in> set (lsKeys p). within lo (Some ?k) x"
      using kp Cons.prems(5) by (simp add: within_def)
    ultimately show ?thesis using p lok wk js split by simp
  qed
qed simp

lemma leaves_entries:
  "length js = length splits \<Longrightarrow> list_all (pageOk ps) splits \<Longrightarrow>
   concat (map entries (leavesOf js splits)) = zip (concat (map lsKeys splits)) (concat (map lsVals splits))"
  by (induction js splits rule: list_induct2) (simp_all add: pageOk_def)

fun nodesOf :: "uint64 list \<Rightarrow> internalGroup list \<Rightarrow> btree list \<Rightarrow> btree list" where
  "nodesOf (i # js) (g # gs) ts =
     Node i (grKeys g) (take (length (grPtrs g)) ts) # nodesOf js gs (drop (length (grPtrs g)) ts)"
| "nodesOf _ _ _ = []"

lemma treesOk_split:
  "treesOk ps lo hi (ks @ s # ks') (ts @ us) \<Longrightarrow> length ts = length ks + 1 \<Longrightarrow>
   treesOk ps lo (Some s) ks ts \<and> lo < s \<and> within lo hi s \<and> length s \<le> maxKeyBytes \<and> treesOk ps s hi ks' us"
proof (induction ks arbitrary: lo ts)
  case Nil
  then obtain t where "ts = [t]" by (cases ts) auto
  with Nil show ?case by simp
next
  case (Cons k ks)
  then obtain t ts' where ts: "ts = t # ts'" by (cases ts) auto
  with Cons have IH: "treesOk ps k (Some s) ks ts'" "k < s" "within k hi s" "length s \<le> maxKeyBytes" "treesOk ps s hi ks' us"
    by auto
  with Cons.prems ts show ?case by (auto simp: within_def split: option.splits)
qed

lemma nodes_ok:
  assumes "length groups = length seps + 1" "list_all (groupOk ps) groups" "length js = length groups"
    and "length (concat (map grPtrs groups)) = length ts" "treesOk ps lo hi (joinGroups groups seps) ts"
  shows "treesOk ps lo hi seps (nodesOf js groups ts)"
  using assms
proof (induction groups seps arbitrary: js ts lo rule: joinGroups.induct)
  case (1 g gs s seps)
  obtain i js' where js: "js = i # js'" using "1.prems"(3) by (cases js) auto
  let ?n = "length (grPtrs g)"
  have len: "length (take ?n ts) = length (grKeys g) + 1" "groupOk ps g"
    using "1.prems" by (auto simp: groupOk_def)
  have "treesOk ps lo hi (grKeys g @ s # joinGroups gs seps) (take ?n ts @ drop ?n ts)"
    using "1.prems"(5) by simp
  from treesOk_split [OF this len(1)] have sp:
    "treesOk ps lo (Some s) (grKeys g) (take ?n ts)" "lo < s" "within lo hi s" "length s \<le> maxKeyBytes"
    "treesOk ps s hi (joinGroups gs seps) (drop ?n ts)" by auto
  have "treesOk ps s hi seps (nodesOf js' gs (drop ?n ts))"
    using "1.prems" sp(5) js by (intro "1.IH") auto
  with sp len(2) js show ?case by (simp add: groupOk_def)
next
  case (2 g gs)
  then obtain i where "gs = []" "js = [i]" by (cases js; cases gs) auto
  with 2 show ?case by (simp add: groupOk_def)
qed simp

lemma nodes_flat:
  assumes "length js = length groups" "length (concat (map grPtrs groups)) = length ts"
  shows "concat (map entries (nodesOf js groups ts)) = concat (map entries ts)"
    "mset (concat (map pids (nodesOf js groups ts))) = mset js + mset (concat (map pids ts))"
    "map rootId (nodesOf js groups ts) = js"
  using assms
proof (induction js groups ts rule: nodesOf.induct)
  case (1 i js g gs ts)
  let ?n = "length (grPtrs g)"
  have cut: "concat (map f ts) = concat (map f (take ?n ts)) @ concat (map f (drop ?n ts))" for f :: "btree \<Rightarrow> 'x list"
    by (metis append_take_drop_id map_append concat_append)
  {
    case 1
    then show ?case using "1.IH"(1) by (simp add: cut [of entries])
  next
    case 2
    then show ?case using "1.IH"(2) by (simp add: cut [of pids])
  next
    case 3
    then show ?case using "1.IH"(3) by simp
  }
qed auto

subsection \<open>How many pages a split makes\<close>

lemma fillGroup_full:
  assumes "fillGroup ps sz g ptrs keys = (h, ptrs', keys', Some sep)" "length ptrs = length keys"
    and "sz = internalSerializedSize (grKeys g)"
  shows "ps < internalSerializedSize (grKeys h) + (2 + length sep + 8) \<and>
    internalSerializedSize (grKeys h) + (2 + length sep + 8) + (\<Sum>k\<leftarrow>keys'. 2 + length k + 8) =
    sz + (\<Sum>k\<leftarrow>keys. 2 + length k + 8) \<and> length ptrs' = length keys' + 1"
  using assms
proof (induction ps sz g ptrs keys rule: fillGroup.induct)
  case (1 ps sz g p ptrs k keys)
  show ?case
  proof (cases "sz + (2 + length k + 8) > ps")
    case True
    then show ?thesis using "1.prems" by auto
  next
    case False
    have "internalSerializedSize (grKeys g @ [k]) = sz + (2 + length k + 8)"
      using "1.prems"(3) by (simp add: internalSerializedSize_def)
    with False "1.prems" "1.IH" [OF refl False] show ?thesis by simp
  qed
qed auto

lemma fillGroup_None: "fillGroup ps sz g ptrs keys = (h, ptrs', keys', None) \<Longrightarrow> ptrs' = []"
  by (induction ps sz g ptrs keys rule: fillGroup.induct) (auto simp: Let_def split: if_splits)

lemma fillGroup_all:
  assumes "length ptrs = length keys" "sz + (\<Sum>k\<leftarrow>keys. 2 + length k + 8) \<le> ps"
  shows "\<exists>h. fillGroup ps sz g ptrs keys = (h, [], [], None)"
  using assms
proof (induction ps sz g ptrs keys rule: fillGroup.induct)
  case (1 ps sz g p ptrs k keys)
  then have "\<not> sz + (2 + length k + 8) > ps" by simp
  with 1 show ?case by simp
qed auto

lemma splitGroups_two:
  assumes "length ptrs = length keys + 1" "internalSerializedSize keys \<le> ps + 600" "validPs ps"
    and "splitInternalGroups ptrs keys ps = (groups, seps)"
  shows "length groups \<le> 2"
proof -
  obtain p ptrs1 where p: "ptrs = p # ptrs1" "length ptrs1 = length keys" using assms(1) by (cases ptrs) auto
  obtain g ptrs' keys' prom where f:
    "fillGroup ps (btreeHeaderSize + 8) \<lparr>grPtrs = [p], grKeys = []\<rparr> ptrs1 keys = (g, ptrs', keys', prom)"
    by (metis prod_cases4)
  have sz: "btreeHeaderSize + 8 = internalSerializedSize (grKeys \<lparr>grPtrs = [p], grKeys = []\<rparr>)"
    by (simp add: internalSerializedSize_def)
  show ?thesis
  proof (cases ptrs')
    case Nil
    then show ?thesis using f assms(4) p by (auto simp: splitInternalGroups_def)
  next
    case (Cons q ptrs2)
    have "prom \<noteq> None"
    proof
      assume "prom = None"
      with fillGroup_None [of ps _ _ ptrs1 keys g ptrs' keys'] f have "ptrs' = []" by blast
      with Cons show False by simp
    qed
    then obtain sep where sep: "prom = Some sep" by blast
    from fillGroup_full [OF f [unfolded sep] p(2) sz]
    have full: "ps < internalSerializedSize (grKeys g) + (2 + length sep + 8)"
      "internalSerializedSize (grKeys g) + (2 + length sep + 8) + (\<Sum>k\<leftarrow>keys'. 2 + length k + 8) =
       internalSerializedSize keys" "length ptrs' = length keys' + 1"
      by (simp_all add: internalSerializedSize_def)
    then have "(\<Sum>k\<leftarrow>keys'. 2 + length k + 8) < 600" using assms(2) by linarith
    then have "btreeHeaderSize + 8 + (\<Sum>k\<leftarrow>keys'. 2 + length k + 8) \<le> ps"
      using assms(3) by (auto simp: btreeHeaderSize_def)
    from fillGroup_all [OF _ this] Cons full(3) have
      "\<exists>h. fillGroup ps (btreeHeaderSize + 8) \<lparr>grPtrs = [q], grKeys = []\<rparr> ptrs2 keys' = (h, [], [], None)" by simp
    then obtain h where h: "fillGroup ps (btreeHeaderSize + 8) \<lparr>grPtrs = [q], grKeys = []\<rparr> ptrs2 keys' = (h, [], [], None)" ..
    have "splitInternalGroups ptrs keys ps = ([g, h], [sep])"
      by (simp add: splitInternalGroups_def p(1) f Cons h sep)
    then show ?thesis using assms(4) by simp
  qed
qed

lemma leafSplit_three:
  assumes "sorted_wrt (<) keys" "length vals = length keys" "leafSerializedSize keys vals \<le> ps"
    and "insertSorted keys vals key val = (ks, vs)" "btreeHeaderSize + entrySize key val \<le> ps"
    and "splitInto ps ks vs pages"
  shows "length pages \<le> 3"
proof -
  have part: "leafSerializedSize ks1 vs1 \<le> ps \<and> leafSerializedSize ks2 vs2 \<le> ps"
    if "keys = ks1 @ ks' @ ks2" "vals = vs1 @ vs' @ vs2" "length vs1 = length ks1" "length vs' = length ks'" for ks1 ks' ks2 vs1 vs' vs2
    using assms(3) leafEntriesSize_append [of ks1 vs1 "ks' @ ks2" "vs' @ vs2"]
      leafEntriesSize_append [of ks' vs' ks2 vs2] that
    by (simp add: leafSerializedSize_def)
  have three: ?thesis if "ks = ks1 @ key # ks2" "vs = vs1 @ val # vs2" "length vs1 = length ks1"
      "length vs2 = length ks2" "leafSerializedSize ks1 vs1 \<le> ps" "leafSerializedSize ks2 vs2 \<le> ps"
    for ks1 ks2 vs1 vs2
  proof -
    let ?Q = "[\<lparr>lsKeys = ks1, lsVals = vs1, lsSep = []\<rparr>, \<lparr>lsKeys = [key], lsVals = [val], lsSep = []\<rparr>,
      \<lparr>lsKeys = ks2, lsVals = vs2, lsSep = []\<rparr>]"
    have "length pages \<le> length ?Q"
      by (rule splitInto_minimal [OF assms(6)])
        (use that assms(5) in \<open>simp_all add: fitsPage_def leafSerializedSize_def entrySize_def\<close>)
    then show ?thesis by simp
  qed
  from assms(1,2) show ?thesis
  proof (cases rule: insertSorted_cases [where key = key and val = val])
    case (replace ks1 ks2 vs1 v vs2)
    with assms(4) part [of ks1 "[key]" ks2 vs1 "[v]" vs2] assms(2) show ?thesis
      by (intro three [of ks1 ks2 vs1 vs2]) auto
  next
    case (insert ks1 ks2 vs1 vs2)
    with assms(4) part [of ks1 "[]" ks2 vs1 "[]" vs2] assms(2) show ?thesis
      by (intro three [of ks1 ks2 vs1 vs2]) auto
  qed
qed

subsection \<open>Writing internal pages\<close>

lemma rep_withParent:
  assumes "rep rd ps nx par t" "distinct (pids t)" "rd (rootId t) = Inr page" "validPs ps"
    and "rd' = rd(rootId t := Inr (withParent page p))"
  shows "length page = ps \<and> rep rd' ps nx (Some p) t"
proof (cases t)
  case (Leaf pid ks vs)
  then have "length page = ps" "\<exists>parent. parseLeafPage page =
      Inr \<lparr>leafNext = nx, leafParent = parent, leafKeys = ks, leafVals = vs\<rparr>"
    using assms(1,3) by (auto simp: leafAt_def)
  moreover have "24 \<le> ps" using assms(4) by auto
  ultimately show ?thesis
    using Leaf assms(5) withParent_parse(1) [of page _ p] withParent_slices(1) [of page p]
    by (auto simp: leafAt_def)
next
  case (Node pid ks ts)
  then have "length page = ps" "\<exists>parent. parseInternalPage page =
      Inr \<lparr>inParent = parent, inPtrs = map rootId ts, inKeys = ks\<rparr>"
    using assms(1,3) by (auto simp: nodeAt_def)
  moreover have "24 \<le> ps" using assms(4) by auto
  moreover have "reps rd' ps nx (Some pid) ts = reps rd ps nx (Some pid) ts"
    using Node assms(2,5) by (intro rep_cong(2)) auto
  ultimately show ?thesis
    using Node assms(1,5) withParent_parse(2) [of page _ p] withParent_slices(1) [of page p]
    by (auto simp: nodeAt_def)
qed

lemma rep_page: "rep rd ps nx par t \<Longrightarrow> \<exists>page. rd (rootId t) = Inr page"
  by (cases t) (auto simp: leafAt_def nodeAt_def)

lemma changes_cong_rep:
  "changes P n V V' \<Longrightarrow> set (pids t) \<inter> P = {} \<Longrightarrow> rep (svPage V') ps nx par t = rep (svPage V) ps nx par t"
  "changes P n V V' \<Longrightarrow> set (concat (map pids ts)) \<inter> P = {} \<Longrightarrow>
   reps (svPage V') ps nx par ts = reps (svPage V) ps nx par ts"
  by (rule rep_cong(1), force simp: changes_def) (rule rep_cong(2), force simp: changes_def)

lemma rootIds_pids: "set (map rootId ts) \<subseteq> set (concat (map pids ts))"
  using pids_rootId by auto

context page_store
begin

lemma setParent_ok:
  assumes "ok s" "rep (svPage (view s)) (opPageSize ops) nx par t" "distinct (pids t)"
    and "set (pids t) \<subseteq> svUsed (view s)"
  shows "\<exists>s'. setParent ops (rootId t) p s = Inr s' \<and> ok s' \<and> changes {rootId t} 0 (view s) (view s') \<and>
    rep (svPage (view s')) (opPageSize ops) nx (Some p) t"
proof -
  note page_size = page_size [OF assms(1)]
  obtain page where page: "svPage (view s) (rootId t) = Inr page" using rep_page [OF assms(2)] ..
  have r: "length page = opPageSize ops"
    "rep ((svPage (view s))(rootId t := Inr (withParent page p))) (opPageSize ops) nx (Some p) t"
    using rep_withParent [OF assms(2,3) page page_size refl] by blast+
  have "24 \<le> opPageSize ops" using page_size by auto
  then have len: "length (withParent page p) = opPageSize ops"
    using r(1) withParent_slices(1) [of page p] by simp
  have used: "rootId t \<in> svUsed (view s)" using assms(4) pids_rootId by blast
  from write_page [OF assms(1) used len] obtain s' where s':
    "opWrite ops (rootId t) (withParent page p) s = Inr s'" "ok s'"
    "view s' = putPage (rootId t) (withParent page p) (view s)" by blast
  moreover have "rep (svPage (view s')) (opPageSize ops) nx (Some p) t"
    using r(2) s'(3) by (simp add: putPage_def)
  moreover have "changes {rootId t} 0 (view s) (view s')"
    using changes_put [of "rootId t" "view s"] s'(3) used by simp
  ultimately show ?thesis
    using page by (simp add: setParent_def read_page [OF assms(1) used])
qed

lemma setParents_ok:
  assumes "ok s" "reps (svPage (view s)) (opPageSize ops) nx par ts" "distinct (concat (map pids ts))"
    and "set (concat (map pids ts)) \<subseteq> svUsed (view s)"
  shows "\<exists>s'. setParents ops (map rootId ts) p s = Inr s' \<and> ok s' \<and>
    changes (set (map rootId ts)) 0 (view s) (view s') \<and> reps (svPage (view s')) (opPageSize ops) nx (Some p) ts"
  using assms
proof (induction ts arbitrary: s)
  case Nil
  then show ?case by (simp add: changes_refl)
next
  case (Cons t ts)
  let ?nx = "case ts of [] \<Rightarrow> nx | u # _ \<Rightarrow> firstLeaf u"
  have dis: "set (pids t) \<inter> set (concat (map pids ts)) = {}" using Cons.prems(3) by simp
  have "rep (svPage (view s)) (opPageSize ops) ?nx par t" using Cons.prems(2) by simp
  from setParent_ok [OF Cons.prems(1) this, of p] Cons.prems(3,4) obtain s1 where s1:
    "setParent ops (rootId t) p s = Inr s1" "ok s1" "changes {rootId t} 0 (view s) (view s1)"
    "rep (svPage (view s1)) (opPageSize ops) ?nx (Some p) t" by auto
  have "reps (svPage (view s1)) (opPageSize ops) nx par ts"
  proof -
    have "set (concat (map pids ts)) \<inter> {rootId t} = {}" using dis pids_rootId [of t] by blast
    with Cons.prems(2) show ?thesis using changes_cong_rep(2) [OF s1(3)] by simp
  qed
  moreover have "set (concat (map pids ts)) \<subseteq> svUsed (view s1)"
    using Cons.prems(4) changes_used [OF s1(3)] by auto
  ultimately obtain s2 where s2: "setParents ops (map rootId ts) p s1 = Inr s2" "ok s2"
    "changes (set (map rootId ts)) 0 (view s1) (view s2)" "reps (svPage (view s2)) (opPageSize ops) nx (Some p) ts"
    using Cons.IH [OF s1(2)] Cons.prems(3) by auto
  have "set (pids t) \<inter> set (map rootId ts) = {}" using dis rootIds_pids by blast
  then have "rep (svPage (view s2)) (opPageSize ops) ?nx (Some p) t"
    using changes_cong_rep(1) [OF s2(3)] s1(4) by simp
  moreover have "changes (set (map rootId (t # ts))) 0 (view s) (view s2)"
    using changes_trans [OF s1(3) s2(3)] by simp
  ultimately show ?case using s1(1) s2 by simp
qed

lemma writeInternal_ok:
  assumes W: "\<And>page. length page = opPageSize ops \<Longrightarrow>
      \<exists>s'. opWrite ops pid page s = Inr s' \<and> ok s' \<and> view s' = putPage pid page V"
    and ts: "reps (svPage V) (opPageSize ops) nx par ts" "distinct (pid # concat (map pids ts))"
      "set (concat (map pids ts)) \<subseteq> svUsed V"
    and ks: "keysFit ks" "[] \<notin> set ks" "length ts = length ks + 1" "internalSerializedSize ks \<le> opPageSize ops"
  shows "\<exists>s'. writeInternal ops pid parent (map rootId ts) ks s = Inr s' \<and> ok s' \<and>
    changes (insert pid (set (map rootId ts))) (if pid \<in> svUsed V then 0 else 1) V (view s') \<and>
    rep (svPage (view s')) (opPageSize ops) nx (Some parent) (Node pid ks ts) \<and> pid \<in> svWritten (view s')"
proof -
  have page_size: "validPs (opPageSize ops)"
    using W [of "replicate (opPageSize ops) 0"] page_size by auto
  have "length (map rootId ts) = length ks + 1" using ks(3) by simp
  from keysFit_build [OF ks(1,2) this ks(4) page_size, of parent] obtain page where page:
    "buildInternalPage (opPageSize ops) parent (map rootId ts) ks = Inr page" "length page = opPageSize ops"
    "parseInternalPage page = Inr \<lparr>inParent = parent, inPtrs = map rootId ts, inKeys = ks\<rparr>" .
  from W [OF page(2)] obtain s1 where s1: "opWrite ops pid page s = Inr s1" "ok s1" "view s1 = putPage pid page V"
    by blast
  have ch1: "changes {pid} (if pid \<in> svUsed V then 0 else 1) V (view s1)" using changes_put s1(3) by simp
  have "reps (svPage (view s1)) (opPageSize ops) nx par ts"
    using ts(1,2) changes_cong_rep(2) [OF ch1] by auto
  moreover have "set (concat (map pids ts)) \<subseteq> svUsed (view s1)" using ts(3) changes_used [OF ch1] by auto
  ultimately obtain s2 where s2: "setParents ops (map rootId ts) pid s1 = Inr s2" "ok s2"
    "changes (set (map rootId ts)) 0 (view s1) (view s2)" "reps (svPage (view s2)) (opPageSize ops) nx (Some pid) ts"
    using setParents_ok [OF s1(2)] ts(2) by (metis distinct.simps(2))
  have "pid \<notin> set (map rootId ts)" using ts(2) rootIds_pids by auto
  then have "svPage (view s2) pid = Inr page"
    using changes_page [OF s2(3)] s1(3) by (simp add: putPage_def)
  then have "nodeAt (svPage (view s2)) (opPageSize ops) (Some parent) pid ks (map rootId ts)"
    using page(2,3) by (simp add: nodeAt_def)
  moreover have "changes (insert pid (set (map rootId ts))) (if pid \<in> svUsed V then 0 else 1) V (view s2)"
    using changes_trans [OF ch1 s2(3)] by simp
  moreover have "pid \<in> svWritten (view s2)"
    using changes_written [OF s2(3)] s1(3) by (auto simp: putPage_def)
  ultimately show ?thesis using page(1) s1(1) s2 by (simp add: writeInternal_def)
qed

end

subsection \<open>Spilling an internal node\<close>

definition mkRefs :: "bytes list \<Rightarrow> uint64 list \<Rightarrow> childRef list" where
  "mkRefs seps js = map2 (\<lambda>sep i. \<lparr>sepKey = sep, crPageID = i\<rparr>) seps js"

lemma mkRefs_simps [simp]:
  "mkRefs [] js = []" "mkRefs seps [] = []"
  "mkRefs (sep # seps) (j # js) = \<lparr>sepKey = sep, crPageID = j\<rparr> # mkRefs seps js"
  by (simp_all add: mkRefs_def)

lemma mkRefs_fields:
  "length seps = length js \<Longrightarrow> map sepKey (mkRefs seps js) = seps"
  "length seps = length js \<Longrightarrow> map crPageID (mkRefs seps js) = js"
  "length seps = length js \<Longrightarrow> mkRefs seps js = [] \<longleftrightarrow> js = []"
  by (induction seps js rule: list_induct2) simp_all

lemma firstLeaf_Node: "ts \<noteq> [] \<Longrightarrow> firstLeaf (Node pid ks ts) = firstLeaf (hd ts)"
  by (cases ts) simp_all

lemma hd_nodesOf:
  "length js = length groups \<Longrightarrow> groups \<noteq> [] \<Longrightarrow> groupOk ps (hd groups) \<Longrightarrow> ts \<noteq> [] \<Longrightarrow>
   nodesOf js groups ts \<noteq> [] \<and> firstLeaf (hd (nodesOf js groups ts)) = firstLeaf (hd ts)"
  by (cases js; cases groups; cases ts) (auto simp: groupOk_def)

lemma next_case: "(case us of [] \<Rightarrow> nx | u # _ \<Rightarrow> firstLeaf u) = (if us = [] then nx else firstLeaf (hd us))"
  by (cases us) simp_all

definition groupKeysOk :: "nat \<Rightarrow> internalGroup \<Rightarrow> bool" where
  "groupKeysOk ps g \<longleftrightarrow> groupOk ps g \<and> keysFit (grKeys g) \<and> [] \<notin> set (grKeys g)"

context page_store
begin

lemma spillGroups_ok:
  assumes "ok s" "reps (svPage (view s)) (opPageSize ops) nx par ts" "distinct (concat (map pids ts))"
    and "set (concat (map pids ts)) \<subseteq> svUsed (view s)" "list_all (groupKeysOk (opPageSize ops)) groups"
    and "concat (map grPtrs groups) = map rootId ts" "length seps = length groups"
    and "length groups \<le> svRoom (view s)"
  shows "\<exists>js s'. spillGroups ops parent groups seps s = Inr (mkRefs seps js, s') \<and> ok s' \<and>
    length js = length groups \<and> distinct js \<and> set js \<inter> svUsed (view s) = {} \<and>
    changes (set js \<union> set (map rootId ts)) (length groups) (view s) (view s') \<and>
    reps (svPage (view s')) (opPageSize ops) nx (Some parent) (nodesOf js groups ts)"
  using assms
proof (induction groups arbitrary: s ts seps)
  case Nil
  then show ?case by (intro exI [of _ "[]"] exI [of _ s]) (simp add: changes_refl)
next
  case (Cons g groups)
  obtain sep seps' where seps: "seps = sep # seps'" "length seps' = length groups"
    using Cons.prems(7) by (cases seps) auto
  let ?n = "length (grPtrs g)"
  let ?us = "take ?n ts" and ?ws = "drop ?n ts"
  have ptrs: "grPtrs g = map rootId ?us" "concat (map grPtrs groups) = map rootId ?ws"
  proof -
    have c: "grPtrs g @ concat (map grPtrs groups) = map rootId ts" using Cons.prems(6) by simp
    have "take ?n (map rootId ts) = grPtrs g" "drop ?n (map rootId ts) = concat (map grPtrs groups)"
      by (simp_all flip: c)
    then show "grPtrs g = map rootId ?us" "concat (map grPtrs groups) = map rootId ?ws"
      by (simp_all add: take_map drop_map)
  qed
  have "distinct (concat (map pids (?us @ ?ws)))" "set (concat (map pids (?us @ ?ws))) \<subseteq> svUsed (view s)"
    "reps (svPage (view s)) (opPageSize ops) nx par (?us @ ?ws)"
    using Cons.prems(2-4) by (simp_all only: append_take_drop_id)
  then have dis: "distinct (concat (map pids ?us))" "distinct (concat (map pids ?ws))"
    "set (concat (map pids ?us)) \<inter> set (concat (map pids ?ws)) = {}"
    and sub: "set (concat (map pids ?us)) \<subseteq> svUsed (view s)" "set (concat (map pids ?ws)) \<subseteq> svUsed (view s)"
    and rp: "reps (svPage (view s)) (opPageSize ops) (case ?ws of [] \<Rightarrow> nx | u # _ \<Rightarrow> firstLeaf u) par ?us"
      "reps (svPage (view s)) (opPageSize ops) nx par ?ws"
    by (simp_all only: map_append concat_append distinct_append set_append Un_subset_iff reps_append)
  let ?nx = "case ?ws of [] \<Rightarrow> nx | u # _ \<Rightarrow> firstLeaf u"
  have gs: "list_all (groupKeysOk (opPageSize ops)) groups" and "groupKeysOk (opPageSize ops) g"
    using Cons.prems(5) by simp_all
  then have g: "groupOk (opPageSize ops) g" "keysFit (grKeys g)" "[] \<notin> set (grKeys g)"
    by (simp_all add: groupKeysOk_def)
  have lu: "length ?us = length (grKeys g) + 1"
    using g(1) ptrs(1) by (metis groupOk_def length_map)
  have "0 < svRoom (view s)" using Cons.prems(8) by simp
  from alloc_page [OF Cons.prems(1) this] obtain gpid s1 where al:
    "opAlloc ops s = Inr (gpid, s1)" "gpid \<noteq> 0" "gpid \<notin> svUsed (view s)"
    "\<And>page. length page = opPageSize ops \<Longrightarrow>
      \<exists>s'. opWrite ops gpid page s1 = Inr s' \<and> ok s' \<and> view s' = putPage gpid page (view s)"
    by metis
  have "distinct (gpid # concat (map pids ?us))" using dis(1) sub(1) al(3) by auto
  from writeInternal_ok [OF al(4) rp(1) this sub(1) g(2,3) lu, of parent] g(1) al(3) obtain s2 where w:
    "writeInternal ops gpid parent (map rootId ?us) (grKeys g) s1 = Inr s2" "ok s2"
    "changes (insert gpid (set (map rootId ?us))) 1 (view s) (view s2)"
    "rep (svPage (view s2)) (opPageSize ops) ?nx (Some parent) (Node gpid (grKeys g) ?us)"
    by (auto simp only: groupOk_def if_False)
  have "set (concat (map pids ?ws)) \<inter> insert gpid (set (map rootId ?us)) = {}"
    using dis(3) rootIds_pids [of ?us] sub(2) al(3) by blast
  then have r2: "reps (svPage (view s2)) (opPageSize ops) nx par ?ws"
    using changes_cong_rep(2) [OF w(3)] rp(2) by simp
  have sub2: "set (concat (map pids ?ws)) \<subseteq> svUsed (view s2)" using sub(2) changes_used [OF w(3)] by blast
  have room2: "length groups \<le> svRoom (view s2)" using Cons.prems(8) changes_room [OF w(3)] by simp
  from Cons.IH [OF w(2) r2 dis(2) sub2 gs ptrs(2) seps(2) room2] obtain js s3 where IH:
    "spillGroups ops parent groups seps' s2 = Inr (mkRefs seps' js, s3)" "ok s3"
    "length js = length groups" "distinct js" "set js \<inter> svUsed (view s2) = {}"
    "changes (set js \<union> set (map rootId ?ws)) (length groups) (view s2) (view s3)"
    "reps (svPage (view s3)) (opPageSize ops) nx (Some parent) (nodesOf js groups ?ws)" by blast
  have used2: "svUsed (view s2) = svUsed (view s) \<union> insert gpid (set (map rootId ?us))"
    by (rule changes_used [OF w(3)])
  have pidsN: "set (pids (Node gpid (grKeys g) ?us)) = insert gpid (set (concat (map pids ?us)))" by simp
  have "set (pids (Node gpid (grKeys g) ?us)) \<inter> (set js \<union> set (map rootId ?ws)) = {}"
    using IH(5) used2 sub dis(3) rootIds_pids [of ?ws] al(3) unfolding pidsN by blast
  then have "rep (svPage (view s3)) (opPageSize ops) ?nx (Some parent) (Node gpid (grKeys g) ?us)"
    using changes_cong_rep(1) [OF IH(6)] w(4) by blast
  moreover have "?nx = (case nodesOf js groups ?ws of [] \<Rightarrow> nx | u # _ \<Rightarrow> firstLeaf u)"
  proof (cases groups)
    case Nil
    then show ?thesis using ptrs(2) by simp
  next
    case (Cons h hs)
    then have "groupOk (opPageSize ops) h" using gs by (simp add: groupKeysOk_def)
    moreover have "?ws \<noteq> []" using ptrs(2) Cons calculation by (auto simp: groupOk_def)
    ultimately show ?thesis
      using hd_nodesOf [of js groups "opPageSize ops" ?ws] IH(3) Cons by (simp add: next_case)
  qed
  moreover have "changes (set (gpid # js) \<union> set (map rootId ts)) (length (g # groups)) (view s) (view s3)"
  proof -
    have "set (map rootId ts) = set (map rootId ?us) \<union> set (map rootId ?ws)"
      by (metis append_take_drop_id map_append set_append)
    then have "insert gpid (set (map rootId ?us)) \<union> (set js \<union> set (map rootId ?ws)) = set (gpid # js) \<union> set (map rootId ts)"
      by auto
    then show ?thesis using changes_trans [OF w(3) IH(6)] by simp
  qed
  moreover have "distinct (gpid # js)" "set (gpid # js) \<inter> svUsed (view s) = {}"
    using IH(4,5) used2 al(3) by auto
  moreover have "spillGroups ops parent (g # groups) seps s = Inr (mkRefs seps (gpid # js), s3)"
    using al(1) w(1) IH(1) by (simp add: seps(1) flip: ptrs(1))
  moreover have "nodesOf (gpid # js) (g # groups) ts = Node gpid (grKeys g) ?us # nodesOf js groups ?ws" by simp
  ultimately show ?case
    using IH(2,3,7) by (intro exI [of _ "gpid # js"] exI [of _ s3]) (simp only: reps.simps list.size simp_thms)
qed

end

lemma treesOk_keys: "treesOk ps lo hi ks ts \<Longrightarrow> keysFit ks \<and> [] \<notin> set ks"
proof (induction ks arbitrary: lo ts)
  case (Cons k ks)
  then obtain t ts' where "ts = t # ts'" by (cases ts) auto
  with Cons show ?case by (auto simp: keysFit_def)
qed (simp add: keysFit_def)

lemma joinGroups_keys: "length groups = length seps + 1 \<Longrightarrow> g \<in> set groups \<Longrightarrow> set (grKeys g) \<subseteq> set (joinGroups groups seps)"
  by (induction groups seps rule: joinGroups.induct) auto

lemma nodesOf_height:
  "\<forall>t \<in> set ts. height t \<le> h \<Longrightarrow> \<forall>t \<in> set (nodesOf js groups ts). height t \<le> Suc h"
  by (induction js groups ts rule: nodesOf.induct) (auto dest: in_set_takeD in_set_dropD)

lemma uniform_Node [simp]: "uniform (Node pid ks ts) (Suc h) \<longleftrightarrow> (\<forall>t \<in> set ts. uniform t h)"
  by (auto simp: list_all_iff)

lemma nodesOf_uniform:
  "\<forall>t \<in> set ts. uniform t h \<Longrightarrow> \<forall>t \<in> set (nodesOf js groups ts). uniform t (Suc h)"
  by (induction js groups ts rule: nodesOf.induct) (auto simp del: uniform.simps dest: in_set_takeD in_set_dropD)

lemma splitInternal_groups:
  assumes "treesOk ps lo hi ks ts" "validPs ps" "internalSerializedSize ks \<le> ps + 600"
    and "splitInternalGroups (map rootId ts) ks ps = (groups, seps)"
  shows "list_all (groupKeysOk ps) groups" "length groups = length seps + 1" "length groups \<le> 2"
    "concat (map grPtrs groups) = map rootId ts"
    "length js = length groups \<Longrightarrow> treesOk ps lo hi seps (nodesOf js groups ts)"
proof -
  have len: "length (map rootId ts) = length ks + 1" using treesOk_length [OF assms(1)] by simp
  have ps: "btreeHeaderSize + 8 \<le> ps" using assms(2) by (auto simp: btreeHeaderSize_def)
  from splitGroupsFrom_spec [OF len ps] assms(4) have sp: "list_all (groupOk ps) groups"
    "length groups = length seps + 1" "concat (map grPtrs groups) = map rootId ts" "joinGroups groups seps = ks"
    by (auto simp: splitInternalGroups_def)
  then show "length groups = length seps + 1" "concat (map grPtrs groups) = map rootId ts" by simp_all
  show "length groups \<le> 2" by (rule splitGroups_two [OF len assms(3,2,4)])
  show "list_all (groupKeysOk ps) groups"
    using sp(1) joinGroups_keys [OF sp(2)] treesOk_keys [OF assms(1)] unfolding sp(4)
    by (fastforce simp: list_all_iff groupKeysOk_def keysFit_def)
  show "treesOk ps lo hi seps (nodesOf js groups ts)" if "length js = length groups"
  proof (rule nodes_ok [OF sp(2,1) that])
    show "length (concat (map grPtrs groups)) = length ts" by (simp only: sp(3) length_map)
  qed (use sp(4) assms(1) in simp)
qed

context page_store
begin

lemma spillInternal_ok:
  assumes W: "\<forall>page. length page = opPageSize ops \<longrightarrow>
      (\<exists>s'. opWrite ops pid page s = Inr s' \<and> ok s' \<and> view s' = putPage pid page V)"
    and ts: "reps (svPage V) (opPageSize ops) nx par ts" "distinct (pid # concat (map pids ts))"
      "set (concat (map pids ts)) \<subseteq> svUsed V" "treesOk (opPageSize ops) lo hi ks ts"
      "internalSerializedSize ks \<le> opPageSize ops + 600"
    and room: "(if pid \<in> svUsed V then 0 else 1) + 1 \<le> svRoom V"
  shows "\<exists>js seps nodes s'. spillInternal ops pid parent (map rootId ts) ks s = Inr (mkRefs seps js, s') \<and>
    ok s' \<and> length seps = length js \<and> length js \<le> 1 \<and> distinct (pid # js) \<and>
    set js \<inter> insert pid (svUsed V) = {} \<and>
    changes (set (pid # js) \<union> set (map rootId ts)) ((if pid \<in> svUsed V then 0 else 1) + 1) V (view s') \<and>
    reps (svPage (view s')) (opPageSize ops) nx (Some parent) nodes \<and>
    treesOk (opPageSize ops) lo hi seps nodes \<and> map rootId nodes = pid # js \<and>
    concat (map entries nodes) = concat (map entries ts) \<and>
    mset (concat (map pids nodes)) = mset (pid # js) + mset (concat (map pids ts)) \<and>
    firstLeaf (hd nodes) = firstLeaf (hd ts) \<and> pid \<in> svWritten (view s') \<and>
    (\<forall>h. (\<forall>t \<in> set ts. height t \<le> h) \<longrightarrow> (\<forall>t \<in> set nodes. height t \<le> Suc h)) \<and>
    (\<forall>h. (\<forall>t \<in> set ts. uniform t h) \<longrightarrow> (\<forall>t \<in> set nodes. uniform t (Suc h))) \<and>
    (internalSerializedSize ks \<le> opPageSize ops \<longrightarrow> js = [])"
proof (cases "internalSerializedSize ks \<le> opPageSize ops")
  case True
  have keys: "keysFit ks" "[] \<notin> set ks" "length ts = length ks + 1"
    using treesOk_keys [OF ts(4)] treesOk_length [OF ts(4)] by auto
  then have "ts \<noteq> []" by auto
  from writeInternal_ok [OF W [rule_format] ts(1-3) keys True, of parent] obtain s' where s':
    "writeInternal ops pid parent (map rootId ts) ks s = Inr s'" "ok s'"
    "changes (insert pid (set (map rootId ts))) (if pid \<in> svUsed V then 0 else 1) V (view s')"
    "rep (svPage (view s')) (opPageSize ops) nx (Some parent) (Node pid ks ts)" "pid \<in> svWritten (view s')" by blast
  have "spillInternal ops pid parent (map rootId ts) ks s = Inr (mkRefs [] [], s')"
    using True keys(3) s'(1) by (simp add: spillInternal_def)
  moreover have "treesOk (opPageSize ops) lo hi [] [Node pid ks ts]" using True ts(4) by simp
  moreover have "changes (set [pid] \<union> set (map rootId ts)) ((if pid \<in> svUsed V then 0 else 1) + 1) V (view s')"
    using changes_mono [OF s'(3)] by simp
  moreover have "\<forall>h. (\<forall>t \<in> set ts. height t \<le> h) \<longrightarrow> height (Node pid ks ts) \<le> Suc h" by auto
  ultimately show ?thesis
    using s'(2,4,5) firstLeaf_Node [OF \<open>ts \<noteq> []\<close>]
    by (intro exI [of _ "[]"] exI [of _ "[Node pid ks ts]"] exI [of _ s']) (simp del: uniform.simps)
next
  case False
  obtain groups seps where sp: "splitInternalGroups (map rootId ts) ks (opPageSize ops) = (groups, seps)"
    by fastforce
  have page_size: "validPs (opPageSize ops)"
    using W [rule_format, of "replicate (opPageSize ops) 0"] page_size by auto
  note g = splitInternal_groups [OF ts(4) page_size ts(5) sp]
  obtain g1 gs where gs: "groups = g1 # gs" using g(2) by (cases groups) auto
  let ?n = "length (grPtrs g1)"
  let ?us = "take ?n ts" and ?ws = "drop ?n ts"
  have c: "grPtrs g1 @ concat (map grPtrs gs) = map rootId ts" using g(4) by (simp add: gs)
  have "take ?n (map rootId ts) = grPtrs g1" "drop ?n (map rootId ts) = concat (map grPtrs gs)"
    by (simp_all flip: c)
  then have ptrs: "grPtrs g1 = map rootId ?us" "concat (map grPtrs gs) = map rootId ?ws"
    by (simp_all add: take_map drop_map)
  have "distinct (concat (map pids (?us @ ?ws)))" "set (concat (map pids (?us @ ?ws))) \<subseteq> svUsed V"
    "reps (svPage V) (opPageSize ops) nx par (?us @ ?ws)" "pid \<notin> set (concat (map pids (?us @ ?ws)))"
    using ts(1-3) by (simp_all only: append_take_drop_id distinct.simps simp_thms)
  then have dis: "distinct (concat (map pids ?us))" "distinct (concat (map pids ?ws))"
    "set (concat (map pids ?us)) \<inter> set (concat (map pids ?ws)) = {}"
    and new: "pid \<notin> set (concat (map pids ?us))" "pid \<notin> set (concat (map pids ?ws))"
    and sub: "set (concat (map pids ?us)) \<subseteq> svUsed V" "set (concat (map pids ?ws)) \<subseteq> svUsed V"
    and rp: "reps (svPage V) (opPageSize ops) (case ?ws of [] \<Rightarrow> nx | u # _ \<Rightarrow> firstLeaf u) par ?us"
      "reps (svPage V) (opPageSize ops) nx par ?ws"
    by (simp_all only: map_append concat_append distinct_append set_append Un_subset_iff reps_append Un_iff simp_thms de_Morgan_disj)
  let ?nx = "case ?ws of [] \<Rightarrow> nx | u # _ \<Rightarrow> firstLeaf u"
  have gs1: "list_all (groupKeysOk (opPageSize ops)) gs" and "groupKeysOk (opPageSize ops) g1"
    using g(1) by (simp_all add: gs)
  then have g1: "groupOk (opPageSize ops) g1" "keysFit (grKeys g1)" "[] \<notin> set (grKeys g1)"
    by (simp_all add: groupKeysOk_def)
  have lu: "length ?us = length (grKeys g1) + 1"
    using g1(1) ptrs(1) by (metis groupOk_def length_map)
  have du: "distinct (pid # concat (map pids ?us))" using dis(1) new(1) by simp
  from writeInternal_ok [OF W [rule_format] rp(1) du sub(1) g1(2,3) lu, of parent] g1(1) obtain s1 where w:
    "writeInternal ops pid parent (map rootId ?us) (grKeys g1) s = Inr s1" "ok s1"
    "changes (insert pid (set (map rootId ?us))) (if pid \<in> svUsed V then 0 else 1) V (view s1)"
    "rep (svPage (view s1)) (opPageSize ops) ?nx (Some parent) (Node pid (grKeys g1) ?us)" "pid \<in> svWritten (view s1)"
    by (auto simp only: groupOk_def)
  have used1: "svUsed (view s1) = svUsed V \<union> insert pid (set (map rootId ?us))" by (rule changes_used [OF w(3)])
  have "set (concat (map pids ?ws)) \<inter> insert pid (set (map rootId ?us)) = {}"
    using dis(3) rootIds_pids [of ?us] new(2) by blast
  then have r1: "reps (svPage (view s1)) (opPageSize ops) nx par ?ws"
    using changes_cong_rep(2) [OF w(3)] rp(2) by simp
  have sub1: "set (concat (map pids ?ws)) \<subseteq> svUsed (view s1)" using sub(2) used1 by blast
  have lgs: "length seps = length gs" "length gs \<le> 1" using g(2,3) by (simp_all add: gs)
  have room1: "length gs \<le> svRoom (view s1)" using room changes_room [OF w(3)] lgs by (auto split: if_splits)
  from spillGroups_ok [OF w(2) r1 dis(2) sub1 gs1 ptrs(2) lgs(1) room1, of parent] obtain js s2 where sg:
    "spillGroups ops parent gs seps s1 = Inr (mkRefs seps js, s2)" "ok s2" "length js = length gs" "distinct js"
    "set js \<inter> svUsed (view s1) = {}"
    "changes (set js \<union> set (map rootId ?ws)) (length gs) (view s1) (view s2)"
    "reps (svPage (view s2)) (opPageSize ops) nx (Some parent) (nodesOf js gs ?ws)" by blast
  let ?nodes = "nodesOf (pid # js) groups ts"
  have nodes: "?nodes = Node pid (grKeys g1) ?us # nodesOf js gs ?ws" by (simp add: gs)
  have pidsN: "set (pids (Node pid (grKeys g1) ?us)) = insert pid (set (concat (map pids ?us)))" by simp
  have "set (pids (Node pid (grKeys g1) ?us)) \<inter> (set js \<union> set (map rootId ?ws)) = {}"
    using sg(5) used1 sub dis(3) rootIds_pids [of ?ws] new unfolding pidsN by blast
  then have rN: "rep (svPage (view s2)) (opPageSize ops) ?nx (Some parent) (Node pid (grKeys g1) ?us)"
    using changes_cong_rep(1) [OF sg(6)] w(4) by blast
  have "?nx = (case nodesOf js gs ?ws of [] \<Rightarrow> nx | u # _ \<Rightarrow> firstLeaf u)"
  proof (cases gs)
    case Nil
    then show ?thesis using ptrs(2) by simp
  next
    case (Cons h hs)
    then have "groupOk (opPageSize ops) h" using gs1 by (simp add: groupKeysOk_def)
    moreover have "?ws \<noteq> []" using ptrs(2) Cons calculation by (auto simp: groupOk_def)
    ultimately show ?thesis
      using hd_nodesOf [of js gs "opPageSize ops" ?ws] sg(3) Cons by (simp add: next_case)
  qed
  with rN sg(7) have R: "reps (svPage (view s2)) (opPageSize ops) nx (Some parent) ?nodes"
    unfolding nodes by (simp only: reps.simps simp_thms)
  have "set (map rootId ts) = set (map rootId ?us) \<union> set (map rootId ?ws)"
    by (metis append_take_drop_id map_append set_append)
  then have "insert pid (set (map rootId ?us)) \<union> (set js \<union> set (map rootId ?ws)) = set (pid # js) \<union> set (map rootId ts)"
    by auto
  then have CH: "changes (set (pid # js) \<union> set (map rootId ts)) ((if pid \<in> svUsed V then 0 else 1) + 1) V (view s2)"
    using changes_mono [OF changes_trans [OF w(3) sg(6)]] lgs(2) by simp
  have SP: "spillInternal ops pid parent (map rootId ts) ks s = Inr (mkRefs seps js, s2)"
    using False treesOk_length [OF ts(4)] w(1) sg(1) sp by (simp add: spillInternal_def gs flip: ptrs(1))
  have ljs: "length (pid # js) = length groups" using sg(3) by (simp add: gs)
  have lts: "length (concat (map grPtrs groups)) = length ts" by (simp only: g(4) length_map)
  note flat = nodes_flat [OF ljs lts]
  have "?us \<noteq> []" using lu by auto
  then have fl: "firstLeaf (hd ?nodes) = firstLeaf (hd ts)"
    unfolding nodes using firstLeaf_Node [of ?us pid "grKeys g1"] by (cases ts) simp_all
  have "distinct (pid # js)" "set js \<inter> insert pid (svUsed V) = {}" using sg(4,5) used1 by auto
  moreover have "pid \<in> svWritten (view s2)" using changes_written [OF sg(6)] w(5) by blast
  ultimately show ?thesis
    using False SP sg(2) lgs sg(3) CH R g(5) [OF ljs] flat fl nodesOf_height nodesOf_uniform
    by (intro exI [of _ js] exI [of _ seps] exI [of _ ?nodes] exI [of _ s2]) simp
qed

end

subsection \<open>Inserting into a leaf\<close>

definition grown ::
  "nat \<Rightarrow> uint64 \<Rightarrow> uint64 option \<Rightarrow> bytes \<Rightarrow> bytes option \<Rightarrow> (bytes \<times> bytes) \<Rightarrow> btree \<Rightarrow> storeView \<Rightarrow>
   bytes list \<Rightarrow> btree list \<Rightarrow> storeView \<Rightarrow> bool" where
  "grown ps nx par lo hi kv t V seps us V' \<longleftrightarrow>
     treesOk ps lo hi seps us \<and> reps (svPage V') ps nx par us \<and> length seps \<le> 2 \<and>
     rootId (hd us) = rootId t \<and> firstLeaf (hd us) = firstLeaf t \<and> distinct (concat (map pids us)) \<and>
     set (pids t) \<subseteq> set (concat (map pids us)) \<and>
     (set (concat (map pids us)) - set (pids t)) \<inter> svUsed V = {} \<and>
     changes (set (concat (map pids us))) (2 + height t) V V' \<and>
     map_of (concat (map entries us)) = (map_of (entries t))(fst kv \<mapsto> snd kv) \<and>
     (\<forall>u \<in> set us. height u \<le> height t) \<and> (\<forall>h. uniform t h \<longrightarrow> (\<forall>u \<in> set us. uniform u h))"

definition entryBounded :: "nat \<Rightarrow> bytes \<Rightarrow> bytes \<Rightarrow> bool" where
  "entryBounded ps key val \<longleftrightarrow> length key \<le> maxKeyBytes \<and> length val \<le> inlineThreshold ps"

lemma entryBounded_fits: "entryBounded ps key val \<Longrightarrow> validPs ps \<Longrightarrow> btreeHeaderSize + entrySize key val \<le> ps"
  by (auto simp: entryBounded_def entrySize_def btreeHeaderSize_def maxKeyBytes_def inlineThreshold_def)

lemma insertSorted_sets:
  assumes "insertSorted keys vals key val = (ks, vs)" "length vals = length keys"
  shows "set ks \<subseteq> insert key (set keys)" "set vs \<subseteq> insert val (set vals)"
  using assms
  by (auto simp: insertSorted_def Let_def dest: in_set_takeD in_set_dropD set_update_subset_insert [THEN subsetD]
      split: if_splits)

lemma entriesFit_bounded:
  assumes "entriesBounded ps ks vs" "length vs = length ks" "validPs ps"
  shows "entriesFit ps ks vs"
proof -
  have "btreeHeaderSize + entrySize k v \<le> ps" if "k \<in> set ks" "v \<in> set vs" for k v
    using assms that by (intro entryBounded_fits) (auto simp: entriesBounded_def entryBounded_def)
  then show ?thesis
    using assms(2) by (auto simp: entriesFit_def list_all2_conv_all_nth)
qed

lemma leavesOf_pids: "length js = length splits \<Longrightarrow> concat (map pids (leavesOf js splits)) = js"
  by (induction js splits rule: list_induct2) simp_all

lemma leavesOf_root: "length js = length splits \<Longrightarrow> map rootId (leavesOf js splits) = js"
  by (induction js splits rule: list_induct2) simp_all

lemma leavesOf_height: "u \<in> set (leavesOf js splits) \<Longrightarrow> height u = 0"
  by (auto simp: leavesOf_def set_zip)

lemma leavesOf_uniform: "u \<in> set (leavesOf js splits) \<Longrightarrow> uniform u 0"
  by (auto simp: leavesOf_def set_zip)

lemma leavesOf_frame:
  assumes "changes {i} n V V'" "length js = length splits" "i \<notin> set js"
  shows "reps (svPage V') ps nx par (leavesOf js splits) = reps (svPage V) ps nx par (leavesOf js splits)"
proof (rule changes_cong_rep(2) [OF assms(1)])
  show "set (concat (map pids (leavesOf js splits))) \<inter> {i} = {}"
    unfolding leavesOf_pids [OF assms(2)] using assms(3) by simp
qed

lemma leavesOf_next:
  "length js = length splits \<Longrightarrow>
   (case leavesOf js splits of [] \<Rightarrow> nx | u # _ \<Rightarrow> firstLeaf u) = (case js of [] \<Rightarrow> nx | i # _ \<Rightarrow> i)"
  by (cases js; cases splits) simp_all

context page_store
begin

lemma writeSplits_ok:
  assumes "ok s" "\<forall>p \<in> set splits. entriesOk (opPageSize ops) (lsKeys p) (lsVals p)"
    and "length splits \<le> svRoom (view s)"
  shows "\<exists>js s'. writeSplits ops parent None nx splits s = Inr (js, s') \<and> ok s' \<and> length js = length splits \<and>
    distinct js \<and> set js \<inter> svUsed (view s) = {} \<and> changes (set js) (length splits) (view s) (view s') \<and>
    reps (svPage (view s')) (opPageSize ops) nx (Some parent) (leavesOf js splits)"
  using assms
proof (induction splits)
  case Nil
  then show ?case by (simp add: changes_refl)
next
  case (Cons p splits)
  then obtain js s1 where IH: "writeSplits ops parent None nx splits s = Inr (js, s1)" "ok s1"
    "length js = length splits" "distinct js" "set js \<inter> svUsed (view s) = {}"
    "changes (set js) (length splits) (view s) (view s1)"
    "reps (svPage (view s1)) (opPageSize ops) nx (Some parent) (leavesOf js splits)" by auto
  have "0 < svRoom (view s1)" using Cons.prems(3) changes_room [OF IH(6)] by simp
  from alloc_page [OF IH(2) this] obtain gpid s2 where al:
    "opAlloc ops s1 = Inr (gpid, s2)" "gpid \<notin> svUsed (view s1)"
    "\<And>page. length page = opPageSize ops \<Longrightarrow>
      \<exists>s'. opWrite ops gpid page s2 = Inr s' \<and> ok s' \<and> view s' = putPage gpid page (view s1)"
    by metis
  have "entriesOk (opPageSize ops) (lsKeys p) (lsVals p)" using Cons.prems(2) by simp
  from entriesOk_build [OF this page_size [OF IH(2)], of parent "case js of [] \<Rightarrow> nx | i # _ \<Rightarrow> i"] obtain page where page:
    "buildLeafPage (opPageSize ops) parent (case js of [] \<Rightarrow> nx | i # _ \<Rightarrow> i) (lsKeys p) (lsVals p) = Inr page"
    "length page = opPageSize ops"
    "parseLeafPage page = Inr \<lparr>leafNext = case js of [] \<Rightarrow> nx | i # _ \<Rightarrow> i, leafParent = parent,
       leafKeys = lsKeys p, leafVals = lsVals p\<rparr>" .
  from al(3) [OF page(2)] obtain s3 where s3: "opWrite ops gpid page s2 = Inr s3" "ok s3"
    "view s3 = putPage gpid page (view s1)" by blast
  have ch: "changes {gpid} 1 (view s1) (view s3)" using changes_put [of gpid "view s1"] al(2) s3(3) by simp
  have fresh: "gpid \<notin> set js" "gpid \<notin> svUsed (view s)" using al(2) changes_used [OF IH(6)] by auto
  have "reps (svPage (view s3)) (opPageSize ops) nx (Some parent) (leavesOf js splits)"
    using leavesOf_frame [OF ch IH(3) fresh(1)] IH(7) by simp
  moreover have "leafAt (svPage (view s3)) (opPageSize ops) (case js of [] \<Rightarrow> nx | i # _ \<Rightarrow> i) (Some parent) gpid (lsKeys p) (lsVals p)"
    using page(2,3) s3(3) by (simp add: leafAt_def putPage_def)
  moreover have "changes (set (gpid # js)) (length (p # splits)) (view s) (view s3)"
    using changes_trans [OF IH(6) ch] by simp
  moreover have "writeSplits ops parent None nx (p # splits) s = Inr (gpid # js, s3)"
    using IH(1) al(1) page(1) s3(1) by simp
  ultimately show ?case
    using s3(2) IH(3-5) fresh
    by (intro exI [of _ "gpid # js"] exI [of _ s3]) (simp add: leavesOf_next [OF IH(3)])
qed

lemma insertLeaf_ok:
  assumes "ok s" "leafAt (svPage (view s)) (opPageSize ops) nx par pid ks vs" "pid \<in> svUsed (view s)"
    and "treeOk (opPageSize ops) lo hi (Leaf pid ks vs)" "within lo hi key" "entryBounded (opPageSize ops) key val"
    and "2 \<le> svRoom (view s)" "svPage (view s) pid = Inr page"
  shows "\<exists>js seps us s'. insertIntoLeafCascade ops pid page key val s = Inr (mkRefs seps js, s') \<and> ok s' \<and>
    length seps = length js \<and> map rootId us = pid # js \<and>
    grown (opPageSize ops) nx par lo hi (key, val) (Leaf pid ks vs) (view s) seps us (view s')"
proof -
  note page_size = page_size [OF assms(1)]
  from assms(2,8) obtain parent where pg: "length page = opPageSize ops"
    "parseLeafPage page = Inr \<lparr>leafNext = nx, leafParent = parent, leafKeys = ks, leafVals = vs\<rparr>"
    "par = None \<or> par = Some parent" by (auto simp: leafAt_def)
  obtain nks nvs where ins: "insertSorted ks vs key val = (nks, nvs)" by fastforce
  have old: "length vs = length ks" "sorted_wrt (<) ks" "entriesBounded (opPageSize ops) ks vs"
    "leafSerializedSize ks vs \<le> opPageSize ops" "\<forall>k \<in> set ks. within lo hi k"
    using assms(4) by (simp_all add: entriesOk_bounded)
  from insertSorted_map [OF old(2,1) ins] have new: "sorted_wrt (<) nks" "length nvs = length nks"
    "map_of (zip nks nvs) = (map_of (zip ks vs))(key \<mapsto> val)" by auto
  have bound: "entriesBounded (opPageSize ops) nks nvs" "\<forall>k \<in> set nks. within lo hi k"
    using insertSorted_sets [OF ins old(1)] old(3,5) assms(5,6) by (auto simp: entriesBounded_def entryBounded_def)
  have weaken: "reps rd n nx par us" if "reps rd n nx (Some parent) us" for rd n us
    using that pg(3) reps_parent by auto
  show ?thesis
  proof (cases "leafSerializedSize nks nvs \<le> opPageSize ops")
    case True
    then have e: "entriesOk (opPageSize ops) nks nvs" using new bound by (simp add: entriesOk_bounded)
    from entriesOk_build [OF e page_size, of parent nx] obtain pg' where pg':
      "buildLeafPage (opPageSize ops) parent nx nks nvs = Inr pg'" "length pg' = opPageSize ops"
      "parseLeafPage pg' = Inr \<lparr>leafNext = nx, leafParent = parent, leafKeys = nks, leafVals = nvs\<rparr>" .
    from write_page [OF assms(1,3) pg'(2)] obtain s' where s': "opWrite ops pid pg' s = Inr s'" "ok s'"
      "view s' = putPage pid pg' (view s)" by blast
    let ?us = "[Leaf pid nks nvs]"
    have "reps (svPage (view s')) (opPageSize ops) nx (Some parent) ?us"
      using pg'(2,3) s'(3) by (simp add: leafAt_def putPage_def)
    then have "reps (svPage (view s')) (opPageSize ops) nx par ?us" by (rule weaken)
    moreover have "changes {pid} 2 (view s) (view s')"
      using changes_mono [OF changes_put [of pid "view s" pg']] s'(3) assms(3) by simp
    moreover have "insertIntoLeafCascade ops pid page key val s = Inr (mkRefs [] [], s')"
      using True ins pg(2) pg'(1) s'(1) by (simp add: insertIntoLeafCascade_def)
    ultimately show ?thesis
      using s'(2) e bound(2) new(3)
      by (intro exI [of _ "[]"] exI [of _ ?us] exI [of _ s']) (simp add: grown_def)
  next
    case False
    have fit: "entriesFit (opPageSize ops) nks nvs" by (rule entriesFit_bounded [OF bound(1) new(2) page_size])
    have two: "length nks \<noteq> 0" "length nks \<noteq> 1"
    proof -
      show "length nks \<noteq> 0" using False new(2) page_size by (auto simp: leafSerializedSize_def btreeHeaderSize_def)
      show "length nks \<noteq> 1"
      proof
        assume "length nks = 1"
        then obtain k v where "nks = [k]" "nvs = [v]" using new(2) by (auto simp: length_Suc_conv)
        then show False using False fit
          by (simp add: entriesFit_def leafSerializedSize_def entrySize_def)
      qed
    qed
    from splitRecursively_spec [of nks nvs "opPageSize ops" "[]"] fit new(2) two obtain splits where sp:
      "cascadingLeafSplit nks nvs (opPageSize ops) = Inr splits" "splitInto (opPageSize ops) nks nvs splits"
      by (auto simp: cascadingLeafSplit_def)
    have cc: "concat (map lsKeys splits) = nks" "concat (map lsVals splits) = nvs" "list_all (pageOk (opPageSize ops)) splits"
      using sp(2) by (simp_all add: splitInto_def)
    obtain p rest where rest: "splits = p # rest" using cc(1) two(1) by (cases splits) auto
    have three: "length rest \<le> 2"
      using leafSplit_three [OF old(2,1,4) ins entryBounded_fits [OF assms(6) page_size] sp(2)] rest by simp
    have pages: "entriesOk (opPageSize ops) (lsKeys q) (lsVals q)" if "q \<in> set splits" for q
    proof -
      have "\<exists>a b. splits = a @ q # b" by (rule split_list [OF that])
      then obtain a b where "splits = a @ q # b" by blast
      then show ?thesis
        using cc new(1) bound(1) by (auto simp: entriesOk_bounded entriesBounded_def pageOk_def sorted_wrt_append)
    qed
    have "length rest \<le> svRoom (view s)" using three assms(7) by simp
    from writeSplits_ok [OF assms(1) _ this, of parent nx] pages rest obtain js s1 where w:
      "writeSplits ops parent None nx rest s = Inr (js, s1)" "ok s1" "length js = length rest" "distinct js"
      "set js \<inter> svUsed (view s) = {}" "changes (set js) (length rest) (view s) (view s1)"
      "reps (svPage (view s1)) (opPageSize ops) nx (Some parent) (leavesOf js rest)" by auto
    from entriesOk_build [OF pages page_size, of p parent "case js of [] \<Rightarrow> nx | i # _ \<Rightarrow> i"] rest obtain pg' where pg':
      "buildLeafPage (opPageSize ops) parent (case js of [] \<Rightarrow> nx | i # _ \<Rightarrow> i) (lsKeys p) (lsVals p) = Inr pg'"
      "length pg' = opPageSize ops"
      "parseLeafPage pg' = Inr \<lparr>leafNext = case js of [] \<Rightarrow> nx | i # _ \<Rightarrow> i, leafParent = parent,
         leafKeys = lsKeys p, leafVals = lsVals p\<rparr>" by auto
    have used1: "pid \<in> svUsed (view s1)" using assms(3) changes_used [OF w(6)] by simp
    from write_page [OF w(2) used1 pg'(2)] obtain s2 where s2: "opWrite ops pid pg' s1 = Inr s2" "ok s2"
      "view s2 = putPage pid pg' (view s1)" by blast
    have ch: "changes {pid} 0 (view s1) (view s2)" using changes_put [of pid "view s1"] used1 s2(3) by simp
    let ?us = "leavesOf (pid # js) splits"
    have ljs: "length (pid # js) = length splits" using w(3) rest by simp
    have new_pid: "pid \<notin> set js" using w(5) assms(3) by auto
    have "reps (svPage (view s2)) (opPageSize ops) nx (Some parent) (leavesOf js rest)"
      using leavesOf_frame [OF ch w(3) new_pid] w(7) by simp
    moreover have "leafAt (svPage (view s2)) (opPageSize ops) (case js of [] \<Rightarrow> nx | i # _ \<Rightarrow> i) (Some parent) pid (lsKeys p) (lsVals p)"
      using pg'(2,3) s2(3) by (simp add: leafAt_def putPage_def)
    ultimately have R: "reps (svPage (view s2)) (opPageSize ops) nx (Some parent) ?us"
      by (simp add: rest leavesOf_next [OF w(3)])
    have T: "treesOk (opPageSize ops) lo hi (map lsSep (tl splits)) ?us"
      by (rule leaves_ok [OF cc(3) _ ljs]) (use rest cc new(1) bound in auto)
    have ent: "concat (map entries ?us) = zip nks nvs" using leaves_entries [OF ljs cc(3)] cc by simp
    have CH: "changes (set (pid # js)) 2 (view s) (view s2)"
      using changes_mono [OF changes_trans [OF w(6) ch]] three by simp
    have I: "insertIntoLeafCascade ops pid page key val s = Inr (mkRefs (map lsSep (tl splits)) js, s2)"
    proof -
      have "map2 (\<lambda>sp newID. \<lparr>sepKey = lsSep sp, crPageID = newID\<rparr>) rest js = mkRefs (map lsSep rest) js"
        using w(3)[symmetric] by (induction rest js rule: list_induct2) simp_all
      then show ?thesis
        using False ins pg(2) sp(1) w(1) pg'(1) s2(1) by (simp add: insertIntoLeafCascade_def rest)
    qed
    have "hd ?us = Leaf pid (lsKeys p) (lsVals p)" by (simp add: rest)
    moreover have "concat (map pids ?us) = pid # js" "map rootId ?us = pid # js"
      by (rule leavesOf_pids [OF ljs], rule leavesOf_root [OF ljs])
    moreover have "length (map lsSep (tl splits)) = length js" using w(3) rest by simp
    ultimately show ?thesis
      using I s2(2) T weaken [OF R] CH ent new(3) new_pid w(3,4,5) three leavesOf_height [of _ "pid # js" splits]
        leavesOf_uniform [of _ "pid # js" splits]
      by (intro exI [of _ js] exI [of _ "map lsSep (tl splits)"] exI [of _ ?us] exI [of _ s2]) (auto simp: grown_def)
  qed
qed

end

subsection \<open>Inserting into the tree\<close>

lemma treesOk_sorted: "treesOk ps lo hi ks ts \<Longrightarrow> sorted_wrt (<) ks \<and> (\<forall>k \<in> set ks. lo < k)"
proof (induction ks arbitrary: lo ts)
  case (Cons k ks)
  then obtain t ts' where "ts = t # ts'" by (cases ts) auto
  with Cons show ?case by (fastforce intro: less_trans)
qed simp

lemma changes_widen:
  "changes P n V V' \<Longrightarrow> P \<subseteq> Q \<Longrightarrow> Q \<subseteq> svUsed V \<union> P \<Longrightarrow> changes Q n V V'"
  by (auto simp: changes_def)

lemma internalSerializedSize_more:
  assumes "internalSerializedSize (ks1 @ ks2) \<le> ps" "length seps \<le> 2" "keysFit seps"
  shows "internalSerializedSize (ks1 @ seps @ ks2) \<le> ps + 600"
proof -
  have "(\<Sum>k\<leftarrow>seps. 2 + length k + 8) \<le> (\<Sum>k\<leftarrow>seps. 266)"
    using assms(3) by (intro sum_list_mono) (auto simp: keysFit_def maxKeyBytes_def)
  also have "\<dots> \<le> 532" using assms(2) by (simp add: sum_list_triv)
  finally show ?thesis using assms(1) by (simp add: internalSerializedSize_def)
qed

lemma map_of_middle:
  "key \<notin> fst ` set xs \<Longrightarrow> map_of e' = (map_of e)(key \<mapsto> val) \<Longrightarrow>
   map_of (xs @ e' @ ys) = (map_of (xs @ e @ ys))(key \<mapsto> val)"
  by (simp add: map_add_upd_left dom_map_of_conv_image_fst)

lemma height_child: "t \<in> set ts \<Longrightarrow> height t < height (Node pid ks ts)"
  by (simp add: less_Suc_eq_le)

lemma height_Node_le: "(\<forall>t \<in> set ts. height t \<le> h) \<Longrightarrow> height (Node pid ks ts) \<le> Suc h"
  by auto

lemma hd_middle: "firstLeaf (hd us) = firstLeaf t \<Longrightarrow> us \<noteq> [] \<Longrightarrow>
   firstLeaf (hd (ts1 @ us @ ts2)) = firstLeaf (hd (ts1 @ t # ts2))"
  by (cases ts1) simp_all

context page_store
begin

lemma reps_middle:
  assumes "reps (svPage V) ps nx par (ts1 @ t # ts2)" "distinct (concat (map pids (ts1 @ t # ts2)))"
    and "set (concat (map pids (ts1 @ t # ts2))) \<subseteq> svUsed V"
    and "grown ps (case ts2 of [] \<Rightarrow> nx | u # _ \<Rightarrow> firstLeaf u) par lo hi kv t V seps us V'" "us \<noteq> []"
  shows "reps (svPage V') ps nx par (ts1 @ us @ ts2)" "distinct (concat (map pids (ts1 @ us @ ts2)))"
    "set (concat (map pids (ts1 @ us @ ts2))) \<subseteq> svUsed V'"
proof -
  let ?P = "set (concat (map pids us))"
  have g: "reps (svPage V') ps (case ts2 of [] \<Rightarrow> nx | u # _ \<Rightarrow> firstLeaf u) par us"
    "firstLeaf (hd us) = firstLeaf t" "distinct (concat (map pids us))" "(?P - set (pids t)) \<inter> svUsed V = {}"
    "changes ?P (2 + height t) V V'"
    using assms(4) by (simp_all add: grown_def)
  have d: "distinct (concat (map pids ts1))" "distinct (concat (map pids ts2))"
    "set (concat (map pids ts1)) \<inter> set (pids t) = {}" "set (concat (map pids ts2)) \<inter> set (pids t) = {}"
    "set (concat (map pids ts1)) \<inter> set (concat (map pids ts2)) = {}"
    using assms(2) by auto
  have u: "set (concat (map pids ts1)) \<subseteq> svUsed V" "set (concat (map pids ts2)) \<subseteq> svUsed V" using assms(3) by auto
  have dis: "set (concat (map pids ts1)) \<inter> ?P = {}" "set (concat (map pids ts2)) \<inter> ?P = {}"
    using d(3,4) u g(4) by blast+
  have r: "reps (svPage V) ps (firstLeaf t) par ts1" "reps (svPage V) ps nx par ts2"
    using assms(1) by (simp_all add: reps_append)
  have r': "reps (svPage V') ps (firstLeaf t) par ts1" "reps (svPage V') ps nx par ts2"
    using changes_cong_rep(2) [OF g(5) dis(1)] changes_cong_rep(2) [OF g(5) dis(2)] r by simp_all
  have "reps (svPage V') ps nx par (us @ ts2)" using g(1) r'(2) by (simp only: reps_append simp_thms)
  moreover have "(case us @ ts2 of [] \<Rightarrow> nx | u # _ \<Rightarrow> firstLeaf u) = firstLeaf t"
    using g(2) assms(5) by (cases us) simp_all
  ultimately show "reps (svPage V') ps nx par (ts1 @ us @ ts2)"
    using r'(1) by (subst reps_append) simp
  show "distinct (concat (map pids (ts1 @ us @ ts2)))"
    using d(1,2,5) g(3) dis by (simp only: map_append concat_append distinct_append set_append) blast
  show "set (concat (map pids (ts1 @ us @ ts2))) \<subseteq> svUsed V'"
    using u changes_used [OF g(5)] by (simp only: map_append concat_append set_append) blast
qed

lemma insertAt_ok:
  assumes "ok s" "rep (svPage (view s)) (opPageSize ops) nx par t" "treeOk (opPageSize ops) lo hi t"
    and "within lo hi key" "entryBounded (opPageSize ops) key val"
    and "set (pids t) \<subseteq> svUsed (view s)" "distinct (pids t)" "height t < fuel"
    and "2 + height t \<le> svRoom (view s)"
  shows "\<exists>js seps us s'. insertAt ops fuel (rootId t) key val s = Inr (mkRefs seps js, s') \<and> ok s' \<and>
    length seps = length js \<and> map rootId us = rootId t # js \<and>
    grown (opPageSize ops) nx par lo hi (key, val) t (view s) seps us (view s')"
  using assms
proof (induction fuel arbitrary: s nx par t lo hi)
  case (Suc fuel)
  show ?case
  proof (cases t)
    case (Leaf pid ks vs)
    then have l: "leafAt (svPage (view s)) (opPageSize ops) nx par pid ks vs" using Suc.prems(2) by simp
    then obtain page parent where page: "svPage (view s) pid = Inr page"
      "parseLeafPage page = Inr \<lparr>leafNext = nx, leafParent = parent, leafKeys = ks, leafVals = vs\<rparr>"
      by (auto simp: leafAt_def)
    have "insertAt ops (Suc fuel) pid key val s = insertIntoLeafCascade ops pid page key val s"
      using page(1) parseLeafPage_kind [OF page(2)] Suc.prems(6) by (simp add: read_page [OF Suc.prems(1)] Leaf)
    with insertLeaf_ok [OF Suc.prems(1) l _ _ Suc.prems(4,5) _ page(1)] Suc.prems(3,6,9) show ?thesis
      unfolding Leaf by simp
  next
    case (Node pid ks ts)
    then have n: "nodeAt (svPage (view s)) (opPageSize ops) par pid ks (map rootId ts)"
      "reps (svPage (view s)) (opPageSize ops) nx (Some pid) ts" using Suc.prems(2) by simp_all
    from n(1) obtain page parent where page: "svPage (view s) pid = Inr page"
      "parseInternalPage page = Inr \<lparr>inParent = parent, inPtrs = map rootId ts, inKeys = ks\<rparr>"
      "par = None \<or> par = Some parent"
      by (auto simp: nodeAt_def)
    have tk: "internalSerializedSize ks \<le> opPageSize ops" "treesOk (opPageSize ops) lo hi ks ts"
      using Suc.prems(3) Node by simp_all
    obtain ks1 ks2 ts1 u ts2 lo' hi' where sp: "ks = ks1 @ ks2" "ts = ts1 @ u # ts2" "length ts1 = length ks1"
      "\<forall>k \<in> set ks1. k \<le> key" "\<forall>k \<in> set ks2. key < k" "treeOk (opPageSize ops) lo' hi' u" "within lo' hi' key"
      "\<And>seps us. treesOk (opPageSize ops) lo' hi' seps us \<Longrightarrow>
         treesOk (opPageSize ops) lo hi (ks1 @ seps @ ks2) (ts1 @ us @ ts2)"
      "key \<notin> fst ` set (concat (map entries ts1))" "key \<notin> fst ` set (concat (map entries ts2))"
      using treesOk_splice [OF tk(2) Suc.prems(4)] by metis
    have pick: "internalPickChild ks key = length ks1"
    proof -
      have "sorted ks" using treesOk_sorted [OF tk(2)] by (simp add: strict_sorted_iff)
      moreover have "takeWhile (\<lambda>k. k \<le> key) ks = ks1"
        using sp(4,5) unfolding sp(1) by (subst takeWhile_append2) (auto simp: takeWhile_eq_Nil_iff neq_Nil_conv dest: leD)
      ultimately show ?thesis by (simp add: internalPickChild_takeWhile)
    qed
    let ?nx = "case ts2 of [] \<Rightarrow> nx | w # _ \<Rightarrow> firstLeaf w"
    have all: "distinct (pid # concat (map pids (ts1 @ u # ts2)))"
      "set (concat (map pids (ts1 @ u # ts2))) \<subseteq> svUsed (view s)" "pid \<in> svUsed (view s)"
      using Suc.prems(6,7) Node sp(2) by auto
    have hu: "height u < height t" using height_child [of u ts pid ks] Node sp(2) by simp
    have ru: "rep (svPage (view s)) (opPageSize ops) ?nx (Some pid) u"
      using n(2) by (simp add: sp(2) reps_append)
    have "set (pids u) \<subseteq> svUsed (view s)" "distinct (pids u)" "height u < fuel" "2 + height u \<le> svRoom (view s)"
      using all Suc.prems(8,9) hu by auto
    from Suc.IH [OF Suc.prems(1) ru sp(6,7) Suc.prems(5) this] obtain js seps us s1 where IH:
      "insertAt ops fuel (rootId u) key val s = Inr (mkRefs seps js, s1)" "ok s1" "length seps = length js"
      "map rootId us = rootId u # js"
      "grown (opPageSize ops) ?nx (Some pid) lo' hi' (key, val) u (view s) seps us (view s1)"
      by (elim exE conjE) (rule that)
    have us: "us \<noteq> []" using IH(4) by auto
    let ?mid = "ts1 @ us @ ts2" and ?P = "set (concat (map pids us))"
    have g: "treesOk (opPageSize ops) lo' hi' seps us" "length seps \<le> 2" "(?P - set (pids u)) \<inter> svUsed (view s) = {}"
      "changes ?P (2 + height u) (view s) (view s1)" "set (pids u) \<subseteq> ?P" "firstLeaf (hd us) = firstLeaf u"
      "map_of (concat (map entries us)) = (map_of (entries u))(key \<mapsto> val)" "\<forall>w \<in> set us. height w \<le> height u"
      "\<And>h. uniform u h \<Longrightarrow> \<forall>w \<in> set us. uniform w h"
      using IH(5) by (simp_all add: grown_def)
    have umid: "\<forall>w \<in> set ?mid. uniform w h" if "uniform t (Suc h)" for h
      using that g(9) [of h] by (auto simp: Node sp(2) simp del: uniform.simps)
    have uts: "\<exists>h'. h = Suc h'" if "uniform t h" for h using that by (auto simp: Node)
    have "distinct (concat (map pids (ts1 @ u # ts2)))" using all(1) by simp
    note mid = reps_middle [OF n(2) [unfolded sp(2)] this all(2) IH(5) us]
    have notP: "pid \<notin> ?P" using g(3) all(1,3) by auto
    then have notmid: "pid \<notin> set (concat (map pids ?mid))" using all(1) by auto
    have tmid: "treesOk (opPageSize ops) lo hi (ks1 @ seps @ ks2) ?mid" by (rule sp(8) [OF g(1)])
    have ptrs: "map rootId ts ! length ks1 = rootId u" unfolding sp(2) sp(3) [symmetric] by (simp add: nth_append)
    have emid: "map_of (concat (map entries ?mid)) = (map_of (concat (map entries ts)))(key \<mapsto> val)"
      using map_of_middle [OF sp(9) g(7), of "concat (map entries ts2)"] by (simp add: sp(2))
    have page1: "svPage (view s1) pid = Inr page" using changes_page [OF g(4) notP] page(1) by simp
    have step: "insertAt ops (Suc fuel) pid key val s =
        (if js = [] then Inr ([], s1)
         else spillInternal ops pid parent (map rootId ?mid) (ks1 @ seps @ ks2) s1)"
    proof -
      have "map crPageID (mkRefs seps js) = js" "map sepKey (mkRefs seps js) = seps" "mkRefs seps js = [] \<longleftrightarrow> js = []"
        using IH(3) by (simp_all add: mkRefs_fields)
      moreover have "take (length ks1 + 1) (map rootId ts) @ js @ drop (length ks1 + 1) (map rootId ts) = map rootId ?mid"
        using IH(4) by (simp add: sp(2) sp(3)[symmetric])
      moreover have "take (length ks1) ks = ks1" "drop (length ks1) ks = ks2" by (simp_all add: sp(1))
      ultimately show ?thesis
        using page(1) parseInternalPage_kind [OF page(2)] page(2) IH(1) ptrs Suc.prems(6)
        by (simp add: read_page [OF Suc.prems(1)] pick Let_def Node)
    qed
    have hmid: "\<forall>w \<in> set ?mid. height w \<le> height t - 1"
    proof -
      have "height w \<le> height t - 1" if "w \<in> set ts" for w using height_child [OF that, of pid ks] Node by simp
      then show ?thesis using g(8) hu sp(2) by fastforce
    qed
    have fmid: "firstLeaf (hd ?mid) = firstLeaf t"
      using hd_middle [OF g(6) us, of ts1 ts2] firstLeaf_Node [of ts pid ks] Node sp(2) by simp
    have pmid: "set (pids t) \<subseteq> insert pid (set (concat (map pids ?mid)))" using Node sp(2) g(5) by auto
    have newmid: "(insert pid (set (concat (map pids ?mid))) - set (pids t)) \<inter> svUsed (view s) = {}"
      using g(3) Node sp(2) by auto
    have usedmid: "insert pid (set (concat (map pids ?mid))) \<subseteq> svUsed (view s) \<union> ?P" using all by auto
    show ?thesis
    proof (cases "js = []")
      case True
      then obtain w where w: "us = [w]" "rootId w = rootId u" using IH(4) by (cases us) auto
      have seps: "seps = []" using True IH(3) by simp
      let ?t = "Node pid ks ?mid"
      have "nodeAt (svPage (view s1)) (opPageSize ops) par pid ks (map rootId ?mid)"
        using n(1) page1 page(1) w by (simp add: nodeAt_def sp(2))
      then have R: "reps (svPage (view s1)) (opPageSize ops) nx par [?t]" using mid(1) by simp
      have T: "treesOk (opPageSize ops) lo hi [] [?t]" using tk(1) tmid seps sp(1) by simp
      have D: "distinct (concat (map pids [?t]))" using mid(2) notmid by simp
      have CH: "changes (set (concat (map pids [?t]))) (2 + height t) (view s) (view s1)"
      proof (rule changes_widen [OF changes_mono [OF g(4)]])
        show "?P \<subseteq> set (concat (map pids [?t]))" by auto
        show "set (concat (map pids [?t])) \<subseteq> svUsed (view s) \<union> ?P" using usedmid by simp
      qed (use hu in simp)
      have F: "firstLeaf ?t = firstLeaf t" using fmid us by (subst firstLeaf_Node) simp_all
      have H: "height ?t \<le> height t" using height_Node_le [OF hmid, of pid ks] hu by simp
      have U: "\<forall>h. uniform t h \<longrightarrow> (\<forall>u \<in> set [?t]. uniform u h)"
      proof (intro allI impI)
        fix h assume "uniform t h"
        then show "\<forall>u \<in> set [?t]. uniform u h" using uts [of h] umid by (auto simp del: uniform.simps)
      qed
      have "grown (opPageSize ops) nx par lo hi (key, val) t (view s) [] [?t] (view s1)"
        unfolding grown_def using R T D CH F H U pmid newmid emid Node by (simp del: uniform.simps)
      then show ?thesis
        using step True IH(2) Node
        by (intro exI [of _ "[]"] exI [of _ "[]"] exI [of _ "[?t]"] exI [of _ s1]) simp
    next
      case False
      have kseps: "keysFit seps" using treesOk_keys [OF g(1)] by simp
      have size: "internalSerializedSize (ks1 @ seps @ ks2) \<le> opPageSize ops + 600"
        by (rule internalSerializedSize_more [OF _ g(2) kseps]) (use tk(1) sp(1) in simp)
      have used1: "pid \<in> svUsed (view s1)" using all(3) changes_used [OF g(4)] by simp
      have room1: "(if pid \<in> svUsed (view s1) then 0 else 1) + 1 \<le> svRoom (view s1)"
        using used1 changes_room [OF g(4)] hu Suc.prems(9) by simp
      have dmid: "distinct (pid # concat (map pids ?mid))" using mid(2) notmid by simp
      have W: "\<forall>page. length page = opPageSize ops \<longrightarrow>
          (\<exists>s'. opWrite ops pid page s1 = Inr s' \<and> ok s' \<and> view s' = putPage pid page (view s1))"
        using write_page [OF IH(2) used1] by blast
      from spillInternal_ok [OF W mid(1) dmid mid(3) tmid size room1, of parent]
      obtain js' seps' nodes s2 where S: "spillInternal ops pid parent (map rootId ?mid) (ks1 @ seps @ ks2) s1 = Inr (mkRefs seps' js', s2)"
        "ok s2" "length seps' = length js'" "length js' \<le> 1" "distinct (pid # js')"
        "set js' \<inter> insert pid (svUsed (view s1)) = {}"
        "changes (set (pid # js') \<union> set (map rootId ?mid)) ((if pid \<in> svUsed (view s1) then 0 else 1) + 1) (view s1) (view s2)"
        "reps (svPage (view s2)) (opPageSize ops) nx (Some parent) nodes"
        "treesOk (opPageSize ops) lo hi seps' nodes" "map rootId nodes = pid # js'"
        "concat (map entries nodes) = concat (map entries ?mid)"
        "mset (concat (map pids nodes)) = mset (pid # js') + mset (concat (map pids ?mid))"
        "firstLeaf (hd nodes) = firstLeaf (hd ?mid)"
        "\<forall>h. (\<forall>t \<in> set ?mid. height t \<le> h) \<longrightarrow> (\<forall>t \<in> set nodes. height t \<le> Suc h)"
        "\<forall>h. (\<forall>t \<in> set ?mid. uniform t h) \<longrightarrow> (\<forall>t \<in> set nodes. uniform t (Suc h))"
        by (elim exE conjE) (rule that)
      let ?Q = "set (concat (map pids nodes))"
      have Q: "?Q = insert pid (set js' \<union> set (concat (map pids ?mid)))"
        using arg_cong [OF S(12), of set_mset] by (simp only: set_mset_mset set_mset_union) auto
      have R: "reps (svPage (view s2)) (opPageSize ops) nx par nodes" using S(8) page(3) reps_parent by auto
      have D: "distinct (concat (map pids nodes))"
      proof -
        have "distinct ((pid # js') @ concat (map pids ?mid))"
          using S(5,6) dmid mid(3) by auto
        then show ?thesis using S(12) by (metis mset_append mset_eq_imp_distinct_iff)
      qed
      have used2: "svUsed (view s1) = svUsed (view s) \<union> ?P" by (rule changes_used [OF g(4)])
      have js': "set js' \<inter> svUsed (view s) = {}" using S(6) used2 by blast
      have CH: "changes ?Q (2 + height t) (view s) (view s2)"
      proof (rule changes_widen)
        show "changes (?P \<union> (set (pid # js') \<union> set (map rootId ?mid))) (2 + height t) (view s) (view s2)"
          using changes_mono [OF changes_trans [OF g(4) S(7)], of "2 + height t"] hu used1 by simp
        show "?P \<union> (set (pid # js') \<union> set (map rootId ?mid)) \<subseteq> ?Q"
          unfolding Q using rootIds_pids [of ?mid] by auto
        show "?Q \<subseteq> svUsed (view s) \<union> (?P \<union> (set (pid # js') \<union> set (map rootId ?mid)))"
          unfolding Q using usedmid by auto
      qed
      have new: "(?Q - set (pids t)) \<inter> svUsed (view s) = {}" unfolding Q using newmid js' by blast
      have old: "set (pids t) \<subseteq> ?Q" unfolding Q using pmid by blast
      have H: "\<forall>w \<in> set nodes. height w \<le> height t" using S(14) hmid hu by (metis Suc_pred' less_nat_zero_code neq0_conv)
      have hdn: "rootId (hd nodes) = pid" using S(10) by (cases nodes) auto
      have U: "\<forall>h. uniform t h \<longrightarrow> (\<forall>u \<in> set nodes. uniform u h)"
      proof (intro allI impI)
        fix h assume "uniform t h"
        then show "\<forall>u \<in> set nodes. uniform u h" using uts [of h] umid S(15) by blast
      qed
      have "grown (opPageSize ops) nx par lo hi (key, val) t (view s) seps' nodes (view s2)"
        unfolding grown_def using R S(3,4,9,11,13) D CH new old H U hdn emid fmid Node by (simp del: uniform.simps)
      then show ?thesis
        using step False S(1-3,10) Node
        by (intro exI [of _ js'] exI [of _ seps'] exI [of _ nodes] exI [of _ s2]) simp
    qed
  qed
qed simp

end

subsection \<open>The tree of the store\<close>

text \<open>The tree the root names, and the empty tree.\<close>

definition treeIn :: "nat \<Rightarrow> storeView \<Rightarrow> btree \<Rightarrow> bool" where
  "treeIn ps V t \<longleftrightarrow> svRoot V = rootId t \<and> rep (svPage V) ps 0 None t \<and> treeOk ps [] None t \<and>
     distinct (pids t) \<and> set (pids t) \<subseteq> svUsed V \<and> (\<exists>h. uniform t h)"

definition optTree :: "nat \<Rightarrow> storeView \<Rightarrow> btree option \<Rightarrow> bool" where
  "optTree ps V ot = (case ot of None \<Rightarrow> svRoot V = 0 | Some t \<Rightarrow> svRoot V \<noteq> 0 \<and> treeIn ps V t)"

definition optPids :: "btree option \<Rightarrow> uint64 set" where
  "optPids ot = (case ot of None \<Rightarrow> {} | Some t \<Rightarrow> set (pids t))"

definition optEntries :: "btree option \<Rightarrow> (bytes \<times> bytes) list" where
  "optEntries ot = (case ot of None \<Rightarrow> [] | Some t \<Rightarrow> entries t)"

definition optHeight :: "btree option \<Rightarrow> nat" where
  "optHeight ot = (case ot of None \<Rightarrow> 0 | Some t \<Rightarrow> height t)"

definition putResult ::
  "nat \<Rightarrow> (bytes \<times> bytes) \<Rightarrow> btree option \<Rightarrow> storeView \<Rightarrow> btree \<Rightarrow> storeView \<Rightarrow> bool" where
  "putResult ps kv ot V t V' \<longleftrightarrow> treeIn ps V' t \<and> svRoot V' \<noteq> 0 \<and>
     map_of (entries t) = (map_of (optEntries ot))(fst kv \<mapsto> snd kv) \<and>
     height t \<le> optHeight ot + 1 \<and> optPids ot \<subseteq> set (pids t) \<and> (set (pids t) - optPids ot) \<inter> svUsed V = {} \<and>
     (\<forall>p. p \<notin> set (pids t) \<longrightarrow> svPage V' p = svPage V p) \<and> svUsed V' = svUsed V \<union> set (pids t) \<and>
     svRoom V \<le> svRoom V' + optHeight ot + 4"

lemma within_all [simp]: "within [] None k"
  by (simp add: within_def)

lemma keysFit_small:
  assumes "keysFit seps" "length seps \<le> 2" "validPs ps"
  shows "internalSerializedSize seps \<le> ps"
proof -
  have "(\<Sum>k\<leftarrow>seps. 2 + length k + 8) \<le> (\<Sum>k\<leftarrow>seps. 266)"
    using assms(1) by (intro sum_list_mono) (auto simp: keysFit_def maxKeyBytes_def)
  also have "\<dots> \<le> 532" using assms(2) by (simp add: sum_list_triv)
  finally show ?thesis using assms(3) by (auto simp: internalSerializedSize_def btreeHeaderSize_def)
qed

context page_store
begin

lemma putFirst_ok:
  assumes "ok s" "svRoot (view s) = 0" "entryBounded (opPageSize ops) key val" "4 \<le> svRoom (view s)"
  shows "\<exists>s' t. putFirst ops key val s = Inr s' \<and> ok s' \<and>
    putResult (opPageSize ops) (key, val) None (view s) t (view s')"
proof -
  note page_size = page_size [OF assms(1)]
  have e: "entriesOk (opPageSize ops) [key] [val]"
    using entryBounded_fits [OF assms(3) page_size] assms(3)
    by (simp add: entriesOk_def entryBounded_def leafSerializedSize_def entrySize_def)
  from entriesOk_build [OF e page_size, of 0 0] obtain page where page:
    "buildLeafPage (opPageSize ops) 0 0 [key] [val] = Inr page" "length page = opPageSize ops"
    "parseLeafPage page = Inr \<lparr>leafNext = 0, leafParent = 0, leafKeys = [key], leafVals = [val]\<rparr>" .
  have "0 < svRoom (view s)" using assms(4) by simp
  from alloc_page [OF assms(1) this] page(2) obtain pid s1 s2 where al:
    "opAlloc ops s = Inr (pid, s1)" "pid \<noteq> 0" "pid \<notin> svUsed (view s)"
    "opWrite ops pid page s1 = Inr s2" "ok s2" "view s2 = putPage pid page (view s)" by blast
  from set_root [OF al(5), of pid] al(6) obtain s3 where s3: "opSetRoot ops pid s2 = Inr s3" "ok s3"
    "view s3 = (view s2)\<lparr>svRoot := pid\<rparr>" by (auto simp: putPage_def)
  let ?t = "Leaf pid [key] [val]"
  have V: "svPage (view s3) = (svPage (view s))(pid := Inr page)" "svRoot (view s3) = pid"
    "svUsed (view s3) = insert pid (svUsed (view s))" "svRoom (view s) \<le> svRoom (view s3) + 1"
    using s3(3) al(6) by (auto simp: putPage_def)
  have "treeIn (opPageSize ops) (view s3) ?t"
    using page(2,3) e by (simp add: treeIn_def V leafAt_def)
  then have "putResult (opPageSize ops) (key, val) None (view s) ?t (view s3)"
    using al(2,3) V(4) by (simp add: putResult_def optEntries_def optPids_def optHeight_def V(1-3))
  then show ?thesis using page(1) al(1,4) s3 by (auto simp: putFirst_def)
qed

lemma growRoot_ok:
  assumes "ok s" "map rootId us = oldRoot # js" "length seps = length js" "js \<noteq> []" "length seps \<le> 2"
    and "reps (svPage (view s)) (opPageSize ops) 0 None us" "treesOk (opPageSize ops) [] None seps us"
    and "distinct (concat (map pids us))" "set (concat (map pids us)) \<subseteq> svUsed (view s)"
    and "2 \<le> svRoom (view s)" "\<exists>h. \<forall>u \<in> set us. uniform u h"
  shows "\<exists>s' t pid. growRoot ops (Suc f) oldRoot (mkRefs seps js) s = Inr s' \<and> ok s' \<and>
    treeIn (opPageSize ops) (view s') t \<and> rootId t \<noteq> 0 \<and> entries t = concat (map entries us) \<and>
    set (pids t) = insert pid (set (concat (map pids us))) \<and> pid \<notin> svUsed (view s) \<and>
    (\<forall>p. p \<notin> set (pids t) \<longrightarrow> svPage (view s') p = svPage (view s) p) \<and>
    svUsed (view s') = insert pid (svUsed (view s)) \<and> svRoom (view s) \<le> svRoom (view s') + 2 \<and>
    (\<forall>h. (\<forall>u \<in> set us. height u \<le> h) \<longrightarrow> height t \<le> Suc h)"
proof -
  note page_size = page_size [OF assms(1)]
  let ?P = "set (concat (map pids us))"
  have refs: "map crPageID (mkRefs seps js) = js" "map sepKey (mkRefs seps js) = seps"
    using assms(3) by (simp_all add: mkRefs_fields)
  have "0 < svRoom (view s)" using assms(10) by simp
  from alloc_page [OF assms(1) this] obtain pid s2 where al: "opAlloc ops s = Inr (pid, s2)" "pid \<noteq> 0" "pid \<notin> svUsed (view s)"
    "\<forall>page. length page = opPageSize ops \<longrightarrow>
      (\<exists>s'. opWrite ops pid page s2 = Inr s' \<and> ok s' \<and> view s' = putPage pid page (view s))" by blast
  have d: "distinct (pid # concat (map pids us))" using al(3) assms(8,9) by auto
  have size: "internalSerializedSize seps \<le> opPageSize ops"
    using keysFit_small [OF _ assms(5) page_size] treesOk_keys [OF assms(7)] by blast
  then have size': "internalSerializedSize seps \<le> opPageSize ops + 600" by simp
  have room: "(if pid \<in> svUsed (view s) then 0 else 1) + 1 \<le> svRoom (view s)" using assms(10) by simp
  from spillInternal_ok [OF al(4) assms(6) d assms(9,7) size' room, of 0] obtain js' seps' nodes s3 where S:
    "spillInternal ops pid 0 (map rootId us) seps s2 = Inr (mkRefs seps' js', s3)" "ok s3" "length seps' = length js'"
    "changes (set (pid # js') \<union> set (map rootId us)) ((if pid \<in> svUsed (view s) then 0 else 1) + 1) (view s) (view s3)"
    "reps (svPage (view s3)) (opPageSize ops) 0 (Some 0) nodes" "treesOk (opPageSize ops) [] None seps' nodes"
    "map rootId nodes = pid # js'" "concat (map entries nodes) = concat (map entries us)"
    "mset (concat (map pids nodes)) = mset (pid # js') + mset (concat (map pids us))" "pid \<in> svWritten (view s3)"
    "\<forall>h. (\<forall>t \<in> set us. height t \<le> h) \<longrightarrow> (\<forall>t \<in> set nodes. height t \<le> Suc h)"
    "\<forall>h. (\<forall>t \<in> set us. uniform t h) \<longrightarrow> (\<forall>t \<in> set nodes. uniform t (Suc h))"
    "internalSerializedSize seps \<le> opPageSize ops \<longrightarrow> js' = []"
    by (elim exE conjE) (rule that)
  have js': "js' = []" "seps' = []" using S(3,13) size by auto
  then obtain w where w: "nodes = [w]" "rootId w = pid" using S(7) by (cases nodes) auto
  have pw: "mset (pids w) = mset (pid # concat (map pids us))" using S(9) by (simp add: w js')
  have setw: "set (pids w) = insert pid ?P" using arg_cong [OF pw, of set_mset] by simp
  have dw: "distinct (pids w)" using pw d by (metis mset_eq_imp_distinct_iff)
  have ch: "changes (insert pid (set (map rootId us))) 2 (view s) (view s3)"
    using S(4) al(3) js' by (simp add: numeral_2_eq_2)
  have used3: "svUsed (view s3) = insert pid (svUsed (view s))"
    using changes_used [OF ch] subset_trans [OF rootIds_pids assms(9)] by blast
  then have pid3: "pid \<in> svUsed (view s3)" by simp
  from set_root [OF S(2) this S(10)] obtain s4 where s4: "opSetRoot ops pid s3 = Inr s4" "ok s4"
    "view s4 = (view s3)\<lparr>svRoot := pid\<rparr>" by blast
  have V: "svPage (view s4) = svPage (view s3)" "svRoot (view s4) = pid" "svUsed (view s4) = svUsed (view s3)"
    "svRoom (view s4) = svRoom (view s3)" using s4(3) by simp_all
  have "rep (svPage (view s3)) (opPageSize ops) 0 None w" using S(5) rep_parent by (simp add: w)
  moreover have "\<exists>h. uniform w h" using S(12) assms(11) by (auto simp: w)
  ultimately have T: "treeIn (opPageSize ops) (view s4) w"
    using S(6) w(2) setw used3 assms(9) dw by (auto simp: treeIn_def V w(1) js')
  have same: "\<forall>p. p \<notin> set (pids w) \<longrightarrow> svPage (view s4) p = svPage (view s) p"
  proof (intro allI impI)
    fix p assume "p \<notin> set (pids w)"
    then have "p \<notin> insert pid (set (map rootId us))" using rootIds_pids [of us] unfolding setw by blast
    then show "svPage (view s4) p = svPage (view s) p" using changes_page [OF ch] unfolding V by blast
  qed
  have gr: "growRoot ops (Suc f) oldRoot (mkRefs seps js) s = Inr s4"
    using al(1) S(1) s4(1) js' assms(2) by (simp add: refs)
  have en: "entries w = concat (map entries us)" using S(8) by (simp add: w)
  have ht: "\<forall>h. (\<forall>u \<in> set us. height u \<le> h) \<longrightarrow> height w \<le> Suc h" using S(11) by (simp add: w)
  have rm: "svRoom (view s) \<le> svRoom (view s4) + 2" using changes_room [OF ch] unfolding V .
  show ?thesis
    by (intro exI [of _ s4] exI [of _ w] exI [of _ pid] conjI gr s4(2) T en setw al(3) same rm ht)
      (use al(2) w(2) used3 V in simp_all)
qed

lemma rawPut_ok:
  assumes "ok s" "optTree (opPageSize ops) (view s) ot" "entryBounded (opPageSize ops) key val"
    and "optHeight ot < fuel" "optHeight ot + 4 \<le> svRoom (view s)"
  shows "\<exists>s' t. rawPut ops fuel key val s = Inr s' \<and> ok s' \<and>
    putResult (opPageSize ops) (key, val) ot (view s) t (view s')"
proof (cases ot)
  case None
  then have r: "svRoot (view s) = 0" "4 \<le> svRoom (view s)" using assms(2,5) by (simp_all add: optTree_def)
  from putFirst_ok [OF assms(1) r(1) assms(3) r(2)] show ?thesis
    using r(1) by (simp add: rawPut_def read_root [OF assms(1)] None)
next
  case (Some t)
  have t: "svRoot (view s) = rootId t" "rootId t \<noteq> 0" "rep (svPage (view s)) (opPageSize ops) 0 None t"
    "treeOk (opPageSize ops) [] None t" "distinct (pids t)" "set (pids t) \<subseteq> svUsed (view s)"
    and unif: "\<exists>h. uniform t h"
    and h: "height t < fuel" "2 + height t \<le> svRoom (view s)" "height t + 4 \<le> svRoom (view s)"
    using assms(2,4,5) by (auto simp: Some optTree_def treeIn_def optHeight_def)
  from insertAt_ok [OF assms(1) t(3,4) within_all assms(3) t(6,5) h(1,2)] obtain js seps us s1 where I:
    "insertAt ops fuel (rootId t) key val s = Inr (mkRefs seps js, s1)" "ok s1" "length seps = length js"
    "map rootId us = rootId t # js"
    "grown (opPageSize ops) 0 None [] None (key, val) t (view s) seps us (view s1)"
    by (elim exE conjE) (rule that)
  let ?P = "set (concat (map pids us))"
  have g: "treesOk (opPageSize ops) [] None seps us" "length seps \<le> 2" "(?P - set (pids t)) \<inter> svUsed (view s) = {}"
    "changes ?P (2 + height t) (view s) (view s1)" "set (pids t) \<subseteq> ?P" "distinct (concat (map pids us))"
    "reps (svPage (view s1)) (opPageSize ops) 0 None us"
    "map_of (concat (map entries us)) = (map_of (entries t))(key \<mapsto> val)" "\<forall>w \<in> set us. height w \<le> height t"
    using I(5) by (auto simp: grown_def)
  from unif obtain n where n: "uniform t n" by blast
  have "\<forall>u \<in> set us. uniform u n" using I(5) n by (simp add: grown_def)
  then have g10: "\<exists>h. \<forall>u \<in> set us. uniform u h" by blast
  have used1: "svUsed (view s1) = svUsed (view s) \<union> ?P" by (rule changes_used [OF g(4)])
  have root1: "svRoot (view s1) = rootId t" using changes_root [OF g(4)] t(1) by simp
  have room1: "svRoom (view s) \<le> svRoom (view s1) + (2 + height t)" by (rule changes_room [OF g(4)])
  show ?thesis
  proof (cases "js = []")
    case True
    then obtain w where w: "us = [w]" "rootId w = rootId t" "seps = []" using I(3,4) by (cases us) auto
    have "treeIn (opPageSize ops) (view s1) w"
      using g(1,6,7) g10 used1 root1 by (simp add: treeIn_def w)
    then have "putResult (opPageSize ops) (key, val) ot (view s) w (view s1)"
      using g(3,5,8,9) used1 changes_page [OF g(4)] room1 t(2) root1
      by (simp add: putResult_def Some optEntries_def optPids_def optHeight_def w)
    moreover have "rawPut ops fuel key val s = Inr s1"
      using I(1) True w(3) t(1,2) by (simp add: rawPut_def read_root [OF assms(1)])
    ultimately show ?thesis using I(2) by blast
  next
    case False
    obtain f where f: "fuel = Suc f" using h(1) by (cases fuel) auto
    have P: "?P \<subseteq> svUsed (view s1)" "2 \<le> svRoom (view s1)" using used1 room1 h(3) by auto
    from growRoot_ok [OF I(2,4,3) False g(2,7,1,6) P g10, of f] obtain s2 w pid where G:
      "growRoot ops (Suc f) (rootId t) (mkRefs seps js) s1 = Inr s2" "ok s2" "treeIn (opPageSize ops) (view s2) w"
      "rootId w \<noteq> 0" "entries w = concat (map entries us)" "set (pids w) = insert pid ?P" "pid \<notin> svUsed (view s1)"
      "\<forall>p. p \<notin> set (pids w) \<longrightarrow> svPage (view s2) p = svPage (view s1) p"
      "svUsed (view s2) = insert pid (svUsed (view s1))" "svRoom (view s1) \<le> svRoom (view s2) + 2"
      "\<forall>h. (\<forall>u \<in> set us. height u \<le> h) \<longrightarrow> height w \<le> Suc h" by (elim exE conjE) (rule that)
    have "putResult (opPageSize ops) (key, val) ot (view s) w (view s2)"
      unfolding putResult_def
    proof (intro conjI)
      show "svRoot (view s2) \<noteq> 0" using G(3,4) by (auto simp: treeIn_def)
      show "map_of (entries w) = (map_of (optEntries ot))(fst (key, val) \<mapsto> snd (key, val))"
        using g(8) G(5) by (simp add: Some optEntries_def)
      show "height w \<le> optHeight ot + 1" using G(11) g(9) by (simp add: Some optHeight_def)
      show "optPids ot \<subseteq> set (pids w)" using g(5) unfolding G(6) by (auto simp: Some optPids_def)
      show "(set (pids w) - optPids ot) \<inter> svUsed (view s) = {}"
        using g(3) G(7) used1 unfolding G(6) by (simp add: Some optPids_def) blast
      show "\<forall>p. p \<notin> set (pids w) \<longrightarrow> svPage (view s2) p = svPage (view s) p"
        using G(8) changes_page [OF g(4)] unfolding G(6) by (metis insertCI)
      show "svUsed (view s2) = svUsed (view s) \<union> set (pids w)" unfolding G(6,9) used1 by blast
      show "svRoom (view s) \<le> svRoom (view s2) + optHeight ot + 4"
        using room1 G(10) by (simp add: Some optHeight_def)
    qed (rule G(3))
    moreover have "rawPut ops fuel key val s = Inr s2"
    proof -
      have "mkRefs seps js \<noteq> []" using False I(3) by (simp add: mkRefs_def) auto
      then show ?thesis
        using I(1) G(1) t(1,2)
        by (simp add: rawPut_def read_root [OF assms(1)] f del: insertAt.simps growRoot.simps)
    qed
    ultimately show ?thesis using G(2) by blast
  qed
qed

end

end
