(* ===== verification/BTreeRead.thy ===== *)
theory BTreeRead
  imports BTree
begin

text \<open>
  Reading the B+ tree of \<open>BTree\<close>: the lookups and the two ordered scans of
  \<open>internal/engine/btree.go\<close> (\<open>GetUsingRoot\<close>, \<open>AscendRangeFromRoot\<close>,
  \<open>DescendRangeFromRoot\<close>, \<open>prevLeaf\<close>). What a leaf value stands for (an overflow
  stub, a compressed value) is the parameter \<open>load\<close>, the two steps both scans make;
  \<open>Overflow\<close> provides it. The callback \<open>fn\<close> is a function on its own state that
  says whether the scan goes on.
\<close>

subsection \<open>Operations\<close>

type_synonym 'a visitor = "bytes \<Rightarrow> bytes \<Rightarrow> 'a \<Rightarrow> bool \<times> 'a"

text \<open>The entries of one leaf; the flag is true when the scan goes on to the next leaf.\<close>

fun scanEntries ::
  "(bytes \<Rightarrow> engine_error + bytes) \<Rightarrow> 'a visitor \<Rightarrow> (bytes \<Rightarrow> bool) \<Rightarrow> (bytes \<times> bytes) list \<Rightarrow> 'a \<Rightarrow>
   engine_error + bool \<times> 'a" where
  "scanEntries load fn beyond [] acc = Inr (True, acc)"
| "scanEntries load fn beyond ((k, v) # kvs) acc =
     (if beyond k then Inr (False, acc)
      else bindR (load v) (\<lambda>v. case fn k v acc of (goOn, acc) \<Rightarrow>
        if goOn then scanEntries load fn beyond kvs acc else Inr (False, acc)))"

primrec ascendLeaves ::
  "'s pageOps \<Rightarrow> (bytes \<Rightarrow> engine_error + bytes) \<Rightarrow> 'a visitor \<Rightarrow> bytes option \<Rightarrow> bytes option \<Rightarrow> nat \<Rightarrow> 's \<Rightarrow>
   uint64 \<Rightarrow> bool \<Rightarrow> 'a \<Rightarrow> engine_error + 'a" where
  "ascendLeaves ops load fn start to 0 s pid started acc = Inl OutOfFuel"
| "ascendLeaves ops load fn start to (Suc fuel) s pid started acc =
     (if pid = 0 then Inr acc
      else bindR (opRead ops s pid) (\<lambda>page.
           bindR (parseLeafPage page) (\<lambda>ld.
             let i = (case start of None \<Rightarrow> 0 | Some k \<Rightarrow> if started then 0 else leafKeyIndex (leafKeys ld) k)
             in bindR (scanEntries load fn (\<lambda>k. case to of None \<Rightarrow> False | Some t \<Rightarrow> t < k)
                         (drop i (zip (leafKeys ld) (leafVals ld))) acc) (\<lambda>(goOn, acc).
                  if goOn then ascendLeaves ops load fn start to fuel s (leafNext ld) True acc else Inr acc))))"

definition AscendRangeFromRoot ::
  "'s pageOps \<Rightarrow> (bytes \<Rightarrow> engine_error + bytes) \<Rightarrow> 'a visitor \<Rightarrow> nat \<Rightarrow> 's \<Rightarrow> uint64 \<Rightarrow> bytes option \<Rightarrow>
   bytes option \<Rightarrow> 'a \<Rightarrow> engine_error + 'a" where
  "AscendRangeFromRoot ops load fn fuel s root start to acc =
     (if root = 0 then Inr acc
      else bindR (leftmostLeaf ops fuel s root start) (\<lambda>pid.
           ascendLeaves ops load fn start to fuel s pid False acc))"

definition AscendRange ::
  "'s pageOps \<Rightarrow> (bytes \<Rightarrow> engine_error + bytes) \<Rightarrow> 'a visitor \<Rightarrow> nat \<Rightarrow> 's \<Rightarrow> bytes option \<Rightarrow>
   bytes option \<Rightarrow> 'a \<Rightarrow> engine_error + 'a" where
  "AscendRange ops load fn fuel s start to acc =
     bindR (opRoot ops s) (\<lambda>root. AscendRangeFromRoot ops load fn fuel s root start to acc)"

primrec rightmostLeaf :: "'s pageOps \<Rightarrow> nat \<Rightarrow> 's \<Rightarrow> uint64 \<Rightarrow> bytes option \<Rightarrow> engine_error + uint64" where
  "rightmostLeaf ops 0 s pid to = Inl OutOfFuel"
| "rightmostLeaf ops (Suc fuel) s pid to =
     bindR (opRead ops s pid) (\<lambda>page.
       if page ! 5 = btreeKindLeaf then Inr pid
       else bindR (parseInternalPage page) (\<lambda>ind.
         rightmostLeaf ops fuel s
           (case to of None \<Rightarrow> inPtrs ind ! (length (inPtrs ind) - 1)
            | Some k \<Rightarrow> inPtrs ind ! internalPickChild (inKeys ind) k) to))"

text \<open>The position of a pointer in its parent.\<close>

primrec ptrIndex :: "uint64 list \<Rightarrow> uint64 \<Rightarrow> nat option" where
  "ptrIndex [] pid = None"
| "ptrIndex (p # ptrs) pid = (if p = pid then Some 0 else map_option Suc (ptrIndex ptrs pid))"

text \<open>
  The code reads the parent's own parent before it looks at the parse error; the value is not
  used when there is one.
\<close>

primrec prevLeaf :: "'s pageOps \<Rightarrow> nat \<Rightarrow> 's \<Rightarrow> uint64 \<Rightarrow> uint64 \<Rightarrow> uint64 \<Rightarrow> engine_error + uint64" where
  "prevLeaf ops 0 s leafPID parentPID root = Inl OutOfFuel"
| "prevLeaf ops (Suc fuel) s leafPID parentPID root =
     (if parentPID = 0 \<or> leafPID = root then Inr 0
      else bindR (opRead ops s parentPID) (\<lambda>page.
           bindR (parseInternalPage page) (\<lambda>ind.
             case ptrIndex (inPtrs ind) leafPID of
               None \<Rightarrow> Inr 0
             | Some 0 \<Rightarrow> prevLeaf ops fuel s parentPID (inParent ind) root
             | Some (Suc i) \<Rightarrow> rightmostLeaf ops fuel s (inPtrs ind ! i) None)))"

text \<open>How many entries of a leaf are at most the upper bound: the loop that moves \<open>iEnd\<close> down.\<close>

definition endIndex :: "bytes option \<Rightarrow> bytes list \<Rightarrow> nat" where
  "endIndex to keys = (case to of None \<Rightarrow> length keys
     | Some t \<Rightarrow> length keys - length (takeWhile (\<lambda>k. t < k) (rev keys)))"

primrec descendLeaves ::
  "'s pageOps \<Rightarrow> (bytes \<Rightarrow> engine_error + bytes) \<Rightarrow> 'a visitor \<Rightarrow> bytes option \<Rightarrow> bytes option \<Rightarrow> nat \<Rightarrow> nat \<Rightarrow>
   's \<Rightarrow> uint64 \<Rightarrow> uint64 \<Rightarrow> 'a \<Rightarrow> engine_error + 'a" where
  "descendLeaves ops load fn start to depth 0 s root pid acc = Inl OutOfFuel"
| "descendLeaves ops load fn start to depth (Suc fuel) s root pid acc =
     (if pid = 0 then Inr acc
      else bindR (opRead ops s pid) (\<lambda>page.
           bindR (parseLeafPage page) (\<lambda>ld.
           bindR (scanEntries load fn (\<lambda>k. case start of None \<Rightarrow> False | Some f \<Rightarrow> k < f)
                    (rev (take (endIndex to (leafKeys ld)) (zip (leafKeys ld) (leafVals ld)))) acc) (\<lambda>(goOn, acc).
             if goOn
             then bindR (prevLeaf ops depth s pid (leafParent ld) root) (\<lambda>prev.
                  descendLeaves ops load fn start to depth fuel s root prev acc)
             else Inr acc))))"

definition DescendRangeFromRoot ::
  "'s pageOps \<Rightarrow> (bytes \<Rightarrow> engine_error + bytes) \<Rightarrow> 'a visitor \<Rightarrow> nat \<Rightarrow> 's \<Rightarrow> uint64 \<Rightarrow> bytes option \<Rightarrow>
   bytes option \<Rightarrow> 'a \<Rightarrow> engine_error + 'a" where
  "DescendRangeFromRoot ops load fn fuel s root start to acc =
     (if root = 0 then Inr acc
      else bindR (rightmostLeaf ops fuel s root to) (\<lambda>pid.
           descendLeaves ops load fn start to fuel fuel s root pid acc))"

definition DescendRange ::
  "'s pageOps \<Rightarrow> (bytes \<Rightarrow> engine_error + bytes) \<Rightarrow> 'a visitor \<Rightarrow> nat \<Rightarrow> 's \<Rightarrow> bytes option \<Rightarrow>
   bytes option \<Rightarrow> 'a \<Rightarrow> engine_error + 'a" where
  "DescendRange ops load fn fuel s start to acc =
     bindR (opRoot ops s) (\<lambda>root. DescendRangeFromRoot ops load fn fuel s root start to acc)"

subsection \<open>What a scan should do\<close>

text \<open>Visit a list of entries in order, until the callback stops or a value does not load.\<close>

fun visit :: "(bytes \<Rightarrow> engine_error + bytes) \<Rightarrow> 'a visitor \<Rightarrow> (bytes \<times> bytes) list \<Rightarrow> 'a \<Rightarrow> engine_error + 'a" where
  "visit load fn [] acc = Inr acc"
| "visit load fn ((k, v) # kvs) acc =
     bindR (load v) (\<lambda>v. case fn k v acc of (goOn, acc) \<Rightarrow> if goOn then visit load fn kvs acc else Inr acc)"

definition inRange :: "bytes option \<Rightarrow> bytes option \<Rightarrow> bytes \<Rightarrow> bool" where
  "inRange start to k \<longleftrightarrow> (case start of None \<Rightarrow> True | Some f \<Rightarrow> f \<le> k) \<and> (case to of None \<Rightarrow> True | Some t \<Rightarrow> k \<le> t)"

lemma scanEntries_append:
  "scanEntries load fn beyond (xs @ ys) acc =
     bindR (scanEntries load fn beyond xs acc) (\<lambda>(goOn, acc).
       if goOn then scanEntries load fn beyond ys acc else Inr (False, acc))"
proof (induction xs arbitrary: acc)
  case (Cons e xs)
  obtain k v where e: "e = (k, v)" by fastforce
  show ?case
  proof (cases "load v")
    case (Inr v')
    obtain m a where "fn k v' acc = (m, a)" by fastforce
    with Inr Cons.IH show ?thesis by (cases m) (simp_all add: e)
  qed (simp add: e)
qed simp

lemma scanEntries_visit:
  "bindR (scanEntries load fn beyond kvs acc) (\<lambda>(goOn, acc). Inr acc) =
     visit load fn (takeWhile (\<lambda>(k, v). \<not> beyond k) kvs) acc"
proof (induction kvs arbitrary: acc)
  case (Cons e kvs)
  obtain k v where e: "e = (k, v)" by fastforce
  show ?case
  proof (cases "load v")
    case (Inr v')
    obtain m a where "fn k v' acc = (m, a)" by fastforce
    with Inr Cons.IH show ?thesis by (cases m) (simp_all add: e)
  qed (simp add: e)
qed simp

text \<open>On sorted entries, stopping at the first key outside is filtering.\<close>

lemma takeWhile_filter_up:
  assumes "sorted_wrt (<) (map fst kvs)" "\<And>j k. j < k \<Longrightarrow> beyond j \<Longrightarrow> beyond (k :: bytes)"
  shows "takeWhile (\<lambda>(k, v). \<not> beyond k) kvs = filter (\<lambda>(k, v). \<not> beyond k) kvs"
  using assms(1)
proof (induction kvs)
  case (Cons e kvs)
  have "filter (\<lambda>(k, v). \<not> beyond k) kvs = []" if "beyond (fst e)"
    using Cons.prems assms(2) that by (fastforce simp: filter_empty_conv)
  with Cons show ?case by (auto simp: case_prod_unfold)
qed simp

lemma takeWhile_filter_down:
  assumes "sorted_wrt (<) (map fst kvs)" "\<And>j k. j < k \<Longrightarrow> beyond k \<Longrightarrow> beyond (j :: bytes)"
  shows "takeWhile (\<lambda>(k, v). \<not> beyond k) (rev kvs) = rev (filter (\<lambda>(k, v). \<not> beyond k) kvs)"
  using assms(1)
proof (induction kvs rule: rev_induct)
  case (snoc e kvs)
  have "filter (\<lambda>(k, v). \<not> beyond k) kvs = []" if "beyond (fst e)"
    using snoc.prems assms(2) that by (fastforce simp: filter_empty_conv sorted_wrt_append)
  with snoc show ?case by (auto simp: case_prod_unfold sorted_wrt_append)
qed simp

subsection \<open>The chain of leaves\<close>

primrec leaves :: "btree \<Rightarrow> (uint64 \<times> bytes list \<times> bytes list) list" where
  "leaves (Leaf pid ks vs) = [(pid, ks, vs)]"
| "leaves (Node pid ks ts) = concat (map leaves ts)"

definition leafEntries :: "(uint64 \<times> bytes list \<times> bytes list) list \<Rightarrow> (bytes \<times> bytes) list" where
  "leafEntries L = concat (map (\<lambda>(pid, ks, vs). zip ks vs) L)"

lemma leafEntries_simps [simp]:
  "leafEntries [] = []" "leafEntries (L @ M) = leafEntries L @ leafEntries M"
  "leafEntries ((pid, ks, vs) # L) = zip ks vs @ leafEntries L"
  by (simp_all add: leafEntries_def)

lemma leafEntries_concat: "leafEntries (concat Ls) = concat (map leafEntries Ls)"
  by (induction Ls) simp_all

lemma leafEntries_leaves: "leafEntries (leaves t) = entries t"
  by (induction t) (simp_all add: leafEntries_concat comp_def cong: map_cong)

lemma leaves_pids: "fst ` set (leaves t) \<subseteq> set (pids t)"
  by (induction t) auto

definition headId :: "uint64 \<Rightarrow> (uint64 \<times> bytes list \<times> bytes list) list \<Rightarrow> uint64" where
  "headId nx L = (case L of [] \<Rightarrow> nx | (q, _) # _ \<Rightarrow> q)"

fun chain :: "(uint64 \<Rightarrow> engine_error + bytes) \<Rightarrow> uint64 \<Rightarrow> (uint64 \<times> bytes list \<times> bytes list) list \<Rightarrow> bool" where
  "chain rd nx [] = True"
| "chain rd nx ((pid, ks, vs) # L) =
     ((\<exists>page parent. rd pid = Inr page \<and> parseLeafPage page =
         Inr \<lparr>leafNext = headId nx L, leafParent = parent, leafKeys = ks, leafVals = vs\<rparr>) \<and> chain rd nx L)"

lemma headId_append [simp]: "headId nx (L @ M) = headId (headId nx M) L"
  by (cases L) (auto simp: headId_def)

lemma chain_append: "chain rd nx (L @ M) \<longleftrightarrow> chain rd (headId nx M) L \<and> chain rd nx M"
  by (induction L) auto

lemma rep_chain:
  "treeOk ps lo hi t \<Longrightarrow> rep rd ps nx par t \<Longrightarrow>
     chain rd nx (leaves t) \<and> leaves t \<noteq> [] \<and> firstLeaf t = headId nx (leaves t)"
  "treesOk ps lo hi ks ts \<Longrightarrow> reps rd ps nx par ts \<Longrightarrow>
     chain rd nx (concat (map leaves ts)) \<and> concat (map leaves ts) \<noteq> [] \<and>
     firstLeaf (hd ts) = headId nx (concat (map leaves ts))"
proof (induction ps lo hi t and ps lo hi ks ts arbitrary: nx par and nx par rule: treeOk_treesOk.induct)
  case (1 ps lo hi pid ks vs)
  then show ?case by (auto simp: leafAt_def headId_def)
next
  case (2 ps lo hi pid ks ts)
  have "ts \<noteq> []" using treesOk_length [of ps lo hi ks ts] "2.prems"(1) by (cases ts) simp_all
  with "2.IH" [of nx "Some pid"] "2.prems" show ?case by (simp add: firstLeaf_Node)
next
  case (3 ps lo hi t)
  then show ?case by simp
next
  case (4 ps lo hi k ks t ts)
  have ok: "treeOk ps lo (Some k) t" "treesOk ps k hi ks ts" using "4.prems"(1) by simp_all
  have ne: "ts \<noteq> []" using treesOk_length [OF ok(2)] by (cases ts) simp_all
  have r: "rep rd ps (firstLeaf (hd ts)) par t" "reps rd ps nx par ts"
    using "4.prems"(2) ne by (simp_all add: next_case)
  from "4.IH"(2) [OF ok(2) r(2)] "4.IH"(1) [OF ok(1) r(1)] show ?case
    by (simp add: chain_append)
qed simp_all

subsection \<open>The child a key belongs to\<close>

lemma treesOk_bounds:
  assumes "treesOk ps lo hi (ks1 @ ks2) (ts1 @ t # ts2)" "length ts1 = length ks1"
    and "\<forall>k \<in> set ks1. k \<le> key" "\<forall>k \<in> set ks2. key < k"
  shows "\<forall>x \<in> fst ` set (concat (map entries ts1)). x < key"
    "\<forall>x \<in> fst ` set (concat (map entries ts2)). key < x"
proof -
  have "(\<forall>x \<in> fst ` set (concat (map entries ts1)). x < key) \<and> (\<forall>x \<in> fst ` set (concat (map entries ts2)). key < x)"
    using assms
  proof (induction ks1 arbitrary: lo ts1)
    case Nil
    show ?case
    proof (cases ks2)
      case Nil
      then have "ts2 = []" using treesOk_length [OF Nil.prems(1)] Nil.prems(2) by simp
      then show ?thesis using Nil.prems(2) by simp
    next
      case (Cons k ks2')
      then have k: "treesOk ps k hi ks2' ts2" "key < k" using Nil.prems by simp_all
      have "key < x" if "x \<in> fst ` set (concat (map entries ts2))" for x
        using treeOk_within(2) [OF k(1) that] less_le_trans [OF k(2)] by (simp add: within_def)
      then show ?thesis using Nil.prems(2) by simp
    qed
  next
    case (Cons k ks1)
    then obtain u us where us: "ts1 = u # us" by (cases ts1) auto
    have k: "k \<le> key" "treeOk ps lo (Some k) u" "treesOk ps k hi (ks1 @ ks2) (us @ t # ts2)"
      using Cons.prems us by simp_all
    have "x < key" if "x \<in> fst ` set (entries u)" for x
      using treeOk_within(1) [OF k(2) that] k(1) by (auto simp: within_def)
    with Cons.IH [OF k(3)] Cons.prems us show ?case by auto
  qed
  then show "\<forall>x \<in> fst ` set (concat (map entries ts1)). x < key"
    "\<forall>x \<in> fst ` set (concat (map entries ts2)). key < x" by blast+
qed

lemma treesOk_descend:
  assumes "treesOk ps lo hi ks ts" "within lo hi key"
  obtains ks1 ks2 ts1 t ts2 lo' hi' where "ks = ks1 @ ks2" "ts = ts1 @ t # ts2" "treeOk ps lo' hi' t" "within lo' hi' key"
    "map rootId ts ! internalPickChild ks key = rootId t" "pickPtr key ks (map rootId ts) = rootId t"
    "\<forall>x \<in> fst ` set (concat (map entries ts1)). x < key" "\<forall>x \<in> fst ` set (concat (map entries ts2)). key < x"
proof -
  obtain ks1 ks2 ts1 u ts2 lo' hi' where sp: "ks = ks1 @ ks2" "ts = ts1 @ u # ts2" "length ts1 = length ks1"
    "\<forall>k \<in> set ks1. k \<le> key" "\<forall>k \<in> set ks2. key < k" "treeOk ps lo' hi' u" "within lo' hi' key"
    using treesOk_splice [OF assms] by metis
  have sorted: "sorted ks" using treesOk_sorted [OF assms(1)] by (simp add: strict_sorted_iff)
  have tw: "takeWhile (\<lambda>k. k \<le> key) ks = ks1"
    using sp(4,5) unfolding sp(1) by (subst takeWhile_append2) (auto simp: takeWhile_eq_Nil_iff neq_Nil_conv dest: leD)
  have nth: "map rootId ts ! length ks1 = rootId u" unfolding sp(2) sp(3) [symmetric] by (simp add: nth_append)
  note b = treesOk_bounds [OF assms(1) [unfolded sp(1,2)] sp(3-5)]
  show thesis
    by (rule that [OF sp(1,2,6,7) _ _ b])
      (simp_all add: internalPickChild_takeWhile [OF sorted] pickPtr_def tw nth)
qed

lemma zip_keys_filter:
  assumes "sorted_wrt (<) ks" "length vs = length ks"
  shows "drop (leafKeyIndex ks key) (zip ks vs) = filter (\<lambda>(k, v). key \<le> k) (zip ks vs)"
proof -
  have "sorted ks" using assms(1) by (simp add: strict_sorted_iff)
  then have i: "leafKeyIndex ks key = length (takeWhile (\<lambda>k. k < key) ks)" by (rule leafKeyIndex_takeWhile)
  show ?thesis unfolding i using assms
  proof (induction ks vs rule: list_induct2')
    case (4 k ks v vs)
    have "\<forall>x \<in> set ks. k < x" using 4 by simp
    then have "key \<le> k \<longrightarrow> filter (\<lambda>(k, v). key \<le> k) (zip ks vs) = zip ks vs"
      by (auto simp: filter_id_conv dest!: set_zip_leftD)
    with 4 show ?case by (auto simp: not_less)
  qed simp_all
qed

lemma take_end_filter:
  fixes zs :: "(bytes \<times> bytes) list"
  assumes "sorted_wrt (<) (map fst zs)"
  shows "take (length zs - length (takeWhile (\<lambda>k. t < k) (rev (map fst zs)))) zs = filter (\<lambda>(k, v). k \<le> t) zs"
  using assms
proof (induction zs rule: rev_induct)
  case (snoc z zs)
  have "\<forall>x \<in> set zs. fst x < fst z" using snoc.prems by (simp add: sorted_wrt_append)
  then have "fst z \<le> t \<longrightarrow> filter (\<lambda>(k, v). k \<le> t) zs = zs"
    by (fastforce simp: filter_id_conv)
  with snoc show ?case by (auto simp: not_less sorted_wrt_append case_prod_unfold)
qed simp

lemma endIndex_filter:
  fixes vs :: "bytes list"
  assumes "sorted_wrt (<) ks" "length vs = length ks"
  shows "take (endIndex to ks) (zip ks vs) = filter (\<lambda>(k, v). case to of None \<Rightarrow> True | Some t \<Rightarrow> k \<le> t) (zip ks vs)"
proof (cases to)
  case None
  then show ?thesis using assms(2) by (simp add: endIndex_def)
next
  case (Some t)
  have "map fst (zip ks vs) = ks" using assms(2) by simp
  with take_end_filter [of "zip ks vs" t] assms show ?thesis by (simp add: endIndex_def Some)
qed

lemma leaves_entriesOk:
  "treeOk ps lo hi t \<Longrightarrow> (pid, ks, vs) \<in> set (leaves t) \<Longrightarrow> entriesOk ps ks vs"
  "treesOk ps lo hi sks ts \<Longrightarrow> (pid, ks, vs) \<in> set (concat (map leaves ts)) \<Longrightarrow> entriesOk ps ks vs"
  by (induction ps lo hi t and ps lo hi sks ts rule: treeOk_treesOk.induct) auto

subsection \<open>Lookup and the ends of the chain\<close>

definition treeAt :: "nat \<Rightarrow> uint64 \<Rightarrow> bytes \<Rightarrow> bytes option \<Rightarrow> storeView \<Rightarrow> btree \<Rightarrow> bool" where
  "treeAt ps nx lo hi V t \<longleftrightarrow> rep (svPage V) ps nx None t \<and> treeOk ps lo hi t \<and> set (pids t) \<subseteq> svUsed V"

lemma treeAt_Node:
  assumes "treeAt ps nx lo hi V (Node pid ks ts)"
  obtains page parent where "svPage V pid = Inr page" "pid \<in> svUsed V" "page ! 5 = btreeKindInternal"
    "parseInternalPage page = Inr \<lparr>inParent = parent, inPtrs = map rootId ts, inKeys = ks\<rparr>"
    "rep (svPage V) ps nx (Some parent) (Node pid ks ts)" "treesOk ps lo hi ks ts"
proof -
  from assms obtain page parent where "svPage V pid = Inr page" "length page = ps"
    "parseInternalPage page = Inr \<lparr>inParent = parent, inPtrs = map rootId ts, inKeys = ks\<rparr>"
    by (auto simp: treeAt_def nodeAt_def)
  with assms show thesis
    by (intro that [of page parent]) (auto simp: treeAt_def nodeAt_def parseInternalPage_kind)
qed

lemma treeAt_Leaf:
  assumes "treeAt ps nx lo hi V (Leaf pid ks vs)"
  obtains page parent where "svPage V pid = Inr page" "pid \<in> svUsed V" "page ! 5 = btreeKindLeaf"
    "parseLeafPage page = Inr \<lparr>leafNext = nx, leafParent = parent, leafKeys = ks, leafVals = vs\<rparr>" "entriesOk ps ks vs"
  using assms by (auto simp: treeAt_def leafAt_def parseLeafPage_kind)

lemma treesOk_middle: "treesOk ps lo hi ks (ts1 @ t # ts2) \<Longrightarrow> \<exists>lo' hi'. treeOk ps lo' hi' t"
proof (induction ts1 arbitrary: lo ks)
  case Nil
  then show ?case by (cases ks; cases ts2) auto
next
  case (Cons u ts1)
  then show ?case by (cases ks; cases "ts1 @ t # ts2") auto
qed

lemma treeAt_child:
  assumes "treeAt ps nx lo hi V (Node pid ks (ts1 @ t # ts2))" "treeOk ps lo' hi' t"
  shows "\<exists>nx'. treeAt ps nx' lo' hi' V t"
  using assms by (auto simp: treeAt_def reps_append intro: rep_parent)

lemma treesOk_ends:
  assumes "treesOk ps lo hi ks ts"
  obtains t ts' u us' where "ts = t # ts'" "ts = us' @ [u]"
    "map rootId ts ! 0 = rootId t" "map rootId ts ! (length (map rootId ts) - 1) = rootId u"
proof -
  have "ts \<noteq> []" using treesOk_length [OF assms] by (cases ts) simp_all
  then obtain t ts' where 1: "ts = t # ts'" by (cases ts) auto
  from \<open>ts \<noteq> []\<close> obtain us' u where 2: "ts = us' @ [u]" by (cases ts rule: rev_cases) auto
  show thesis by (rule that [OF 1 2]) (simp add: 1, simp add: 2 nth_append)
qed

context page_store
begin

abbreviation ps where "ps \<equiv> opPageSize ops"

lemma rawGet_ok:
  assumes "ok s" "treeAt ps nx lo hi (view s) t" "within lo hi key" "height t < fuel"
  shows "rawGet ops fuel s (rootId t) key = Inr (map_of (entries t) key)"
  using assms(2-4)
proof (induction fuel arbitrary: nx lo hi t)
  case (Suc fuel)
  show ?case
  proof (cases t)
    case (Leaf pid ks vs)
    with Suc.prems(1) obtain page parent where page: "svPage (view s) pid = Inr page" "pid \<in> svUsed (view s)"
      "page ! 5 = btreeKindLeaf" "parseLeafPage page =
        Inr \<lparr>leafNext = nx, leafParent = parent, leafKeys = ks, leafVals = vs\<rparr>" "entriesOk ps ks vs"
      by (auto elim: treeAt_Leaf)
    then show ?thesis
      by (simp add: Leaf read_page [OF assms(1)] lookupLeafValue_parse lastMatch_distinct entriesOk_def
          strict_sorted_iff)
  next
    case (Node pid ks ts)
    with Suc.prems(1) obtain page parent where page: "svPage (view s) pid = Inr page" "pid \<in> svUsed (view s)"
      "page ! 5 = btreeKindInternal"
      "parseInternalPage page = Inr \<lparr>inParent = parent, inPtrs = map rootId ts, inKeys = ks\<rparr>"
      "treesOk ps lo hi ks ts"
      by (auto elim: treeAt_Node)
    from treesOk_descend [OF page(5) Suc.prems(2)] obtain ks1 ks2 ts1 u ts2 lo' hi' where sp:
      "ts = ts1 @ u # ts2" "treeOk ps lo' hi' u" "within lo' hi' key" "pickPtr key ks (map rootId ts) = rootId u"
      "\<forall>x \<in> fst ` set (concat (map entries ts1)). x < key" "\<forall>x \<in> fst ` set (concat (map entries ts2)). key < x"
      by metis
    obtain nx' where u: "treeAt ps nx' lo' hi' (view s) u"
      using treeAt_child [OF _ sp(2)] Suc.prems(1) unfolding Node sp(1) by blast
    have "key \<notin> dom (map_of (concat (map entries ts1)))" "key \<notin> dom (map_of (concat (map entries ts2)))"
      using sp(5,6) unfolding dom_map_of_conv_image_fst by blast+
    then have m: "map_of (entries t) key = map_of (entries u) key"
      by (simp add: Node sp(1) map_add_def domIff split: option.splits)
    have "height u < fuel" using height_child [of u ts pid ks] Suc.prems(3) by (simp add: Node sp(1))
    from Suc.IH [OF u sp(3) this] page show ?thesis
      unfolding m by (simp add: Node read_page [OF assms(1)] lookupInternalChild_parse sp(4))
  qed
qed simp


lemma rightmostLeaf_Some: "rightmostLeaf ops fuel s pid (Some k) = leftmostLeaf ops fuel s pid (Some k)"
  by (induction fuel arbitrary: pid) (simp_all cong: if_cong)

lemma leafSearch_ok:
  assumes "ok s" "treeAt ps nx lo hi (view s) t" "within lo hi key" "height t < fuel"
  shows "\<exists>L1 pid ks vs L2. leftmostLeaf ops fuel s (rootId t) (Some key) = Inr pid \<and>
    leaves t = L1 @ (pid, ks, vs) # L2 \<and> (\<forall>x \<in> fst ` set (leafEntries L1). x < key) \<and>
    (\<forall>x \<in> fst ` set (leafEntries L2). key < x)"
  using assms(2-4)
proof (induction fuel arbitrary: nx lo hi t)
  case (Suc fuel)
  show ?case
  proof (cases t)
    case (Leaf pid ks vs)
    with Suc.prems(1) obtain page where "svPage (view s) pid = Inr page" "pid \<in> svUsed (view s)"
      "page ! 5 = btreeKindLeaf" by (auto elim: treeAt_Leaf)
    then have "leftmostLeaf ops (Suc fuel) s (rootId t) (Some key) = Inr pid"
      by (simp add: Leaf read_page [OF assms(1)])
    then show ?thesis
      by (intro exI [of _ "[]"] exI [of _ pid] exI [of _ ks] exI [of _ vs] exI [of _ "[]"]) (simp add: Leaf)
  next
    case (Node pid ks ts)
    with Suc.prems(1) obtain page parent where page: "svPage (view s) pid = Inr page" "pid \<in> svUsed (view s)"
      "page ! 5 = btreeKindInternal"
      "parseInternalPage page = Inr \<lparr>inParent = parent, inPtrs = map rootId ts, inKeys = ks\<rparr>"
      "treesOk ps lo hi ks ts"
      by (auto elim: treeAt_Node)
    from treesOk_descend [OF page(5) Suc.prems(2)] obtain ks1 ks2 ts1 u ts2 lo' hi' where sp:
      "ts = ts1 @ u # ts2" "treeOk ps lo' hi' u" "within lo' hi' key" "map rootId ts ! internalPickChild ks key = rootId u"
      "\<forall>x \<in> fst ` set (concat (map entries ts1)). x < key" "\<forall>x \<in> fst ` set (concat (map entries ts2)). key < x"
      by metis
    obtain nx' where u: "treeAt ps nx' lo' hi' (view s) u"
      using treeAt_child [OF _ sp(2)] Suc.prems(1) unfolding Node sp(1) by blast
    have "height u < fuel" using height_child [of u ts pid ks] Suc.prems(3) by (simp add: Node sp(1))
    from Suc.IH [OF u sp(3) this] obtain L1 q ks' vs' L2 where IH:
      "leftmostLeaf ops fuel s (rootId u) (Some key) = Inr q" "leaves u = L1 @ (q, ks', vs') # L2"
      "\<forall>x \<in> fst ` set (leafEntries L1). x < key" "\<forall>x \<in> fst ` set (leafEntries L2). key < x"
      by (elim exE conjE) (rule that)
    have e: "leafEntries (concat (map leaves us)) = concat (map entries us)" for us
      by (simp add: leafEntries_concat comp_def leafEntries_leaves)
    have "leftmostLeaf ops (Suc fuel) s (rootId t) (Some key) = Inr q"
      using page IH(1) sp(4) by (simp add: Node read_page [OF assms(1)])
    moreover have "leaves t = (concat (map leaves ts1) @ L1) @ (q, ks', vs') # (L2 @ concat (map leaves ts2))"
      by (simp add: Node sp(1) IH(2))
    moreover have "\<forall>x \<in> fst ` set (leafEntries (concat (map leaves ts1) @ L1)). x < key"
      using sp(5) IH(3) by (simp only: leafEntries_simps e set_append image_Un) blast
    moreover have "\<forall>x \<in> fst ` set (leafEntries (L2 @ concat (map leaves ts2))). key < x"
      using sp(6) IH(4) by (simp only: leafEntries_simps e set_append image_Un) blast
    ultimately show ?thesis by (intro exI conjI)
  qed
qed simp

lemma leafEnds_ok:
  assumes "ok s" "treeAt ps nx lo hi (view s) t" "height t < fuel"
  shows "leftmostLeaf ops fuel s (rootId t) None = Inr (fst (hd (leaves t)))"
    "rightmostLeaf ops fuel s (rootId t) None = Inr (fst (last (leaves t)))"
proof -
  have "leftmostLeaf ops fuel s (rootId t) None = Inr (fst (hd (leaves t))) \<and>
    rightmostLeaf ops fuel s (rootId t) None = Inr (fst (last (leaves t))) \<and> leaves t \<noteq> []"
    using assms(2,3)
  proof (induction fuel arbitrary: nx lo hi t)
    case (Suc fuel)
    show ?case
    proof (cases t)
      case (Leaf pid ks vs)
      with Suc.prems(1) obtain page where "svPage (view s) pid = Inr page" "pid \<in> svUsed (view s)"
        "page ! 5 = btreeKindLeaf" by (auto elim: treeAt_Leaf)
      then show ?thesis by (simp add: Leaf read_page [OF assms(1)])
    next
      case (Node pid ks ts)
      with Suc.prems(1) obtain page parent where page: "svPage (view s) pid = Inr page" "pid \<in> svUsed (view s)"
        "page ! 5 = btreeKindInternal"
        "parseInternalPage page = Inr \<lparr>inParent = parent, inPtrs = map rootId ts, inKeys = ks\<rparr>"
        "treesOk ps lo hi ks ts"
        by (auto elim: treeAt_Node)
      obtain w ws u us where e: "ts = w # ws" "ts = us @ [u]"
        "map rootId ts ! 0 = rootId w" "map rootId ts ! (length (map rootId ts) - 1) = rootId u"
        by (rule treesOk_ends [OF page(5)])
      have "w \<in> set ts" using e(1) by simp
      from height_child [OF this, of pid ks] have hw: "height w < fuel" using Suc.prems(2) unfolding Node by linarith
      have "u \<in> set ts" using e(2) by simp
      from height_child [OF this, of pid ks] have hu: "height u < fuel" using Suc.prems(2) unfolding Node by linarith
      have tw: "ts = [] @ w # ws" "ts = us @ u # []" using e(1,2) by (simp, simp)
      obtain lo1 hi1 where ok1: "treeOk ps lo1 hi1 w" using treesOk_middle page(5) unfolding tw(1) by blast
      obtain lo2 hi2 where ok2: "treeOk ps lo2 hi2 u" using treesOk_middle page(5) unfolding tw(2) by blast
      obtain nx1 where at1: "treeAt ps nx1 lo1 hi1 (view s) w"
        using treeAt_child [OF _ ok1] Suc.prems(1) unfolding Node tw(1) by blast
      obtain nx2 where at2: "treeAt ps nx2 lo2 hi2 (view s) u"
        using treeAt_child [OF _ ok2] Suc.prems(1) unfolding Node tw(2) by blast
      note IH = Suc.IH [OF at1 hw] Suc.IH [OF at2 hu]
      have lw: "leaves t = leaves w @ concat (map leaves ws)" by (simp add: Node e(1))
      have lu: "leaves t = concat (map leaves us) @ leaves u" by (simp add: Node e(2))
      have "hd (leaves t) = hd (leaves w)" "leaves t \<noteq> []" using IH(1) by (simp_all add: lw)
      moreover have "last (leaves t) = last (leaves u)" using IH(2) by (simp add: lu)
      moreover have "leftmostLeaf ops (Suc fuel) s (rootId t) None = leftmostLeaf ops fuel s (rootId w) None"
        using page(1-4) by (simp add: Node read_page [OF assms(1)] e(3) [simplified])
      moreover have "rightmostLeaf ops (Suc fuel) s (rootId t) None = rightmostLeaf ops fuel s (rootId u) None"
        using page(1-4) by (simp add: Node read_page [OF assms(1)] e(4) [simplified])
      ultimately show ?thesis using IH by (simp only:) simp
    qed
  qed simp
  then show "leftmostLeaf ops fuel s (rootId t) None = Inr (fst (hd (leaves t)))"
    "rightmostLeaf ops fuel s (rootId t) None = Inr (fst (last (leaves t)))" by blast+
qed


subsection \<open>The ascending scan\<close>

lemma scan_join:
  "bindR X (\<lambda>(goOn, acc). if goOn then bindR (F acc) (\<lambda>(goOn, acc). Inr acc) else Inr acc) =
   bindR (bindR X (\<lambda>(goOn, acc). if goOn then F acc else Inr (False, acc))) (\<lambda>(goOn, acc). Inr acc)"
  by (cases X) (auto split: prod.splits)

lemma ascendLeaves_step:
  assumes "ok s" "chain (svPage (view s)) 0 ((pid, ks, vs) # L)" "pid \<in> svUsed (view s)"
  shows "ascendLeaves ops load fn start to (Suc f) s pid started acc =
    bindR (scanEntries load fn (\<lambda>k. case to of None \<Rightarrow> False | Some t \<Rightarrow> t < k)
      (drop (case start of None \<Rightarrow> 0 | Some k \<Rightarrow> if started then 0 else leafKeyIndex ks k) (zip ks vs)) acc)
      (\<lambda>(goOn, acc). if goOn then ascendLeaves ops load fn start to f s (headId 0 L) True acc else Inr acc)"
proof -
  from assms(2) obtain page parent where page: "svPage (view s) pid = Inr page"
    "parseLeafPage page = Inr \<lparr>leafNext = headId 0 L, leafParent = parent, leafKeys = ks, leafVals = vs\<rparr>" by auto
  have "pid \<noteq> 0" using assms(3) used_nonzero [OF assms(1)] by auto
  then show ?thesis
    using page assms(3) by (simp add: read_page [OF assms(1)] Let_def cong: option.case_cong if_cong)
qed

lemma ascendLeaves_ok:
  assumes "ok s" "chain (svPage (view s)) 0 L" "fst ` set L \<subseteq> svUsed (view s)" "length L < fuel"
  shows "ascendLeaves ops load fn start to fuel s (headId 0 L) True acc =
    bindR (scanEntries load fn (\<lambda>k. case to of None \<Rightarrow> False | Some t \<Rightarrow> t < k) (leafEntries L) acc)
      (\<lambda>(goOn, acc). Inr acc)"
  using assms(2-4)
proof (induction L arbitrary: fuel acc)
  case Nil
  then obtain f where "fuel = Suc f" by (cases fuel) auto
  then show ?case by (simp add: headId_def)
next
  case (Cons x L)
  obtain pid ks vs where x: "x = (pid, ks, vs)" by (cases x) auto
  obtain f where f: "fuel = Suc f" "length L < f" using Cons.prems(3) by (cases fuel) auto
  have ch: "chain (svPage (view s)) 0 ((pid, ks, vs) # L)" "pid \<in> svUsed (view s)"
    "chain (svPage (view s)) 0 L" "fst ` set L \<subseteq> svUsed (view s)"
    using Cons.prems(1,2) by (auto simp: x)
  have hd: "headId 0 (x # L) = pid" by (simp add: x headId_def)
  have drop: "drop (case start of None \<Rightarrow> 0 | Some k \<Rightarrow> if True then 0 else leafKeyIndex ks k) (zip ks vs) = zip ks vs"
    by (simp split: option.splits)
  show ?case
    unfolding hd f(1) ascendLeaves_step [OF assms(1) ch(1,2)] drop Cons.IH [OF ch(3,4) f(2)] scan_join
    by (simp add: x scanEntries_append)
qed

lemma ascendLeaves_start:
  assumes "ok s" "chain (svPage (view s)) 0 ((pid, ks, vs) # L)" "fst ` set ((pid, ks, vs) # L) \<subseteq> svUsed (view s)"
    and "length L + 1 < fuel"
  shows "ascendLeaves ops load fn start to fuel s pid False acc =
    bindR (scanEntries load fn (\<lambda>k. case to of None \<Rightarrow> False | Some t \<Rightarrow> t < k)
      (drop (case start of None \<Rightarrow> 0 | Some k \<Rightarrow> leafKeyIndex ks k) (zip ks vs) @ leafEntries L) acc)
      (\<lambda>(goOn, acc). Inr acc)"
proof -
  obtain f where f: "fuel = Suc f" "length L < f" using assms(4) by (cases fuel) auto
  have ch: "pid \<in> svUsed (view s)" "chain (svPage (view s)) 0 L" "fst ` set L \<subseteq> svUsed (view s)"
    using assms(2,3) by auto
  show ?thesis
    unfolding f(1) ascendLeaves_step [OF assms(1,2) ch(1)] ascendLeaves_ok [OF assms(1) ch(2,3) f(2)] scan_join
    by (simp add: scanEntries_append cong: option.case_cong)
qed

lemma filter_split:
  assumes "\<forall>x \<in> fst ` set A. \<not> P x" "\<forall>x \<in> fst ` set C. P x"
  shows "filter (\<lambda>(k, v). P k) (A @ B @ C) = filter (\<lambda>(k, v). P k) B @ C"
proof -
  have "filter (\<lambda>(k, v). P k) A = []" "filter (\<lambda>(k, v). P k) C = C"
    using assms by (force simp: filter_empty_conv filter_id_conv)+
  then show ?thesis by simp
qed

lemma AscendRangeFromRoot_ok:
  assumes "ok s" "treeIn ps (view s) t" "rootId t \<noteq> 0" "height t < fuel" "length (leaves t) < fuel"
  shows "AscendRangeFromRoot ops load fn fuel s (rootId t) start to acc =
    visit load fn (filter (\<lambda>(k, v). inRange start to k) (entries t)) acc"
proof -
  have at: "treeAt ps 0 [] None (view s) t"
    and rep: "rep (svPage (view s)) ps 0 None t" and tok: "treeOk ps [] None t"
    using assms(2) by (simp_all add: treeIn_def treeAt_def)
  let ?low = "\<lambda>k. case start of None \<Rightarrow> True | Some f \<Rightarrow> f \<le> k" and ?beyond = "\<lambda>k. case to of None \<Rightarrow> False | Some t \<Rightarrow> t < k"
  have "\<exists>L1 pid ks vs L2. leftmostLeaf ops fuel s (rootId t) start = Inr pid \<and> leaves t = L1 @ (pid, ks, vs) # L2 \<and>
      (\<forall>x \<in> fst ` set (leafEntries L1). \<not> ?low x) \<and> (\<forall>x \<in> fst ` set (leafEntries L2). ?low x)"
  proof (cases start)
    case None
    have "leaves t \<noteq> []" using rep_chain(1) [OF tok rep] by blast
    then obtain pid ks vs L2 where "leaves t = (pid, ks, vs) # L2" by (cases "leaves t") auto
    with leafEnds_ok(1) [OF assms(1) at assms(4)] None show ?thesis
      by (intro exI [of _ "[]"] exI [of _ pid] exI [of _ ks] exI [of _ vs] exI [of _ L2]) simp
  next
    case (Some k)
    from leafSearch_ok [OF assms(1) at within_all assms(4), of k] obtain L1 pid ks vs L2 where
      "leftmostLeaf ops fuel s (rootId t) (Some k) = Inr pid" "leaves t = L1 @ (pid, ks, vs) # L2"
      "\<forall>x \<in> fst ` set (leafEntries L1). x < k" "\<forall>x \<in> fst ` set (leafEntries L2). k < x"
      by (elim exE conjE) (rule that)
    then show ?thesis unfolding Some
      by (intro exI [of _ L1] exI [of _ pid] exI [of _ ks] exI [of _ vs] exI [of _ L2]) (auto simp: not_le)
  qed
  then obtain L1 pid ks vs L2 where L: "leftmostLeaf ops fuel s (rootId t) start = Inr pid"
    "leaves t = L1 @ (pid, ks, vs) # L2" "\<forall>x \<in> fst ` set (leafEntries L1). \<not> ?low x"
    "\<forall>x \<in> fst ` set (leafEntries L2). ?low x"
    by (elim exE conjE) (rule that)
  have ch: "chain (svPage (view s)) 0 ((pid, ks, vs) # L2)"
    using rep_chain(1) [OF tok rep] unfolding L(2) chain_append by blast
  have used: "fst ` set ((pid, ks, vs) # L2) \<subseteq> svUsed (view s)"
    using leaves_pids [of t] assms(2) unfolding L(2) by (auto simp: treeIn_def)
  have eok: "entriesOk ps ks vs" by (rule leaves_entriesOk(1) [OF tok, of pid]) (simp add: L(2))
  then have d: "drop (case start of None \<Rightarrow> 0 | Some k \<Rightarrow> leafKeyIndex ks k) (zip ks vs) = filter (\<lambda>(k, v). ?low k) (zip ks vs)"
    using zip_keys_filter [of ks vs] by (cases start) (auto simp: entriesOk_def)
  have e: "entries t = leafEntries L1 @ zip ks vs @ leafEntries L2"
    unfolding leafEntries_leaves [symmetric] L(2) by simp
  have sorted: "sorted_wrt (<) (map fst (filter (\<lambda>(k, v). ?low k) (entries t)))"
    using treeOk_sorted(1) [OF tok] by (simp add: sorted_wrt_filter sorted_wrt_map)
  have "length L2 + 1 < fuel" using assms(5) by (simp add: L(2))
  from ascendLeaves_start [OF assms(1) ch used this, of load fn start to acc]
  have "AscendRangeFromRoot ops load fn fuel s (rootId t) start to acc =
      bindR (scanEntries load fn ?beyond (filter (\<lambda>(k, v). ?low k) (entries t)) acc) (\<lambda>(goOn, acc). Inr acc)"
    using L(1) assms(3) by (simp only: AscendRangeFromRoot_def if_False bindR_Inr d e filter_split [OF L(3,4)])
  also have "\<dots> = visit load fn (filter (\<lambda>(k, v). \<not> ?beyond k) (filter (\<lambda>(k, v). ?low k) (entries t))) acc"
    unfolding scanEntries_visit
    by (subst takeWhile_filter_up [OF sorted]) (auto split: option.splits)
  also have "filter (\<lambda>(k, v). \<not> ?beyond k) (filter (\<lambda>(k, v). ?low k) (entries t)) =
      filter (\<lambda>(k, v). inRange start to k) (entries t)"
    by (auto simp: inRange_def not_less intro!: filter_cong split: option.splits)
  finally show ?thesis .
qed

end

subsection \<open>The descending scan\<close>

text \<open>
  \<open>below t u bef d\<close>: \<open>u\<close> occurs in \<open>t\<close> at depth \<open>d\<close>, and \<open>bef\<close> are the
  leaves to its left.
\<close>

inductive below :: "btree \<Rightarrow> btree \<Rightarrow> (uint64 \<times> bytes list \<times> bytes list) list \<Rightarrow> nat \<Rightarrow> bool" for t where
  here: "below t t [] 0"
| down: "below t (Node pid ks (ts1 @ u # ts2)) bef d \<Longrightarrow> below t u (bef @ concat (map leaves ts1)) (Suc d)"

lemma below_down:
  "below t (Node pid ks ts) bef d \<Longrightarrow> ts = ts1 @ u # ts2 \<Longrightarrow> below t u (bef @ concat (map leaves ts1)) (Suc d)"
  by (auto intro: below.down)

lemma concat_split:
  "concat xss = L @ x # M \<Longrightarrow> \<exists>xss1 ys xss2 L' M'. xss = xss1 @ ys # xss2 \<and> ys = L' @ x # M' \<and> L = concat xss1 @ L'"
proof (induction xss arbitrary: L)
  case (Cons xs xss)
  then consider L' where "L = xs @ L'" "concat xss = L' @ x # M" | M' where "xs = L @ x # M'"
    by (auto simp: append_eq_append_conv2 append_eq_Cons_conv)
  then show ?case
  proof cases
    case 1
    from Cons.IH [OF 1(2)] obtain xss1 ys xss2 K M' where
      "xss = xss1 @ ys # xss2" "ys = K @ x # M'" "L' = concat xss1 @ K" by blast
    then show ?thesis using 1(1)
      by (intro exI [of _ "xs # xss1"] exI [of _ ys] exI [of _ xss2] exI [of _ K] exI [of _ M']) simp
  next
    case 2
    then show ?thesis
      by (intro exI [of _ "[]"] exI [of _ xs] exI [of _ xss] exI [of _ L] exI [of _ M']) simp
  qed
qed simp

lemma leaves_below:
  assumes "below t u bef d" "leaves u = L @ (pid, ks, vs) # M"
  shows "\<exists>d'. below t (Leaf pid ks vs) (bef @ L) d'"
  using assms
proof (induction u arbitrary: bef d L M)
  case (Leaf q ks' vs')
  then have "L = []" "q = pid" "ks' = ks" "vs' = vs" by (cases L; simp)+
  then show ?case using Leaf.prems(1) by auto
next
  case (Node q ks' ts)
  then have "concat (map leaves ts) = L @ (pid, ks, vs) # M" by simp
  from concat_split [OF this] obtain xss1 ys xss2 L' M' where sp: "map leaves ts = xss1 @ ys # xss2"
    "ys = L' @ (pid, ks, vs) # M'" "L = concat xss1 @ L'" by blast
  from sp(1) obtain ts1 v ts2 where ts: "ts = ts1 @ v # ts2" "xss1 = map leaves ts1" "ys = leaves v"
    by (auto simp: map_eq_append_conv map_eq_Cons_conv)
  have v: "v \<in> set ts" using ts(1) by simp
  from Node.IH [OF v below_down [OF Node.prems(1) ts(1)]] sp(2) ts(2,3) show ?case by (simp add: sp(3))
qed

lemma rep_parent_unique:
  "rep rd ps nx (Some a) t \<Longrightarrow> rep rd ps nx' (Some b) t \<Longrightarrow> a = b"
  by (cases t) (auto simp: leafAt_def nodeAt_def)

lemma below_facts:
  assumes "below t u bef d" "treeAt ps nx lo hi V t" "distinct (pids t)"
  shows "(\<exists>nx lo hi. treeAt ps nx lo hi V u) \<and> distinct (pids u) \<and> height u + d \<le> height t \<and>
    (0 < d \<longrightarrow> rootId t \<notin> set (pids u))"
  using assms(1)
proof (induction rule: below.induct)
  case here
  show ?case using assms(2,3) by auto
next
  case (down pid ks ts1 u ts2 bef d)
  then obtain nx lo hi where N: "treeAt ps nx lo hi V (Node pid ks (ts1 @ u # ts2))" by blast
  then have "treesOk ps lo hi ks (ts1 @ u # ts2)" by (simp add: treeAt_def)
  from treesOk_middle [OF this] obtain lo' hi' where "treeOk ps lo' hi' u" by blast
  from treeAt_child [OF N this] have "\<exists>nx lo hi. treeAt ps nx lo hi V u" by blast
  moreover have "height u < height (Node pid ks (ts1 @ u # ts2))" by (rule height_child) simp
  moreover have "rootId t \<notin> set (pids u)"
  proof (cases d)
    case 0
    with down(1) have "t = Node pid ks (ts1 @ u # ts2)" by (auto elim: below.cases)
    then show ?thesis using assms(3) by auto
  next
    case (Suc n)
    then show ?thesis using down by auto
  qed
  ultimately show ?case using down by auto
qed

lemma ptrIndex_middle:
  assumes "distinct (map rootId (ts1 @ u # ts2))"
  shows "ptrIndex (map rootId (ts1 @ u # ts2)) (rootId u) = Some (length ts1)"
  using assms by (induction ts1) auto

lemma distinct_rootIds: "distinct (concat (map pids ts)) \<Longrightarrow> distinct (map rootId ts)"
proof (induction ts)
  case (Cons t ts)
  have "rootId t \<notin> set (map rootId ts)"
    using Cons.prems pids_rootId [of t] rootIds_pids [of ts] by auto
  with Cons show ?case by simp
qed simp

context page_store
begin

lemma prevLeaf_ok:
  assumes "ok s" "treeAt ps 0 [] None (view s) t" "distinct (pids t)" "below t u bef d"
    and "d = 0 \<or> rep (svPage (view s)) ps nx (Some par) u" "height t + d + 1 < fuel"
  shows "prevLeaf ops fuel s (rootId u) par (rootId t) = Inr (if bef = [] then 0 else fst (last bef))"
  using assms(4-6)
proof (induction arbitrary: nx par fuel rule: below.induct)
  case here
  then show ?case by (cases fuel) simp_all
next
  case (down pid ks ts1 u ts2 bef d)
  let ?N = "Node pid ks (ts1 @ u # ts2)"
  obtain f where f: "fuel = Suc f" "height t + d + 1 < f" using down.prems(2) by (cases fuel) auto
  from below_facts [OF down.hyps assms(2,3)] obtain nx' lo hi where N: "treeAt ps nx' lo hi (view s) ?N"
    "distinct (pids ?N)" "height ?N + d \<le> height t" by blast
  obtain page parent where page: "svPage (view s) pid = Inr page" "pid \<in> svUsed (view s)"
    "parseInternalPage page = Inr \<lparr>inParent = parent, inPtrs = map rootId (ts1 @ u # ts2), inKeys = ks\<rparr>"
    "rep (svPage (view s)) ps nx' (Some parent) ?N" "treesOk ps lo hi ks (ts1 @ u # ts2)"
    by (rule treeAt_Node [OF N(1)])
  have "\<exists>nx''. rep (svPage (view s)) ps nx'' (Some pid) u"
    using N(1) by (auto simp: treeAt_def reps_append)
  then have par: "par = pid" using rep_parent_unique down.prems(1) by fastforce
  have nz: "pid \<noteq> 0" using page(2) used_nonzero [OF assms(1)] by auto
  have "rootId t \<noteq> rootId u"
    using below_facts [OF below.down [OF down.hyps] assms(2,3)] pids_rootId [of u] by auto
  moreover have "ptrIndex (map rootId (ts1 @ u # ts2)) (rootId u) = Some (length ts1)"
    by (rule ptrIndex_middle, rule distinct_rootIds) (use N(2) in simp)
  ultimately have step: "prevLeaf ops fuel s (rootId u) par (rootId t) =
      (case length ts1 of 0 \<Rightarrow> prevLeaf ops f s pid parent (rootId t)
       | Suc i \<Rightarrow> rightmostLeaf ops f s (map rootId (ts1 @ u # ts2) ! i) None)"
    using page(1-3) nz by (simp add: f(1) par read_page [OF assms(1)] cong: nat.case_cong)
  show ?case
  proof (cases ts1 rule: rev_cases)
    case Nil
    from down.IH [OF disjI2 [OF page(4)] f(2)] show ?thesis by (simp add: step Nil)
  next
    case (snoc ws w)
    have tw: "ts1 @ u # ts2 = ws @ w # u # ts2" by (simp add: snoc)
    from treesOk_middle [OF page(5) [unfolded tw]] obtain lo' hi' where wok: "treeOk ps lo' hi' w" by blast
    obtain nxw where w: "treeAt ps nxw lo' hi' (view s) w" using treeAt_child [OF N(1) [unfolded tw] wok] by blast
    have "height w < height ?N" by (rule height_child) (simp add: snoc)
    then have h: "height w < f" using N(3) f(2) by linarith
    have "leaves w \<noteq> []" using rep_chain(1) w by (auto simp: treeAt_def)
    moreover have "map rootId (ts1 @ u # ts2) ! length ws = rootId w" by (simp add: snoc nth_append)
    ultimately show ?thesis
      using leafEnds_ok(2) [OF assms(1) w h] by (simp add: step) (simp add: snoc)
  qed
qed


lemma descendLeaves_step:
  assumes "ok s" "treeAt ps 0 [] None (view s) t" "distinct (pids t)" "leaves t = L @ (pid, ks, vs) # M"
    and "2 * height t + 1 < depth"
  shows "descendLeaves ops load fn start to depth (Suc f) s (rootId t) pid acc =
    bindR (scanEntries load fn (\<lambda>k. case start of None \<Rightarrow> False | Some f \<Rightarrow> k < f)
      (rev (filter (\<lambda>(k, v). case to of None \<Rightarrow> True | Some t \<Rightarrow> k \<le> t) (zip ks vs))) acc)
      (\<lambda>(goOn, acc). if goOn
        then descendLeaves ops load fn start to depth f s (rootId t) (if L = [] then 0 else fst (last L)) acc
        else Inr acc)"
proof -
  from leaves_below [OF below.here assms(4)] obtain d where d: "below t (Leaf pid ks vs) L d" by auto
  note facts = below_facts [OF d assms(2,3)]
  from facts obtain nx lo hi where leaf: "treeAt ps nx lo hi (view s) (Leaf pid ks vs)" by blast
  obtain page parent where page: "svPage (view s) pid = Inr page" "pid \<in> svUsed (view s)"
    "parseLeafPage page = Inr \<lparr>leafNext = nx, leafParent = parent, leafKeys = ks, leafVals = vs\<rparr>" "entriesOk ps ks vs"
    by (rule treeAt_Leaf [OF leaf])
  have len: "length page = ps"
    using leaf page(1) by (auto simp: treeAt_def leafAt_def)
  have rep: "rep (svPage (view s)) ps nx (Some parent) (Leaf pid ks vs)"
    using page(1,3) len by (simp add: leafAt_def)
  have "height t + d + 1 < depth" using facts assms(5) by auto
  note prev = prevLeaf_ok [OF assms(1-3) d disjI2 [OF rep] this]
  have "pid \<noteq> 0" using page(2) used_nonzero [OF assms(1)] by auto
  moreover have "take (endIndex to ks) (zip ks vs) = filter (\<lambda>(k, v). case to of None \<Rightarrow> True | Some t \<Rightarrow> k \<le> t) (zip ks vs)"
    using page(4) by (intro endIndex_filter) (simp_all add: entriesOk_def)
  ultimately show ?thesis
    using page(1-3) prev by (simp add: read_page [OF assms(1)] cong: if_cong)
qed

lemma descendLeaves_ok:
  assumes "ok s" "treeAt ps 0 [] None (view s) t" "distinct (pids t)" "leaves t = L @ M"
    and "2 * height t + 1 < depth" "length L < fuel"
  shows "descendLeaves ops load fn start to depth fuel s (rootId t) (if L = [] then 0 else fst (last L)) acc =
    bindR (scanEntries load fn (\<lambda>k. case start of None \<Rightarrow> False | Some f \<Rightarrow> k < f)
      (rev (filter (\<lambda>(k, v). case to of None \<Rightarrow> True | Some t \<Rightarrow> k \<le> t) (leafEntries L))) acc)
      (\<lambda>(goOn, acc). Inr acc)"
  using assms(4,6)
proof (induction L arbitrary: M fuel acc rule: rev_induct)
  case Nil
  then show ?case by (cases fuel) simp_all
next
  case (snoc x L)
  obtain pid ks vs where x: "x = (pid, ks, vs)" by (cases x) auto
  obtain f where f: "fuel = Suc f" "length L < f" using snoc.prems(2) by (cases fuel) auto
  have l: "leaves t = L @ (pid, ks, vs) # M" using snoc.prems(1) by (simp add: x)
  have hd: "(if L @ [x] = [] then 0 else fst (last (L @ [x]))) = pid" by (simp add: x)
  show ?case
    unfolding hd f(1) descendLeaves_step [OF assms(1-3) l assms(5)] snoc.IH [OF l f(2)] scan_join
    by (simp add: x scanEntries_append)
qed

lemma DescendRangeFromRoot_ok:
  assumes "ok s" "treeIn ps (view s) t" "rootId t \<noteq> 0" "2 * height t + 1 < fuel" "length (leaves t) < fuel"
  shows "DescendRangeFromRoot ops load fn fuel s (rootId t) start to acc =
    visit load fn (rev (filter (\<lambda>(k, v). inRange start to k) (entries t))) acc"
proof -
  have at: "treeAt ps 0 [] None (view s) t" and dis: "distinct (pids t)"
    and rep: "rep (svPage (view s)) ps 0 None t" and tok: "treeOk ps [] None t"
    using assms(2) by (simp_all add: treeIn_def treeAt_def)
  let ?high = "\<lambda>k. case to of None \<Rightarrow> True | Some t \<Rightarrow> k \<le> t" and ?beyond = "\<lambda>k. case start of None \<Rightarrow> False | Some f \<Rightarrow> k < f"
  have h: "height t < fuel" using assms(4) by simp
  have "\<exists>L M. rightmostLeaf ops fuel s (rootId t) to = Inr (fst (last L)) \<and> leaves t = L @ M \<and> L \<noteq> [] \<and>
      (\<forall>x \<in> fst ` set (leafEntries M). \<not> ?high x)"
  proof (cases to)
    case None
    have "leaves t \<noteq> []" using rep_chain(1) [OF tok rep] by blast
    with leafEnds_ok(2) [OF assms(1) at h] None show ?thesis
      by (intro exI [of _ "leaves t"] exI [of _ "[]"]) simp
  next
    case (Some k)
    from leafSearch_ok [OF assms(1) at within_all h, of k] obtain L1 pid ks vs L2 where
      "leftmostLeaf ops fuel s (rootId t) (Some k) = Inr pid" "leaves t = L1 @ (pid, ks, vs) # L2"
      "\<forall>x \<in> fst ` set (leafEntries L1). x < k" "\<forall>x \<in> fst ` set (leafEntries L2). k < x"
      by (elim exE conjE) (rule that)
    then show ?thesis unfolding Some rightmostLeaf_Some
      by (intro exI [of _ "L1 @ [(pid, ks, vs)]"] exI [of _ L2]) (auto simp: not_le)
  qed
  then obtain L M where L: "rightmostLeaf ops fuel s (rootId t) to = Inr (fst (last L))"
    "leaves t = L @ M" "L \<noteq> []" "\<forall>x \<in> fst ` set (leafEntries M). \<not> ?high x"
    by (elim exE conjE) (rule that)
  have e: "filter (\<lambda>(k, v). ?high k) (leafEntries L) = filter (\<lambda>(k, v). ?high k) (entries t)"
    using filter_split [of "leafEntries M" ?high "[]" "[]"] L(4)
    unfolding leafEntries_leaves [symmetric] L(2) by simp
  have sorted: "sorted_wrt (<) (map fst (filter (\<lambda>(k, v). ?high k) (entries t)))"
    using treeOk_sorted(1) [OF tok] by (simp add: sorted_wrt_filter sorted_wrt_map)
  have "length L < fuel" using assms(5) by (simp add: L(2))
  from descendLeaves_ok [OF assms(1) at dis L(2) assms(4) this, of load fn start to acc] L(3)
  have "DescendRangeFromRoot ops load fn fuel s (rootId t) start to acc =
      bindR (scanEntries load fn ?beyond (rev (filter (\<lambda>(k, v). ?high k) (entries t))) acc) (\<lambda>(goOn, acc). Inr acc)"
    using L(1) assms(3) by (simp only: DescendRangeFromRoot_def if_False bindR_Inr e)
  also have "\<dots> = visit load fn (rev (filter (\<lambda>(k, v). \<not> ?beyond k) (filter (\<lambda>(k, v). ?high k) (entries t)))) acc"
    unfolding scanEntries_visit
    by (subst takeWhile_filter_down [OF sorted]) (auto split: option.splits)
  also have "filter (\<lambda>(k, v). \<not> ?beyond k) (filter (\<lambda>(k, v). ?high k) (entries t)) =
      filter (\<lambda>(k, v). inRange start to k) (entries t)"
    by (auto simp: inRange_def not_less intro!: filter_cong split: option.splits)
  finally show ?thesis .
qed

end

end
