(* ===== verification/EngineStore.thy ===== *)
theory EngineStore
  imports WalRecovery BTreeRead FreelistFormat
begin

text \<open>
  The engine in memory: \<open>internal/engine/engine.go\<close> (headers, page reads and writes),
  \<open>hooks.go\<close>, the write transaction of \<open>writetxn.go\<close> and the page allocator of
  \<open>btree.go\<close> and \<open>freelist.go\<close>, on an open engine with the page cache off. The disk is that of \<open>WalRecovery\<close>; its
  calls do not fail here. What a page that was never written reads as (end of file, or zeros in a
  hole of the file) is the parameter \<open>envUnwritten\<close>. The last section shows that the engine
  inside a write transaction is the page store the B+ tree relies on.
\<close>

subsection \<open>State\<close>

record pageHooks =
  PhysicalPageOverhead :: nat
  BeforeWrite :: "(uint64 \<Rightarrow> bytes \<Rightarrow> engine_error + bytes) option"
  BeforeWriteVersioned :: "(uint64 \<Rightarrow> uint64 \<Rightarrow> bytes \<Rightarrow> engine_error + bytes) option"
  AfterRead :: "(uint64 \<Rightarrow> bytes \<Rightarrow> engine_error + bytes) option"

definition transformWrite :: "pageHooks \<Rightarrow> uint64 \<Rightarrow> uint64 \<Rightarrow> bytes \<Rightarrow> engine_error + bytes" where
  "transformWrite h pageID generation b =
     (case BeforeWriteVersioned h of
        Some f \<Rightarrow> f pageID generation b
      | None \<Rightarrow> (case BeforeWrite h of None \<Rightarrow> Inr b | Some f \<Rightarrow> f pageID b))"

definition transformRead :: "pageHooks \<Rightarrow> uint64 \<Rightarrow> bytes \<Rightarrow> engine_error + bytes" where
  "transformRead h pageID b = (case AfterRead h of None \<Rightarrow> Inr b | Some f \<Rightarrow> f pageID b)"

text \<open>What does not change while the engine is open, and what does.\<close>

record engineEnv =
  envHmac :: hmac
  envHooks :: pageHooks
  envDisk :: diskConfig
  envPageReuse :: bool
  envGroupWAL :: bool
  envMaxValueBytes :: uint32
  envUnwritten :: "uint64 \<Rightarrow> engine_error + bytes"

abbreviation envPageSize :: "engineEnv \<Rightarrow> nat" where "envPageSize env \<equiv> dcPageSize (envDisk env)"
abbreviation envPhysical :: "engineEnv \<Rightarrow> nat" where "envPhysical env \<equiv> dcPhysical (envDisk env)"

record writeTxn =
  txHdr :: Header
  txPending :: "pendingRedo list"
  txDirty :: "uint64 \<Rightarrow> bytes option"
  txFreePageIDs :: "uint64 list"
  txFreePageSet :: "uint64 set"
  txFreelistPageIDs :: "uint64 list"
  txFreelistDirty :: bool

record engine =
  egDisk :: disk
  egLastSeq :: uint64
  egNextWALSeq :: uint64
  egLastPageID :: uint64
  egLastPageGeneration :: uint64
  egOverlay :: "uint64 \<Rightarrow> bytes option"
  egUnflushed :: "Header option"
  egWtxn :: "writeTxn option"
  egWasted :: uint64

subsection \<open>Headers\<close>

definition readDiskHeader :: "engineEnv \<Rightarrow> engine \<Rightarrow> engine_error + Header" where
  "readDiskHeader env s =
     bindR (readHeaderAt (pHeader (dPrimary (egDisk s))) (envPageSize env)) (\<lambda>hdr.
       if dcHeaderMAC (envDisk env) \<and> \<not> verifyHeaderAuthentication (envHmac env) hdr (dcHeaderKey (envDisk env))
       then Inl ErrPageAuthentication else Inr hdr)"

definition visibleHeader :: "engineEnv \<Rightarrow> engine \<Rightarrow> engine_error + Header" where
  "visibleHeader env s =
     (case egWtxn s of
        Some txn \<Rightarrow> Inr (txHdr txn)
      | None \<Rightarrow> bindR (readDiskHeader env s) (\<lambda>d.
          case egUnflushed s of
            Some g \<Rightarrow> if LastWALSeq g > LastWALSeq d then Inr g else Inr d
          | None \<Rightarrow> Inr d))"

definition writeHeader :: "engineEnv \<Rightarrow> Header \<Rightarrow> engine \<Rightarrow> engine" where
  "writeHeader env hdr s =
     s\<lparr>egDisk := diskStep (HeaderWrite (headerOnDisk (envHmac env) hdr (dcHeaderKey (envDisk env))
        (dcHeaderMAC (envDisk env)))) (egDisk s)\<rparr>"

text \<open>The generation of the last redo of the root page, if there is one.\<close>

definition refreshRootGeneration :: "pendingRedo list \<Rightarrow> Header \<Rightarrow> Header" where
  "refreshRootGeneration pending hdr =
     (if BTreeRoot hdr = 0 then hdr\<lparr>BTreeRootGeneration := 0\<rparr>
      else case find (\<lambda>p. prPageID p = BTreeRoot hdr) (rev pending) of
        None \<Rightarrow> hdr
      | Some p \<Rightarrow> hdr\<lparr>BTreeRootGeneration := prSeq p\<rparr>)"

definition UpdateHeaderGet :: "engineEnv \<Rightarrow> (Header \<Rightarrow> Header) \<Rightarrow> engine \<Rightarrow> engine_error + Header \<times> engine" where
  "UpdateHeaderGet env mut s =
     (case egWtxn s of
        Some txn \<Rightarrow>
          let hdr = refreshRootGeneration (txPending txn) (mut (txHdr txn))
          in Inr (hdr, s\<lparr>egWtxn := Some (txn\<lparr>txHdr := hdr\<rparr>)\<rparr>)
      | None \<Rightarrow> bindR (readDiskHeader env s) (\<lambda>hdr.
          let hdr = mut hdr;
              hdr = (if BTreeRoot hdr = 0 then hdr\<lparr>BTreeRootGeneration := 0\<rparr>
                     else if BTreeRoot hdr = egLastPageID s
                     then hdr\<lparr>BTreeRootGeneration := egLastPageGeneration s\<rparr> else hdr)
          in Inr (hdr, writeHeader env hdr s)))"

definition UpdateHeader :: "engineEnv \<Rightarrow> (Header \<Rightarrow> Header) \<Rightarrow> engine \<Rightarrow> engine_error + engine" where
  "UpdateHeader env mut s = mapR snd (UpdateHeaderGet env mut s)"

subsection \<open>Reading pages\<close>

definition validateRootPageGeneration :: "engineEnv \<Rightarrow> engine \<Rightarrow> uint64 \<Rightarrow> bytes \<Rightarrow> engine_error + unit" where
  "validateRootPageGeneration env s pageID physical =
     (if \<not> dcHeaderMAC (envDisk env) \<or> pageID = 0 then Inr ()
      else bindR (visibleHeader env s) (\<lambda>hdr.
        if pageID \<noteq> BTreeRoot hdr then Inr ()
        else if length physical < 8 \<or> Uint64 (take 8 physical) \<noteq> BTreeRootGeneration hdr
        then Inl ErrPageAuthentication else Inr ()))"

definition pooledTransformRead :: "engineEnv \<Rightarrow> engine \<Rightarrow> uint64 \<Rightarrow> bytes \<Rightarrow> engine_error + bytes" where
  "pooledTransformRead env s pageID src =
     (if length src > max (envPageSize env) (envPhysical env) then Inl ErrBadPageSize
      else bindR (validateRootPageGeneration env s pageID src) (\<lambda>_.
           bindR (transformRead (envHooks env) pageID src) (\<lambda>out.
             if 1 \<le> pageID \<and> length out \<noteq> envPageSize env then Inl ErrBadPageSize else Inr out)))"

definition readPageFromDisk :: "engineEnv \<Rightarrow> engine \<Rightarrow> uint64 \<Rightarrow> engine_error + bytes" where
  "readPageFromDisk env s pageID =
     bindR (pageByteOffset pageID (envPageSize env) (envPhysical env)) (\<lambda>off.
     bindR (case pPages (dPrimary (egDisk s)) pageID of None \<Rightarrow> envUnwritten env pageID | Some p \<Rightarrow> Inr p) (\<lambda>buf.
     bindR (validateRootPageGeneration env s pageID buf) (\<lambda>_.
     bindR (transformRead (envHooks env) pageID buf) (\<lambda>out.
       if length out \<noteq> envPageSize env then Inl ErrBadPageSize else Inr out))))"

definition readPagePooled :: "engineEnv \<Rightarrow> engine \<Rightarrow> uint64 \<Rightarrow> engine_error + bytes" where
  "readPagePooled env s pageID =
     (case egWtxn s of
        Some txn \<Rightarrow>
          if pageID = 0 then pooledTransformRead env s 0 (encodeHeaderPage (txHdr txn))
          else (case txDirty txn pageID of
                  Some plain \<Rightarrow> pooledTransformRead env s pageID plain
                | None \<Rightarrow> readPageFromDisk env s pageID)
      | None \<Rightarrow>
          if pageID = 0
          then bindR (visibleHeader env s) (\<lambda>vh. pooledTransformRead env s 0 (encodeHeaderPage vh))
          else (case egOverlay s pageID of
                  Some plain \<Rightarrow> pooledTransformRead env s pageID plain
                | None \<Rightarrow> readPageFromDisk env s pageID))"

subsection \<open>Writing pages\<close>

definition writePrimaryData :: "engineEnv \<Rightarrow> pendingRedo \<Rightarrow> engine \<Rightarrow> engine_error + engine" where
  "writePrimaryData env p s =
     (if length (prPlain p) \<noteq> envPhysical env then Inl ErrBadPageSize
      else bindR (pageByteOffset (prPageID p) (envPageSize env) (envPhysical env)) (\<lambda>off.
        Inr (s\<lparr>egDisk := diskStep (PageWrite p) (egDisk s)\<rparr>)))"

text \<open>The header update of one written page.\<close>

definition pageWritten :: "uint64 \<Rightarrow> uint64 \<Rightarrow> Header \<Rightarrow> Header" where
  "pageWritten pageID seq hdr =
     (let hdr = (if pageID = BTreeRoot hdr then hdr\<lparr>BTreeRootGeneration := seq\<rparr> else hdr)
      in if pageID + 1 > NextPageID hdr then hdr\<lparr>NextPageID := pageID + 1\<rparr> else hdr)"

definition persistRedoPage :: "engineEnv \<Rightarrow> pendingRedo \<Rightarrow> engine \<Rightarrow> engine_error + engine" where
  "persistRedoPage env p s =
     bindR (writePrimaryData env p s) (\<lambda>s.
     bindR (readDiskHeader env s) (\<lambda>hdr.
       Inr ((writeHeader env (pageWritten (prPageID p) (prSeq p) (hdr\<lparr>LastWALSeq := prSeq p\<rparr>)) s)
         \<lparr>egLastSeq := prSeq p, egLastPageID := prPageID p, egLastPageGeneration := prSeq p\<rparr>)))"

definition walWrite :: "engineEnv \<Rightarrow> bytes \<Rightarrow> engine \<Rightarrow> engine" where
  "walWrite env rec s = s\<lparr>egDisk := diskStep (WalWrite rec) (egDisk s)\<rparr>"

text \<open>A sequence number is used up even when the write is refused.\<close>

definition writePageWithGeneration ::
  "engineEnv \<Rightarrow> uint64 \<Rightarrow> bytes \<Rightarrow> engine \<Rightarrow> engine_error + uint64 \<times> engine" where
  "writePageWithGeneration env pageID data s =
     (if pageID < 1 then Inl ErrBadPageID
      else if length data \<noteq> envPageSize env then Inl ErrBadPageSize
      else let seq = egNextWALSeq s + 1; s = s\<lparr>egNextWALSeq := seq\<rparr>
      in bindR (transformWrite (envHooks env) pageID seq data) (\<lambda>plain.
        if length plain \<noteq> envPhysical env then Inl ErrBadPageSize
        else let redo = \<lparr>prSeq = seq, prPageID = pageID, prPlain = plain\<rparr>
        in case egWtxn s of
          Some txn \<Rightarrow>
            Inr (seq, s\<lparr>egWtxn := Some (txn\<lparr>txPending := txPending txn @ [redo],
                   txDirty := (txDirty txn)(pageID \<mapsto> plain), txHdr := pageWritten pageID seq (txHdr txn)\<rparr>)\<rparr>)
        | None \<Rightarrow>
            bindR (redoRecord (envHmac env) (envDisk env) seq pageID plain) (\<lambda>rec.
            let s = walWrite env rec s
            in bindR (if dcHeaderMAC (envDisk env)
                      then bindR (readDiskHeader env s) (\<lambda>hdr.
                           bindR (encodeHeaderWALRecord (envHmac env) (envDisk env)
                                   (pageWritten pageID seq (hdr\<lparr>LastWALSeq := seq\<rparr>))) (\<lambda>marker.
                             Inr (walWrite env marker s)))
                      else Inr s) (\<lambda>s.
               bindR (persistRedoPage env redo s) (\<lambda>s. Inr (seq, s))))))"

definition WritePage :: "engineEnv \<Rightarrow> uint64 \<Rightarrow> bytes \<Rightarrow> engine \<Rightarrow> engine_error + engine" where
  "WritePage env pageID data s = mapR snd (writePageWithGeneration env pageID data s)"

subsection \<open>The page allocator\<close>

definition withTxn :: "writeTxn \<Rightarrow> engine \<Rightarrow> engine" where
  "withTxn txn s = s\<lparr>egWtxn := Some txn\<rparr>"

definition allocateReusablePageID :: "engineEnv \<Rightarrow> engine \<Rightarrow> (uint64 \<times> engine) option" where
  "allocateReusablePageID env s =
     (case egWtxn s of
        None \<Rightarrow> None
      | Some txn \<Rightarrow>
          if \<not> envPageReuse env \<or> FormatVersion (txHdr txn) \<noteq> formatVersionV3 then None
          else case txFreePageIDs txn of
            [] \<Rightarrow> None
          | pageID # rest \<Rightarrow>
              Some (pageID, withTxn (txn\<lparr>txFreePageIDs := rest, txFreePageSet := txFreePageSet txn - {pageID},
                      txFreelistDirty := True\<rparr>) s))"

definition allocPageID :: "engineEnv \<Rightarrow> engine \<Rightarrow> engine_error + uint64 \<times> engine" where
  "allocPageID env s =
     (case allocateReusablePageID env s of
        Some r \<Rightarrow> Inr r
      | None \<Rightarrow> bindR (visibleHeader env s) (\<lambda>hdr.
          Inr (NextPageID hdr,
            case egWtxn s of
              Some txn \<Rightarrow>
                if FormatVersion hdr = formatVersionV3
                then withTxn (txn\<lparr>txHdr := (txHdr txn)\<lparr>NextPageID := NextPageID (txHdr txn) + 1\<rparr>\<rparr>) s
                else s
            | None \<Rightarrow> s)))"

definition releasePageID :: "engineEnv \<Rightarrow> uint64 \<Rightarrow> engine \<Rightarrow> engine_error + engine" where
  "releasePageID env pageID s =
     (case egWtxn s of
        None \<Rightarrow> Inr s
      | Some txn \<Rightarrow>
          if \<not> envPageReuse env \<or> FormatVersion (txHdr txn) \<noteq> formatVersionV3 then Inr s
          else if pageID = 0 \<or> pageID \<ge> NextPageID (txHdr txn) then Inl (ErrCorruptTree ''cannot release page'')
          else if pageID \<in> txFreePageSet txn then Inl (ErrCorruptTree ''duplicate release of page'')
          else if pageID \<in> set (txFreelistPageIDs txn)
          then Inl (ErrCorruptTree ''cannot release active freelist page'')
          else Inr (withTxn (txn\<lparr>txFreePageSet := insert pageID (txFreePageSet txn),
                 txFreePageIDs := txFreePageIDs txn @ [pageID], txFreelistDirty := True\<rparr>) s))"

definition authenticatedTxn :: "engine \<Rightarrow> bool" where
  "authenticatedTxn s = (case egWtxn s of None \<Rightarrow> False | Some txn \<Rightarrow> FormatVersion (txHdr txn) = formatVersionV3)"

text \<open>The contiguous reservation of the legacy formats: its first id.\<close>

definition reservePages :: "engineEnv \<Rightarrow> nat \<Rightarrow> engine \<Rightarrow> engine_error + uint64 \<times> engine" where
  "reservePages env n s =
     bindR (visibleHeader env s) (\<lambda>hdr.
       let firstID = NextPageID hdr
       in bindR (UpdateHeader env (\<lambda>h. h\<lparr>NextPageID := firstID + of_nat n\<rparr>) s) (\<lambda>s. Inr (firstID, s)))"

text \<open>The operations of \<open>PageStore\<close>.\<close>

definition engineOps :: "engineEnv \<Rightarrow> engine pageOps" where
  "engineOps env = \<lparr>opPageSize = envPageSize env, opMaxValueBytes = envMaxValueBytes env,
     opRead = readPagePooled env, opWrite = WritePage env,
     opRoot = (\<lambda>s. mapR BTreeRoot (visibleHeader env s)),
     opSetRoot = (\<lambda>r. UpdateHeader env (\<lambda>h. h\<lparr>BTreeRoot := r\<rparr>)), opAlloc = allocPageID env,
     opAuthenticated = authenticatedTxn, opReserve = reservePages env,
     opRelease = releasePageID env, opWaste = (\<lambda>n s. s\<lparr>egWasted := egWasted s + of_nat n\<rparr>)\<rparr>"

subsection \<open>The engine in a write transaction\<close>

text \<open>
  What the engine relies on from the page hooks (the plain hooks, and the encrypting ones of
  the database): reading back what was written gives the page, and an authenticated page starts
  with the generation it was written under.
\<close>

definition hooksOk :: "engineEnv \<Rightarrow> bool" where
  "hooksOk env \<longleftrightarrow> (\<forall>pageID generation data. pageID \<noteq> 0 \<longrightarrow> length data = envPageSize env \<longrightarrow>
     (\<exists>out. transformWrite (envHooks env) pageID generation data = Inr out \<and> length out = envPhysical env \<and>
       transformRead (envHooks env) pageID out = Inr data \<and>
       (dcHeaderMAC (envDisk env) \<longrightarrow> 8 \<le> length out \<and> Uint64 (take 8 out) = generation)))"

definition envOk :: "engineEnv \<Rightarrow> bool" where
  "envOk env \<longleftrightarrow> validPs (envPageSize env) \<and> hooksOk env"

text \<open>The bytes a page id stands for, before the hooks.\<close>

definition physicalPage :: "engineEnv \<Rightarrow> engine \<Rightarrow> writeTxn \<Rightarrow> uint64 \<Rightarrow> engine_error + bytes" where
  "physicalPage env s txn pageID =
     (case txDirty txn pageID of
        Some plain \<Rightarrow> Inr plain
      | None \<Rightarrow> (case pPages (dPrimary (egDisk s)) pageID of None \<Rightarrow> envUnwritten env pageID | Some p \<Rightarrow> Inr p))"

definition freeOk :: "writeTxn \<Rightarrow> bool" where
  "freeOk txn \<longleftrightarrow> distinct (txFreePageIDs txn) \<and> set (txFreePageIDs txn) = txFreePageSet txn \<and>
     distinct (txFreelistPageIDs txn) \<and>
     (\<forall>p \<in> txFreePageSet txn. 0 < p \<and> p < NextPageID (txHdr txn)) \<and>
     (\<forall>p \<in> set (txFreelistPageIDs txn). 0 < p \<and> p < NextPageID (txHdr txn)) \<and>
     txFreePageSet txn \<inter> set (txFreelistPageIDs txn) = {} \<and>
     (FormatVersion (txHdr txn) \<noteq> formatVersionV3 \<longrightarrow> txFreePageIDs txn = [] \<and> txFreelistPageIDs txn = [])"

text \<open>The buffered pages are those of the redo, the last one of each page, under the sequence it carries.\<close>

definition redoOk :: "engineEnv \<Rightarrow> writeTxn \<Rightarrow> pendingRedo \<Rightarrow> bool" where
  "redoOk env txn r \<longleftrightarrow> 0 < prPageID r \<and> prPageID r < NextPageID (txHdr txn) \<and> length (prPlain r) = envPhysical env \<and>
     (dcHeaderMAC (envDisk env) \<longrightarrow> 8 \<le> length (prPlain r) \<and> Uint64 (take 8 (prPlain r)) = prSeq r)"

definition dirtyOk :: "engineEnv \<Rightarrow> writeTxn \<Rightarrow> bool" where
  "dirtyOk env txn \<longleftrightarrow>
     (\<forall>p. txDirty txn p = map_option prPlain (find (\<lambda>r. prPageID r = p) (rev (txPending txn)))) \<and>
     (\<forall>r \<in> set (txPending txn). redoOk env txn r)"

definition rootOk :: "engineEnv \<Rightarrow> engine \<Rightarrow> writeTxn \<Rightarrow> bool" where
  "rootOk env s txn \<longleftrightarrow> (dcHeaderMAC (envDisk env) \<longrightarrow> BTreeRoot (txHdr txn) \<noteq> 0 \<longrightarrow>
     (\<forall>buf. physicalPage env s txn (BTreeRoot (txHdr txn)) = Inr buf \<longrightarrow>
       8 \<le> length buf \<and> Uint64 (take 8 buf) = BTreeRootGeneration (txHdr txn)))"

text \<open>Headers and root pages are authenticated exactly in format 3.\<close>

definition macOk :: "engineEnv \<Rightarrow> writeTxn \<Rightarrow> bool" where
  "macOk env txn \<longleftrightarrow> (dcHeaderMAC (envDisk env) \<longleftrightarrow> FormatVersion (txHdr txn) = formatVersionV3)"

definition headerFits :: "engineEnv \<Rightarrow> Header \<Rightarrow> bool" where
  "headerFits env h \<longleftrightarrow> headerOk h \<and> unat (hPageSize h) = envPageSize env"

text \<open>
  The stored free list: its pages from the head on, each under the generation its predecessor (or
  the header) names, and the ids they hold after those in the header.
\<close>

fun metaChain ::
  "engineEnv \<Rightarrow> (uint64 \<Rightarrow> bytes option) \<Rightarrow> uint64 list \<Rightarrow> uint64 list \<Rightarrow> uint64 \<Rightarrow> uint64 \<Rightarrow> bool" where
  "metaChain env pages [] ids head gen \<longleftrightarrow> ids = [] \<and> head = 0 \<and> gen = 0"
| "metaChain env pages (p # ps) ids head gen \<longleftrightarrow> head = p \<and> p \<noteq> 0 \<and> gen \<noteq> 0 \<and>
     isOk (pageByteOffset p (envPageSize env) (envPhysical env)) \<and>
     (\<exists>phys page nextID nextGen ids1 ids2. pages p = Some phys \<and> 8 \<le> length phys \<and> Uint64 (take 8 phys) = gen \<and>
       transformRead (envHooks env) p phys = Inr page \<and> length page = envPageSize env \<and>
       decodeFreelistPage page = Inr (nextID, nextGen, ids1) \<and> ids = ids1 @ ids2 \<and>
       metaChain env pages ps ids2 nextID nextGen)"

definition inlineIDs :: "Header \<Rightarrow> uint64 list" where
  "inlineIDs h = take (unat (FreelistCount h)) (InlineFreelist h)"

definition freelistStored :: "engineEnv \<Rightarrow> (uint64 \<Rightarrow> bytes option) \<Rightarrow> Header \<Rightarrow> uint64 list \<Rightarrow> uint64 set \<Rightarrow> bool" where
  "freelistStored env pages h metas free \<longleftrightarrow> (\<exists>ext. unat (FreelistCount h) = length (inlineIDs h) + length ext \<and>
     metaChain env pages metas ext (FreelistHead h) (FreelistHeadGeneration h) \<and>
     distinct (inlineIDs h @ ext) \<and> set (inlineIDs h @ ext) = free)"

text \<open>A free list the transaction has not touched is the one on the disk.\<close>

definition storedOk :: "engineEnv \<Rightarrow> engine \<Rightarrow> writeTxn \<Rightarrow> bool" where
  "storedOk env s txn \<longleftrightarrow> (FormatVersion (txHdr txn) = formatVersionV3 \<longrightarrow> \<not> txFreelistDirty txn \<longrightarrow>
     (\<forall>p \<in> set (txFreelistPageIDs txn). txDirty txn p = None) \<and>
     freelistStored env (pPages (dPrimary (egDisk s))) (txHdr txn) (txFreelistPageIDs txn) (txFreePageSet txn))"

definition txnReady :: "engineEnv \<Rightarrow> engine \<Rightarrow> writeTxn \<Rightarrow> bool" where
  "txnReady env s txn \<longleftrightarrow> macOk env txn \<and> 0 < NextPageID (txHdr txn) \<and> freeOk txn \<and> dirtyOk env txn \<and>
     rootOk env s txn \<and> headerFits env (txHdr txn) \<and> storedOk env s txn"

text \<open>
  A transaction begins when no group commit is under way (\<open>DB.Update\<close> waits for the flusher
  under its lock), so the overlay is empty and no header is staged.
\<close>

definition engineOk :: "engineEnv \<Rightarrow> engine \<Rightarrow> bool" where
  "engineOk env s \<longleftrightarrow> envOk env \<and> egOverlay s = (\<lambda>_. None) \<and> egUnflushed s = None \<and>
     (case egWtxn s of None \<Rightarrow> False | Some txn \<Rightarrow> txnReady env s txn)"

text \<open>The engine without its transaction: what a step inside one keeps.\<close>

definition sameDisk :: "engine \<Rightarrow> engine \<Rightarrow> bool" where
  "sameDisk s s' \<longleftrightarrow> egDisk s' = egDisk s \<and> egOverlay s' = egOverlay s \<and> egUnflushed s' = egUnflushed s"

definition usedPages :: "writeTxn \<Rightarrow> uint64 set" where
  "usedPages txn = {p. 0 < p \<and> p < NextPageID (txHdr txn)} - txFreePageSet txn - set (txFreelistPageIDs txn)"

definition reusable :: "engineEnv \<Rightarrow> writeTxn \<Rightarrow> nat" where
  "reusable env txn = (if envPageReuse env \<and> FormatVersion (txHdr txn) = formatVersionV3
     then length (txFreePageIDs txn) else 0)"

definition txnRoom :: "engineEnv \<Rightarrow> writeTxn \<Rightarrow> nat" where
  "txnRoom env txn = reusable env txn + (2 ^ 64 - 1 - unat (NextPageID (txHdr txn)))"

definition readData :: "engineEnv \<Rightarrow> engine \<Rightarrow> uint64 \<Rightarrow> engine_error + bytes" where
  "readData env s p = (if p = 0 then Inl ErrBadPageID else readPagePooled env s p)"

definition engineView :: "engineEnv \<Rightarrow> engine \<Rightarrow> storeView" where
  "engineView env s =
     (case egWtxn s of
        None \<Rightarrow> \<lparr>svPage = readData env s, svRoot = 0, svUsed = {}, svWritten = {}, svRoom = 0\<rparr>
      | Some txn \<Rightarrow> \<lparr>svPage = readData env s, svRoot = BTreeRoot (txHdr txn), svUsed = usedPages txn,
          svWritten = dom (txDirty txn), svRoom = txnRoom env txn\<rparr>)"

lemma engineOk_txn:
  assumes "engineOk env s"
  obtains txn where "egWtxn s = Some txn" "txnReady env s txn" "envOk env"
  using assms by (auto simp: engineOk_def split: option.splits)

lemma engineOk_step:
  assumes "engineOk env s" "sameDisk s s'" "egWtxn s' = Some txn" "txnReady env s' txn"
  shows "engineOk env s'"
  using assms by (auto simp: engineOk_def sameDisk_def)

lemma headerFits_fields:
  assumes "headerFits env h" "FormatVersion h' = FormatVersion h" "hPageSize h' = hPageSize h"
    "hCommitSeq h' = hCommitSeq h" "EncryptionSalt h' = EncryptionSalt h"
    "EncryptionKeyCheck h' = EncryptionKeyCheck h" "AuthTag h' = AuthTag h" "InlineFreelist h' = InlineFreelist h"
  shows "headerFits env h'"
  using assms by (simp add: headerFits_def headerOk_def)

lemma storedOk_fields:
  assumes "storedOk env s txn" "egDisk s' = egDisk s" "FormatVersion (txHdr txn') = FormatVersion (txHdr txn)"
    and "FreelistCount (txHdr txn') = FreelistCount (txHdr txn)" "InlineFreelist (txHdr txn') = InlineFreelist (txHdr txn)"
    and "FreelistHead (txHdr txn') = FreelistHead (txHdr txn)"
    and "FreelistHeadGeneration (txHdr txn') = FreelistHeadGeneration (txHdr txn)"
    and "txFreelistPageIDs txn' = txFreelistPageIDs txn" "txFreePageSet txn' = txFreePageSet txn"
    and "txFreelistDirty txn' = txFreelistDirty txn"
    and "\<And>p. p \<in> set (txFreelistPageIDs txn) \<Longrightarrow> txDirty txn' p = txDirty txn p"
  shows "storedOk env s' txn'"
  using assms by (simp add: storedOk_def freelistStored_def inlineIDs_def)

lemma pageWritten_simps [simp]:
  "BTreeRoot (pageWritten p n h) = BTreeRoot h"
  "FormatVersion (pageWritten p n h) = FormatVersion h"
  "BTreeRootGeneration (pageWritten p n h) = (if p = BTreeRoot h then n else BTreeRootGeneration h)"
  "NextPageID (pageWritten p n h) = (if p + 1 > NextPageID h then p + 1 else NextPageID h)"
  "hPageSize (pageWritten p n h) = hPageSize h" "hCommitSeq (pageWritten p n h) = hCommitSeq h"
  "EncryptionSalt (pageWritten p n h) = EncryptionSalt h" "AuthTag (pageWritten p n h) = AuthTag h"
  "EncryptionKeyCheck (pageWritten p n h) = EncryptionKeyCheck h" "InlineFreelist (pageWritten p n h) = InlineFreelist h"
  "FreelistCount (pageWritten p n h) = FreelistCount h" "FreelistHead (pageWritten p n h) = FreelistHead h"
  "FreelistHeadGeneration (pageWritten p n h) = FreelistHeadGeneration h" "LastWALSeq (pageWritten p n h) = LastWALSeq h"
  by (simp_all add: pageWritten_def Let_def)

lemma read_cong:
  assumes "egWtxn s = Some txn" "egWtxn s' = Some txn'" "p \<noteq> 0" "txDirty txn' p = txDirty txn p"
    and "egDisk s' = egDisk s"
    and "\<And>buf. physicalPage env s txn p = Inr buf \<Longrightarrow>
      validateRootPageGeneration env s' p buf = validateRootPageGeneration env s p buf"
  shows "readData env s' p = readData env s p"
proof (cases "txDirty txn p")
  case (Some plain)
  then show ?thesis
    using assms by (simp add: readData_def readPagePooled_def pooledTransformRead_def physicalPage_def)
next
  case None
  then show ?thesis
    using assms
    by (cases "pPages (dPrimary (egDisk s)) p"; cases "envUnwritten env p"; cases "pageByteOffset p (envPageSize env) (envPhysical env)")
      (simp_all add: readData_def readPagePooled_def readPageFromDisk_def physicalPage_def)
qed

lemma validate_txn:
  assumes "egWtxn s = Some txn"
  shows "validateRootPageGeneration env s p buf =
    (if dcHeaderMAC (envDisk env) \<and> p \<noteq> 0 \<and> p = BTreeRoot (txHdr txn) \<and>
        (length buf < 8 \<or> Uint64 (take 8 buf) \<noteq> BTreeRootGeneration (txHdr txn))
     then Inl ErrPageAuthentication else Inr ())"
  using assms by (simp add: validateRootPageGeneration_def visibleHeader_def)

lemma unat_bound: "unat (p :: uint64) < 2 ^ 64"
  using unsigned_less [of p] by simp

lemma unat_succ: "unat (p :: uint64) < 2 ^ 64 - 1 \<Longrightarrow> unat (p + 1) = unat p + 1"
  by (simp add: unat_word_ariths)

text \<open>A page write inside the transaction.\<close>

definition buffered :: "uint64 \<Rightarrow> uint64 \<Rightarrow> bytes \<Rightarrow> writeTxn \<Rightarrow> writeTxn" where
  "buffered seq p out txn = txn\<lparr>txPending := txPending txn @ [\<lparr>prSeq = seq, prPageID = p, prPlain = out\<rparr>],
     txDirty := (txDirty txn)(p \<mapsto> out), txHdr := pageWritten p seq (txHdr txn)\<rparr>"

lemma buffered_simps [simp]:
  "txPending (buffered seq p out txn) = txPending txn @ [\<lparr>prSeq = seq, prPageID = p, prPlain = out\<rparr>]"
  "txDirty (buffered seq p out txn) = (txDirty txn)(p \<mapsto> out)"
  "txHdr (buffered seq p out txn) = pageWritten p seq (txHdr txn)"
  "txFreePageIDs (buffered seq p out txn) = txFreePageIDs txn"
  "txFreePageSet (buffered seq p out txn) = txFreePageSet txn"
  "txFreelistPageIDs (buffered seq p out txn) = txFreelistPageIDs txn"
  "txFreelistDirty (buffered seq p out txn) = txFreelistDirty txn"
  by (simp_all add: buffered_def)

lemma writePage_buffered:
  assumes "envOk env" "egWtxn s = Some txn" "p \<noteq> 0" "length page = envPageSize env"
  obtains out where "length out = envPhysical env" "transformRead (envHooks env) p out = Inr page"
    "dcHeaderMAC (envDisk env) \<longrightarrow> 8 \<le> length out \<and> Uint64 (take 8 out) = egNextWALSeq s + 1"
    "writePageWithGeneration env p page s = Inr (egNextWALSeq s + 1,
       s\<lparr>egNextWALSeq := egNextWALSeq s + 1, egWtxn := Some (buffered (egNextWALSeq s + 1) p out txn)\<rparr>)"
proof -
  obtain out where out: "transformWrite (envHooks env) p (egNextWALSeq s + 1) page = Inr out"
    "length out = envPhysical env" "transformRead (envHooks env) p out = Inr page"
    "dcHeaderMAC (envDisk env) \<longrightarrow> 8 \<le> length out \<and> Uint64 (take 8 out) = egNextWALSeq s + 1"
    using assms unfolding envOk_def hooksOk_def by blast
  moreover have "writePageWithGeneration env p page s = Inr (egNextWALSeq s + 1,
      s\<lparr>egNextWALSeq := egNextWALSeq s + 1, egWtxn := Some (buffered (egNextWALSeq s + 1) p out txn)\<rparr>)"
    using assms out(1,2) by (simp add: writePageWithGeneration_def Let_def buffered_def)
  ultimately show thesis using that by blast
qed

text \<open>The buffers after a write of a page whose id is in range.\<close>

lemma pageWritten_next:
  assumes "unat p < 2 ^ 64 - 1"
  shows "NextPageID (pageWritten p n h) = (if p < NextPageID h then NextPageID h else p + 1)"
    "NextPageID h \<le> NextPageID (pageWritten p n h)" "p < NextPageID (pageWritten p n h)"
proof -
  have s: "unat (p + 1) = unat p + 1" by (rule unat_succ [OF assms])
  then have "p + 1 > m \<longleftrightarrow> \<not> p < m" for m by (auto simp: word_less_nat_alt)
  then show n: "NextPageID (pageWritten p n h) = (if p < NextPageID h then NextPageID h else p + 1)" by simp
  show "NextPageID h \<le> NextPageID (pageWritten p n h)" "p < NextPageID (pageWritten p n h)"
    unfolding n using s by (auto simp: word_le_nat_alt word_less_nat_alt)
qed

lemma redoOk_mono: "redoOk env txn r \<Longrightarrow> NextPageID (txHdr txn) \<le> NextPageID (txHdr txn') \<Longrightarrow> redoOk env txn' r"
  by (auto simp: redoOk_def)

lemma buffered_dirtyOk:
  assumes "dirtyOk env txn" "0 < p" "unat p < 2 ^ 64 - 1" "length out = envPhysical env"
    and "dcHeaderMAC (envDisk env) \<longrightarrow> 8 \<le> length out \<and> Uint64 (take 8 out) = seq"
  shows "dirtyOk env (buffered seq p out txn)"
proof -
  note nx = pageWritten_next(2,3) [OF assms(3), where n = seq and h = "txHdr txn"]
  have "redoOk env (buffered seq p out txn) \<lparr>prSeq = seq, prPageID = p, prPlain = out\<rparr>"
    using assms(2,4,5) nx(2) by (simp add: redoOk_def del: pageWritten_simps(4))
  moreover have "redoOk env (buffered seq p out txn) r" if "r \<in> set (txPending txn)" for r
    using assms(1) that nx(1) by (auto simp: dirtyOk_def simp del: pageWritten_simps(4) intro: redoOk_mono)
  ultimately show ?thesis using assms(1) by (simp add: dirtyOk_def)
qed

lemma buffered_rootOk:
  assumes "rootOk env s txn" "dcHeaderMAC (envDisk env) \<longrightarrow> 8 \<le> length out \<and> Uint64 (take 8 out) = seq"
    and "egDisk s' = egDisk s"
  shows "rootOk env s' (buffered seq p out txn)"
proof -
  have "physicalPage env s' (buffered seq p out txn) q = (if q = p then Inr out else physicalPage env s txn q)" for q
    by (simp add: physicalPage_def assms(3) cong: option.case_cong)
  then show ?thesis using assms by (simp add: rootOk_def)
qed

lemma buffered_headerFits: "headerFits env (txHdr txn) \<Longrightarrow> headerFits env (txHdr (buffered seq p out txn))"
  by (erule headerFits_fields) simp_all

lemma WritePage_txn:
  assumes env: "envOk env" and txn: "egWtxn s = Some txn" "txnReady env s txn"
    and p: "0 < p" "p \<notin> txFreePageSet txn" "unat p < 2 ^ 64 - 1" "length page = envPageSize env"
      "p \<notin> set (txFreelistPageIDs txn)"
  shows "\<exists>s' txn'. WritePage env p page s = Inr s' \<and> egWtxn s' = Some txn' \<and> txnReady env s' txn' \<and> sameDisk s s' \<and>
    readData env s' = (readData env s)(p := Inr page) \<and>
    NextPageID (txHdr txn') = (if p < NextPageID (txHdr txn) then NextPageID (txHdr txn) else p + 1) \<and>
    BTreeRoot (txHdr txn') = BTreeRoot (txHdr txn) \<and> FormatVersion (txHdr txn') = FormatVersion (txHdr txn) \<and>
    txFreePageIDs txn' = txFreePageIDs txn \<and> txFreePageSet txn' = txFreePageSet txn \<and>
    txFreelistPageIDs txn' = txFreelistPageIDs txn \<and> dom (txDirty txn') = insert p (dom (txDirty txn))"
proof -
  let ?seq = "egNextWALSeq s + 1"
  have p0: "p \<noteq> 0" using p(1) by simp
  obtain out where out: "length out = envPhysical env" "transformRead (envHooks env) p out = Inr page"
    "dcHeaderMAC (envDisk env) \<longrightarrow> 8 \<le> length out \<and> Uint64 (take 8 out) = ?seq"
    "writePageWithGeneration env p page s = Inr (?seq, s\<lparr>egNextWALSeq := ?seq, egWtxn := Some (buffered ?seq p out txn)\<rparr>)"
    by (rule writePage_buffered [OF env txn(1) p0 p(4)])
  define txn' where "txn' = buffered ?seq p out txn"
  define s' where "s' = s\<lparr>egNextWALSeq := ?seq, egWtxn := Some txn'\<rparr>"
  have W: "WritePage env p page s = Inr s'" using out(4) by (simp add: WritePage_def mapR_def s'_def txn'_def)
  have tx': "egWtxn s' = Some txn'" "egDisk s' = egDisk s" "sameDisk s s'" by (simp_all add: s'_def sameDisk_def)
  note nx = pageWritten_next [OF p(3), where n = ?seq and h = "txHdr txn"]
  have rd: "readData env s' q = ((readData env s)(p := Inr page)) q" for q
  proof (cases "q = p \<or> q = 0")
    case True
    moreover have "readData env s' p = Inr page"
      using p0 p(4) out(1-3)
      by (simp add: readData_def readPagePooled_def tx' txn'_def pooledTransformRead_def
          validate_txn [OF tx'(1)] not_less)
    ultimately show ?thesis using p0 by (auto simp: readData_def)
  next
    case False
    have "readData env s' q = readData env s q"
    proof (rule read_cong [OF txn(1) tx'(1) _ _ tx'(2)])
      show "validateRootPageGeneration env s' q buf = validateRootPageGeneration env s q buf" for buf
        using False by (auto simp: validate_txn [OF tx'(1)] validate_txn [OF txn(1)] txn'_def)
    qed (use False in \<open>simp_all add: txn'_def\<close>)
    then show ?thesis using False by simp
  qed
  have ready: "txnReady env s' txn'"
    unfolding txnReady_def
  proof (intro conjI)
    show "macOk env txn'" using txn(2) by (simp add: txnReady_def macOk_def txn'_def)
    have free: "freeOk txn" and "0 < NextPageID (txHdr txn)" using txn(2) by (simp_all add: txnReady_def)
    with nx(2) show "0 < NextPageID (txHdr txn')" by (simp add: txn'_def del: pageWritten_simps(4))
    show "freeOk txn'" using free nx(2) by (auto simp: freeOk_def txn'_def simp del: pageWritten_simps(4))
    show "dirtyOk env txn'"
      using txn(2) unfolding txn'_def by (intro buffered_dirtyOk p(1,3) out(1,3)) (simp add: txnReady_def)
    show "rootOk env s' txn'"
      using txn(2) unfolding txn'_def by (intro buffered_rootOk [where s = s] out(3) tx'(2)) (simp add: txnReady_def)
    show "headerFits env (txHdr txn')"
      using txn(2) unfolding txn'_def by (intro buffered_headerFits) (simp add: txnReady_def)
    have "storedOk env s txn" using txn(2) by (simp add: txnReady_def)
    then show "storedOk env s' txn'"
      by (rule storedOk_fields [OF _ tx'(2)]) (use p(5) in \<open>auto simp: txn'_def\<close>)
  qed
  show ?thesis
    by (intro exI [of _ s'] exI [of _ txn'] conjI W tx'(1,3) ready ext rd)
      (simp_all add: txn'_def nx(1) del: pageWritten_simps(4))
qed

text \<open>Taking an id, and giving the tree a new root.\<close>

lemma usedPages_insert:
  assumes "txFreePageSet txn' = txFreePageSet txn - {p}" "txFreelistPageIDs txn' = txFreelistPageIDs txn"
    and "\<And>q. 0 < q \<and> q < NextPageID (txHdr txn') \<longleftrightarrow> 0 < q \<and> q < NextPageID (txHdr txn) \<or> q = p"
    and "p \<notin> set (txFreelistPageIDs txn)"
  shows "usedPages txn' = insert p (usedPages txn)"
  using assms by (auto simp: usedPages_def)

lemma view_written:
  assumes "egWtxn s = Some txn" "egWtxn s' = Some txn'" "readData env s' = (readData env s)(p := Inr page)"
    and "BTreeRoot (txHdr txn') = BTreeRoot (txHdr txn)" "usedPages txn' = insert p (usedPages txn)"
    and "dom (txDirty txn') = insert p (dom (txDirty txn))"
    and "txnRoom env txn' = txnRoom env txn - (if p \<in> usedPages txn then 0 else 1)"
  shows "engineView env s' = putPage p page (engineView env s)"
  using assms by (simp add: engineView_def putPage_def)

lemma write_page_ok:
  assumes "engineOk env s" "p \<in> svUsed (engineView env s)" "length page = envPageSize env"
  shows "\<exists>s'. WritePage env p page s = Inr s' \<and> engineOk env s' \<and> engineView env s' = putPage p page (engineView env s)"
proof -
  obtain txn where t: "egWtxn s = Some txn" "txnReady env s txn" "envOk env" using assms(1) by (rule engineOk_txn)
  have u: "0 < p" "p < NextPageID (txHdr txn)" "p \<notin> txFreePageSet txn" "p \<notin> set (txFreelistPageIDs txn)"
    "p \<in> usedPages txn"
    using assms(2) by (simp_all add: engineView_def t(1) usedPages_def)
  have "unat p < 2 ^ 64 - 1"
    using u(2) unat_bound [of "NextPageID (txHdr txn)"] by (simp add: word_less_nat_alt)
  from WritePage_txn [OF t(3,1,2) u(1,3) this assms(3) u(4)] obtain s' txn' where w:
    "WritePage env p page s = Inr s'" "egWtxn s' = Some txn'" "txnReady env s' txn'"
    "readData env s' = (readData env s)(p := Inr page)"
    "NextPageID (txHdr txn') = NextPageID (txHdr txn)" "BTreeRoot (txHdr txn') = BTreeRoot (txHdr txn)"
    "FormatVersion (txHdr txn') = FormatVersion (txHdr txn)" "txFreePageIDs txn' = txFreePageIDs txn"
    "txFreePageSet txn' = txFreePageSet txn" "txFreelistPageIDs txn' = txFreelistPageIDs txn"
    "dom (txDirty txn') = insert p (dom (txDirty txn))" "sameDisk s s'"
    using u(2) by (auto simp only: if_True)
  have "usedPages txn' = insert p (usedPages txn)" using u(5) by (auto simp: usedPages_def w(5,9,10))
  moreover have "txnRoom env txn' = txnRoom env txn - (if p \<in> usedPages txn then 0 else 1)"
    using u(5) by (simp add: txnRoom_def reusable_def w(5,7,8))
  ultimately have "engineView env s' = putPage p page (engineView env s)"
    by (intro view_written [OF t(1) w(2,4,6) _ w(11)])
  then show ?thesis using w(1) engineOk_step [OF assms(1) w(12,2,3)] by blast
qed

text \<open>What an allocation leaves behind: the id \<open>p\<close>, to be written next.\<close>

definition allocated :: "engineEnv \<Rightarrow> engine \<Rightarrow> writeTxn \<Rightarrow> uint64 \<Rightarrow> engine \<Rightarrow> writeTxn \<Rightarrow> bool" where
  "allocated env s txn p s1 txn1 \<longleftrightarrow> 0 < p \<and> p \<notin> usedPages txn \<and> unat p < 2 ^ 64 - 1 \<and>
     p \<notin> set (txFreelistPageIDs txn) \<and> s1 = withTxn txn1 s \<and> txDirty txn1 = txDirty txn \<and>
     txPending txn1 = txPending txn \<and> BTreeRoot (txHdr txn1) = BTreeRoot (txHdr txn) \<and>
     FormatVersion (txHdr txn1) = FormatVersion (txHdr txn) \<and>
     BTreeRootGeneration (txHdr txn1) = BTreeRootGeneration (txHdr txn) \<and>
     txFreelistPageIDs txn1 = txFreelistPageIDs txn \<and> txFreePageSet txn1 = txFreePageSet txn - {p} \<and>
     (headerFits env (txHdr txn) \<longrightarrow> headerFits env (txHdr txn1)) \<and> (storedOk env s txn \<longrightarrow> storedOk env s1 txn1) \<and>
     freeOk txn1 \<and> NextPageID (txHdr txn) \<le> NextPageID (txHdr txn1) \<and>
     (FormatVersion (txHdr txn) = formatVersionV3 \<longrightarrow> p < NextPageID (txHdr txn1)) \<and>
     (\<forall>q. 0 < q \<and> q < (if p < NextPageID (txHdr txn1) then NextPageID (txHdr txn1) else p + 1) \<longleftrightarrow>
        0 < q \<and> q < NextPageID (txHdr txn) \<or> q = p) \<and>
     reusable env txn1 +
       (2 ^ 64 - 1 - unat (if p < NextPageID (txHdr txn1) then NextPageID (txHdr txn1) else p + 1)) =
       txnRoom env txn - 1"

lemma alloc_reused:
  assumes "egWtxn s = Some txn" "freeOk txn" "envPageReuse env" "FormatVersion (txHdr txn) = formatVersionV3"
    and "txFreePageIDs txn = p # rest"
  shows "\<exists>s1 txn1. allocPageID env s = Inr (p, s1) \<and> allocated env s txn p s1 txn1"
proof -
  define txn1 where "txn1 = txn\<lparr>txFreePageIDs := rest, txFreePageSet := txFreePageSet txn - {p}, txFreelistDirty := True\<rparr>"
  have al: "allocPageID env s = Inr (p, withTxn txn1 s)"
    using assms by (simp add: allocPageID_def allocateReusablePageID_def txn1_def)
  have p: "0 < p" "p < NextPageID (txHdr txn)" "p \<notin> set (txFreelistPageIDs txn)" "p \<in> txFreePageSet txn"
    using assms(2,5) by (auto simp: freeOk_def)
  have lim: "unat p < 2 ^ 64 - 1"
    using p(2) unat_bound [of "NextPageID (txHdr txn)"] by (simp add: word_less_nat_alt)
  have "freeOk txn1" using assms(2,5) by (auto simp: freeOk_def txn1_def)
  moreover have "p \<notin> usedPages txn" using p(4) by (simp add: usedPages_def)
  moreover have "0 < q \<and> q < NextPageID (txHdr txn) \<longleftrightarrow> 0 < q \<and> q < NextPageID (txHdr txn) \<or> q = p" for q
    using p(1,2) by auto
  ultimately have "allocated env s txn p (withTxn txn1 s) txn1"
    using p lim assms(3-5) by (simp add: allocated_def txn1_def reusable_def txnRoom_def storedOk_def)
  with al show ?thesis by blast
qed

lemma alloc_extended:
  assumes "egWtxn s = Some txn" "freeOk txn" "0 < NextPageID (txHdr txn)" "0 < txnRoom env txn"
    and "\<not> (envPageReuse env \<and> FormatVersion (txHdr txn) = formatVersionV3 \<and> txFreePageIDs txn \<noteq> [])"
  shows "\<exists>s1 txn1. allocPageID env s = Inr (NextPageID (txHdr txn), s1) \<and>
    allocated env s txn (NextPageID (txHdr txn)) s1 txn1"
proof -
  let ?p = "NextPageID (txHdr txn)"
  have reuse: "reusable env txn = 0" using assms(5) by (auto simp: reusable_def)
  have lim: "unat ?p < 2 ^ 64 - 1" using assms(4) reuse by (simp add: txnRoom_def)
  define txn1 where "txn1 = (if FormatVersion (txHdr txn) = formatVersionV3
    then txn\<lparr>txHdr := (txHdr txn)\<lparr>NextPageID := ?p + 1\<rparr>\<rparr> else txn)"
  have "allocateReusablePageID env s = None"
    using assms(1,5) by (auto simp: allocateReusablePageID_def split: list.splits)
  then have al: "allocPageID env s = Inr (?p, withTxn txn1 s)"
    using assms(1) by (simp add: allocPageID_def visibleHeader_def txn1_def withTxn_def)
  have succ: "unat (?p + 1) = unat ?p + 1" by (rule unat_succ [OF lim])
  have lt: "q < ?p + 1 \<longleftrightarrow> q < ?p \<or> q = ?p" for q
    unfolding word_less_nat_alt succ by (auto simp: less_Suc_eq word_unat_eq_iff)
  have less: "?p < ?p + 1" by (simp add: lt)
  have le: "?p \<le> ?p + 1" by (simp add: word_le_nat_alt succ)
  have f: "?p \<notin> txFreePageSet txn" "?p \<notin> set (txFreelistPageIDs txn)" using assms(2) by (auto simp: freeOk_def)
  have f1: "freeOk txn1" using assms(2) lt by (auto simp: freeOk_def txn1_def)
  have nx: "(if ?p < NextPageID (txHdr txn1) then NextPageID (txHdr txn1) else ?p + 1) = ?p + 1"
    by (simp add: txn1_def lt)
  have fits: "headerFits env (txHdr txn) \<longrightarrow> headerFits env (txHdr txn1)"
    by (intro impI) (erule headerFits_fields, simp_all add: txn1_def)
  have stored: "storedOk env s txn \<longrightarrow> storedOk env (withTxn txn1 s) txn1"
    by (intro impI) (erule storedOk_fields, simp_all add: txn1_def withTxn_def)
  have "reusable env txn1 = 0" using reuse by (auto simp: reusable_def txn1_def)
  moreover have "0 < q \<and> q < ?p + 1 \<longleftrightarrow> 0 < q \<and> q < ?p \<or> q = ?p" for q using assms(3) lt by auto
  ultimately have "allocated env s txn ?p (withTxn txn1 s) txn1"
    unfolding allocated_def nx using assms(3) lim f f1 reuse succ le fits stored
    by (simp add: usedPages_def txnRoom_def) (simp add: txn1_def le less)
  with al show ?thesis by blast
qed

lemma allocPageID_allocated:
  assumes "egWtxn s = Some txn" "txnReady env s txn" "0 < txnRoom env txn"
  obtains p s1 txn1 where "allocPageID env s = Inr (p, s1)" "allocated env s txn p s1 txn1"
proof -
  have "freeOk txn" "0 < NextPageID (txHdr txn)" using assms(2) by (simp_all add: txnReady_def)
  then have "\<exists>p s1 txn1. allocPageID env s = Inr (p, s1) \<and> allocated env s txn p s1 txn1"
    using alloc_reused [OF assms(1)] alloc_extended [OF assms(1) _ _ assms(3)] by (metis list.exhaust)
  then show thesis using that by blast
qed

lemma allocated_facts:
  assumes "egWtxn s = Some txn" "txnReady env s txn" "allocated env s txn p s1 txn1"
  shows "egWtxn s1 = Some txn1" "readData env s1 = readData env s" "txnReady env s1 txn1"
proof -
  have a: "egWtxn s1 = Some txn1" "egDisk s1 = egDisk s" "txDirty txn1 = txDirty txn"
    "txPending txn1 = txPending txn" "BTreeRoot (txHdr txn1) = BTreeRoot (txHdr txn)"
    "FormatVersion (txHdr txn1) = FormatVersion (txHdr txn)"
    "BTreeRootGeneration (txHdr txn1) = BTreeRootGeneration (txHdr txn)"
    "freeOk txn1" "NextPageID (txHdr txn) \<le> NextPageID (txHdr txn1)"
    using assms(3) by (simp_all only: allocated_def withTxn_def) simp_all
  have val: "validateRootPageGeneration env s1 q buf = validateRootPageGeneration env s q buf" for q buf
    by (simp add: validate_txn [OF a(1)] validate_txn [OF assms(1)] a(5,7))
  have rd: "readData env s1 q = readData env s q" for q
  proof (cases "q = 0")
    case False
    show ?thesis by (rule read_cong [OF assms(1) a(1) False _ a(2) val]) (simp add: a(3))
  qed (simp add: readData_def)
  then show "readData env s1 = readData env s" by blast
  have pos: "0 < NextPageID (txHdr txn)" using assms(2) by (simp add: txnReady_def)
  have "macOk env txn1" using assms(2) by (simp add: txnReady_def macOk_def a(6))
  moreover have "headerFits env (txHdr txn1)" "storedOk env s1 txn1"
    using assms(2,3) unfolding txnReady_def allocated_def by blast+
  moreover have "\<forall>r \<in> set (txPending txn). redoOk env txn1 r"
    using assms(2) by (auto simp: txnReady_def dirtyOk_def intro: redoOk_mono [OF _ a(9)])
  ultimately show "txnReady env s1 txn1"
    using assms(2) a(8) order_less_le_trans [OF pos a(9)]
    by (simp add: txnReady_def dirtyOk_def rootOk_def physicalPage_def a(2-7) cong: option.case_cong)
qed (use assms(3) in \<open>simp add: allocated_def withTxn_def\<close>)

lemma alloc_page_ok:
  assumes "engineOk env s" "0 < svRoom (engineView env s)"
  shows "\<exists>p s1. allocPageID env s = Inr (p, s1) \<and> p \<noteq> 0 \<and> p \<notin> svUsed (engineView env s) \<and>
    (\<forall>page. length page = envPageSize env \<longrightarrow>
      (\<exists>s'. WritePage env p page s1 = Inr s' \<and> engineOk env s' \<and> engineView env s' = putPage p page (engineView env s)))"
proof -
  obtain txn where t: "egWtxn s = Some txn" "txnReady env s txn" "envOk env" using assms(1) by (rule engineOk_txn)
  have "0 < txnRoom env txn" using assms(2) by (simp add: engineView_def t(1))
  then obtain p s1 txn1 where al: "allocPageID env s = Inr (p, s1)" "allocated env s txn p s1 txn1"
    by (rule allocPageID_allocated [OF t(1,2)])
  note f = allocated_facts [OF t(1,2) al(2)]
  have a: "0 < p" "p \<notin> usedPages txn" "unat p < 2 ^ 64 - 1" "p \<notin> set (txFreelistPageIDs txn)"
    "txDirty txn1 = txDirty txn" "BTreeRoot (txHdr txn1) = BTreeRoot (txHdr txn)"
    "txFreelistPageIDs txn1 = txFreelistPageIDs txn" "txFreePageSet txn1 = txFreePageSet txn - {p}"
    "\<forall>q. 0 < q \<and> q < (if p < NextPageID (txHdr txn1) then NextPageID (txHdr txn1) else p + 1) \<longleftrightarrow>
       0 < q \<and> q < NextPageID (txHdr txn) \<or> q = p"
    "reusable env txn1 + (2 ^ 64 - 1 - unat (if p < NextPageID (txHdr txn1) then NextPageID (txHdr txn1) else p + 1)) =
       txnRoom env txn - 1"
    using al(2) unfolding allocated_def by blast+
  have "\<exists>s'. WritePage env p page s1 = Inr s' \<and> engineOk env s' \<and> engineView env s' = putPage p page (engineView env s)"
    if len: "length page = envPageSize env" for page
  proof -
    have "p \<notin> txFreePageSet txn1" by (simp add: a(8))
    from WritePage_txn [OF t(3) f(1,3) a(1) this a(3) len] a(4) obtain s' txn' where w:
      "WritePage env p page s1 = Inr s'" "egWtxn s' = Some txn'" "txnReady env s' txn'"
      "readData env s' = (readData env s1)(p := Inr page)"
      "NextPageID (txHdr txn') = (if p < NextPageID (txHdr txn1) then NextPageID (txHdr txn1) else p + 1)"
      "BTreeRoot (txHdr txn') = BTreeRoot (txHdr txn1)"
      "FormatVersion (txHdr txn') = FormatVersion (txHdr txn1)" "txFreePageIDs txn' = txFreePageIDs txn1"
      "txFreePageSet txn' = txFreePageSet txn1" "txFreelistPageIDs txn' = txFreelistPageIDs txn1"
      "dom (txDirty txn') = insert p (dom (txDirty txn1))" "sameDisk s1 s'"
      unfolding a(7) by auto
    have u: "usedPages txn' = insert p (usedPages txn)"
      by (rule usedPages_insert [OF _ _ _ a(4)]) (simp_all add: w(5,9,10) a(7-9))
    have "reusable env txn' = reusable env txn1" by (simp add: reusable_def w(7,8))
    then have "txnRoom env txn' = txnRoom env txn - 1" using a(10) by (simp add: txnRoom_def w(5))
    then have "engineView env s' = putPage p page (engineView env s)"
      using a(2) by (intro view_written [OF t(1) w(2)]) (simp_all add: w(4,6,11) a(5,6) u f(2))
    moreover have "sameDisk s s'" using w(12) al(2) by (simp add: sameDisk_def allocated_def withTxn_def)
    ultimately show ?thesis using w(1) engineOk_step [OF assms(1) _ w(2,3)] by blast
  qed
  then show ?thesis using al(1) a(1,2) by (auto simp: engineView_def t(1))
qed

lemma set_root_ok:
  assumes "engineOk env s" "p \<in> svUsed (engineView env s)" "p \<in> svWritten (engineView env s)"
  shows "\<exists>s'. UpdateHeader env (\<lambda>h. h\<lparr>BTreeRoot := p\<rparr>) s = Inr s' \<and> engineOk env s' \<and>
    engineView env s' = (engineView env s)\<lparr>svRoot := p\<rparr>"
proof -
  obtain txn where t: "egWtxn s = Some txn" "txnReady env s txn" "envOk env" using assms(1) by (rule engineOk_txn)
  from assms(3) obtain plain where d: "txDirty txn p = Some plain" by (auto simp: engineView_def t(1))
  have p: "p \<noteq> 0" using assms(2) by (auto simp: engineView_def t(1) usedPages_def)
  from d t(2) obtain r where r0: "find (\<lambda>r. prPageID r = p) (rev (txPending txn)) = Some r" "prPlain r = plain"
    by (auto simp: txnReady_def dirtyOk_def)
  then have "r \<in> set (txPending txn)" by (metis find_Some_iff nth_mem set_rev)
  then have "redoOk env txn r" using t(2) by (simp add: txnReady_def dirtyOk_def)
  with r0 have r: "find (\<lambda>r. prPageID r = p) (rev (txPending txn)) = Some r" "prPlain r = plain"
    "dcHeaderMAC (envDisk env) \<longrightarrow> 8 \<le> length plain \<and> Uint64 (take 8 plain) = prSeq r"
    by (auto simp: redoOk_def)
  define hdr where "hdr = (txHdr txn)\<lparr>BTreeRoot := p, BTreeRootGeneration := prSeq r\<rparr>"
  define txn' where "txn' = txn\<lparr>txHdr := hdr\<rparr>"
  define s' where "s' = s\<lparr>egWtxn := Some txn'\<rparr>"
  have U: "UpdateHeader env (\<lambda>h. h\<lparr>BTreeRoot := p\<rparr>) s = Inr s'"
    using p r(1) by (simp add: UpdateHeader_def UpdateHeaderGet_def t(1) refreshRootGeneration_def mapR_def Let_def
        s'_def txn'_def hdr_def)
  have s': "egWtxn s' = Some txn'" "egDisk s' = egDisk s" by (simp_all add: s'_def)
  have root: "physicalPage env s txn (BTreeRoot (txHdr txn)) = Inr buf \<Longrightarrow> dcHeaderMAC (envDisk env) \<Longrightarrow>
      BTreeRoot (txHdr txn) \<noteq> 0 \<Longrightarrow> 8 \<le> length buf \<and> Uint64 (take 8 buf) = BTreeRootGeneration (txHdr txn)" for buf
    using t(2) by (simp add: txnReady_def rootOk_def)
  have rd: "readData env s' q = readData env s q" for q
  proof (cases "q = 0")
    case False
    show ?thesis
    proof (rule read_cong [OF t(1) s'(1) False _ s'(2)])
      fix buf
      assume phys: "physicalPage env s txn q = Inr buf"
      have "q = p \<Longrightarrow> buf = plain" using phys d by (simp add: physicalPage_def)
      then show "validateRootPageGeneration env s' q buf = validateRootPageGeneration env s q buf"
        using phys root [of buf] r(3) False
        by (auto simp: validate_txn [OF s'(1)] validate_txn [OF t(1)] txn'_def hdr_def)
    qed (simp add: txn'_def)
  qed (simp add: readData_def)
  have "macOk env txn'" using t(2) by (simp add: txnReady_def macOk_def txn'_def hdr_def)
  moreover have "freeOk txn'"
    using t(2) assms(2) by (auto simp: engineView_def t(1) usedPages_def txnReady_def freeOk_def txn'_def hdr_def)
  moreover have "dirtyOk env txn'"
    using t(2) by (auto simp: txnReady_def dirtyOk_def redoOk_def txn'_def hdr_def)
  moreover have "rootOk env s' txn'" "0 < NextPageID (txHdr txn')"
    using t(2) r(3) d by (simp_all add: txnReady_def rootOk_def txn'_def hdr_def physicalPage_def)
  moreover have "headerFits env (txHdr txn')"
    by (rule headerFits_fields [of env "txHdr txn"]) (use t(2) in \<open>simp_all add: txnReady_def txn'_def hdr_def\<close>)
  moreover have "storedOk env s' txn'"
    by (rule storedOk_fields [of env s txn]) (use t(2) in \<open>simp_all add: txnReady_def s'(2) txn'_def hdr_def\<close>)
  ultimately have "txnReady env s' txn'" by (simp add: txnReady_def)
  moreover have "sameDisk s s'" by (simp add: sameDisk_def s'_def)
  ultimately have "engineOk env s'" by (intro engineOk_step [OF assms(1) _ s'(1)])
  moreover have "usedPages txn' = usedPages txn" "txnRoom env txn' = txnRoom env txn"
    by (simp_all add: usedPages_def txnRoom_def reusable_def txn'_def hdr_def)
  then have "engineView env s' = (engineView env s)\<lparr>svRoot := p\<rparr>"
    using rd by (simp add: engineView_def s'(1) t(1) fun_eq_iff) (simp add: txn'_def hdr_def)
  ultimately show ?thesis using U by blast
qed

interpretation txn: page_store "engineOps env" "engineOk env" "engineView env" for env
proof
  fix s p
  show "opPageSize (engineOps env) \<in> {4096, 8192, 16384, 65536}" if "engineOk env s"
    using that by (simp add: engineOk_def envOk_def engineOps_def)
  show "opRead (engineOps env) s p = svPage (engineView env s) p" if "engineOk env s" "p \<in> svUsed (engineView env s)"
  proof -
    have "p \<noteq> 0" using that(2) by (auto simp: engineView_def usedPages_def split: option.splits)
    then show ?thesis by (simp add: engineOps_def engineView_def readData_def split: option.splits)
  qed
  show "opRoot (engineOps env) s = Inr (svRoot (engineView env s))" if "engineOk env s"
    using that by (auto simp: engineOk_def engineOps_def visibleHeader_def engineView_def mapR_def split: option.splits)
  show "0 \<notin> svUsed (engineView env s)"
    by (auto simp: engineView_def usedPages_def split: option.splits)
next
  fix s p and page :: bytes
  assume "engineOk env s" "p \<in> svUsed (engineView env s)" "length page = opPageSize (engineOps env)"
  then show "\<exists>s'. opWrite (engineOps env) p page s = Inr s' \<and> engineOk env s' \<and>
      engineView env s' = putPage p page (engineView env s)"
    using write_page_ok by (simp add: engineOps_def)
next
  fix s
  assume "engineOk env s" "0 < svRoom (engineView env s)"
  from alloc_page_ok [OF this] show "\<exists>p s1. opAlloc (engineOps env) s = Inr (p, s1) \<and> p \<noteq> 0 \<and>
      p \<notin> svUsed (engineView env s) \<and> (\<forall>page. length page = opPageSize (engineOps env) \<longrightarrow>
        (\<exists>s'. opWrite (engineOps env) p page s1 = Inr s' \<and> engineOk env s' \<and>
          engineView env s' = putPage p page (engineView env s)))"
    by (simp add: engineOps_def)
next
  fix s p
  assume "engineOk env s" "p \<in> svUsed (engineView env s)" "p \<in> svWritten (engineView env s)"
  then show "\<exists>s'. opSetRoot (engineOps env) p s = Inr s' \<and> engineOk env s' \<and>
      engineView env s' = (engineView env s)\<lparr>svRoot := p\<rparr>"
    using set_root_ok by (simp add: engineOps_def)
qed

subsection \<open>A concrete engine\<close>

definition plainEnv :: engineEnv where
  "plainEnv = \<lparr>envHmac = sampleMAC,
     envHooks = \<lparr>PhysicalPageOverhead = 0, BeforeWrite = None, BeforeWriteVersioned = None, AfterRead = None\<rparr>,
     envDisk = plainConfig, envPageReuse = False, envGroupWAL = False, envMaxValueBytes = 8192,
     envUnwritten = (\<lambda>_. Inl (EngineFailure ''EOF''))\<rparr>"

definition emptyEngine :: engine where
  "emptyEngine = \<lparr>egDisk = \<lparr>dPrimary = \<lparr>pHeader = encodeHeaderPage plainHeader, pPages = \<lambda>_. None\<rparr>, dWal = [], dWalPos = 0\<rparr>,
     egLastSeq = 7, egNextWALSeq = 7, egLastPageID = 0, egLastPageGeneration = 0, egOverlay = \<lambda>_. None,
     egUnflushed = None, egWtxn = Some \<lparr>txHdr = plainHeader\<lparr>BTreeRoot := 0, NextPageID := 1\<rparr>, txPending = [],
       txDirty = \<lambda>_. None, txFreePageIDs = [], txFreePageSet = {}, txFreelistPageIDs = [], txFreelistDirty = False\<rparr>,
     egWasted = 0\<rparr>"

lemma plainEnv_simps [simp]:
  "envPageSize plainEnv = 4096" "envPhysical plainEnv = 4096" "envMaxValueBytes plainEnv = 8192"
  "dcHeaderMAC (envDisk plainEnv) = False"
  by (simp_all add: plainEnv_def plainConfig_def)

lemma emptyEngine_ok: "engineOk plainEnv emptyEngine" "svRoot (engineView plainEnv emptyEngine) = 0"
  "svRoom (engineView plainEnv emptyEngine) = 2 ^ 64 - 2"
proof -
  have "envOk plainEnv"
    by (simp add: envOk_def hooksOk_def transformWrite_def transformRead_def) (simp add: plainEnv_def)
  then show "engineOk plainEnv emptyEngine"
    by (simp add: engineOk_def emptyEngine_def txnReady_def macOk_def freeOk_def dirtyOk_def rootOk_def headerFits_def
        headerOk_def storedOk_def plainHeader_def sampleHeader_def IsValidPageSize_def validPageSizes_def formatVersionV3_def)
  show "svRoot (engineView plainEnv emptyEngine) = 0" "svRoom (engineView plainEnv emptyEngine) = 2 ^ 64 - 2"
    by (simp_all add: engineView_def emptyEngine_def txnRoom_def reusable_def plainHeader_def formatVersionV3_def)
qed

end
