(* ===== verification/Overflow.thy ===== *)
theory Overflow
  imports EngineStore
begin

text \<open>
  Large and compressed values: \<open>internal/engine/overflow.go\<close>, \<open>compress.go\<close> and the
  whole of \<open>Get\<close> and \<open>Put\<close> in \<open>btree.go\<close>. DEFLATE (the package
  \<open>compress/flate\<close>) is a parameter: a compressor and a decompressor that reads at most a
  given number of bytes. A chain is followed with fuel, one unit per page.
\<close>

subsection \<open>Overflow stubs and chains\<close>

definition overflowMagic0 :: byte where "overflowMagic0 = 0xFF"
definition overflowMagic1 :: byte where "overflowMagic1 = 0x4F"
definition overflowStubLen :: nat where "overflowStubLen = 2 + 4 + 8"
definition overflowPtrSize :: nat where "overflowPtrSize = 8"

definition overflowPayloadPerPage :: "nat \<Rightarrow> nat" where
  "overflowPayloadPerPage pageSize = pageSize - overflowPtrSize"

definition isOverflowStub :: "bytes \<Rightarrow> bool" where
  "isOverflowStub val \<longleftrightarrow> length val = overflowStubLen \<and> val ! 0 = overflowMagic0 \<and> val ! 1 = overflowMagic1"

definition encodeOverflowStub :: "uint32 \<Rightarrow> uint64 \<Rightarrow> bytes" where
  "encodeOverflowStub logicalLen firstPageID =
     [overflowMagic0, overflowMagic1] @ PutUint32 logicalLen @ PutUint64 firstPageID"

definition decodeOverflowStub :: "bytes \<Rightarrow> uint32 \<times> uint64" where
  "decodeOverflowStub stub = (Uint32 (slice 2 6 stub), Uint64 (slice 6 14 stub))"

definition overflowPages :: "nat \<Rightarrow> nat \<Rightarrow> nat" where
  "overflowPages pageSize len =
     (let chunkSize = overflowPayloadPerPage pageSize; nPages = (len + chunkSize - 1) div chunkSize
      in if nPages = 0 then 1 else nPages)"

primrec allocPages :: "'s pageOps \<Rightarrow> nat \<Rightarrow> 's \<Rightarrow> engine_error + uint64 list \<times> 's" where
  "allocPages ops 0 s = Inr ([], s)"
| "allocPages ops (Suc n) s =
     bindR (opAlloc ops s) (\<lambda>(pageID, s).
     bindR (allocPages ops n s) (\<lambda>(pageIDs, s). Inr (pageID # pageIDs, s)))"

definition firstID :: "uint64 list \<Rightarrow> uint64" where
  "firstID pageIDs = (case pageIDs of [] \<Rightarrow> 0 | p # _ \<Rightarrow> p)"

primrec writeChain :: "'s pageOps \<Rightarrow> uint64 list \<Rightarrow> bytes \<Rightarrow> 's \<Rightarrow> engine_error + 's" where
  "writeChain ops [] data s = Inr s"
| "writeChain ops (pid # pageIDs) data s =
     (let chunkSize = overflowPayloadPerPage (opPageSize ops); chunk = take chunkSize data;
          page = PutUint64 (firstID pageIDs) @ chunk @ replicate (chunkSize - length chunk) 0
      in bindR (opWrite ops pid page s) (writeChain ops pageIDs (drop chunkSize data)))"

definition writeOverflowChain :: "'s pageOps \<Rightarrow> bytes \<Rightarrow> 's \<Rightarrow> engine_error + uint64 \<times> 's" where
  "writeOverflowChain ops data s =
     (if opPageSize ops \<le> overflowPtrSize then Inl (ErrCorruptTree ''page too small for overflow'')
      else let nPages = overflowPages (opPageSize ops) (length data)
      in bindR (if opAuthenticated ops s then allocPages ops nPages s
                else bindR (opReserve ops nPages s) (\<lambda>(first, s).
                       Inr (map (\<lambda>i. first + of_nat i) [0..<nPages], s))) (\<lambda>(pageIDs, s).
         bindR (writeChain ops pageIDs data s) (\<lambda>s. Inr (firstID pageIDs, s))))"

primrec readOverflowChain :: "'s pageOps \<Rightarrow> nat \<Rightarrow> 's \<Rightarrow> uint64 \<Rightarrow> uint32 \<Rightarrow> bytes \<Rightarrow> engine_error + bytes" where
  "readOverflowChain ops 0 s pid logicalLen result = Inl OutOfFuel"
| "readOverflowChain ops (Suc fuel) s pid logicalLen result =
     (if pid = 0 then
        (if length result \<noteq> unat logicalLen then Inl (ErrCorruptTree ''overflow chain length mismatch'')
         else Inr result)
      else bindR (opRead ops s pid) (\<lambda>page.
        let nextID = Uint64 (slice 0 8 page); chunk = drop overflowPtrSize page;
            remaining = unat logicalLen - length result;
            chunk = (if remaining < overflowPayloadPerPage (opPageSize ops) then take remaining chunk else chunk)
        in readOverflowChain ops fuel s nextID logicalLen (result @ chunk)))"

primrec freeOverflowChain :: "'s pageOps \<Rightarrow> nat \<Rightarrow> uint64 \<Rightarrow> 's \<Rightarrow> engine_error + 's" where
  "freeOverflowChain ops 0 pid s = Inl OutOfFuel"
| "freeOverflowChain ops (Suc fuel) pid s =
     (if pid = 0 then Inr s
      else bindR (opRead ops s pid) (\<lambda>page.
        let nextID = Uint64 (slice 0 8 page)
        in bindR (if opAuthenticated ops s then opRelease ops pid s
                  else Inr (opWaste ops (overflowPayloadPerPage (opPageSize ops)) s))
             (freeOverflowChain ops fuel nextID)))"

subsection \<open>Compression\<close>

record flate =
  deflate :: "bytes \<Rightarrow> bytes"
  inflate :: "bytes \<Rightarrow> nat \<Rightarrow> engine_error + bytes"

definition compressMagic :: byte where "compressMagic = 0xFE"
definition compressHeaderSize :: nat where "compressHeaderSize = 1 + 4"
definition compressMinInput :: nat where "compressMinInput = 64"

definition isCompressedValue :: "bytes \<Rightarrow> bool" where
  "isCompressedValue val \<longleftrightarrow> length val > compressHeaderSize \<and> val ! 0 = compressMagic"

definition compressValue :: "flate \<Rightarrow> bytes \<Rightarrow> bytes" where
  "compressValue fl val =
     (let mustWrap = isCompressedValue val
      in if length val < compressMinInput \<and> \<not> mustWrap then val
      else let buf = [compressMagic] @ PutUint32 (of_nat (length val)) @ deflate fl val
      in if length buf \<ge> length val \<and> \<not> mustWrap then val else buf)"

definition decompressValue :: "flate \<Rightarrow> bytes \<Rightarrow> engine_error + bytes" where
  "decompressValue fl val =
     (if length val \<le> compressHeaderSize then Inl (ErrCorruptTree ''compressed value too short'')
      else let uncompLen = Uint32 (slice 1 5 val)
      in bindR (inflate fl (drop compressHeaderSize val) (unat uncompLen + 1)) (\<lambda>out.
        if (of_nat (length out) :: uint32) \<noteq> uncompLen
        then Inl (ErrCorruptTree ''decompressed length mismatch'') else Inr out))"

subsection \<open>Get and Put\<close>

text \<open>From a leaf value to the value, as \<open>GetUsingRoot\<close> and the scans do it.\<close>

definition unpackValue :: "flate \<Rightarrow> bytes \<Rightarrow> engine_error + bytes" where
  "unpackValue fl v = (if isCompressedValue v then decompressValue fl v else Inr v)"

definition loadValue :: "'s pageOps \<Rightarrow> flate \<Rightarrow> nat \<Rightarrow> 's \<Rightarrow> bytes \<Rightarrow> engine_error + bytes" where
  "loadValue ops fl fuel s v =
     bindR (if isOverflowStub v
            then (case decodeOverflowStub v of (logLen, firstPage) \<Rightarrow> readOverflowChain ops fuel s firstPage logLen [])
            else Inr v) (unpackValue fl)"

definition GetUsingRoot ::
  "'s pageOps \<Rightarrow> flate \<Rightarrow> nat \<Rightarrow> 's \<Rightarrow> uint64 \<Rightarrow> bytes \<Rightarrow> engine_error + bytes option" where
  "GetUsingRoot ops fl fuel s root key =
     (if root = 0 then Inr None
      else bindR (rawGet ops fuel s root key) (\<lambda>found.
        case found of None \<Rightarrow> Inr None | Some v \<Rightarrow> mapR Some (loadValue ops fl fuel s v)))"

definition Get :: "'s pageOps \<Rightarrow> flate \<Rightarrow> nat \<Rightarrow> 's \<Rightarrow> bytes \<Rightarrow> engine_error + bytes option" where
  "Get ops fl fuel s key = bindR (opRoot ops s) (\<lambda>root. GetUsingRoot ops fl fuel s root key)"

definition storedOverflowPage :: "'s pageOps \<Rightarrow> nat \<Rightarrow> 's \<Rightarrow> uint64 \<Rightarrow> bytes \<Rightarrow> engine_error + uint64 option" where
  "storedOverflowPage ops fuel s root key =
     bindR (rawGet ops fuel s root key) (\<lambda>found.
       case found of
         None \<Rightarrow> Inr None
       | Some value \<Rightarrow> if isOverflowStub value then Inr (Some (snd (decodeOverflowStub value))) else Inr None)"

text \<open>The size test is on 32 bits, as in the code.\<close>

definition Put :: "'s pageOps \<Rightarrow> flate \<Rightarrow> nat \<Rightarrow> bytes \<Rightarrow> bytes \<Rightarrow> 's \<Rightarrow> engine_error + 's" where
  "Put ops fl fuel key val s =
     (if length key > maxKeyBytes then Inl ErrKeyTooLarge
      else if (of_nat (length val) :: uint32) > opMaxValueBytes ops then Inl ErrValueTooLarge
      else let storeVal = compressValue fl val
      in bindR (if length storeVal > inlineThreshold (opPageSize ops)
                then bindR (writeOverflowChain ops storeVal s) (\<lambda>(firstPage, s).
                       Inr (encodeOverflowStub (of_nat (length storeVal)) firstPage, s))
                else Inr (storeVal, s)) (\<lambda>(leafVal, s).
         bindR (opRoot ops s) (\<lambda>root.
           if root = 0 then putFirst ops key leafVal s
           else bindR (storedOverflowPage ops fuel s root key) (\<lambda>old.
                bindR (insertAt ops fuel root key leafVal s) (\<lambda>(refs, s).
                bindR (if refs \<noteq> [] then growRoot ops fuel root refs s else Inr s) (\<lambda>s.
                  case old of None \<Rightarrow> Inr s | Some page \<Rightarrow> freeOverflowChain ops fuel page s))))))"

lemma Put_split:
  "Put ops fl fuel key val s =
     (if length key > maxKeyBytes then Inl ErrKeyTooLarge
      else if (of_nat (length val) :: uint32) > opMaxValueBytes ops then Inl ErrValueTooLarge
      else let storeVal = compressValue fl val
      in bindR (if length storeVal > inlineThreshold (opPageSize ops)
                then bindR (writeOverflowChain ops storeVal s) (\<lambda>(firstPage, s).
                       Inr (encodeOverflowStub (of_nat (length storeVal)) firstPage, s))
                else Inr (storeVal, s)) (\<lambda>(leafVal, s).
         bindR (opRoot ops s) (\<lambda>root.
         bindR (if root = 0 then Inr None else storedOverflowPage ops fuel s root key) (\<lambda>old.
         bindR (rawPut ops fuel key leafVal s) (\<lambda>s.
           case old of None \<Rightarrow> Inr s | Some page \<Rightarrow> freeOverflowChain ops fuel page s)))))"
proof -
  have ret: "bindR m Inr = m" for m :: "engine_error + 'a" by (cases m) simp_all
  have inner: "bindR (opRoot ops s) (\<lambda>root.
      if root = 0 then putFirst ops key leafVal s
      else bindR (storedOverflowPage ops fuel s root key) (\<lambda>old.
           bindR (insertAt ops fuel root key leafVal s) (\<lambda>(refs, s).
           bindR (if refs \<noteq> [] then growRoot ops fuel root refs s else Inr s) (\<lambda>s.
             case old of None \<Rightarrow> Inr s | Some page \<Rightarrow> freeOverflowChain ops fuel page s)))) =
    bindR (opRoot ops s) (\<lambda>root.
    bindR (if root = 0 then Inr None else storedOverflowPage ops fuel s root key) (\<lambda>old.
    bindR (rawPut ops fuel key leafVal s) (\<lambda>s.
      case old of None \<Rightarrow> Inr s | Some page \<Rightarrow> freeOverflowChain ops fuel page s)))" for leafVal s
  proof (cases "opRoot ops s")
    case (Inr root)
    show ?thesis
    proof (cases "root = 0")
      case True
      then show ?thesis using Inr by (simp add: rawPut_def ret)
    next
      case False
      then show ?thesis
        using Inr
        by (cases "storedOverflowPage ops fuel s root key"; cases "insertAt ops fuel root key leafVal s")
          (auto simp: rawPut_def)
    qed
  qed simp
  show ?thesis by (simp only: Put_def Let_def inner)
qed

subsection \<open>Codecs\<close>

lemma overflow_consts [simp]:
  "overflowStubLen = 14" "overflowPtrSize = 8" "compressHeaderSize = 5" "compressMinInput = 64"
  by (simp_all add: overflowStubLen_def overflowPtrSize_def compressHeaderSize_def compressMinInput_def)

lemma encodeOverflowStub_stub: "isOverflowStub (encodeOverflowStub n p)"
  by (simp add: isOverflowStub_def encodeOverflowStub_def)

lemma decode_encodeOverflowStub: "decodeOverflowStub (encodeOverflowStub n p) = (n, p)"
  by (simp add: decodeOverflowStub_def encodeOverflowStub_def slice_def)

text \<open>What the values rely on from DEFLATE.\<close>

definition flateOk :: "flate \<Rightarrow> bool" where
  "flateOk fl \<longleftrightarrow> (\<forall>v n. length v < n \<longrightarrow> inflate fl (deflate fl v) n = Inr v) \<and>
     (\<forall>v. deflate fl v \<noteq> [] \<and> length (deflate fl v) \<le> 2 * length v + 64)"

lemma unpack_compress:
  assumes "flateOk fl" "length val < 2 ^ 32"
  shows "unpackValue fl (compressValue fl val) = Inr val"
proof -
  let ?buf = "[compressMagic] @ PutUint32 (of_nat (length val)) @ deflate fl val"
  have "deflate fl val \<noteq> []" using assms(1) by (simp add: flateOk_def)
  then have "isCompressedValue ?buf" by (simp add: isCompressedValue_def)
  moreover have "decompressValue fl ?buf = Inr val"
    using assms \<open>deflate fl val \<noteq> []\<close>
    by (simp add: decompressValue_def slice_def flateOk_def unsigned_of_nat take_bit_nat_eq_self)
  ultimately have "unpackValue fl ?buf = Inr val" by (simp add: unpackValue_def)
  then show ?thesis
    by (auto simp: compressValue_def Let_def unpackValue_def)
qed

lemma compressValue_length:
  assumes "flateOk fl"
  shows "length (compressValue fl val) \<le> 2 * length val + 69"
proof -
  have "length (deflate fl val) \<le> 2 * length val + 64" using assms by (simp add: flateOk_def)
  then show ?thesis by (simp add: compressValue_def Let_def)
qed

lemma compressValue_stub:
  "isOverflowStub (compressValue fl val) \<Longrightarrow> isOverflowStub val"
  by (auto simp: compressValue_def Let_def isOverflowStub_def overflowMagic0_def compressMagic_def split: if_splits)

subsection \<open>Chains in the pages\<close>

fun chainAt :: "(uint64 \<Rightarrow> engine_error + bytes) \<Rightarrow> nat \<Rightarrow> uint64 list \<Rightarrow> bytes \<Rightarrow> bool" where
  "chainAt rd ps [] data \<longleftrightarrow> data = []"
| "chainAt rd ps (p # qs) data \<longleftrightarrow> (\<exists>page. rd p = Inr page \<and> length page = ps \<and>
     Uint64 (slice 0 8 page) = firstID qs \<and>
     take (length (take (ps - 8) data)) (drop 8 page) = take (ps - 8) data) \<and> chainAt rd ps qs (drop (ps - 8) data)"

lemma chainAt_cong:
  "(\<And>p. p \<in> set qs \<Longrightarrow> rd' p = rd p) \<Longrightarrow> chainAt rd' ps qs data = chainAt rd ps qs data"
  by (induction qs arbitrary: data) auto

lemma firstID_simps [simp]: "firstID [] = 0" "firstID (p # qs) = p"
  by (simp_all add: firstID_def)

text \<open>What the overflow pages rely on beyond \<open>page_store\<close>.\<close>

locale overflow_store = page_store +
  assumes alloc_auth: "ok s \<Longrightarrow> opAuthenticated ops s \<Longrightarrow> 0 < svRoom (view s) \<Longrightarrow>
      \<exists>p s'. opAlloc ops s = Inr (p, s') \<and> ok s' \<and> opAuthenticated ops s' \<and> p \<noteq> 0 \<and> p \<notin> svUsed (view s) \<and>
        view s' = (view s)\<lparr>svUsed := insert p (svUsed (view s)), svRoom := svRoom (view s) - 1\<rparr>"
    and reserve: "ok s \<Longrightarrow> \<not> opAuthenticated ops s \<Longrightarrow> n \<le> svRoom (view s) \<Longrightarrow>
      \<exists>first s'. opReserve ops n s = Inr (first, s') \<and> ok s' \<and>
        (let qs = map (\<lambda>i. first + of_nat i) [0..<n] in
          distinct qs \<and> set qs \<inter> svUsed (view s) = {} \<and> 0 \<notin> set qs \<and>
          view s' = (view s)\<lparr>svUsed := svUsed (view s) \<union> set qs, svRoom := svRoom (view s) - n\<rparr>)"
    and release: "ok s \<Longrightarrow> p \<in> svUsed (view s) \<Longrightarrow>
      \<exists>s'. opRelease ops p s = Inr s' \<and> ok s' \<and> opAuthenticated ops s' = opAuthenticated ops s \<and>
        (view s' = view s \<or>
         view s' = (view s)\<lparr>svUsed := svUsed (view s) - {p}, svRoom := svRoom (view s) + 1\<rparr>)"
    and waste: "ok s \<Longrightarrow> ok (opWaste ops n s) \<and> view (opWaste ops n s) = view s \<and>
      opAuthenticated ops (opWaste ops n s) = opAuthenticated ops s"
begin

lemma allocPages_ok:
  assumes "ok s" "opAuthenticated ops s" "n \<le> svRoom (view s)"
  shows "\<exists>qs s'. allocPages ops n s = Inr (qs, s') \<and> ok s' \<and> length qs = n \<and> distinct qs \<and>
    set qs \<inter> svUsed (view s) = {} \<and> 0 \<notin> set qs \<and>
    view s' = (view s)\<lparr>svUsed := svUsed (view s) \<union> set qs, svRoom := svRoom (view s) - n\<rparr>"
  using assms
proof (induction n arbitrary: s)
  case (Suc n)
  have "0 < svRoom (view s)" using Suc.prems(3) by simp
  from alloc_auth [OF Suc.prems(1,2) this] obtain p s1 where p: "opAlloc ops s = Inr (p, s1)" "ok s1"
    "opAuthenticated ops s1" "p \<noteq> 0" "p \<notin> svUsed (view s)"
    "view s1 = (view s)\<lparr>svUsed := insert p (svUsed (view s)), svRoom := svRoom (view s) - 1\<rparr>" by blast
  have "n \<le> svRoom (view s1)" using Suc.prems(3) p(6) by simp
  from Suc.IH [OF p(2,3) this] obtain qs s2 where IH: "allocPages ops n s1 = Inr (qs, s2)" "ok s2"
    "length qs = n" "distinct qs" "set qs \<inter> svUsed (view s1) = {}" "0 \<notin> set qs"
    "view s2 = (view s1)\<lparr>svUsed := svUsed (view s1) \<union> set qs, svRoom := svRoom (view s1) - n\<rparr>" by blast
  then show ?case using p
    by (intro exI [of _ "p # qs"] exI [of _ s2]) (simp add: Un_commute)
qed simp

lemma writeChain_ok:
  assumes "ok s" "set qs \<subseteq> svUsed (view s)" "distinct qs" "length data \<le> length qs * (opPageSize ops - 8)"
  shows "\<exists>s'. writeChain ops qs data s = Inr s' \<and> ok s' \<and> chainAt (svPage (view s')) (opPageSize ops) qs data \<and>
    changes (set qs) 0 (view s) (view s')"
  using assms
proof (induction qs arbitrary: s data)
  case Nil
  then show ?case by (simp add: changes_refl)
next
  case (Cons p qs)
  let ?c = "opPageSize ops - 8"
  define page where "page = PutUint64 (firstID qs) @ take ?c data @ replicate (?c - length (take ?c data)) 0"
  have ps: "8 \<le> opPageSize ops" using page_size [OF Cons.prems(1)] by auto
  then have len: "length page = opPageSize ops" by (simp add: page_def)
  have pu: "p \<in> svUsed (view s)" using Cons.prems(2) by simp
  from write_page [OF Cons.prems(1) pu len] obtain s1 where s1: "opWrite ops p page s = Inr s1" "ok s1"
    "view s1 = putPage p page (view s)" by blast
  have ch: "changes {p} 0 (view s) (view s1)" using changes_put [of p "view s"] pu s1(3) by simp
  have u1: "set qs \<subseteq> svUsed (view s1)" using Cons.prems(2) changes_used [OF ch] by auto
  have "length (drop ?c data) \<le> length qs * ?c" using Cons.prems(4) by (simp add: le_diff_conv)
  from Cons.IH [OF s1(2) u1 _ this] Cons.prems(3) obtain s2 where s2:
    "writeChain ops qs (drop ?c data) s1 = Inr s2" "ok s2"
    "chainAt (svPage (view s2)) (opPageSize ops) qs (drop ?c data)" "changes (set qs) 0 (view s1) (view s2)" by auto
  have "svPage (view s2) p = Inr page"
    using changes_page [OF s2(4)] Cons.prems(3) s1(3) by (simp add: putPage_def)
  moreover have "Uint64 (slice 0 8 page) = firstID qs" by (simp add: page_def slice_def)
  moreover have "take (length (take ?c data)) (drop 8 page) = take ?c data" by (simp add: page_def min_def)
  ultimately have "chainAt (svPage (view s2)) (opPageSize ops) (p # qs) data" using s2(3) len by simp
  moreover have "changes (set (p # qs)) 0 (view s) (view s2)" using changes_trans [OF ch s2(4)] by simp
  moreover have "writeChain ops (p # qs) data s = Inr s2"
    using s1(1) s2(1) by (simp add: Let_def page_def overflowPayloadPerPage_def)
  ultimately show ?case using s2(2) by blast
qed

lemma readOverflowChain_ok:
  assumes "ok s" "chainAt (svPage (view s)) (opPageSize ops) qs data" "set qs \<subseteq> svUsed (view s)"
    and "length qs < fuel" "unat logicalLen = length result + length data"
  shows "readOverflowChain ops fuel s (firstID qs) logicalLen result = Inr (result @ data)"
  using assms(2-5)
proof (induction qs arbitrary: data fuel result)
  case Nil
  then obtain f where "fuel = Suc f" by (cases fuel) auto
  then show ?case using Nil by simp
next
  case (Cons p qs)
  obtain f where f: "fuel = Suc f" "length qs < f" using Cons.prems(3) by (cases fuel) auto
  let ?c = "opPageSize ops - 8"
  from Cons.prems(1) obtain page where page: "svPage (view s) p = Inr page" "length page = opPageSize ops"
    "Uint64 (slice 0 8 page) = firstID qs" "take (length (take ?c data)) (drop 8 page) = take ?c data"
    "chainAt (svPage (view s)) (opPageSize ops) qs (drop ?c data)" by auto
  have p: "p \<in> svUsed (view s)" "p \<noteq> 0" "set qs \<subseteq> svUsed (view s)"
    using Cons.prems(2) used_nonzero [OF assms(1)] by auto
  have chunk: "(if length data < ?c then take (length data) (drop 8 page) else drop 8 page) = take ?c data"
    using page(2,4) by (cases "length data < ?c") simp_all
  have "unat logicalLen = length (result @ take ?c data) + length (drop ?c data)" using Cons.prems(4) by simp
  from Cons.IH [OF page(5) p(3) f(2) this] show ?case
    using page(1,3) p(1,2) Cons.prems(4) chunk
    by (simp add: f(1) read_page [OF assms(1)] Let_def overflowPayloadPerPage_def)
qed


lemma freeOverflowChain_ok:
  assumes "ok s" "chainAt (svPage (view s)) (opPageSize ops) qs data" "set qs \<subseteq> svUsed (view s)" "distinct qs"
    and "length qs < fuel"
  shows "\<exists>s'. freeOverflowChain ops fuel (firstID qs) s = Inr s' \<and> ok s' \<and> svPage (view s') = svPage (view s) \<and>
    svRoot (view s') = svRoot (view s) \<and> svUsed (view s) - set qs \<subseteq> svUsed (view s') \<and>
    svUsed (view s') \<subseteq> svUsed (view s) \<and> svRoom (view s) \<le> svRoom (view s')"
  using assms
proof (induction qs arbitrary: s data fuel)
  case Nil
  then obtain f where "fuel = Suc f" by (cases fuel) auto
  then show ?case using Nil by simp
next
  case (Cons p qs)
  obtain f where f: "fuel = Suc f" "length qs < f" using Cons.prems(5) by (cases fuel) auto
  let ?c = "opPageSize ops - 8"
  from Cons.prems(2) obtain page where page: "svPage (view s) p = Inr page" "Uint64 (slice 0 8 page) = firstID qs"
    "chainAt (svPage (view s)) (opPageSize ops) qs (drop ?c data)" by auto
  have p: "p \<in> svUsed (view s)" "p \<noteq> 0" "set qs \<subseteq> svUsed (view s)" "p \<notin> set qs" "distinct qs"
    using Cons.prems(3,4) used_nonzero [OF Cons.prems(1)] by auto
  let ?step = "if opAuthenticated ops s then opRelease ops p s
    else Inr (opWaste ops (overflowPayloadPerPage (opPageSize ops)) s)"
  have "\<exists>s1. ?step = Inr s1 \<and> ok s1 \<and> (view s1 = view s \<or>
      view s1 = (view s)\<lparr>svUsed := svUsed (view s) - {p}, svRoom := svRoom (view s) + 1\<rparr>)"
    using release [OF Cons.prems(1) p(1)] waste [OF Cons.prems(1)] by (cases "opAuthenticated ops s") auto
  then obtain s1 where s1: "?step = Inr s1" "ok s1" "view s1 = view s \<or>
      view s1 = (view s)\<lparr>svUsed := svUsed (view s) - {p}, svRoom := svRoom (view s) + 1\<rparr>" by blast
  have v1: "svPage (view s1) = svPage (view s)" "svRoot (view s1) = svRoot (view s)"
    "svUsed (view s) - {p} \<subseteq> svUsed (view s1)" "svUsed (view s1) \<subseteq> svUsed (view s)" "svRoom (view s) \<le> svRoom (view s1)"
    using s1(3) by auto
  have "set qs \<subseteq> svUsed (view s1)" using p(3,4) v1(3) by blast
  then obtain s2 where s2:
    "freeOverflowChain ops f (firstID qs) s1 = Inr s2" "ok s2" "svPage (view s2) = svPage (view s1)"
    "svRoot (view s2) = svRoot (view s1)" "svUsed (view s1) - set qs \<subseteq> svUsed (view s2)"
    "svUsed (view s2) \<subseteq> svUsed (view s1)" "svRoom (view s1) \<le> svRoom (view s2)"
    using Cons.IH [OF s1(2) page(3) [folded v1(1)] _ p(5) f(2)] by blast
  have "freeOverflowChain ops fuel (firstID (p # qs)) s = Inr s2"
    using page(1,2) p(1,2) s1(1) s2(1) by (simp add: f(1) read_page [OF Cons.prems(1)] Let_def)
  then show ?case using s2 v1 by (intro exI [of _ s2]) auto
qed

lemma overflowPages_enough:
  assumes "8 < n"
  shows "len \<le> overflowPages n len * (n - 8)" "overflowPages n len \<noteq> 0"
proof -
  let ?c = "n - 8" and ?k = "(len + (n - 8) - 1) div (n - 8)"
  have "len + ?c - 1 < (?k + 1) * ?c"
    using assms dividend_less_times_div [of ?c "len + ?c - 1"] by (simp add: mult.commute)
  then have "len \<le> ?k * ?c" using assms by (simp add: add_mult_distrib)
  then show "len \<le> overflowPages n len * (n - 8)"
    by (auto simp: overflowPages_def overflowPayloadPerPage_def Let_def)
qed (simp add: overflowPages_def Let_def)

lemma overflowPages_mono:
  assumes "a \<le> b"
  shows "overflowPages n a \<le> overflowPages n b"
proof -
  have "(a + c - 1) div c \<le> (b + c - 1) div c" for c using assms by (intro div_le_mono) simp
  from this [of "overflowPayloadPerPage n"] show ?thesis by (auto simp: overflowPages_def Let_def)
qed

lemma changes_used_more:
  "V' = V\<lparr>svUsed := svUsed V \<union> P, svRoom := svRoom V - n\<rparr> \<Longrightarrow> changes P n V V'"
  by (simp add: changes_def)

lemma writeOverflowChain_ok:
  assumes "ok s" "overflowPages (opPageSize ops) (length data) \<le> svRoom (view s)"
  shows "\<exists>qs s'. writeOverflowChain ops data s = Inr (firstID qs, s') \<and> ok s' \<and> qs \<noteq> [] \<and> distinct qs \<and>
    length qs = overflowPages (opPageSize ops) (length data) \<and>
    set qs \<inter> svUsed (view s) = {} \<and> chainAt (svPage (view s')) (opPageSize ops) qs data \<and>
    changes (set qs) (overflowPages (opPageSize ops) (length data)) (view s) (view s')"
proof -
  let ?n = "overflowPages (opPageSize ops) (length data)"
  let ?step = "if opAuthenticated ops s then allocPages ops ?n s
    else bindR (opReserve ops ?n s) (\<lambda>(first, s). Inr (map (\<lambda>i. first + of_nat i) [0..<?n], s))"
  have big: "8 < opPageSize ops" using page_size [OF assms(1)] by auto
  have "\<exists>qs s1. ?step = Inr (qs, s1) \<and> ok s1 \<and> length qs = ?n \<and> distinct qs \<and> set qs \<inter> svUsed (view s) = {} \<and>
      view s1 = (view s)\<lparr>svUsed := svUsed (view s) \<union> set qs, svRoom := svRoom (view s) - ?n\<rparr>"
  proof (cases "opAuthenticated ops s")
    case True
    from allocPages_ok [OF assms(1) True assms(2)] show ?thesis using True by (simp only: if_True) blast
  next
    case False
    from reserve [OF assms(1) False assms(2)] show ?thesis using False by (auto simp: Let_def)
  qed
  then obtain qs s1 where s1: "?step = Inr (qs, s1)" "ok s1" "length qs = ?n" "distinct qs"
    "set qs \<inter> svUsed (view s) = {}"
    "view s1 = (view s)\<lparr>svUsed := svUsed (view s) \<union> set qs, svRoom := svRoom (view s) - ?n\<rparr>" by blast
  have "set qs \<subseteq> svUsed (view s1)" by (simp add: s1(6))
  moreover have "length data \<le> length qs * (opPageSize ops - 8)"
    using overflowPages_enough(1) [OF big] by (simp add: s1(3))
  ultimately obtain s2 where s2: "writeChain ops qs data s1 = Inr s2" "ok s2"
    "chainAt (svPage (view s2)) (opPageSize ops) qs data" "changes (set qs) 0 (view s1) (view s2)"
    using writeChain_ok [OF s1(2) _ s1(4)] by blast
  have "writeOverflowChain ops data s = Inr (firstID qs, s2)"
    using big s1(1) s2(1) by (simp add: writeOverflowChain_def Let_def)
  moreover have "changes (set qs) ?n (view s) (view s2)"
    using changes_trans [OF changes_used_more [OF s1(6)] s2(4)] by simp
  moreover have "qs \<noteq> []" using s1(3) overflowPages_enough(2) [OF big] by (metis list.size(3))
  ultimately show ?thesis using s1(3-5) s2(2,3) by blast
qed

end

subsection \<open>The database as a map\<close>

text \<open>The bytes a leaf value stands for, and the overflow pages that hold them.\<close>

definition storedData :: "(uint64 \<Rightarrow> engine_error + bytes) \<Rightarrow> nat \<Rightarrow> bytes \<Rightarrow> uint64 list \<Rightarrow> bytes \<Rightarrow> bool" where
  "storedData rd n raw qs data \<longleftrightarrow>
     (if isOverflowStub raw
      then qs \<noteq> [] \<and> decodeOverflowStub raw = (of_nat (length data), firstID qs) \<and> length data < 2 ^ 32 \<and>
        chainAt rd n qs data
      else qs = [] \<and> data = raw)"

text \<open>
  \<open>M\<close> is the map a store holds: \<open>ot\<close> is its tree and \<open>C\<close> gives the overflow pages of
  each key, which no other key and no tree page shares.
\<close>

definition dbRep :: "nat \<Rightarrow> flate \<Rightarrow> storeView \<Rightarrow> btree option \<Rightarrow> (bytes \<Rightarrow> uint64 list) \<Rightarrow> (bytes \<Rightarrow> bytes option) \<Rightarrow> bool" where
  "dbRep n fl V ot C M \<longleftrightarrow> optTree n V ot \<and>
     (\<forall>k. case map_of (optEntries ot) k of
        None \<Rightarrow> M k = None \<and> C k = []
      | Some raw \<Rightarrow> \<exists>data v. storedData (svPage V) n raw (C k) data \<and> unpackValue fl data = Inr v \<and> M k = Some v) \<and>
     (\<forall>k. distinct (C k) \<and> set (C k) \<subseteq> svUsed V - optPids ot) \<and>
     (\<forall>k k'. k \<noteq> k' \<longrightarrow> set (C k) \<inter> set (C k') = {})"

lemma dbRep_entry:
  assumes "dbRep n fl V ot C M" "map_of (optEntries ot) k = Some raw"
  obtains data v where "storedData (svPage V) n raw (C k) data" "unpackValue fl data = Inr v" "M k = Some v"
proof -
  have "case map_of (optEntries ot) k of
      None \<Rightarrow> M k = None \<and> C k = []
    | Some raw \<Rightarrow> \<exists>data v. storedData (svPage V) n raw (C k) data \<and> unpackValue fl data = Inr v \<and> M k = Some v"
    using assms(1) unfolding dbRep_def by blast
  with assms(2) that show thesis by auto
qed

lemma dbRep_no_entry:
  assumes "dbRep n fl V ot C M" "map_of (optEntries ot) k = None"
  shows "M k = None" "C k = []"
proof -
  have "case map_of (optEntries ot) k of
      None \<Rightarrow> M k = None \<and> C k = []
    | Some raw \<Rightarrow> \<exists>data v. storedData (svPage V) n raw (C k) data \<and> unpackValue fl data = Inr v \<and> M k = Some v"
    using assms(1) unfolding dbRep_def by blast
  with assms(2) show "M k = None" "C k = []" by auto
qed

context overflow_store
begin

lemma rawGet_opt:
  assumes "ok s" "optTree (opPageSize ops) (view s) ot" "optHeight ot < fuel" "svRoot (view s) \<noteq> 0"
  shows "rawGet ops fuel s (svRoot (view s)) key = Inr (map_of (optEntries ot) key)"
proof (cases ot)
  case None
  then show ?thesis using assms(2,4) by (simp add: optTree_def)
next
  case (Some t)
  then have t: "treeIn (opPageSize ops) (view s) t" using assms(2) by (simp add: optTree_def)
  then have "treeAt (opPageSize ops) 0 [] None (view s) t" "svRoot (view s) = rootId t"
    by (simp_all add: treeIn_def treeAt_def)
  with rawGet_ok [OF assms(1) this(1) within_all] show ?thesis
    using assms(3) by (simp add: Some optEntries_def optHeight_def)
qed

lemma loadValue_ok:
  assumes "ok s" "storedData (svPage (view s)) (opPageSize ops) raw qs data" "set qs \<subseteq> svUsed (view s)" "length qs < fuel"
  shows "loadValue ops fl fuel s raw = unpackValue fl data"
proof (cases "isOverflowStub raw")
  case True
  with assms(2) have d: "decodeOverflowStub raw = (of_nat (length data), firstID qs)" "length data < 2 ^ 32"
    "chainAt (svPage (view s)) (opPageSize ops) qs data" by (simp_all add: storedData_def)
  have "unat (of_nat (length data) :: uint32) = length ([] :: bytes) + length data"
    using d(2) by (simp add: unat_of_nat take_bit_nat_eq_self)
  from readOverflowChain_ok [OF assms(1) d(3) assms(3,4) this] show ?thesis
    using True d(1) by (simp add: loadValue_def)
next
  case False
  then show ?thesis using assms(2) by (simp add: loadValue_def storedData_def)
qed

lemma Get_ok:
  assumes "ok s" "dbRep (opPageSize ops) fl (view s) ot C M" "optHeight ot < fuel" "length (C key) < fuel"
  shows "Get ops fl fuel s key = Inr (M key)"
proof -
  have t: "optTree (opPageSize ops) (view s) ot" and c: "set (C key) \<subseteq> svUsed (view s)"
    using assms(2) by (auto simp: dbRep_def)
  show ?thesis
  proof (cases "svRoot (view s) = 0")
    case True
    with t have "ot = None" by (auto simp: optTree_def split: option.splits)
    then have "M key = None" using dbRep_no_entry(1) [OF assms(2)] by (simp add: optEntries_def)
    then show ?thesis using True by (simp add: Get_def GetUsingRoot_def read_root [OF assms(1)])
  next
    case False
    note r = rawGet_opt [OF assms(1) t assms(3) False, of key]
    show ?thesis
    proof (cases "map_of (optEntries ot) key")
      case None
      then show ?thesis
        using r False dbRep_no_entry(1) [OF assms(2) None]
        by (simp add: Get_def GetUsingRoot_def read_root [OF assms(1)])
    next
      case (Some raw)
      obtain data v where d: "storedData (svPage (view s)) (opPageSize ops) raw (C key) data"
        "unpackValue fl data = Inr v" "M key = Some v" by (rule dbRep_entry [OF assms(2) Some])
      from loadValue_ok [OF assms(1) d(1) c assms(4)] show ?thesis
        using r False Some d(2,3) by (simp add: Get_def GetUsingRoot_def read_root [OF assms(1)] mapR_def)
    qed
  qed
qed


text \<open>What a change of other pages keeps.\<close>

lemma storedData_cong:
  "(\<And>p. p \<in> set qs \<Longrightarrow> rd' p = rd p) \<Longrightarrow> storedData rd' n raw qs data = storedData rd n raw qs data"
  using chainAt_cong [of qs rd' rd] by (simp add: storedData_def)

end

lemma optTree_keep:
  assumes "optTree n V ot" "\<And>p. p \<in> optPids ot \<Longrightarrow> svPage V' p = svPage V p" "svRoot V' = svRoot V"
    and "optPids ot \<subseteq> svUsed V'"
  shows "optTree n V' ot"
proof (cases ot)
  case (Some t)
  have "rep (svPage V') n 0 None t = rep (svPage V) n 0 None t"
    by (rule rep_cong(1)) (use assms(2) in \<open>simp add: Some optPids_def\<close>)
  then show ?thesis using assms by (auto simp: Some optTree_def treeIn_def optPids_def)
qed (use assms in \<open>simp add: optTree_def\<close>)

lemma optTree_used: "optTree n V ot \<Longrightarrow> optPids ot \<subseteq> svUsed V"
  by (auto simp: optTree_def treeIn_def optPids_def split: option.splits)

context overflow_store
begin

text \<open>The leaf value \<open>Put\<close> stores, with its overflow pages.\<close>

lemma storeValue_ok:
  assumes "ok s" "overflowPages (opPageSize ops) (length storeVal) \<le> svRoom (view s)" "length storeVal < 2 ^ 32"
    and "\<not> isOverflowStub storeVal"
  shows "\<exists>leafVal qs s'. (if length storeVal > inlineThreshold (opPageSize ops)
      then bindR (writeOverflowChain ops storeVal s) (\<lambda>(firstPage, s).
             Inr (encodeOverflowStub (of_nat (length storeVal)) firstPage, s))
      else Inr (storeVal, s)) = Inr (leafVal, s') \<and> ok s' \<and> distinct qs \<and>
    length qs \<le> overflowPages (opPageSize ops) (length storeVal) \<and> set qs \<inter> svUsed (view s) = {} \<and>
    storedData (svPage (view s')) (opPageSize ops) leafVal qs storeVal \<and>
    length leafVal \<le> inlineThreshold (opPageSize ops) \<and>
    changes (set qs) (overflowPages (opPageSize ops) (length storeVal)) (view s) (view s')"
proof (cases "length storeVal > inlineThreshold (opPageSize ops)")
  case True
  from writeOverflowChain_ok [OF assms(1,2)] obtain qs s' where w:
    "writeOverflowChain ops storeVal s = Inr (firstID qs, s')" "ok s'" "qs \<noteq> []" "distinct qs"
    "set qs \<inter> svUsed (view s) = {}" "length qs = overflowPages (opPageSize ops) (length storeVal)" "chainAt (svPage (view s')) (opPageSize ops) qs storeVal"
    "changes (set qs) (overflowPages (opPageSize ops) (length storeVal)) (view s) (view s')" by blast
  let ?stub = "encodeOverflowStub (of_nat (length storeVal)) (firstID qs)"
  have "length ?stub = 14" using encodeOverflowStub_stub by (simp add: isOverflowStub_def)
  then have "length ?stub \<le> inlineThreshold (opPageSize ops)" by (simp add: inlineThreshold_def)
  moreover have "storedData (svPage (view s')) (opPageSize ops) ?stub qs storeVal"
    using w(3,7) assms(3) by (simp add: storedData_def encodeOverflowStub_stub decode_encodeOverflowStub)
  ultimately show ?thesis using True w
    by (intro exI [of _ ?stub] exI [of _ qs] exI [of _ s']) simp
next
  case False
  then show ?thesis using assms(1,4)
    by (intro exI [of _ storeVal] exI [of _ "[]"] exI [of _ s])
      (simp add: storedData_def changes_mono [OF changes_refl])
qed

lemma storedOverflow_ok:
  assumes "ok s" "dbRep (opPageSize ops) fl (view s) ot C M" "optHeight ot < fuel"
  shows "(if svRoot (view s) = 0 then Inr None else storedOverflowPage ops fuel s (svRoot (view s)) key) =
    Inr (if C key = [] then None else Some (firstID (C key)))"
proof -
  have t: "optTree (opPageSize ops) (view s) ot" using assms(2) by (simp add: dbRep_def)
  show ?thesis
  proof (cases "map_of (optEntries ot) key")
    case None
    have "C key = []" by (rule dbRep_no_entry(2) [OF assms(2) None])
    then show ?thesis
      using rawGet_opt [OF assms(1) t assms(3), of key] None by (simp add: storedOverflowPage_def)
  next
    case (Some raw)
    obtain data v where d: "storedData (svPage (view s)) (opPageSize ops) raw (C key) data"
      by (rule dbRep_entry [OF assms(2) Some])
    have "svRoot (view s) \<noteq> 0"
      using t Some by (auto simp: optTree_def optEntries_def split: option.splits)
    then show ?thesis
      using rawGet_opt [OF assms(1) t assms(3), of key] Some d by (simp add: storedOverflowPage_def storedData_def split: if_splits)
  qed
qed

lemma Put_ok:
  assumes "ok s" "dbRep (opPageSize ops) fl (view s) ot C M" "flateOk fl"
    and "length key \<le> maxKeyBytes" "length val \<le> unat (opMaxValueBytes ops)" "opMaxValueBytes ops \<le> 2 ^ 20"
    and "\<not> isOverflowStub val" "optHeight ot < fuel" "length (C key) < fuel"
    and "overflowPages (opPageSize ops) (2 * length val + 69) + optHeight ot + 4 \<le> svRoom (view s)"
  shows "\<exists>s' t C'. Put ops fl fuel key val s = Inr s' \<and> ok s' \<and>
    dbRep (opPageSize ops) fl (view s') (Some t) C' (M(key \<mapsto> val)) \<and> height t \<le> optHeight ot + 1 \<and>
    (\<forall>k. k \<noteq> key \<longrightarrow> C' k = C k) \<and> length (C' key) \<le> overflowPages (opPageSize ops) (2 * length val + 69) \<and>
    svRoom (view s) \<le> svRoom (view s') + overflowPages (opPageSize ops) (2 * length val + 69) + optHeight ot + 4"
proof -
  let ?n = "opPageSize ops" and ?sv = "compressValue fl val"
  let ?k = "overflowPages ?n (length ?sv)" and ?K = "overflowPages ?n (2 * length val + 69)"
  have "unat (opMaxValueBytes ops) \<le> 2 ^ 20" using assms(6) by (simp add: word_le_nat_alt)
  then have small: "length val \<le> 2 ^ 20" "length val < 2 ^ 32" "length ?sv < 2 ^ 32"
    using assms(5) compressValue_length [OF assms(3), of val] by simp_all
  have kK: "?k \<le> ?K" by (rule overflowPages_mono [OF compressValue_length [OF assms(3)]])
  have tree: "optTree ?n (view s) ot" using assms(2) by (simp add: dbRep_def)
  have C: "distinct (C k)" "set (C k) \<subseteq> svUsed (view s)" "set (C k) \<inter> optPids ot = {}" for k
    using assms(2) by (auto simp: dbRep_def)
  have Cdis: "k \<noteq> k' \<Longrightarrow> set (C k) \<inter> set (C k') = {}" for k k' using assms(2) by (simp add: dbRep_def)
  have "\<not> isOverflowStub ?sv" using assms(7) compressValue_stub by blast
  from storeValue_ok [OF assms(1) _ small(3) this] assms(10) kK obtain leafVal qs s1 where s1:
    "(if length ?sv > inlineThreshold ?n
      then bindR (writeOverflowChain ops ?sv s) (\<lambda>(firstPage, s).
             Inr (encodeOverflowStub (of_nat (length ?sv)) firstPage, s))
      else Inr (?sv, s)) = Inr (leafVal, s1)" "ok s1" "distinct qs" "set qs \<inter> svUsed (view s) = {}"
    "storedData (svPage (view s1)) ?n leafVal qs ?sv" "length leafVal \<le> inlineThreshold ?n"
    "changes (set qs) ?k (view s) (view s1)" "length qs \<le> ?k" by auto
  have used1: "svUsed (view s1) = svUsed (view s) \<union> set qs" by (rule changes_used [OF s1(7)])
  have same1: "svPage (view s1) p = svPage (view s) p" if "p \<in> svUsed (view s)" for p
    using changes_page [OF s1(7)] s1(4) that by blast
  have tree1: "optTree ?n (view s1) ot"
    by (rule optTree_keep [OF tree _ changes_root [OF s1(7)]])
      (use same1 optTree_used [OF tree] used1 in auto)
  have chains1: "storedData (svPage (view s1)) ?n raw (C k) data = storedData (svPage (view s)) ?n raw (C k) data" for k raw data
    by (rule storedData_cong) (use same1 C(2) in blast)
  have rep1: "dbRep ?n fl (view s1) ot C M"
    using assms(2) tree1 unfolding dbRep_def chains1 used1 by (auto simp: Un_Diff)
  have "entryBounded ?n key leafVal" using assms(4) s1(6) by (simp add: entryBounded_def)
  from rawPut_ok [OF s1(2) tree1 this assms(8)] changes_room [OF s1(7)] assms(10) kK obtain s2 t where s2:
    "rawPut ops fuel key leafVal s1 = Inr s2" "ok s2" "putResult ?n (key, leafVal) ot (view s1) t (view s2)" by auto
  note r = s2(3) [unfolded putResult_def]
  have tin: "treeIn ?n (view s2) t" "svRoot (view s2) \<noteq> 0"
    and ent: "map_of (entries t) = (map_of (optEntries ot))(key \<mapsto> leafVal)"
    and ht: "height t \<le> optHeight ot + 1"
    and newp: "(set (pids t) - optPids ot) \<inter> svUsed (view s1) = {}"
    and same2: "\<And>p. p \<notin> set (pids t) \<Longrightarrow> svPage (view s2) p = svPage (view s1) p"
    and used2: "svUsed (view s2) = svUsed (view s1) \<union> set (pids t)"
    and room2: "svRoom (view s1) \<le> svRoom (view s2) + optHeight ot + 4"
    using r by auto
  have Ct: "set (C k) \<inter> set (pids t) = {}" for k using newp C(2,3) [of k] used1 by blast
  have qt: "set qs \<inter> set (pids t) = {}"
    using newp s1(4) used1 optTree_used [OF tree] by blast
  have chain2: "storedData (svPage (view s2)) ?n raw (C k) data = storedData (svPage (view s)) ?n raw (C k) data" for k raw data
    unfolding chains1 [symmetric] by (rule storedData_cong) (use same2 Ct in blast)
  have new2: "storedData (svPage (view s2)) ?n leafVal qs ?sv"
    using s1(5) storedData_cong [of qs "svPage (view s2)" "svPage (view s1)"] same2 qt by (metis disjoint_iff)
  let ?free = "case (if C key = [] then None else Some (firstID (C key))) of
    None \<Rightarrow> Inr s2 | Some page \<Rightarrow> freeOverflowChain ops fuel page s2"
  have "\<exists>s3. ?free = Inr s3 \<and> ok s3 \<and> svPage (view s3) = svPage (view s2) \<and> svRoot (view s3) = svRoot (view s2) \<and>
      svUsed (view s2) - set (C key) \<subseteq> svUsed (view s3) \<and> svRoom (view s2) \<le> svRoom (view s3)"
  proof (cases "C key = []")
    case False
    then obtain raw where raw: "map_of (optEntries ot) key = Some raw"
      using dbRep_no_entry(2) [OF assms(2)] by (cases "map_of (optEntries ot) key") auto
    obtain data where "storedData (svPage (view s)) ?n raw (C key) data" by (rule dbRep_entry [OF assms(2) raw])
    with False have "chainAt (svPage (view s2)) ?n (C key) data"
      unfolding chain2 [symmetric] by (auto simp: storedData_def split: if_splits)
    moreover have "set (C key) \<subseteq> svUsed (view s2)" using C(2) used1 used2 by blast
    ultimately show ?thesis
      using freeOverflowChain_ok [OF s2(2) _ _ C(1) assms(9)] False by simp blast
  qed (use s2(2) in simp)
  then obtain s3 where s3: "?free = Inr s3" "ok s3" "svPage (view s3) = svPage (view s2)"
    "svRoot (view s3) = svRoot (view s2)" "svUsed (view s2) - set (C key) \<subseteq> svUsed (view s3)"
    "svRoom (view s2) \<le> svRoom (view s3)" by blast
  have put: "Put ops fl fuel key val s = Inr s3"
  proof -
    have "(of_nat (length val) :: uint32) \<le> opMaxValueBytes ops"
      using assms(5) small(2) by (simp add: word_le_nat_alt unat_of_nat take_bit_nat_eq_self)
    then show ?thesis
      using assms(4) s1(1) s2(1) s3(1) storedOverflow_ok [OF s1(2) rep1 assms(8), of key]
      by (simp add: Put_split Let_def read_root [OF s1(2)] not_less del: Put_def)
  qed
  have keep: "set (C k) \<subseteq> svUsed (view s3)" if "k \<noteq> key" for k
    using s3(5) Cdis [OF that] C(2) [of k] used1 used2 by blast
  have qs3: "set qs \<subseteq> svUsed (view s3)" using s3(5) s1(4) C(2) [of key] used1 used2 by blast
  have pt3: "set (pids t) \<subseteq> svUsed (view s3)" using s3(5) Ct [of key] used2 by blast
  have "optTree ?n (view s3) (Some t)"
    using tin s3(3,4) pt3 by (simp add: optTree_def treeIn_def)
  then have "dbRep ?n fl (view s3) (Some t) (C(key := qs)) (M(key \<mapsto> val))"
    unfolding dbRep_def
  proof (intro conjI allI impI)
    fix k
    show "case map_of (optEntries (Some t)) k of
        None \<Rightarrow> (M(key \<mapsto> val)) k = None \<and> (C(key := qs)) k = []
      | Some raw \<Rightarrow> \<exists>data v. storedData (svPage (view s3)) ?n raw ((C(key := qs)) k) data \<and>
          unpackValue fl data = Inr v \<and> (M(key \<mapsto> val)) k = Some v"
    proof (cases "k = key")
      case True
      then show ?thesis using new2 unpack_compress [OF assms(3) small(2)] by (auto simp: optEntries_def ent s3(3))
    next
      case False
      show ?thesis
      proof (cases "map_of (optEntries ot) k")
        case None
        then show ?thesis using False dbRep_no_entry [OF assms(2) None] by (simp add: optEntries_def ent)
      next
        case (Some raw)
        obtain data v where "storedData (svPage (view s)) ?n raw (C k) data" "unpackValue fl data = Inr v" "M k = Some v"
          by (rule dbRep_entry [OF assms(2) Some])
        then show ?thesis using False Some by (auto simp: optEntries_def [of "Some t"] ent s3(3) chain2)
      qed
    qed
    show "distinct ((C(key := qs)) k)" using s1(3) C(1) by simp
    show "set ((C(key := qs)) k) \<subseteq> svUsed (view s3) - optPids (Some t)"
      using keep [of k] qs3 qt Ct [of k] by (auto simp: optPids_def)
    fix k' assume "k \<noteq> k'"
    then show "set ((C(key := qs)) k) \<inter> set ((C(key := qs)) k') = {}"
      using Cdis [of k k'] C(2) [of k] C(2) [of k'] s1(4) by (simp add: disjoint_iff) blast
  qed
  moreover have "length qs \<le> ?K" using s1(8) kK by simp
  moreover have "svRoom (view s) \<le> svRoom (view s3) + ?K + optHeight ot + 4"
    using changes_room [OF s1(7)] room2 s3(6) kK by linarith
  ultimately show ?thesis using put s3(2) ht by (intro exI [of _ s3] exI [of _ t] exI [of _ "C(key := qs)"]) simp
qed

end

subsection \<open>Scans over the map\<close>

text \<open>The entries of a map in key order.\<close>

definition contents :: "(bytes \<Rightarrow> bytes option) \<Rightarrow> (bytes \<times> bytes) list" where
  "contents M = map (\<lambda>k. (k, the (M k))) (sorted_list_of_set (dom M))"

definition optLeaves :: "btree option \<Rightarrow> nat" where
  "optLeaves ot = (case ot of None \<Rightarrow> 0 | Some t \<Rightarrow> length (leaves t))"

lemma visit_load:
  assumes "\<And>k raw. (k, raw) \<in> set kvs \<Longrightarrow> load raw = Inr (f k)"
  shows "visit load fn kvs acc = visit Inr fn (map (\<lambda>(k, raw). (k, f k)) kvs) acc"
  using assms
proof (induction kvs arbitrary: acc)
  case (Cons e kvs)
  obtain k raw where e: "e = (k, raw)" by fastforce
  have "load raw = Inr (f k)" using Cons.prems e by auto
  moreover have "visit load fn kvs acc = visit Inr fn (map (\<lambda>(k, raw). (k, f k)) kvs) acc" for acc
    using Cons by auto
  ultimately show ?case by (auto simp: e split: prod.splits)
qed simp

lemma contents_entries:
  assumes "sorted_wrt (<) (map fst es)" "dom M = fst ` set es"
  shows "map (\<lambda>(k, raw). (k, the (M k))) (filter (\<lambda>(k, raw). P k) es) = filter (\<lambda>(k, v). P k) (contents M)"
proof -
  have "dom M = set (map fst es)" using assms(2) by simp
  moreover have "sorted (map fst es)" "distinct (map fst es)" using assms(1) by (simp_all add: strict_sorted_iff)
  ultimately have "sorted_list_of_set (dom M) = map fst es"
    by (simp only: sorted_list_of_set.idem_if_sorted_distinct)
  then have "contents M = map (\<lambda>(k, raw). (k, the (M k))) es" by (simp add: contents_def case_prod_unfold comp_def)
  then show ?thesis by (simp add: filter_map comp_def case_prod_unfold)
qed

context overflow_store
begin

lemma entries_load:
  assumes "ok s" "dbRep (opPageSize ops) fl (view s) (Some t) C M" "\<forall>k. length (C k) < fuel" "(k, raw) \<in> set (entries t)"
  shows "loadValue ops fl fuel s raw = Inr (the (M k))"
proof -
  have "sorted_wrt (<) (map fst (entries t))"
    using assms(2) treeOk_sorted(1) by (auto simp: dbRep_def optTree_def treeIn_def)
  then have "map_of (entries t) k = Some raw" using assms(4) by (simp add: strict_sorted_iff)
  then have "map_of (optEntries (Some t)) k = Some raw" by (simp add: optEntries_def)
  from dbRep_entry [OF assms(2) this] obtain data v where
    d: "storedData (svPage (view s)) (opPageSize ops) raw (C k) data" "unpackValue fl data = Inr v" "M k = Some v" .
  have "set (C k) \<subseteq> svUsed (view s)" using assms(2) by (auto simp: dbRep_def)
  from loadValue_ok [OF assms(1) d(1) this] assms(3) d(2,3) show ?thesis by simp
qed

lemma dbRep_contents:
  assumes "dbRep (opPageSize ops) fl (view s) (Some t) C M"
  shows "map (\<lambda>(k, raw). (k, the (M k))) (filter (\<lambda>(k, raw). P k) (entries t)) = filter (\<lambda>(k, v). P k) (contents M)"
proof (rule contents_entries)
  show "sorted_wrt (<) (map fst (entries t))"
    using assms treeOk_sorted(1) by (auto simp: dbRep_def optTree_def treeIn_def)
  have "M k = None \<longleftrightarrow> map_of (entries t) k = None" for k
  proof (cases "map_of (optEntries (Some t)) k")
    case None
    then show ?thesis using dbRep_no_entry(1) [OF assms None] by (simp add: optEntries_def)
  next
    case (Some raw)
    then show ?thesis using dbRep_entry [OF assms Some] by (auto simp: optEntries_def)
  qed
  then show "dom M = fst ` set (entries t)" by (auto simp: dom_def map_of_eq_None_iff)
qed

lemma scans_ok:
  assumes "ok s" "dbRep (opPageSize ops) fl (view s) ot C M" "2 * optHeight ot + 1 < fuel" "optLeaves ot < fuel"
    and "\<forall>k. length (C k) < fuel"
  shows "AscendRange ops (loadValue ops fl fuel s) fn fuel s start to acc =
      visit Inr fn (filter (\<lambda>(k, v). inRange start to k) (contents M)) acc"
    "DescendRange ops (loadValue ops fl fuel s) fn fuel s start to acc =
      visit Inr fn (rev (filter (\<lambda>(k, v). inRange start to k) (contents M))) acc"
proof -
  have tree: "optTree (opPageSize ops) (view s) ot" using assms(2) by (simp add: dbRep_def)
  have "AscendRange ops (loadValue ops fl fuel s) fn fuel s start to acc =
      visit Inr fn (filter (\<lambda>(k, v). inRange start to k) (contents M)) acc \<and>
    DescendRange ops (loadValue ops fl fuel s) fn fuel s start to acc =
      visit Inr fn (rev (filter (\<lambda>(k, v). inRange start to k) (contents M))) acc"
  proof (cases ot)
    case None
    have "M = (\<lambda>_. None)" using dbRep_no_entry(1) [OF assms(2)] by (auto simp: None optEntries_def)
    then show ?thesis
      using tree by (simp add: None AscendRange_def DescendRange_def read_root [OF assms(1)] AscendRangeFromRoot_def
          DescendRangeFromRoot_def optTree_def contents_def)
  next
    case (Some t)
    have t: "treeIn (opPageSize ops) (view s) t" "svRoot (view s) = rootId t" "rootId t \<noteq> 0"
      using tree by (auto simp: Some optTree_def treeIn_def)
    have h: "height t < fuel" "2 * height t + 1 < fuel" "length (leaves t) < fuel"
      using assms(3,4) by (simp_all add: Some optHeight_def optLeaves_def)
    note rep = assms(2) [unfolded Some]
    let ?kvs = "filter (\<lambda>(k, v). inRange start to k) (entries t)"
    have load: "loadValue ops fl fuel s raw = Inr (the (M k))" if "(k, raw) \<in> set (entries t)" for k raw
      by (rule entries_load [OF assms(1) rep assms(5) that])
    have v: "visit (loadValue ops fl fuel s) fn kvs acc = visit Inr fn (map (\<lambda>(k, raw). (k, the (M k))) kvs) acc"
      if "set kvs \<subseteq> set (entries t)" for kvs
      by (rule visit_load) (use load that in blast)
    have "set ?kvs \<subseteq> set (entries t)" "set (rev ?kvs) \<subseteq> set (entries t)" by auto
    note v = v [OF this(1)] v [OF this(2)]
    note c = dbRep_contents [OF rep, of "inRange start to"]
    show ?thesis
      unfolding AscendRange_def DescendRange_def read_root [OF assms(1)] t(2) bindR_Inr
        AscendRangeFromRoot_ok [OF assms(1) t(1,3) h(1,3)] DescendRangeFromRoot_ok [OF assms(1) t(1,3) h(2,3)] v rev_map [symmetric] c
      by simp
  qed
  then show "AscendRange ops (loadValue ops fl fuel s) fn fuel s start to acc =
      visit Inr fn (filter (\<lambda>(k, v). inRange start to k) (contents M)) acc"
    "DescendRange ops (loadValue ops fl fuel s) fn fuel s start to acc =
      visit Inr fn (rev (filter (\<lambda>(k, v). inRange start to k) (contents M))) acc" by blast+
qed

text \<open>A value that looks like a stub is stored as it is and read as one.\<close>

lemma stub_value_lost:
  assumes "ok s" "dbRep (opPageSize ops) fl (view s) ot C M" "length key \<le> maxKeyBytes" "14 \<le> opMaxValueBytes ops"
    and "optHeight ot + 1 < fuel" "optHeight ot + 4 \<le> svRoom (view s)" "C key = []"
  shows "\<exists>s'. Put ops fl fuel key (encodeOverflowStub 5 0) s = Inr s' \<and> ok s' \<and>
    Get ops fl fuel s' key = Inl (ErrCorruptTree ''overflow chain length mismatch'')"
proof -
  let ?v = "encodeOverflowStub 5 0"
  have len: "length ?v = 14" using encodeOverflowStub_stub by (simp add: isOverflowStub_def)
  have stored: "compressValue fl ?v = ?v"
    by (simp add: compressValue_def Let_def len isCompressedValue_def encodeOverflowStub_def overflowMagic0_def compressMagic_def)
  have inl: "14 \<le> inlineThreshold (opPageSize ops)" by (simp add: inlineThreshold_def)
  have tree: "optTree (opPageSize ops) (view s) ot" using assms(2) by (simp add: dbRep_def)
  have "entryBounded (opPageSize ops) key ?v" using assms(3) inl by (simp add: entryBounded_def len)
  from rawPut_ok [OF assms(1) tree this _ assms(6), of fuel] assms(5) obtain s' t where s':
    "rawPut ops fuel key ?v s = Inr s'" "ok s'" "putResult (opPageSize ops) (key, ?v) ot (view s) t (view s')" by auto
  have put: "Put ops fl fuel key ?v s = Inr s'"
    using assms(3,4,5,7) inl s'(1) storedOverflow_ok [OF assms(1,2), of fuel key]
    by (simp add: Put_split Let_def stored len read_root [OF assms(1)] not_less not_le)
  have t: "optTree (opPageSize ops) (view s') (Some t)" "svRoot (view s') \<noteq> 0" "optHeight (Some t) < fuel"
    "map_of (optEntries (Some t)) key = Some ?v"
    using s'(3) assms(5) by (simp_all add: putResult_def optTree_def optHeight_def optEntries_def)
  obtain f where "fuel = Suc f" using assms(5) by (cases fuel) auto
  then have "loadValue ops fl fuel s' ?v = Inl (ErrCorruptTree ''overflow chain length mismatch'')"
    by (simp add: loadValue_def encodeOverflowStub_stub decode_encodeOverflowStub)
  then have "Get ops fl fuel s' key = Inl (ErrCorruptTree ''overflow chain length mismatch'')"
    using rawGet_opt [OF s'(2) t(1,3,2), of key] t(2,4)
    by (simp add: Get_def GetUsingRoot_def read_root [OF s'(2)] mapR_def)
  with put s'(2) show ?thesis by blast
qed

end

subsection \<open>The engine provides the overflow pages\<close>

lemma view_same:
  assumes "egWtxn s = Some txn" "egWtxn s' = Some txn'" "readData env s' = readData env s"
    and "BTreeRoot (txHdr txn') = BTreeRoot (txHdr txn)" "txDirty txn' = txDirty txn"
    and "usedPages txn' = U" "txnRoom env txn' = R"
  shows "engineView env s' = (engineView env s)\<lparr>svUsed := U, svRoom := R\<rparr>"
  using assms by (simp add: engineView_def)

lemma alloc_auth_ok:
  assumes "engineOk env s" "authenticatedTxn s" "0 < svRoom (engineView env s)"
  shows "\<exists>p s'. allocPageID env s = Inr (p, s') \<and> engineOk env s' \<and> authenticatedTxn s' \<and> p \<noteq> 0 \<and>
    p \<notin> svUsed (engineView env s) \<and> engineView env s' =
      (engineView env s)\<lparr>svUsed := insert p (svUsed (engineView env s)), svRoom := svRoom (engineView env s) - 1\<rparr>"
proof -
  obtain txn where t: "egWtxn s = Some txn" "txnReady env s txn" "envOk env" using assms(1) by (rule engineOk_txn)
  have v3: "FormatVersion (txHdr txn) = formatVersionV3" using assms(2) by (simp add: authenticatedTxn_def t(1))
  have "0 < txnRoom env txn" using assms(3) by (simp add: engineView_def t(1))
  then obtain p s1 txn1 where al: "allocPageID env s = Inr (p, s1)" "allocated env s txn p s1 txn1"
    by (rule allocPageID_allocated [OF t(1,2)])
  note f = allocated_facts [OF t(1,2) al(2)]
  have a: "0 < p" "p \<notin> usedPages txn" "p \<notin> set (txFreelistPageIDs txn)"
    "txDirty txn1 = txDirty txn" "BTreeRoot (txHdr txn1) = BTreeRoot (txHdr txn)"
    "FormatVersion (txHdr txn1) = FormatVersion (txHdr txn)"
    "txFreelistPageIDs txn1 = txFreelistPageIDs txn" "txFreePageSet txn1 = txFreePageSet txn - {p}"
    "\<forall>q. 0 < q \<and> q < (if p < NextPageID (txHdr txn1) then NextPageID (txHdr txn1) else p + 1) \<longleftrightarrow>
       0 < q \<and> q < NextPageID (txHdr txn) \<or> q = p"
    "reusable env txn1 + (2 ^ 64 - 1 - unat (if p < NextPageID (txHdr txn1) then NextPageID (txHdr txn1) else p + 1)) =
       txnRoom env txn - 1" "FormatVersion (txHdr txn) = formatVersionV3 \<longrightarrow> p < NextPageID (txHdr txn1)"
    using al(2) unfolding allocated_def by blast+
  have lt: "p < NextPageID (txHdr txn1)" using a(11) v3 by blast
  have "usedPages txn1 = insert p (usedPages txn)"
    by (rule usedPages_insert [OF a(8,7) _ a(3)]) (use a(9) lt in simp)
  moreover have "txnRoom env txn1 = txnRoom env txn - 1" using a(10) lt by (simp add: txnRoom_def)
  ultimately have "engineView env s1 =
      (engineView env s)\<lparr>svUsed := insert p (usedPages txn), svRoom := txnRoom env txn - 1\<rparr>"
    by (rule view_same [OF t(1) f(1,2) a(5,4)])
  moreover have "sameDisk s s1" using al(2) by (simp add: sameDisk_def allocated_def withTxn_def)
  then have "engineOk env s1" by (rule engineOk_step [OF assms(1) _ f(1,3)])
  moreover have "authenticatedTxn s1" using v3 a(6) f(1) by (simp add: authenticatedTxn_def)
  ultimately show ?thesis using al(1) a(1,2) by (auto simp: engineView_def t(1))
qed

lemma release_ok:
  assumes "engineOk env s" "p \<in> svUsed (engineView env s)"
  shows "\<exists>s'. releasePageID env p s = Inr s' \<and> engineOk env s' \<and> authenticatedTxn s' = authenticatedTxn s \<and>
    (engineView env s' = engineView env s \<or> engineView env s' =
      (engineView env s)\<lparr>svUsed := svUsed (engineView env s) - {p}, svRoom := svRoom (engineView env s) + 1\<rparr>)"
proof -
  obtain txn where t: "egWtxn s = Some txn" "txnReady env s txn" "envOk env" using assms(1) by (rule engineOk_txn)
  have u: "0 < p" "p < NextPageID (txHdr txn)" "p \<notin> txFreePageSet txn" "p \<notin> set (txFreelistPageIDs txn)"
    using assms(2) by (simp_all add: engineView_def t(1) usedPages_def)
  show ?thesis
  proof (cases "envPageReuse env \<and> FormatVersion (txHdr txn) = formatVersionV3")
    case False
    then show ?thesis using assms(1) by (simp add: releasePageID_def t(1))
  next
    case True
    then have v3: "FormatVersion (txHdr txn) = formatVersionV3" by simp
    define txn' where "txn' = txn\<lparr>txFreePageSet := insert p (txFreePageSet txn),
      txFreePageIDs := txFreePageIDs txn @ [p], txFreelistDirty := True\<rparr>"
    define s' where "s' = withTxn txn' s"
    have s': "egWtxn s' = Some txn'" "egDisk s' = egDisk s" by (simp_all add: s'_def withTxn_def)
    have R: "releasePageID env p s = Inr s'"
      using True v3 u by (simp add: releasePageID_def t(1) s'_def txn'_def not_le)
    have "readData env s' q = readData env s q" for q
    proof (cases "q = 0")
      case False
      show ?thesis
        by (rule read_cong [OF t(1) s'(1) False _ s'(2)])
          (simp_all add: validate_txn [OF s'(1)] validate_txn [OF t(1)] txn'_def)
    qed (simp add: readData_def)
    then have rd: "readData env s' = readData env s" by blast
    have "macOk env txn'" using t(2) by (simp add: txnReady_def macOk_def txn'_def)
    moreover have "freeOk txn'" using t(2) u v3 by (auto simp: txnReady_def freeOk_def txn'_def)
    moreover have "dirtyOk env txn'" "rootOk env s' txn'" "0 < NextPageID (txHdr txn')"
      "headerFits env (txHdr txn')" "storedOk env s' txn'"
      using t(2) by (auto simp: txnReady_def dirtyOk_def redoOk_def rootOk_def storedOk_def physicalPage_def
          txn'_def s'(2) cong: option.case_cong)
    ultimately have "txnReady env s' txn'" by (simp add: txnReady_def)
    moreover have "sameDisk s s'" by (simp add: sameDisk_def s'_def withTxn_def)
    ultimately have "engineOk env s'" by (intro engineOk_step [OF assms(1) _ s'(1)])
    moreover have "usedPages txn' = usedPages txn - {p}" by (auto simp: usedPages_def txn'_def)
    moreover have "txnRoom env txn' = txnRoom env txn + 1"
      using True v3 by (simp add: txnRoom_def reusable_def txn'_def)
    ultimately show ?thesis
      using R v3 s'(1) view_same [OF t(1) s'(1) rd]
      by (intro exI [of _ s']) (simp add: authenticatedTxn_def engineView_def t(1) txn'_def)
  qed
qed

lemma reserve_ok:
  assumes "engineOk env s" "\<not> authenticatedTxn s" "n \<le> svRoom (engineView env s)"
  shows "\<exists>first s'. reservePages env n s = Inr (first, s') \<and> engineOk env s' \<and>
    (let qs = map (\<lambda>i. first + of_nat i) [0..<n] in
      distinct qs \<and> set qs \<inter> svUsed (engineView env s) = {} \<and> 0 \<notin> set qs \<and>
      engineView env s' = (engineView env s)\<lparr>svUsed := svUsed (engineView env s) \<union> set qs,
        svRoom := svRoom (engineView env s) - n\<rparr>)"
proof -
  obtain txn where t: "egWtxn s = Some txn" "txnReady env s txn" "envOk env" using assms(1) by (rule engineOk_txn)
  have v3: "FormatVersion (txHdr txn) \<noteq> formatVersionV3" using assms(2) by (simp add: authenticatedTxn_def t(1))
  then have mac: "\<not> dcHeaderMAC (envDisk env)" using t(2) by (simp add: txnReady_def macOk_def)
  have free: "freeOk txn" and pos: "0 < NextPageID (txHdr txn)" using t(2) by (simp_all add: txnReady_def)
  let ?p = "NextPageID (txHdr txn)"
  have n: "unat ?p + n \<le> 2 ^ 64 - 1" using assms(3) v3 by (simp add: engineView_def t(1) txnRoom_def reusable_def) (use unat_bound [of ?p] in simp)
  have add: "unat (?p + of_nat i) = unat ?p + i" if "i \<le> n" for i
    using n that by (simp add: unat_word_ariths unat_of_nat take_bit_nat_eq_self)
  define hdr where "hdr = refreshRootGeneration (txPending txn) ((txHdr txn)\<lparr>NextPageID := ?p + of_nat n\<rparr>)"
  have hdr: "NextPageID hdr = ?p + of_nat n" "BTreeRoot hdr = BTreeRoot (txHdr txn)" "FormatVersion hdr = FormatVersion (txHdr txn)"
    by (simp_all add: hdr_def refreshRootGeneration_def split: option.splits)
  define txn' where "txn' = txn\<lparr>txHdr := hdr\<rparr>"
  define s' where "s' = s\<lparr>egWtxn := Some txn'\<rparr>"
  have s': "egWtxn s' = Some txn'" "egDisk s' = egDisk s" by (simp_all add: s'_def)
  have R: "reservePages env n s = Inr (?p, s')"
    by (simp add: reservePages_def visibleHeader_def t(1) UpdateHeader_def UpdateHeaderGet_def Let_def mapR_def
        s'_def txn'_def hdr_def)
  have "readData env s' q = readData env s q" for q
  proof (cases "q = 0")
    case False
    show ?thesis
      by (rule read_cong [OF t(1) s'(1) False _ s'(2)])
        (simp_all add: validate_txn [OF s'(1)] validate_txn [OF t(1)] txn'_def mac)
  qed (simp add: readData_def)
  then have rd: "readData env s' = readData env s" by blast
  have le: "?p \<le> ?p + of_nat n" using add [of n] by (simp add: word_le_nat_alt)
  have lt: "q < ?p + of_nat n \<longleftrightarrow> q < ?p \<or> (\<exists>i<n. q = ?p + of_nat i)" for q
  proof
    assume "q < ?p + of_nat n"
    then have q: "unat q < unat ?p + n" using add [of n] by (simp add: word_less_nat_alt)
    show "q < ?p \<or> (\<exists>i<n. q = ?p + of_nat i)"
    proof (cases "q < ?p")
      case False
      let ?i = "unat q - unat ?p"
      have "?i < n" "unat (?p + of_nat ?i) = unat q"
        using False q add [of ?i] by (auto simp: word_less_nat_alt not_less)
      then show ?thesis by (metis word_unat_eq_iff)
    qed simp
  next
    assume "q < ?p \<or> (\<exists>i<n. q = ?p + of_nat i)"
    then show "q < ?p + of_nat n"
      using add [of n] add by (auto simp: word_less_nat_alt)
  qed
  have "macOk env txn'" using t(2) hdr(3) by (simp add: txnReady_def macOk_def txn'_def)
  moreover have "freeOk txn'" using free hdr le by (auto simp: freeOk_def txn'_def)
  moreover have "redoOk env txn' r" if "redoOk env txn r" for r
    by (rule redoOk_mono [OF that]) (simp add: txn'_def hdr(1) le)
  then have "dirtyOk env txn'" using t(2) by (simp add: txnReady_def dirtyOk_def txn'_def)
  moreover have "rootOk env s' txn'" "0 < NextPageID (txHdr txn')"
    using t(2) hdr(1) order_less_le_trans [OF pos le] by (simp_all add: txnReady_def rootOk_def txn'_def mac)
  moreover have "headerFits env (txHdr txn')"
    by (rule headerFits_fields [of env "txHdr txn"])
      (use t(2) in \<open>simp_all add: txnReady_def txn'_def hdr_def refreshRootGeneration_def split: option.splits\<close>)
  moreover have "storedOk env s' txn'" using v3 hdr(3) by (simp add: storedOk_def txn'_def)
  ultimately have "txnReady env s' txn'" by (simp add: txnReady_def)
  moreover have "sameDisk s s'" by (simp add: sameDisk_def s'_def)
  ultimately have ok: "engineOk env s'" by (intro engineOk_step [OF assms(1) _ s'(1)])
  define qs where "qs = map (\<lambda>i. ?p + of_nat i) [0..<n]"
  have ge: "unat ?p \<le> unat q" if "q \<in> set qs" for q using that add by (auto simp: qs_def)
  have "usedPages txn' = usedPages txn \<union> set qs"
  proof -
    have "q \<notin> txFreePageSet txn" "q \<notin> set (txFreelistPageIDs txn)" "0 < q" if "q \<in> set qs" for q
      using ge [OF that] free pos by (fastforce simp: freeOk_def word_less_nat_alt)+
    moreover have "q < NextPageID (txHdr txn') \<longleftrightarrow> q < ?p \<or> q \<in> set qs" for q
      by (auto simp: txn'_def hdr(1) lt qs_def)
    ultimately show ?thesis by (auto simp: usedPages_def) (simp_all add: txn'_def)
  qed
  moreover have "txnRoom env txn' = txnRoom env txn - n"
    using v3 add [of n] by (simp add: txnRoom_def reusable_def txn'_def hdr)
  ultimately have "engineView env s' = (engineView env s)\<lparr>svUsed := usedPages txn \<union> set qs, svRoom := txnRoom env txn - n\<rparr>"
    by (intro view_same [OF t(1) s'(1) rd]) (simp_all add: txn'_def hdr(2))
  moreover have "distinct qs"
    using add by (auto simp: qs_def distinct_map inj_on_def) (metis add_left_cancel less_imp_le)
  moreover have "set qs \<inter> usedPages txn = {}" "0 \<notin> set qs"
    using ge pos by (fastforce simp: usedPages_def word_less_nat_alt)+
  ultimately show ?thesis
    using R ok by (intro exI [of _ ?p] exI [of _ s']) (simp add: Let_def qs_def engineView_def t(1))
qed

lemma waste_ok:
  assumes "engineOk env s"
  shows "engineOk env (s\<lparr>egWasted := w\<rparr>) \<and> engineView env (s\<lparr>egWasted := w\<rparr>) = engineView env s"
proof -
  obtain txn where t: "egWtxn s = Some txn" "txnReady env s txn" "envOk env" using assms(1) by (rule engineOk_txn)
  let ?s = "s\<lparr>egWasted := w\<rparr>"
  have s': "egWtxn ?s = Some txn" "egDisk ?s = egDisk s" using t(1) by simp_all
  have "readData env ?s q = readData env s q" for q
  proof (cases "q = 0")
    case False
    show ?thesis
      by (rule read_cong [OF t(1) s'(1) False _ s'(2)]) (simp_all add: validate_txn [OF s'(1)] validate_txn [OF t(1)])
  qed (simp add: readData_def)
  then have "readData env ?s = readData env s" by blast
  moreover have "txnReady env ?s txn"
    using t(2) by (simp add: txnReady_def rootOk_def storedOk_def physicalPage_def cong: option.case_cong)
  then have "engineOk env ?s" by (intro engineOk_step [OF assms(1) _ s'(1)]) (simp_all add: sameDisk_def)
  ultimately show ?thesis using t(1) by (simp add: engineView_def)
qed

interpretation txn: overflow_store "engineOps env" "engineOk env" "engineView env" for env
proof
  fix s
  assume s: "engineOk env s" "opAuthenticated (engineOps env) s" "0 < svRoom (engineView env s)"
  then show "\<exists>p s'. opAlloc (engineOps env) s = Inr (p, s') \<and> engineOk env s' \<and> opAuthenticated (engineOps env) s' \<and>
      p \<noteq> 0 \<and> p \<notin> svUsed (engineView env s) \<and> engineView env s' = (engineView env s)
        \<lparr>svUsed := insert p (svUsed (engineView env s)), svRoom := svRoom (engineView env s) - 1\<rparr>"
    using alloc_auth_ok by (simp add: engineOps_def)
next
  fix s n
  assume "engineOk env s" "\<not> opAuthenticated (engineOps env) s" "n \<le> svRoom (engineView env s)"
  then show "\<exists>first s'. opReserve (engineOps env) n s = Inr (first, s') \<and> engineOk env s' \<and>
      (let qs = map (\<lambda>i. first + of_nat i) [0..<n] in
        distinct qs \<and> set qs \<inter> svUsed (engineView env s) = {} \<and> 0 \<notin> set qs \<and>
        engineView env s' = (engineView env s)\<lparr>svUsed := svUsed (engineView env s) \<union> set qs,
          svRoom := svRoom (engineView env s) - n\<rparr>)"
    using reserve_ok by (simp add: engineOps_def)
next
  fix s p
  assume "engineOk env s" "p \<in> svUsed (engineView env s)"
  then show "\<exists>s'. opRelease (engineOps env) p s = Inr s' \<and> engineOk env s' \<and>
      opAuthenticated (engineOps env) s' = opAuthenticated (engineOps env) s \<and>
      (engineView env s' = engineView env s \<or> engineView env s' =
        (engineView env s)\<lparr>svUsed := svUsed (engineView env s) - {p}, svRoom := svRoom (engineView env s) + 1\<rparr>)"
    using release_ok by (simp add: engineOps_def)
next
  fix s n
  assume "engineOk env s"
  then show "engineOk env (opWaste (engineOps env) n s) \<and>
      engineView env (opWaste (engineOps env) n s) = engineView env s \<and>
      opAuthenticated (engineOps env) (opWaste (engineOps env) n s) = opAuthenticated (engineOps env) s"
    using waste_ok [of env s "egWasted s + of_nat n"] by (simp add: engineOps_def authenticatedTxn_def)
qed

subsection \<open>Properties\<close>

definition storedFlate :: flate where
  "storedFlate = \<lparr>deflate = (\<lambda>v. 0 # v), inflate = (\<lambda>d n. Inr (take n (tl d)))\<rparr>"

lemma storedFlate_ok: "flateOk storedFlate"
  by (simp add: flateOk_def storedFlate_def)

lemma emptyEngine_rep:
  "dbRep 4096 fl (engineView plainEnv emptyEngine) None (\<lambda>_. []) (\<lambda>_. None)"
  using emptyEngine_ok(2) by (simp add: dbRep_def optTree_def optEntries_def optPids_def)

text \<open>C5: The key-value map. On an engine in a write transaction whose pages represent the map
  \<open>M\<close>, \<open>Put\<close> of a key of at most 256 bytes and a value within the database's limit
  succeeds while page ids are left: compression, overflow pages, page splits, root growth and the
  release of the old value's overflow pages included, the pages then represent the updated map,
  the engine's invariant holds, and \<open>Get\<close> answers every key as that map does. Excluded are the
  14-byte values that look like an overflow stub (see \<open>Stub_value_lost\<close>).\<close>
theorem Put_updates_map:
  assumes "engineOk env s" "dbRep (envPageSize env) fl (engineView env s) ot C M" "flateOk fl"
    and "length key \<le> maxKeyBytes" "length val \<le> unat (envMaxValueBytes env)" "envMaxValueBytes env \<le> 2 ^ 20"
    and "\<not> isOverflowStub val" "optHeight ot < fuel" "length (C key) < fuel"
    and "overflowPages (envPageSize env) (2 * length val + 69) + optHeight ot + 4 \<le> svRoom (engineView env s)"
  shows "\<exists>s' ot' C'. Put (engineOps env) fl fuel key val s = Inr s' \<and> engineOk env s' \<and>
    dbRep (envPageSize env) fl (engineView env s') ot' C' (M(key \<mapsto> val)) \<and> optHeight ot' \<le> optHeight ot + 1 \<and>
    (\<forall>k. k \<noteq> key \<longrightarrow> C' k = C k) \<and>
    (\<forall>k fuel'. optHeight ot' < fuel' \<and> length (C' k) < fuel' \<longrightarrow>
      Get (engineOps env) fl fuel' s' k = Inr ((M(key \<mapsto> val)) k))"
proof -
  have ops: "opPageSize (engineOps env) = envPageSize env" "opMaxValueBytes (engineOps env) = envMaxValueBytes env"
    by (simp_all add: engineOps_def)
  from txn.Put_ok [where env = env, unfolded ops, OF assms] obtain s' t C' where p:
    "Put (engineOps env) fl fuel key val s = Inr s'" "engineOk env s'"
    "dbRep (envPageSize env) fl (engineView env s') (Some t) C' (M(key \<mapsto> val))" "height t \<le> optHeight ot + 1"
    "\<forall>k. k \<noteq> key \<longrightarrow> C' k = C k" by (elim exE conjE) (rule that)
  note get = txn.Get_ok [where env = env, unfolded ops, OF p(2,3)]
  show ?thesis
    using p get by (intro exI [of _ s'] exI [of _ "Some t"] exI [of _ C']) (simp add: optHeight_def)
qed

theorem Put_updates_map_witness:
  "\<exists>s' fuel. Put (engineOps plainEnv) storedFlate 1 [1] [2] emptyEngine = Inr s' \<and>
     Get (engineOps plainEnv) storedFlate fuel s' [1] = Inr (Some [2]) \<and>
     Get (engineOps plainEnv) storedFlate fuel s' [3] = Inr None"
proof -
  have room: "overflowPages 4096 (2 * length [2 :: byte] + 69) + optHeight None + 4 \<le> svRoom (engineView plainEnv emptyEngine)"
    unfolding emptyEngine_ok(3) by (simp add: overflowPages_def overflowPayloadPerPage_def optHeight_def)
  have "\<exists>s' ot' C'. Put (engineOps plainEnv) storedFlate 1 [1] [2] emptyEngine = Inr s' \<and> engineOk plainEnv s' \<and>
      dbRep 4096 storedFlate (engineView plainEnv s') ot' C' ((\<lambda>_. None)([1] \<mapsto> [2])) \<and> optHeight ot' \<le> optHeight None + 1 \<and>
      (\<forall>k. k \<noteq> [1] \<longrightarrow> C' k = []) \<and>
      (\<forall>k fuel'. optHeight ot' < fuel' \<and> length (C' k) < fuel' \<longrightarrow>
        Get (engineOps plainEnv) storedFlate fuel' s' k = Inr (((\<lambda>_. None)([1] \<mapsto> [2])) k))"
    using Put_updates_map [where env = plainEnv, unfolded plainEnv_simps, OF emptyEngine_ok(1) emptyEngine_rep storedFlate_ok _ _ _ _ _ _ room]
    by (simp add: maxKeyBytes_def isOverflowStub_def optHeight_def)
  then obtain s' ot' C' where s': "Put (engineOps plainEnv) storedFlate 1 [1] [2] emptyEngine = Inr s'"
    "engineOk plainEnv s'"
    "dbRep 4096 storedFlate (engineView plainEnv s') ot' C' ((\<lambda>_. None)([1] \<mapsto> [2]))"
    "optHeight ot' \<le> optHeight None + 1" "\<forall>k. k \<noteq> [1] \<longrightarrow> C' k = []"
    "\<forall>k fuel'. optHeight ot' < fuel' \<and> length (C' k) < fuel' \<longrightarrow>
      Get (engineOps plainEnv) storedFlate fuel' s' k = Inr (((\<lambda>_. None)([1] \<mapsto> [2])) k)"
    by (elim exE conjE) (rule that)
  let ?f = "optHeight ot' + length (C' [1]) + length (C' [3]) + 1"
  show ?thesis using s'(1,6) by (intro exI [of _ s'] exI [of _ ?f]) simp
qed

text \<open>C12: Ordered scans. On the same representation, \<open>AscendRange\<close>, and \<open>AscendRangeFromRoot\<close>
  from the root the header names, hand the callback exactly the entries of the map whose keys lie
  in the closed range, decoded and in key order, until the callback stops; \<open>DescendRange\<close> and
  \<open>DescendRangeFromRoot\<close> hand them over in the reverse order; nil bounds are open.
  Fuel above twice the tree's height and above the number of leaves and of overflow pages suffices.\<close>
theorem Scans_follow_the_map:
  assumes "engineOk env s" "dbRep (envPageSize env) fl (engineView env s) ot C M"
    and "2 * optHeight ot + 1 < fuel" "optLeaves ot < fuel" "\<forall>k. length (C k) < fuel"
  shows "AscendRange (engineOps env) (loadValue (engineOps env) fl fuel s) fn fuel s start to acc =
      visit Inr fn (filter (\<lambda>(k, v). inRange start to k) (contents M)) acc \<and>
    DescendRange (engineOps env) (loadValue (engineOps env) fl fuel s) fn fuel s start to acc =
      visit Inr fn (rev (filter (\<lambda>(k, v). inRange start to k) (contents M))) acc \<and>
    AscendRangeFromRoot (engineOps env) (loadValue (engineOps env) fl fuel s) fn fuel s (svRoot (engineView env s)) start to acc =
      visit Inr fn (filter (\<lambda>(k, v). inRange start to k) (contents M)) acc \<and>
    DescendRangeFromRoot (engineOps env) (loadValue (engineOps env) fl fuel s) fn fuel s (svRoot (engineView env s)) start to acc =
      visit Inr fn (rev (filter (\<lambda>(k, v). inRange start to k) (contents M))) acc"
proof -
  have "opPageSize (engineOps env) = envPageSize env" by (simp add: engineOps_def)
  with txn.scans_ok [where env = env and fn = fn and start = start and to = to and acc = acc, OF assms(1) _ assms(3-5)] assms(2)
  show ?thesis by (simp add: AscendRange_def DescendRange_def txn.read_root [OF assms(1)])
qed

theorem Scans_follow_the_map_witness:
  "\<exists>s' fuel. Put (engineOps plainEnv) storedFlate 1 [1] [2] emptyEngine = Inr s' \<and>
     AscendRange (engineOps plainEnv) (loadValue (engineOps plainEnv) storedFlate fuel s') (\<lambda>k v acc. (True, (k, v) # acc))
       fuel s' None (Some [4]) [] = Inr [([1], [2])] \<and>
     DescendRangeFromRoot (engineOps plainEnv) (loadValue (engineOps plainEnv) storedFlate fuel s') (\<lambda>k v acc. (True, (k, v) # acc))
       fuel s' (svRoot (engineView plainEnv s')) None (Some [4]) [] = Inr [([1], [2])]"
proof -
  have room: "overflowPages 4096 (2 * length [2 :: byte] + 69) + optHeight None + 4 \<le> svRoom (engineView plainEnv emptyEngine)"
    unfolding emptyEngine_ok(3) by (simp add: overflowPages_def overflowPayloadPerPage_def optHeight_def)
  have ops: "opPageSize (engineOps plainEnv) = 4096" "opMaxValueBytes (engineOps plainEnv) = 8192"
    by (simp_all add: engineOps_def)
  from txn.Put_ok [where env = plainEnv, unfolded ops, OF emptyEngine_ok(1) emptyEngine_rep storedFlate_ok _ _ _ _ _ _ room, of "[1]" 1]
  obtain s' t C' where p: "Put (engineOps plainEnv) storedFlate 1 [1] [2] emptyEngine = Inr s'" "engineOk plainEnv s'"
    "dbRep 4096 storedFlate (engineView plainEnv s') (Some t) C' ((\<lambda>_. None)([1] \<mapsto> [2]))" "\<forall>k. k \<noteq> [1] \<longrightarrow> C' k = []"
    by (auto simp: maxKeyBytes_def isOverflowStub_def optHeight_def)
  let ?M = "(\<lambda>_. None)([1] \<mapsto> [2 :: byte])" and ?f = "2 * height t + length (leaves t) + length (C' [1]) + 2"
  have "\<forall>k. length (C' k) < ?f"
  proof
    fix k
    show "length (C' k) < ?f" using p(4) by (cases "k = [1]") auto
  qed
  from Scans_follow_the_map [where env = plainEnv, unfolded plainEnv_simps, OF p(2,3) _ _ this, of
      "\<lambda>k v acc. (True, (k, v) # acc)" None "Some [4]" "[]"]
  have "AscendRange (engineOps plainEnv) (loadValue (engineOps plainEnv) storedFlate ?f s') (\<lambda>k v acc. (True, (k, v) # acc))
      ?f s' None (Some [4]) [] = visit Inr (\<lambda>k v acc. (True, (k, v) # acc)) (filter (\<lambda>(k, v). inRange None (Some [4]) k) (contents ?M)) []"
    "DescendRangeFromRoot (engineOps plainEnv) (loadValue (engineOps plainEnv) storedFlate ?f s') (\<lambda>k v acc. (True, (k, v) # acc))
      ?f s' (svRoot (engineView plainEnv s')) None (Some [4]) [] =
        visit Inr (\<lambda>k v acc. (True, (k, v) # acc)) (rev (filter (\<lambda>(k, v). inRange None (Some [4]) k) (contents ?M))) []"
    by (simp_all add: optHeight_def optLeaves_def)
  moreover have "contents ?M = [([1], [2])]" by (simp add: contents_def)
  ultimately show ?thesis
    using p(1) by (intro exI [of _ s'] exI [of _ ?f]) (simp add: inRange_def)
qed

text \<open>C39: A value the format cannot hold. \<open>Put\<close> accepts the 14-byte value that has the form of an
  overflow stub (length 5, first page 0) under any key without an overflow value, stores it in the
  leaf as it is, and \<open>Get\<close> then fails for that key: unlike the compression envelope, which
  \<open>compressValue\<close> wraps to keep it apart, the stub's form is not escaped.\<close>
theorem Stub_value_lost:
  assumes "engineOk env s" "dbRep (envPageSize env) fl (engineView env s) ot C M" "length key \<le> maxKeyBytes"
    and "14 \<le> envMaxValueBytes env" "optHeight ot + 1 < fuel" "optHeight ot + 4 \<le> svRoom (engineView env s)" "C key = []"
  shows "\<exists>s'. Put (engineOps env) fl fuel key (encodeOverflowStub 5 0) s = Inr s' \<and> engineOk env s' \<and>
    Get (engineOps env) fl fuel s' key = Inl (ErrCorruptTree ''overflow chain length mismatch'')"
proof -
  have "opPageSize (engineOps env) = envPageSize env" "opMaxValueBytes (engineOps env) = envMaxValueBytes env"
    by (simp_all add: engineOps_def)
  with txn.stub_value_lost [where env = env and C = C and key = key, OF assms(1) _ assms(3) _ assms(5-7)] assms(2,4) show ?thesis by simp
qed

theorem Stub_value_lost_witness:
  "\<exists>s'. Put (engineOps plainEnv) storedFlate 2 [1] (encodeOverflowStub 5 0) emptyEngine = Inr s' \<and>
     Get (engineOps plainEnv) storedFlate 2 s' [1] = Inl (ErrCorruptTree ''overflow chain length mismatch'')"
  using Stub_value_lost [where env = plainEnv, unfolded plainEnv_simps, OF emptyEngine_ok(1) emptyEngine_rep, of "[1]" 2]
    emptyEngine_ok(3) by (auto simp: maxKeyBytes_def optHeight_def)

end
