(* ===== verification/Commit.thy ===== *)
theory Commit
  imports Overflow
begin

text \<open>
  Committing the buffered pages: the classic commit of \<open>internal/engine/writetxn.go\<close> and the
  group commit of \<open>group_wal.go\<close>, on the engine of \<open>EngineStore\<close>. A group commit
  stages the pages in an overlay and the header beside it, hands the redo to the flusher as a job,
  and the flusher writes a batch of jobs with one log barrier. The flusher's schedule is a step
  relation on the engine and the queue of jobs. The lemmas: both commits leave the buffered pages
  over the old ones and the new header; a flush of the whole queue keeps what readers see; a flush
  of the first job alone does not, when a later job wrote the same page.
\<close>

subsection \<open>Commit\<close>

primrec writePrimaryPages :: "engineEnv \<Rightarrow> pendingRedo list \<Rightarrow> engine \<Rightarrow> engine_error + engine" where
  "writePrimaryPages env [] s = Inr s"
| "writePrimaryPages env (p # ps) s = bindR (writePrimaryData env p s) (writePrimaryPages env ps)"

definition truncateLog :: "nat \<Rightarrow> engine \<Rightarrow> engine" where
  "truncateLog written s = s\<lparr>egDisk := diskStep (WalTruncate written) (egDisk s)\<rparr>"

definition commitAuthenticatedHeaderOnly :: "engineEnv \<Rightarrow> Header \<Rightarrow> engine \<Rightarrow> engine_error + engine" where
  "commitAuthenticatedHeaderOnly env hdr s =
     (let seq = egNextWALSeq s + 1; s = s\<lparr>egNextWALSeq := seq\<rparr>; final = hdr\<lparr>LastWALSeq := seq\<rparr>
      in bindR (encodeHeaderWALRecord (envHmac env) (envDisk env) final) (\<lambda>record.
         let s = writeHeader env final (walWrite env record s)
         in Inr (truncateLog (length record) (s\<lparr>egLastSeq := seq\<rparr>))))"

definition commitPages :: "engineEnv \<Rightarrow> writeTxn \<Rightarrow> engine \<Rightarrow> engine_error + engine" where
  "commitPages env txn s =
     (let final = (txHdr txn)\<lparr>LastWALSeq := prSeq (last (txPending txn))\<rparr>
      in bindR (redoRecords (envHmac env) (envDisk env) (txPending txn)) (\<lambda>recs.
         bindR (if dcHeaderMAC (envDisk env)
                then mapR (\<lambda>r. [r]) (encodeHeaderWALRecord (envHmac env) (envDisk env) final) else Inr []) (\<lambda>marker.
         bindR (writePrimaryPages env (txPending txn) (fold (walWrite env) (recs @ marker) s)) (\<lambda>s.
           Inr (truncateLog (length (concat (recs @ marker)))
             ((writeHeader env final s)\<lparr>egLastSeq := LastWALSeq final\<rparr>))))))"

definition commitBuffered :: "engineEnv \<Rightarrow> writeTxn \<Rightarrow> engine \<Rightarrow> engine_error + engine" where
  "commitBuffered env txn s =
     (if txPending txn = []
      then if dcHeaderMAC (envDisk env) then commitAuthenticatedHeaderOnly env (txHdr txn) s
           else Inr (writeHeader env (txHdr txn) s)
      else commitPages env txn s)"

subsection \<open>Group commit\<close>

record groupJob =
  gjPending :: "pendingRedo list"
  gjHdr :: Header

definition setGroupUnflushed :: "Header \<Rightarrow> engine \<Rightarrow> engine" where
  "setGroupUnflushed h s = s\<lparr>egUnflushed := Some h\<rparr>"

definition clearGroupUnflushed :: "engine \<Rightarrow> engine" where
  "clearGroupUnflushed s = s\<lparr>egUnflushed := None\<rparr>"

definition removeGroupOverlay :: "uint64 \<Rightarrow> engine \<Rightarrow> engine" where
  "removeGroupOverlay pageID s = s\<lparr>egOverlay := (egOverlay s)(pageID := None)\<rparr>"

text \<open>
  The job for the queue, none when only the header changes, which is written at once. A queue
  that is being closed, and so refuses the job, is not modelled.
\<close>

definition enqueueGroupWALJob :: "engineEnv \<Rightarrow> writeTxn \<Rightarrow> engine \<Rightarrow> engine_error + groupJob option \<times> engine" where
  "enqueueGroupWALJob env txn s =
     (if txPending txn = []
      then if dcHeaderMAC (envDisk env) then mapR (\<lambda>s. (None, s)) (commitAuthenticatedHeaderOnly env (txHdr txn) s)
           else Inr (None, writeHeader env (txHdr txn) s)
      else let hdr = (txHdr txn)\<lparr>LastWALSeq := prSeq (last (txPending txn))\<rparr>;
               s = s\<lparr>egOverlay := fold (\<lambda>p ov. ov(prPageID p \<mapsto> prPlain p)) (txPending txn) (egOverlay s)\<rparr>
           in Inr (Some \<lparr>gjPending = txPending txn, gjHdr = hdr\<rparr>, setGroupUnflushed hdr s))"

definition groupFinalHeader :: "groupJob list \<Rightarrow> Header" where
  "groupFinalHeader jobs =
     (let lastRedoSeq = fold (\<lambda>p lastSeq. if prSeq p > lastSeq then prSeq p else lastSeq) (concat (map gjPending jobs)) 0
      in (gjHdr (last jobs))\<lparr>LastWALSeq := lastRedoSeq\<rparr>)"

text \<open>The log records of a batch, and how many bytes they take.\<close>

definition groupWriteWAL :: "engineEnv \<Rightarrow> groupJob list \<Rightarrow> engine \<Rightarrow> engine_error + nat \<times> engine" where
  "groupWriteWAL env jobs s =
     bindR (redoRecords (envHmac env) (envDisk env) (concat (map gjPending jobs))) (\<lambda>recs.
     bindR (if dcHeaderMAC (envDisk env)
            then mapR (\<lambda>r. [r]) (encodeHeaderWALRecord (envHmac env) (envDisk env) (groupFinalHeader jobs))
            else Inr []) (\<lambda>marker.
       Inr (length (concat (recs @ marker)), fold (walWrite env) (recs @ marker) s)))"

text \<open>The state that is left behind goes with the error.\<close>

primrec groupWritePrimary :: "engineEnv \<Rightarrow> pendingRedo list \<Rightarrow> engine \<Rightarrow> engine_error option \<times> engine" where
  "groupWritePrimary env [] s = (None, s)"
| "groupWritePrimary env (p # ps) s =
     (case writePrimaryData env p s of
        Inl e \<Rightarrow> (Some e, s)
      | Inr s \<Rightarrow> groupWritePrimary env ps (removeGroupOverlay (prPageID p) s))"

definition groupFinalizeHeader :: "engineEnv \<Rightarrow> groupJob list \<Rightarrow> engine \<Rightarrow> engine" where
  "groupFinalizeHeader env jobs s =
     (let final = groupFinalHeader jobs
      in clearGroupUnflushed ((writeHeader env final s)\<lparr>egLastSeq := LastWALSeq final\<rparr>))"

definition applyGroupBatchPipeline :: "engineEnv \<Rightarrow> groupJob list \<Rightarrow> engine \<Rightarrow> engine_error option \<times> engine" where
  "applyGroupBatchPipeline env jobs s =
     (case groupWriteWAL env jobs s of
        Inl e \<Rightarrow> (Some e, s)
      | Inr (written, s) \<Rightarrow>
          (case groupWritePrimary env (concat (map gjPending jobs)) s of
             (Some e, s) \<Rightarrow> (Some e, s)
           | (None, s) \<Rightarrow> (None, truncateLog written (groupFinalizeHeader env jobs s))))"

definition applyGroupBatch :: "engineEnv \<Rightarrow> groupJob list \<Rightarrow> engine \<Rightarrow> engine_error option \<times> engine" where
  "applyGroupBatch env jobs s =
     (if jobs = [] then (None, s)
      else case applyGroupBatchPipeline env jobs s of
        (None, s) \<Rightarrow> (None, s)
      | (Some e, s) \<Rightarrow>
          (Some e, clearGroupUnflushed (fold removeGroupOverlay (map prPageID (concat (map gjPending jobs))) s)))"

text \<open>Commit and wait, with no other job in the queue.\<close>

definition commitWriteTxnGrouped :: "engineEnv \<Rightarrow> writeTxn \<Rightarrow> engine \<Rightarrow> engine_error + engine" where
  "commitWriteTxnGrouped env txn s =
     bindR (enqueueGroupWALJob env txn s) (\<lambda>(job, s).
       case job of
         None \<Rightarrow> Inr s
       | Some job \<Rightarrow> (case applyGroupBatch env [job] s of (Some e, s) \<Rightarrow> Inl e | (None, s) \<Rightarrow> Inr s))"

text \<open>
  The schedules of writers and flusher, with the jobs that are queued: a writer queues the job of
  its transaction, the flusher takes the first jobs of the queue, as many as were ready, as a batch
  (at shutdown, \<open>drainGroupJobChNoWait\<close>, one by one).
\<close>

inductive group_run ::
  "engineEnv \<Rightarrow> engine \<times> groupJob list \<Rightarrow> groupJob list \<Rightarrow> engine \<times> groupJob list \<Rightarrow> bool" for env c where
  idle: "group_run env c [] c"
| enqueue: "group_run env c jobs (s, queue) \<Longrightarrow> enqueueGroupWALJob env txn s = Inr (Some job, s') \<Longrightarrow>
    group_run env c (jobs @ [job]) (s', queue @ [job])"
| flush: "group_run env c jobs (s, batch @ queue) \<Longrightarrow> batch \<noteq> [] \<Longrightarrow> applyGroupBatch env batch s = (None, s') \<Longrightarrow>
    group_run env c jobs (s', queue)"

fun drainGroupJobChNoWait :: "engineEnv \<Rightarrow> groupJob list \<Rightarrow> engine \<Rightarrow> engine_error option list \<times> engine" where
  "drainGroupJobChNoWait env [] s = ([], s)"
| "drainGroupJobChNoWait env (j # queue) s =
     (case applyGroupBatch env [j] s of (result, s) \<Rightarrow>
        (case drainGroupJobChNoWait env queue s of (results, s) \<Rightarrow> (result # results, s)))"

definition pageLimit :: "engineEnv \<Rightarrow> writeTxn \<Rightarrow> bool" where
  "pageLimit env txn \<longleftrightarrow> envPageSize env + unat (NextPageID (txHdr txn)) * envPhysical env < 2 ^ 63"

lemma offset_below:
  assumes "p < n" "ps + unat n * phys < 2 ^ 63"
  shows "isOk (pageByteOffset p ps phys)"
proof (cases "p = 0")
  case False
  have "unat (p - 1) \<le> unat n" using assms(1) False by (simp add: word_less_nat_alt unat_minus_one)
  then have "ps + unat (p - 1) * phys < 2 ^ 63" using assms(2) mult_le_mono1 [of "unat (p - 1)" "unat n" phys] by linarith
  then have "pageByteOffset p ps phys = Inr (of_nat (ps + unat (p - 1) * phys))"
    using pageByteOffset_iff [of ps p phys] assms(2) False by simp
  then show ?thesis by simp
qed (simp add: pageByteOffset_def)

subsection \<open>What a commit leaves on the disk\<close>

lemma find_snoc: "find P (xs @ [x]) = (case find P xs of None \<Rightarrow> if P x then Some x else None | Some y \<Rightarrow> Some y)"
  by (induction xs) simp_all

lemma pages_written:
  "pPages (dPrimary (fold (\<lambda>p. diskStep (PageWrite p)) ps d)) =
   pPages (dPrimary d) ++ (\<lambda>q. map_option prPlain (find (\<lambda>r. prPageID r = q) (rev ps)))"
proof (induction ps arbitrary: d)
  case (Cons p ps)
  have "pPages (dPrimary (diskStep (PageWrite p) d)) = (pPages (dPrimary d))(prPageID p \<mapsto> prPlain p)"
    by (simp add: diskStep_def)
  then show ?case by (auto simp: Cons.IH find_snoc map_add_def fun_eq_iff split: option.splits)
qed (simp add: fun_eq_iff map_add_def)

lemma fold_pages_other:
  "pHeader (dPrimary (fold (\<lambda>p. diskStep (PageWrite p)) ps d)) = pHeader (dPrimary d)"
  "dWal (fold (\<lambda>p. diskStep (PageWrite p)) ps d) = dWal d" "dWalPos (fold (\<lambda>p. diskStep (PageWrite p)) ps d) = dWalPos d"
  by (induction ps arbitrary: d) (simp_all add: diskStep_def)

lemma writePrimaryPages_ok:
  assumes "\<forall>p \<in> set ps. length (prPlain p) = envPhysical env \<and>
    isOk (pageByteOffset (prPageID p) (envPageSize env) (envPhysical env))"
  shows "writePrimaryPages env ps s = Inr (s\<lparr>egDisk := fold (\<lambda>p. diskStep (PageWrite p)) ps (egDisk s)\<rparr>)"
  using assms
proof (induction ps arbitrary: s)
  case (Cons p ps)
  then obtain off where "pageByteOffset (prPageID p) (envPageSize env) (envPhysical env) = Inr off"
    by (cases "pageByteOffset (prPageID p) (envPageSize env) (envPhysical env)") simp_all
  with Cons show ?case by (simp add: writePrimaryData_def)
qed simp

lemma walWrites: "fold (walWrite env) recs s = s\<lparr>egDisk := fold diskStep (map WalWrite recs) (egDisk s)\<rparr>"
  by (induction recs arbitrary: s) (simp_all add: walWrite_def)

lemma fold_wal_primary: "dPrimary (fold diskStep (map WalWrite recs) d) = dPrimary d"
  by (induction recs arbitrary: d) (simp_all add: diskStep_def)

definition onDisk :: "engineEnv \<Rightarrow> Header \<Rightarrow> Header" where
  "onDisk env h = (if dcHeaderMAC (envDisk env) then authenticateHeader (envHmac env) h (dcHeaderKey (envDisk env)) else h)"

lemma writeHeader_onDisk: "writeHeader env h s = s\<lparr>egDisk := diskStep (HeaderWrite (encodeHeaderPage (onDisk env h))) (egDisk s)\<rparr>"
  by (simp add: writeHeader_def onDisk_def headerOnDisk_def)

lemma onDisk_simps [simp]:
  "FormatVersion (onDisk env h) = FormatVersion h" "NextPageID (onDisk env h) = NextPageID h"
  "BTreeRoot (onDisk env h) = BTreeRoot h" "BTreeRootGeneration (onDisk env h) = BTreeRootGeneration h"
  "FreelistHead (onDisk env h) = FreelistHead h" "FreelistHeadGeneration (onDisk env h) = FreelistHeadGeneration h"
  "FreelistCount (onDisk env h) = FreelistCount h" "InlineFreelist (onDisk env h) = InlineFreelist h"
  "LastWALSeq (onDisk env h) = LastWALSeq h"
  by (simp_all add: onDisk_def authenticateHeader_def Let_def)

lemma onDisk_fits: "mac32 (envHmac env) \<Longrightarrow> headerFits env h \<Longrightarrow> headerFits env (onDisk env h)"
  by (simp add: onDisk_def authenticateHeader_def Let_def headerFits_def headerOk_def)

lemma readDiskHeader_written:
  assumes "mac32 (envHmac env)" "headerFits env h" "pHeader (dPrimary (egDisk s)) = encodeHeaderPage (onDisk env h)"
  shows "readDiskHeader env s = Inr (onDisk env h)"
proof -
  have fits: "headerOk (onDisk env h)" "unat (hPageSize (onDisk env h)) = envPageSize env"
    using onDisk_fits [OF assms(1,2)] by (simp_all add: headerFits_def)
  then have "readHeaderAt (pHeader (dPrimary (egDisk s))) (envPageSize env) = Inr (onDisk env h)"
    using headerOk_page [OF fits(1)] by (simp add: assms(3) readHeaderAt_def decode_encodeHeaderPage)
  moreover have "dcHeaderMAC (envDisk env) \<Longrightarrow>
      verifyHeaderAuthentication (envHmac env) (onDisk env h) (dcHeaderKey (envDisk env))"
    by (simp add: onDisk_def verifyHeaderAuthentication_def authenticateHeader_def Let_def)
  ultimately show ?thesis by (simp add: readDiskHeader_def)
qed

lemma marker_written:
  "\<exists>r. encodeHeaderWALRecord (envHmac env) (envDisk env) h = Inr r"
  by (auto simp: encodeHeaderWALRecord_def Let_def redoRecord_iff entryFits_def)

text \<open>The commit on the disk: the buffered pages over the old ones, then the header.\<close>

definition committed :: "engineEnv \<Rightarrow> engine \<Rightarrow> writeTxn \<Rightarrow> engine \<Rightarrow> bool" where
  "committed env s txn s1 \<longleftrightarrow> egWtxn s1 = None \<and> egOverlay s1 = egOverlay s \<and> egUnflushed s1 = egUnflushed s \<and>
     pPages (dPrimary (egDisk s1)) = pPages (dPrimary (egDisk s)) ++ txDirty txn \<and>
     (\<exists>q. pHeader (dPrimary (egDisk s1)) = encodeHeaderPage (onDisk env ((txHdr txn)\<lparr>LastWALSeq := q\<rparr>)))"

lemma commitBuffered_ok:
  assumes "dirtyOk env txn" "pageLimit env txn" "egWtxn s = None"
  shows "\<exists>s1. commitBuffered env txn s = Inr s1 \<and> committed env s txn s1 \<and>
    (txPending txn \<noteq> [] \<longrightarrow> (\<exists>steps. commitSteps (envHmac env) (envDisk env) (txHdr txn) (txPending txn) = Inr steps \<and>
      egDisk s1 = fold diskStep steps (egDisk s)))"
proof (cases "txPending txn = []")
  case True
  have none: "txDirty txn = (\<lambda>_. None)" using assms(1) True by (auto simp: dirtyOk_def)
  show ?thesis
  proof (cases "dcHeaderMAC (envDisk env)")
    case False
    have "committed env s txn (writeHeader env (txHdr txn) s)"
      unfolding committed_def
      by (intro conjI exI [of _ "LastWALSeq (txHdr txn)"]) (simp_all add: writeHeader_onDisk diskStep_def none assms(3))
    then show ?thesis using True False by (simp add: commitBuffered_def)
  next
    case mac: True
    obtain r where "encodeHeaderWALRecord (envHmac env) (envDisk env) ((txHdr txn)\<lparr>LastWALSeq := egNextWALSeq s + 1\<rparr>) = Inr r"
      using marker_written by blast
    then show ?thesis
      using True mac assms(3) by (auto simp: commitBuffered_def commitAuthenticatedHeaderOnly_def Let_def committed_def
          truncateLog_def writeHeader_onDisk walWrite_def diskStep_def none)
  qed
next
  case False
  let ?f = "(txHdr txn)\<lparr>LastWALSeq := prSeq (last (txPending txn))\<rparr>"
  have fit: "length (prPlain p) = envPhysical env" "prPageID p < NextPageID (txHdr txn)" if "p \<in> set (txPending txn)" for p
    using assms(1) that by (auto simp: dirtyOk_def redoOk_def)
  define recs where "recs = map (\<lambda>p. recBytes (envHmac env) (envDisk env) (prSeq p, prPageID p, prPlain p)) (txPending txn)"
  have recs: "redoRecords (envHmac env) (envDisk env) (txPending txn) = Inr recs"
    using fit(1) by (simp add: redoRecords_iff recs_def pendEntry_def entryFits_def)
  have "\<exists>marker. (if dcHeaderMAC (envDisk env)
      then mapR (\<lambda>r. [r]) (encodeHeaderWALRecord (envHmac env) (envDisk env) ?f) else Inr []) = Inr marker"
    using marker_written [of env ?f] by auto
  then obtain marker where marker: "(if dcHeaderMAC (envDisk env)
      then mapR (\<lambda>r. [r]) (encodeHeaderWALRecord (envHmac env) (envDisk env) ?f) else Inr []) = Inr marker" by blast
  have "isOk (pageByteOffset (prPageID p) (envPageSize env) (envPhysical env))" if "p \<in> set (txPending txn)" for p
    using fit(2) [OF that] assms(2) unfolding pageLimit_def by (rule offset_below)
  then have w: "writePrimaryPages env (txPending txn) s' =
      Inr (s'\<lparr>egDisk := fold (\<lambda>p. diskStep (PageWrite p)) (txPending txn) (egDisk s')\<rparr>)" for s'
    using fit(1) by (intro writePrimaryPages_ok) blast
  define steps where "steps = map WalWrite (recs @ marker) @ [WalSync] @ map PageWrite (txPending txn) @
    [PrimarySync, HeaderWrite (encodeHeaderPage (onDisk env ?f)), PrimarySync,
     WalTruncate (length (concat (recs @ marker))), WalSync]"
  define s1 where "s1 = s\<lparr>egDisk := fold diskStep steps (egDisk s), egLastSeq := LastWALSeq ?f\<rparr>"
  have S: "commitSteps (envHmac env) (envDisk env) (txHdr txn) (txPending txn) = Inr steps"
    unfolding commitSteps_def Let_def recs bindR_Inr marker
    by (simp add: steps_def onDisk_def headerOnDisk_def)
  have C: "commitBuffered env txn s = Inr s1"
    using False by (simp add: commitBuffered_def commitPages_def Let_def recs marker w walWrites truncateLog_def
        writeHeader_onDisk s1_def steps_def fold_map comp_def diskStep_def [of WalSync] diskStep_def [of PrimarySync])
  have dirty: "txDirty txn = (\<lambda>q. map_option prPlain (find (\<lambda>r. prPageID r = q) (rev (txPending txn))))"
    using assms(1) by (auto simp: dirtyOk_def)
  have "committed env s txn s1"
    unfolding committed_def
  proof (intro conjI exI [of _ "prSeq (last (txPending txn))"])
    show "pPages (dPrimary (egDisk s1)) = pPages (dPrimary (egDisk s)) ++ txDirty txn"
      by (simp add: s1_def steps_def fold_map comp_def pages_written dirty diskStep_def [of WalSync] diskStep_def [of PrimarySync]
          diskStep_def [of "WalTruncate n" for n] diskStep_def [of "HeaderWrite h" for h])
        (use fold_wal_primary [of "recs @ marker"] in \<open>simp add: fold_map comp_def\<close>)
    show "pHeader (dPrimary (egDisk s1)) = encodeHeaderPage (onDisk env ?f)"
      by (simp add: s1_def steps_def diskStep_def)
  qed (simp_all add: s1_def assms(3))
  then show ?thesis using C S by (auto simp: s1_def)
qed

subsection \<open>The group commit on the disk\<close>

lemma fold_overlay:
  "fold (\<lambda>p ov. ov(prPageID p \<mapsto> prPlain p)) ps ov =
   ov ++ (\<lambda>q. map_option prPlain (find (\<lambda>r. prPageID r = q) (rev ps)))"
proof (induction ps arbitrary: ov)
  case (Cons p ps)
  then show ?case by (auto simp: find_snoc map_add_def fun_eq_iff split: option.splits)
qed (simp add: map_add_def)

lemma groupWritePrimary_ok:
  assumes "\<forall>p \<in> set ps. length (prPlain p) = envPhysical env \<and>
    isOk (pageByteOffset (prPageID p) (envPageSize env) (envPhysical env))"
  shows "groupWritePrimary env ps s = (None, s\<lparr>egDisk := fold (\<lambda>p. diskStep (PageWrite p)) ps (egDisk s),
    egOverlay := (\<lambda>q. if q \<in> prPageID ` set ps then None else egOverlay s q)\<rparr>)"
  using assms
proof (induction ps arbitrary: s)
  case (Cons p ps)
  then obtain off where "pageByteOffset (prPageID p) (envPageSize env) (envPhysical env) = Inr off"
    by (cases "pageByteOffset (prPageID p) (envPageSize env) (envPhysical env)") simp_all
  with Cons show ?case by (auto simp: writePrimaryData_def removeGroupOverlay_def fun_eq_iff)
qed simp

text \<open>What the jobs write to a page: the last redo of it.\<close>

definition jobPages :: "groupJob list \<Rightarrow> uint64 \<Rightarrow> bytes option" where
  "jobPages jobs q = map_option prPlain (find (\<lambda>r. prPageID r = q) (rev (concat (map gjPending jobs))))"

lemma find_append: "find P (xs @ ys) = (case find P xs of None \<Rightarrow> find P ys | Some y \<Rightarrow> Some y)"
  by (induction xs) simp_all

lemma jobPages_append: "jobPages (js @ ks) = jobPages js ++ jobPages ks"
  by (rule ext) (simp add: jobPages_def find_append map_add_def split: option.splits)

lemma jobPages_dom: "jobPages jobs q = None \<longleftrightarrow> q \<notin> prPageID ` set (concat (map gjPending jobs))"
  by (auto simp: jobPages_def find_None_iff)

text \<open>What a flushed batch leaves: its pages on the disk and out of the overlay, and its header.\<close>

definition flushed :: "engineEnv \<Rightarrow> groupJob list \<Rightarrow> engine \<Rightarrow> engine \<Rightarrow> bool" where
  "flushed env jobs s s1 \<longleftrightarrow>
     pPages (dPrimary (egDisk s1)) = pPages (dPrimary (egDisk s)) ++ jobPages jobs \<and>
     pHeader (dPrimary (egDisk s1)) = encodeHeaderPage (onDisk env (groupFinalHeader jobs)) \<and>
     egOverlay s1 = (\<lambda>q. if jobPages jobs q = None then egOverlay s q else None) \<and>
     egUnflushed s1 = None \<and> egWtxn s1 = egWtxn s"

lemma applyGroupBatch_ok:
  assumes "jobs \<noteq> []" "\<forall>p \<in> set (concat (map gjPending jobs)). length (prPlain p) = envPhysical env \<and>
    isOk (pageByteOffset (prPageID p) (envPageSize env) (envPhysical env))"
  shows "\<exists>s1. applyGroupBatch env jobs s = (None, s1) \<and> flushed env jobs s s1"
proof -
  let ?redo = "concat (map gjPending jobs)" and ?f = "groupFinalHeader jobs"
  define recs where "recs = map (\<lambda>p. recBytes (envHmac env) (envDisk env) (prSeq p, prPageID p, prPlain p)) ?redo"
  have recs: "redoRecords (envHmac env) (envDisk env) ?redo = Inr recs"
    using assms(2) by (simp add: redoRecords_iff recs_def pendEntry_def entryFits_def)
  have "\<exists>marker. (if dcHeaderMAC (envDisk env)
      then mapR (\<lambda>r. [r]) (encodeHeaderWALRecord (envHmac env) (envDisk env) ?f) else Inr []) = Inr marker"
    using marker_written [of env ?f] by auto
  then obtain marker where marker: "(if dcHeaderMAC (envDisk env)
      then mapR (\<lambda>r. [r]) (encodeHeaderWALRecord (envHmac env) (envDisk env) ?f) else Inr []) = Inr marker" by blast
  define d where "d = fold diskStep (map WalWrite (recs @ marker)) (egDisk s)"
  define d1 where "d1 = diskStep (WalTruncate (length (concat (recs @ marker))))
    (diskStep (HeaderWrite (encodeHeaderPage (onDisk env ?f))) (fold (\<lambda>p. diskStep (PageWrite p)) ?redo d))"
  define s1 where "s1 = s\<lparr>egOverlay := (\<lambda>q. if q \<in> prPageID ` set ?redo then None else egOverlay s q),
    egLastSeq := LastWALSeq ?f, egUnflushed := None, egDisk := d1\<rparr>"
  have "groupWriteWAL env jobs s = Inr (length (concat (recs @ marker)), s\<lparr>egDisk := d\<rparr>)"
    by (simp only: groupWriteWAL_def recs marker bindR_Inr walWrites d_def)
  then have "applyGroupBatch env jobs s = (None, s1)"
    using assms(1)
    by (simp cong: if_cong add: applyGroupBatch_def applyGroupBatchPipeline_def groupWritePrimary_ok [OF assms(2)]
        groupFinalizeHeader_def Let_def truncateLog_def clearGroupUnflushed_def writeHeader_onDisk s1_def d1_def)
  moreover have "flushed env jobs s s1"
  proof -
    have "dPrimary d = dPrimary (egDisk s)" by (simp only: d_def fold_wal_primary)
    moreover have "pPages (dPrimary d1) = pPages (dPrimary (fold (\<lambda>p. diskStep (PageWrite p)) ?redo d))"
      "pHeader (dPrimary d1) = encodeHeaderPage (onDisk env ?f)"
      by (simp_all add: d1_def diskStep_def [of "WalTruncate n" for n] diskStep_def [of "HeaderWrite h" for h])
    ultimately show ?thesis
      by (simp add: flushed_def s1_def pages_written jobPages_dom) (simp add: jobPages_def [abs_def] fun_eq_iff)
  qed
  ultimately show ?thesis by blast
qed

text \<open>A group commit of one transaction leaves what the classic commit leaves.\<close>

lemma commitWriteTxnGrouped_ok:
  assumes "dirtyOk env txn" "pageLimit env txn" "egWtxn s = None" "egOverlay s = (\<lambda>_. None)" "egUnflushed s = None"
  shows "\<exists>s1. commitWriteTxnGrouped env txn s = Inr s1 \<and> committed env s txn s1"
proof (cases "txPending txn = []")
  case True
  have "commitWriteTxnGrouped env txn s = commitBuffered env txn s"
    using True by (cases "commitAuthenticatedHeaderOnly env (txHdr txn) s")
      (simp_all add: commitWriteTxnGrouped_def enqueueGroupWALJob_def commitBuffered_def)
  then show ?thesis using commitBuffered_ok [OF assms(1-3)] by auto
next
  case False
  let ?hdr = "(txHdr txn)\<lparr>LastWALSeq := prSeq (last (txPending txn))\<rparr>"
  let ?job = "\<lparr>gjPending = txPending txn, gjHdr = ?hdr\<rparr>"
  define s' where "s' = setGroupUnflushed ?hdr (s\<lparr>egOverlay := fold (\<lambda>p ov. ov(prPageID p \<mapsto> prPlain p))
    (txPending txn) (egOverlay s)\<rparr>)"
  have dirty: "txDirty txn = (\<lambda>q. map_option prPlain (find (\<lambda>r. prPageID r = q) (rev (txPending txn))))"
    using assms(1) by (auto simp: dirtyOk_def)
  have "\<forall>p \<in> set (concat (map gjPending [?job])). length (prPlain p) = envPhysical env \<and>
      isOk (pageByteOffset (prPageID p) (envPageSize env) (envPhysical env))"
    using assms(1,2) by (auto simp: dirtyOk_def redoOk_def pageLimit_def intro: offset_below)
  from applyGroupBatch_ok [OF _ this, of s'] obtain s1 where s1: "applyGroupBatch env [?job] s' = (None, s1)"
    "flushed env [?job] s' s1" by auto
  have "commitWriteTxnGrouped env txn s = Inr s1"
    using False s1(1) by (simp add: commitWriteTxnGrouped_def enqueueGroupWALJob_def Let_def s'_def)
  moreover have "committed env s txn s1"
    unfolding committed_def
  proof (intro conjI exI)
    show "egOverlay s1 = egOverlay s"
      using s1(2) by (auto simp: flushed_def s'_def setGroupUnflushed_def fold_overlay assms(4) jobPages_def fun_eq_iff)
    show "pHeader (dPrimary (egDisk s1)) =
        encodeHeaderPage (onDisk env ((txHdr txn)\<lparr>LastWALSeq := LastWALSeq (groupFinalHeader [?job])\<rparr>))"
      using s1(2) by (simp add: flushed_def groupFinalHeader_def Let_def)
  qed (use s1(2) dirty assms(3,5) in \<open>simp_all add: flushed_def jobPages_def [abs_def] s'_def setGroupUnflushed_def\<close>)
  ultimately show ?thesis by blast
qed

text \<open>
  Every schedule writes the jobs in the order they were queued: what is on the disk is what the
  flushed jobs wrote, and what is staged beside it belongs to jobs that still wait.
\<close>

definition jobFits :: "engineEnv \<Rightarrow> groupJob \<Rightarrow> bool" where
  "jobFits env job \<longleftrightarrow> (\<forall>p \<in> set (gjPending job). length (prPlain p) = envPhysical env \<and>
     isOk (pageByteOffset (prPageID p) (envPageSize env) (envPhysical env)))"

lemma flush_job:
  assumes "applyGroupBatch env batch s = (None, s1)" "batch \<noteq> []" "\<forall>j \<in> set batch. jobFits env j"
  shows "pPages (dPrimary (egDisk s1)) = pPages (dPrimary (egDisk s)) ++ jobPages batch"
    "pHeader (dPrimary (egDisk s1)) = encodeHeaderPage (onDisk env (groupFinalHeader batch))"
    "egOverlay s1 = (\<lambda>q. if jobPages batch q = None then egOverlay s q else None)" "egUnflushed s1 = None"
    "egWtxn s1 = egWtxn s"
proof -
  have "\<forall>p \<in> set (concat (map gjPending batch)). length (prPlain p) = envPhysical env \<and>
      isOk (pageByteOffset (prPageID p) (envPageSize env) (envPhysical env))"
    using assms(3) by (auto simp: jobFits_def)
  from applyGroupBatch_ok [OF assms(2) this, of s] assms(1) have "flushed env batch s s1" by simp
  then show "pPages (dPrimary (egDisk s1)) = pPages (dPrimary (egDisk s)) ++ jobPages batch"
    "pHeader (dPrimary (egDisk s1)) = encodeHeaderPage (onDisk env (groupFinalHeader batch))"
    "egOverlay s1 = (\<lambda>q. if jobPages batch q = None then egOverlay s q else None)" "egUnflushed s1 = None"
    "egWtxn s1 = egWtxn s"
    by (simp_all add: flushed_def)
qed

lemma flush_succeeds: "batch \<noteq> [] \<Longrightarrow> \<forall>j \<in> set batch. jobFits env j \<Longrightarrow> \<exists>s1. applyGroupBatch env batch s = (None, s1)"
  using applyGroupBatch_ok [of batch env s] by (auto simp: jobFits_def)

lemma find_SomeD: "find P xs = Some x \<Longrightarrow> P x \<and> x \<in> set xs"
  by (induction xs) (auto split: if_splits)

lemma jobFits_page:
  assumes "jobFits env job" "jobPages [job] p = Some b"
  shows "length b = envPhysical env \<and> isOk (pageByteOffset p (envPageSize env) (envPhysical env))"
  using assms by (auto simp: jobFits_def jobPages_def dest!: find_SomeD)

lemma enqueue_job:
  assumes "enqueueGroupWALJob env txn s = Inr (Some job, s1)"
  shows "egDisk s1 = egDisk s" "egOverlay s1 = egOverlay s ++ jobPages [job]" "egUnflushed s1 = Some (gjHdr job)"
    "gjPending job = txPending txn" "txPending txn \<noteq> []"
    "gjHdr job = (txHdr txn)\<lparr>LastWALSeq := prSeq (last (txPending txn))\<rparr>" "egWtxn s1 = egWtxn s"
  using assms by (auto simp: enqueueGroupWALJob_def Let_def setGroupUnflushed_def fold_overlay jobPages_def [abs_def]
      split: if_splits) (cases "commitAuthenticatedHeaderOnly env (txHdr txn) s"; simp)+

definition groupInv :: "engineEnv \<Rightarrow> engine \<Rightarrow> groupJob list \<Rightarrow> engine \<Rightarrow> groupJob list \<Rightarrow> groupJob list \<Rightarrow> bool" where
  "groupInv env s0 jobs s written queue \<longleftrightarrow> jobs = written @ queue \<and>
     pPages (dPrimary (egDisk s)) = pPages (dPrimary (egDisk s0)) ++ jobPages written \<and>
     (\<forall>q. jobPages queue q = None \<longrightarrow> egOverlay s q = None) \<and>
     (queue = [] \<longrightarrow> egUnflushed s = None) \<and>
     (written \<noteq> [] \<longrightarrow> (\<exists>n. pHeader (dPrimary (egDisk s)) = encodeHeaderPage (onDisk env ((gjHdr (last written))\<lparr>LastWALSeq := n\<rparr>))))"

lemma group_run_inv:
  assumes "group_run env c jobs c'" "c = (s0, [])" "egOverlay s0 = (\<lambda>_. None)" "egUnflushed s0 = None"
    "\<forall>j \<in> set jobs. jobFits env j"
  shows "\<exists>written. groupInv env s0 jobs (fst c') written (snd c')"
  using assms
proof (induction rule: group_run.induct)
  case idle
  then show ?case by (simp add: groupInv_def jobPages_def [abs_def] map_add_def)
next
  case (enqueue jobs s queue txn job s')
  then obtain written where w: "groupInv env s0 jobs s written queue" by auto
  from enqueue_job [OF enqueue.hyps(2)] w have "groupInv env s0 (jobs @ [job]) s' written (queue @ [job])"
    by (auto simp: groupInv_def jobPages_append map_add_def split: option.splits)
  then show ?case by auto
next
  case (flush jobs s batch queue s')
  then obtain written where w: "groupInv env s0 jobs s written (batch @ queue)" by auto
  have "\<forall>j \<in> set batch. jobFits env j" using w flush.prems(4) by (simp add: groupInv_def)
  note f = flush_job [OF flush.hyps(3,2) this]
  have "groupInv env s0 jobs s' (written @ batch) queue"
    unfolding groupInv_def
  proof (intro conjI impI allI)
    show "pPages (dPrimary (egDisk s')) = pPages (dPrimary (egDisk s0)) ++ jobPages (written @ batch)"
      using w by (simp add: groupInv_def f(1) jobPages_append)
    show "egOverlay s' q = None" if "jobPages queue q = None" for q
      using w that by (auto simp: groupInv_def f(3) jobPages_append map_add_def)
    show "\<exists>n. pHeader (dPrimary (egDisk s')) = encodeHeaderPage (onDisk env ((gjHdr (last (written @ batch)))\<lparr>LastWALSeq := n\<rparr>))"
      using flush.hyps(2) by (auto simp: f(2) groupFinalHeader_def Let_def)
  qed (use w f(4) in \<open>simp_all add: groupInv_def\<close>)
  then show ?case by auto
qed

text \<open>A commit of one page, for the examples.\<close>

definition pageTxn :: "byte \<Rightarrow> writeTxn" where
  "pageTxn b = \<lparr>txHdr = plainHeader, txPending = [\<lparr>prSeq = 8, prPageID = 1, prPlain = replicate 4096 b\<rparr>],
     txDirty = \<lambda>_. None, txFreePageIDs = [], txFreePageSet = {}, txFreelistPageIDs = [], txFreelistDirty = False\<rparr>"

definition pageJob :: "byte \<Rightarrow> groupJob" where
  "pageJob b = \<lparr>gjPending = [\<lparr>prSeq = 8, prPageID = 1, prPlain = replicate 4096 b\<rparr>],
     gjHdr = plainHeader\<lparr>LastWALSeq := 8\<rparr>\<rparr>"

lemma pageJob_fits: "jobFits plainEnv (pageJob b)"
  by (simp add: jobFits_def pageJob_def pageByteOffset_def)

lemma pageTxn_enqueue: "\<exists>s'. enqueueGroupWALJob plainEnv (pageTxn b) s = Inr (Some (pageJob b), s')"
  by (simp add: enqueueGroupWALJob_def pageTxn_def pageJob_def Let_def)

subsection \<open>Properties\<close>

text \<open>C8: Group commit order. In every schedule of writers that queue commits and the flusher that
  takes them in batches of any size, once the queue is empty the pages on the disk are those of the
  commits written one after the other in the order they were queued, no page and no header is left
  staged beside the disk, and the header on the disk is the one of the last commit.\<close>
theorem Group_commit_order:
  assumes "group_run env (s0, []) jobs (s, [])" "egOverlay s0 = (\<lambda>_. None)" "egUnflushed s0 = None"
    and "\<forall>j \<in> set jobs. jobFits env j"
  shows "pPages (dPrimary (egDisk s)) = fold (\<lambda>p pages. pages(prPageID p \<mapsto> prPlain p))
      (concat (map gjPending jobs)) (pPages (dPrimary (egDisk s0))) \<and>
    egOverlay s = (\<lambda>_. None) \<and> egUnflushed s = None \<and>
    (jobs \<noteq> [] \<longrightarrow> (\<exists>n. pHeader (dPrimary (egDisk s)) = encodeHeaderPage (onDisk env ((gjHdr (last jobs))\<lparr>LastWALSeq := n\<rparr>))))"
proof -
  from group_run_inv [OF assms(1) refl assms(2-4)] have "groupInv env s0 jobs s jobs []"
    by (auto simp: groupInv_def)
  then show ?thesis
    by (simp add: groupInv_def jobPages_def [abs_def] fold_overlay fun_eq_iff)
qed

theorem Group_commit_order_witness:
  "\<exists>j1 j2 s. group_run plainEnv (emptyEngine\<lparr>egWtxn := None\<rparr>, []) [j1, j2] (s, []) \<and>
     pPages (dPrimary (egDisk s)) 1 = Some (replicate 4096 6)"
proof -
  let ?s0 = "emptyEngine\<lparr>egWtxn := None\<rparr>"
  obtain s1 s2 where e: "enqueueGroupWALJob plainEnv (pageTxn 5) ?s0 = Inr (Some (pageJob 5), s1)"
    "enqueueGroupWALJob plainEnv (pageTxn 6) s1 = Inr (Some (pageJob 6), s2)" using pageTxn_enqueue by metis
  obtain s3 where s3: "applyGroupBatch plainEnv [pageJob 5, pageJob 6] s2 = (None, s3)"
    using flush_succeeds [of "[pageJob 5, pageJob 6]" plainEnv] pageJob_fits by force
  have "group_run plainEnv (?s0, []) ([] @ [pageJob 5]) (s1, [] @ [pageJob 5])"
    by (rule group_run.enqueue [OF group_run.idle e(1)])
  from group_run.enqueue [OF this e(2)] have "group_run plainEnv (?s0, []) [pageJob 5, pageJob 6] (s2, [pageJob 5, pageJob 6] @ [])"
    by simp
  from group_run.flush [OF this _ s3] have r: "group_run plainEnv (?s0, []) [pageJob 5, pageJob 6] (s3, [])" by simp
  have "pPages (dPrimary (egDisk s3)) 1 = Some (replicate 4096 6)"
    using Group_commit_order [OF r] pageJob_fits by (simp add: emptyEngine_def pageJob_def)
  then show ?thesis using r by blast
qed

text \<open>C9: A later commit can be hidden for a while. When two queued commits wrote the same page
  and the flusher takes the first one alone, readers, who saw the second commit's page before, see
  the first one's: writing a page drops the page's staged copy, whichever commit it belongs to.
  Once the second commit is flushed, readers see its page again. (The database waits for the
  flusher before it lets the next writer in; the engine's \<open>CommitWriteTxnBeginAsync\<close> does
  not require it.)\<close>
theorem Group_flush_hides_later_commit:
  assumes "dcHeaderMAC (envDisk env) = False" "\<And>q b. transformRead (envHooks env) q b = Inr b"
    and "envPhysical env = envPageSize env" "p \<noteq> 0" "egWtxn s = None"
    and "enqueueGroupWALJob env txn1 s = Inr (Some job1, s1)" "enqueueGroupWALJob env txn2 s1 = Inr (Some job2, s2)"
    and "jobFits env job1" "jobFits env job2" "jobPages [job1] p = Some old" "jobPages [job2] p = Some new"
    and "applyGroupBatch env [job1] s2 = (None, s3)" "applyGroupBatch env [job2] s3 = (None, s4)"
  shows "readPagePooled env s2 p = Inr new \<and> readPagePooled env s3 p = Inr old \<and> readPagePooled env s4 p = Inr new"
proof -
  note len = jobFits_page [where env = env, unfolded assms(3)]
  obtain off where off: "pageByteOffset p (envPageSize env) (envPageSize env) = Inr off"
    using len [OF assms(8,10)] by (cases "pageByteOffset p (envPageSize env) (envPageSize env)") simp_all
  have w: "egWtxn s2 = None" "egWtxn s3 = None" "egWtxn s4 = None"
    using enqueue_job(7) [OF assms(6)] enqueue_job(7) [OF assms(7)] flush_job(5) [OF assms(12)] flush_job(5) [OF assms(13)] assms(5,8,9)
    by simp_all
  note pool = readPagePooled_def pooledTransformRead_def readPageFromDisk_def validateRootPageGeneration_def
  have "egOverlay s2 p = Some new" using enqueue_job(2) [OF assms(7)] assms(11) by simp
  moreover have "egOverlay s3 p = None" "pPages (dPrimary (egDisk s3)) p = Some old"
    using flush_job(1,3) [OF assms(12)] assms(8,10) by simp_all
  moreover have "egOverlay s4 p = None" "pPages (dPrimary (egDisk s4)) p = Some new"
    using flush_job(1,3) [OF assms(13)] assms(9,11) by simp_all
  ultimately show ?thesis
    using len [OF assms(8,10)] len [OF assms(9,11)] by (simp add: pool w assms(1-4) off)
qed

theorem Group_flush_hides_later_commit_witness:
  "\<exists>s1 s2 s3 job1 job2. enqueueGroupWALJob plainEnv (pageTxn 5) (emptyEngine\<lparr>egWtxn := None\<rparr>) = Inr (Some job1, s1) \<and>
     enqueueGroupWALJob plainEnv (pageTxn 6) s1 = Inr (Some job2, s2) \<and> applyGroupBatch plainEnv [job1] s2 = (None, s3) \<and>
     readPagePooled plainEnv s2 1 = Inr (replicate 4096 6) \<and> readPagePooled plainEnv s3 1 = Inr (replicate 4096 5)"
proof -
  obtain s1 s2 where e: "enqueueGroupWALJob plainEnv (pageTxn 5) (emptyEngine\<lparr>egWtxn := None\<rparr>) = Inr (Some (pageJob 5), s1)"
    "enqueueGroupWALJob plainEnv (pageTxn 6) s1 = Inr (Some (pageJob 6), s2)" using pageTxn_enqueue by metis
  obtain s3 s4 where f: "applyGroupBatch plainEnv [pageJob 5] s2 = (None, s3)" "applyGroupBatch plainEnv [pageJob 6] s3 = (None, s4)"
    using flush_succeeds [of "[pageJob 5]" plainEnv] flush_succeeds [of "[pageJob 6]" plainEnv] pageJob_fits by force
  have "readPagePooled plainEnv s2 1 = Inr (replicate 4096 6) \<and> readPagePooled plainEnv s3 1 = Inr (replicate 4096 5) \<and>
      readPagePooled plainEnv s4 1 = Inr (replicate 4096 6)"
    by (rule Group_flush_hides_later_commit [OF _ _ _ _ _ e pageJob_fits pageJob_fits _ _ f])
      (simp_all add: emptyEngine_def transformRead_def pageJob_def jobPages_def, simp_all add: plainEnv_def)
  then show ?thesis using e f by blast
qed

end
