(* ===== verification/WriteTxn.thy ===== *)
theory WriteTxn
  imports Commit
begin

text \<open>
  The life of a write transaction: the allocator's stored state of \<open>internal/engine/freelist.go\<close>
  (\<open>loadWriteTxnFreelist\<close>, \<open>prepareFreelistCommit\<close>) and
  \<open>BeginWriteTxn\<close>, \<open>CommitWriteTxn\<close> and \<open>AbortWriteTxn\<close> of
  \<open>writetxn.go\<close>, which commits as \<open>Commit\<close> does, classic or grouped. The free list is kept in the header (40 ids) and in a
  chain of pages that are free pages themselves, each authenticated by the generation its
  predecessor names. The theorem: after a commit the next transaction sees the same pages, root,
  pages in use and, up to the pages that moved into the chain, the same free pages, so that the
  database the pages represent is the same.
\<close>

lemma bindR_cong [fundef_cong]: "m = m' \<Longrightarrow> (\<And>x. m' = Inr x \<Longrightarrow> f x = f' x) \<Longrightarrow> bindR m f = bindR m' f'"
  by (cases m') simp_all

subsection \<open>Loading the free list\<close>

definition addLoadedFreePage :: "uint64 \<Rightarrow> writeTxn \<Rightarrow> engine_error + writeTxn" where
  "addLoadedFreePage pageID txn =
     (if pageID = 0 \<or> pageID \<ge> NextPageID (txHdr txn)
      then Inl (ErrCorruptTree ''free page id outside allocator range'')
      else if pageID \<in> txFreePageSet txn then Inl (ErrCorruptTree ''duplicate free page id'')
      else Inr (txn\<lparr>txFreePageSet := insert pageID (txFreePageSet txn), txFreePageIDs := txFreePageIDs txn @ [pageID]\<rparr>))"

text \<open>The loop over the ids of the header (no chain page seen yet) and of a chain page.\<close>

primrec addLoadedFreePages :: "uint64 set \<Rightarrow> uint64 list \<Rightarrow> writeTxn \<Rightarrow> engine_error + writeTxn" where
  "addLoadedFreePages seen [] txn = Inr txn"
| "addLoadedFreePages seen (freeID # ids) txn =
     (if freeID \<in> seen then Inl (ErrCorruptTree ''freelist metadata page is also free'')
      else bindR (addLoadedFreePage freeID txn) (addLoadedFreePages seen ids))"

definition validateDataPageGeneration :: "engineEnv \<Rightarrow> engine \<Rightarrow> uint64 \<Rightarrow> uint64 \<Rightarrow> engine_error + unit" where
  "validateDataPageGeneration env s pageID expected =
     bindR (pageByteOffset pageID (envPageSize env) (envPhysical env)) (\<lambda>off.
     bindR (case pPages (dPrimary (egDisk s)) pageID of None \<Rightarrow> envUnwritten env pageID | Some p \<Rightarrow> Inr p) (\<lambda>buf.
       if length buf < 8 then Inl (EngineFailure ''EOF'')
       else if Uint64 (take 8 buf) \<noteq> expected then Inl (EngineFailure ''generation'') else Inr ()))"

text \<open>
  The chain loop. A damaged chain cannot make it run forever: the pages seen grow with every
  round, which is the termination measure.
\<close>

function loadFreelistPages ::
  "engineEnv \<Rightarrow> engine \<Rightarrow> uint64 set \<Rightarrow> uint64 \<Rightarrow> uint64 \<Rightarrow> uint64 \<Rightarrow> writeTxn \<Rightarrow> engine_error + uint64 \<times> writeTxn" where
  "loadFreelistPages env s seen remaining pageID expected txn =
     (if pageID = 0 then Inr (remaining, txn)
      else if pageID \<ge> NextPageID (txHdr txn) \<or> expected = 0 then Inl (ErrCorruptTree ''invalid freelist page'')
      else if pageID \<in> seen then Inl (ErrCorruptTree ''freelist metadata cycle'')
      else if pageID \<in> txFreePageSet txn then Inl (ErrCorruptTree ''freelist metadata page is also free'')
      else if \<not> isOk (validateDataPageGeneration env s pageID expected)
      then Inl (ErrCorruptTree ''freelist page generation'')
      else bindR (readPagePooled env s pageID) (\<lambda>page.
           bindR (decodeFreelistPage page) (\<lambda>(nextID, nextGeneration, ids).
             if of_nat (length ids) > remaining then Inl (ErrCorruptTree ''freelist page exceeds declared count'')
             else bindR (addLoadedFreePages (insert pageID seen) ids txn) (\<lambda>txn.
               loadFreelistPages env s (insert pageID seen) (remaining - of_nat (length ids)) nextID nextGeneration
                 (txn\<lparr>txFreelistPageIDs := txFreelistPageIDs txn @ [pageID]\<rparr>)))))"
  by pat_completeness auto

termination
proof (relation "measure (\<lambda>(env, s, seen, remaining, pageID, expected, txn). card (UNIV - seen))", goal_cases)
  case (2 env s seen remaining pageID expected txn)
  then have "UNIV - insert pageID seen \<subset> UNIV - seen" by blast
  then show ?case by (simp add: psubset_card_mono)
qed simp

declare loadFreelistPages.simps [simp del]

definition loadWriteTxnFreelist :: "engineEnv \<Rightarrow> engine \<Rightarrow> engine_error + engine" where
  "loadWriteTxnFreelist env s =
     (case egWtxn s of
        None \<Rightarrow> Inr s
      | Some txn \<Rightarrow>
          if FormatVersion (txHdr txn) \<noteq> formatVersionV3 then Inr s
          else let hdr = txHdr txn; txn = txn\<lparr>txFreePageSet := {}\<rparr>; remaining = FreelistCount hdr;
                   inlineCount = min remaining (of_nat HeaderInlineFreelistCapacity)
          in bindR (addLoadedFreePages {} (take (unat inlineCount) (InlineFreelist hdr)) txn) (\<lambda>txn.
             bindR (loadFreelistPages env s {} (remaining - inlineCount) (FreelistHead hdr)
                      (FreelistHeadGeneration hdr) txn) (\<lambda>(remaining, txn).
               if remaining \<noteq> 0 then Inl (ErrCorruptTree ''freelist page ids short'')
               else if FreelistHead hdr = 0 \<and> FreelistHeadGeneration hdr \<noteq> 0
               then Inl (ErrCorruptTree ''freelist head generation without a head'')
               else Inr (withTxn (txn\<lparr>txFreePageIDs := sort (txFreePageIDs txn)\<rparr>) s))))"

definition newTxn :: "Header \<Rightarrow> writeTxn" where
  "newTxn hdr = \<lparr>txHdr = hdr, txPending = [], txDirty = \<lambda>_. None, txFreePageIDs = [], txFreePageSet = {},
     txFreelistPageIDs = [], txFreelistDirty = False\<rparr>"

definition validateFreelistOnOpen :: "engineEnv \<Rightarrow> Header \<Rightarrow> engine \<Rightarrow> engine_error + unit" where
  "validateFreelistOnOpen env hdr s =
     (if FormatVersion hdr \<noteq> formatVersionV3 then Inr ()
      else mapR (\<lambda>_. ()) (loadWriteTxnFreelist env (withTxn (newTxn hdr) s)))"

definition BeginWriteTxn :: "engineEnv \<Rightarrow> engine \<Rightarrow> engine_error + engine" where
  "BeginWriteTxn env s =
     (if egWtxn s \<noteq> None then Inl ErrWriteTxnActive
      else bindR (visibleHeader env s) (\<lambda>hdr. loadWriteTxnFreelist env (withTxn (newTxn hdr) s)))"

definition AbortWriteTxn :: "engine \<Rightarrow> engine" where
  "AbortWriteTxn s = s\<lparr>egWtxn := None\<rparr>"

subsection \<open>Storing the free list\<close>

text \<open>How many of the free pages the chain needs to hold the others.\<close>

function metadataPages :: "nat \<Rightarrow> nat \<Rightarrow> nat \<Rightarrow> nat" where
  "metadataPages capacity poolLen metadataCount =
     (if poolLen - metadataCount > HeaderInlineFreelistCapacity + metadataCount * capacity
      then metadataPages capacity poolLen (metadataCount + 1) else metadataCount)"
  by pat_completeness auto

termination
  by (relation "measure (\<lambda>(capacity, poolLen, metadataCount). poolLen - metadataCount)") auto

declare metadataPages.simps [simp del]

text \<open>The pages of the chain are written from the last to the first; the answer is the head.\<close>

primrec writeFreelistPages ::
  "engineEnv \<Rightarrow> uint64 list \<Rightarrow> uint64 list \<Rightarrow> engine \<Rightarrow> engine_error + uint64 \<times> uint64 \<times> engine" where
  "writeFreelistPages env [] externalIDs s = Inr (0, 0, s)"
| "writeFreelistPages env (pageID # metadataIDs) externalIDs s =
     (let capacity = freelistPageCapacity (envPageSize env)
      in bindR (writeFreelistPages env metadataIDs (drop capacity externalIDs) s) (\<lambda>(nextID, nextGeneration, s).
         bindR (encodeFreelistPage (envPageSize env) (take capacity externalIDs) nextID nextGeneration) (\<lambda>page.
         bindR (writePageWithGeneration env pageID page s) (\<lambda>(generation, s). Inr (pageID, generation, s)))))"

definition mapTxn :: "(writeTxn \<Rightarrow> writeTxn) \<Rightarrow> engine \<Rightarrow> engine" where
  "mapTxn f s = s\<lparr>egWtxn := map_option f (egWtxn s)\<rparr>"

definition prepareFreelistCommit :: "engineEnv \<Rightarrow> engine \<Rightarrow> engine_error + engine" where
  "prepareFreelistCommit env s =
     (case egWtxn s of
        None \<Rightarrow> Inr s
      | Some txn \<Rightarrow>
          if FormatVersion (txHdr txn) \<noteq> formatVersionV3 \<or> \<not> txFreelistDirty txn then Inr s
          else let pool = sort (remdups (txFreePageIDs txn @ txFreelistPageIDs txn));
                   metadataCount = metadataPages (freelistPageCapacity (envPageSize env)) (length pool) 0;
                   metadataIDs = take metadataCount pool; freeIDs = drop metadataCount pool;
                   inlineCount = min (length freeIDs) HeaderInlineFreelistCapacity;
                   inlineIDs = take inlineCount freeIDs @ replicate (HeaderInlineFreelistCapacity - inlineCount) 0
          in bindR (writeFreelistPages env metadataIDs (drop inlineCount freeIDs)
                      (mapTxn (\<lambda>txn. txn\<lparr>txHdr := (txHdr txn)\<lparr>InlineFreelist := inlineIDs\<rparr>\<rparr>) s))
               (\<lambda>(nextID, nextGeneration, s). Inr (mapTxn (\<lambda>txn. txn\<lparr>
                  txHdr := (txHdr txn)\<lparr>FreelistHead := nextID, FreelistHeadGeneration := nextGeneration,
                    FreelistCount := of_nat (length freeIDs)\<rparr>,
                  txFreePageIDs := freeIDs, txFreePageSet := set freeIDs, txFreelistPageIDs := metadataIDs,
                  txFreelistDirty := False\<rparr>) s)))"

subsection \<open>Commit\<close>

definition CommitWriteTxn :: "engineEnv \<Rightarrow> engine \<Rightarrow> engine_error + engine" where
  "CommitWriteTxn env s =
     (if egWtxn s = None then Inl ErrNoWriteTxn
      else bindR (prepareFreelistCommit env s) (\<lambda>s.
        case egWtxn s of
          None \<Rightarrow> Inl ErrNoWriteTxn
        | Some txn \<Rightarrow>
            let s = s\<lparr>egWtxn := None\<rparr>
            in if envGroupWAL env then commitWriteTxnGrouped env txn s else commitBuffered env txn s))"

text \<open>The commit that does not wait: the job goes to the flusher's queue.\<close>

definition CommitWriteTxnBeginAsync :: "engineEnv \<Rightarrow> engine \<Rightarrow> engine_error + groupJob option \<times> engine" where
  "CommitWriteTxnBeginAsync env s =
     (if egWtxn s = None then Inl ErrNoWriteTxn
      else if \<not> envGroupWAL env then Inl (EngineFailure ''requires Group WAL'')
      else bindR (prepareFreelistCommit env s) (\<lambda>s.
        case egWtxn s of
          None \<Rightarrow> Inl ErrNoWriteTxn
        | Some txn \<Rightarrow> enqueueGroupWALJob env txn (s\<lparr>egWtxn := None\<rparr>)))"

subsection \<open>Loading a stored free list\<close>

lemma addLoaded_ok:
  assumes "distinct ids" "set ids \<inter> txFreePageSet txn = {}" "set ids \<inter> seen = {}"
    and "\<forall>p \<in> set ids. 0 < p \<and> p < NextPageID (txHdr txn)"
  shows "addLoadedFreePages seen ids txn =
    Inr (txn\<lparr>txFreePageSet := txFreePageSet txn \<union> set ids, txFreePageIDs := txFreePageIDs txn @ ids\<rparr>)"
  using assms
proof (induction ids arbitrary: txn)
  case (Cons p ids)
  have p: "p \<notin> seen" "p \<noteq> 0" "p < NextPageID (txHdr txn)" "p \<notin> txFreePageSet txn" using Cons.prems by auto
  let ?t = "txn\<lparr>txFreePageSet := insert p (txFreePageSet txn), txFreePageIDs := txFreePageIDs txn @ [p]\<rparr>"
  have "addLoadedFreePages seen ids ?t =
      Inr (?t\<lparr>txFreePageSet := txFreePageSet ?t \<union> set ids, txFreePageIDs := txFreePageIDs ?t @ ids\<rparr>)"
    using Cons.prems by (intro Cons.IH) auto
  then show ?case using p by (simp add: addLoadedFreePage_def not_le)
qed simp

text \<open>Reading a page of the chain, at the start of a transaction.\<close>

lemma read_clean:
  assumes "egWtxn s = Some txn" "txDirty txn p = None" "pPages (dPrimary (egDisk s)) p = Some phys"
    and "p \<noteq> 0" "p \<noteq> BTreeRoot (txHdr txn)" "isOk (pageByteOffset p (envPageSize env) (envPhysical env))"
    and "transformRead (envHooks env) p phys = Inr page" "length page = envPageSize env"
  shows "readPagePooled env s p = Inr page"
proof -
  obtain off where "pageByteOffset p (envPageSize env) (envPhysical env) = Inr off"
    using assms(6) by (cases "pageByteOffset p (envPageSize env) (envPhysical env)") simp_all
  then show ?thesis
    using assms by (simp add: readPagePooled_def readPageFromDisk_def validate_txn [OF assms(1)])
qed

lemma loadFreelistPages_ok:
  assumes "egWtxn s = Some txn0" "metaChain env (pPages (dPrimary (egDisk s))) metas ext pageID expected"
    and "\<forall>p. txDirty txn0 p = None" "unat remaining = length ext" "distinct metas" "distinct ext"
    and "set metas \<inter> seen = {}" "set ext \<inter> seen = {}" "set ext \<inter> set metas = {}"
    and "set metas \<inter> txFreePageSet txn = {}" "set ext \<inter> txFreePageSet txn = {}"
    and "\<forall>p \<in> set metas \<union> set ext. 0 < p \<and> p < NextPageID (txHdr txn)" "BTreeRoot (txHdr txn0) \<notin> set metas"
  shows "loadFreelistPages env s seen remaining pageID expected txn =
    Inr (0, txn\<lparr>txFreePageSet := txFreePageSet txn \<union> set ext, txFreePageIDs := txFreePageIDs txn @ ext,
      txFreelistPageIDs := txFreelistPageIDs txn @ metas\<rparr>)"
  using assms(2,4-13)
proof (induction metas arbitrary: ext pageID expected remaining seen txn)
  case Nil
  then show ?case by (simp add: loadFreelistPages.simps unat_eq_zero)
next
  case (Cons p metas)
  from Cons.prems(1) obtain phys page nextID nextGen ids1 ids2 where m: "pageID = p" "p \<noteq> 0" "expected \<noteq> 0"
    "isOk (pageByteOffset p (envPageSize env) (envPhysical env))"
    "pPages (dPrimary (egDisk s)) p = Some phys" "8 \<le> length phys" "Uint64 (take 8 phys) = expected"
    "transformRead (envHooks env) p phys = Inr page" "length page = envPageSize env"
    "decodeFreelistPage page = Inr (nextID, nextGen, ids1)" "ext = ids1 @ ids2"
    "metaChain env (pPages (dPrimary (egDisk s))) metas ids2 nextID nextGen" by auto
  have p: "p < NextPageID (txHdr txn)" "p \<notin> seen" "p \<notin> txFreePageSet txn" "p \<noteq> BTreeRoot (txHdr txn0)"
    using Cons.prems by auto
  have val: "isOk (validateDataPageGeneration env s p expected)"
    using m(4-7) by (cases "pageByteOffset p (envPageSize env) (envPhysical env)") (simp_all add: validateDataPageGeneration_def)
  have rd: "readPagePooled env s p = Inr page"
    by (rule read_clean [OF assms(1) _ m(5,2) p(4) m(4,8,9)]) (use assms(3) in simp)
  let ?n = "of_nat (length ids1) :: uint64"
  have len: "unat remaining = length ids1 + length ids2" using Cons.prems(2) m(11) by simp
  then have n: "unat ?n = length ids1" using unat_bound [of remaining] by (simp add: unat_of_nat take_bit_nat_eq_self)
  then have le: "\<not> ?n > remaining" and rem: "unat (remaining - ?n) = length ids2"
    using len by (simp_all add: word_less_nat_alt unat_sub word_le_nat_alt)
  let ?t = "txn\<lparr>txFreePageSet := txFreePageSet txn \<union> set ids1, txFreePageIDs := txFreePageIDs txn @ ids1\<rparr>"
  have add: "addLoadedFreePages (insert p seen) ids1 txn = Inr ?t"
    using Cons.prems(4,6,7,9,10) m(11) by (intro addLoaded_ok) auto
  let ?t' = "?t\<lparr>txFreelistPageIDs := txFreelistPageIDs txn @ [p]\<rparr>"
  have "loadFreelistPages env s (insert p seen) (remaining - ?n) nextID nextGen ?t' =
      Inr (0, ?t'\<lparr>txFreePageSet := txFreePageSet ?t' \<union> set ids2, txFreePageIDs := txFreePageIDs ?t' @ ids2,
        txFreelistPageIDs := txFreelistPageIDs ?t' @ metas\<rparr>)"
    using Cons.prems m(11,12) rem by (intro Cons.IH) auto
  then show ?case
    using m(2,3,10) p(1-3) val rd le add
    by (subst loadFreelistPages.simps) (simp add: m(1,11) not_le Un_assoc)
qed

lemma loadWriteTxnFreelist_ok:
  assumes "egWtxn s = Some txn0" "FormatVersion (txHdr txn0) = formatVersionV3" "\<forall>p. txDirty txn0 p = None"
    and "txFreePageIDs txn0 = []" "txFreelistPageIDs txn0 = []" "length (InlineFreelist (txHdr txn0)) = 40"
    and "freelistStored env (pPages (dPrimary (egDisk s))) (txHdr txn0) metas free" "distinct metas"
    and "free \<inter> set metas = {}" "\<forall>p \<in> set metas \<union> free. 0 < p \<and> p < NextPageID (txHdr txn0)"
    and "BTreeRoot (txHdr txn0) \<notin> set metas"
  shows "\<exists>ids. loadWriteTxnFreelist env s =
    Inr (withTxn (txn0\<lparr>txFreePageSet := free, txFreelistPageIDs := metas, txFreePageIDs := ids\<rparr>) s) \<and>
    distinct ids \<and> set ids = free"
proof -
  let ?h = "txHdr txn0"
  from assms(7) obtain ext where e: "unat (FreelistCount ?h) = length (inlineIDs ?h) + length ext"
    "metaChain env (pPages (dPrimary (egDisk s))) metas ext (FreelistHead ?h) (FreelistHeadGeneration ?h)"
    "distinct (inlineIDs ?h @ ext)" "set (inlineIDs ?h @ ext) = free" by (auto simp: freelistStored_def)
  let ?i = "min (FreelistCount ?h) (of_nat HeaderInlineFreelistCapacity)"
  have i: "unat ?i = min (unat (FreelistCount ?h)) 40"
    by (simp add: HeaderInlineFreelistCapacity_def min_def word_le_nat_alt)
  have inl: "take (unat ?i) (InlineFreelist ?h) = inlineIDs ?h"
    using assms(6) unfolding i inlineIDs_def by (cases "unat (FreelistCount ?h) \<le> 40") (simp_all add: min_def)
  have li: "length (inlineIDs ?h) = min (unat (FreelistCount ?h)) 40" using assms(6) by (simp add: inlineIDs_def)
  have rem: "unat (FreelistCount ?h - ?i) = length ext"
    using e(1) li i by (simp add: unat_sub word_le_nat_alt)
  let ?t = "txn0\<lparr>txFreePageSet := {}\<rparr>"
  have a1: "addLoadedFreePages {} (inlineIDs ?h) ?t =
      Inr (?t\<lparr>txFreePageSet := txFreePageSet ?t \<union> set (inlineIDs ?h), txFreePageIDs := txFreePageIDs ?t @ inlineIDs ?h\<rparr>)"
    using e(3,4) assms(10) by (intro addLoaded_ok) auto
  let ?t1 = "?t\<lparr>txFreePageSet := txFreePageSet ?t \<union> set (inlineIDs ?h), txFreePageIDs := txFreePageIDs ?t @ inlineIDs ?h\<rparr>"
  have a2: "loadFreelistPages env s {} (FreelistCount ?h - ?i) (FreelistHead ?h) (FreelistHeadGeneration ?h) ?t1 =
      Inr (0, ?t1\<lparr>txFreePageSet := txFreePageSet ?t1 \<union> set ext, txFreePageIDs := txFreePageIDs ?t1 @ ext,
        txFreelistPageIDs := txFreelistPageIDs ?t1 @ metas\<rparr>)"
    using e(3,4) assms(8-11) by (intro loadFreelistPages_ok [OF assms(1) e(2) assms(3) rem]) auto
  have head: "\<not> (FreelistHead ?h = 0 \<and> FreelistHeadGeneration ?h \<noteq> 0)" using e(2) by (cases metas) auto
  have "loadWriteTxnFreelist env s =
      Inr (withTxn (txn0\<lparr>txFreePageSet := free, txFreelistPageIDs := metas, txFreePageIDs := sort (inlineIDs ?h @ ext)\<rparr>) s)"
    using a1 a2 assms(2,4,5) e(4) head by (simp add: loadWriteTxnFreelist_def assms(1) Let_def inl)
  moreover have "distinct (sort (inlineIDs ?h @ ext))" "set (sort (inlineIDs ?h @ ext)) = free"
    using e(3,4) by simp_all
  ultimately show ?thesis by blast
qed

subsection \<open>Storing the free list for the next transaction\<close>

lemma metadataPages_spec:
  "m \<le> metadataPages cap n m \<and> n - metadataPages cap n m \<le> 40 + metadataPages cap n m * cap \<and>
   (m \<le> n \<longrightarrow> metadataPages cap n m \<le> n)"
proof (induction cap n m rule: metadataPages.induct)
  case (1 cap n m)
  show ?case
  proof (cases "n - m > HeaderInlineFreelistCapacity + m * cap")
    case True
    then show ?thesis using 1 [OF True] by (subst (1 2 3 4) metadataPages.simps) auto
  next
    case False
    then show ?thesis
      by (subst (1 2 3 4) metadataPages.simps) (simp add: HeaderInlineFreelistCapacity_def)
  qed
qed

lemma metaChain_cong:
  assumes "\<And>p. p \<in> set metas \<Longrightarrow> pages' p = pages p"
  shows "metaChain env pages' metas ext head gen = metaChain env pages metas ext head gen"
  using assms by (induction metas arbitrary: ext head gen) simp_all

lemma pageWritten_same:
  assumes "p \<noteq> BTreeRoot h" "p < NextPageID h"
  shows "pageWritten p seq h = h"
proof -
  have "p + 1 \<le> NextPageID h" using assms(2) by (simp add: inc_le)
  then show ?thesis using assms(1) by (simp add: pageWritten_def not_less)
qed

text \<open>What a sequence of buffered writes to free pages keeps of the transaction.\<close>

definition samePool :: "engineEnv \<Rightarrow> engine \<Rightarrow> writeTxn \<Rightarrow> engine \<Rightarrow> writeTxn \<Rightarrow> bool" where
  "samePool env s txn s' txn' \<longleftrightarrow> egWtxn s' = Some txn' \<and> sameDisk s s' \<and> txHdr txn' = txHdr txn \<and>
     txFreePageIDs txn' = txFreePageIDs txn \<and> txFreePageSet txn' = txFreePageSet txn \<and>
     txFreelistPageIDs txn' = txFreelistPageIDs txn \<and> dirtyOk env txn' \<and> rootOk env s' txn'"

lemma writeFreelistPages_ok:
  assumes "envOk env" "egWtxn s = Some txn" "dirtyOk env txn" "rootOk env s txn" "distinct ids"
    and "\<forall>p \<in> set ids. 0 < p \<and> p < NextPageID (txHdr txn) \<and> p \<noteq> BTreeRoot (txHdr txn) \<and>
      isOk (pageByteOffset p (envPageSize env) (envPhysical env))"
    and "length ext \<le> length ids * freelistPageCapacity (envPageSize env)" "dcHeaderMAC (envDisk env)"
    and "unat (egNextWALSeq s) + length ids < 2 ^ 64"
  shows "\<exists>head gen s' txn'. writeFreelistPages env ids ext s = Inr (head, gen, s') \<and> samePool env s txn s' txn' \<and>
    metaChain env (txDirty txn') ids ext head gen \<and> (head = 0 \<longleftrightarrow> gen = 0) \<and>
    (\<forall>p. p \<notin> set ids \<longrightarrow> txDirty txn' p = txDirty txn p) \<and> unat (egNextWALSeq s') = unat (egNextWALSeq s) + length ids"
  using assms(5-7,9)
proof (induction ids arbitrary: ext)
  case Nil
  then show ?case
    using assms(2-4) by (intro exI [of _ 0] exI [of _ s] exI [of _ txn]) (simp add: samePool_def sameDisk_def)
next
  case (Cons p ids)
  let ?cap = "freelistPageCapacity (envPageSize env)"
  have "length (drop ?cap ext) \<le> length ids * ?cap" "distinct ids" "unat (egNextWALSeq s) + length ids < 2 ^ 64"
    "\<forall>p \<in> set ids. 0 < p \<and> p < NextPageID (txHdr txn) \<and> p \<noteq> BTreeRoot (txHdr txn) \<and>
      isOk (pageByteOffset p (envPageSize env) (envPhysical env))"
    using Cons.prems by simp_all
  from Cons.IH [OF this(2,4,1,3)] obtain head gen s1 txn1 where w: "writeFreelistPages env ids (drop ?cap ext) s = Inr (head, gen, s1)"
    "samePool env s txn s1 txn1" "metaChain env (txDirty txn1) ids (drop ?cap ext) head gen" "head = 0 \<longleftrightarrow> gen = 0"
    "\<forall>p. p \<notin> set ids \<longrightarrow> txDirty txn1 p = txDirty txn p"
    "unat (egNextWALSeq s1) = unat (egNextWALSeq s) + length ids" by (elim exE conjE) (rule that)
  have ps: "envPageSize env \<in> {4096, 8192, 16384, 65536}" using assms(1) by (simp add: envOk_def)
  have "\<exists>page. encodeFreelistPage (envPageSize env) (take ?cap ext) head gen = Inr page \<and>
      length page = envPageSize env \<and> decodeFreelistPage page = Inr (head, gen, take ?cap ext)"
    by (rule encode_decode_freelist [OF _ _ _ w(4)]) (use ps in \<open>auto simp: freelistPageHeaderSize_def\<close>)
  then obtain page where page: "encodeFreelistPage (envPageSize env) (take ?cap ext) head gen = Inr page"
    "length page = envPageSize env" "decodeFreelistPage page = Inr (head, gen, take ?cap ext)" by blast
  let ?seq = "egNextWALSeq s1 + 1"
  have t1: "egWtxn s1 = Some txn1" "txHdr txn1 = txHdr txn" using w(2) by (simp_all add: samePool_def)
  have p: "0 < p" "p < NextPageID (txHdr txn)" "p \<noteq> BTreeRoot (txHdr txn)" "p \<noteq> 0" "p \<notin> set ids"
    "isOk (pageByteOffset p (envPageSize env) (envPhysical env))"
    using Cons.prems(1,2) by auto
  obtain out where out: "length out = envPhysical env" "transformRead (envHooks env) p out = Inr page"
    "dcHeaderMAC (envDisk env) \<longrightarrow> 8 \<le> length out \<and> Uint64 (take 8 out) = ?seq"
    "writePageWithGeneration env p page s1 = Inr (?seq, s1\<lparr>egNextWALSeq := ?seq, egWtxn := Some (buffered ?seq p out txn1)\<rparr>)"
    by (rule writePage_buffered [OF assms(1) t1(1) p(4) page(2)])
  define txn2 where "txn2 = buffered ?seq p out txn1"
  define s2 where "s2 = s1\<lparr>egNextWALSeq := ?seq, egWtxn := Some txn2\<rparr>"
  have lim: "unat p < 2 ^ 64 - 1" using p(2) unat_bound [of "NextPageID (txHdr txn)"] by (simp add: word_less_nat_alt)
  have seq: "unat ?seq = unat (egNextWALSeq s1) + 1"
    by (rule unat_succ) (use Cons.prems(4) w(6) in simp)
  have "writeFreelistPages env (p # ids) ext s = Inr (p, ?seq, s2)"
    using w(1) page(1) out(4) by (simp add: Let_def s2_def txn2_def)
  moreover have "samePool env s txn s2 txn2"
  proof -
    have "dirtyOk env txn2"
      unfolding txn2_def using w(2) by (intro buffered_dirtyOk p(1) lim out(1,3)) (simp add: samePool_def)
    moreover have "rootOk env s2 txn2"
      unfolding txn2_def using w(2) by (intro buffered_rootOk [where s = s1] out(3)) (simp_all add: samePool_def s2_def)
    ultimately show ?thesis
      using w(2) pageWritten_same [OF p(3,2)] by (simp add: samePool_def s2_def txn2_def sameDisk_def)
  qed
  moreover have "metaChain env (txDirty txn2) ids (drop ?cap ext) head gen"
    using w(3) p(5) by (subst metaChain_cong [of ids _ "txDirty txn1"]) (auto simp: txn2_def)
  then have "metaChain env (txDirty txn2) (p # ids) ext p ?seq"
    using p(4,6) out(1-3) assms(8) page(2,3) seq unfolding metaChain.simps
    by (intro conjI exI [of _ out] exI [of _ page] exI [of _ head] exI [of _ gen] exI [of _ "take ?cap ext"]
        exI [of _ "drop ?cap ext"]) (auto simp: txn2_def)
  moreover have "p = 0 \<longleftrightarrow> ?seq = 0" using p(4) seq by auto
  moreover have "\<forall>q. q \<notin> set (p # ids) \<longrightarrow> txDirty txn2 q = txDirty txn q" using w(5) by (simp add: txn2_def)
  moreover have "unat (egNextWALSeq s2) = unat (egNextWALSeq s) + length (p # ids)" using seq w(6) by (simp add: s2_def)
  ultimately show ?case by blast
qed

lemma metaChain_mono:
  assumes "metaChain env pages metas ext head gen" "\<And>p x. pages p = Some x \<Longrightarrow> pages' p = Some x"
  shows "metaChain env pages' metas ext head gen"
  using assms(1)
proof (induction metas arbitrary: ext head gen)
  case (Cons p metas)
  then show ?case using assms(2) by (fastforce simp del: isOk_def)
qed simp

lemma length_below:
  assumes "distinct xs" "\<forall>p \<in> set xs. 0 < p \<and> p < (n :: uint64)"
  shows "length xs < 2 ^ 64"
proof -
  have "card (unat ` set xs) \<le> card {..<unat n}"
    using assms(2) by (intro card_mono) (auto simp: word_less_nat_alt)
  moreover have "card (unat ` set xs) = length xs"
    using distinct_card [OF assms(1)] by (subst card_image) (simp_all add: inj_on_def flip: word_unat_eq_iff)
  ultimately show ?thesis using unat_bound [of n] by simp
qed

lemma dirtyOk_fields:
  assumes "dirtyOk env txn" "txDirty txn' = txDirty txn" "txPending txn' = txPending txn"
    and "NextPageID (txHdr txn') = NextPageID (txHdr txn)"
  shows "dirtyOk env txn'"
  using assms by (simp only: dirtyOk_def redoOk_def) blast

lemma rootOk_fields:
  assumes "rootOk env s txn" "egDisk s' = egDisk s" "txDirty txn' = txDirty txn"
    and "BTreeRoot (txHdr txn') = BTreeRoot (txHdr txn)"
    and "BTreeRootGeneration (txHdr txn') = BTreeRootGeneration (txHdr txn)"
  shows "rootOk env s' txn'"
  using assms by (simp only: rootOk_def physicalPage_def)

text \<open>The root page is neither free nor a page of the stored free list.\<close>

definition rootInUse :: "writeTxn \<Rightarrow> bool" where
  "rootInUse txn \<longleftrightarrow> BTreeRoot (txHdr txn) \<notin> txFreePageSet txn \<union> set (txFreelistPageIDs txn)"

definition prepared :: "engineEnv \<Rightarrow> engine \<Rightarrow> writeTxn \<Rightarrow> engine \<Rightarrow> writeTxn \<Rightarrow> bool" where
  "prepared env s txn s' txn' \<longleftrightarrow> egWtxn s' = Some txn' \<and> sameDisk s s' \<and>
     FormatVersion (txHdr txn') = FormatVersion (txHdr txn) \<and> NextPageID (txHdr txn') = NextPageID (txHdr txn) \<and>
     BTreeRoot (txHdr txn') = BTreeRoot (txHdr txn) \<and>
     BTreeRootGeneration (txHdr txn') = BTreeRootGeneration (txHdr txn) \<and>
     headerFits env (txHdr txn') \<and> dirtyOk env txn' \<and> rootOk env s' txn' \<and> freeOk txn' \<and>
     txFreePageSet txn' \<union> set (txFreelistPageIDs txn') = txFreePageSet txn \<union> set (txFreelistPageIDs txn) \<and>
     (FormatVersion (txHdr txn) = formatVersionV3 \<longrightarrow>
       freelistStored env (pPages (dPrimary (egDisk s)) ++ txDirty txn') (txHdr txn') (txFreelistPageIDs txn')
         (txFreePageSet txn')) \<and>
     (\<forall>p. p \<notin> txFreePageSet txn \<union> set (txFreelistPageIDs txn) \<longrightarrow> txDirty txn' p = txDirty txn p)"

lemma prepare_clean:
  assumes "txnReady env s txn" "egWtxn s = Some txn"
    and "FormatVersion (txHdr txn) \<noteq> formatVersionV3 \<or> \<not> txFreelistDirty txn"
  shows "prepareFreelistCommit env s = Inr s" "prepared env s txn s txn"
proof -
  show "prepareFreelistCommit env s = Inr s" using assms(2,3) by (auto simp: prepareFreelistCommit_def)
  have "freelistStored env (pPages (dPrimary (egDisk s)) ++ txDirty txn) (txHdr txn) (txFreelistPageIDs txn) (txFreePageSet txn)"
    if v3: "FormatVersion (txHdr txn) = formatVersionV3"
  proof -
    have st: "\<forall>p \<in> set (txFreelistPageIDs txn). txDirty txn p = None"
      "freelistStored env (pPages (dPrimary (egDisk s))) (txHdr txn) (txFreelistPageIDs txn) (txFreePageSet txn)"
      using assms(1,3) v3 by (simp_all add: txnReady_def storedOk_def)
    have "metaChain env (pPages (dPrimary (egDisk s)) ++ txDirty txn) (txFreelistPageIDs txn) ext head gen =
        metaChain env (pPages (dPrimary (egDisk s))) (txFreelistPageIDs txn) ext head gen" for ext head gen
      by (rule metaChain_cong) (simp add: st(1) map_add_def)
    then show ?thesis using st(2) by (simp add: freelistStored_def)
  qed
  then show "prepared env s txn s txn"
    using assms(1,2) by (simp add: prepared_def txnReady_def sameDisk_def)
qed

lemma prepare_dirty:
  assumes "envOk env" "txnReady env s txn" "egWtxn s = Some txn" "pageLimit env txn" and root: "rootInUse txn"
    and v3: "FormatVersion (txHdr txn) = formatVersionV3" and dirty: "txFreelistDirty txn"
    and seq: "unat (egNextWALSeq s) + length (txFreePageIDs txn) + length (txFreelistPageIDs txn) < 2 ^ 64"
  shows "\<exists>s' txn'. prepareFreelistCommit env s = Inr s' \<and> prepared env s txn s' txn' \<and>
    unat (egNextWALSeq s') \<le> unat (egNextWALSeq s) + length (txFreePageIDs txn) + length (txFreelistPageIDs txn)"
proof -
  let ?cap = "freelistPageCapacity (envPageSize env)" and ?h = "txHdr txn"
  have free: "freeOk txn" and mac: "dcHeaderMAC (envDisk env)" and fits: "headerFits env ?h"
    using assms(2) v3 by (simp_all add: txnReady_def macOk_def)
  define pool where "pool = sort (remdups (txFreePageIDs txn @ txFreelistPageIDs txn))"
  define n where "n = metadataPages ?cap (length pool) 0"
  define metas where "metas = take n pool"
  define ids where "ids = drop n pool"
  define k where "k = min (length ids) 40"
  have pool: "distinct pool" "set pool = txFreePageSet txn \<union> set (txFreelistPageIDs txn)"
    "length pool \<le> length (txFreePageIDs txn) + length (txFreelistPageIDs txn)"
    using free length_remdups_leq [of "txFreePageIDs txn @ txFreelistPageIDs txn"] by (auto simp: pool_def freeOk_def simp del: length_remdups_leq remdups_append)
  have range: "\<forall>p \<in> set pool. 0 < p \<and> p < NextPageID ?h \<and> p \<noteq> BTreeRoot ?h"
    using free pool(2) root by (auto simp: freeOk_def rootInUse_def)
  have n: "length pool - n \<le> 40 + n * ?cap" "n \<le> length pool"
    using metadataPages_spec [of 0 ?cap "length pool"] by (simp_all add: n_def)
  have parts: "pool = metas @ ids" "length metas = n" "length ids = length pool - n"
    using n(2) by (simp_all add: metas_def ids_def min_def)
  have len: "length ids < 2 ^ 64" using length_below [of pool "NextPageID ?h"] pool(1) range parts(1) by auto
  define hdr0 where "hdr0 = ?h\<lparr>InlineFreelist := take k ids @ replicate (40 - k) 0\<rparr>"
  define s0 where "s0 = mapTxn (\<lambda>txn. txn\<lparr>txHdr := (txHdr txn)\<lparr>InlineFreelist := take k ids @ replicate (40 - k) 0\<rparr>\<rparr>) s"
  define txn0 where "txn0 = txn\<lparr>txHdr := hdr0\<rparr>"
  have s0: "egWtxn s0 = Some txn0" "sameDisk s s0" "egNextWALSeq s0 = egNextWALSeq s" "egDisk s0 = egDisk s"
    using assms(3) by (simp_all add: s0_def mapTxn_def txn0_def hdr0_def sameDisk_def)
  have r: "dirtyOk env txn" "rootOk env s txn" using assms(2) by (simp_all add: txnReady_def)
  have r0: "dirtyOk env txn0" "rootOk env s0 txn0"
    by (rule dirtyOk_fields [OF r(1)], simp_all add: txn0_def hdr0_def)
      (rule rootOk_fields [OF r(2)], simp_all add: txn0_def hdr0_def s0(4))
  have m1: "distinct metas" using pool(1) parts(1) by simp
  have m2: "\<forall>p \<in> set metas. 0 < p \<and> p < NextPageID (txHdr txn0) \<and> p \<noteq> BTreeRoot (txHdr txn0) \<and>
      isOk (pageByteOffset p (envPageSize env) (envPhysical env))"
    using range parts(1) assms(4) by (auto simp: txn0_def hdr0_def pageLimit_def intro: offset_below)
  have m3: "length (drop k ids) \<le> length metas * ?cap" using n(1) parts(2,3) by (simp add: k_def)
  have m4: "unat (egNextWALSeq s0) + length metas < 2 ^ 64" using seq pool(3) n(2) parts(2) s0(3) by simp
  from writeFreelistPages_ok [OF assms(1) s0(1) r0 m1 m2 m3 mac m4] obtain head gen s1 txn1 where
    w: "writeFreelistPages env metas (drop k ids) s0 = Inr (head, gen, s1)"
    "samePool env s0 txn0 s1 txn1" "metaChain env (txDirty txn1) metas (drop k ids) head gen"
    "\<forall>p. p \<notin> set metas \<longrightarrow> txDirty txn1 p = txDirty txn0 p"
    "unat (egNextWALSeq s1) = unat (egNextWALSeq s0) + length metas" by (elim exE conjE) (rule that)
  have t1: "egWtxn s1 = Some txn1" "txHdr txn1 = hdr0" "sameDisk s0 s1" "dirtyOk env txn1" "rootOk env s1 txn1"
    using w(2) by (simp_all add: samePool_def txn0_def)
  define f :: "writeTxn \<Rightarrow> writeTxn" where "f = (\<lambda>txn. txn\<lparr>txHdr := (txHdr txn)\<lparr>FreelistHead := head, FreelistHeadGeneration := gen,
      FreelistCount := of_nat (length ids)\<rparr>, txFreePageIDs := ids, txFreePageSet := set ids,
      txFreelistPageIDs := metas, txFreelistDirty := False\<rparr>)"
  define s' where "s' = mapTxn f s1"
  define txn' where "txn' = f txn1"
  have P: "prepareFreelistCommit env s = Inr s'"
    using w(1) v3 dirty
    unfolding prepareFreelistCommit_def Let_def assms(3) option.case HeaderInlineFreelistCapacity_def
      pool_def [symmetric] n_def [symmetric] metas_def [symmetric] ids_def [symmetric] k_def [symmetric] s0_def [symmetric]
    by (simp add: s'_def f_def)
  have s': "egWtxn s' = Some txn'" "sameDisk s s'" "egDisk s' = egDisk s" "egNextWALSeq s' = egNextWALSeq s1"
    using t1(1,3) s0(2) by (simp_all add: s'_def mapTxn_def txn'_def sameDisk_def)
  have t': "txDirty txn' = txDirty txn1" "txPending txn' = txPending txn1" "txFreePageIDs txn' = ids"
    "txFreePageSet txn' = set ids" "txFreelistPageIDs txn' = metas" by (simp_all add: txn'_def f_def)
  have h': "txHdr txn' = hdr0\<lparr>FreelistHead := head, FreelistHeadGeneration := gen, FreelistCount := of_nat (length ids)\<rparr>"
    by (simp add: txn'_def f_def t1(2))
  have stored: "freelistStored env (pPages (dPrimary (egDisk s)) ++ txDirty txn') (txHdr txn') metas (set ids)"
  proof -
    have cnt: "unat (FreelistCount (txHdr txn')) = length ids"
      using len by (simp add: h' unat_of_nat take_bit_nat_eq_self)
    have inl: "inlineIDs (txHdr txn') = take k ids"
      unfolding inlineIDs_def cnt by (cases "length ids \<le> 40") (simp_all add: h' hdr0_def k_def)
    have "metaChain env (pPages (dPrimary (egDisk s)) ++ txDirty txn') metas (drop k ids) head gen"
      using w(3) by (rule metaChain_mono) (simp add: t'(1) map_add_def)
    moreover have "distinct ids" using pool(1) parts(1) by simp
    ultimately show ?thesis
      unfolding freelistStored_def inl cnt by (intro exI [of _ "drop k ids"]) (simp add: h' k_def flip: set_append)
  qed
  have "prepared env s txn s' txn'"
    unfolding prepared_def
  proof (intro conjI impI)
    show "headerFits env (txHdr txn')"
    proof -
      have "length (take k ids @ replicate (40 - k) (0 :: uint64)) = 40" by (simp add: k_def)
      then show ?thesis using fits by (simp add: headerFits_def headerOk_def h' hdr0_def)
    qed
    show "dirtyOk env txn'" by (rule dirtyOk_fields [OF t1(4)]) (simp_all add: t' h' t1(2))
    have "egDisk s' = egDisk s1" using t1(3) s0(4) s'(3) by (simp add: sameDisk_def)
    then show "rootOk env s' txn'" by (intro rootOk_fields [OF t1(5)]) (simp_all add: t' h' t1(2))
    show "freeOk txn'"
      using pool(1) range v3 by (auto simp: freeOk_def t' h' hdr0_def parts(1))
    show "txFreePageSet txn' \<union> set (txFreelistPageIDs txn') = txFreePageSet txn \<union> set (txFreelistPageIDs txn)"
      using pool(2) parts(1) by (auto simp: t')
    show "\<forall>p. p \<notin> txFreePageSet txn \<union> set (txFreelistPageIDs txn) \<longrightarrow> txDirty txn' p = txDirty txn p"
      using w(4) pool(2) parts(1) by (auto simp: t' txn0_def)
    show "freelistStored env (pPages (dPrimary (egDisk s)) ++ txDirty txn') (txHdr txn') (txFreelistPageIDs txn')
        (txFreePageSet txn')" unfolding t'(4,5) by (rule stored)
  qed (simp_all add: s' h' hdr0_def)
  then show ?thesis using P w(5) s0(3) s'(4) parts(2) n(2) pool(3) by auto
qed

subsection \<open>The next transaction\<close>

lemma freelistStored_fields:
  assumes "freelistStored env pages h metas free" "FreelistCount h' = FreelistCount h"
    and "InlineFreelist h' = InlineFreelist h" "FreelistHead h' = FreelistHead h"
    and "FreelistHeadGeneration h' = FreelistHeadGeneration h"
  shows "freelistStored env pages h' metas free"
  using assms by (simp add: freelistStored_def inlineIDs_def)

lemma prepare_ok:
  assumes "engineOk env s" "egWtxn s = Some txn" "rootInUse txn" "pageLimit env txn"
    and "unat (egNextWALSeq s) + length (txFreePageIDs txn) + length (txFreelistPageIDs txn) < 2 ^ 64"
  shows "\<exists>s' txn'. prepareFreelistCommit env s = Inr s' \<and> prepared env s txn s' txn' \<and> macOk env txn'"
proof -
  have t: "txnReady env s txn" "envOk env" using assms(1,2) by (simp_all add: engineOk_def)
  have "\<exists>s' txn'. prepareFreelistCommit env s = Inr s' \<and> prepared env s txn s' txn'"
  proof (cases "FormatVersion (txHdr txn) \<noteq> formatVersionV3 \<or> \<not> txFreelistDirty txn")
    case True
    from prepare_clean [OF t(1) assms(2) this] show ?thesis by blast
  next
    case False
    with prepare_dirty [OF t(2,1) assms(2,4,3) _ _ assms(5)] show ?thesis by auto
  qed
  then obtain s' txn' where "prepareFreelistCommit env s = Inr s'" "prepared env s txn s' txn'" by blast
  then show ?thesis using t(1) by (auto simp: prepared_def txnReady_def macOk_def)
qed

text \<open>Beginning a transaction on what \<open>committed\<close> describes.\<close>

lemma begin_loaded:
  assumes "egWtxn s1 = None" "visibleHeader env s1 = Inr H" "headerFits env H"
    and "FormatVersion H = formatVersionV3 \<longrightarrow> freelistStored env (pPages (dPrimary (egDisk s1))) H metas free"
    and "distinct metas" "free \<inter> set metas = {}" "\<forall>p \<in> set metas \<union> free. 0 < p \<and> p < NextPageID H"
    and "BTreeRoot H \<notin> set metas" "FormatVersion H \<noteq> formatVersionV3 \<longrightarrow> metas = [] \<and> free = {}"
  shows "\<exists>ids. BeginWriteTxn env s1 =
    Inr (withTxn ((newTxn H)\<lparr>txFreePageSet := free, txFreelistPageIDs := metas, txFreePageIDs := ids\<rparr>) s1) \<and>
    distinct ids \<and> set ids = free"
proof -
  have B: "BeginWriteTxn env s1 = loadWriteTxnFreelist env (withTxn (newTxn H) s1)"
    by (simp add: BeginWriteTxn_def assms(1,2))
  show ?thesis
  proof (cases "FormatVersion H = formatVersionV3")
    case True
    have "length (InlineFreelist H) = 40" using assms(3) by (simp add: headerFits_def headerOk_def)
    then have "\<exists>ids. loadWriteTxnFreelist env (withTxn (newTxn H) s1) =
        Inr (withTxn ((newTxn H)\<lparr>txFreePageSet := free, txFreelistPageIDs := metas, txFreePageIDs := ids\<rparr>)
          (withTxn (newTxn H) s1)) \<and> distinct ids \<and> set ids = free"
      using True assms(4-8) by (intro loadWriteTxnFreelist_ok) (simp_all add: withTxn_def newTxn_def)
    then show ?thesis by (simp add: B withTxn_def)
  next
    case False
    have "newTxn H = (newTxn H)\<lparr>txFreePageSet := {}, txFreelistPageIDs := [], txFreePageIDs := []\<rparr>"
      by (simp add: newTxn_def)
    then show ?thesis
      using False assms(9) by (intro exI [of _ "[]"]) (simp add: B loadWriteTxnFreelist_def withTxn_def newTxn_def)
  qed
qed

lemma begin_ready:
  assumes env: "envOk env" "macOk env txn'" "0 < NextPageID (txHdr txn')" "freeOk txn'" "rootOk env s' txn'"
    and disk: "pPages (dPrimary (egDisk s1)) = pPages (dPrimary (egDisk s')) ++ txDirty txn'"
    and H: "FormatVersion H = FormatVersion (txHdr txn')" "NextPageID H = NextPageID (txHdr txn')"
      "BTreeRoot H = BTreeRoot (txHdr txn')" "BTreeRootGeneration H = BTreeRootGeneration (txHdr txn')" "headerFits env H"
    and st: "FormatVersion H = formatVersionV3 \<longrightarrow>
      freelistStored env (pPages (dPrimary (egDisk s1))) H (txFreelistPageIDs txn') (txFreePageSet txn')"
    and ids: "distinct ids" "set ids = txFreePageSet txn'"
    and txn2: "txn2 = (newTxn H)\<lparr>txFreePageSet := txFreePageSet txn', txFreelistPageIDs := txFreelistPageIDs txn',
      txFreePageIDs := ids\<rparr>"
  shows "txnReady env (withTxn txn2 s1) txn2"
  unfolding txnReady_def
proof (intro conjI)
  show "macOk env txn2" "0 < NextPageID (txHdr txn2)" "headerFits env (txHdr txn2)"
    using env H by (simp_all add: macOk_def txn2 newTxn_def)
  show "freeOk txn2" using env(4) H ids by (auto simp: freeOk_def txn2 newTxn_def)
  show "dirtyOk env txn2" by (simp add: dirtyOk_def txn2 newTxn_def)
  have "physicalPage env (withTxn txn2 s1) txn2 p = physicalPage env s' txn' p" for p
    by (simp add: physicalPage_def txn2 newTxn_def withTxn_def disk map_add_def split: option.split)
  then show "rootOk env (withTxn txn2 s1) txn2"
    using env(5) H by (simp add: rootOk_def) (simp add: txn2 newTxn_def)
  show "storedOk env (withTxn txn2 s1) txn2" using st by (simp add: storedOk_def txn2 newTxn_def withTxn_def)
qed

lemma read_committed:
  assumes t: "egWtxn s = Some txn" "dirtyOk env txn" and t2: "egWtxn s2 = Some txn2" "txDirty txn2 p = None"
    and disk: "pPages (dPrimary (egDisk s2)) p = (pPages (dPrimary (egDisk s)) ++ txDirty txn) p"
    and H: "BTreeRoot (txHdr txn2) = BTreeRoot (txHdr txn)"
      "BTreeRootGeneration (txHdr txn2) = BTreeRootGeneration (txHdr txn)"
    and p: "isOk (pageByteOffset p (envPageSize env) (envPhysical env))"
  shows "readData env s2 p = readData env s p"
proof (cases "p = 0")
  case False
  obtain off where off: "pageByteOffset p (envPageSize env) (envPhysical env) = Inr off"
    using p by (cases "pageByteOffset p (envPageSize env) (envPhysical env)") simp_all
  have val: "validateRootPageGeneration env s2 p buf = validateRootPageGeneration env s p buf" for buf
    by (simp add: validate_txn [OF t(1)] validate_txn [OF t2(1)] H)
  show ?thesis
  proof (cases "txDirty txn p")
    case None
    then show ?thesis
      using False by (simp add: readData_def readPagePooled_def t(1) t2 readPageFromDisk_def off val disk map_add_def)
  next
    case (Some plain)
    then obtain r where "find (\<lambda>r. prPageID r = p) (rev (txPending txn)) = Some r" "prPlain r = plain"
      using t(2) by (auto simp: dirtyOk_def)
    then have "length plain = envPhysical env"
      using t(2) by (auto simp: dirtyOk_def redoOk_def find_Some_iff rev_nth)
    moreover have "1 \<le> p" using False by (simp add: word_le_nat_alt unat_eq_zero Suc_le_eq flip: unat_gt_0)
    ultimately show ?thesis
      using False Some
      by (simp add: readData_def readPagePooled_def t(1) t2 readPageFromDisk_def pooledTransformRead_def off val disk map_add_def)
  qed
qed (simp add: readData_def)

lemma commit_begin:
  assumes ok: "engineOk env s" "egWtxn s = Some txn" and mac: "mac32 (envHmac env)" and root: "rootInUse txn"
    and lim: "pageLimit env txn"
      "unat (egNextWALSeq s) + length (txFreePageIDs txn) + length (txFreelistPageIDs txn) < 2 ^ 64"
  shows "\<exists>s1 s2 txn2. CommitWriteTxn env s = Inr s1 \<and> BeginWriteTxn env s1 = Inr s2 \<and> engineOk env s2 \<and>
    egWtxn s2 = Some txn2 \<and> txPending txn2 = [] \<and> NextPageID (txHdr txn2) = NextPageID (txHdr txn) \<and>
    BTreeRoot (txHdr txn2) = BTreeRoot (txHdr txn) \<and> usedPages txn2 = usedPages txn \<and>
    (\<forall>p \<in> usedPages txn. readData env s2 p = readData env s p)"
proof -
  have r: "txnReady env s txn" "envOk env" "egOverlay s = (\<lambda>_. None)" "egUnflushed s = None"
    using ok by (simp_all add: engineOk_def)
  obtain s' txn' where pr: "prepareFreelistCommit env s = Inr s'" "prepared env s txn s' txn'" "macOk env txn'"
    using prepare_ok [OF ok root lim] by blast
  have t': "egWtxn s' = Some txn'" "sameDisk s s'" "FormatVersion (txHdr txn') = FormatVersion (txHdr txn)"
    "NextPageID (txHdr txn') = NextPageID (txHdr txn)" "BTreeRoot (txHdr txn') = BTreeRoot (txHdr txn)"
    "BTreeRootGeneration (txHdr txn') = BTreeRootGeneration (txHdr txn)" "headerFits env (txHdr txn')"
    "dirtyOk env txn'" "rootOk env s' txn'" "freeOk txn'"
    "txFreePageSet txn' \<union> set (txFreelistPageIDs txn') = txFreePageSet txn \<union> set (txFreelistPageIDs txn)"
    "FormatVersion (txHdr txn) = formatVersionV3 \<longrightarrow> freelistStored env (pPages (dPrimary (egDisk s)) ++ txDirty txn')
      (txHdr txn') (txFreelistPageIDs txn') (txFreePageSet txn')"
    "\<forall>p. p \<notin> txFreePageSet txn \<union> set (txFreelistPageIDs txn) \<longrightarrow> txDirty txn' p = txDirty txn p"
    using pr(2) unfolding prepared_def by blast+
  have "pageLimit env txn'" using lim(1) t'(4) by (simp add: pageLimit_def)
  then obtain s1 where
    c: "(if envGroupWAL env then commitWriteTxnGrouped env txn' (s'\<lparr>egWtxn := None\<rparr>)
         else commitBuffered env txn' (s'\<lparr>egWtxn := None\<rparr>)) = Inr s1" "committed env (s'\<lparr>egWtxn := None\<rparr>) txn' s1"
    using commitBuffered_ok [OF t'(8), of "s'\<lparr>egWtxn := None\<rparr>"] commitWriteTxnGrouped_ok [OF t'(8), of "s'\<lparr>egWtxn := None\<rparr>"]
      r(3,4) t'(2) by (cases "envGroupWAL env") (auto simp: sameDisk_def)
  have C: "CommitWriteTxn env s = Inr s1" by (simp add: CommitWriteTxn_def ok(2) pr(1) t'(1) c(1) Let_def)
  obtain q where d: "egWtxn s1 = None" "egOverlay s1 = (\<lambda>_. None)" "egUnflushed s1 = None"
    "pPages (dPrimary (egDisk s1)) = pPages (dPrimary (egDisk s)) ++ txDirty txn'"
    "pHeader (dPrimary (egDisk s1)) = encodeHeaderPage (onDisk env ((txHdr txn')\<lparr>LastWALSeq := q\<rparr>))"
    using c(2) t'(2) r(3,4) by (auto simp: committed_def sameDisk_def)
  define H where "H = onDisk env ((txHdr txn')\<lparr>LastWALSeq := q\<rparr>)"
  have "headerFits env ((txHdr txn')\<lparr>LastWALSeq := q\<rparr>)" by (rule headerFits_fields [OF t'(7)]) simp_all
  then have fits: "headerFits env H" and rd: "readDiskHeader env s1 = Inr H"
    using onDisk_fits [OF mac] readDiskHeader_written [OF mac _ d(5)] by (simp_all add: H_def)
  have H: "FormatVersion H = FormatVersion (txHdr txn')" "NextPageID H = NextPageID (txHdr txn')"
    "BTreeRoot H = BTreeRoot (txHdr txn')" "BTreeRootGeneration H = BTreeRootGeneration (txHdr txn')"
    by (simp_all add: H_def)
  have vis: "visibleHeader env s1 = Inr H" by (simp add: visibleHeader_def d(1,3) rd)
  have st: "FormatVersion H = formatVersionV3 \<longrightarrow>
      freelistStored env (pPages (dPrimary (egDisk s1))) H (txFreelistPageIDs txn') (txFreePageSet txn')"
    using t'(12) unfolding d(4) H(1) t'(3) by (intro impI) (rule freelistStored_fields, auto simp: H_def)
  have free: "distinct (txFreelistPageIDs txn')" "txFreePageSet txn' \<inter> set (txFreelistPageIDs txn') = {}"
    "\<forall>p \<in> set (txFreelistPageIDs txn') \<union> txFreePageSet txn'. 0 < p \<and> p < NextPageID H"
    "BTreeRoot H \<notin> set (txFreelistPageIDs txn')"
    "FormatVersion H \<noteq> formatVersionV3 \<longrightarrow> txFreelistPageIDs txn' = [] \<and> txFreePageSet txn' = {}"
    using t'(10,11) root by (auto simp: freeOk_def H t'(5) rootInUse_def)
  from begin_loaded [OF d(1) vis fits st free] obtain ids where b:
    "BeginWriteTxn env s1 = Inr (withTxn ((newTxn H)\<lparr>txFreePageSet := txFreePageSet txn',
      txFreelistPageIDs := txFreelistPageIDs txn', txFreePageIDs := ids\<rparr>) s1)"
    "distinct ids" "set ids = txFreePageSet txn'" by blast
  define txn2 where "txn2 = (newTxn H)\<lparr>txFreePageSet := txFreePageSet txn',
      txFreelistPageIDs := txFreelistPageIDs txn', txFreePageIDs := ids\<rparr>"
  define s2 where "s2 = withTxn txn2 s1"
  have B: "BeginWriteTxn env s1 = Inr s2" using b(1) by (simp add: s2_def txn2_def)
  have s2: "egWtxn s2 = Some txn2" "egDisk s2 = egDisk s1" "egOverlay s2 = (\<lambda>_. None)" "egUnflushed s2 = None"
    using d(2,3) by (simp_all add: s2_def withTxn_def)
  have "0 < NextPageID (txHdr txn')" using r(1) t'(4) by (simp add: txnReady_def)
  moreover have "pPages (dPrimary (egDisk s1)) = pPages (dPrimary (egDisk s')) ++ txDirty txn'"
    using d(4) t'(2) by (simp add: sameDisk_def)
  ultimately have "txnReady env s2 txn2"
    unfolding s2_def by (intro begin_ready [OF r(2) pr(3) _ t'(10,9) _ H fits st b(2,3) txn2_def])
  then have "engineOk env s2" using r(2) s2 by (simp add: engineOk_def)
  moreover have "usedPages txn2 = usedPages txn"
    using t'(4,11) by (auto simp: usedPages_def txn2_def newTxn_def H)
  moreover have "readData env s2 p = readData env s p" if "p \<in> usedPages txn" for p
  proof (rule read_committed [OF ok(2) _ s2(1)])
    show "dirtyOk env txn" using r(1) by (simp add: txnReady_def)
    show "pPages (dPrimary (egDisk s2)) p = (pPages (dPrimary (egDisk s)) ++ txDirty txn) p"
      using that t'(13) by (simp add: s2(2) d(4) usedPages_def map_add_def)
    show "isOk (pageByteOffset p (envPageSize env) (envPhysical env))"
      using that lim(1) by (auto simp: usedPages_def pageLimit_def intro: offset_below)
  qed (simp_all add: txn2_def newTxn_def H t')
  ultimately show ?thesis
    using C B s2(1) H t'(4,5) by (intro exI [of _ s1] exI [of _ s2] exI [of _ txn2]) (simp add: txn2_def newTxn_def)
qed

subsection \<open>Properties\<close>

lemma dbRep_keep:
  assumes "dbRep n fl V ot C M" "svRoot V' = svRoot V" "svUsed V' = svUsed V"
    and "\<And>p. p \<in> svUsed V \<Longrightarrow> svPage V' p = svPage V p"
  shows "dbRep n fl V' ot C M"
proof -
  have tree: "optTree n V ot" and C: "\<And>k. set (C k) \<subseteq> svUsed V" using assms(1) by (auto simp: dbRep_def)
  have "optTree n V' ot"
    using optTree_used [OF tree] assms(3,4) by (intro optTree_keep [OF tree _ assms(2)]) auto
  moreover have st: "storedData (svPage V') n raw (C k) data = storedData (svPage V) n raw (C k) data" for k raw data
    using C [of k] assms(4) by (intro txn.storedData_cong) blast
  ultimately show ?thesis using assms(1) unfolding dbRep_def st assms(3) by blast
qed

text \<open>C7: Commit and begin. Committing a write transaction whose pages represent the map \<open>M\<close>
  succeeds in every format version, with and without group commit: the free list is stored in the header and in free pages of its
  own, and a transaction begun afterwards loads the stored free list without error, satisfies the engine's
  invariant, has the same pages in use and the same next page id, and its pages represent \<open>M\<close>:
  \<open>Get\<close> answers every key as \<open>M\<close> does.\<close>
theorem Commit_keeps_the_map:
  assumes "engineOk env s" "egWtxn s = Some txn" "\<forall>k m. length (envHmac env k m) = 32"
    and "envPageSize env + unat (NextPageID (txHdr txn)) * envPhysical env < 2 ^ 63"
    and "unat (egNextWALSeq s) + length (txFreePageIDs txn) + length (txFreelistPageIDs txn) < 2 ^ 64"
    and "dbRep (envPageSize env) fl (engineView env s) ot C M"
  shows "\<exists>s1 s2 txn2. CommitWriteTxn env s = Inr s1 \<and> BeginWriteTxn env s1 = Inr s2 \<and> engineOk env s2 \<and>
    egWtxn s2 = Some txn2 \<and> usedPages txn2 = usedPages txn \<and> NextPageID (txHdr txn2) = NextPageID (txHdr txn) \<and>
    dbRep (envPageSize env) fl (engineView env s2) ot C M \<and>
    (\<forall>k fuel. optHeight ot < fuel \<and> length (C k) < fuel \<longrightarrow> Get (engineOps env) fl fuel s2 k = Inr (M k))"
proof -
  have lim: "pageLimit env txn" using assms(4) by (simp add: pageLimit_def)
  have "optTree (envPageSize env) (engineView env s) ot" using assms(6) by (simp add: dbRep_def)
  then have "BTreeRoot (txHdr txn) = 0 \<or> BTreeRoot (txHdr txn) \<in> usedPages txn"
    using pids_rootId by (fastforce simp: optTree_def treeIn_def engineView_def assms(2) split: option.splits)
  moreover have "freeOk txn" using assms(1,2) by (auto simp: engineOk_def txnReady_def)
  ultimately have "rootInUse txn" by (auto simp: rootInUse_def usedPages_def freeOk_def)
  from commit_begin [OF assms(1-3) this lim assms(5)] obtain s1 s2 txn2 where
    c: "CommitWriteTxn env s = Inr s1" "BeginWriteTxn env s1 = Inr s2" "engineOk env s2" "egWtxn s2 = Some txn2"
    "NextPageID (txHdr txn2) = NextPageID (txHdr txn)" "BTreeRoot (txHdr txn2) = BTreeRoot (txHdr txn)"
    "usedPages txn2 = usedPages txn" "\<forall>p \<in> usedPages txn. readData env s2 p = readData env s p" by blast
  have rep: "dbRep (envPageSize env) fl (engineView env s2) ot C M"
    by (rule dbRep_keep [OF assms(6)]) (use c(4,6-8) in \<open>simp_all add: engineView_def assms(2)\<close>)
  have "opPageSize (engineOps env) = envPageSize env" by (simp add: engineOps_def)
  with txn.Get_ok [where env = env, OF c(3)] rep
  have "\<forall>k fuel. optHeight ot < fuel \<and> length (C k) < fuel \<longrightarrow> Get (engineOps env) fl fuel s2 k = Inr (M k)" by simp
  then show ?thesis using c rep by blast
qed

theorem Commit_keeps_the_map_witness:
  "\<exists>s s1 s2 fuel. Put (engineOps plainEnv) storedFlate 1 [1] [2] emptyEngine = Inr s \<and> CommitWriteTxn plainEnv s = Inr s1 \<and>
     BeginWriteTxn plainEnv s1 = Inr s2 \<and> Get (engineOps plainEnv) storedFlate fuel s2 [1] = Inr (Some [2])"
proof -
  have room: "overflowPages 4096 (2 * length [2 :: byte] + 69) + optHeight None + 4 \<le> svRoom (engineView plainEnv emptyEngine)"
    unfolding emptyEngine_ok(3) by (simp add: overflowPages_def overflowPayloadPerPage_def optHeight_def)
  have ops: "opPageSize (engineOps plainEnv) = 4096" "opMaxValueBytes (engineOps plainEnv) = 8192"
    by (simp_all add: engineOps_def)
  from txn.Put_ok [where env = plainEnv, unfolded ops, OF emptyEngine_ok(1) emptyEngine_rep storedFlate_ok _ _ _ _ _ _ room, of "[1]" 1]
  obtain s t C where p: "Put (engineOps plainEnv) storedFlate 1 [1] [2] emptyEngine = Inr s" "engineOk plainEnv s"
    "dbRep 4096 storedFlate (engineView plainEnv s) (Some t) C ((\<lambda>_. None)([1] \<mapsto> [2]))"
    "svRoom (engineView plainEnv emptyEngine) \<le> svRoom (engineView plainEnv s) + 10"
    by (auto simp: maxKeyBytes_def isOverflowStub_def optHeight_def overflowPages_def overflowPayloadPerPage_def)
  obtain txn where t: "egWtxn s = Some txn" "txnReady plainEnv s txn" "envOk plainEnv" using p(2) by (rule engineOk_txn)
  have v: "FormatVersion (txHdr txn) \<noteq> formatVersionV3" using t(2) by (simp add: txnReady_def macOk_def)
  then have none: "txFreePageIDs txn = []" "txFreelistPageIDs txn = []" using t(2) by (simp_all add: txnReady_def freeOk_def)
  have "2 ^ 64 - 2 \<le> 2 ^ 64 - 1 - unat (NextPageID (txHdr txn)) + 10"
    using p(4) v unfolding emptyEngine_ok(3) by (simp add: engineView_def t(1) txnRoom_def reusable_def)
  then have lim: "4096 + unat (NextPageID (txHdr txn)) * 4096 < 2 ^ 63" using unat_bound [of "NextPageID (txHdr txn)"] by simp
  have "\<exists>s1 s2 txn2. CommitWriteTxn plainEnv s = Inr s1 \<and> BeginWriteTxn plainEnv s1 = Inr s2 \<and> engineOk plainEnv s2 \<and>
      egWtxn s2 = Some txn2 \<and> usedPages txn2 = usedPages txn \<and> NextPageID (txHdr txn2) = NextPageID (txHdr txn) \<and>
      dbRep 4096 storedFlate (engineView plainEnv s2) (Some t) C ((\<lambda>_. None)([1] \<mapsto> [2])) \<and>
      (\<forall>k fuel. optHeight (Some t) < fuel \<and> length (C k) < fuel \<longrightarrow>
        Get (engineOps plainEnv) storedFlate fuel s2 k = Inr (((\<lambda>_. None)([1] \<mapsto> [2])) k))"
    by (rule Commit_keeps_the_map [where env = plainEnv, unfolded plainEnv_simps, OF p(2) t(1) _ lim _ p(3)])
      (use unat_bound [of "egNextWALSeq s"] in \<open>simp_all add: plainEnv_def sampleMAC_def none\<close>)
  then obtain s1 s2 where "CommitWriteTxn plainEnv s = Inr s1" "BeginWriteTxn plainEnv s1 = Inr s2"
    "\<forall>k fuel. optHeight (Some t) < fuel \<and> length (C k) < fuel \<longrightarrow>
      Get (engineOps plainEnv) storedFlate fuel s2 k = Inr (((\<lambda>_. None)([1] \<mapsto> [2])) k)" by blast
  then show ?thesis
    using p(1) by (intro exI [of _ s] exI [of _ s1] exI [of _ s2] exI [of _ "optHeight (Some t) + length (C [1]) + 1"]) simp
qed

end
