(* ===== verification/BTreeDelete.thy ===== *)
theory BTreeDelete
  imports Overflow
begin

text \<open>
  Deletion from the B+ tree, \<open>internal/engine/btree_delete.go\<close>: the leaf of the key is found
  with its path, the value's overflow pages are released, the entry is removed, the separator above
  is raised when the first key of the leaf went, and a leaf that is less than half full is merged
  with a sibling or borrows an entry from it. Pages that empty are taken out of their parents, a root
  with one child is replaced by it. The functions keep the source's names and order of reads and
  writes; the texts of wrapped errors are dropped.
\<close>

subsection \<open>Operations\<close>

definition minLeafKeysForPage :: "nat \<Rightarrow> nat" where
  "minLeafKeysForPage pageSize = (maxLeafEntriesForPage pageSize + 1) div 2"

definition releaseDeletedOverflow :: "'s pageOps \<Rightarrow> nat \<Rightarrow> bytes \<Rightarrow> 's \<Rightarrow> engine_error + 's" where
  "releaseDeletedOverflow ops fuel val s =
     (if \<not> isOverflowStub val then Inr s
      else case decodeOverflowStub val of (_, firstPage) \<Rightarrow> freeOverflowChain ops fuel firstPage s)"

text \<open>The internal pages from the root to a leaf, each with the index of the child chosen there.\<close>

record leafPath =
  parentPIDs :: "uint64 list"
  childIdxs :: "nat list"

primrec findLeafWithKey ::
  "'s pageOps \<Rightarrow> nat \<Rightarrow> 's \<Rightarrow> uint64 \<Rightarrow> bytes \<Rightarrow> leafPath \<Rightarrow>
   engine_error + (leafPath \<times> uint64 \<times> nat) option" where
  "findLeafWithKey ops 0 s pid key path = Inl OutOfFuel"
| "findLeafWithKey ops (Suc fuel) s pid key path =
     bindR (opRead ops s pid) (\<lambda>page.
       if page ! 5 = btreeKindLeaf
       then bindR (parseLeafPage page) (\<lambda>ld.
              let i = leafKeyIndex (leafKeys ld) key
              in Inr (if i \<ge> length (leafKeys ld) \<or> leafKeys ld ! i \<noteq> key then None else Some (path, pid, i)))
       else bindR (parseInternalPage page) (\<lambda>ind.
              let ci = internalPickChild (inKeys ind) key
              in findLeafWithKey ops fuel s (inPtrs ind ! ci) key
                   \<lparr>parentPIDs = parentPIDs path @ [pid], childIdxs = childIdxs path @ [ci]\<rparr>))"

definition removePtrAndKey ::
  "uint64 list \<Rightarrow> bytes list \<Rightarrow> nat \<Rightarrow> engine_error + uint64 list \<times> bytes list" where
  "removePtrAndKey ptrs keys i =
     (if i \<ge> length ptrs then Inl (ErrCorruptTree '''')
      else let newPtrs = take i ptrs @ drop (i + 1) ptrs
      in if newPtrs = [] then Inr (newPtrs, [])
         else Inr (newPtrs, if i = 0 then drop 1 keys else take (i - 1) keys @ drop i keys))"

definition updateSeparator ::
  "'s pageOps \<Rightarrow> uint64 \<Rightarrow> int \<Rightarrow> bytes \<Rightarrow> uint64 \<Rightarrow> 's \<Rightarrow> engine_error + uint64 \<times> 's" where
  "updateSeparator ops parentPID keyIdx newSep root s =
     (if keyIdx < 0 then Inr (root, s)
      else bindR (opRead ops s parentPID) (\<lambda>page.
           bindR (parseInternalPage page) (\<lambda>ind.
             if keyIdx \<ge> int (length (inKeys ind)) then Inr (root, s)
             else bindR (buildInternalPage (opPageSize ops) (inParent ind) (inPtrs ind) ((inKeys ind)[nat keyIdx := newSep])) (\<lambda>ipg.
                  bindR (opWrite ops parentPID ipg s) (\<lambda>s.
                  bindR (opRoot ops s) (\<lambda>hroot. Inr (hroot, s)))))))"

text \<open>From the last parent up, the first one whose child is not its leftmost.\<close>

fun cascadeNewMinToAncestors ::
  "'s pageOps \<Rightarrow> (uint64 \<times> nat) list \<Rightarrow> bytes \<Rightarrow> uint64 \<Rightarrow> 's \<Rightarrow> engine_error + 's" where
  "cascadeNewMinToAncestors ops [] newMin root s = Inr s"
| "cascadeNewMinToAncestors ops ((parentPID, ci) # up) newMin root s =
     (if ci > 0 then mapR snd (updateSeparator ops parentPID (int ci - 1) newMin root s)
      else cascadeNewMinToAncestors ops up newMin root s)"

primrec findInChildren :: "(uint64 \<Rightarrow> engine_error + 'r option) \<Rightarrow> uint64 list \<Rightarrow> engine_error + 'r option" where
  "findInChildren f [] = Inr None"
| "findInChildren f (p # ptrs) = bindR (f p) (\<lambda>r. case r of Some x \<Rightarrow> Inr (Some x) | None \<Rightarrow> findInChildren f ptrs)"

primrec findParentOfPage ::
  "'s pageOps \<Rightarrow> nat \<Rightarrow> 's \<Rightarrow> uint64 \<Rightarrow> uint64 \<Rightarrow> engine_error + (uint64 \<times> nat) option" where
  "findParentOfPage ops 0 s root target = Inl OutOfFuel"
| "findParentOfPage ops (Suc fuel) s root target =
     (if root = target then Inl (ErrCorruptTree ''root is target'')
      else bindR (opRead ops s root) (\<lambda>page.
        if page ! 5 = btreeKindLeaf then Inr None
        else bindR (parseInternalPage page) (\<lambda>ind.
          case ptrIndex (inPtrs ind) target of
            Some i \<Rightarrow> Inr (Some (root, i))
          | None \<Rightarrow> findInChildren (\<lambda>p. findParentOfPage ops fuel s p target) (inPtrs ind))))"

text \<open>The answer is the new root.\<close>

primrec removeInternalChild ::
  "'s pageOps \<Rightarrow> nat \<Rightarrow> uint64 \<Rightarrow> nat \<Rightarrow> uint64 \<Rightarrow> 's \<Rightarrow> engine_error + uint64 \<times> 's" where
  "removeInternalChild ops 0 parentPID childIdx root s = Inl OutOfFuel"
| "removeInternalChild ops (Suc fuel) parentPID childIdx root s =
     bindR (opRead ops s parentPID) (\<lambda>page.
     bindR (parseInternalPage page) (\<lambda>ind.
     bindR (removePtrAndKey (inPtrs ind) (inKeys ind) childIdx) (\<lambda>(newPtrs, newKeys).
     bindR (opRoot ops s) (\<lambda>hroot.
       let keep = bindR (buildInternalPage (opPageSize ops) (inParent ind) newPtrs newKeys) (\<lambda>ipg.
                  bindR (opWrite ops parentPID ipg s) (\<lambda>s. Inr (hroot, s)))
       in if parentPID = hroot
          then if newPtrs = [] then bindR (opRelease ops parentPID s) (\<lambda>s. Inr (0, s))
               else if length newPtrs = 1
               then bindR (setParent ops (newPtrs ! 0) 0 s) (\<lambda>s.
                    bindR (opRelease ops parentPID s) (\<lambda>s. Inr (newPtrs ! 0, s)))
               else keep
          else if newPtrs = []
          then bindR (findParentOfPage ops (Suc fuel) s hroot parentPID) (\<lambda>found.
                 case found of
                   None \<Rightarrow> Inl (ErrCorruptTree ''parent of internal not found'')
                 | Some (gp, gidx) \<Rightarrow>
                     bindR (removeInternalChild ops fuel gp gidx root s) (\<lambda>(newRoot, s).
                     bindR (opRelease ops parentPID s) (\<lambda>s. Inr (newRoot, s))))
          else keep))))"

definition removeChildFromParentChain ::
  "'s pageOps \<Rightarrow> nat \<Rightarrow> leafPath \<Rightarrow> uint64 \<Rightarrow> 's \<Rightarrow> engine_error + uint64 \<times> 's" where
  "removeChildFromParentChain ops fuel path root s =
     (if parentPIDs path = [] then Inr (root, s)
      else removeInternalChild ops fuel (last (parentPIDs path)) (last (childIdxs path)) root s)"

subsection \<open>Rebalancing\<close>

definition childPtrIndexInParent :: "'s pageOps \<Rightarrow> 's \<Rightarrow> uint64 \<Rightarrow> uint64 \<Rightarrow> engine_error + nat" where
  "childPtrIndexInParent ops s parentPID childPtr =
     bindR (opRead ops s parentPID) (\<lambda>page.
       if page ! 5 = btreeKindLeaf then Inl (ErrCorruptTree ''parent is leaf'')
       else bindR (parseInternalPage page) (\<lambda>ind.
         case ptrIndex (inPtrs ind) childPtr of
           Some i \<Rightarrow> Inr i
         | None \<Rightarrow> Inl (ErrCorruptTree ''not a child of parent'')))"

text \<open>The right neighbour in the parent: its page id, if the leaf is not the last child.\<close>

definition rightLeafInParent :: "'s pageOps \<Rightarrow> 's \<Rightarrow> uint64 \<Rightarrow> uint64 \<Rightarrow> engine_error + uint64 option" where
  "rightLeafInParent ops s parentPID leafPID =
     bindR (opRead ops s parentPID) (\<lambda>page.
       if page ! 5 = btreeKindLeaf then Inl (ErrCorruptTree ''parent is leaf'')
       else bindR (parseInternalPage page) (\<lambda>ind.
         case ptrIndex (inPtrs ind) leafPID of
           None \<Rightarrow> Inl (ErrCorruptTree ''leaf not a child of parent'')
         | Some li \<Rightarrow> Inr (if li + 1 \<ge> length (inPtrs ind) then None else Some (inPtrs ind ! (li + 1)))))"

definition pickLeafParentForSiblingWalk ::
  "'s pageOps \<Rightarrow> 's \<Rightarrow> leafPath \<Rightarrow> uint64 \<Rightarrow> leafData \<Rightarrow> engine_error + uint64" where
  "pickLeafParentForSiblingWalk ops s path leafPID ld =
     (if parentPIDs path \<noteq> [] \<and> isOk (childPtrIndexInParent ops s (last (parentPIDs path)) leafPID)
      then Inr (last (parentPIDs path))
      else if leafParent ld = 0 then Inl (ErrCorruptTree ''no direct parent for leaf in rebalance'')
      else bindR (childPtrIndexInParent ops s (leafParent ld) leafPID) (\<lambda>_. Inr (leafParent ld)))"

definition resolveRightLeaf ::
  "'s pageOps \<Rightarrow> 's \<Rightarrow> uint64 \<Rightarrow> leafData \<Rightarrow> engine_error + uint64 \<times> leafData" where
  "resolveRightLeaf ops s rightPID ld =
     bindR (opRead ops s rightPID) (\<lambda>rp.
       case parseLeafPage rp of
         Inr rd \<Rightarrow> Inr (rightPID, rd)
       | Inl e \<Rightarrow>
           if leafNext ld = 0 \<or> leafNext ld = rightPID then Inl e
           else bindR (opRead ops s (leafNext ld)) (\<lambda>rp2.
                if rp2 ! 5 \<noteq> btreeKindLeaf then Inl (ErrCorruptTree ''right ptr and next are not leaves'')
                else bindR (parseLeafPage rp2) (\<lambda>rd. Inr (leafNext ld, rd))))"

definition mergeRightLeaf ::
  "'s pageOps \<Rightarrow> nat \<Rightarrow> uint64 \<Rightarrow> leafData \<Rightarrow> leafData \<Rightarrow> uint64 \<Rightarrow> uint64 \<Rightarrow> 's \<Rightarrow> engine_error + uint64 \<times> 's" where
  "mergeRightLeaf ops fuel leftPID ld rd rightPageID root s =
     bindR (childPtrIndexInParent ops s (leafParent rd) rightPageID) (\<lambda>ri.
     bindR (buildLeafPage (opPageSize ops) (leafParent ld) (leafNext rd)
              (leafKeys ld @ leafKeys rd) (leafVals ld @ leafVals rd)) (\<lambda>pg.
     bindR (opWrite ops leftPID pg s) (\<lambda>s.
     bindR (removeInternalChild ops fuel (leafParent rd) ri root s) (\<lambda>(newR, s).
     bindR (opRelease ops rightPageID s) (\<lambda>s. Inr (newR, s))))))"



definition borrowFromRight ::
  "'s pageOps \<Rightarrow> leafPath \<Rightarrow> uint64 \<Rightarrow> leafData \<Rightarrow> uint64 \<Rightarrow> leafData \<Rightarrow> uint64 \<Rightarrow> 's \<Rightarrow> engine_error + uint64 \<times> 's" where
  "borrowFromRight ops path leftPID ld rightPID rd root s =
     (let k = leafKeys rd ! 0; v = leafVals rd ! 0; rkeys = tl (leafKeys rd); rvals = tl (leafVals rd);
          lkeys = leafKeys ld @ [k]; lvals = leafVals ld @ [v]
      in bindR (buildLeafPage (opPageSize ops) (leafParent ld) rightPID lkeys lvals) (\<lambda>lpg.
         bindR (buildLeafPage (opPageSize ops) (leafParent rd) (leafNext rd) rkeys rvals) (\<lambda>rpg.
         bindR (opWrite ops leftPID lpg s) (\<lambda>s.
         bindR (opWrite ops rightPID rpg s) (\<lambda>s.
           if parentPIDs path = [] then Inr (root, s)
           else updateSeparator ops (last (parentPIDs path)) (int (last (childIdxs path))) (rkeys ! 0) root s)))))"

definition borrowFromLeft ::
  "'s pageOps \<Rightarrow> leafPath \<Rightarrow> uint64 \<Rightarrow> leafData \<Rightarrow> uint64 \<Rightarrow> leafData \<Rightarrow> uint64 \<Rightarrow> 's \<Rightarrow> engine_error + uint64 \<times> 's" where
  "borrowFromLeft ops path leftPID ld rightPID rd root s =
     (let li = length (leafKeys ld) - 1; k = leafKeys ld ! li; v = leafVals ld ! li;
          lkeys = take li (leafKeys ld); lvals = take li (leafVals ld);
          rkeys = k # leafKeys rd; rvals = v # leafVals rd
      in bindR (buildLeafPage (opPageSize ops) (leafParent ld) rightPID lkeys lvals) (\<lambda>lpg.
         bindR (buildLeafPage (opPageSize ops) (leafParent rd) (leafNext rd) rkeys rvals) (\<lambda>rpg.
         bindR (opWrite ops leftPID lpg s) (\<lambda>s.
         bindR (opWrite ops rightPID rpg s) (\<lambda>s.
           if parentPIDs path = [] then Inr (root, s)
           else updateSeparator ops (last (parentPIDs path)) (int (last (childIdxs path)) - 1) (rkeys ! 0) root s)))))"

text \<open>\<open>None\<close>: no right sibling was usable.\<close>

definition tryRightSiblingRebalance ::
  "'s pageOps \<Rightarrow> nat \<Rightarrow> leafPath \<Rightarrow> uint64 \<Rightarrow> leafData \<Rightarrow> uint64 \<Rightarrow> 's \<Rightarrow> engine_error + (uint64 \<times> 's) option" where
  "tryRightSiblingRebalance ops fuel path leafPID ld root s =
     (case pickLeafParentForSiblingWalk ops s path leafPID ld of
        Inl _ \<Rightarrow> Inr None
      | Inr parentPID \<Rightarrow>
          bindR (rightLeafInParent ops s parentPID leafPID) (\<lambda>right.
            case right of
              None \<Rightarrow> Inr None
            | Some rightPID \<Rightarrow>
                bindR (resolveRightLeaf ops s rightPID ld) (\<lambda>(rightPID, rd).
                  if leafSerializedSize (leafKeys ld @ leafKeys rd) (leafVals ld @ leafVals rd) \<le> opPageSize ops
                  then mapR Some (mergeRightLeaf ops fuel leafPID ld rd rightPID root s)
                  else if length (leafKeys rd) > minLeafKeysForPage (opPageSize ops)
                  then mapR Some (borrowFromRight ops path leafPID ld rightPID rd root s)
                  else Inr None)))"

definition tryLeftSiblingRebalance ::
  "'s pageOps \<Rightarrow> nat \<Rightarrow> leafPath \<Rightarrow> uint64 \<Rightarrow> leafData \<Rightarrow> uint64 \<Rightarrow> 's \<Rightarrow> engine_error + uint64 \<times> 's" where
  "tryLeftSiblingRebalance ops fuel path leafPID ld root s =
     (if parentPIDs path = [] \<or> last (childIdxs path) = 0 then Inr (root, s)
      else bindR (opRead ops s (last (parentPIDs path))) (\<lambda>page.
           bindR (parseInternalPage page) (\<lambda>ind.
           let leftPID = inPtrs ind ! (last (childIdxs path) - 1)
           in bindR (opRead ops s leftPID) (\<lambda>leftPage.
              bindR (parseLeafPage leftPage) (\<lambda>leftd.
                if leafNext leftd \<noteq> leafPID then Inr (root, s)
                else if leafSerializedSize (leafKeys leftd @ leafKeys ld) (leafVals leftd @ leafVals ld) \<le> opPageSize ops
                then mergeRightLeaf ops fuel leftPID leftd ld leafPID root s
                else if length (leafKeys leftd) > minLeafKeysForPage (opPageSize ops)
                then borrowFromLeft ops path leftPID leftd leafPID ld root s
                else Inr (root, s))))))"

definition rebalanceLeaf ::
  "'s pageOps \<Rightarrow> nat \<Rightarrow> leafPath \<Rightarrow> uint64 \<Rightarrow> leafData \<Rightarrow> uint64 \<Rightarrow> 's \<Rightarrow> engine_error + uint64 \<times> 's" where
  "rebalanceLeaf ops fuel path leafPID ld root s =
     bindR (tryRightSiblingRebalance ops fuel path leafPID ld root s) (\<lambda>done.
       case done of Some r \<Rightarrow> Inr r | None \<Rightarrow> tryLeftSiblingRebalance ops fuel path leafPID ld root s)"

subsection \<open>Delete\<close>

definition setNewRoot :: "'s pageOps \<Rightarrow> uint64 \<Rightarrow> uint64 \<times> 's \<Rightarrow> engine_error + 's" where
  "setNewRoot ops root = (\<lambda>(newRoot, s). if newRoot \<noteq> root then opSetRoot ops newRoot s else Inr s)"

text \<open>The part of \<open>Delete\<close> after the overflow pages: the entry \<open>keyIdx\<close> of the leaf goes.\<close>

definition deleteEntry ::
  "'s pageOps \<Rightarrow> nat \<Rightarrow> leafPath \<Rightarrow> uint64 \<Rightarrow> leafData \<Rightarrow> nat \<Rightarrow> 's \<Rightarrow> engine_error + 's" where
  "deleteEntry ops fuel path leafPID ld keyIdx s =
     (let ld = ld\<lparr>leafKeys := take keyIdx (leafKeys ld) @ drop (keyIdx + 1) (leafKeys ld),
                  leafVals := take keyIdx (leafVals ld) @ drop (keyIdx + 1) (leafVals ld)\<rparr>
      in bindR (buildLeafPage (opPageSize ops) (leafParent ld) (leafNext ld) (leafKeys ld) (leafVals ld)) (\<lambda>pg.
         bindR (opWrite ops leafPID pg s) (\<lambda>s.
         bindR (opRoot ops s) (\<lambda>root.
         bindR (if leafKeys ld \<noteq> [] \<and> keyIdx = 0
                then cascadeNewMinToAncestors ops (rev (zip (parentPIDs path) (childIdxs path))) (leafKeys ld ! 0) root s
                else Inr s) (\<lambda>s.
           if leafKeys ld = [] then
             if root = leafPID then bindR (opSetRoot ops 0 s) (opRelease ops leafPID)
             else bindR (bindR (removeChildFromParentChain ops fuel path root s) (setNewRoot ops root)) (opRelease ops leafPID)
           else if root = leafPID \<or> length (leafKeys ld) \<ge> minLeafKeysForPage (opPageSize ops) then Inr s
           else bindR (rebalanceLeaf ops fuel path leafPID ld root s) (setNewRoot ops root))))))"

definition Delete :: "'s pageOps \<Rightarrow> nat \<Rightarrow> bytes \<Rightarrow> 's \<Rightarrow> engine_error + 's" where
  "Delete ops fuel key s =
     (if length key > maxKeyBytes then Inl ErrKeyTooLarge
      else bindR (opRoot ops s) (\<lambda>root.
        if root = 0 then Inr s
        else bindR (findLeafWithKey ops fuel s root key \<lparr>parentPIDs = [], childIdxs = []\<rparr>) (\<lambda>found.
          case found of
            None \<Rightarrow> Inr s
          | Some (path, leafPID, keyIdx) \<Rightarrow>
              bindR (opRead ops s leafPID) (\<lambda>page.
              bindR (parseLeafPage page) (\<lambda>ld.
              bindR (releaseDeletedOverflow ops fuel (leafVals ld ! keyIdx) s)
                (deleteEntry ops fuel path leafPID ld keyIdx))))))"

subsection \<open>A subtree and its context\<close>

text \<open>
  A context is the path to a subtree, from the root: at each node the keys and children before and
  after the chosen child.
\<close>

type_synonym crumb = "uint64 \<times> bytes list \<times> bytes list \<times> btree list \<times> btree list"

fun plug1 :: "crumb \<Rightarrow> btree \<Rightarrow> btree" where
  "plug1 (pid, ks1, ks2, ts1, ts2) u = Node pid (ks1 @ ks2) (ts1 @ u # ts2)"

definition plug :: "crumb list \<Rightarrow> btree \<Rightarrow> btree" where
  "plug cs u = foldr plug1 cs u"

lemma plug_simps [simp]:
  "plug [] u = u" "plug (c # cs) u = plug1 c (plug cs u)" "plug (cs @ ds) u = plug cs (plug ds u)"
  by (simp_all add: plug_def)

fun crumbPids :: "crumb list \<Rightarrow> uint64 set" where
  "crumbPids [] = {}"
| "crumbPids ((pid, ks1, ks2, ts1, ts2) # cs) =
     insert pid (set (concat (map pids ts1)) \<union> set (concat (map pids ts2)) \<union> crumbPids cs)"

fun entriesBefore :: "crumb list \<Rightarrow> (bytes \<times> bytes) list" where
  "entriesBefore [] = []"
| "entriesBefore ((pid, ks1, ks2, ts1, ts2) # cs) = concat (map entries ts1) @ entriesBefore cs"

fun entriesAfter :: "crumb list \<Rightarrow> (bytes \<times> bytes) list" where
  "entriesAfter [] = []"
| "entriesAfter ((pid, ks1, ks2, ts1, ts2) # cs) = entriesAfter cs @ concat (map entries ts2)"

fun holeNext :: "uint64 \<Rightarrow> crumb list \<Rightarrow> uint64" where
  "holeNext nx [] = nx"
| "holeNext nx ((pid, ks1, ks2, ts1, ts2) # cs) = holeNext (case ts2 of [] \<Rightarrow> nx | u # _ \<Rightarrow> firstLeaf u) cs"

fun holePar :: "uint64 option \<Rightarrow> crumb list \<Rightarrow> uint64 option" where
  "holePar par [] = par"
| "holePar par ((pid, ks1, ks2, ts1, ts2) # cs) = holePar (Some pid) cs"

text \<open>The number of children before the hole is the number of keys before it.\<close>

definition crumbOk :: "crumb \<Rightarrow> bool" where
  "crumbOk = (\<lambda>(pid, ks1, ks2, ts1, ts2). length ts1 = length ks1)"

definition crumbId :: "crumb \<Rightarrow> uint64" where
  "crumbId = fst"

definition crumbIdx :: "crumb \<Rightarrow> nat" where
  "crumbIdx = (\<lambda>(pid, ks1, ks2, ts1, ts2). length ts1)"

lemma crumb_simps [simp]:
  "crumbOk (pid, ks1, ks2, ts1, ts2) \<longleftrightarrow> length ts1 = length ks1"
  "crumbId (pid, ks1, ks2, ts1, ts2) = pid" "crumbIdx (pid, ks1, ks2, ts1, ts2) = length ts1"
  by (simp_all add: crumbOk_def crumbId_def crumbIdx_def)

lemma rootId_plug1 [simp]: "rootId (plug1 c u) = crumbId c"
  by (cases c) simp

lemma firstLeaf_plug: "firstLeaf u' = firstLeaf u \<Longrightarrow> firstLeaf (plug cs u') = firstLeaf (plug cs u)"
proof (induction cs rule: entriesBefore.induct)
  case (2 pid ks1 ks2 ts1 ts2 cs)
  then show ?case by (cases ts1) simp_all
qed simp

lemma rootId_plug: "rootId u' = rootId u \<Longrightarrow> rootId (plug cs u') = rootId (plug cs u)"
  by (cases cs) simp_all

lemma entries_plug: "entries (plug cs u) = entriesBefore cs @ entries u @ entriesAfter cs"
  by (induction cs rule: entriesBefore.induct) simp_all

lemma set_pids_plug: "set (pids (plug cs u)) = crumbPids cs \<union> set (pids u)"
  by (induction cs rule: entriesBefore.induct) auto

lemma distinct_plug: "distinct (pids (plug cs u)) \<Longrightarrow> distinct (pids u) \<and> crumbPids cs \<inter> set (pids u) = {}"
  by (induction cs rule: entriesBefore.induct) (auto simp: set_pids_plug)

lemma distinct_plug_smaller:
  "distinct (pids (plug cs u)) \<Longrightarrow> set (pids u') \<subseteq> set (pids u) \<Longrightarrow> distinct (pids u') \<Longrightarrow> distinct (pids (plug cs u'))"
  by (induction cs rule: entriesBefore.induct) (auto simp: set_pids_plug)

lemma height_plug: "height u' \<le> height u \<Longrightarrow> height (plug cs u') \<le> height (plug cs u)"
proof (induction cs rule: entriesBefore.induct)
  case (2 pid ks1 ks2 ts1 ts2 cs)
  then have "Max (insert 0 (set (map height (ts1 @ plug cs u' # ts2)))) \<le> Max (insert 0 (set (map height (ts1 @ plug cs u # ts2))))"
    by (intro Max.boundedI) (auto intro: Max_ge order_trans [OF _ Max_ge])
  then show ?case by simp
qed simp

lemma height_plug_hole: "height u + length cs \<le> height (plug cs u)"
proof (induction cs rule: entriesBefore.induct)
  case (2 pid ks1 ks2 ts1 ts2 cs)
  have "height (plug cs u) < height (Node pid (ks1 @ ks2) (ts1 @ plug cs u # ts2))" by (rule height_child) simp
  with 2 show ?case unfolding plug_simps plug1.simps by simp
qed simp

lemma rep_plug_hole: "rep rd ps nx par (plug cs u) \<Longrightarrow> rep rd ps (holeNext nx cs) (holePar par cs) u"
  by (induction nx cs arbitrary: par rule: holeNext.induct) (auto simp: reps_append)

text \<open>Changing the hole: the rest keeps its pages and its links to the hole.\<close>

lemma rep_plug_change:
  assumes "rep rd ps nx par (plug cs u)" "rep rd' ps (holeNext nx cs) (holePar par cs) u'"
    and "rootId u' = rootId u" "firstLeaf u' = firstLeaf u \<or> (\<forall>c \<in> set cs. crumbIdx c = 0)"
    and "\<And>p. p \<in> crumbPids cs \<Longrightarrow> rd' p = rd p"
  shows "rep rd' ps nx par (plug cs u')"
  using assms
proof (induction nx cs arbitrary: par rule: holeNext.induct)
  case (2 nx pid ks1 ks2 ts1 ts2 cs)
  let ?nx = "case ts2 of [] \<Rightarrow> nx | u # _ \<Rightarrow> firstLeaf u"
  have r: "nodeAt rd ps par pid (ks1 @ ks2) (map rootId (ts1 @ plug cs u # ts2))"
    "reps rd ps (firstLeaf (plug cs u)) (Some pid) ts1" "rep rd ps ?nx (Some pid) (plug cs u)" "reps rd ps nx (Some pid) ts2"
    using "2.prems"(1) by (simp_all add: reps_append)
  have "rep rd' ps ?nx (Some pid) (plug cs u')"
    by (rule "2.IH" [OF r(3) _ "2.prems"(3)]) (use "2.prems"(2,4,5) in auto)
  moreover have "reps rd' ps n (Some pid) ts = reps rd ps n (Some pid) ts" if "ts = ts1 \<or> ts = ts2" for n ts
    by (rule rep_cong(2)) (use that "2.prems"(5) in auto)
  moreover have "rd' pid = rd pid" by (rule "2.prems"(5)) simp
  moreover have "rootId (plug cs u') = rootId (plug cs u)" "firstLeaf (plug cs u') = firstLeaf (plug cs u) \<or> ts1 = []"
    using rootId_plug [OF "2.prems"(3)] firstLeaf_plug [of u' u cs] "2.prems"(4) by auto
  ultimately show ?case using r by (auto simp: reps_append nodeAt_def)
qed simp

subsection \<open>Intervals\<close>

lemma treesOk_at:
  assumes "treesOk ps lo hi (ks1 @ ks2) (ts1 @ t # ts2)" "length ts1 = length ks1"
  obtains lo' hi' where "treeOk ps lo' hi' t"
    "\<And>t'. treeOk ps lo' hi' t' \<Longrightarrow> treesOk ps lo hi (ks1 @ ks2) (ts1 @ t' # ts2)"
  using assms
proof (induction ks1 arbitrary: lo ts1 thesis)
  case Nil
  then have ts1: "ts1 = []" by simp
  show ?case
  proof (cases ks2)
    case k2: Nil
    then have "ts2 = []" using Nil.prems(2) by (cases ts2) (simp_all add: ts1)
    then show ?thesis using Nil.prems(1) [of lo hi] Nil.prems(2) k2 ts1 by simp
  next
    case (Cons k ks)
    then show ?thesis using Nil.prems(1) [of lo "Some k"] Nil.prems(2) ts1 by simp
  qed
next
  case (Cons k ks1)
  obtain u us where u: "ts1 = u # us" using Cons.prems(3) by (cases ts1) auto
  then have len: "length us = length ks1" using Cons.prems(3) by simp
  have w: "lo < k" "within lo hi k" "length k \<le> maxKeyBytes" "treeOk ps lo (Some k) u"
    "treesOk ps k hi (ks1 @ ks2) (us @ t # ts2)" using Cons.prems(2) by (simp_all add: u)
  from Cons.IH [OF _ w(5) len] obtain lo' hi' where "treeOk ps lo' hi' t"
    "\<And>t'. treeOk ps lo' hi' t' \<Longrightarrow> treesOk ps k hi (ks1 @ ks2) (us @ t' # ts2)" by metis
  then show ?case using Cons.prems(1) [of lo' hi'] w(1-4) by (simp add: u)
qed

text \<open>Two neighbours and the separator between them, and what may take their place.\<close>

lemma treesOk_pair:
  assumes "treesOk ps lo hi (ks1 @ k # ks2) (ts1 @ a # b # ts2)" "length ts1 = length ks1"
  obtains lo' hi' where "treeOk ps lo' (Some k) a" "treeOk ps k hi' b" "lo' < k" "within lo' hi' k" "length k \<le> maxKeyBytes"
    "\<And>m a' b'. lo' < m \<Longrightarrow> within lo' hi' m \<Longrightarrow> length m \<le> maxKeyBytes \<Longrightarrow> treeOk ps lo' (Some m) a' \<Longrightarrow>
       treeOk ps m hi' b' \<Longrightarrow> treesOk ps lo hi (ks1 @ m # ks2) (ts1 @ a' # b' # ts2)"
    "\<And>c. treeOk ps lo' hi' c \<Longrightarrow> treesOk ps lo hi (ks1 @ ks2) (ts1 @ c # ts2)"
  using assms
proof (induction ks1 arbitrary: lo ts1 thesis)
  case Nil
  then have ts1: "ts1 = []" by simp
  have w: "lo < k" "within lo hi k" "length k \<le> maxKeyBytes" "treeOk ps lo (Some k) a" "treesOk ps k hi ks2 (b # ts2)"
    using Nil.prems(2) by (simp_all add: ts1)
  show ?case
  proof (cases ks2)
    case k2: Nil
    then have "ts2 = []" using w(5) by (cases ts2) simp_all
    with w k2 show ?thesis by (intro Nil.prems(1) [of lo hi]) (simp_all add: ts1)
  next
    case (Cons j ks)
    have j: "k < j" "within k hi j" "length j \<le> maxKeyBytes" "treeOk ps k (Some j) b" "treesOk ps j hi ks ts2"
      using w(5) by (simp_all add: Cons)
    have "lo < j" "within lo hi j" "within lo (Some j) k"
      using w(1,2) j(1,2) by (auto simp: within_def)
    moreover have "within lo hi m" "m < j" "within m hi j" if "within lo (Some j) m" for m
      using that j(2) \<open>within lo hi j\<close> by (auto simp: within_def split: option.splits)
    ultimately show ?thesis
      using w j by (intro Nil.prems(1) [of lo "Some j"]) (simp_all add: ts1 Cons)
  qed
next
  case (Cons i ks1)
  obtain u us where u: "ts1 = u # us" using Cons.prems(3) by (cases ts1) auto
  then have len: "length us = length ks1" using Cons.prems(3) by simp
  have w: "lo < i" "within lo hi i" "length i \<le> maxKeyBytes" "treeOk ps lo (Some i) u"
    "treesOk ps i hi (ks1 @ k # ks2) (us @ a # b # ts2)" using Cons.prems(2) by (simp_all add: u)
  show ?case
  proof (rule Cons.IH [OF _ w(5) len])
    fix lo' hi'
    assume "treeOk ps lo' (Some k) a" "treeOk ps k hi' b" "lo' < k" "within lo' hi' k" "length k \<le> maxKeyBytes"
      "\<And>m a' b'. lo' < m \<Longrightarrow> within lo' hi' m \<Longrightarrow> length m \<le> maxKeyBytes \<Longrightarrow> treeOk ps lo' (Some m) a' \<Longrightarrow>
       treeOk ps m hi' b' \<Longrightarrow> treesOk ps i hi (ks1 @ m # ks2) (us @ a' # b' # ts2)"
      "\<And>c. treeOk ps lo' hi' c \<Longrightarrow> treesOk ps i hi (ks1 @ ks2) (us @ c # ts2)"
    then show thesis using w(1-4) by (intro Cons.prems(1) [of lo' hi']) (simp_all add: u)
  qed
qed

definition hiLe :: "bytes option \<Rightarrow> bytes option \<Rightarrow> bool" where
  "hiLe hi hi' \<longleftrightarrow> (case hi' of None \<Rightarrow> True | Some h' \<Rightarrow> (case hi of None \<Rightarrow> False | Some h \<Rightarrow> h \<le> h'))"

lemma within_widen: "within lo hi k \<Longrightarrow> lo' \<le> lo \<Longrightarrow> hiLe hi hi' \<Longrightarrow> within lo' hi' k"
  by (auto simp: within_def hiLe_def split: option.splits)

lemma hiLe_refl [simp]: "hiLe hi hi"
  by (simp add: hiLe_def split: option.split)

lemma treeOk_widen:
  "treeOk ps lo hi t \<Longrightarrow> lo' \<le> lo \<Longrightarrow> hiLe hi hi' \<Longrightarrow> treeOk ps lo' hi' t"
  "treesOk ps lo hi ks ts \<Longrightarrow> lo' \<le> lo \<Longrightarrow> hiLe hi hi' \<Longrightarrow> treesOk ps lo' hi' ks ts"
proof (induction ps lo hi t and ps lo hi ks ts arbitrary: lo' hi' and lo' hi' rule: treeOk_treesOk.induct)
  case (1 ps lo hi pid ks vs)
  then show ?case by (auto intro: within_widen)
next
  case (4 ps lo hi k ks t ts)
  then show ?case by (auto intro: within_widen order_le_less_trans)
qed auto

fun firstLeafKeys :: "btree \<Rightarrow> bytes list" where
  "firstLeafKeys (Leaf pid ks vs) = ks"
| "firstLeafKeys (Node pid ks []) = []"
| "firstLeafKeys (Node pid ks (t # ts)) = firstLeafKeys t"

lemma firstLeafKeys_within: "treeOk ps lo hi t \<Longrightarrow> m \<in> set (firstLeafKeys t) \<Longrightarrow> within lo hi m"
proof (induction t arbitrary: lo hi rule: firstLeafKeys.induct)
  case (3 pid ks t ts)
  have m: "m \<in> set (firstLeafKeys t)" using "3.prems"(2) by simp
  show ?case
  proof (cases ks)
    case Nil
    then show ?thesis using "3.IH" [OF _ m] "3.prems"(1) by (cases ts) simp_all
  next
    case (Cons k ks')
    then have "treeOk ps lo (Some k) t" "within lo hi k" using "3.prems"(1) by simp_all
    then show ?thesis using "3.IH" [OF _ m] by (blast intro: within_left)
  qed
qed auto

text \<open>A tree's interval may begin at its first key.\<close>

lemma treeOk_raise:
  "treeOk ps lo hi t \<Longrightarrow> firstLeafKeys t = m # ms \<Longrightarrow> treeOk ps m hi t"
proof (induction t arbitrary: lo hi rule: firstLeafKeys.induct)
  case (1 pid ks vs)
  then show ?case by (auto simp: entriesOk_def within_def)
next
  case (3 pid ks t ts)
  show ?case
  proof (cases ks)
    case Nil
    then show ?thesis using 3 by (cases ts) auto
  next
    case (Cons k ks')
    then have w: "treeOk ps lo (Some k) t" "within lo hi k" using "3.prems"(1) by simp_all
    moreover have "m \<in> set (firstLeafKeys t)" using "3.prems"(2) by simp
    ultimately have "m < k" using firstLeafKeys_within [OF w(1)] by (auto simp: within_def)
    then show ?thesis using 3 Cons w(2) by (auto simp: within_def)
  qed
qed simp

lemma uniform_plug:
  "uniform (plug cs u) h \<Longrightarrow> (\<And>h'. uniform u h' \<Longrightarrow> uniform u' h') \<Longrightarrow> uniform (plug cs u') h"
  by (induction cs arbitrary: h rule: entriesBefore.induct) auto

lemma uniform_hole: "uniform (plug cs u) h \<Longrightarrow> \<exists>h'. uniform u h'"
  by (induction cs arbitrary: h rule: entriesBefore.induct) auto

lemma treeOk_plug:
  assumes "treeOk ps lo hi (plug cs u)" "list_all crumbOk cs"
  obtains lo' hi' where "treeOk ps lo' hi' u" "\<And>u'. treeOk ps lo' hi' u' \<Longrightarrow> treeOk ps lo hi (plug cs u')"
  using assms
proof (induction cs arbitrary: lo hi thesis rule: entriesBefore.induct)
  case (2 pid ks1 ks2 ts1 ts2 cs)
  have size: "internalSerializedSize (ks1 @ ks2) \<le> ps"
    and t: "treesOk ps lo hi (ks1 @ ks2) (ts1 @ plug cs u # ts2)" "length ts1 = length ks1"
    using "2.prems"(2,3) by simp_all
  obtain lo1 hi1 where 1: "treeOk ps lo1 hi1 (plug cs u)"
    "\<And>t'. treeOk ps lo1 hi1 t' \<Longrightarrow> treesOk ps lo hi (ks1 @ ks2) (ts1 @ t' # ts2)" by (rule treesOk_at [OF t]) (rule that)
  obtain lo' hi' where "treeOk ps lo' hi' u" "\<And>u'. treeOk ps lo' hi' u' \<Longrightarrow> treeOk ps lo1 hi1 (plug cs u')"
    using "2.IH" [OF _ 1(1)] "2.prems"(3) by auto
  then show ?case using "2.prems"(1) [of lo' hi'] 1(2) size by simp
qed simp

subsection \<open>Finding the leaf of a key\<close>

lemma pick_splice:
  assumes "treesOk n lo hi (ks1 @ ks2) ts" "\<forall>k \<in> set ks1. k \<le> key" "\<forall>k \<in> set ks2. key < k"
  shows "internalPickChild (ks1 @ ks2) key = length ks1"
proof -
  have "sorted (ks1 @ ks2)" using treesOk_sorted [OF assms(1)] by (simp add: strict_sorted_iff)
  moreover have "takeWhile (\<lambda>k. k \<le> key) (ks1 @ ks2) = ks1"
    using assms(2,3) by (subst takeWhile_append2) (auto simp: takeWhile_eq_Nil_iff neq_Nil_conv dest: leD)
  ultimately show ?thesis by (simp add: internalPickChild_takeWhile)
qed

lemma leafKeyIndex_found:
  assumes "sorted_wrt (<) ks"
  shows "leafKeyIndex ks key < length ks \<and> ks ! leafKeyIndex ks key = key \<longleftrightarrow> key \<in> set ks"
proof
  assume "key \<in> set ks"
  then obtain a b where ks: "ks = a @ key # b" by (auto simp: in_set_conv_decomp)
  have "takeWhile (\<lambda>k. k < key) ks = a" using assms unfolding ks
    by (subst takeWhile_append2) (auto simp: sorted_wrt_append)
  then show "leafKeyIndex ks key < length ks \<and> ks ! leafKeyIndex ks key = key"
    using assms by (simp add: leafKeyIndex_takeWhile strict_sorted_iff ks)
qed (metis nth_mem)

context page_store
begin

lemma findLeafWithKey_ok:
  assumes "ok s" "treeAt ps nx lo hi (view s) t" "within lo hi key" "height t < fuel"
  shows "\<exists>cs pid ks vs. t = plug cs (Leaf pid ks vs) \<and> list_all crumbOk cs \<and>
    findLeafWithKey ops fuel s (rootId t) key path = Inr (if key \<in> set ks then
      Some (\<lparr>parentPIDs = parentPIDs path @ map crumbId cs, childIdxs = childIdxs path @ map crumbIdx cs\<rparr>,
        pid, leafKeyIndex ks key) else None) \<and>
    key \<notin> fst ` set (entriesBefore cs) \<and> key \<notin> fst ` set (entriesAfter cs)"
  using assms(2-4)
proof (induction fuel arbitrary: nx lo hi t path)
  case (Suc fuel)
  show ?case
  proof (cases t)
    case (Leaf pid ks vs)
    with Suc.prems(1) obtain page parent where page: "svPage (view s) pid = Inr page" "pid \<in> svUsed (view s)"
      "page ! 5 = btreeKindLeaf" "parseLeafPage page =
        Inr \<lparr>leafNext = nx, leafParent = parent, leafKeys = ks, leafVals = vs\<rparr>" "entriesOk ps ks vs"
      by (auto elim: treeAt_Leaf)
    have "leafKeyIndex ks key \<ge> length ks \<or> ks ! leafKeyIndex ks key \<noteq> key \<longleftrightarrow> key \<notin> set ks"
      using leafKeyIndex_found [of ks key] page(5) by (auto simp: entriesOk_def)
    then show ?thesis
      using page by (intro exI [of _ "[]"] exI [of _ pid] exI [of _ ks] exI [of _ vs])
        (simp add: Leaf read_page [OF assms(1)] Let_def)
  next
    case (Node pid ks ts)
    with Suc.prems(1) obtain page parent where page: "svPage (view s) pid = Inr page" "pid \<in> svUsed (view s)"
      "page ! 5 = btreeKindInternal"
      "parseInternalPage page = Inr \<lparr>inParent = parent, inPtrs = map rootId ts, inKeys = ks\<rparr>"
      "treesOk ps lo hi ks ts"
      by (auto elim: treeAt_Node)
    obtain ks1 ks2 ts1 u ts2 lo' hi' where sp: "ks = ks1 @ ks2" "ts = ts1 @ u # ts2" "length ts1 = length ks1"
      "\<forall>k \<in> set ks1. k \<le> key" "\<forall>k \<in> set ks2. key < k" "treeOk ps lo' hi' u" "within lo' hi' key"
      "key \<notin> fst ` set (concat (map entries ts1))" "key \<notin> fst ` set (concat (map entries ts2))"
      using treesOk_splice [OF page(5) Suc.prems(2)] by metis
    have pick: "internalPickChild ks key = length ts1"
      using pick_splice [OF page(5) [unfolded sp(1)] sp(4,5)] by (simp add: sp(1,3))
    obtain nx' where u: "treeAt ps nx' lo' hi' (view s) u"
      using treeAt_child [OF _ sp(6)] Suc.prems(1) unfolding Node sp(2) by blast
    have "height u < fuel" using height_child [of u ts pid ks] Suc.prems(3) by (simp add: Node sp(2))
    from Suc.IH [OF u sp(7) this, of "\<lparr>parentPIDs = parentPIDs path @ [pid], childIdxs = childIdxs path @ [length ts1]\<rparr>"]
    obtain cs lpid lks lvs where IH: "u = plug cs (Leaf lpid lks lvs)" "list_all crumbOk cs"
      "findLeafWithKey ops fuel s (rootId u) key
         \<lparr>parentPIDs = parentPIDs path @ [pid], childIdxs = childIdxs path @ [length ts1]\<rparr> =
       Inr (if key \<in> set lks then Some (\<lparr>parentPIDs = parentPIDs path @ pid # map crumbId cs,
         childIdxs = childIdxs path @ length ts1 # map crumbIdx cs\<rparr>, lpid, leafKeyIndex lks key) else None)"
      "key \<notin> fst ` set (entriesBefore cs)" "key \<notin> fst ` set (entriesAfter cs)"
      by auto
    let ?cs = "(pid, ks1, ks2, ts1, ts2) # cs"
    have "findLeafWithKey ops (Suc fuel) s (rootId t) key path = findLeafWithKey ops fuel s (rootId u) key
         \<lparr>parentPIDs = parentPIDs path @ [pid], childIdxs = childIdxs path @ [length ts1]\<rparr>"
      using page by (simp add: Node read_page [OF assms(1)] Let_def pick nth_append sp(2))
    then show ?thesis
      using IH sp by (intro exI [of _ ?cs] exI [of _ lpid] exI [of _ lks] exI [of _ lvs]) (auto simp: Node)
  qed
qed simp

end

subsection \<open>Writing a page of the tree\<close>

text \<open>The error of a page that would have to hold more than fits.\<close>

definition pageFull :: "engine_error \<Rightarrow> bool" where
  "pageFull e \<longleftrightarrow> e = ErrCorruptTree ''leaf page full'' \<or> e = ErrCorruptTree ''internal page full''"

lemma uint16_small: "n \<le> 65535 \<Longrightarrow> uint16FromInt n msg = Inr (of_nat n)"
  by (simp add: uint16FromInt_def)

lemma buildInternalEntries_full:
  assumes "length ptrs = length ks" "keysFit ks" "off \<le> n" "n < off + (\<Sum>k\<leftarrow>ks. 2 + length k + 8)"
  shows "buildInternalEntries n off ks ptrs = Inl (ErrCorruptTree ''internal page full'')"
  using assms
proof (induction ks arbitrary: off ptrs)
  case (Cons k ks)
  then obtain p qs where p: "ptrs = p # qs" by (cases ptrs) auto
  have k: "length k \<le> maxKeyBytes" using Cons.prems(2) by (simp add: keysFit_def)
  then have kl: "uint16FromInt (length k) msg = Inr (of_nat (length k))" for msg by (intro uint16_small) (simp add: maxKeyBytes_def)
  show ?case
  proof (cases "n < off + 2 + length k + 8")
    case False
    then have "buildInternalEntries n (off + 2 + length k + 8) ks qs = Inl (ErrCorruptTree ''internal page full'')"
      using Cons.prems by (intro Cons.IH) (simp_all add: p keysFit_def)
    then show ?thesis using False k kl by (simp add: p)
  qed (use k in \<open>simp add: p\<close>)
qed simp

lemma buildInternalPage_full:
  assumes "length ptrs = length ks + 1" "keysFit ks" "n < internalSerializedSize ks" "length ks \<le> 65535" "btreeHeaderSize + 8 \<le> n"
  shows "buildInternalPage n parent ptrs ks = Inl (ErrCorruptTree ''internal page full'')"
proof -
  have "buildInternalEntries n (btreeHeaderSize + 8) ks (tl ptrs) = Inl (ErrCorruptTree ''internal page full'')"
    using assms by (intro buildInternalEntries_full) (auto simp: internalSerializedSize_def)
  then show ?thesis using assms(1) by (simp add: buildInternalPage_def uint16_small [OF assms(4)])
qed

lemma buildLeafEntries_full:
  assumes "length vs = length ks" "keysFit ks" "valsFit vs" "off \<le> n" "n < off + leafEntriesSize ks vs"
  shows "buildLeafEntries n off ks vs = Inl (ErrCorruptTree ''leaf page full'')"
  using assms
proof (induction ks vs arbitrary: off rule: leafEntriesSize.induct)
  case (1 k ks v vs)
  have k: "length k \<le> maxKeyBytes" "length v \<le> 65535" using "1.prems"(2,3) by (simp_all add: keysFit_def valsFit_def)
  then have l: "uint16FromInt (length k) msg = Inr (of_nat (length k))" "uint16FromInt (length v) msg = Inr (of_nat (length v))" for msg
    by (simp_all add: uint16_small maxKeyBytes_def)
  show ?case
  proof (cases "n < off + 4 + length k + length v")
    case False
    then have "buildLeafEntries n (off + 4 + length k + length v) ks vs = Inl (ErrCorruptTree ''leaf page full'')"
      using "1.prems" by (intro "1.IH") (simp_all add: keysFit_def valsFit_def)
    then show ?thesis using False k l by simp
  qed (use k in simp)
qed auto

lemma buildLeafPage_full:
  assumes "length vs = length ks" "keysFit ks" "valsFit vs" "n < leafSerializedSize ks vs" "length ks \<le> 65535" "btreeHeaderSize \<le> n"
  shows "buildLeafPage n parent nx ks vs = Inl (ErrCorruptTree ''leaf page full'')"
proof -
  have "buildLeafEntries n btreeHeaderSize ks vs = Inl (ErrCorruptTree ''leaf page full'')"
    using assms by (intro buildLeafEntries_full) (auto simp: leafSerializedSize_def)
  then show ?thesis using assms(1) by (simp add: buildLeafPage_def uint16_small [OF assms(5)])
qed

context page_store
begin

lemma writeLeaf_ok:
  assumes "ok s" "entriesOk ps ks vs" "pid \<in> svUsed (view s)"
  obtains pg s' where "buildLeafPage ps parent nx ks vs = Inr pg" "opWrite ops pid pg s = Inr s'" "ok s'"
    "view s' = putPage pid pg (view s)" "length pg = ps"
    "parseLeafPage pg = Inr \<lparr>leafNext = nx, leafParent = parent, leafKeys = ks, leafVals = vs\<rparr>"
proof -
  from entriesOk_build [OF assms(2) page_size [OF assms(1)]] obtain pg where pg: "buildLeafPage ps parent nx ks vs = Inr pg"
    "length pg = ps" "parseLeafPage pg = Inr \<lparr>leafNext = nx, leafParent = parent, leafKeys = ks, leafVals = vs\<rparr>" .
  with write_page [OF assms(1,3) pg(2)] show thesis using that by blast
qed

lemma writeNode_ok:
  assumes "ok s" "keysFit ks" "[] \<notin> set ks" "length ptrs = length ks + 1" "internalSerializedSize ks \<le> ps" "pid \<in> svUsed (view s)"
  obtains pg s' where "buildInternalPage ps parent ptrs ks = Inr pg" "opWrite ops pid pg s = Inr s'" "ok s'"
    "view s' = putPage pid pg (view s)" "length pg = ps"
    "parseInternalPage pg = Inr \<lparr>inParent = parent, inPtrs = ptrs, inKeys = ks\<rparr>"
proof -
  from keysFit_build [OF assms(2-5) page_size [OF assms(1)]] obtain pg where pg: "buildInternalPage ps parent ptrs ks = Inr pg"
    "length pg = ps" "parseInternalPage pg = Inr \<lparr>inParent = parent, inPtrs = ptrs, inKeys = ks\<rparr>" .
  with write_page [OF assms(1,6) pg(2)] show thesis using that by blast
qed

text \<open>Raising a separator.\<close>

lemma updateSeparator_ok:
  assumes "ok s" "svPage (view s) pid = Inr page" "parseInternalPage page = Inr \<lparr>inParent = parent, inPtrs = ptrs, inKeys = ks\<rparr>"
    and "pid \<in> svUsed (view s)" "i < length ks" "keysFit (ks[i := m])" "[] \<notin> set (ks[i := m])"
    and "length ptrs = length ks + 1" "internalSerializedSize ks \<le> ps"
  shows "(internalSerializedSize (ks[i := m]) > ps \<longrightarrow>
      updateSeparator ops pid (int i) m root s = Inl (ErrCorruptTree ''internal page full'')) \<and>
    (internalSerializedSize (ks[i := m]) \<le> ps \<longrightarrow> (\<exists>pg s'.
      updateSeparator ops pid (int i) m root s = Inr (svRoot (view s), s') \<and> ok s' \<and> view s' = putPage pid pg (view s) \<and>
      length pg = ps \<and> parseInternalPage pg = Inr \<lparr>inParent = parent, inPtrs = ptrs, inKeys = ks[i := m]\<rparr>))"
proof -
  have step: "updateSeparator ops pid (int i) m root s =
      bindR (buildInternalPage ps parent ptrs (ks[i := m])) (\<lambda>ipg. bindR (opWrite ops pid ipg s) (\<lambda>s.
        bindR (opRoot ops s) (\<lambda>hroot. Inr (hroot, s))))"
    using assms(2-5) by (simp add: updateSeparator_def read_page [OF assms(1)])
  have big: "btreeHeaderSize + 8 \<le> ps" using page_size [OF assms(1)] by (auto simp: btreeHeaderSize_def)
  have "10 * length ks \<le> (\<Sum>k\<leftarrow>ks. 2 + length k + 8)" by (induction ks) auto
  then have "length ks \<le> 65535"
    using assms(9) page_size [OF assms(1)] by (auto simp: internalSerializedSize_def)
  then have full: "updateSeparator ops pid (int i) m root s = Inl (ErrCorruptTree ''internal page full'')"
    if "internalSerializedSize (ks[i := m]) > ps"
    using buildInternalPage_full [OF _ assms(6) that _ big, of ptrs parent] assms(8) by (simp add: step)
  have "\<exists>pg s'. updateSeparator ops pid (int i) m root s = Inr (svRoot (view s), s') \<and> ok s' \<and>
      view s' = putPage pid pg (view s) \<and> length pg = ps \<and>
      parseInternalPage pg = Inr \<lparr>inParent = parent, inPtrs = ptrs, inKeys = ks[i := m]\<rparr>"
    if fits: "internalSerializedSize (ks[i := m]) \<le> ps"
  proof -
    have len: "length ptrs = length (ks[i := m]) + 1" using assms(8) by simp
    obtain pg s' where w: "buildInternalPage ps parent ptrs (ks[i := m]) = Inr pg" "opWrite ops pid pg s = Inr s'" "ok s'"
      "view s' = putPage pid pg (view s)" "length pg = ps"
      "parseInternalPage pg = Inr \<lparr>inParent = parent, inPtrs = ptrs, inKeys = ks[i := m]\<rparr>"
      by (rule writeNode_ok [OF assms(1,6,7) len fits assms(4)])
    have "svRoot (view s') = svRoot (view s)" by (simp add: w(4) putPage_def)
    then show ?thesis using w by (auto simp: step read_root [OF w(3)])
  qed
  with full show ?thesis by blast
qed

end

text \<open>A tree whose subtree changes in place.\<close>

lemma treeIn_hole:
  assumes "treeIn n V (plug cs u)" "list_all crumbOk cs" "rep (svPage V') n (holeNext 0 cs) (holePar None cs) u'"
    and "rootId u' = rootId u" "firstLeaf u' = firstLeaf u \<or> (\<forall>c \<in> set cs. crumbIdx c = 0)" "\<And>lo hi. treeOk n lo hi u \<Longrightarrow> treeOk n lo hi u'"
    and "set (pids u') \<subseteq> set (pids u)" "distinct (pids u')" "\<And>h. uniform u h \<Longrightarrow> uniform u' h"
    and "\<And>p. p \<in> crumbPids cs \<Longrightarrow> svPage V' p = svPage V p" "svRoot V' = svRoot V" "svUsed V \<subseteq> svUsed V'"
  shows "treeIn n V' (plug cs u')"
  unfolding treeIn_def
proof (intro conjI)
  have t: "svRoot V = rootId (plug cs u)" "rep (svPage V) n 0 None (plug cs u)" "treeOk n [] None (plug cs u)"
    "distinct (pids (plug cs u))" "set (pids (plug cs u)) \<subseteq> svUsed V" "\<exists>h. uniform (plug cs u) h"
    using assms(1) by (simp_all add: treeIn_def)
  show "svRoot V' = rootId (plug cs u')" using rootId_plug [OF assms(4)] t(1) assms(11) by simp
  show "rep (svPage V') n 0 None (plug cs u')" by (rule rep_plug_change [OF t(2) assms(3-5,10)])
  show "treeOk n [] None (plug cs u')" by (rule treeOk_plug [OF t(3) assms(2)]) (use assms(6) in blast)
  show "distinct (pids (plug cs u'))" by (rule distinct_plug_smaller [OF t(4) assms(7,8)])
  show "set (pids (plug cs u')) \<subseteq> svUsed V'" using t(5) assms(7,12) by (auto simp: set_pids_plug)
  show "\<exists>h. uniform (plug cs u') h" using t(6) uniform_plug [OF _ assms(9)] by blast
qed

lemma treeIn_at:
  assumes "treeIn n V (plug cs u)"
  shows "rep (svPage V) n (holeNext 0 cs) (holePar None cs) u" "distinct (pids u)" "set (pids (plug cs u)) \<subseteq> svUsed V"
    "treeOk n [] None (plug cs u)" "crumbPids cs \<inter> set (pids u) = {}" "svRoot V = rootId (plug cs u)"
    "set (pids u) \<subseteq> svUsed V" "\<exists>h. uniform u h"
proof -
  have t: "svRoot V = rootId (plug cs u)" "rep (svPage V) n 0 None (plug cs u)" "treeOk n [] None (plug cs u)"
    "distinct (pids (plug cs u))" "set (pids (plug cs u)) \<subseteq> svUsed V"
    using assms by (simp_all add: treeIn_def)
  then show "svRoot V = rootId (plug cs u)" "treeOk n [] None (plug cs u)" "set (pids (plug cs u)) \<subseteq> svUsed V" by blast+
  show "rep (svPage V) n (holeNext 0 cs) (holePar None cs) u" by (rule rep_plug_hole [OF t(2)])
  show "distinct (pids u)" "crumbPids cs \<inter> set (pids u) = {}" using distinct_plug [OF t(4)] by blast+
  show "set (pids u) \<subseteq> svUsed V" using t(5) by (simp add: set_pids_plug)
  show "\<exists>h. uniform u h" using assms uniform_hole by (auto simp: treeIn_def)
qed

subsection \<open>Room for one more key or entry\<close>

text \<open>
  Every internal page has \<open>room\<close> bytes left, and every leaf those of the largest entry.
\<close>

primrec slack :: "nat \<Rightarrow> nat \<Rightarrow> btree \<Rightarrow> bool" where
  "slack n room (Leaf pid ks vs) \<longleftrightarrow> leafSerializedSize ks vs + 4 + maxKeyBytes + inlineThreshold n \<le> n"
| "slack n room (Node pid ks ts) \<longleftrightarrow> internalSerializedSize ks + room \<le> n \<and> list_all (\<lambda>x. x) (map (slack n room) ts)"

fun slackCrumbs :: "nat \<Rightarrow> nat \<Rightarrow> crumb list \<Rightarrow> bool" where
  "slackCrumbs n room [] \<longleftrightarrow> True"
| "slackCrumbs n room ((pid, ks1, ks2, ts1, ts2) # cs) \<longleftrightarrow> internalSerializedSize (ks1 @ ks2) + room \<le> n \<and>
     list_all (slack n room) (ts1 @ ts2) \<and> slackCrumbs n room cs"

lemma slack_plug: "slack n room (plug cs u) \<longleftrightarrow> slackCrumbs n room cs \<and> slack n room u"
  by (induction cs rule: entriesBefore.induct) (auto simp: list_all_iff)

lemma slackCrumbs_append: "slackCrumbs n room (cs @ ds) \<longleftrightarrow> slackCrumbs n room cs \<and> slackCrumbs n room ds"
  by (induction cs rule: entriesBefore.induct) auto

lemma slack_less: "slack n room t \<Longrightarrow> room' \<le> room \<Longrightarrow> slack n room' t"
  by (induction t) (auto simp: list_all_iff)

lemma slackCrumbs_less: "slackCrumbs n room cs \<Longrightarrow> room' \<le> room \<Longrightarrow> slackCrumbs n room' cs"
  by (induction cs rule: entriesBefore.induct) (auto simp: list_all_iff intro: slack_less)

lemma internalSerializedSize_update:
  "i < length ks \<Longrightarrow> internalSerializedSize (ks[i := m]) \<le> internalSerializedSize ks + length m"
  unfolding internalSerializedSize_def by (induction ks arbitrary: i) (auto split: nat.split)

subsection \<open>The separator above a leaf whose first key is deleted\<close>

lemma cascade_zero:
  "\<forall>x \<in> set xs. snd x = 0 \<Longrightarrow> cascadeNewMinToAncestors ops (xs @ ys) m root s = cascadeNewMinToAncestors ops ys m root s"
  by (induction xs) auto

lemma firstLeafKeys_plug: "\<forall>c \<in> set cs. crumbIdx c = 0 \<Longrightarrow> firstLeafKeys (plug cs u) = firstLeafKeys u"
  by (induction cs rule: entriesBefore.induct) auto

text \<open>What stays of a context when separators change.\<close>

definition sameShape :: "crumb list \<Rightarrow> crumb list \<Rightarrow> bool" where
  "sameShape cs cs' \<longleftrightarrow> map crumbId cs' = map crumbId cs \<and> map crumbIdx cs' = map crumbIdx cs \<and>
     entriesBefore cs' = entriesBefore cs \<and> entriesAfter cs' = entriesAfter cs \<and> crumbPids cs' = crumbPids cs \<and>
     (\<forall>u. height (plug cs' u) = height (plug cs u)) \<and> (\<forall>n. slackCrumbs n 512 cs \<longrightarrow> slackCrumbs n 256 cs') \<and>
     list_all crumbOk cs'"

lemma entries_context_append:
  "entriesBefore (cs @ ds) = entriesBefore cs @ entriesBefore ds" "entriesAfter (cs @ ds) = entriesAfter ds @ entriesAfter cs"
  "crumbPids (cs @ ds) = crumbPids cs \<union> crumbPids ds"
  by (induction cs rule: entriesBefore.induct) auto

lemma holes_append: "holeNext nx (cs @ ds) = holeNext (holeNext nx cs) ds" "holePar par (cs @ ds) = holePar (holePar par cs) ds"
  by (induction nx cs arbitrary: par and par cs rule: holeNext.induct) simp_all

text \<open>Pages inside the tree change, nothing else.\<close>

definition rewritten :: "uint64 set \<Rightarrow> storeView \<Rightarrow> storeView \<Rightarrow> bool" where
  "rewritten P V V' \<longleftrightarrow> changes P 0 V V' \<and> P \<subseteq> svUsed V"

lemma rewritten_put: "pid \<in> svUsed V \<Longrightarrow> rewritten {pid} V (putPage pid pg V)"
  using changes_put [of pid V pg] by (simp add: rewritten_def)

lemma rewritten_trans: "rewritten P V V1 \<Longrightarrow> rewritten Q V1 V2 \<Longrightarrow> rewritten (P \<union> Q) V V2"
  using changes_trans [of P 0 V V1 Q 0 V2] by (auto simp: rewritten_def dest: changes_used)

lemma rewritten_used: "rewritten P V V' \<Longrightarrow> svUsed V' = svUsed V"
  by (auto simp: rewritten_def changes_def)

context page_store
begin

lemma raise_separator_ok:
  assumes "ok s" "treeIn ps (view s) (plug as (plug1 (q, ks1 @ [k], ks2, ts1 @ [a], ts2) w))"
    and "list_all crumbOk as" "length ts1 = length ks1" "firstLeafKeys w = m # ms" "length m \<le> maxKeyBytes"
  shows "(internalSerializedSize (ks1 @ m # ks2) > ps \<longrightarrow>
      updateSeparator ops q (int (length ks1)) m root s = Inl (ErrCorruptTree ''internal page full'')) \<and>
    (internalSerializedSize (ks1 @ m # ks2) \<le> ps \<longrightarrow> (\<exists>s'. updateSeparator ops q (int (length ks1)) m root s = Inr (svRoot (view s), s') \<and>
      ok s' \<and> rewritten {q} (view s) (view s') \<and>
      treeIn ps (view s') (plug as (plug1 (q, ks1 @ [m], ks2, ts1 @ [a], ts2) w))))"
proof -
  let ?u = "Node q (ks1 @ k # ks2) (ts1 @ a # w # ts2)" and ?u' = "Node q (ks1 @ m # ks2) (ts1 @ a # w # ts2)"
  have t: "treeIn ps (view s) (plug as ?u)" using assms(2) by simp
  note r = treeIn_at(1) [OF t] and d = treeIn_at(2) [OF t] and used = treeIn_at(3) [OF t] and tok = treeIn_at(4) [OF t]
    and dis = treeIn_at(5) [OF t]
  from r obtain page parent where page: "svPage (view s) q = Inr page" "length page = ps"
    "parseInternalPage page = Inr \<lparr>inParent = parent, inPtrs = map rootId (ts1 @ a # w # ts2), inKeys = ks1 @ k # ks2\<rparr>"
    "holePar None as = None \<or> holePar None as = Some parent" by (auto simp: nodeAt_def)
  have qu: "q \<in> svUsed (view s)" using used by (simp add: set_pids_plug)
  obtain lo hi where u: "treeOk ps lo hi ?u" by (rule treeOk_plug [OF tok assms(3)]) (rule that)
  then have sz: "internalSerializedSize (ks1 @ k # ks2) \<le> ps" and tr: "treesOk ps lo hi (ks1 @ k # ks2) (ts1 @ a # w # ts2)"
    by simp_all
  have pair: "lo' < m \<and> within lo' hi' m \<and> treeOk ps lo' (Some m) a \<and> treeOk ps m hi' w"
    if "treeOk ps lo' (Some k) a" "treeOk ps k hi' w" "lo' < k" "within lo' hi' k" for lo' hi'
  proof -
    have w: "within k hi' m" using firstLeafKeys_within [OF that(2)] assms(5) by simp
    then have "k \<le> m" by (simp add: within_def)
    then have "treeOk ps lo' (Some m) a" by (intro treeOk_widen(1) [OF that(1)]) (simp_all add: hiLe_def)
    moreover have "lo' < m" using that(3) \<open>k \<le> m\<close> by simp
    moreover have "within lo' hi' m" using w that(3) by (auto simp: within_def)
    ultimately show ?thesis using treeOk_raise [OF that(2) assms(5)] by simp
  qed
  have keys: "keysFit (ks1 @ k # ks2)" "[] \<notin> set (ks1 @ k # ks2)" using treesOk_keys [OF tr] by auto
  have upd: "(ks1 @ k # ks2)[length ks1 := m] = ks1 @ m # ks2" by simp
  have "m \<noteq> []"
  proof
    assume "m = []"
    obtain lo' hi' where "treeOk ps lo' (Some k) a" "treeOk ps k hi' w" "lo' < k" "within lo' hi' k"
      by (rule treesOk_pair [OF tr assms(4)]) (rule that)
    then have "lo' < m" using pair by blast
    then show False using \<open>m = []\<close> by simp
  qed
  then have keys': "keysFit (ks1 @ m # ks2)" "[] \<notin> set (ks1 @ m # ks2)"
    using keys assms(6) by (auto simp: keysFit_def)
  have len: "length (map rootId (ts1 @ a # w # ts2)) = length (ks1 @ k # ks2) + 1" using treesOk_length [OF tr] by simp
  note U = updateSeparator_ok [OF assms(1) page(1,3) qu, of "length ks1" m root, unfolded upd, OF _ keys' len sz]
  have new: "treeIn ps (putPage q pg (view s)) (plug as ?u')"
    if pg: "length pg = ps" "internalSerializedSize (ks1 @ m # ks2) \<le> ps"
      "parseInternalPage pg = Inr \<lparr>inParent = parent, inPtrs = map rootId (ts1 @ a # w # ts2), inKeys = ks1 @ m # ks2\<rparr>" for pg
  proof (rule treeIn_hole [OF t assms(3)])
    let ?V = "putPage q pg (view s)"
    have "reps (svPage ?V) ps (holeNext 0 as) (Some q) (ts1 @ a # w # ts2) =
        reps (svPage (view s)) ps (holeNext 0 as) (Some q) (ts1 @ a # w # ts2)"
      by (rule rep_cong(2)) (use d in \<open>auto simp: putPage_def\<close>)
    then show "rep (svPage ?V) ps (holeNext 0 as) (holePar None as) ?u'"
      using r pg page(4) by (simp add: nodeAt_def putPage_def)
    show "treeOk ps lo hi ?u \<Longrightarrow> treeOk ps lo hi ?u'" for lo hi
    proof -
      assume "treeOk ps lo hi ?u"
      then have tr: "treesOk ps lo hi (ks1 @ k # ks2) (ts1 @ a # w # ts2)" by simp
      have "treesOk ps lo hi (ks1 @ m # ks2) (ts1 @ a # w # ts2)"
      proof (rule treesOk_pair [OF tr assms(4)])
        fix lo' hi'
        assume p: "treeOk ps lo' (Some k) a" "treeOk ps k hi' w" "lo' < k" "within lo' hi' k"
        assume b: "\<And>m a' b'. lo' < m \<Longrightarrow> within lo' hi' m \<Longrightarrow> length m \<le> maxKeyBytes \<Longrightarrow> treeOk ps lo' (Some m) a' \<Longrightarrow>
          treeOk ps m hi' b' \<Longrightarrow> treesOk ps lo hi (ks1 @ m # ks2) (ts1 @ a' # b' # ts2)"
        show ?thesis using pair [OF p] assms(6) by (intro b) simp_all
      qed
      then show "treeOk ps lo hi ?u'" using pg(2) by simp
    qed
    show "firstLeaf ?u' = firstLeaf ?u \<or> (\<forall>c \<in> set as. crumbIdx c = 0)" by (cases ts1) simp_all
    show "svPage ?V p = svPage (view s) p" if "p \<in> crumbPids as" for p
      using that dis by (auto simp: putPage_def)
    show "svUsed (view s) \<subseteq> svUsed ?V" by (auto simp: putPage_def)
  qed (use d in \<open>simp_all add: putPage_def\<close>)
  have "rewritten {q} (view s) (putPage q pg (view s))" for pg by (rule rewritten_put [OF qu])
  with U new show ?thesis by auto
qed

end

lemma sameShape_refl: "list_all crumbOk cs \<Longrightarrow> sameShape cs cs"
  by (auto simp: sameShape_def intro: slackCrumbs_less)

lemma sameShape_raise:
  assumes "list_all crumbOk (as @ (q, ks1 @ [k], ks2, ts1 @ [a], ts2) # bs)" "length m \<le> maxKeyBytes"
  shows "sameShape (as @ (q, ks1 @ [k], ks2, ts1 @ [a], ts2) # bs) (as @ (q, ks1 @ [m], ks2, ts1 @ [a], ts2) # bs)"
proof -
  have h: "height (plug (as @ (q, ks1 @ [m], ks2, ts1 @ [a], ts2) # bs) u) = height (plug (as @ (q, ks1 @ [k], ks2, ts1 @ [a], ts2) # bs) u)" for u
  proof -
    let ?c = "plug1 (q, ks1 @ [m], ks2, ts1 @ [a], ts2) (plug bs u)" and ?d = "plug1 (q, ks1 @ [k], ks2, ts1 @ [a], ts2) (plug bs u)"
    have "height ?c = height ?d" by simp
    then have "height (plug as ?c) = height (plug as ?d)" using height_plug [of ?c ?d as] height_plug [of ?d ?c as] by simp
    then show ?thesis by simp
  qed
  have "internalSerializedSize (ks1 @ m # ks2) \<le> internalSerializedSize (ks1 @ k # ks2) + 256"
    using internalSerializedSize_update [of "length ks1" "ks1 @ k # ks2" m] assms(2) by (simp add: maxKeyBytes_def)
  then have "slackCrumbs n 512 (as @ (q, ks1 @ [k], ks2, ts1 @ [a], ts2) # bs) \<Longrightarrow>
      slackCrumbs n 256 (as @ (q, ks1 @ [m], ks2, ts1 @ [a], ts2) # bs)" for n
    by (auto simp: slackCrumbs_append list_all_iff intro: slackCrumbs_less slack_less)
  with h assms(1) show ?thesis by (simp add: sameShape_def entries_context_append)
qed

context page_store
begin

lemma cascade_ok:
  assumes "ok s" "treeIn ps (view s) (plug cs (Leaf pid (m # ms) vs))" "list_all crumbOk cs" "length m \<le> maxKeyBytes"
  shows "(cascadeNewMinToAncestors ops (rev (zip (map crumbId cs) (map crumbIdx cs))) m root s = Inl (ErrCorruptTree ''internal page full'') \<and>
      \<not> slackCrumbs ps 512 cs) \<or>
    (\<exists>s' cs' P. cascadeNewMinToAncestors ops (rev (zip (map crumbId cs) (map crumbIdx cs))) m root s = Inr s' \<and> ok s' \<and>
      treeIn ps (view s') (plug cs' (Leaf pid (m # ms) vs)) \<and> sameShape cs cs' \<and> rewritten P (view s) (view s') \<and> P \<subseteq> crumbPids cs)"
proof (cases "\<exists>c \<in> set cs. crumbIdx c > 0")
  case False
  then have "cascadeNewMinToAncestors ops (rev (zip (map crumbId cs) (map crumbIdx cs)) @ []) m root s = Inr s"
    by (subst cascade_zero) (auto simp: set_zip)
  moreover have "rewritten {} (view s) (view s)" by (simp add: rewritten_def changes_refl)
  ultimately show ?thesis using assms(1,2) sameShape_refl [OF assms(3)]
    by (intro disjI2 exI [of _ s] exI [of _ cs] exI [of _ "{}"]) simp
next
  case True
  from split_list_last_prop [OF True] obtain as c bs where cs: "cs = as @ c # bs" "crumbIdx c > 0" "\<forall>z \<in> set bs. crumbIdx z = 0"
    by blast
  obtain q kk ks2 tt ts2 where c: "c = (q, kk, ks2, tt, ts2)" by (cases c) auto
  have "length tt = length kk" "tt \<noteq> []" using assms(3) cs(2) by (auto simp: cs(1) c)
  then obtain ks1 k ts1 a where kk: "kk = ks1 @ [k]" "tt = ts1 @ [a]" "length ts1 = length ks1"
    by (cases kk rule: rev_cases; cases tt rule: rev_cases) auto
  let ?w = "plug bs (Leaf pid (m # ms) vs)"
  have t: "treeIn ps (view s) (plug as (plug1 (q, ks1 @ [k], ks2, ts1 @ [a], ts2) ?w))"
    using assms(2) by (simp only: cs(1) c kk plug_simps)
  have fl: "firstLeafKeys ?w = m # ms" using firstLeafKeys_plug [OF cs(3)] by simp
  have oks: "list_all crumbOk as" using assms(3) by (simp add: cs(1))
  have step: "cascadeNewMinToAncestors ops (rev (zip (map crumbId cs) (map crumbIdx cs))) m root s =
      mapR snd (updateSeparator ops q (int (length ks1)) m root s)"
    by (simp add: cs(1) c kk, subst cascade_zero) (use cs(3) kk(3) in \<open>auto simp: set_zip\<close>)
  have shape: "sameShape cs (as @ (q, ks1 @ [m], ks2, ts1 @ [a], ts2) # bs)"
    unfolding cs(1) c kk by (rule sameShape_raise) (use assms(3,4) in \<open>simp_all add: cs(1) c kk\<close>)
  have size: "internalSerializedSize (ks1 @ m # ks2) \<le> internalSerializedSize (ks1 @ k # ks2) + 256"
    using internalSerializedSize_update [of "length ks1" "ks1 @ k # ks2" m] assms(4) by (simp add: maxKeyBytes_def)
  note U = raise_separator_ok [OF assms(1) t oks kk(3) fl assms(4), of root]
  show ?thesis
  proof (cases "internalSerializedSize (ks1 @ m # ks2) \<le> ps")
    case False
    then have "\<not> slackCrumbs ps 512 cs" using size by (simp add: cs(1) c kk slackCrumbs_append)
    then show ?thesis using U False by (simp add: step)
  next
    case True
    with U obtain s' where s': "updateSeparator ops q (int (length ks1)) m root s = Inr (svRoot (view s), s')" "ok s'"
      "rewritten {q} (view s) (view s')" "treeIn ps (view s') (plug as (plug1 (q, ks1 @ [m], ks2, ts1 @ [a], ts2) ?w))" by blast
    have "{q} \<subseteq> crumbPids cs" by (simp add: cs(1) c entries_context_append)
    moreover have "treeIn ps (view s') (plug (as @ (q, ks1 @ [m], ks2, ts1 @ [a], ts2) # bs) (Leaf pid (m # ms) vs))"
      using s'(4) by (simp only: plug_simps)
    ultimately show ?thesis
      using s'(1-3) shape step by (intro disjI2 exI [of _ s'] exI [of _ "as @ (q, ks1 @ [m], ks2, ts1 @ [a], ts2) # bs"] exI [of _ "{q}"]) simp
  qed
qed

end

subsection \<open>Taking a child out of its parent\<close>

text \<open>What deletion relies on beyond \<open>overflow_store\<close>: the root can be cleared.\<close>

locale delete_store = overflow_store +
  assumes clear_root: "ok s \<Longrightarrow> \<exists>s'. opSetRoot ops 0 s = Inr s' \<and> ok s' \<and> view s' = (view s)\<lparr>svRoot := 0\<rparr>"

definition withoutKey :: "nat \<Rightarrow> bytes list \<Rightarrow> bytes list" where
  "withoutKey i keys = (if i = 0 then drop 1 keys else take (i - 1) keys @ drop i keys)"

lemma withoutKey_facts:
  assumes "i \<le> length keys" "keys \<noteq> []"
  shows "length (withoutKey i keys) + 1 = length keys" "set (withoutKey i keys) \<subseteq> set keys"
    "internalSerializedSize (withoutKey i keys) \<le> internalSerializedSize keys"
proof -
  define j where "j = i - 1"
  have w: "withoutKey i keys = take j keys @ drop (Suc j) keys"
    by (cases i) (simp_all add: withoutKey_def j_def)
  have j: "j < length keys" using assms by (cases i) (simp_all add: j_def)
  show "length (withoutKey i keys) + 1 = length keys" using j by (simp add: w)
  show "set (withoutKey i keys) \<subseteq> set keys" by (auto simp: w dest: in_set_takeD in_set_dropD)
  have "keys = take j keys @ keys ! j # drop (Suc j) keys" by (rule id_take_nth_drop [OF j])
  then have "internalSerializedSize keys = internalSerializedSize (take j keys @ keys ! j # drop (Suc j) keys)" by simp
  then show "internalSerializedSize (withoutKey i keys) \<le> internalSerializedSize keys"
    by (simp add: w internalSerializedSize_def)
qed

lemma removePtrAndKey_eq:
  "i < length ptrs \<Longrightarrow> 2 \<le> length ptrs \<Longrightarrow> removePtrAndKey ptrs keys i = Inr (take i ptrs @ drop (i + 1) ptrs, withoutKey i keys)"
  by (auto simp: removePtrAndKey_def Let_def withoutKey_def)

context page_store
begin

lemma removeInternalChild_keep:
  assumes "ok s" "svPage (view s) q = Inr page" "parseInternalPage page = Inr \<lparr>inParent = parent, inPtrs = ptrs, inKeys = keys\<rparr>"
    and "q \<in> svUsed (view s)" "i < length ptrs" "keysFit keys" "[] \<notin> set keys" "length ptrs = length keys + 1"
    and "2 \<le> length ptrs" "q \<noteq> svRoot (view s) \<or> 3 \<le> length ptrs" "internalSerializedSize keys \<le> ps"
  obtains pg s' where "removeInternalChild ops (Suc f) q i root s = Inr (svRoot (view s), s')" "ok s'"
    "view s' = putPage q pg (view s)" "length pg = ps"
    "parseInternalPage pg = Inr \<lparr>inParent = parent, inPtrs = take i ptrs @ drop (i + 1) ptrs, inKeys = withoutKey i keys\<rparr>"
proof -
  let ?ptrs = "take i ptrs @ drop (i + 1) ptrs"
  have "i \<le> length keys" "keys \<noteq> []" using assms(5,8,9) by auto
  note w = withoutKey_facts [OF this]
  have fit: "keysFit (withoutKey i keys)" "[] \<notin> set (withoutKey i keys)" "length ?ptrs = length (withoutKey i keys) + 1"
    "internalSerializedSize (withoutKey i keys) \<le> ps"
    using w assms(5,6,7,8,11) by (auto simp: keysFit_def)
  obtain pg s' where p: "buildInternalPage ps parent ?ptrs (withoutKey i keys) = Inr pg" "opWrite ops q pg s = Inr s'" "ok s'"
    "view s' = putPage q pg (view s)" "length pg = ps"
    "parseInternalPage pg = Inr \<lparr>inParent = parent, inPtrs = ?ptrs, inKeys = withoutKey i keys\<rparr>"
    by (rule writeNode_ok [OF assms(1) fit assms(4)])
  have "?ptrs \<noteq> []" "q = svRoot (view s) \<Longrightarrow> length ?ptrs \<noteq> 1" using assms(5,9,10) by auto
  then have "removeInternalChild ops (Suc f) q i root s = Inr (svRoot (view s), s')"
    using assms(2-5,9) p(1,2)
    by (cases "q = svRoot (view s)")
      (simp_all add: read_page [OF assms(1)] read_root [OF assms(1)] removePtrAndKey_eq Let_def del: append_is_Nil_conv)
  then show thesis using p(3-6) by (rule that)
qed

end

text \<open>
  The outcome of a removal: the tree the new root names, while the header still names the old one;
  pages outside the tree stay as they are, and pages that left the tree may be free.
\<close>

definition removal :: "nat \<Rightarrow> storeView \<Rightarrow> btree \<Rightarrow> uint64 \<Rightarrow> storeView \<Rightarrow> btree option \<Rightarrow> bool" where
  "removal n V t newRoot V' ot' \<longleftrightarrow> optTree n (V'\<lparr>svRoot := newRoot\<rparr>) ot' \<and>
     (newRoot = svRoot V \<or> newRoot = 0 \<or> newRoot \<in> svWritten V') \<and> svRoot V' = svRoot V \<and>
     optPids ot' \<subseteq> set (pids t) \<and> (\<forall>p. p \<notin> set (pids t) \<longrightarrow> svPage V' p = svPage V p) \<and>
     svUsed V' \<subseteq> svUsed V \<and> svUsed V - (set (pids t) - optPids ot') \<subseteq> svUsed V' \<and> svRoom V \<le> svRoom V'"

context overflow_store
begin

lemma release_view:
  assumes "ok s" "p \<in> svUsed (view s)"
  obtains s' where "opRelease ops p s = Inr s'" "ok s'" "svPage (view s') = svPage (view s)" "svRoot (view s') = svRoot (view s)"
    "svUsed (view s) - {p} \<subseteq> svUsed (view s')" "svUsed (view s') \<subseteq> svUsed (view s)" "svRoom (view s) \<le> svRoom (view s')"
    "svWritten (view s') = svWritten (view s)"
proof -
  from release [OF assms] obtain s' where "opRelease ops p s = Inr s'" "ok s'" "view s' = view s \<or>
    view s' = (view s)\<lparr>svUsed := svUsed (view s) - {p}, svRoom := svRoom (view s) + 1\<rparr>" by blast
  then show thesis by (intro that [of s']) auto
qed

text \<open>A page that is no longer in the tree is released.\<close>

lemma removal_release:
  assumes "ok s'" "removal ps V t newRoot (view s') ot'" "p \<in> svUsed (view s')" "p \<in> set (pids t)" "p \<notin> optPids ot'"
  obtains s'' where "opRelease ops p s' = Inr s''" "ok s''" "removal ps V t newRoot (view s'') ot'"
proof -
  obtain s'' where r: "opRelease ops p s' = Inr s''" "ok s''" "svPage (view s'') = svPage (view s')" "svRoot (view s'') = svRoot (view s')"
    "svUsed (view s') - {p} \<subseteq> svUsed (view s'')" "svUsed (view s'') \<subseteq> svUsed (view s')" "svRoom (view s') \<le> svRoom (view s'')"
    "svWritten (view s'') = svWritten (view s')" by (rule release_view [OF assms(1,3)])
  have tree: "optTree ps ((view s')\<lparr>svRoot := newRoot\<rparr>) ot'" using assms(2) by (simp add: removal_def)
  then have "optPids ot' \<subseteq> svUsed (view s'')" using optTree_used [OF tree] r(5) assms(5) by auto
  then have "optTree ps ((view s'')\<lparr>svRoot := newRoot\<rparr>) ot'" by (intro optTree_keep [OF tree]) (simp_all add: r(3))
  moreover have "svUsed V - (set (pids t) - optPids ot') \<subseteq> svUsed (view s'')"
    using assms(2,4,5) r(5) unfolding removal_def by blast
  ultimately have "removal ps V t newRoot (view s'') ot'"
    using assms(2) r(3,4,6-8) unfolding removal_def by (simp add: order_trans [of "svRoom V"]) blast
  then show thesis using r(1,2) that by blast
qed

text \<open>The root's second child goes and the first becomes the root, or the other way round.\<close>

lemma removeInternalChild_collapse:
  assumes "ok s" "svPage (view s) q = Inr page"
    and "parseInternalPage page = Inr \<lparr>inParent = parent, inPtrs = ptrs, inKeys = keys\<rparr>"
    and "q \<in> svUsed (view s)" "i < 2" "length ptrs = 2" "q = svRoot (view s)" "ptrs ! (1 - i) = rootId u"
    and "rep (svPage (view s)) ps nx par u" "distinct (pids u)" "set (pids u) \<subseteq> svUsed (view s)" "q \<notin> set (pids u)"
  obtains s' where "removeInternalChild ops (Suc f) q i root s = Inr (rootId u, s')" "ok s'"
    "rep (svPage (view s')) ps nx (Some 0) u" "\<And>p. p \<noteq> rootId u \<Longrightarrow> svPage (view s') p = svPage (view s) p"
    "svRoot (view s') = svRoot (view s)" "svUsed (view s) - {q} \<subseteq> svUsed (view s')" "svUsed (view s') \<subseteq> svUsed (view s)"
    "svRoom (view s) \<le> svRoom (view s')" "rootId u \<in> svWritten (view s')"
proof -
  have ru: "rootId u \<in> svUsed (view s)" using assms(11) pids_rootId by blast
  obtain pg where pg: "svPage (view s) (rootId u) = Inr pg" using rep_page [OF assms(9)] ..
  have w: "length (withParent pg 0) = ps" "rep ((svPage (view s))(rootId u := Inr (withParent pg 0))) ps nx (Some 0) u"
  proof -
    have r: "length pg = ps" "rep ((svPage (view s))(rootId u := Inr (withParent pg 0))) ps nx (Some 0) u"
      using rep_withParent [OF assms(9,10) pg page_size [OF assms(1)] refl] by blast+
    have "24 \<le> length pg" using r(1) page_size [OF assms(1)] by auto
    then show "length (withParent pg 0) = ps" using withParent_slices(1) r(1) by simp
    show "rep ((svPage (view s))(rootId u := Inr (withParent pg 0))) ps nx (Some 0) u" by (rule r(2))
  qed
  from write_page [OF assms(1) ru w(1)] obtain s1 where s1: "opWrite ops (rootId u) (withParent pg 0) s = Inr s1" "ok s1"
    "view s1 = putPage (rootId u) (withParent pg 0) (view s)" by blast
  have q1: "q \<in> svUsed (view s1)" using assms(4) s1(3) by (simp add: putPage_def)
  obtain s' where r: "opRelease ops q s1 = Inr s'" "ok s'" "svPage (view s') = svPage (view s1)" "svRoot (view s') = svRoot (view s1)"
    "svUsed (view s1) - {q} \<subseteq> svUsed (view s')" "svUsed (view s') \<subseteq> svUsed (view s1)" "svRoom (view s1) \<le> svRoom (view s')"
    "svWritten (view s') = svWritten (view s1)" by (rule release_view [OF s1(2) q1])
  have "take i ptrs @ drop (i + 1) ptrs = [rootId u]"
    using assms(5,6,8) by (auto simp: length_Suc_conv numeral_2_eq_2 less_Suc_eq)
  then have "removeInternalChild ops (Suc f) q i root s = Inr (rootId u, s')"
    using assms(2-7) s1(1) r(1) pg ru
    by (simp add: read_page [OF assms(1)] read_root [OF assms(1)] removePtrAndKey_eq Let_def setParent_def)
  then show thesis
    using r w(2) s1(3) ru by (intro that [of s']) (auto simp: putPage_def)
qed

end

lemma uniform_children:
  "uniform (Node q keys ts) h \<Longrightarrow> (\<And>h. \<forall>t \<in> set ts. uniform t h \<Longrightarrow> \<forall>t \<in> set us. uniform t h) \<Longrightarrow>
   uniform (Node q' keys' us) h"
  by (auto simp: list_all_iff)

lemma plug_root: "as \<noteq> [] \<Longrightarrow> rootId (plug as u) \<in> crumbPids as"
  by (cases as rule: crumbPids.cases) simp_all

lemma optTree_Some: "optTree n V (Some t) \<longleftrightarrow> svRoot V \<noteq> 0 \<and> treeIn n V t"
  by (simp add: optTree_def)

lemma treeIn_root_cong:
  "treeIn n V t \<Longrightarrow> svPage V' = svPage V \<Longrightarrow> svRoot V' = svRoot V \<Longrightarrow> svUsed V' = svUsed V \<Longrightarrow> treeIn n V' t"
  by (simp add: treeIn_def)

context overflow_store
begin

lemma remove_child_ok:
  assumes "ok s" and t: "treeIn ps V (plug as (Node q keys (tsa @ x # tsb)))" "list_all crumbOk as"
    and V: "rewritten P V (view s)" "P \<subseteq> set (concat (map pids (tsa @ tsb)))"
    and us: "map rootId us = map rootId (tsa @ tsb)" "us \<noteq> []"
      "reps (svPage (view s)) ps (holeNext 0 as) (Some q) us"
      "\<And>lo hi. treeOk ps lo hi (Node q keys (tsa @ x # tsb)) \<Longrightarrow> treesOk ps lo hi (withoutKey (length tsa) keys) us"
      "set (concat (map pids us)) \<subseteq> set (concat (map pids (tsa @ tsb)))" "distinct (concat (map pids us))"
      "firstLeaf (hd us) = firstLeaf (hd (tsa @ x # tsb)) \<or> (\<forall>c \<in> set as. crumbIdx c = 0)"
      "\<forall>u \<in> set us. height u < height (Node q keys (tsa @ x # tsb))"
      "\<And>h. \<forall>u \<in> set (tsa @ x # tsb). uniform u h \<Longrightarrow> \<forall>u \<in> set us. uniform u h"
  shows "\<exists>newRoot s' t'. removeInternalChild ops (Suc f) q (length tsa) root s = Inr (newRoot, s') \<and> ok s' \<and>
    removal ps V (plug as (Node q keys (tsa @ x # tsb))) newRoot (view s') (Some t') \<and>
    set (pids x) \<subseteq> svUsed (view s') \<and> set (pids x) \<inter> set (pids t') = {} \<and>
    entries t' = entriesBefore as @ concat (map entries us) @ entriesAfter as \<and>
    height t' \<le> height (plug as (Node q keys (tsa @ x # tsb)))"
proof -
  let ?N = "Node q keys (tsa @ x # tsb)" and ?i = "length tsa" and ?ptrs = "map rootId (tsa @ x # tsb)"
  let ?N' = "Node q (withoutKey ?i keys) us"
  note at = treeIn_at [OF t(1)]
  have same: "svPage (view s) p = svPage V p" if "p \<notin> P" for p using V(1) that by (auto simp: rewritten_def changes_def)
  have Vs: "svUsed (view s) = svUsed V" "svRoot (view s) = svRoot V" "svRoom V \<le> svRoom (view s)"
    using V(1) by (auto simp: rewritten_def changes_def)
  have dist: "distinct (pids ?N)" by (rule at(2))
  have qP: "q \<notin> P" "q \<notin> set (concat (map pids us))" using V(2) us(5) dist by auto
  have xus: "set (pids x) \<inter> set (concat (map pids us)) = {}"
  proof -
    have "set (pids x) \<inter> set (concat (map pids (tsa @ tsb))) = {}" using dist by auto
    then show ?thesis using us(5) by blast
  qed
  obtain page parent where page: "svPage (view s) q = Inr page" "length page = ps"
    "parseInternalPage page = Inr \<lparr>inParent = parent, inPtrs = ?ptrs, inKeys = keys\<rparr>"
    "holePar None as = None \<or> holePar None as = Some parent"
    using at(1) same [OF qP(1)] by (auto simp: nodeAt_def)
  have qu: "q \<in> svUsed (view s)" and xu: "set (pids x) \<subseteq> svUsed (view s)"
    using at(7) pids_rootId [of x] by (auto simp: Vs)
  obtain lo hi where N: "treeOk ps lo hi ?N" by (rule treeOk_plug [OF at(4) t(2)]) (rule that)
  then have tk: "treesOk ps lo hi keys (tsa @ x # tsb)" and sz: "internalSerializedSize keys \<le> ps" by simp_all
  note keys = treesOk_keys [OF tk]
  have two: "2 \<le> length ?ptrs" using us(1,2) by (cases tsa; cases tsb) auto
  have len: "length ?ptrs = length keys + 1" using treesOk_length [OF tk] by simp
  have il: "?i < length ?ptrs" by simp
  have wk: "internalSerializedSize (withoutKey ?i keys) \<le> internalSerializedSize keys"
  proof (rule withoutKey_facts(3))
    show "?i \<le> length keys" using len by simp
    show "keys \<noteq> []" using len two by auto
  qed
  have root: "svRoot (view s) \<noteq> 0"
    using at(3,6) used_nonzero [OF assms(1)] pids_rootId [of "plug as ?N"] by (auto simp: Vs)
  show ?thesis
  proof (cases "as = [] \<and> length ?ptrs = 2")
    case False
    have "q \<noteq> svRoot (view s)" if "as \<noteq> []"
      using plug_root [OF that, of ?N] at(5,6) by (auto simp: Vs)
    then have big: "q \<noteq> svRoot (view s) \<or> 3 \<le> length ?ptrs" using False two by auto
    obtain pg s' where R: "removeInternalChild ops (Suc f) q ?i root s = Inr (svRoot (view s), s')" "ok s'"
      "view s' = putPage q pg (view s)" "length pg = ps"
      "parseInternalPage pg = Inr \<lparr>inParent = parent, inPtrs = take ?i ?ptrs @ drop (?i + 1) ?ptrs, inKeys = withoutKey ?i keys\<rparr>"
      by (rule removeInternalChild_keep [where f = f and root = root, OF assms(1) page(1,3) qu il conjunct1 [OF keys] conjunct2 [OF keys] len two big sz])
    have ptrs: "take ?i ?ptrs @ drop (?i + 1) ?ptrs = map rootId us" using us(1) by simp
    have V': "svUsed (view s') = svUsed V" "svRoot (view s') = svRoot V" "svRoom V \<le> svRoom (view s')"
      using qu Vs by (auto simp: R(3) putPage_def)
    have T: "treeIn ps (view s') (plug as ?N')"
    proof (rule treeIn_hole [OF t])
      have "reps (svPage (view s')) ps (holeNext 0 as) (Some q) us = reps (svPage (view s)) ps (holeNext 0 as) (Some q) us"
        by (rule rep_cong(2)) (use qP(2) in \<open>auto simp: R(3) putPage_def\<close>)
      then show "rep (svPage (view s')) ps (holeNext 0 as) (holePar None as) ?N'"
        using us(3) R(4,5) page(4) unfolding ptrs by (simp add: nodeAt_def R(3) putPage_def)
      show "firstLeaf ?N' = firstLeaf ?N \<or> (\<forall>c \<in> set as. crumbIdx c = 0)"
        using us(2,7) by (simp add: firstLeaf_Node)
      show "treeOk ps lo hi ?N \<Longrightarrow> treeOk ps lo hi ?N'" for lo hi using us(4) [of lo hi] wk by simp
      show "set (pids ?N') \<subseteq> set (pids ?N)" using us(5) by auto
      show "uniform ?N h \<Longrightarrow> uniform ?N' h" for h by (rule uniform_children [OF _ us(9)])
      show "distinct (pids ?N')" using us(6) qP(2) by simp
      show "svPage (view s') p = svPage V p" if "p \<in> crumbPids as" for p
      proof -
        have "p \<notin> set (pids ?N)" using that at(5) by blast
        then have "p \<noteq> q" "p \<notin> P" using V(2) by auto
        then show ?thesis using same by (simp add: R(3) putPage_def)
      qed
    qed (simp_all add: V')
    have "removal ps V (plug as ?N) (svRoot (view s)) (view s') (Some (plug as ?N'))"
      unfolding removal_def
    proof (intro conjI)
      show "optTree ps ((view s')\<lparr>svRoot := svRoot (view s)\<rparr>) (Some (plug as ?N'))"
        using root treeIn_root_cong [OF T] V'(2) by (simp add: optTree_Some Vs)
      show "\<forall>p. p \<notin> set (pids (plug as ?N)) \<longrightarrow> svPage (view s') p = svPage V p"
        using V(2) same by (auto simp: R(3) putPage_def set_pids_plug)
      show "optPids (Some (plug as ?N')) \<subseteq> set (pids (plug as ?N))"
        using us(5) by (auto simp: optPids_def set_pids_plug)
    qed (simp_all add: V' Vs)
    moreover have "set (pids x) \<inter> set (pids (plug as ?N')) = {}"
    proof -
      have "set (pids x) \<subseteq> set (pids ?N)" "q \<notin> set (pids x)" using dist by auto
      then show ?thesis using at(5) xus by (auto simp: set_pids_plug)
    qed
    moreover have "height (plug as ?N') \<le> height (plug as ?N)"
    proof (rule height_plug)
      show "height ?N' \<le> height ?N" using us(8) by (intro order_trans [OF height_Node_le [of us "height ?N - 1"]]) auto
    qed
    ultimately show ?thesis using R(1,2) xu by (intro exI [of _ "svRoot (view s)"] exI [of _ s'] exI [of _ "plug as ?N'"]) (simp add: entries_plug V' Vs)
  next
    case True
    then have as: "as = []" and two: "length ?ptrs = 2" by simp_all
    then have i2: "?i < 2" by simp
    have "length us = 1" using us(1) two by (auto dest: arg_cong [of _ _ length])
    then obtain u where u: "us = [u]" by (auto simp: length_Suc_conv)
    have other: "?ptrs ! (1 - ?i) = rootId u" using us(1) two u by (cases tsa) (auto simp: length_Suc_conv Suc_eq_plus1 [symmetric] del: Suc_eq_plus1)
    have qr: "q = svRoot (view s)" using at(6) by (simp add: as Vs)
    have ru: "rep (svPage (view s)) ps 0 (Some q) u" "distinct (pids u)" "q \<notin> set (pids u)" using us(3,6) qP(2) by (simp_all add: u as)
    have "set (pids u) \<subseteq> set (pids ?N)" using us(5) by (auto simp: u)
    then have uu: "set (pids u) \<subseteq> svUsed (view s)" using at(7) unfolding Vs by (rule order_trans)
    obtain s' where R: "removeInternalChild ops (Suc f) q ?i root s = Inr (rootId u, s')" "ok s'"
      "rep (svPage (view s')) ps 0 (Some 0) u" "\<And>p. p \<noteq> rootId u \<Longrightarrow> svPage (view s') p = svPage (view s) p"
      "svRoot (view s') = svRoot (view s)" "svUsed (view s) - {q} \<subseteq> svUsed (view s')" "svUsed (view s') \<subseteq> svUsed (view s)"
      "svRoom (view s) \<le> svRoom (view s')" "rootId u \<in> svWritten (view s')"
      by (rule removeInternalChild_collapse [where f = f and root = root, OF assms(1) page(1,3) qu i2 two qr other ru(1,2) uu ru(3)]) (rule that)
    have tu: "treeOk ps [] None u"
    proof -
      have "treesOk ps [] None (withoutKey ?i keys) us" using us(4) [of "[]" None] at(4) by (simp add: as)
      then show ?thesis by (cases "withoutKey ?i keys") (simp_all add: u)
    qed
    have u': "set (pids u) \<subseteq> svUsed (view s')" using uu R(6) ru(3) by blast
    have "rootId u \<noteq> 0" using uu pids_rootId [of u] used_nonzero [OF assms(1)] by auto
    obtain h where "uniform ?N h" using at(8) by blast
    from uniform_children [OF this us(9)] have "\<exists>h. uniform u h" by (auto simp: u)
    then have "optTree ps ((view s')\<lparr>svRoot := rootId u\<rparr>) (Some u)"
      using \<open>rootId u \<noteq> 0\<close> tu ru(2) u' rep_parent [OF R(3)] by (simp add: optTree_Some treeIn_def)
    moreover have "\<forall>p. p \<notin> set (pids ?N) \<longrightarrow> svPage (view s') p = svPage V p"
    proof (intro allI impI)
      fix p assume p: "p \<notin> set (pids ?N)"
      have "p \<noteq> rootId u" using p us(5) pids_rootId [of u] by (auto simp: u)
      moreover have "p \<notin> P" using p V(2) by auto
      ultimately show "svPage (view s') p = svPage V p" using R(4) same by simp
    qed
    moreover have "optPids (Some u) \<subseteq> set (pids ?N)" using us(5) by (auto simp: optPids_def u)
    moreover have "svUsed V - (set (pids ?N) - optPids (Some u)) \<subseteq> svUsed (view s')"
      using R(6) qP(2) by (auto simp: Vs optPids_def u)
    ultimately have "removal ps V (plug as ?N) (rootId u) (view s') (Some u)"
      using R(5,7-9) Vs by (simp add: removal_def as)
    moreover have "set (pids x) \<subseteq> svUsed (view s')" using xu R(6) dist by auto
    moreover have "height u \<le> height ?N" using us(8) by (simp add: u)
    ultimately show ?thesis using R(1,2) xus
      by (intro exI [of _ "rootId u"] exI [of _ s'] exI [of _ u]) (simp add: as u)
  qed
qed

end

subsection \<open>Merging two leaves\<close>

lemma entriesOk_merge:
  assumes "treeOk n lo (Some k) (Leaf l lks lvs)" "treeOk n k hi (Leaf r rks rvs)" "lo < k" "within lo hi k"
    and "leafSerializedSize (lks @ rks) (lvs @ rvs) \<le> n"
  shows "treeOk n lo hi (Leaf l (lks @ rks) (lvs @ rvs))"
proof -
  have "treeOk n lo hi (Leaf l lks lvs)"
    by (rule treeOk_widen(1) [OF assms(1)]) (use assms(4) in \<open>auto simp: hiLe_def within_def split: option.splits\<close>)
  moreover have "treeOk n lo hi (Leaf r rks rvs)"
    by (rule treeOk_widen(1) [OF assms(2)]) (use assms(3) in simp_all)
  moreover have "x < y" if "x \<in> set lks" "y \<in> set rks" for x y
  proof -
    have "x < k" "k \<le> y" using assms(1,2) that by (auto simp: within_def)
    then show ?thesis by simp
  qed
  ultimately show ?thesis using assms(5) by (auto simp: entriesOk_def sorted_wrt_append)
qed

lemma zip_append_leaves:
  "entriesOk n lks lvs \<Longrightarrow> zip (lks @ rks) (lvs @ rvs) = zip lks lvs @ zip rks rvs"
  by (simp add: entriesOk_def)

context overflow_store
begin

lemma childPtrIndex_ok:
  assumes "ok s" "nodeAt (svPage (view s)) ps par q keys (map rootId (tsa @ x # tsb))" "q \<in> svUsed (view s)"
    and "distinct (concat (map pids (tsa @ x # tsb)))"
  shows "childPtrIndexInParent ops s q (rootId x) = Inr (length tsa)"
proof -
  obtain page parent where page: "svPage (view s) q = Inr page"
    "parseInternalPage page = Inr \<lparr>inParent = parent, inPtrs = map rootId (tsa @ x # tsb), inKeys = keys\<rparr>"
    using assms(2) by (auto simp: nodeAt_def)
  have "ptrIndex (map rootId (tsa @ x # tsb)) (rootId x) = Some (length tsa)"
    by (rule ptrIndex_middle [OF distinct_rootIds [OF assms(4)]])
  then show ?thesis
    using page parseInternalPage_kind [OF page(2)] assms(3)
    by (simp add: childPtrIndexInParent_def read_page [OF assms(1)])
qed

lemma mergeRightLeaf_ok:
  assumes "ok s" and t: "treeIn ps (view s) (plug as (Node q (ks1 @ k # ks2) (ts1 @ Leaf l lks lvs # Leaf r rks rvs # ts2)))"
      "list_all crumbOk as" "length ts1 = length ks1"
    and ld: "leafParent ld = q" "leafKeys ld = lks" "leafVals ld = lvs"
    and rd: "leafParent rd = q" "leafKeys rd = rks" "leafVals rd = rvs"
      "leafNext rd = (case ts2 of [] \<Rightarrow> holeNext 0 as | u # _ \<Rightarrow> firstLeaf u)"
    and size: "leafSerializedSize (lks @ rks) (lvs @ rvs) \<le> ps"
  shows "\<exists>newRoot s' t'. mergeRightLeaf ops (Suc f) l ld rd r root s = Inr (newRoot, s') \<and> ok s' \<and>
    removal ps (view s) (plug as (Node q (ks1 @ k # ks2) (ts1 @ Leaf l lks lvs # Leaf r rks rvs # ts2))) newRoot (view s') (Some t') \<and>
    entries t' = entries (plug as (Node q (ks1 @ k # ks2) (ts1 @ Leaf l lks lvs # Leaf r rks rvs # ts2))) \<and>
    height t' \<le> height (plug as (Node q (ks1 @ k # ks2) (ts1 @ Leaf l lks lvs # Leaf r rks rvs # ts2)))"
proof -
  let ?L = "Leaf l lks lvs" and ?R = "Leaf r rks rvs" and ?M = "Leaf l (lks @ rks) (lvs @ rvs)"
  let ?N = "Node q (ks1 @ k # ks2) (ts1 @ ?L # ?R # ts2)" and ?tsa = "ts1 @ [?L]" and ?us = "ts1 @ ?M # ts2"
  let ?nx = "case ts2 of [] \<Rightarrow> holeNext 0 as | u # _ \<Rightarrow> firstLeaf u"
  note at = treeIn_at [OF t(1)]
  have dist: "distinct (pids ?N)" by (rule at(2))
  have node: "nodeAt (svPage (view s)) ps (holePar None as) q (ks1 @ k # ks2) (map rootId (?tsa @ ?R # ts2))"
    using at(1) by simp
  have used: "q \<in> svUsed (view s)" "l \<in> svUsed (view s)" "r \<in> svUsed (view s)" using at(7) by auto
  have dc: "distinct (concat (map pids (?tsa @ ?R # ts2)))" using dist by simp
  have idx: "childPtrIndexInParent ops s q r = Inr (Suc (length ts1))"
    using childPtrIndex_ok [OF assms(1) node used(1) dc] by simp
  obtain lo hi where N: "treeOk ps lo hi ?N" by (rule treeOk_plug [OF at(4) t(2)]) (rule that)
  have merged: "treesOk ps lo hi (ks1 @ ks2) ?us" if "treeOk ps lo hi ?N" for lo hi
  proof -
    have tr: "treesOk ps lo hi (ks1 @ k # ks2) (ts1 @ ?L # ?R # ts2)" using that by simp
    show ?thesis
    proof (rule treesOk_pair [OF tr t(3)])
      fix lo' hi'
      assume p: "treeOk ps lo' (Some k) ?L" "treeOk ps k hi' ?R" "lo' < k" "within lo' hi' k"
      assume "\<And>c. treeOk ps lo' hi' c \<Longrightarrow> treesOk ps lo hi (ks1 @ ks2) (ts1 @ c # ts2)"
      then show ?thesis using entriesOk_merge [OF p size] by blast
    qed
  qed
  have eM: "entriesOk ps (lks @ rks) (lvs @ rvs)" and eL: "entriesOk ps lks lvs"
  proof -
    obtain lo' hi' where "treeOk ps lo' hi' ?M" using treesOk_middle [OF merged [OF N]] by blast
    then show "entriesOk ps (lks @ rks) (lvs @ rvs)" by simp
    have "treesOk ps lo hi (ks1 @ k # ks2) (ts1 @ ?L # ?R # ts2)" using N by simp
    from treesOk_middle [OF this] show "entriesOk ps lks lvs" by auto
  qed
  obtain pg s1 where w: "buildLeafPage ps q ?nx (lks @ rks) (lvs @ rvs) = Inr pg" "opWrite ops l pg s = Inr s1" "ok s1"
    "view s1 = putPage l pg (view s)" "length pg = ps"
    "parseLeafPage pg = Inr \<lparr>leafNext = ?nx, leafParent = q, leafKeys = lks @ rks, leafVals = lvs @ rvs\<rparr>"
    by (rule writeLeaf_ok [OF assms(1) eM used(2)])
  have V: "rewritten {l} (view s) (view s1)" unfolding w(4) by (rule rewritten_put [OF used(2)])
  have R1: "reps (svPage (view s1)) ps (holeNext 0 as) (Some q) ?us"
  proof -
    have r: "reps (svPage (view s)) ps (firstLeaf ?L) (Some q) ts1" "reps (svPage (view s)) ps (holeNext 0 as) (Some q) ts2"
      using at(1) by (simp_all add: reps_append)
    have "reps (svPage (view s1)) ps n (Some q) ts = reps (svPage (view s)) ps n (Some q) ts" if "ts = ts1 \<or> ts = ts2" for n ts
      by (rule rep_cong(2)) (use that dist in \<open>auto simp: w(4) putPage_def\<close>)
    moreover have "rep (svPage (view s1)) ps ?nx (Some q) ?M" using w(5,6) by (simp add: leafAt_def w(4) putPage_def)
    ultimately show ?thesis using r by (simp add: reps_append)
  qed
  have wk: "withoutKey (length ?tsa) (ks1 @ k # ks2) = ks1 @ ks2" using t(3) by (simp add: withoutKey_def)
  have "\<exists>newRoot s' t'. removeInternalChild ops (Suc f) q (length ?tsa) root s1 = Inr (newRoot, s') \<and> ok s' \<and>
    removal ps (view s) (plug as (Node q (ks1 @ k # ks2) (?tsa @ ?R # ts2))) newRoot (view s') (Some t') \<and>
    set (pids ?R) \<subseteq> svUsed (view s') \<and> set (pids ?R) \<inter> set (pids t') = {} \<and>
    entries t' = entriesBefore as @ concat (map entries ?us) @ entriesAfter as \<and>
    height t' \<le> height (plug as (Node q (ks1 @ k # ks2) (?tsa @ ?R # ts2)))"
  proof (rule remove_child_ok [OF w(3) _ t(2) V])
    show "treesOk ps lo hi (withoutKey (length ?tsa) (ks1 @ k # ks2)) ?us"
      if "treeOk ps lo hi (Node q (ks1 @ k # ks2) (?tsa @ ?R # ts2))" for lo hi
      unfolding wk using that by (intro merged) simp
    show "reps (svPage (view s1)) ps (holeNext 0 as) (Some q) ?us" by (rule R1)
    show "firstLeaf (hd ?us) = firstLeaf (hd (?tsa @ ?R # ts2)) \<or> (\<forall>c \<in> set as. crumbIdx c = 0)" by (cases ts1) simp_all
    show "\<forall>u \<in> set ?us. height u < height (Node q (ks1 @ k # ks2) (?tsa @ ?R # ts2))"
    proof
      fix u assume "u \<in> set ?us"
      then consider "u = ?M" | "u \<in> set (?tsa @ ?R # ts2)" by auto
      then show "height u < height (Node q (ks1 @ k # ks2) (?tsa @ ?R # ts2))"
      proof cases
        case 2
        then show ?thesis by (rule height_child)
      qed simp
    qed
  qed (use t(1) dist in auto)
  then obtain newRoot s2 t' where M: "removeInternalChild ops (Suc f) q (Suc (length ts1)) root s1 = Inr (newRoot, s2)" "ok s2"
    "removal ps (view s) (plug as ?N) newRoot (view s2) (Some t')" "r \<in> svUsed (view s2)" "r \<notin> set (pids t')"
    "entries t' = entriesBefore as @ concat (map entries ?us) @ entriesAfter as" "height t' \<le> height (plug as ?N)"
    by auto
  have "r \<in> set (pids (plug as ?N))" by (simp add: set_pids_plug)
  then obtain s3 where s3: "opRelease ops r s2 = Inr s3" "ok s3" "removal ps (view s) (plug as ?N) newRoot (view s3) (Some t')"
    using removal_release [OF M(2,3,4)] M(5) by (auto simp: optPids_def)
  have "mergeRightLeaf ops (Suc f) l ld rd r root s = Inr (newRoot, s3)"
    using idx w(1,2) M(1) s3(1) by (simp add: mergeRightLeaf_def ld rd del: removeInternalChild.simps)
  moreover have "entries t' = entries (plug as ?N)"
    using zip_append_leaves [OF eL] by (simp add: M(6) entries_plug)
  ultimately show ?thesis using s3(2,3) M(7) by blast
qed

end

subsection \<open>Moving entries between two leaves\<close>

lemma entriesOk_part:
  assumes "entriesOk n lks lvs" "entriesOk n rks rvs" "sorted_wrt (<) (lks @ rks)" "lks @ rks = a @ b" "lvs @ rvs = va @ vb"
    and "length va = length a"
  shows "leafSerializedSize a va \<le> n \<Longrightarrow> entriesOk n a va" "leafSerializedSize b vb \<le> n \<Longrightarrow> entriesOk n b vb"
    "keysFit a" "keysFit b" "n \<in> {4096, 8192, 16384, 65536} \<Longrightarrow> valsFit va \<and> valsFit vb"
proof -
  have len: "length (va @ vb) = length (a @ b)" using assms(1,2) by (simp flip: assms(4,5) add: entriesOk_def)
  have k: "\<forall>x \<in> set (a @ b). length x \<le> maxKeyBytes" and v: "\<forall>x \<in> set (va @ vb). length x \<le> inlineThreshold n"
    using assms(1,2) by (simp_all flip: assms(4,5) add: entriesOk_def ball_Un)
  have s: "sorted_wrt (<) (a @ b)" using assms(3) by (simp add: assms(4))
  show "leafSerializedSize a va \<le> n \<Longrightarrow> entriesOk n a va" "leafSerializedSize b vb \<le> n \<Longrightarrow> entriesOk n b vb"
    using len k v s assms(6) by (auto simp: entriesOk_def sorted_wrt_append)
  show "keysFit a" "keysFit b" using k by (simp_all add: keysFit_def)
  assume "n \<in> {4096, 8192, 16384, 65536}"
  then have "inlineThreshold n \<le> 65535" by (auto simp: inlineThreshold_def)
  then have "\<forall>x \<in> set (va @ vb). length x \<le> 65535" using v by (blast intro: order_trans)
  then show "valsFit va \<and> valsFit vb" by (simp add: valsFit_def ball_Un)
qed

lemma entries_count:
  assumes "entriesOk n ks vs" "n \<in> {4096, 8192, 16384, 65536}"
  shows "length ks \<le> 20000"
proof -
  have "4 * length ks \<le> leafEntriesSize ks vs" if "length vs = length ks"
    using that by (induction ks vs rule: leafEntriesSize.induct) auto
  then show ?thesis using assms by (auto simp: entriesOk_def leafSerializedSize_def)
qed

lemma neighbours_sorted:
  assumes "treeOk n lo (Some k) (Leaf l lks lvs)" "treeOk n k hi (Leaf r rks rvs)" "lo < k" "within lo hi k"
    and "lks @ rks = a @ m # bs" "a \<noteq> []"
  shows "sorted_wrt (<) (lks @ rks)" "\<forall>x \<in> set (lks @ rks). within lo hi x" "lo < m"
proof -
  have "x < y" if "x \<in> set lks" "y \<in> set rks" for x y
  proof -
    have "x < k" "k \<le> y" using assms(1,2) that by (auto simp: within_def)
    then show ?thesis by simp
  qed
  then show s: "sorted_wrt (<) (lks @ rks)" using assms(1,2) by (auto simp: entriesOk_def sorted_wrt_append)
  show w: "\<forall>x \<in> set (lks @ rks). within lo hi x" using assms(1-4) by (auto intro: within_left within_right)
  obtain x where x: "x \<in> set a" using assms(6) by (cases a) auto
  then have "x < m" using s by (simp add: assms(5) sorted_wrt_append)
  moreover have "lo \<le> x" using w x by (auto simp: assms(5) within_def)
  ultimately show "lo < m" by simp
qed

context overflow_store
begin

text \<open>The code of the two borrowings, after the entry has moved from one list to the other.\<close>

lemma shift_ok:
  assumes "ok s" and t: "treeIn ps (view s) (plug as (Node q (ks1 @ k # ks2) (ts1 @ Leaf l lks lvs # Leaf r rks rvs # ts2)))"
      "list_all crumbOk as" "length ts1 = length ks1"
    and new: "lks @ rks = a @ m # bs" "lvs @ rvs = va @ vb" "length va = length a" "a \<noteq> []"
    and nx: "nx = (case ts2 of [] \<Rightarrow> holeNext 0 as | u # _ \<Rightarrow> firstLeaf u)"
    and code: "code = bindR (buildLeafPage ps q r a va) (\<lambda>lpg. bindR (buildLeafPage ps q nx (m # bs) vb) (\<lambda>rpg.
      bindR (opWrite ops l lpg s) (\<lambda>s. bindR (opWrite ops r rpg s) (\<lambda>s. updateSeparator ops q (int (length ks1)) m root s))))"
  shows "(\<exists>e. code = Inl e \<and> pageFull e \<and> (leafSerializedSize a va > ps \<or> leafSerializedSize (m # bs) vb > ps \<or>
      internalSerializedSize (ks1 @ m # ks2) > ps)) \<or>
    (\<exists>s' P. code = Inr (svRoot (view s), s') \<and> ok s' \<and> rewritten P (view s) (view s') \<and> P \<subseteq> {q, l, r} \<and>
      treeIn ps (view s') (plug as (Node q (ks1 @ m # ks2) (ts1 @ Leaf l a va # Leaf r (m # bs) vb # ts2))))"
proof -
  let ?L = "Leaf l lks lvs" and ?R = "Leaf r rks rvs" and ?L' = "Leaf l a va" and ?R' = "Leaf r (m # bs) vb"
  let ?N = "Node q (ks1 @ k # ks2) (ts1 @ ?L # ?R # ts2)" and ?N' = "Node q (ks1 @ m # ks2) (ts1 @ ?L' # ?R' # ts2)"
  note at = treeIn_at [OF t(1)] and page_size = page_size [OF assms(1)]
  have dist: "distinct (pids ?N)" by (rule at(2))
  have used: "q \<in> svUsed (view s)" "l \<in> svUsed (view s)" "r \<in> svUsed (view s)" using at(7) by auto
  obtain lo hi where N: "treeOk ps lo hi ?N" by (rule treeOk_plug [OF at(4) t(2)]) (rule that)
  then have tr: "treesOk ps lo hi (ks1 @ k # ks2) (ts1 @ ?L # ?R # ts2)" and sz: "internalSerializedSize (ks1 @ k # ks2) \<le> ps"
    by simp_all
  obtain lo0 hi0 where pr: "treeOk ps lo0 (Some k) ?L" "treeOk ps k hi0 ?R" "lo0 < k" "within lo0 hi0 k"
    by (rule treesOk_pair [OF tr t(3)]) (rule that)
  have e: "entriesOk ps lks lvs" "entriesOk ps rks rvs" using pr(1,2) by simp_all
  have srt: "sorted_wrt (<) (lks @ rks)" "lo0 < m" by (rule neighbours_sorted [OF pr new(1,4)])+
  note part = entriesOk_part [OF e srt(1) new(1-3)]
  have lvb: "length vb = length (m # bs)"
    using arg_cong [OF new(1), of length] arg_cong [OF new(2), of length] new(3) e by (simp add: entriesOk_def)
  have "length (a @ m # bs) \<le> 40000"
    using entries_count [OF e(1) page_size] entries_count [OF e(2) page_size] by (simp flip: new(1))
  then have cnt: "length a \<le> 65535" "length (m # bs) \<le> 65535" by simp_all
  have big: "btreeHeaderSize \<le> ps" using page_size by (auto simp: btreeHeaderSize_def)
  have mm: "m \<in> set (lks @ rks)" "length m \<le> maxKeyBytes" "m \<noteq> []"
    using part(4) srt(2) by (auto simp: new(1) keysFit_def)
  note keys = treesOk_keys [OF tr]
  have keys': "keysFit (ks1 @ m # ks2)" "[] \<notin> set (ks1 @ m # ks2)" using keys mm by (auto simp: keysFit_def)
  consider "leafSerializedSize a va > ps" | "leafSerializedSize a va \<le> ps" "leafSerializedSize (m # bs) vb > ps"
    | "leafSerializedSize a va \<le> ps" "leafSerializedSize (m # bs) vb \<le> ps" by linarith
  then show ?thesis
  proof cases
    case 1
    have "buildLeafPage ps q r a va = Inl (ErrCorruptTree ''leaf page full'')"
      using part(5) [OF page_size] by (intro buildLeafPage_full [OF new(3) part(3) _ 1 cnt(1) big]) simp
    then show ?thesis using 1 by (simp add: code pageFull_def)
  next
    case 2
    have eA: "entriesOk ps a va" by (rule part(1) [OF 2(1)])
    obtain lpg where "buildLeafPage ps q r a va = Inr lpg" by (rule entriesOk_build [OF eA page_size])
    moreover have "buildLeafPage ps q nx (m # bs) vb = Inl (ErrCorruptTree ''leaf page full'')"
      using part(5) [OF page_size] by (intro buildLeafPage_full [OF lvb part(4) _ 2(2) cnt(2) big]) simp
    ultimately show ?thesis using 2 by (simp add: code pageFull_def)
  next
    case 3
    have eA: "entriesOk ps a va" and eB: "entriesOk ps (m # bs) vb" by (rule part(1) [OF 3(1)], rule part(2) [OF 3(2)])
    obtain lpg s1 where w1: "buildLeafPage ps q r a va = Inr lpg" "opWrite ops l lpg s = Inr s1" "ok s1"
      "view s1 = putPage l lpg (view s)" "length lpg = ps"
      "parseLeafPage lpg = Inr \<lparr>leafNext = r, leafParent = q, leafKeys = a, leafVals = va\<rparr>"
      by (rule writeLeaf_ok [OF assms(1) eA used(2)])
    have r1: "r \<in> svUsed (view s1)" using used(3) by (simp add: w1(4) putPage_def)
    obtain rpg s2 where w2: "buildLeafPage ps q nx (m # bs) vb = Inr rpg" "opWrite ops r rpg s1 = Inr s2" "ok s2"
      "view s2 = putPage r rpg (view s1)" "length rpg = ps"
      "parseLeafPage rpg = Inr \<lparr>leafNext = nx, leafParent = q, leafKeys = m # bs, leafVals = vb\<rparr>"
      by (rule writeLeaf_ok [OF w1(3) eB r1])
    have d3: "q \<noteq> l" "q \<noteq> r" "l \<noteq> r" using dist by auto
    obtain page parent where page: "svPage (view s) q = Inr page" "length page = ps"
      "parseInternalPage page = Inr \<lparr>inParent = parent, inPtrs = map rootId (ts1 @ ?L # ?R # ts2), inKeys = ks1 @ k # ks2\<rparr>"
      "holePar None as = None \<or> holePar None as = Some parent" using at(1) by (auto simp: nodeAt_def)
    have pq: "svPage (view s2) q = Inr page" "q \<in> svUsed (view s2)" "svRoot (view s2) = svRoot (view s)"
      using page(1) used(1) d3 by (simp_all add: w1(4) w2(4) putPage_def)
    have upd: "(ks1 @ k # ks2)[length ks1 := m] = ks1 @ m # ks2" by simp
    have len: "length (map rootId (ts1 @ ?L # ?R # ts2)) = length (ks1 @ k # ks2) + 1" using treesOk_length [OF tr] by simp
    note U = updateSeparator_ok [OF w2(3) pq(1) page(3) pq(2), of "length ks1" m root, unfolded upd, OF _ keys' len sz]
    have C: "code = updateSeparator ops q (int (length ks1)) m root s2" using w1(1,2) w2(1,2) by (simp add: code)
    show ?thesis
    proof (cases "internalSerializedSize (ks1 @ m # ks2) \<le> ps")
      case False
      then show ?thesis using U C by (auto simp: pageFull_def)
    next
      case True
      with U C obtain pg s3 where s3: "code = Inr (svRoot (view s), s3)" "ok s3" "view s3 = putPage q pg (view s2)" "length pg = ps"
        "parseInternalPage pg = Inr \<lparr>inParent = parent, inPtrs = map rootId (ts1 @ ?L # ?R # ts2), inKeys = ks1 @ m # ks2\<rparr>"
        by (auto simp: pq(3))
      have rw: "rewritten {l} (view s) (view s1)" "rewritten {r} (view s1) (view s2)" "rewritten {q} (view s2) (view s3)"
        unfolding s3(3) w2(4) w1(4) using used by (intro rewritten_put; simp add: putPage_def)+
      have "rewritten ({l} \<union> {r} \<union> {q}) (view s) (view s3)"
        by (rule rewritten_trans [OF rewritten_trans [OF rw(1,2)] rw(3)])
      moreover have "treeIn ps (view s3) (plug as ?N')"
      proof (rule treeIn_hole [OF t(1,2)])
        have r: "reps (svPage (view s)) ps (firstLeaf ?L) (Some q) ts1" "reps (svPage (view s)) ps (holeNext 0 as) (Some q) ts2"
          using at(1) by (simp_all add: reps_append)
        have "reps (svPage (view s3)) ps n (Some q) ts = reps (svPage (view s)) ps n (Some q) ts" if "ts = ts1 \<or> ts = ts2" for n ts
          by (rule rep_cong(2)) (use that dist in \<open>auto simp: w1(4) w2(4) s3(3) putPage_def\<close>)
        moreover have "leafAt (svPage (view s3)) ps r (Some q) l a va" "leafAt (svPage (view s3)) ps nx (Some q) r (m # bs) vb"
          using w1(5,6) w2(5,6) d3 by (simp_all add: leafAt_def w1(4) w2(4) s3(3) putPage_def)
        ultimately have "reps (svPage (view s3)) ps (holeNext 0 as) (Some q) (ts1 @ ?L' # ?R' # ts2)"
          using r by (simp add: reps_append nx)
        then show "rep (svPage (view s3)) ps (holeNext 0 as) (holePar None as) ?N'"
          using s3(4,5) page(4) by (simp add: nodeAt_def s3(3) putPage_def)
        show "firstLeaf ?N' = firstLeaf ?N \<or> (\<forall>c \<in> set as. crumbIdx c = 0)" by (cases ts1) simp_all
        show "treeOk ps lo hi ?N'" if ok: "treeOk ps lo hi ?N" for lo hi
        proof -
          have tr: "treesOk ps lo hi (ks1 @ k # ks2) (ts1 @ ?L # ?R # ts2)" using ok by simp
          have "treesOk ps lo hi (ks1 @ m # ks2) (ts1 @ ?L' # ?R' # ts2)"
          proof (rule treesOk_pair [OF tr t(3)])
            fix lo' hi'
            assume p: "treeOk ps lo' (Some k) ?L" "treeOk ps k hi' ?R" "lo' < k" "within lo' hi' k"
            assume b: "\<And>m a' b'. lo' < m \<Longrightarrow> within lo' hi' m \<Longrightarrow> length m \<le> maxKeyBytes \<Longrightarrow> treeOk ps lo' (Some m) a' \<Longrightarrow>
              treeOk ps m hi' b' \<Longrightarrow> treesOk ps lo hi (ks1 @ m # ks2) (ts1 @ a' # b' # ts2)"
            note ns = neighbours_sorted [OF p new(1,4)]
            have "treeOk ps lo' (Some m) ?L'" using eA ns by (auto simp: new(1) within_def sorted_wrt_append)
            moreover have "treeOk ps m hi' ?R'" using eB ns by (auto simp: new(1) within_def sorted_wrt_append)
            moreover have "within lo' hi' m" using ns(2) mm(1) by blast
            ultimately show ?thesis using ns(3) mm(2) by (intro b)
          qed
          then show ?thesis using True by simp
        qed
        show "svPage (view s3) p = svPage (view s) p" if "p \<in> crumbPids as" for p
        proof -
          have "p \<notin> set (pids ?N)" using that at(5) by blast
          then show ?thesis by (simp add: w1(4) w2(4) s3(3) putPage_def)
        qed
      qed (use dist used in \<open>auto simp: w1(4) w2(4) s3(3) putPage_def\<close>)
      ultimately show ?thesis using s3(1,2) by blast
    qed
  qed
qed

end

end
