(* ===== verification/TreeEngine.thy ===== *)
theory TreeEngine
  imports Overflow
begin

text \<open>
  An engine that holds a given tree: its pages are those \<open>buildLeafPage\<close> and
  \<open>buildInternalPage\<close> write, buffered in an open transaction. Every tree that satisfies the
  invariant is held by such an engine, so the theorems about the tree on the engine apply to all of them.
\<close>

subsection \<open>The pages of a tree\<close>

definition leafPage :: "nat \<Rightarrow> uint64 \<Rightarrow> uint64 \<Rightarrow> bytes list \<Rightarrow> bytes list \<Rightarrow> bytes" where
  "leafPage n par nx ks vs = (case buildLeafPage n par nx ks vs of Inl _ \<Rightarrow> [] | Inr page \<Rightarrow> page)"

definition nodePage :: "nat \<Rightarrow> uint64 \<Rightarrow> bytes list \<Rightarrow> uint64 list \<Rightarrow> bytes" where
  "nodePage n par ks ptrs = (case buildInternalPage n par ptrs ks of Inl _ \<Rightarrow> [] | Inr page \<Rightarrow> page)"

fun treePages :: "nat \<Rightarrow> uint64 \<Rightarrow> uint64 \<Rightarrow> btree \<Rightarrow> (uint64 \<times> bytes) list"
  and treesPages :: "nat \<Rightarrow> uint64 \<Rightarrow> uint64 \<Rightarrow> btree list \<Rightarrow> (uint64 \<times> bytes) list" where
  "treePages n nx par (Leaf pid ks vs) = [(pid, leafPage n par nx ks vs)]"
| "treePages n nx par (Node pid ks ts) = (pid, nodePage n par ks (map rootId ts)) # treesPages n nx pid ts"
| "treesPages n nx par [] = []"
| "treesPages n nx par (t # ts) =
     treePages n (case ts of [] \<Rightarrow> nx | u # _ \<Rightarrow> firstLeaf u) par t @ treesPages n nx par ts"

lemma treePages_ids: "map fst (treePages n nx par t) = pids t" "map fst (treesPages n nx par ts) = concat (map pids ts)"
  by (induction n nx par t and n nx par ts rule: treePages_treesPages.induct) simp_all

lemma leafPage_ok:
  assumes "entriesOk n ks vs" "validPs n"
  shows "length (leafPage n par nx ks vs) = n"
    "parseLeafPage (leafPage n par nx ks vs) = Inr \<lparr>leafNext = nx, leafParent = par, leafKeys = ks, leafVals = vs\<rparr>"
proof -
  from entriesOk_build [OF assms] obtain page where "buildLeafPage n par nx ks vs = Inr page" "length page = n"
    "parseLeafPage page = Inr \<lparr>leafNext = nx, leafParent = par, leafKeys = ks, leafVals = vs\<rparr>" .
  then show "length (leafPage n par nx ks vs) = n"
    "parseLeafPage (leafPage n par nx ks vs) = Inr \<lparr>leafNext = nx, leafParent = par, leafKeys = ks, leafVals = vs\<rparr>"
    by (simp_all add: leafPage_def)
qed

lemma nodePage_ok:
  assumes "treesOk n lo hi ks ts" "internalSerializedSize ks \<le> n" "validPs n"
  shows "length (nodePage n par ks (map rootId ts)) = n"
    "parseInternalPage (nodePage n par ks (map rootId ts)) = Inr \<lparr>inParent = par, inPtrs = map rootId ts, inKeys = ks\<rparr>"
proof -
  have k: "keysFit ks" "[] \<notin> set ks" and len: "length (map rootId ts) = length ks + 1"
    using treesOk_keys [OF assms(1)] treesOk_length [OF assms(1)] by simp_all
  from keysFit_build [OF k len assms(2,3)] obtain page where "buildInternalPage n par (map rootId ts) ks = Inr page" "length page = n"
    "parseInternalPage page = Inr \<lparr>inParent = par, inPtrs = map rootId ts, inKeys = ks\<rparr>" .
  then show "length (nodePage n par ks (map rootId ts)) = n"
    "parseInternalPage (nodePage n par ks (map rootId ts)) = Inr \<lparr>inParent = par, inPtrs = map rootId ts, inKeys = ks\<rparr>"
    by (simp_all add: nodePage_def)
qed

lemma treePages_length:
  "treeOk n lo hi t \<Longrightarrow> validPs n \<Longrightarrow> \<forall>x \<in> set (treePages n nx par t). length (snd x) = n"
  "treesOk n lo hi ks ts \<Longrightarrow> validPs n \<Longrightarrow> \<forall>x \<in> set (treesPages n nx par ts). length (snd x) = n"
proof (induction n lo hi t and n lo hi ks ts arbitrary: nx par and nx par rule: treeOk_treesOk.induct)
  case (1 n lo hi pid ks vs)
  then have "entriesOk n ks vs" by simp
  from leafPage_ok(1) [OF this "1.prems"(2)] show ?case by simp
next
  case (2 n lo hi pid ks ts)
  then have "treesOk n lo hi ks ts" "internalSerializedSize ks \<le> n" by simp_all
  from nodePage_ok(1) [OF this "2.prems"(2)] "2.IH" [OF this(1) "2.prems"(2)] show ?case by simp
next
  case (4 n lo hi k ks t ts)
  then have t: "treeOk n lo (Some k) t" "treesOk n k hi ks ts" by simp_all
  from "4.IH"(1) [OF t(1) "4.prems"(2)] "4.IH"(2) [OF t(2) "4.prems"(2)] show ?case by (simp add: ball_Un)
qed simp_all

lemma treePages_rep:
  "treeOk n lo hi t \<Longrightarrow> validPs n \<Longrightarrow> \<forall>(p, page) \<in> set (treePages n nx par t). rd p = Inr page \<Longrightarrow> rep rd n nx (Some par) t"
  "treesOk n lo hi ks ts \<Longrightarrow> validPs n \<Longrightarrow> \<forall>(p, page) \<in> set (treesPages n nx par ts). rd p = Inr page \<Longrightarrow>
   reps rd n nx (Some par) ts"
proof (induction n lo hi t and n lo hi ks ts arbitrary: nx par and nx par rule: treeOk_treesOk.induct)
  case (1 n lo hi pid ks vs)
  then have "entriesOk n ks vs" by simp
  from leafPage_ok [OF this "1.prems"(2)] "1.prems"(3) show ?case by (simp add: leafAt_def)
next
  case (2 n lo hi pid ks ts)
  then have t: "treesOk n lo hi ks ts" "internalSerializedSize ks \<le> n" by simp_all
  from nodePage_ok [OF t "2.prems"(2)] "2.IH" [OF t(1) "2.prems"(2), of nx pid] "2.prems"(3) show ?case
    by (simp add: nodeAt_def)
next
  case (4 n lo hi k ks t ts)
  then have t: "treeOk n lo (Some k) t" "treesOk n k hi ks ts" by simp_all
  from "4.IH"(1) [OF t(1) "4.prems"(2)] "4.IH"(2) [OF t(2) "4.prems"(2)] "4.prems"(3) show ?case by (simp add: ball_Un)
qed simp_all

subsection \<open>The engine\<close>

definition redoOf :: "uint64 \<times> bytes \<Rightarrow> pendingRedo" where
  "redoOf = (\<lambda>(p, page). \<lparr>prSeq = 0, prPageID = p, prPlain = page\<rparr>)"

definition treeTxn :: "uint64 \<Rightarrow> btree \<Rightarrow> writeTxn" where
  "treeTxn bound t = \<lparr>txHdr = plainHeader\<lparr>BTreeRoot := rootId t, NextPageID := bound\<rparr>,
     txPending = map redoOf (treePages 4096 0 0 t), txDirty = map_of (rev (treePages 4096 0 0 t)),
     txFreePageIDs = [], txFreePageSet = {}, txFreelistPageIDs = [], txFreelistDirty = False\<rparr>"

definition treeEngine :: "uint64 \<Rightarrow> btree \<Rightarrow> engine" where
  "treeEngine bound t = emptyEngine\<lparr>egWtxn := Some (treeTxn bound t)\<rparr>"

lemma find_redo: "map_option prPlain (find (\<lambda>r. prPageID r = p) (map redoOf xs)) = map_of xs p"
  by (induction xs) (auto simp: redoOf_def)

lemma treeEngine_ok:
  assumes "treeOk 4096 [] None t" "uniform t h" "distinct (pids t)" "\<forall>p \<in> set (pids t). 0 < p \<and> p < bound"
  shows "engineOk plainEnv (treeEngine bound t)" "optTree 4096 (engineView plainEnv (treeEngine bound t)) (Some t)"
    "svRoom (engineView plainEnv (treeEngine bound t)) = 2 ^ 64 - 1 - unat bound"
proof -
  let ?s = "treeEngine bound t" and ?txn = "treeTxn bound t" and ?pages = "treePages 4096 0 0 t"
  have ids: "fst ` set ?pages = set (pids t)" using arg_cong [OF treePages_ids(1) [of 4096 0 0 t], of set] by simp
  have s: "egWtxn ?s = Some ?txn" by (simp add: treeEngine_def)
  have "envOk plainEnv" using emptyEngine_ok(1) by (simp add: engineOk_def)
  have "rootId t < bound" using assms(4) pids_rootId by blast
  then have bound: "0 < bound" by (simp add: word_neq_0_conv [symmetric] word_gt_0) (use word_coorder.extremum_strict in blast)
  have "dirtyOk plainEnv ?txn"
    unfolding dirtyOk_def
  proof (intro conjI allI ballI)
    show "txDirty ?txn p = map_option prPlain (find (\<lambda>r. prPageID r = p) (rev (txPending ?txn)))" for p
      by (simp add: treeTxn_def rev_map find_redo)
    fix r assume "r \<in> set (txPending ?txn)"
    then obtain p page where r: "(p, page) \<in> set ?pages" "r = redoOf (p, page)" by (auto simp: treeTxn_def)
    then have "length page = 4096" using treePages_length(1) [OF assms(1), of 0 0] by auto
    moreover have "p \<in> set (pids t)" using r(1) ids by force
    ultimately show "redoOk plainEnv ?txn r" using assms(4) by (simp add: redoOk_def r(2) redoOf_def treeTxn_def)
  qed
  with \<open>envOk plainEnv\<close> bound show ok: "engineOk plainEnv ?s"
    by (simp add: engineOk_def s)
      (simp add: treeEngine_def emptyEngine_def txnReady_def macOk_def freeOk_def rootOk_def headerFits_def
        headerOk_def storedOk_def plainHeader_def sampleHeader_def IsValidPageSize_def validPageSizes_def formatVersionV3_def
        treeTxn_def)
  have page: "readData plainEnv ?s p = Inr page" if "(p, page) \<in> set ?pages" for p page
  proof -
    have "distinct (map fst (rev ?pages))" using assms(3) treePages_ids(1) [of 4096 0 0 t] by (simp add: rev_map [symmetric])
    then have "map_of (rev ?pages) p = Some page" using that by simp
    then have "txDirty ?txn p = Some page" by (simp add: treeTxn_def)
    moreover have "p \<in> set (pids t)" using that ids by force
    then have "p \<noteq> 0" using assms(4) by auto
    moreover have "length page = 4096" using treePages_length(1) [OF assms(1), of 0 0] that by auto
    ultimately show ?thesis
      by (simp add: readData_def readPagePooled_def pooledTransformRead_def s transformRead_def validateRootPageGeneration_def plainEnv_def plainConfig_def)
  qed
  then have "rep (readData plainEnv ?s) 4096 0 (Some 0) t" by (intro treePages_rep(1) [OF assms(1)]) auto
  then have "rep (readData plainEnv ?s) 4096 0 None t" by (rule rep_parent)
  moreover have "rootId t \<noteq> 0" using assms(4) pids_rootId [of t] by auto
  ultimately show "optTree 4096 (engineView plainEnv ?s) (Some t)"
    using assms by (auto simp: optTree_def treeIn_def engineView_def s usedPages_def treeTxn_def)
  show "svRoom (engineView plainEnv ?s) = 2 ^ 64 - 1 - unat bound"
    by (simp add: engineView_def s txnRoom_def reusable_def treeTxn_def plainHeader_def formatVersionV3_def)
qed

text \<open>Without overflow pages and compressed values the map is that of the leaves.\<close>

lemma treeEngine_map:
  assumes "treeOk 4096 [] None t" "uniform t h" "distinct (pids t)" "\<forall>p \<in> set (pids t). 0 < p \<and> p < bound"
    and "\<forall>(k, v) \<in> set (entries t). \<not> isOverflowStub v \<and> \<not> isCompressedValue v"
  shows "dbRep 4096 fl (engineView plainEnv (treeEngine bound t)) (Some t) (\<lambda>_. []) (map_of (entries t))"
  unfolding dbRep_def
proof (intro conjI allI impI)
  show "optTree 4096 (engineView plainEnv (treeEngine bound t)) (Some t)" by (rule treeEngine_ok(2) [OF assms(1-4)])
  show "case map_of (optEntries (Some t)) k of
      None \<Rightarrow> map_of (entries t) k = None \<and> [] = []
    | Some raw \<Rightarrow> \<exists>data v. storedData (svPage (engineView plainEnv (treeEngine bound t))) 4096 raw [] data \<and>
        unpackValue fl data = Inr v \<and> map_of (entries t) k = Some v" for k
  proof (cases "map_of (entries t) k")
    case (Some v)
    then have "(k, v) \<in> set (entries t)" by (rule map_of_SomeD)
    then have "\<not> isOverflowStub v" "\<not> isCompressedValue v" using assms(5) by auto
    then show ?thesis using Some by (simp add: optEntries_def storedData_def unpackValue_def)
  qed (simp add: optEntries_def)
qed auto

end
