(* ===== verification/DeleteMap.thy ===== *)
theory DeleteMap
  imports BTreeDelete TreeEngine
begin

text \<open>
  What \<open>Delete\<close> of \<open>internal/engine/btree_delete.go\<close> does to the map: rebalancing a
  leaf changes no entry, an emptied first leaf leaves the tree with every parent it empties, and the
  whole operation removes the key. Then the two ways in which it does not: an emptied leaf that is
  not the first stays in the leaf chain, and a page that has to take a longer separator can be full.
\<close>

subsection \<open>Rebalancing keeps the entries\<close>

lemma removal_rewritten:
  assumes "treeIn n V t" "svRoot V \<noteq> 0" "rewritten P V V'" "P \<subseteq> set (pids t)" "treeIn n V' t'" "set (pids t') = set (pids t)"
  shows "removal n V t (svRoot V) V' (Some t')"
proof -
  have V': "svRoot V' = svRoot V" "svRoom V \<le> svRoom V'" "\<forall>p. p \<notin> P \<longrightarrow> svPage V' p = svPage V p"
    using assms(3) by (simp_all add: rewritten_def changes_def)
  note used = rewritten_used [OF assms(3)]
  have "treeIn n (V'\<lparr>svRoot := svRoot V\<rparr>) t'" by (rule treeIn_root_cong [OF assms(5)]) (simp_all add: V'(1))
  then have "optTree n (V'\<lparr>svRoot := svRoot V\<rparr>) (Some t')" using assms(2) by (simp add: optTree_Some)
  moreover have "\<forall>p. p \<notin> set (pids t) \<longrightarrow> svPage V' p = svPage V p" using assms(4) V'(3) by blast
  ultimately show ?thesis using assms(6) V'(1,2) used by (simp add: removal_def optPids_def)
qed

lemma removal_same:
  assumes "treeIn n V t" "svRoot V \<noteq> 0"
  shows "removal n V t (svRoot V) V (Some t)"
proof (rule removal_rewritten [OF assms _ _ assms(1) refl])
  show "rewritten {} V V" using changes_refl by (simp add: rewritten_def)
  show "{} \<subseteq> set (pids t)" by (rule empty_subsetI)
qed

lemma uniform_siblings:
  assumes "uniform (Node q ks (ts1 @ Leaf l lks lvs # ts2)) h" "u \<in> set ts1 \<or> u \<in> set ts2"
  obtains r rks rvs where "u = Leaf r rks rvs"
proof -
  obtain h' where h: "h = Suc h'" using assms(1) by (cases h) simp_all
  then have "\<forall>t \<in> set (ts1 @ Leaf l lks lvs # ts2). uniform t h'" using assms(1) by (simp only: uniform_Node)
  then have "uniform (Leaf l lks lvs) h'" "uniform u h'" using assms(2) by (auto simp del: uniform.simps)
  then have "uniform u 0" by simp
  then show thesis using that by (cases u) simp_all
qed

lemma slack_shift:
  assumes "slack n 256 (plug as (Node q (ks1 @ k # ks2) (ts1 @ Leaf l lks lvs # Leaf r rks rvs # ts2)))" "length m \<le> maxKeyBytes"
  shows "internalSerializedSize (ks1 @ m # ks2) \<le> n"
    "leafSerializedSize lks lvs + 4 + maxKeyBytes + inlineThreshold n \<le> n"
    "leafSerializedSize rks rvs + 4 + maxKeyBytes + inlineThreshold n \<le> n"
proof -
  have s: "slack n 256 (Node q (ks1 @ k # ks2) (ts1 @ Leaf l lks lvs # Leaf r rks rvs # ts2))"
    using assms(1) by (simp add: slack_plug)
  show "internalSerializedSize (ks1 @ m # ks2) \<le> n"
    using s internalSerializedSize_update [of "length ks1" "ks1 @ k # ks2" m] assms(2) by (simp add: maxKeyBytes_def)
  show "leafSerializedSize lks lvs + 4 + maxKeyBytes + inlineThreshold n \<le> n"
    "leafSerializedSize rks rvs + 4 + maxKeyBytes + inlineThreshold n \<le> n" using s by simp_all
qed

lemma leafSizes_append:
  "length lvs = length lks \<Longrightarrow> leafEntriesSize (lks @ rks) (lvs @ rvs) = leafEntriesSize lks lvs + leafEntriesSize rks rvs"
  by (rule leafEntriesSize_append) simp

lemma minLeafKeys_pos: "n \<in> {4096, 8192, 16384, 65536} \<Longrightarrow> 1 \<le> minLeafKeysForPage n"
  by (auto simp: minLeafKeysForPage_def maxLeafEntriesForPage_def btreeHeaderSize_def)

context overflow_store
begin

text \<open>The leaf at the end of a path and what the sibling walk finds there.\<close>

lemma leaf_data:
  assumes "rep (svPage (view s)) ps nx (Some q) (Leaf r rks rvs)" "ok s" "r \<in> svUsed (view s)"
  obtains page where "opRead ops s r = Inr page" "parseLeafPage page =
    Inr \<lparr>leafNext = nx, leafParent = q, leafKeys = rks, leafVals = rvs\<rparr>"
  using assms read_page [OF assms(2,3)] by (auto simp: leafAt_def)

end

text \<open>The outcome of a rebalancing: the same entries, or a page that is full.\<close>

definition rebalanced ::
  "('s \<Rightarrow> bool) \<Rightarrow> ('s \<Rightarrow> storeView) \<Rightarrow> nat \<Rightarrow> storeView \<Rightarrow> btree \<Rightarrow> engine_error + uint64 \<times> 's \<Rightarrow> bool" where
  "rebalanced ok view n V t r \<longleftrightarrow> (\<exists>e. r = Inl e \<and> pageFull e \<and> \<not> slack n 256 t) \<or>
     (\<exists>newRoot s' t'. r = Inr (newRoot, s') \<and> ok s' \<and> removal n V t newRoot (view s') (Some t') \<and>
        entries t' = entries t \<and> height t' \<le> height t)"

lemma rebalancedI:
  "r = Inr (newRoot, s') \<Longrightarrow> ok s' \<Longrightarrow> removal n V t newRoot (view s') (Some t') \<Longrightarrow> entries t' = entries t \<Longrightarrow>
   height t' \<le> height t \<Longrightarrow> rebalanced ok view n V t r"
  unfolding rebalanced_def by blast

context overflow_store
begin

lemma rebalanced_same:
  assumes "ok s" "treeIn ps (view s) t" "svRoot (view s) \<noteq> 0"
  shows "rebalanced ok view ps (view s) t (Inr (svRoot (view s), s))"
  by (rule rebalancedI [where ok = ok and view = view, OF refl assms(1) removal_same [OF assms(2,3)] refl order_refl])

lemma rebalanced_shift:
  assumes s: "ok s" "svRoot (view s) \<noteq> 0"
    and t: "treeIn ps (view s) (plug as (Node q (ks1 @ k # ks2) (ts1 @ Leaf l lks lvs # Leaf r rks rvs # ts2)))"
      "list_all crumbOk as" "length ts1 = length ks1"
    and new: "lks @ rks = a @ m # bs" "lvs @ rvs = va @ vb" "length va = length a" "a \<noteq> []"
      "leafSerializedSize a va \<le> max (leafSerializedSize lks lvs) (leafSerializedSize rks rvs) + 4 + maxKeyBytes + inlineThreshold ps"
      "leafSerializedSize (m # bs) vb \<le> max (leafSerializedSize lks lvs) (leafSerializedSize rks rvs) + 4 + maxKeyBytes + inlineThreshold ps"
    and nx: "nx = (case ts2 of [] \<Rightarrow> holeNext 0 as | u # _ \<Rightarrow> firstLeaf u)"
    and code: "code = bindR (buildLeafPage ps q r a va) (\<lambda>lpg. bindR (buildLeafPage ps q nx (m # bs) vb) (\<lambda>rpg.
      bindR (opWrite ops l lpg s) (\<lambda>s. bindR (opWrite ops r rpg s) (\<lambda>s. updateSeparator ops q (int (length ks1)) m root s))))"
  shows "rebalanced ok view ps (view s)
    (plug as (Node q (ks1 @ k # ks2) (ts1 @ Leaf l lks lvs # Leaf r rks rvs # ts2))) code"
proof -
  let ?T = "plug as (Node q (ks1 @ k # ks2) (ts1 @ Leaf l lks lvs # Leaf r rks rvs # ts2))"
  let ?T' = "plug as (Node q (ks1 @ m # ks2) (ts1 @ Leaf l a va # Leaf r (m # bs) vb # ts2))"
  from shift_ok [OF s(1) t new(1-4) nx code]
  consider (full) e where "code = Inl e" "pageFull e" "leafSerializedSize a va > ps \<or> leafSerializedSize (m # bs) vb > ps \<or>
      internalSerializedSize (ks1 @ m # ks2) > ps"
    | (moved) s' P where "code = Inr (svRoot (view s), s')" "ok s'" "rewritten P (view s) (view s')" "P \<subseteq> {q, l, r}"
      "treeIn ps (view s') ?T'" by blast
  then show ?thesis
  proof cases
    case full
    note at = treeIn_at [OF t(1)]
    obtain lo hi where "treeOk ps lo hi (Node q (ks1 @ k # ks2) (ts1 @ Leaf l lks lvs # Leaf r rks rvs # ts2))"
      by (rule treeOk_plug [OF at(4) t(2)]) (rule that)
    then have tr: "treesOk ps lo hi (ks1 @ k # ks2) (ts1 @ Leaf l lks lvs # Leaf r rks rvs # ts2)" by simp
    obtain lo0 hi0 where "treeOk ps lo0 (Some k) (Leaf l lks lvs)" "treeOk ps k hi0 (Leaf r rks rvs)"
      by (rule treesOk_pair [OF tr t(3)]) (rule that)
    then have "\<forall>x \<in> set (lks @ rks). length x \<le> maxKeyBytes" by (auto simp: entriesOk_def)
    then have "length m \<le> maxKeyBytes" by (simp add: new(1))
    then have "\<not> slack ps 256 ?T" using full(3) new(5,6) slack_shift [of ps as q ks1 k ks2 ts1 l lks lvs r rks rvs ts2 m] by linarith
    then show ?thesis using full(1,2) by (simp add: rebalanced_def)
  next
    case moved
    have e: "length lvs = length lks" "length rvs = length rks"
    proof -
      obtain lo hi where "treeOk ps lo hi (Node q (ks1 @ k # ks2) (ts1 @ Leaf l lks lvs # Leaf r rks rvs # ts2))"
        by (rule treeOk_plug [OF treeIn_at(4) [OF t(1)] t(2)]) (rule that)
      then have "treesOk ps lo hi (ks1 @ k # ks2) (ts1 @ Leaf l lks lvs # Leaf r rks rvs # ts2)" by simp
      from treesOk_middle [OF this] show "length lvs = length lks" by (auto simp: entriesOk_def)
      from \<open>treesOk ps lo hi _ _\<close> have "treesOk ps lo hi (ks1 @ k # ks2) ((ts1 @ [Leaf l lks lvs]) @ Leaf r rks rvs # ts2)" by simp
      from treesOk_middle [OF this] show "length rvs = length rks" by (auto simp: entriesOk_def)
    qed
    have "zip lks lvs @ zip rks rvs = zip a va @ zip (m # bs) vb"
      using e new(3) by (simp flip: zip_append add: new(1,2))
    then have "entries ?T' = entries ?T" by (simp add: entries_plug)
    moreover have "height ?T' \<le> height ?T" by (rule height_plug) simp
    moreover have "removal ps (view s) ?T (svRoot (view s)) (view s') (Some ?T')"
      by (rule removal_rewritten [OF t(1) s(2) moved(3) _ moved(5)]) (use moved(4) in \<open>auto simp: set_pids_plug\<close>)
    ultimately show ?thesis by (intro rebalancedI [where ok = ok and view = view, OF moved(1,2)])
  qed
qed

end

text \<open>The leaf on the right, then the leaf on the left.\<close>

context overflow_store
begin

lemma tryRight_ok:
  fixes as q ks1 ks2 ts1 ts2 pid ks vs
  defines "T \<equiv> plug as (Node q (ks1 @ ks2) (ts1 @ Leaf pid ks vs # ts2))"
    and "cs \<equiv> as @ [(q, ks1, ks2, ts1, ts2)]"
  assumes s: "ok s" "svRoot (view s) \<noteq> 0" and t: "treeIn ps (view s) T" "list_all crumbOk as" "length ts1 = length ks1"
    and ld: "ld = \<lparr>leafNext = (case ts2 of [] \<Rightarrow> holeNext 0 as | u # _ \<Rightarrow> firstLeaf u), leafParent = q, leafKeys = ks, leafVals = vs\<rparr>"
    and path: "parentPIDs path = map crumbId cs" "childIdxs path = map crumbIdx cs"
  shows "tryRightSiblingRebalance ops (Suc f) path pid ld root s = Inr None \<or>
    (\<exists>r. tryRightSiblingRebalance ops (Suc f) path pid ld root s = mapR Some r \<and> rebalanced ok view ps (view s) T r)"
proof -
  let ?L = "Leaf pid ks vs"
  note at = treeIn_at [OF t(1) [unfolded T_def]] and page_size = page_size [OF s(1)]
  have dist: "distinct (pids (Node q (ks1 @ ks2) (ts1 @ ?L # ts2)))" by (rule at(2))
  have node: "nodeAt (svPage (view s)) ps (holePar None as) q (ks1 @ ks2) (map rootId (ts1 @ ?L # ts2))" using at(1) by simp
  have qu: "q \<in> svUsed (view s)" using at(7) by simp
  have dc: "distinct (concat (map pids (ts1 @ ?L # ts2)))" using dist by simp
  have idx: "childPtrIndexInParent ops s q pid = Inr (length ts1)"
    using childPtrIndex_ok [OF s(1) node qu dc] by simp
  have pick: "pickLeafParentForSiblingWalk ops s path pid ld = Inr q"
    using path idx by (simp add: pickLeafParentForSiblingWalk_def cs_def isOk_def)
  obtain page parent where page: "svPage (view s) q = Inr page"
    "parseInternalPage page = Inr \<lparr>inParent = parent, inPtrs = map rootId (ts1 @ ?L # ts2), inKeys = ks1 @ ks2\<rparr>"
    using node by (auto simp: nodeAt_def)
  have pi: "ptrIndex (map rootId (ts1 @ ?L # ts2)) pid = Some (length ts1)"
    using ptrIndex_middle [OF distinct_rootIds [OF dc]] by simp
  have right: "rightLeafInParent ops s q pid = Inr (case ts2 of [] \<Rightarrow> None | u # _ \<Rightarrow> Some (rootId u))"
    using page parseInternalPage_kind [OF page(2)] qu pi
    by (simp add: rightLeafInParent_def read_page [OF s(1)] nth_append split: list.split)
  show ?thesis
  proof (cases ts2)
    case Nil
    then show ?thesis using pick right by (simp add: tryRightSiblingRebalance_def)
  next
    case (Cons u us)
    obtain h where h: "uniform (Node q (ks1 @ ks2) (ts1 @ ?L # ts2)) h" using at(8) by blast
    then obtain r rks rvs where u: "u = Leaf r rks rvs" by (rule uniform_siblings [where u = u]) (simp_all add: Cons)
    obtain lo hi where "treeOk ps lo hi (Node q (ks1 @ ks2) (ts1 @ ?L # ts2))"
      by (rule treeOk_plug [OF at(4) t(2)]) (rule that)
    then have tr: "treesOk ps lo hi (ks1 @ ks2) (ts1 @ ?L # ts2)" by simp
    have "ks2 \<noteq> []" using treesOk_length [OF tr] t(3) by (auto simp: Cons)
    then obtain k ks3 where ks2: "ks2 = k # ks3" by (cases ks2) auto
    let ?nx = "case us of [] \<Rightarrow> holeNext 0 as | u # _ \<Rightarrow> firstLeaf u"
    let ?rd = "\<lparr>leafNext = ?nx, leafParent = q, leafKeys = rks, leafVals = rvs\<rparr>"
    have ru: "r \<in> svUsed (view s)" using at(7) by (simp add: Cons u)
    have rep: "rep (svPage (view s)) ps ?nx (Some q) (Leaf r rks rvs)"
      using at(1) by (simp add: Cons u reps_append)
    obtain rp where rp: "opRead ops s r = Inr rp" "parseLeafPage rp = Inr ?rd" by (rule leaf_data [OF rep s(1) ru])
    have resolve: "resolveRightLeaf ops s r ld' = Inr (r, ?rd)" for ld' by (simp add: resolveRightLeaf_def rp)
    have T: "treeIn ps (view s) (plug as (Node q (ks1 @ k # ks3) (ts1 @ ?L # Leaf r rks rvs # us)))"
      using t(1) by (simp add: T_def Cons u ks2)
    have code: "tryRightSiblingRebalance ops (Suc f) path pid ld root s =
      (if leafSerializedSize (ks @ rks) (vs @ rvs) \<le> ps then mapR Some (mergeRightLeaf ops (Suc f) pid ld ?rd r root s)
       else if length rks > minLeafKeysForPage ps then mapR Some (borrowFromRight ops path pid ld r ?rd root s) else Inr None)"
      using pick right by (simp add: tryRightSiblingRebalance_def Cons u resolve ld)
    show ?thesis
    proof (cases "leafSerializedSize (ks @ rks) (vs @ rvs) \<le> ps")
      case True
      have "\<exists>newRoot s' t'. mergeRightLeaf ops (Suc f) pid ld ?rd r root s = Inr (newRoot, s') \<and> ok s' \<and>
          removal ps (view s) T newRoot (view s') (Some t') \<and> entries t' = entries T \<and> height t' \<le> height T"
        using mergeRightLeaf_ok [OF s(1) T t(2,3) _ _ _ _ _ _ _ True, of ld ?rd f root] by (simp add: ld T_def Cons u ks2)
      then have "rebalanced ok view ps (view s) T (mergeRightLeaf ops (Suc f) pid ld ?rd r root s)"
        unfolding rebalanced_def by blast
      then show ?thesis using True code by auto
    next
      case False
      show ?thesis
      proof (cases "length rks > minLeafKeysForPage ps")
        case True
        have len: "length rvs = length rks"
        proof -
          have "treesOk ps lo hi (ks1 @ ks2) ((ts1 @ [?L]) @ Leaf r rks rvs # us)" using tr by (simp add: Cons u)
          from treesOk_middle [OF this] show ?thesis by (auto simp: entriesOk_def)
        qed
        have "2 \<le> length rks" using True minLeafKeys_pos [OF page_size] by simp
        then obtain x m bs where rks: "rks = x # m # bs" by (cases rks; cases "tl rks") auto
        then obtain y vb where rvs: "rvs = y # vb" using len by (cases rvs) auto
        have el: "length vs = length ks" using treesOk_middle [OF tr] by (auto simp: entriesOk_def)
        have xy: "length x \<le> maxKeyBytes" "length y \<le> inlineThreshold ps"
        proof -
          have "treesOk ps lo hi (ks1 @ ks2) ((ts1 @ [?L]) @ Leaf r rks rvs # us)" using tr by (simp add: Cons u)
          from treesOk_middle [OF this] show "length x \<le> maxKeyBytes" "length y \<le> inlineThreshold ps"
            by (auto simp: entriesOk_def rks rvs)
        qed
        have "rebalanced ok view ps (view s) (plug as (Node q (ks1 @ k # ks3) (ts1 @ ?L # Leaf r rks rvs # us)))
            (borrowFromRight ops path pid ld r ?rd root s)"
        proof (rule rebalanced_shift [OF s T t(2,3), of "ks @ [x]" m bs "vs @ [y]" vb ?nx])
          show "leafSerializedSize (ks @ [x]) (vs @ [y]) \<le>
              max (leafSerializedSize ks vs) (leafSerializedSize rks rvs) + 4 + maxKeyBytes + inlineThreshold ps"
            using xy by (simp add: leafSerializedSize_def leafSizes_append [OF el])
          show "leafSerializedSize (m # bs) vb \<le>
              max (leafSerializedSize ks vs) (leafSerializedSize rks rvs) + 4 + maxKeyBytes + inlineThreshold ps"
            by (simp add: leafSerializedSize_def rks rvs)
          show "borrowFromRight ops path pid ld r ?rd root s =
              bindR (buildLeafPage ps q r (ks @ [x]) (vs @ [y])) (\<lambda>lpg. bindR (buildLeafPage ps q ?nx (m # bs) vb) (\<lambda>rpg.
                bindR (opWrite ops pid lpg s) (\<lambda>s. bindR (opWrite ops r rpg s) (\<lambda>s.
                  updateSeparator ops q (int (length ks1)) m root s))))"
            using path t(3) by (simp add: borrowFromRight_def ld rks rvs Let_def cs_def)
        qed (simp_all add: rks rvs el)
        then have "rebalanced ok view ps (view s) T (borrowFromRight ops path pid ld r ?rd root s)"
          by (simp add: T_def Cons u ks2)
        then show ?thesis using True False code by auto
      qed (use False code in simp)
    qed
  qed
qed

end

context overflow_store
begin

lemma tryLeft_ok:
  fixes as q ks1 ks2 ts1 ts2 pid ks vs
  defines "T \<equiv> plug as (Node q (ks1 @ ks2) (ts1 @ Leaf pid ks vs # ts2))"
    and "cs \<equiv> as @ [(q, ks1, ks2, ts1, ts2)]"
  assumes s: "ok s" "svRoot (view s) \<noteq> 0" and t: "treeIn ps (view s) T" "list_all crumbOk as" "length ts1 = length ks1"
    and ld: "ld = \<lparr>leafNext = (case ts2 of [] \<Rightarrow> holeNext 0 as | u # _ \<Rightarrow> firstLeaf u), leafParent = q, leafKeys = ks, leafVals = vs\<rparr>"
      "ks \<noteq> []"
    and path: "parentPIDs path = map crumbId cs" "childIdxs path = map crumbIdx cs"
  shows "rebalanced ok view ps (view s) T (tryLeftSiblingRebalance ops (Suc f) path pid ld (svRoot (view s)) s)"
proof (cases ts1 rule: rev_cases)
  case Nil
  then have "tryLeftSiblingRebalance ops (Suc f) path pid ld (svRoot (view s)) s = Inr (svRoot (view s), s)"
    using path by (simp add: tryLeftSiblingRebalance_def cs_def)
  then show ?thesis using rebalanced_same [OF s(1) t(1) s(2)] by simp
next
  case (snoc us u)
  let ?L = "Leaf pid ks vs"
  note at = treeIn_at [OF t(1) [unfolded T_def]] and page_size = page_size [OF s(1)]
  have node: "nodeAt (svPage (view s)) ps (holePar None as) q (ks1 @ ks2) (map rootId (ts1 @ ?L # ts2))" using at(1) by simp
  obtain page parent where page: "svPage (view s) q = Inr page"
    "parseInternalPage page = Inr \<lparr>inParent = parent, inPtrs = map rootId (ts1 @ ?L # ts2), inKeys = ks1 @ ks2\<rparr>"
    using node by (auto simp: nodeAt_def)
  obtain h where h: "uniform (Node q (ks1 @ ks2) (ts1 @ ?L # ts2)) h" using at(8) by blast
  then obtain l lks lvs where u: "u = Leaf l lks lvs" by (rule uniform_siblings [where u = u]) (simp_all add: snoc)
  obtain lo hi where "treeOk ps lo hi (Node q (ks1 @ ks2) (ts1 @ ?L # ts2))"
    by (rule treeOk_plug [OF at(4) t(2)]) (rule that)
  then have tr: "treesOk ps lo hi (ks1 @ ks2) (us @ Leaf l lks lvs # ?L # ts2)" by (simp add: snoc u)
  have "ks1 \<noteq> []" using t(3) by (auto simp: snoc)
  then obtain ks0 k where ks1: "ks1 = ks0 @ [k]" by (cases ks1 rule: rev_cases) auto
  have len: "length us = length ks0" using t(3) by (simp add: snoc ks1)
  let ?nx = "case ts2 of [] \<Rightarrow> holeNext 0 as | u # _ \<Rightarrow> firstLeaf u"
  let ?lf = "\<lparr>leafNext = pid, leafParent = q, leafKeys = lks, leafVals = lvs\<rparr>"
  have lu: "l \<in> svUsed (view s)" "q \<in> svUsed (view s)" using at(7) by (simp_all add: snoc u)
  have rep: "rep (svPage (view s)) ps pid (Some q) (Leaf l lks lvs)"
    using at(1) by (simp add: snoc u reps_append)
  obtain lp where lp: "opRead ops s l = Inr lp" "parseLeafPage lp = Inr ?lf" by (rule leaf_data [OF rep s(1) lu(1)])
  have T: "treeIn ps (view s) (plug as (Node q (ks0 @ k # ks2) (us @ Leaf l lks lvs # ?L # ts2)))"
    using t(1) by (simp add: T_def snoc u ks1)
  have code: "tryLeftSiblingRebalance ops (Suc f) path pid ld (svRoot (view s)) s =
    (if leafSerializedSize (lks @ ks) (lvs @ vs) \<le> ps then mergeRightLeaf ops (Suc f) l ?lf ld pid (svRoot (view s)) s
     else if length lks > minLeafKeysForPage ps then borrowFromLeft ops path l ?lf pid ld (svRoot (view s)) s
     else Inr (svRoot (view s), s))"
    using path page(1,2) lu(2) lp
    by (simp add: tryLeftSiblingRebalance_def cs_def snoc u nth_append read_page [OF s(1)] Let_def ld(1))
  have el: "length lvs = length lks" "length vs = length ks"
    and ek: "\<forall>x \<in> set lks. length x \<le> maxKeyBytes" "\<forall>x \<in> set lvs. length x \<le> inlineThreshold ps"
  proof -
    from treesOk_middle [OF tr] show "length lvs = length lks" "\<forall>x \<in> set lks. length x \<le> maxKeyBytes"
      "\<forall>x \<in> set lvs. length x \<le> inlineThreshold ps" by (auto simp: entriesOk_def)
    have "treesOk ps lo hi (ks1 @ ks2) ((us @ [Leaf l lks lvs]) @ ?L # ts2)" using tr by simp
    from treesOk_middle [OF this] show "length vs = length ks" by (auto simp: entriesOk_def)
  qed
  consider (merge) "leafSerializedSize (lks @ ks) (lvs @ vs) \<le> ps"
    | (borrow) "\<not> leafSerializedSize (lks @ ks) (lvs @ vs) \<le> ps" "length lks > minLeafKeysForPage ps"
    | (none) "\<not> leafSerializedSize (lks @ ks) (lvs @ vs) \<le> ps" "\<not> length lks > minLeafKeysForPage ps" by blast
  then show ?thesis
  proof cases
    case merge
    have "\<exists>newRoot s' t'. mergeRightLeaf ops (Suc f) l ?lf ld pid (svRoot (view s)) s = Inr (newRoot, s') \<and> ok s' \<and>
        removal ps (view s) T newRoot (view s') (Some t') \<and> entries t' = entries T \<and> height t' \<le> height T"
      using mergeRightLeaf_ok [OF s(1) T t(2) len _ _ _ _ _ _ _ merge, of ?lf ld f "svRoot (view s)"]
      by (simp add: ld T_def snoc u ks1)
    then have "rebalanced ok view ps (view s) T (mergeRightLeaf ops (Suc f) l ?lf ld pid (svRoot (view s)) s)"
      unfolding rebalanced_def by blast
    then show ?thesis using merge code by simp
  next
    case borrow
    have "2 \<le> length lks" using borrow(2) minLeafKeys_pos [OF page_size] by simp
    then obtain a x where lks: "lks = a @ [x]" "a \<noteq> []" by (cases lks rule: rev_cases) (auto simp: Suc_le_eq)
    then obtain va y where lvs: "lvs = va @ [y]" "length va = length a" using el(1) by (cases lvs rule: rev_cases) auto
    have xy: "length x \<le> maxKeyBytes" "length y \<le> inlineThreshold ps" using ek by (simp_all add: lks lvs)
    have "rebalanced ok view ps (view s) (plug as (Node q (ks0 @ k # ks2) (us @ Leaf l lks lvs # ?L # ts2)))
        (borrowFromLeft ops path l ?lf pid ld (svRoot (view s)) s)"
    proof (rule rebalanced_shift [OF s T t(2) len, of a x ks va "y # vs" ?nx])
      show "leafSerializedSize a va \<le>
          max (leafSerializedSize lks lvs) (leafSerializedSize ks vs) + 4 + maxKeyBytes + inlineThreshold ps"
        by (simp add: leafSerializedSize_def lks lvs leafSizes_append)
      show "leafSerializedSize (x # ks) (y # vs) \<le>
          max (leafSerializedSize lks lvs) (leafSerializedSize ks vs) + 4 + maxKeyBytes + inlineThreshold ps"
        using xy by (simp add: leafSerializedSize_def)
      show "borrowFromLeft ops path l ?lf pid ld (svRoot (view s)) s =
          bindR (buildLeafPage ps q pid a va) (\<lambda>lpg. bindR (buildLeafPage ps q ?nx (x # ks) (y # vs)) (\<lambda>rpg.
            bindR (opWrite ops l lpg s) (\<lambda>s1. bindR (opWrite ops pid rpg s1) (\<lambda>s2.
              updateSeparator ops q (int (length ks0)) x (svRoot (view s)) s2))))"
        using path len lvs(2)
        by (simp add: borrowFromLeft_def ld lks lvs(1) Let_def cs_def snoc nth_append)
    qed (simp_all add: lks lvs)
    then have "rebalanced ok view ps (view s) T (borrowFromLeft ops path l ?lf pid ld (svRoot (view s)) s)"
      by (simp add: T_def snoc u ks1)
    then show ?thesis using borrow code by simp
  next
    case none
    then show ?thesis using code rebalanced_same [OF s(1) t(1) s(2)] by simp
  qed
qed

lemma rebalanceLeaf_ok:
  assumes s: "ok s" "svRoot (view s) \<noteq> 0"
    and t: "treeIn ps (view s) (plug cs (Leaf pid ks vs))" "list_all crumbOk cs" "cs \<noteq> []" "ks \<noteq> []"
    and ld: "ld = \<lparr>leafNext = holeNext 0 cs, leafParent = p, leafKeys = ks, leafVals = vs\<rparr>" "holePar None cs = Some p"
    and path: "parentPIDs path = map crumbId cs" "childIdxs path = map crumbIdx cs"
  shows "rebalanced ok view ps (view s) (plug cs (Leaf pid ks vs))
    (rebalanceLeaf ops (Suc f) path pid ld (svRoot (view s)) s)"
proof -
  obtain as q ks1 ks2 ts1 ts2 where cs: "cs = as @ [(q, ks1, ks2, ts1, ts2)]"
    using t(3) by (cases cs rule: rev_cases) (simp, metis prod_cases5)
  have T: "plug cs (Leaf pid ks vs) = plug as (Node q (ks1 @ ks2) (ts1 @ Leaf pid ks vs # ts2))" by (simp add: cs)
  have oks: "list_all crumbOk as" "length ts1 = length ks1" using t(2) by (simp_all add: cs)
  have ld': "ld = \<lparr>leafNext = (case ts2 of [] \<Rightarrow> holeNext 0 as | u # _ \<Rightarrow> firstLeaf u), leafParent = q, leafKeys = ks, leafVals = vs\<rparr>"
    using ld by (simp add: cs holes_append)
  note path' = path [unfolded cs]
  have "tryRightSiblingRebalance ops (Suc f) path pid ld (svRoot (view s)) s = Inr None \<or>
    (\<exists>r. tryRightSiblingRebalance ops (Suc f) path pid ld (svRoot (view s)) s = mapR Some r \<and>
      rebalanced ok view ps (view s) (plug cs (Leaf pid ks vs)) r)"
    unfolding T by (rule tryRight_ok [OF s t(1) [unfolded T] oks ld' path'])
  moreover have "rebalanced ok view ps (view s) (plug cs (Leaf pid ks vs))
      (tryLeftSiblingRebalance ops (Suc f) path pid ld (svRoot (view s)) s)"
    unfolding T by (rule tryLeft_ok [OF s t(1) [unfolded T] oks ld' t(4) path'])
  moreover have "rebalanceLeaf ops (Suc f) path pid ld (svRoot (view s)) s = r"
    if "tryRightSiblingRebalance ops (Suc f) path pid ld (svRoot (view s)) s = mapR Some r" for r
    using that by (cases r) (simp_all add: rebalanceLeaf_def mapR_def)
  ultimately show ?thesis by (auto simp: rebalanceLeaf_def)
qed

end

subsection \<open>Taking out an emptied first leaf\<close>

lemma entriesBefore_zero: "\<forall>c \<in> set cs. crumbIdx c = 0 \<Longrightarrow> entriesBefore cs = []"
  by (induction cs rule: entriesBefore.induct) auto

lemma ptrIndex_None: "p \<notin> set ptrs \<Longrightarrow> ptrIndex ptrs p = None"
  by (induction ptrs) auto

lemma rootId_not_rest:
  assumes "distinct (pids (Node q ks (t # ts)))" "p \<in> set (pids t)" "p \<noteq> rootId t"
  shows "p \<notin> set (map rootId (t # ts))"
  using assms rootIds_pids [of ts] by auto

context overflow_store
begin

text \<open>The parent of a page on the leftmost path is found on that path.\<close>

lemma findParentOfPage_ok:
  assumes "ok s" "rep (svPage (view s)) ps nx par (plug cs u)" "set (pids (plug cs u)) \<subseteq> svUsed (view s)"
    and "distinct (pids (plug cs u))" "cs \<noteq> []" "\<forall>c \<in> set cs. crumbIdx c = 0" "length cs \<le> fuel"
  shows "findParentOfPage ops fuel s (rootId (plug cs u)) (rootId u) = Inr (Some (crumbId (last cs), 0))"
  using assms(2-)
proof (induction cs arbitrary: nx par fuel)
  case (Cons c cs)
  obtain q ks1 ks2 ts1 ts2 where c: "c = (q, ks1, ks2, ts1, ts2)" by (cases c) auto
  have ts1: "ts1 = []" using Cons.prems(5) by (simp add: c)
  obtain f where f: "fuel = Suc f" "length cs \<le> f" using Cons.prems(6) by (cases fuel) auto
  have d: "distinct (pids (Node q (ks1 @ ks2) (plug cs u # ts2)))" using Cons.prems(3) by (simp add: c ts1)
  from Cons.prems(1) obtain page parent where page: "svPage (view s) q = Inr page"
    "parseInternalPage page = Inr \<lparr>inParent = parent, inPtrs = map rootId (plug cs u # ts2), inKeys = ks1 @ ks2\<rparr>"
    by (auto simp: c ts1 nodeAt_def)
  have q: "q \<in> svUsed (view s)" "q \<noteq> rootId u"
    using Cons.prems(2) d pids_rootId [of u] by (auto simp: c ts1 set_pids_plug)
  have step: "findParentOfPage ops fuel s (rootId (plug (c # cs) u)) (rootId u) =
      (case ptrIndex (map rootId (plug cs u # ts2)) (rootId u) of Some i \<Rightarrow> Inr (Some (q, i))
       | None \<Rightarrow> findInChildren (\<lambda>p. findParentOfPage ops f s p (rootId u)) (map rootId (plug cs u # ts2)))"
    using page q parseInternalPage_kind [OF page(2)] by (simp add: f c ts1 read_page [OF assms(1)] split: option.split)
  show ?case
  proof (cases "cs = []")
    case True
    then show ?thesis using step by (simp add: c)
  next
    case False
    have "rootId u \<noteq> rootId (plug cs u)"
      using plug_root [OF False, of u] distinct_plug [of cs u] d pids_rootId [of u] by auto
    moreover have "rootId u \<in> set (pids (plug cs u))" using pids_rootId [of u] by (simp add: set_pids_plug)
    ultimately have "rootId u \<notin> set (map rootId (plug cs u # ts2))" using rootId_not_rest [OF d] by blast
    then have none: "ptrIndex (map rootId (plug cs u # ts2)) (rootId u) = None" by (rule ptrIndex_None)
    obtain nx' where r: "rep (svPage (view s)) ps nx' (Some q) (plug cs u)"
      using Cons.prems(1) by (auto simp: c ts1)
    have "findParentOfPage ops f s (rootId (plug cs u)) (rootId u) = Inr (Some (crumbId (last cs), 0))"
      by (rule Cons.IH [OF r _ _ False _ f(2)]) (use Cons.prems(2,5) d in \<open>auto simp: c ts1\<close>)
    then show ?thesis using step none False by simp
  qed
qed simp

end

text \<open>A store whose tree is gone.\<close>

lemma removal_empty:
  assumes "optTree n V (Some t)" "svPage V' = svPage V" "svRoot V' = svRoot V"
    and "svUsed V - set (pids t) \<subseteq> svUsed V'" "svUsed V' \<subseteq> svUsed V" "svRoom V \<le> svRoom V'"
  shows "removal n V t 0 V' None"
  using assms by (simp add: removal_def optTree_def optPids_def)

definition emptiedChain ::
  "('s \<Rightarrow> bool) \<Rightarrow> ('s \<Rightarrow> storeView) \<Rightarrow> nat \<Rightarrow> storeView \<Rightarrow> crumb list \<Rightarrow> btree \<Rightarrow> engine_error + uint64 \<times> 's \<Rightarrow> bool" where
  "emptiedChain ok view n V cs x r \<longleftrightarrow> (\<exists>newRoot s' ot'. r = Inr (newRoot, s') \<and> ok s' \<and>
     removal n V (plug cs x) newRoot (view s') ot' \<and> set (pids x) \<subseteq> svUsed (view s') \<and> set (pids x) \<inter> optPids ot' = {} \<and>
     optEntries ot' = entriesAfter cs \<and> optHeight ot' \<le> height (plug cs x))"

context overflow_store
begin

lemma remove_chain_ok:
  assumes "ok s" "svRoot (view s) \<noteq> 0" "treeIn ps (view s) (plug cs x)" "list_all crumbOk cs" "cs \<noteq> []"
    and "\<forall>c \<in> set cs. crumbIdx c = 0" "length cs < fuel"
  shows "emptiedChain ok view ps (view s) cs x (removeInternalChild ops fuel (crumbId (last cs)) 0 root s)"
  using assms(3-)
proof (induction cs arbitrary: x fuel rule: rev_induct)
  case (snoc c as)
  obtain q ks1 ks2 ts1 ts2 where c: "c = (q, ks1, ks2, ts1, ts2)" by (cases c) auto
  have ts1: "ts1 = []" "ks1 = []" using snoc.prems(2,4) by (simp_all add: c)
  obtain f where f: "fuel = Suc f" "length as < f" using snoc.prems(5) by (cases fuel) auto
  have oks: "list_all crumbOk as" and zero: "\<forall>c \<in> set as. crumbIdx c = 0" using snoc.prems(2,4) by simp_all
  have t: "treeIn ps (view s) (plug as (Node q ks2 ([] @ x # ts2)))" using snoc.prems(1) by (simp add: c ts1)
  note at = treeIn_at [OF t]
  show ?case
  proof (cases "ts2 = []")
    case False
    have V: "rewritten {} (view s) (view s)" by (simp add: rewritten_def changes_refl)
    have "\<exists>newRoot s' t'. removeInternalChild ops (Suc f) q (length ([] :: btree list)) root s = Inr (newRoot, s') \<and> ok s' \<and>
      removal ps (view s) (plug as (Node q ks2 ([] @ x # ts2))) newRoot (view s') (Some t') \<and>
      set (pids x) \<subseteq> svUsed (view s') \<and> set (pids x) \<inter> set (pids t') = {} \<and>
      entries t' = entriesBefore as @ concat (map entries ts2) @ entriesAfter as \<and>
      height t' \<le> height (plug as (Node q ks2 ([] @ x # ts2)))"
    proof (rule remove_child_ok [OF assms(1) t oks V])
      show "reps (svPage (view s)) ps (holeNext 0 as) (Some q) ts2" using at(1) by simp
      show "treesOk ps lo hi (withoutKey (length ([] :: btree list)) ks2) ts2" if "treeOk ps lo hi (Node q ks2 ([] @ x # ts2))" for lo hi
      proof -
        have tr: "treesOk ps lo hi ks2 (x # ts2)" using that by simp
        then obtain k ks where k: "ks2 = k # ks" using treesOk_length [OF tr] False by (cases ks2) auto
        then have "treesOk ps k hi ks ts2" "lo < k" using tr by simp_all
        then show ?thesis using treeOk_widen(2) [of ps k hi ks ts2 lo hi] by (simp add: withoutKey_def k)
      qed
      show "\<forall>u \<in> set ts2. height u < height (Node q ks2 ([] @ x # ts2))"
        using height_child [of _ "[] @ x # ts2" q ks2] by simp
    qed (use False at(2) zero in auto)
    then obtain newRoot s' t' where R: "removeInternalChild ops fuel q 0 root s = Inr (newRoot, s')" "ok s'"
      "removal ps (view s) (plug (as @ [c]) x) newRoot (view s') (Some t')" "set (pids x) \<subseteq> svUsed (view s')"
      "set (pids x) \<inter> set (pids t') = {}" "entries t' = concat (map entries ts2) @ entriesAfter as"
      "height t' \<le> height (plug (as @ [c]) x)"
      using entriesBefore_zero [OF zero] by (auto simp: f(1) c ts1 simp del: removeInternalChild.simps)
    then show ?thesis unfolding emptiedChain_def
      by (intro exI [of _ newRoot] exI [of _ s'] exI [of _ "Some t'"])
        (simp add: c optPids_def optEntries_def optHeight_def entries_context_append del: removeInternalChild.simps)
  next
    case thin: True
    obtain page parent where page: "svPage (view s) q = Inr page"
      "parseInternalPage page = Inr \<lparr>inParent = parent, inPtrs = [rootId x], inKeys = ks2\<rparr>"
      using at(1) by (auto simp: thin nodeAt_def)
    have qu: "q \<in> svUsed (view s)" using at(7) by simp
    have rm: "removePtrAndKey [rootId x] ks2 0 = Inr ([], [])" by (simp add: removePtrAndKey_def)
    have qx: "q \<notin> set (pids x)" using at(2) by simp
    have xu: "set (pids x) \<subseteq> svUsed (view s)" using at(7) by simp
    show ?thesis
    proof (cases "as = []")
      case True
      have qr: "q = svRoot (view s)" using at(6) by (simp add: True)
      obtain s' where r: "opRelease ops q s = Inr s'" "ok s'" "svPage (view s') = svPage (view s)"
        "svRoot (view s') = svRoot (view s)" "svUsed (view s) - {q} \<subseteq> svUsed (view s')"
        "svUsed (view s') \<subseteq> svUsed (view s)" "svRoom (view s) \<le> svRoom (view s')"
        "svWritten (view s') = svWritten (view s)" by (rule release_view [OF assms(1) qu])
      have code: "removeInternalChild ops fuel q 0 root s = Inr (0, s')"
        using page r(1) qu qr by (simp add: f(1) read_page [OF assms(1)] read_root [OF assms(1)] rm Let_def)
      have "optTree ps (view s) (Some (plug (as @ [c]) x))" using snoc.prems(1) assms(2) by (simp add: optTree_Some)
      then have "removal ps (view s) (plug (as @ [c]) x) 0 (view s') None"
        by (rule removal_empty) (use r in \<open>auto simp: c True\<close>)
      moreover have "set (pids x) \<subseteq> svUsed (view s')" using xu r(5) qx by blast
      moreover have "entriesAfter (as @ [c]) = []" by (simp add: c True thin)
      ultimately show ?thesis using code r(2) unfolding emptiedChain_def
        by (intro exI [of _ 0] exI [of _ s'] exI [of _ None]) (simp add: c optPids_def optEntries_def optHeight_def)
    next
      case False
      have "svRoot (view s) \<in> crumbPids as" unfolding at(6) by (rule plug_root [OF False])
      moreover have "q \<notin> crumbPids as" using at(5) by simp
      ultimately have qr: "q \<noteq> svRoot (view s)" by blast
      have idx: "findParentOfPage ops (Suc f) s (svRoot (view s)) q = Inr (Some (crumbId (last as), 0))"
      proof -
        have r: "rep (svPage (view s)) ps 0 None (plug as (Node q ks2 ([] @ x # ts2)))"
          and d: "distinct (pids (plug as (Node q ks2 ([] @ x # ts2))))" using t by (simp_all add: treeIn_def)
        have "length as \<le> Suc f" using f(2) by simp
        from findParentOfPage_ok [OF assms(1) r at(3) d False zero this] show ?thesis using at(6) by simp
      qed
      have t': "treeIn ps (view s) (plug as (Node q ks2 [x]))" using t by (simp add: thin)
      from snoc.IH [OF t' oks False zero f(2)] obtain newRoot s1 ot' where I:
        "removeInternalChild ops f (crumbId (last as)) 0 root s = Inr (newRoot, s1)" "ok s1"
        "removal ps (view s) (plug as (Node q ks2 [x])) newRoot (view s1) ot'"
        "set (pids (Node q ks2 [x])) \<subseteq> svUsed (view s1)" "set (pids (Node q ks2 [x])) \<inter> optPids ot' = {}"
        "optEntries ot' = entriesAfter as" "optHeight ot' \<le> height (plug as (Node q ks2 [x]))"
        by (auto simp: emptiedChain_def)
      have q1: "q \<in> svUsed (view s1)" "q \<notin> optPids ot'" "q \<in> set (pids (plug as (Node q ks2 [x])))"
        using I(4,5) by (auto simp: set_pids_plug)
      obtain s' where r: "opRelease ops q s1 = Inr s'" "ok s'" "svPage (view s') = svPage (view s1)"
        "svRoot (view s') = svRoot (view s1)" "svUsed (view s1) - {q} \<subseteq> svUsed (view s')"
        "svUsed (view s') \<subseteq> svUsed (view s1)" "svRoom (view s1) \<le> svRoom (view s')"
        "svWritten (view s') = svWritten (view s1)" by (rule release_view [OF I(2) q1(1)])
      obtain s'' where "opRelease ops q s1 = Inr s''" "removal ps (view s) (plug as (Node q ks2 [x])) newRoot (view s'') ot'"
        by (rule removal_release [OF I(2,3) q1(1,3,2)])
      then have R: "removal ps (view s) (plug (as @ [c]) x) newRoot (view s') ot'" using r(1) by (simp add: c ts1 thin)
      have code: "removeInternalChild ops fuel q 0 root s = Inr (newRoot, s')"
        using page r(1) qu qr idx I(1)
        by (simp add: f(1) read_page [OF assms(1)] read_root [OF assms(1)] rm Let_def del: findParentOfPage.simps)
      have "set (pids x) \<subseteq> svUsed (view s')" "set (pids x) \<inter> optPids ot' = {}" using I(4,5) r(5) qx by auto
      moreover have "entriesAfter (as @ [c]) = entriesAfter as" by (simp add: c thin entries_context_append)
      moreover have "height (plug (as @ [c]) x) = height (plug as (Node q ks2 [x]))" by (simp add: c ts1 thin)
      ultimately show ?thesis using code r(2) R I(6,7) unfolding emptiedChain_def by (simp add: c) blast
    qed
  qed
qed simp

end

subsection \<open>Removing an entry\<close>

text \<open>The store after a deletion from the tree \<open>t\<close>: pages outside \<open>t\<close> stay.\<close>

definition deletedTree :: "nat \<Rightarrow> storeView \<Rightarrow> btree \<Rightarrow> storeView \<Rightarrow> btree option \<Rightarrow> bool" where
  "deletedTree n V t V' ot' \<longleftrightarrow> optTree n V' ot' \<and> optPids ot' \<subseteq> set (pids t) \<and>
     (\<forall>p. p \<notin> set (pids t) \<longrightarrow> svPage V' p = svPage V p) \<and>
     svUsed V - (set (pids t) - optPids ot') \<subseteq> svUsed V' \<and> svUsed V' \<subseteq> svUsed V \<and> svRoom V \<le> svRoom V'"

lemma deletedTree_removal:
  assumes "rewritten P V V2" "P \<subseteq> set (pids t)" "set (pids t2) = set (pids t)" "removal n V2 t2 newRoot V3 ot'"
  shows "deletedTree n V t (V3\<lparr>svRoot := newRoot\<rparr>) ot'"
proof -
  have V2: "svUsed V2 = svUsed V" "svRoom V \<le> svRoom V2" "\<forall>p. p \<notin> P \<longrightarrow> svPage V2 p = svPage V p"
    using assms(1) rewritten_used [OF assms(1)] by (simp_all add: rewritten_def changes_def)
  have R: "optTree n (V3\<lparr>svRoot := newRoot\<rparr>) ot'" "optPids ot' \<subseteq> set (pids t)" "\<forall>p. p \<notin> set (pids t) \<longrightarrow> svPage V3 p = svPage V2 p"
    "svUsed V3 \<subseteq> svUsed V" "svUsed V - (set (pids t) - optPids ot') \<subseteq> svUsed V3" "svRoom V2 \<le> svRoom V3"
    using assms(4) unfolding removal_def assms(3) V2(1) by blast+
  have "svPage V3 p = svPage V p" if "p \<notin> set (pids t)" for p
    using that R(3) V2(3) assms(2) by (metis subsetD)
  then show ?thesis using R(1,2,4-6) V2(2) by (simp add: deletedTree_def)
qed

lemma deletedTree_release:
  assumes "deletedTree n V t V1 ot'" "p \<in> set (pids t)" "p \<notin> optPids ot'" "svPage V2 = svPage V1" "svRoot V2 = svRoot V1"
    and "svUsed V1 - {p} \<subseteq> svUsed V2" "svUsed V2 \<subseteq> svUsed V1" "svRoom V1 \<le> svRoom V2"
  shows "deletedTree n V t V2 ot'"
proof -
  have D: "optTree n V1 ot'" "optPids ot' \<subseteq> set (pids t)" "\<forall>p. p \<notin> set (pids t) \<longrightarrow> svPage V1 p = svPage V p"
     "svUsed V - (set (pids t) - optPids ot') \<subseteq> svUsed V1" "svUsed V1 \<subseteq> svUsed V" "svRoom V \<le> svRoom V1"
    using assms(1) by (simp_all add: deletedTree_def)
  have "optPids ot' \<subseteq> svUsed V2" using optTree_used [OF D(1)] assms(3,6) by blast
  then have "optTree n V2 ot'" by (intro optTree_keep [OF D(1)]) (simp_all add: assms(4,5))
  moreover have "svUsed V - (set (pids t) - optPids ot') \<subseteq> svUsed V2" using D(4) assms(2,3,6) by blast
  ultimately show ?thesis using D(2,3,5,6) assms(4,7,8) by (simp add: deletedTree_def order_trans [of "svRoom V"])
qed

context delete_store
begin

lemma setNewRoot_ok:
  assumes "ok s" "removal ps V t newRoot (view s) ot'" "svRoot V \<noteq> 0"
  shows "\<exists>s'. setNewRoot ops (svRoot V) (newRoot, s) = Inr s' \<and> ok s' \<and> view s' = (view s)\<lparr>svRoot := newRoot\<rparr>"
proof (cases "newRoot = svRoot V")
  case True
  then have "view s = (view s)\<lparr>svRoot := newRoot\<rparr>" using assms(2) by (simp add: removal_def)
  then show ?thesis using assms(1) True by (simp add: setNewRoot_def)
next
  case False
  have r: "optTree ps ((view s)\<lparr>svRoot := newRoot\<rparr>) ot'" "newRoot = 0 \<or> newRoot \<in> svWritten (view s)"
    using assms(2) False by (simp_all add: removal_def)
  show ?thesis
  proof (cases "newRoot = 0")
    case True
    then show ?thesis using clear_root [OF assms(1)] assms(3) by (auto simp: setNewRoot_def)
  next
    case nz: False
    then have "newRoot \<in> svUsed (view s)"
      using r(1) pids_rootId by (auto simp: optTree_def treeIn_def split: option.splits)
    then show ?thesis using set_root [OF assms(1)] r(2) nz False by (simp add: setNewRoot_def)
  qed
qed

end

lemma leafSize_without:
  assumes "i < length ks" "length vs = length ks"
  shows "leafSerializedSize (take i ks @ drop (i + 1) ks) (take i vs @ drop (i + 1) vs) \<le> leafSerializedSize ks vs"
    "zip (take i ks @ drop (i + 1) ks) (take i vs @ drop (i + 1) vs) = take i (zip ks vs) @ drop (i + 1) (zip ks vs)"
proof -
  have "ks = take i ks @ ks ! i # drop (Suc i) ks" "vs = take i vs @ vs ! i # drop (Suc i) vs"
    by (rule id_take_nth_drop; use assms in simp)+
  then have "leafEntriesSize ks vs = leafEntriesSize (take i ks @ ks ! i # drop (Suc i) ks) (take i vs @ vs ! i # drop (Suc i) vs)"
    by simp
  also have "\<dots> = leafEntriesSize (take i ks) (take i vs) + leafEntriesSize (ks ! i # drop (Suc i) ks) (vs ! i # drop (Suc i) vs)"
    by (rule leafSizes_append) (simp add: assms)
  finally show "leafSerializedSize (take i ks @ drop (i + 1) ks) (take i vs @ drop (i + 1) vs) \<le> leafSerializedSize ks vs"
    using leafSizes_append [of "take i vs" "take i ks" "drop (i + 1) ks" "drop (i + 1) vs"] assms
    by (simp add: leafSerializedSize_def)
  show "zip (take i ks @ drop (i + 1) ks) (take i vs @ drop (i + 1) vs) = take i (zip ks vs) @ drop (i + 1) (zip ks vs)"
    using assms by (simp add: take_zip drop_zip)
qed

lemma treeOk_less:
  assumes "treeOk n lo hi (Leaf pid ks vs)" "i < length ks"
  shows "treeOk n lo hi (Leaf pid (take i ks @ drop (i + 1) ks) (take i vs @ drop (i + 1) vs))"
proof -
  have e: "entriesOk n ks vs" and w: "\<forall>k \<in> set ks. within lo hi k" using assms(1) by simp_all
  have len: "length vs = length ks" using e by (simp add: entriesOk_def)
  have "ks = take i ks @ ks ! i # drop (Suc i) ks" by (rule id_take_nth_drop [OF assms(2)])
  moreover have "sorted_wrt (<) ks" using e by (simp add: entriesOk_def)
  ultimately have "sorted_wrt (<) (take i ks @ ks ! i # drop (Suc i) ks)" by simp
  then have "sorted_wrt (<) (take i ks @ drop (i + 1) ks)" by (simp add: sorted_wrt_append)
  moreover have "set (take i ks @ drop (i + 1) ks) \<subseteq> set ks" "set (take i vs @ drop (i + 1) vs) \<subseteq> set vs"
    by (auto dest: in_set_takeD in_set_dropD)
  moreover have "leafSerializedSize (take i ks @ drop (i + 1) ks) (take i vs @ drop (i + 1) vs) \<le> n"
    using leafSize_without(1) [OF assms(2) len] e by (simp add: entriesOk_def)
  ultimately show ?thesis using e w assms(2) len by (auto simp: entriesOk_def)
qed

context overflow_store
begin

text \<open>The leaf without its entry \<open>i\<close>, in the tree.\<close>

lemma write_without_ok:
  assumes "ok s" and t: "treeIn ps (view s) (plug cs (Leaf pid ks vs))" "list_all crumbOk cs" and i: "i < length ks"
    and p: "holePar None cs = None \<or> holePar None cs = Some p"
  defines "ks' \<equiv> take i ks @ drop (i + 1) ks" and "vs' \<equiv> take i vs @ drop (i + 1) vs"
  obtains pg s1 where "buildLeafPage ps p (holeNext 0 cs) ks' vs' = Inr pg" "opWrite ops pid pg s = Inr s1" "ok s1"
    "rewritten {pid} (view s) (view s1)" "treeIn ps (view s1) (plug cs (Leaf pid ks' vs'))"
    "svPage (view s1) pid = Inr pg" "parseLeafPage pg = Inr \<lparr>leafNext = holeNext 0 cs, leafParent = p, leafKeys = ks', leafVals = vs'\<rparr>"
proof -
  note at = treeIn_at [OF t(1)]
  have pu: "pid \<in> svUsed (view s)" using at(7) by simp
  have less: "treeOk ps lo hi (Leaf pid ks' vs')" if "treeOk ps lo hi (Leaf pid ks vs)" for lo hi
    unfolding ks'_def vs'_def by (rule treeOk_less [OF that i])
  obtain lo hi where "treeOk ps lo hi (Leaf pid ks vs)" by (rule treeOk_plug [OF at(4) t(2)]) (rule that)
  from less [OF this] have e: "entriesOk ps ks' vs'" by simp
  obtain pg s1 where w: "buildLeafPage ps p (holeNext 0 cs) ks' vs' = Inr pg" "opWrite ops pid pg s = Inr s1" "ok s1"
    "view s1 = putPage pid pg (view s)" "length pg = ps"
    "parseLeafPage pg = Inr \<lparr>leafNext = holeNext 0 cs, leafParent = p, leafKeys = ks', leafVals = vs'\<rparr>"
    by (rule writeLeaf_ok [OF assms(1) e pu])
  have "treeIn ps (view s1) (plug cs (Leaf pid ks' vs'))"
  proof (rule treeIn_hole [OF t])
    show "rep (svPage (view s1)) ps (holeNext 0 cs) (holePar None cs) (Leaf pid ks' vs')"
      using w(5,6) p by (simp add: leafAt_def w(4) putPage_def)
    show "svPage (view s1) q = svPage (view s) q" if "q \<in> crumbPids cs" for q
      using that at(5) by (auto simp: w(4) putPage_def)
    show "svUsed (view s) \<subseteq> svUsed (view s1)" by (auto simp: w(4) putPage_def)
    show "treeOk ps lo hi (Leaf pid ks' vs')" if "treeOk ps lo hi (Leaf pid ks vs)" for lo hi by (rule less [OF that])
  qed (simp_all add: w(4) putPage_def)
  moreover have "rewritten {pid} (view s) (view s1)" unfolding w(4) by (rule rewritten_put [OF pu])
  ultimately show thesis using w that by (simp add: putPage_def)
qed

text \<open>A leaf's page determines its links.\<close>

lemma hole_links:
  assumes "treeIn ps V (plug cs (Leaf pid ks vs))" "svPage V pid = Inr pg"
    and "parseLeafPage pg = Inr \<lparr>leafNext = nx, leafParent = p, leafKeys = ks', leafVals = vs'\<rparr>"
  shows "holeNext 0 cs = nx" "cs \<noteq> [] \<Longrightarrow> holePar None cs = Some p"
proof -
  have r: "rep (svPage V) ps (holeNext 0 cs) (holePar None cs) (Leaf pid ks vs)" by (rule treeIn_at(1) [OF assms(1)])
  then show "holeNext 0 cs = nx" using assms(2,3) by (auto simp: leafAt_def)
  assume "cs \<noteq> []"
  then have "holePar None cs \<noteq> None" by (cases cs rule: rev_cases) (auto simp: holes_append)
  then show "holePar None cs = Some p" using r assms(2,3) by (auto simp: leafAt_def)
qed

end

definition deletion ::
  "('s \<Rightarrow> bool) \<Rightarrow> ('s \<Rightarrow> storeView) \<Rightarrow> nat \<Rightarrow> storeView \<Rightarrow> btree \<Rightarrow> (bytes \<times> bytes) list \<Rightarrow> engine_error + 's \<Rightarrow> bool" where
  "deletion ok view n V t es r \<longleftrightarrow> (\<exists>e. r = Inl e \<and> pageFull e \<and> \<not> slack n 512 t) \<or>
     (\<exists>s' ot'. r = Inr s' \<and> ok s' \<and> deletedTree n V t (view s') ot' \<and> optEntries ot' = es \<and> optHeight ot' \<le> height t)"

lemma deletionI:
  "ok s' \<Longrightarrow> deletedTree n V t (view s') ot' \<Longrightarrow> optEntries ot' = es \<Longrightarrow> optHeight ot' \<le> height t \<Longrightarrow> r = Inr s' \<Longrightarrow>
   deletion ok view n V t es r"
  unfolding deletion_def by blast

context delete_store
begin

text \<open>The leaf has become empty, and it is the first of the tree.\<close>

lemma delete_emptied:
  assumes "ok s1" "svRoot (view s1) \<noteq> 0" and V: "rewritten {pid} V (view s1)"
    and t: "set (pids T) = crumbPids cs \<union> {pid}" "height (plug cs (Leaf pid [] [])) \<le> height T"
    and t1: "treeIn ps (view s1) (plug cs (Leaf pid [] []))" "list_all crumbOk cs" "\<forall>c \<in> set cs. crumbIdx c = 0" "length cs < fuel"
    and path: "parentPIDs path = map crumbId cs" "childIdxs path = map crumbIdx cs"
    and code: "r = (if svRoot (view s1) = pid then bindR (opSetRoot ops 0 s1) (opRelease ops pid)
      else bindR (bindR (removeChildFromParentChain ops fuel path (svRoot (view s1)) s1) (setNewRoot ops (svRoot (view s1))))
        (opRelease ops pid))"
  shows "deletion ok view ps V T (entriesAfter cs) r"
proof (cases "cs = []")
  case True
  have root: "svRoot (view s1) = pid" using treeIn_at(6) [OF t1(1)] by (simp add: True)
  have pu: "pid \<in> svUsed (view s1)" using treeIn_at(7) [OF t1(1)] by simp
  from clear_root [OF assms(1)] obtain s2 where s2: "opSetRoot ops 0 s1 = Inr s2" "ok s2" "view s2 = (view s1)\<lparr>svRoot := 0\<rparr>" by blast
  have pu2: "pid \<in> svUsed (view s2)" using pu by (simp add: s2(3))
  obtain s3 where r: "opRelease ops pid s2 = Inr s3" "ok s3" "svPage (view s3) = svPage (view s2)"
    "svRoot (view s3) = svRoot (view s2)" "svUsed (view s2) - {pid} \<subseteq> svUsed (view s3)"
    "svUsed (view s3) \<subseteq> svUsed (view s2)" "svRoom (view s2) \<le> svRoom (view s3)"
    "svWritten (view s3) = svWritten (view s2)" by (rule release_view [OF s2(2) pu2])
  have "optTree ps (view s1) (Some (Leaf pid [] []))" using t1(1) assms(2) by (simp add: optTree_Some True)
  then have "removal ps (view s1) (Leaf pid [] []) 0 (view s1) None" by (rule removal_empty) auto
  then have "deletedTree ps V T ((view s1)\<lparr>svRoot := 0\<rparr>) None"
    by (intro deletedTree_removal [OF V]) (use t(1) in \<open>simp_all add: True\<close>)
  then have "deletedTree ps V T (view s3) None"
    by (rule deletedTree_release [where p = pid]) (use t(1) r(3-7) in \<open>simp_all add: s2(3) optPids_def True\<close>)
  then show ?thesis
    by (intro deletionI [where ok = ok and view = view and ot' = None, OF r(2)])
      (use code root s2(1) r(1) in \<open>simp_all add: optEntries_def optHeight_def True\<close>)
next
  case False
  note at = treeIn_at [OF t1(1)]
  have "svRoot (view s1) \<in> crumbPids cs" unfolding at(6) by (rule plug_root [OF False])
  moreover have "pid \<notin> crumbPids cs" using at(5) by simp
  ultimately have root: "svRoot (view s1) \<noteq> pid" by blast
  have "crumbIdx (last cs) = 0" using t1(3) False by simp
  then have rm: "removeChildFromParentChain ops fuel path (svRoot (view s1)) s1 =
      removeInternalChild ops fuel (crumbId (last cs)) 0 (svRoot (view s1)) s1"
    using path False by (simp add: removeChildFromParentChain_def last_map)
  from remove_chain_ok [where root = "svRoot (view s1)", OF assms(1,2) t1(1,2) False t1(3,4)] obtain newRoot s2 ot' where R:
    "removeInternalChild ops fuel (crumbId (last cs)) 0 (svRoot (view s1)) s1 = Inr (newRoot, s2)" "ok s2"
    "removal ps (view s1) (plug cs (Leaf pid [] [])) newRoot (view s2) ot'" "pid \<in> svUsed (view s2)" "pid \<notin> optPids ot'"
    "optEntries ot' = entriesAfter cs" "optHeight ot' \<le> height (plug cs (Leaf pid [] []))"
    by (auto simp: emptiedChain_def)
  from setNewRoot_ok [OF R(2,3) assms(2)] obtain s3 where s3: "setNewRoot ops (svRoot (view s1)) (newRoot, s2) = Inr s3" "ok s3"
    "view s3 = (view s2)\<lparr>svRoot := newRoot\<rparr>" by blast
  have p3: "pid \<in> svUsed (view s3)" using R(4) by (simp add: s3(3))
  obtain s4 where r: "opRelease ops pid s3 = Inr s4" "ok s4" "svPage (view s4) = svPage (view s3)"
    "svRoot (view s4) = svRoot (view s3)" "svUsed (view s3) - {pid} \<subseteq> svUsed (view s4)"
    "svUsed (view s4) \<subseteq> svUsed (view s3)" "svRoom (view s3) \<le> svRoom (view s4)"
    "svWritten (view s4) = svWritten (view s3)" by (rule release_view [OF s3(2) p3])
  have "deletedTree ps V T (view s3) ot'" unfolding s3(3)
    by (rule deletedTree_removal [OF V _ _ R(3)]) (use t(1) in \<open>simp_all add: set_pids_plug\<close>)
  then have "deletedTree ps V T (view s4) ot'"
    by (rule deletedTree_release [where p = pid]) (use t(1) R(5) r(3-7) in simp_all)
  moreover have "r = Inr s4" using code root rm R(1) s3(1) r(1) by simp
  moreover have "optHeight ot' \<le> height T" using R(7) t(2) by (rule order_trans)
  ultimately show ?thesis using R(6)
    by (intro deletionI [where ok = ok and view = view, OF r(2)]) simp_all
qed

end

context delete_store
begin

text \<open>The separator above the leaf, when its first key went.\<close>

lemma raise_ok:
  assumes "ok s" "treeIn ps (view s) (plug cs (Leaf pid ks vs))" "list_all crumbOk cs" "c \<Longrightarrow> ks \<noteq> []"
  shows "((if c then cascadeNewMinToAncestors ops (rev (zip (map crumbId cs) (map crumbIdx cs))) (ks ! 0) root s else Inr s) =
      Inl (ErrCorruptTree ''internal page full'') \<and> \<not> slackCrumbs ps 512 cs) \<or>
    (\<exists>s' cs' P. (if c then cascadeNewMinToAncestors ops (rev (zip (map crumbId cs) (map crumbIdx cs))) (ks ! 0) root s else Inr s) =
        Inr s' \<and> ok s' \<and> treeIn ps (view s') (plug cs' (Leaf pid ks vs)) \<and> sameShape cs cs' \<and>
        rewritten P (view s) (view s') \<and> P \<subseteq> crumbPids cs)"
proof (cases c)
  case True
  then obtain m ms where ks: "ks = m # ms" using assms(4) by (cases ks) auto
  obtain lo hi where "treeOk ps lo hi (Leaf pid ks vs)" by (rule treeOk_plug [OF treeIn_at(4) [OF assms(2)] assms(3)]) (rule that)
  then have "length m \<le> maxKeyBytes" by (simp add: ks entriesOk_def)
  from cascade_ok [OF assms(1) assms(2) [unfolded ks] assms(3) this, of root] show ?thesis using True by (simp add: ks)
next
  case False
  moreover have "rewritten {} (view s) (view s)" by (simp add: rewritten_def changes_refl)
  ultimately show ?thesis using assms(1,2) sameShape_refl [OF assms(3)]
    by (intro disjI2 exI [of _ s] exI [of _ cs] exI [of _ "{}"]) simp
qed

lemma deleteEntry_ok:
  assumes "ok s" "svRoot (view s) \<noteq> 0" and t: "treeIn ps (view s) (plug cs (Leaf pid ks vs))" "list_all crumbOk cs"
    and i: "i < length ks" and p: "holePar None cs = None \<or> holePar None cs = Some p"
    and ld: "ld = \<lparr>leafNext = holeNext 0 cs, leafParent = p, leafKeys = ks, leafVals = vs\<rparr>"
    and path: "parentPIDs path = map crumbId cs" "childIdxs path = map crumbIdx cs"
    and "length cs < fuel" "length ks = 1 \<longrightarrow> (\<forall>c \<in> set cs. crumbIdx c = 0)"
  shows "deletion ok view ps (view s) (plug cs (Leaf pid ks vs))
    (entriesBefore cs @ take i (zip ks vs) @ drop (i + 1) (zip ks vs) @ entriesAfter cs) (deleteEntry ops fuel path pid ld i s)"
proof -
  let ?T = "plug cs (Leaf pid ks vs)"
  define ks' where "ks' = take i ks @ drop (i + 1) ks"
  define vs' where "vs' = take i vs @ drop (i + 1) vs"
  define ld' where "ld' = \<lparr>leafNext = holeNext 0 cs, leafParent = p, leafKeys = ks', leafVals = vs'\<rparr>"
  obtain pg s1 where w: "buildLeafPage ps p (holeNext 0 cs) ks' vs' = Inr pg" "opWrite ops pid pg s = Inr s1" "ok s1"
    "rewritten {pid} (view s) (view s1)" "treeIn ps (view s1) (plug cs (Leaf pid ks' vs'))"
    "svPage (view s1) pid = Inr pg" "parseLeafPage pg = Inr \<lparr>leafNext = holeNext 0 cs, leafParent = p, leafKeys = ks', leafVals = vs'\<rparr>"
    using write_without_ok [OF assms(1) t i p] unfolding ks'_def vs'_def by blast
  have root: "svRoot (view s1) = svRoot (view s)" using w(4) by (simp add: rewritten_def changes_def)
  obtain f where f: "fuel = Suc f" using assms(10) by (cases fuel) auto
  have len: "length vs = length ks"
  proof -
    obtain lo hi where "treeOk ps lo hi (Leaf pid ks vs)" by (rule treeOk_plug [OF treeIn_at(4) [OF t(1)] t(2)]) (rule that)
    then show ?thesis by (simp add: entriesOk_def)
  qed
  let ?es = "entriesBefore cs @ zip ks' vs' @ entriesAfter cs"
  have es: "entriesBefore cs @ take i (zip ks vs) @ drop (i + 1) (zip ks vs) @ entriesAfter cs = ?es"
    unfolding ks'_def vs'_def leafSize_without(2) [OF i len] by simp
  let ?asc = "if ks' \<noteq> [] \<and> i = 0 then cascadeNewMinToAncestors ops (rev (zip (map crumbId cs) (map crumbIdx cs))) (ks' ! 0) (svRoot (view s)) s1 else Inr s1"
  have ld'_eq: "ld\<lparr>leafKeys := take i (leafKeys ld) @ drop (i + 1) (leafKeys ld), leafVals := take i (leafVals ld) @ drop (i + 1) (leafVals ld)\<rparr> = ld'"
    by (simp add: ld ld'_def ks'_def vs'_def)
  have ld'_fields: "leafParent ld' = p" "leafNext ld' = holeNext 0 cs" "leafKeys ld' = ks'" "leafVals ld' = vs'"
    by (simp_all add: ld'_def)
  have code: "deleteEntry ops fuel path pid ld i s = bindR ?asc (\<lambda>s2.
      if ks' = [] then
        if svRoot (view s) = pid then bindR (opSetRoot ops 0 s2) (opRelease ops pid)
        else bindR (bindR (removeChildFromParentChain ops fuel path (svRoot (view s)) s2) (setNewRoot ops (svRoot (view s)))) (opRelease ops pid)
      else if svRoot (view s) = pid \<or> length ks' \<ge> minLeafKeysForPage ps then Inr s2
      else bindR (rebalanceLeaf ops fuel path pid ld' (svRoot (view s)) s2) (setNewRoot ops (svRoot (view s))))"
    unfolding deleteEntry_def Let_def ld'_eq using w(1,2) path by (simp add: ld'_fields read_root [OF w(3)] root)
  have cr: "ks' \<noteq> [] \<and> i = 0 \<Longrightarrow> ks' \<noteq> []" by simp
  from raise_ok [where root = "svRoot (view s)", OF w(3,5) t(2) cr]
  consider (full) "?asc = Inl (ErrCorruptTree ''internal page full'')" "\<not> slackCrumbs ps 512 cs"
    | (raised) s2 cs' P where "?asc = Inr s2" "ok s2" "treeIn ps (view s2) (plug cs' (Leaf pid ks' vs'))" "sameShape cs cs'"
      "rewritten P (view s1) (view s2)" "P \<subseteq> crumbPids cs" by metis
  then show ?thesis
  proof cases
    case full
    then have "deleteEntry ops fuel path pid ld i s = Inl (ErrCorruptTree ''internal page full'')" unfolding code by (simp only: bindR_Inr bindR_Inl)
    moreover have "\<not> slack ps 512 ?T" using full(2) by (simp add: slack_plug)
    ultimately show ?thesis by (simp add: deletion_def pageFull_def)
  next
    case raised
    let ?T2 = "plug cs' (Leaf pid ks' vs')"
    have sh: "map crumbId cs' = map crumbId cs" "map crumbIdx cs' = map crumbIdx cs" "entriesBefore cs' = entriesBefore cs"
      "entriesAfter cs' = entriesAfter cs" "crumbPids cs' = crumbPids cs" "\<And>u. height (plug cs' u) = height (plug cs u)"
      "slackCrumbs ps 512 cs \<longrightarrow> slackCrumbs ps 256 cs'" "list_all crumbOk cs'"
      using raised(4) by (simp_all add: sameShape_def)
    have lcs: "length cs' = length cs" using arg_cong [OF sh(1), of length] by simp
    have V2: "rewritten ({pid} \<union> P) (view s) (view s2)" by (rule rewritten_trans [OF w(4) raised(5)])
    have sub: "{pid} \<union> P \<subseteq> set (pids ?T)" using raised(6) by (auto simp: set_pids_plug)
    have ids: "set (pids ?T2) = set (pids ?T)" by (simp add: set_pids_plug sh(5))
    have root2: "svRoot (view s2) = svRoot (view s)" using V2 by (simp add: rewritten_def changes_def)
    have ht: "height ?T2 \<le> height ?T" by (simp add: sh(6) height_plug)
    have ent: "entries ?T2 = ?es" by (simp add: entries_plug sh(3,4))
    have path': "parentPIDs path = map crumbId cs'" "childIdxs path = map crumbIdx cs'" using path by (simp_all add: sh(1,2))
    have code2: "deleteEntry ops fuel path pid ld i s =
       (if ks' = [] then
          if svRoot (view s) = pid then bindR (opSetRoot ops 0 s2) (opRelease ops pid)
          else bindR (bindR (removeChildFromParentChain ops fuel path (svRoot (view s)) s2) (setNewRoot ops (svRoot (view s)))) (opRelease ops pid)
        else if svRoot (view s) = pid \<or> length ks' \<ge> minLeafKeysForPage ps then Inr s2
        else bindR (rebalanceLeaf ops fuel path pid ld' (svRoot (view s)) s2) (setNewRoot ops (svRoot (view s))))"
      unfolding code raised(1) by (simp only: bindR_Inr bindR_Inl)
    have T: "optTree ps (view s2) (Some ?T2)" using raised(3) assms(2) root2 by (simp add: optTree_Some)
    have nz: "svRoot (view s2) \<noteq> 0" using assms(2) root2 by simp
    show ?thesis unfolding es
    proof (cases "ks' = []")
      case True
      have "length ks' = length ks - 1" using i by (simp add: ks'_def)
      then have one: "length ks = 1" using True i by simp
      have vs': "vs' = []" using one len i by (auto simp: vs'_def)
      have zero: "\<forall>c \<in> set cs. crumbIdx c = 0" using assms(11) one by simp
      have "P \<union> {pid} \<subseteq> set (pids ?T)" using sub by blast
      have "s2 = s1" using raised(1) True by simp
      have "deletion ok view ps (view s) ?T (entriesAfter cs) (deleteEntry ops fuel path pid ld i s)"
      proof (rule delete_emptied [OF w(3) _ w(4) _ _ _ t(2) zero assms(10) path])
        show "set (pids ?T) = crumbPids cs \<union> {pid}" by (simp add: set_pids_plug)
        show "treeIn ps (view s1) (plug cs (Leaf pid [] []))" using w(5) True vs' by simp
        show "deleteEntry ops fuel path pid ld i s = (if svRoot (view s1) = pid then bindR (opSetRoot ops 0 s1) (opRelease ops pid)
          else bindR (bindR (removeChildFromParentChain ops fuel path (svRoot (view s1)) s1) (setNewRoot ops (svRoot (view s1))))
            (opRelease ops pid))" unfolding code2 root by (simp add: True \<open>s2 = s1\<close>)
      qed (simp_all add: root assms(2) height_plug)
      then show "deletion ok view ps (view s) ?T ?es (deleteEntry ops fuel path pid ld i s)"
        using True vs' entriesBefore_zero [OF zero] by simp
    next
      case ne: False
      show "deletion ok view ps (view s) ?T ?es (deleteEntry ops fuel path pid ld i s)"
      proof (cases "svRoot (view s) = pid \<or> length ks' \<ge> minLeafKeysForPage ps")
        case True
        have "deletedTree ps (view s) ?T ((view s2)\<lparr>svRoot := svRoot (view s2)\<rparr>) (Some ?T2)"
          by (rule deletedTree_removal [OF V2 sub ids removal_same [OF raised(3) nz]])
        then have "deletedTree ps (view s) ?T (view s2) (Some ?T2)" by simp
        then show ?thesis
          by (rule deletionI [where ok = ok and view = view, OF raised(2)])
            (use ne True ent ht code2 in \<open>simp_all add: optEntries_def optHeight_def\<close>)
      next
        case False
        have "cs \<noteq> []"
        proof
          assume "cs = []"
          then show False using False treeIn_at(6) [OF t(1)] by simp
        qed
        then have ncs: "cs' \<noteq> []" using lcs by auto
        have pp: "pid \<notin> P" using raised(6) treeIn_at(5) [OF t(1)] by auto
        have "svPage (view s2) pid = Inr pg" using raised(5) pp w(6) by (simp add: rewritten_def changes_def)
        note links = hole_links [OF raised(3) this w(7)]
        have ld'': "ld' = \<lparr>leafNext = holeNext 0 cs', leafParent = p, leafKeys = ks', leafVals = vs'\<rparr>"
          by (simp add: ld'_def links(1))
        have "rebalanced ok view ps (view s2) ?T2 (rebalanceLeaf ops (Suc f) path pid ld' (svRoot (view s2)) s2)"
          by (rule rebalanceLeaf_ok [OF raised(2) nz raised(3) sh(8) ncs ne ld'' links(2) [OF ncs] path'])
        then consider (e) e where "rebalanceLeaf ops fuel path pid ld' (svRoot (view s)) s2 = Inl e" "pageFull e" "\<not> slack ps 256 ?T2"
          | (r) newRoot s3 t' where "rebalanceLeaf ops fuel path pid ld' (svRoot (view s)) s2 = Inr (newRoot, s3)" "ok s3"
            "removal ps (view s2) ?T2 newRoot (view s3) (Some t')" "entries t' = entries ?T2" "height t' \<le> height ?T2"
          unfolding rebalanced_def f root2 by blast
        then show ?thesis
        proof cases
          case e
          have "\<not> slack ps 512 ?T"
          proof
            assume "slack ps 512 ?T"
            then have "slackCrumbs ps 256 cs'" "leafSerializedSize ks vs + 4 + maxKeyBytes + inlineThreshold ps \<le> ps"
              using sh(7) by (simp_all add: slack_plug)
            moreover have "leafSerializedSize ks' vs' \<le> leafSerializedSize ks vs"
              unfolding ks'_def vs'_def by (rule leafSize_without(1) [OF i len])
            ultimately show False using e(3) by (simp add: slack_plug)
          qed
          moreover have "deleteEntry ops fuel path pid ld i s = Inl e" using code2 e(1) ne False by simp
          ultimately show ?thesis using e(2) by (simp add: deletion_def)
        next
          case r
          from setNewRoot_ok [OF r(2,3) nz] obtain s4 where s4: "setNewRoot ops (svRoot (view s)) (newRoot, s3) = Inr s4" "ok s4"
            "view s4 = (view s3)\<lparr>svRoot := newRoot\<rparr>" unfolding root2 by blast
          have "deletedTree ps (view s) ?T (view s4) (Some t')" unfolding s4(3) by (rule deletedTree_removal [OF V2 sub ids r(3)])
          then show ?thesis
            by (rule deletionI [where ok = ok and view = view, OF s4(2)])
              (use ne False ent ht code2 r(1,4,5) s4(1) in \<open>simp_all add: optEntries_def optHeight_def\<close>)
        qed
      qed
    qed
  qed
qed

end

subsection \<open>Delete on the map\<close>

text \<open>
  The key is the only one of a leaf other than the first. The bug of \<open>Unlinked_leaf_stays_linked\<close>
  needs such a leaf.
\<close>

definition aloneInLeaf :: "btree option \<Rightarrow> bytes \<Rightarrow> bool" where
  "aloneInLeaf ot key = (case ot of None \<Rightarrow> False | Some t \<Rightarrow> list_ex (\<lambda>(pid, ks, vs). ks = [key]) (tl (leaves t)))"

lemma leaves_nonempty:
  "treeOk n lo hi t \<Longrightarrow> leaves t \<noteq> []" "treesOk n lo hi ks ts \<Longrightarrow> \<forall>u \<in> set ts. leaves u \<noteq> []"
proof (induction n lo hi t and n lo hi ks ts rule: treeOk_treesOk.induct)
  case (2 n lo hi pid ks ts)
  then have tr: "treesOk n lo hi ks ts" by simp
  then obtain t ts' where "ts = t # ts'" using treesOk_length [OF tr] by (cases ts) auto
  then show ?case using 2 by simp
qed auto

lemma alone_first:
  assumes "treeOk n lo hi (plug cs (Leaf pid [key] vs))" "list_all crumbOk cs"
    and "(pid, [key], vs) \<notin> set (tl (leaves (plug cs (Leaf pid [key] vs))))"
  shows "\<forall>c \<in> set cs. crumbIdx c = 0"
  using assms
proof (induction cs arbitrary: lo hi)
  case (Cons c cs)
  obtain q ks1 ks2 ts1 ts2 where c: "c = (q, ks1, ks2, ts1, ts2)" by (cases c) auto
  let ?t = "plug cs (Leaf pid [key] vs)"
  have tr: "treesOk n lo hi (ks1 @ ks2) (ts1 @ ?t # ts2)" "length ts1 = length ks1" using Cons.prems(1,2) by (simp_all add: c)
  have "(pid, [key], vs) \<in> set (leaves (plug cs' (Leaf pid [key] vs)))" for cs'
    by (induction cs' rule: entriesBefore.induct) simp_all
  then have mem: "(pid, [key], vs) \<in> set (leaves ?t)" .
  have ts1: "ts1 = []"
  proof (rule ccontr)
    assume "ts1 \<noteq> []"
    then obtain u us where u: "ts1 = u # us" by (cases ts1) auto
    then have "leaves u \<noteq> []" using leaves_nonempty(2) [OF tr(1)] by simp
    then have "(pid, [key], vs) \<in> set (tl (leaves (plug (c # cs) (Leaf pid [key] vs))))"
      using mem by (simp add: c u tl_append split: list.split)
    then show False using Cons.prems(3) by simp
  qed
  obtain lo' hi' where t: "treeOk n lo' hi' ?t" by (rule treesOk_at [OF tr]) (rule that)
  have "leaves ?t \<noteq> []" using mem by auto
  then have "(pid, [key], vs) \<notin> set (tl (leaves ?t))" using Cons.prems(3) by (auto simp: c ts1 tl_append split: list.splits)
  then show ?case using Cons.IH [OF t] Cons.prems(2) by (simp add: c ts1)
qed simp

lemma map_of_without:
  assumes "key \<notin> fst ` set A" "key \<notin> fst ` set B" "distinct (map fst z)" "i < length z" "fst (z ! i) = key"
  shows "map_of (A @ take i z @ drop (i + 1) z @ B) = (map_of (A @ z @ B))(key := None)"
proof
  fix k
  have z: "z = take i z @ z ! i # drop (i + 1) z" using id_take_nth_drop [OF assms(4)] by simp
  have "distinct (map fst (take i z @ z ! i # drop (i + 1) z))" using assms(3) z by simp
  then have "key \<notin> fst ` set (take i z)" "key \<notin> fst ` set (drop (i + 1) z)" using assms(5) by auto
  then have "map_of (take i z) key = None" "map_of (drop (i + 1) z) key = None" by (simp_all add: map_of_eq_None_iff)
  moreover have "map_of A key = None" "map_of B key = None" using assms(1,2) by (simp_all add: map_of_eq_None_iff)
  moreover have "map_of (A @ z @ B) k = map_of (A @ (take i z @ z ! i # drop (i + 1) z) @ B) k" using z by simp
  moreover obtain v where "z ! i = (key, v)" using assms(5) by (cases "z ! i") auto
  ultimately show "map_of (A @ take i z @ drop (i + 1) z @ B) k = ((map_of (A @ z @ B))(key := None)) k"
    by (cases "k = key") (simp_all add: map_add_def split: option.split)
qed

context delete_store
begin

lemma releaseDeleted_ok:
  assumes "ok s" "storedData (svPage (view s)) ps raw qs data" "set qs \<subseteq> svUsed (view s)" "distinct qs" "length qs < fuel"
  shows "\<exists>s'. releaseDeletedOverflow ops fuel raw s = Inr s' \<and> ok s' \<and> svPage (view s') = svPage (view s) \<and>
    svRoot (view s') = svRoot (view s) \<and> svUsed (view s) - set qs \<subseteq> svUsed (view s') \<and>
    svUsed (view s') \<subseteq> svUsed (view s) \<and> svRoom (view s) \<le> svRoom (view s')"
proof (cases "isOverflowStub raw")
  case True
  with assms(2) have d: "decodeOverflowStub raw = (of_nat (length data), firstID qs)" "chainAt (svPage (view s)) ps qs data"
    by (simp_all add: storedData_def)
  from freeOverflowChain_ok [OF assms(1) d(2) assms(3-5)] show ?thesis using True d(1) by (simp add: releaseDeletedOverflow_def)
next
  case False
  then show ?thesis using assms(1) by (auto simp: releaseDeletedOverflow_def)
qed

lemma Delete_absent:
  assumes "dbRep ps fl (view s) ot C M" "map_of (optEntries ot) key = None"
  shows "dbRep ps fl (view s) ot (C(key := [])) (M(key := None))"
proof -
  have "C(key := []) = C" "M(key := None) = M" using dbRep_no_entry [OF assms] by auto
  then show ?thesis using assms(1) by simp
qed

end

lemma storedData_kept:
  "storedData rd n raw qs data \<Longrightarrow> (\<And>p. p \<in> set qs \<Longrightarrow> rd' p = rd p) \<Longrightarrow> storedData rd' n raw qs data"
  using chainAt_cong [of qs rd' rd] by (auto simp: storedData_def split: if_splits)

text \<open>The map after its key's pages and its entry went.\<close>

lemma dbRep_deleted:
  assumes "dbRep n fl V (Some t) C M" "svPage V1 = svPage V" "svUsed V - set (C key) \<subseteq> svUsed V1"
    and d: "deletedTree n V1 t V2 ot'" and e: "map_of (optEntries ot') = (map_of (entries t))(key := None)"
  shows "dbRep n fl V2 ot' (C(key := [])) (M(key := None))"
proof -
  have C: "distinct (C k)" "set (C k) \<subseteq> svUsed V" "set (C k) \<inter> set (pids t) = {}" for k
    using assms(1) by (auto simp: dbRep_def optPids_def)
  have Cdis: "k \<noteq> k' \<Longrightarrow> set (C k) \<inter> set (C k') = {}" for k k' using assms(1) by (simp add: dbRep_def)
  have D: "optTree n V2 ot'" "optPids ot' \<subseteq> set (pids t)" "\<forall>p. p \<notin> set (pids t) \<longrightarrow> svPage V2 p = svPage V p"
    "svUsed V1 - set (pids t) \<subseteq> svUsed V2"
    using d assms(2) by (auto simp: deletedTree_def)
  have keep: "set (C k) \<subseteq> svUsed V2 - optPids ot'" if "k \<noteq> key" for k
    using C(2,3) [of k] Cdis [OF that] D(2,4) assms(3) by blast
  show ?thesis unfolding dbRep_def
  proof (intro conjI allI impI)
    show "optTree n V2 ot'" by (rule D(1))
    fix k
    show "case map_of (optEntries ot') k of
        None \<Rightarrow> (M(key := None)) k = None \<and> (C(key := [])) k = []
      | Some raw \<Rightarrow> \<exists>data v. storedData (svPage V2) n raw ((C(key := [])) k) data \<and>
          unpackValue fl data = Inr v \<and> (M(key := None)) k = Some v"
    proof (cases "k = key")
      case False
      show ?thesis
      proof (cases "map_of (entries t) k")
        case None
        then have "map_of (optEntries (Some t)) k = None" by (simp add: optEntries_def)
        then show ?thesis using False None dbRep_no_entry [OF assms(1), of k] by (simp add: e)
      next
        case (Some raw)
        then have "map_of (optEntries (Some t)) k = Some raw" by (simp add: optEntries_def)
        then obtain data v where "storedData (svPage V) n raw (C k) data" "unpackValue fl data = Inr v" "M k = Some v"
          by (rule dbRep_entry [OF assms(1)])
        moreover have "storedData (svPage V2) n raw (C k) data"
          by (rule storedData_kept [OF calculation(1)]) (use C(3) [of k] D(3) in blast)
        ultimately show ?thesis using False Some by (auto simp: e)
      qed
    qed (simp add: e)
    show "distinct ((C(key := [])) k)" using C(1) by simp
    show "set ((C(key := [])) k) \<subseteq> svUsed V2 - optPids ot'" using keep [of k] by auto
    fix k' assume "k \<noteq> k'"
    then show "set ((C(key := [])) k) \<inter> set ((C(key := [])) k') = {}" using Cdis [of k k'] by auto
  qed
qed

context delete_store
begin

lemma Delete_ok:
  assumes "ok s" "dbRep ps fl (view s) ot C M" "length key \<le> maxKeyBytes" "optHeight ot < fuel" "length (C key) < fuel"
    and "\<not> aloneInLeaf ot key"
  shows "(\<exists>e t. Delete ops fuel key s = Inl e \<and> pageFull e \<and> ot = Some t \<and> \<not> slack ps 512 t) \<or>
    (\<exists>s' ot'. Delete ops fuel key s = Inr s' \<and> ok s' \<and> dbRep ps fl (view s') ot' (C(key := [])) (M(key := None)) \<and>
      optHeight ot' \<le> optHeight ot \<and> svRoom (view s) \<le> svRoom (view s'))"
proof (cases ot)
  case None
  then have "svRoot (view s) = 0" using assms(2) by (simp add: dbRep_def optTree_def)
  then have "Delete ops fuel key s = Inr s" using assms(3) by (simp add: Delete_def read_root [OF assms(1)])
  moreover have "dbRep ps fl (view s) ot (C(key := [])) (M(key := None))"
    by (rule Delete_absent [OF assms(2)]) (simp add: None optEntries_def)
  ultimately show ?thesis using assms(1) by blast
next
  case (Some t)
  have rep: "dbRep ps fl (view s) (Some t) C M" using assms(2) by (simp add: Some)
  have ot: "optTree ps (view s) (Some t)" using rep by (simp add: dbRep_def)
  then have t: "treeIn ps (view s) t" "svRoot (view s) \<noteq> 0" by (simp_all add: optTree_def)
  have C: "distinct (C k)" "set (C k) \<subseteq> svUsed (view s)" "set (C k) \<inter> set (pids t) = {}" for k
    using rep by (auto simp: dbRep_def optPids_def)
  have at: "treeAt ps 0 [] None (view s) t" "svRoot (view s) = rootId t" using t(1) by (simp_all add: treeIn_def treeAt_def)
  have ht: "height t < fuel" using assms(4) by (simp add: Some optHeight_def)
  from findLeafWithKey_ok [OF assms(1) at(1) within_all ht, of key "\<lparr>parentPIDs = [], childIdxs = []\<rparr>"] obtain cs pid ks vs where F:
    "t = plug cs (Leaf pid ks vs)" "list_all crumbOk cs"
    "findLeafWithKey ops fuel s (rootId t) key \<lparr>parentPIDs = [], childIdxs = []\<rparr> = Inr (if key \<in> set ks then
      Some (\<lparr>parentPIDs = map crumbId cs, childIdxs = map crumbIdx cs\<rparr>, pid, leafKeyIndex ks key) else None)"
    "key \<notin> fst ` set (entriesBefore cs)" "key \<notin> fst ` set (entriesAfter cs)" by auto
  have tin: "treeIn ps (view s) (plug cs (Leaf pid ks vs))" using t(1) by (simp add: F(1))
  obtain lo hi where "treeOk ps lo hi (Leaf pid ks vs)" by (rule treeOk_plug [OF treeIn_at(4) [OF tin] F(2)]) (rule that)
  then have eo: "entriesOk ps ks vs" by simp
  then have len: "length vs = length ks" and srt: "sorted_wrt (<) ks" by (simp_all add: entriesOk_def)
  let ?path = "\<lparr>parentPIDs = map crumbId cs, childIdxs = map crumbIdx cs\<rparr>" and ?i = "leafKeyIndex ks key"
  show ?thesis
  proof (cases "key \<in> set ks")
    case False
    then have "map_of (entries t) key = None"
      using F(4,5) by (auto simp: F(1) entries_plug map_of_eq_None_iff dest: set_zip_leftD)
    then have "dbRep ps fl (view s) ot (C(key := [])) (M(key := None))"
      by (intro Delete_absent [OF assms(2)]) (simp add: Some optEntries_def)
    moreover have "Delete ops fuel key s = Inr s"
      using assms(3) t(2) F(3) False at(2) by (simp add: Delete_def read_root [OF assms(1)])
    ultimately show ?thesis using assms(1) by blast
  next
    case True
    then have i: "?i < length ks" "ks ! ?i = key" using leafKeyIndex_found [OF srt, of key] by simp_all
    have r: "rep (svPage (view s)) ps (holeNext 0 cs) (holePar None cs) (Leaf pid ks vs)" by (rule treeIn_at(1) [OF tin])
    then obtain page p where page: "svPage (view s) pid = Inr page"
      "parseLeafPage page = Inr \<lparr>leafNext = holeNext 0 cs, leafParent = p, leafKeys = ks, leafVals = vs\<rparr>"
      "holePar None cs = None \<or> holePar None cs = Some p" by (auto simp: leafAt_def)
    let ?ld = "\<lparr>leafNext = holeNext 0 cs, leafParent = p, leafKeys = ks, leafVals = vs\<rparr>"
    have pu: "pid \<in> svUsed (view s)" using treeIn_at(7) [OF tin] by simp
    have dz: "distinct (map fst (zip ks vs))" using len srt by (simp add: strict_sorted_iff)
    have z: "?i < length (zip ks vs)" "fst (zip ks vs ! ?i) = key" using i len by simp_all
    have "zip ks vs ! ?i = (key, vs ! ?i)" using i len by simp
    then have "(key, vs ! ?i) \<in> set (zip ks vs)" using nth_mem [OF z(1)] by simp
    then have "map_of (zip ks vs) key = Some (vs ! ?i)" using map_of_is_SomeI [OF dz] by blast
    moreover have "map_of (entriesBefore cs) key = None" using F(4) by (simp add: map_of_eq_None_iff)
    moreover have "map_of (entriesAfter cs) key = None" using F(5) by (simp add: map_of_eq_None_iff)
    ultimately have raw: "map_of (optEntries (Some t)) key = Some (vs ! ?i)"
      by (simp add: F(1) optEntries_def entries_plug map_add_def)
    obtain data v where data: "storedData (svPage (view s)) ps (vs ! ?i) (C key) data" by (rule dbRep_entry [OF rep raw])
    from releaseDeleted_ok [OF assms(1) data C(2) C(1) assms(5)] obtain s1 where s1:
      "releaseDeletedOverflow ops fuel (vs ! ?i) s = Inr s1" "ok s1" "svPage (view s1) = svPage (view s)"
      "svRoot (view s1) = svRoot (view s)" "svUsed (view s) - set (C key) \<subseteq> svUsed (view s1)"
      "svUsed (view s1) \<subseteq> svUsed (view s)" "svRoom (view s) \<le> svRoom (view s1)" by blast
    have "optPids (Some t) \<subseteq> svUsed (view s1)" using optTree_used [OF ot] C(3) [of key] s1(5) by (auto simp: optPids_def)
    then have "optTree ps (view s1) (Some t)" by (intro optTree_keep [OF ot]) (simp_all add: s1(3,4))
    then have t1: "treeIn ps (view s1) (plug cs (Leaf pid ks vs))" "svRoot (view s1) \<noteq> 0" by (simp_all add: optTree_def F(1))
    have lcs: "length cs < fuel" using height_plug_hole [of "Leaf pid ks vs" cs] ht by (simp add: F(1))
    have first: "length ks = 1 \<longrightarrow> (\<forall>c \<in> set cs. crumbIdx c = 0)"
    proof
      assume "length ks = 1"
      then have k: "ks = [key]" using i by (auto simp: length_Suc_conv)
      have "treeOk ps [] None (plug cs (Leaf pid [key] vs))" using treeIn_at(4) [OF tin] by (simp add: k)
      moreover have "(pid, [key], vs) \<notin> set (tl (leaves (plug cs (Leaf pid [key] vs))))"
        using assms(6) by (auto simp: aloneInLeaf_def Some F(1) k list_ex_iff)
      ultimately show "\<forall>c \<in> set cs. crumbIdx c = 0" using alone_first F(2) by blast
    qed
    have code: "Delete ops fuel key s = deleteEntry ops fuel ?path pid ?ld ?i s1"
      using assms(3) t(2) F(3) True at(2) page(1,2) pu s1(1)
      by (simp add: Delete_def read_root [OF assms(1)] read_page [OF assms(1)])
    have "deletion ok view ps (view s1) t (entriesBefore cs @ take ?i (zip ks vs) @ drop (?i + 1) (zip ks vs) @ entriesAfter cs)
        (Delete ops fuel key s)"
      unfolding code F(1) by (rule deleteEntry_ok [OF s1(2) t1(2,1) F(2) i(1) page(3) refl _ _ lcs first]) simp_all
    then consider (e) e where "Delete ops fuel key s = Inl e" "pageFull e" "\<not> slack ps 512 t"
      | (d) s' ot' where "Delete ops fuel key s = Inr s'" "ok s'" "deletedTree ps (view s1) t (view s') ot'"
        "optEntries ot' = entriesBefore cs @ take ?i (zip ks vs) @ drop (?i + 1) (zip ks vs) @ entriesAfter cs"
        "optHeight ot' \<le> height t" unfolding deletion_def by blast
    then show ?thesis
    proof cases
      case e
      then show ?thesis using Some by blast
    next
      case d
      have "map_of (optEntries ot') = (map_of (entries t))(key := None)"
        unfolding d(4) F(1) entries_plug using map_of_without [OF F(4,5) dz z] by simp
      then have "dbRep ps fl (view s') ot' (C(key := [])) (M(key := None))"
        by (rule dbRep_deleted [OF rep s1(3,5) d(3)])
      moreover have "svRoom (view s) \<le> svRoom (view s')" using s1(7) d(3) by (simp add: deletedTree_def)
      ultimately show ?thesis using d(1,2,5) by (auto simp: Some optHeight_def)
    qed
  qed
qed

end

subsection \<open>Where Delete goes wrong\<close>

text \<open>A key has one leaf, at one place.\<close>

lemma hole_entries: "set (entries u) \<subseteq> set (entries (plug cs u))"
  by (auto simp: entries_plug)

lemma append_middle:
  assumes "xs @ x # ys = xs' @ x' # ys'"
  shows "xs = xs' \<and> x = x' \<and> ys = ys' \<or> x \<in> set xs' \<or> x' \<in> set xs"
proof -
  consider "length xs = length xs'" | "length xs < length xs'" | "length xs' < length xs" by linarith
  then show ?thesis
  proof cases
    case 1
    then show ?thesis using assms by simp
  next
    case 2
    have "(xs' @ x' # ys') ! length xs = x" using assms [symmetric] by simp
    then have "x \<in> set xs'" using 2 by (auto simp: nth_append in_set_conv_nth)
    then show ?thesis by blast
  next
    case 3
    have "(xs @ x # ys) ! length xs' = x'" using assms by simp
    then have "x' \<in> set xs" using 3 by (auto simp: nth_append in_set_conv_nth)
    then show ?thesis by blast
  qed
qed

lemma plug_unique:
  assumes "plug cs (Leaf p ks vs) = plug ds (Leaf p' ks' vs')" "list_all crumbOk cs" "list_all crumbOk ds"
    and "key \<in> fst ` set (zip ks vs)" "key \<in> fst ` set (zip ks' vs')"
    and "key \<notin> fst ` set (entriesBefore cs)" "key \<notin> fst ` set (entriesBefore ds)"
  shows "cs = ds \<and> p = p' \<and> ks = ks' \<and> vs = vs'"
  using assms
proof (induction cs arbitrary: ds)
  case Nil
  then show ?case by (cases ds rule: crumbPids.cases) auto
next
  case (Cons c cs)
  obtain q a1 a2 t1 t2 where c: "c = (q, a1, a2, t1, t2)" by (cases c) auto
  obtain d ds' where ds: "ds = d # ds'" using Cons.prems(1) by (cases ds) (auto simp: c)
  obtain q' b1 b2 u1 u2 where d: "d = (q', b1, b2, u1, u2)" by (cases d) auto
  let ?x = "plug cs (Leaf p ks vs)" and ?y = "plug ds' (Leaf p' ks' vs')"
  have eq: "q = q'" "a1 @ a2 = b1 @ b2" "t1 @ ?x # t2 = u1 @ ?y # u2" using Cons.prems(1) by (simp_all add: c d ds)
  have len: "length t1 = length a1" "length u1 = length b1" using Cons.prems(2,3) by (simp_all add: c d ds)
  have kx: "key \<in> fst ` set (entries ?x)" using Cons.prems(4) hole_entries [of "Leaf p ks vs" cs] by auto
  have ky: "key \<in> fst ` set (entries ?y)" using Cons.prems(5) hole_entries [of "Leaf p' ks' vs'" ds'] by auto
  have "?x \<notin> set u1" using kx Cons.prems(7) by (auto simp: d ds)
  moreover have "?y \<notin> set t1" using ky Cons.prems(6) by (auto simp: c)
  ultimately have m: "t1 = u1" "?x = ?y" "t2 = u2" using append_middle [OF eq(3)] by blast+
  have "a1 = b1" "a2 = b2" using eq(2) len m(1) by auto
  moreover have "cs = ds' \<and> p = p' \<and> ks = ks' \<and> vs = vs'"
    by (rule Cons.IH [OF m(2)]) (use Cons.prems(2-5) in \<open>simp_all add: c d ds\<close>, use Cons.prems(6,7) in \<open>auto simp: c d ds image_Un\<close>)
  ultimately show ?case using eq(1) m by (simp add: c d ds)
qed

context delete_store
begin

text \<open>\<open>Delete\<close> of a key that is in the tree, and whose value is in its leaf.\<close>

lemma Delete_code:
  assumes "ok s" "optTree ps (view s) (Some (plug cs (Leaf pid ks vs)))" "list_all crumbOk cs" "length key \<le> maxKeyBytes"
    and "height (plug cs (Leaf pid ks vs)) < fuel" "i < length ks" "ks ! i = key" "\<not> isOverflowStub (vs ! i)"
  obtains p where "Delete ops fuel key s = deleteEntry ops fuel
      \<lparr>parentPIDs = map crumbId cs, childIdxs = map crumbIdx cs\<rparr> pid
      \<lparr>leafNext = holeNext 0 cs, leafParent = p, leafKeys = ks, leafVals = vs\<rparr> i s"
    "holePar None cs = None \<or> holePar None cs = Some p"
proof -
  let ?t = "plug cs (Leaf pid ks vs)"
  have t: "treeIn ps (view s) ?t" "svRoot (view s) \<noteq> 0" using assms(2) by (simp_all add: optTree_def)
  have at: "treeAt ps 0 [] None (view s) ?t" "svRoot (view s) = rootId ?t" using t(1) by (simp_all add: treeIn_def treeAt_def)
  have dist: "distinct (map fst (entries ?t))" using t(1) treeOk_sorted(1) by (auto simp: treeIn_def strict_sorted_iff)
  from findLeafWithKey_ok [OF assms(1) at(1) within_all assms(5), of key "\<lparr>parentPIDs = [], childIdxs = []\<rparr>"] obtain ds pid' ks' vs' where F:
    "?t = plug ds (Leaf pid' ks' vs')" "list_all crumbOk ds"
    "findLeafWithKey ops fuel s (rootId ?t) key \<lparr>parentPIDs = [], childIdxs = []\<rparr> = Inr (if key \<in> set ks' then
      Some (\<lparr>parentPIDs = map crumbId ds, childIdxs = map crumbIdx ds\<rparr>, pid', leafKeyIndex ks' key) else None)"
    "key \<notin> fst ` set (entriesBefore ds)" "key \<notin> fst ` set (entriesAfter ds)" by auto
  obtain lo hi where "treeOk ps lo hi (Leaf pid ks vs)" by (rule treeOk_plug [OF treeIn_at(4) [OF t(1)] assms(3)]) (rule that)
  then have e: "length vs = length ks" "sorted_wrt (<) ks" by (simp_all add: entriesOk_def)
  have zi: "zip ks vs ! i = (key, vs ! i)" "i < length (zip ks vs)" using assms(6,7) e(1) by simp_all
  have kz: "key \<in> fst ` set (zip ks vs)" using nth_mem [OF zi(2)] zi(1) by force
  have "key \<in> fst ` set (entries ?t)" using kz hole_entries [of "Leaf pid ks vs" cs] by auto
  then have kz': "key \<in> fst ` set (zip ks' vs')" using F(4,5) by (auto simp: F(1) entries_plug)
  have "key \<notin> fst ` set (entriesBefore cs)" using dist kz by (auto simp: entries_plug)
  from plug_unique [OF F(1) assms(3) F(2) kz kz' this F(4)] have eq: "cs = ds" "pid = pid'" "ks = ks'" "vs = vs'" by simp_all
  have ki: "leafKeyIndex ks key = i"
  proof -
    have "key \<in> set ks" using assms(6,7) nth_mem by blast
    then have "leafKeyIndex ks key < length ks" "ks ! leafKeyIndex ks key = key" using leafKeyIndex_found [OF e(2)] by blast+
    moreover have "distinct ks" using e(2) by (simp add: strict_sorted_iff)
    ultimately show ?thesis using assms(6,7) nth_eq_iff_index_eq by metis
  qed
  have r: "rep (svPage (view s)) ps (holeNext 0 cs) (holePar None cs) (Leaf pid ks vs)" by (rule treeIn_at(1) [OF t(1)])
  then obtain page p where page: "svPage (view s) pid = Inr page"
    "parseLeafPage page = Inr \<lparr>leafNext = holeNext 0 cs, leafParent = p, leafKeys = ks, leafVals = vs\<rparr>"
    "holePar None cs = None \<or> holePar None cs = Some p" by (auto simp: leafAt_def)
  have "key \<in> set ks" using assms(6,7) nth_mem by blast
  moreover have "pid \<in> svUsed (view s)" using treeIn_at(7) [OF t(1)] by simp
  ultimately show thesis
    using assms(4,8) t(2) F(3) at(2) page(1,2) ki
    by (intro that [OF _ page(3)])
      (simp add: Delete_def read_root [OF assms(1)] read_page [OF assms(1)] releaseDeletedOverflow_def eq [symmetric])
qed

end

context delete_store
begin

text \<open>An emptied leaf with a leaf to its left: the page of that leaf stays as it is.\<close>

lemma Delete_unlinked:
  fixes as q ks1 k ks2 ts1 l lks lvs pid key val ts2
  defines "t \<equiv> plug as (Node q (ks1 @ k # ks2) (ts1 @ Leaf l lks lvs # Leaf pid [key] [val] # ts2))"
  assumes "ok s" "optTree ps (view s) (Some t)" "list_all crumbOk as" "length ts1 = length ks1" "length key \<le> maxKeyBytes"
    and "height t < fuel" "\<not> isOverflowStub val" "as \<noteq> [] \<or> ts1 \<noteq> [] \<or> ts2 \<noteq> []"
  obtains s1 s' page pg where "Delete ops fuel key s = Inr s'" "opRelease ops pid s1 = Inr s'" "ok s'"
    "svPage (view s') l = Inr page" "mapR leafNext (parseLeafPage page) = Inr pid"
    "svPage (view s') q = Inr pg" "mapR inPtrs (parseInternalPage pg) = Inr (map rootId (ts1 @ Leaf l lks lvs # ts2))"
    "pid \<notin> set (map rootId (ts1 @ Leaf l lks lvs # ts2))"
proof -
  let ?L = "Leaf l lks lvs" and ?cs = "as @ [(q, ks1 @ [k], ks2, ts1 @ [Leaf l lks lvs], ts2)]"
  let ?ptrs = "map rootId (ts1 @ ?L # Leaf pid [key] [val] # ts2)"
  have t: "t = plug ?cs (Leaf pid [key] [val])" by (simp add: t_def)
  have oks: "list_all crumbOk ?cs" using assms(4,5) by simp
  obtain p where code: "Delete ops fuel key s = deleteEntry ops fuel
      \<lparr>parentPIDs = map crumbId ?cs, childIdxs = map crumbIdx ?cs\<rparr> pid
      \<lparr>leafNext = holeNext 0 ?cs, leafParent = p, leafKeys = [key], leafVals = [val]\<rparr> 0 s"
    "holePar None ?cs = None \<or> holePar None ?cs = Some p"
    by (rule Delete_code [OF assms(2) assms(3) [unfolded t] oks assms(6) assms(7) [unfolded t], of 0]) (use assms(8) in simp_all)
  have tin: "treeIn ps (view s) (plug ?cs (Leaf pid [key] [val]))" "svRoot (view s) \<noteq> 0"
    using assms(3) unfolding t optTree_Some by blast+
  obtain pg0 s1 where w: "buildLeafPage ps p (holeNext 0 ?cs) [] [] = Inr pg0" "opWrite ops pid pg0 s = Inr s1" "ok s1"
    "rewritten {pid} (view s) (view s1)" "treeIn ps (view s1) (plug ?cs (Leaf pid [] []))"
    by (rule write_without_ok [OF assms(2) tin(1) oks, of 0 p]) (use code(2) in simp_all)
  have T1: "treeIn ps (view s1) (plug as (Node q (ks1 @ k # ks2) (ts1 @ ?L # Leaf pid [] [] # ts2)))" using w(5) by simp
  note at = treeIn_at [OF T1]
  have root: "svRoot (view s1) = svRoot (view s)" using w(4) by (simp add: rewritten_def changes_def)
  have dist: "distinct (pids (Node q (ks1 @ k # ks2) (ts1 @ ?L # Leaf pid [] [] # ts2)))" by (rule at(2))
  have node: "nodeAt (svPage (view s1)) ps (holePar None as) q (ks1 @ k # ks2) ?ptrs" using at(1) by simp
  obtain page parent where page: "svPage (view s1) q = Inr page"
    "parseInternalPage page = Inr \<lparr>inParent = parent, inPtrs = ?ptrs, inKeys = ks1 @ k # ks2\<rparr>"
    using node by (auto simp: nodeAt_def)
  have used: "q \<in> svUsed (view s1)" "pid \<in> svUsed (view s1)" using at(7) by simp_all
  obtain lo hi where "treeOk ps lo hi (Node q (ks1 @ k # ks2) (ts1 @ ?L # Leaf pid [] [] # ts2))"
    by (rule treeOk_plug [OF at(4) assms(4)]) (rule that)
  then have tr: "treesOk ps lo hi (ks1 @ k # ks2) (ts1 @ ?L # Leaf pid [] [] # ts2)" and sz: "internalSerializedSize (ks1 @ k # ks2) \<le> ps"
    by simp_all
  note keys = treesOk_keys [OF tr]
  have len: "length ?ptrs = length (ks1 @ k # ks2) + 1" using treesOk_length [OF tr] by simp
  have big: "q \<noteq> svRoot (view s1) \<or> 3 \<le> length ?ptrs"
  proof (cases "as = []")
    case True
    then show ?thesis using assms(9) by (cases ts1; cases ts2) auto
  next
    case False
    have "svRoot (view s1) \<in> crumbPids as" unfolding at(6) by (rule plug_root [OF False])
    moreover have "q \<notin> crumbPids as" using at(5) by simp
    ultimately show ?thesis by blast
  qed
  obtain f where f: "fuel = Suc f" using assms(7) by (cases fuel) auto
  have il: "Suc (length ts1) < length ?ptrs" and two: "2 \<le> length ?ptrs" by simp_all
  obtain pg s2 where R: "removeInternalChild ops (Suc f) q (Suc (length ts1)) (svRoot (view s)) s1 = Inr (svRoot (view s1), s2)" "ok s2"
    "view s2 = putPage q pg (view s1)" "length pg = ps"
    "parseInternalPage pg = Inr \<lparr>inParent = parent, inPtrs = take (Suc (length ts1)) ?ptrs @ drop (Suc (length ts1) + 1) ?ptrs,
       inKeys = withoutKey (Suc (length ts1)) (ks1 @ k # ks2)\<rparr>"
    by (rule removeInternalChild_keep [where f = f and root = "svRoot (view s)", OF w(3) page used(1) il conjunct1 [OF keys] conjunct2 [OF keys] len two big sz])
  have p2: "pid \<in> svUsed (view s2)" using used(2) by (simp add: R(3) putPage_def)
  obtain s' where r: "opRelease ops pid s2 = Inr s'" "ok s'" "svPage (view s') = svPage (view s2)"
    by (rule release_view [OF R(2) p2])
  have rootne: "svRoot (view s) \<noteq> pid"
  proof -
    have "rootId (plug as u) \<noteq> pid" if "rootId u = q" for u
    proof (cases "as = []")
      case False
      then have "rootId (plug as u) \<in> crumbPids as" by (rule plug_root)
      moreover have "pid \<notin> crumbPids as" using at(5) by simp
      ultimately show ?thesis by blast
    qed (use that dist in simp)
    then show ?thesis using at(6) root by simp
  qed
  have "Delete ops fuel key s = Inr s'"
    unfolding code(1) using w(1,2) r(1) R(1) rootne
    by (simp add: deleteEntry_def Let_def read_root [OF w(3)] root f removeChildFromParentChain_def setNewRoot_def del: removeInternalChild.simps)
  moreover have "svPage (view s') l = svPage (view s1) l" using dist by (auto simp: r(3) R(3) putPage_def)
  moreover obtain lp where "svPage (view s1) l = Inr lp" "mapR leafNext (parseLeafPage lp) = Inr pid"
  proof -
    have "rep (svPage (view s1)) ps pid (Some q) ?L" using at(1) by (simp add: reps_append)
    then show thesis using that by (auto simp: leafAt_def mapR_def)
  qed
  moreover have "svPage (view s') q = Inr pg" by (simp add: r(3) R(3) putPage_def)
  moreover have "mapR inPtrs (parseInternalPage pg) = Inr (map rootId (ts1 @ ?L # ts2))" by (simp add: R(5) mapR_def)
  moreover have "pid \<notin> set (map rootId (ts1 @ ?L # ts2))"
    using dist rootIds_pids [of ts1] rootIds_pids [of ts2] by auto
  ultimately show thesis using r(1,2) that by metis
qed

text \<open>A first key whose successor does not fit into the parent page.\<close>

lemma Delete_separator_full:
  fixes as q ks1 k ks2 ts1 a pid key m ms vs ts2
  defines "t \<equiv> plug as (Node q (ks1 @ k # ks2) (ts1 @ a # Leaf pid (key # m # ms) vs # ts2))"
  assumes "ok s" "optTree ps (view s) (Some t)" "list_all crumbOk as" "length ts1 = length ks1" "length key \<le> maxKeyBytes"
    and "height t < fuel" "\<not> isOverflowStub (vs ! 0)" "ps < internalSerializedSize (ks1 @ m # ks2)"
  shows "Delete ops fuel key s = Inl (ErrCorruptTree ''internal page full'')"
proof -
  let ?cs = "as @ [(q, ks1 @ [k], ks2, ts1 @ [a], ts2)]" and ?ks = "key # m # ms"
  have t: "t = plug ?cs (Leaf pid ?ks vs)" by (simp add: t_def)
  have oks: "list_all crumbOk ?cs" using assms(4,5) by simp
  obtain p where code: "Delete ops fuel key s = deleteEntry ops fuel
      \<lparr>parentPIDs = map crumbId ?cs, childIdxs = map crumbIdx ?cs\<rparr> pid
      \<lparr>leafNext = holeNext 0 ?cs, leafParent = p, leafKeys = ?ks, leafVals = vs\<rparr> 0 s"
    "holePar None ?cs = None \<or> holePar None ?cs = Some p"
    by (rule Delete_code [OF assms(2) assms(3) [unfolded t] oks assms(6) assms(7) [unfolded t], of 0]) (use assms(8) in simp_all)
  have tin: "treeIn ps (view s) (plug ?cs (Leaf pid ?ks vs))" "svRoot (view s) \<noteq> 0"
    using assms(3) unfolding t optTree_Some by blast+
  obtain pg0 s1 where w: "buildLeafPage ps p (holeNext 0 ?cs) (m # ms) (tl vs) = Inr pg0" "opWrite ops pid pg0 s = Inr s1" "ok s1"
    "rewritten {pid} (view s) (view s1)" "treeIn ps (view s1) (plug ?cs (Leaf pid (m # ms) (tl vs)))"
    by (rule write_without_ok [OF assms(2) tin(1) oks, of 0 p]) (use code(2) in \<open>simp_all add: drop_Suc\<close>)
  have T1: "treeIn ps (view s1) (plug as (plug1 (q, ks1 @ [k], ks2, ts1 @ [a], ts2) (Leaf pid (m # ms) (tl vs))))" using w(5) by simp
  have root: "svRoot (view s1) = svRoot (view s)" using w(4) by (simp add: rewritten_def changes_def)
  obtain lo hi where "treeOk ps lo hi (Leaf pid (m # ms) (tl vs))"
    by (rule treeOk_plug [OF treeIn_at(4) [OF w(5)] oks]) (rule that)
  then have lm: "length m \<le> maxKeyBytes" by (simp add: entriesOk_def)
  have fl: "firstLeafKeys (Leaf pid (m # ms) (tl vs)) = m # ms" by simp
  have U: "updateSeparator ops q (int (length ks1)) m (svRoot (view s)) s1 = Inl (ErrCorruptTree ''internal page full'')"
    using raise_separator_ok [OF w(3) T1 assms(4,5) fl lm, of "svRoot (view s)"] assms(9) by simp
  show ?thesis
    unfolding code(1) using w(1,2) U assms(5)
    by (simp add: deleteEntry_def Let_def read_root [OF w(3)] root drop_Suc mapR_def)
qed

end

subsection \<open>On the engine\<close>

lemma clear_root_ok:
  assumes "engineOk env s"
  shows "\<exists>s'. UpdateHeader env (\<lambda>h. h\<lparr>BTreeRoot := 0\<rparr>) s = Inr s' \<and> engineOk env s' \<and>
    engineView env s' = (engineView env s)\<lparr>svRoot := 0\<rparr>"
proof -
  obtain txn where t: "egWtxn s = Some txn" "txnReady env s txn" "envOk env" using assms by (rule engineOk_txn)
  define hdr where "hdr = (txHdr txn)\<lparr>BTreeRoot := 0, BTreeRootGeneration := 0\<rparr>"
  define txn' where "txn' = txn\<lparr>txHdr := hdr\<rparr>"
  define s' where "s' = s\<lparr>egWtxn := Some txn'\<rparr>"
  have U: "UpdateHeader env (\<lambda>h. h\<lparr>BTreeRoot := 0\<rparr>) s = Inr s'"
    by (simp add: UpdateHeader_def UpdateHeaderGet_def t(1) refreshRootGeneration_def mapR_def Let_def s'_def txn'_def hdr_def)
  have s': "egWtxn s' = Some txn'" "egDisk s' = egDisk s" by (simp_all add: s'_def)
  have root: "physicalPage env s txn (BTreeRoot (txHdr txn)) = Inr buf \<Longrightarrow> dcHeaderMAC (envDisk env) \<Longrightarrow>
      BTreeRoot (txHdr txn) \<noteq> 0 \<Longrightarrow> 8 \<le> length buf \<and> Uint64 (take 8 buf) = BTreeRootGeneration (txHdr txn)" for buf
    using t(2) by (simp add: txnReady_def rootOk_def)
  have rd: "readData env s' q = readData env s q" for q
  proof (cases "q = 0")
    case False
    show ?thesis
    proof (rule read_cong [OF t(1) s'(1) False _ s'(2)])
      fix buf
      assume phys: "physicalPage env s txn q = Inr buf"
      then show "validateRootPageGeneration env s' q buf = validateRootPageGeneration env s q buf"
        using root [of buf] False by (auto simp: validate_txn [OF s'(1)] validate_txn [OF t(1)] txn'_def hdr_def)
    qed (simp add: txn'_def)
  qed (simp add: readData_def)
  have "macOk env txn'" "freeOk txn'" "dirtyOk env txn'" "rootOk env s' txn'" "0 < NextPageID (txHdr txn')"
    using t(2) by (auto simp: txnReady_def macOk_def freeOk_def dirtyOk_def redoOk_def rootOk_def txn'_def hdr_def)
  moreover have "headerFits env (txHdr txn')"
    by (rule headerFits_fields [of env "txHdr txn"]) (use t(2) in \<open>simp_all add: txnReady_def txn'_def hdr_def\<close>)
  moreover have "storedOk env s' txn'"
    by (rule storedOk_fields [of env s txn]) (use t(2) in \<open>simp_all add: txnReady_def s'(2) txn'_def hdr_def\<close>)
  ultimately have "txnReady env s' txn'" by (simp add: txnReady_def)
  moreover have "sameDisk s s'" by (simp add: sameDisk_def s'_def)
  ultimately have "engineOk env s'" by (intro engineOk_step [OF assms(1) _ s'(1)])
  moreover have "usedPages txn' = usedPages txn" "txnRoom env txn' = txnRoom env txn"
    by (simp_all add: usedPages_def txnRoom_def reusable_def txn'_def hdr_def)
  then have "engineView env s' = (engineView env s)\<lparr>svRoot := 0\<rparr>"
    using rd by (simp add: engineView_def s'(1) t(1) fun_eq_iff) (simp add: txn'_def hdr_def)
  ultimately show ?thesis using U by blast
qed

interpretation txn: delete_store "engineOps env" "engineOk env" "engineView env" for env
proof
  fix s
  assume "engineOk env s"
  then show "\<exists>s'. opSetRoot (engineOps env) 0 s = Inr s' \<and> engineOk env s' \<and> engineView env s' = (engineView env s)\<lparr>svRoot := 0\<rparr>"
    using clear_root_ok by (simp add: engineOps_def)
qed

lemma engineOps_page [simp]: "opPageSize (engineOps env) = envPageSize env"
  by (simp add: engineOps_def)

text \<open>A page released in a transaction that reuses pages is on the free list.\<close>

lemma released_free:
  assumes "releasePageID env p s = Inr s'" "egWtxn s' = Some txn" "envPageReuse env" "FormatVersion (txHdr txn) = formatVersionV3"
  shows "p \<in> txFreePageSet txn"
  using assms by (auto simp: releasePageID_def withTxn_def split: option.splits if_splits)

subsection \<open>Properties\<close>

text \<open>C6: Deletion. On an engine in a write transaction whose pages represent the map \<open>M\<close>,
  \<open>Delete\<close> of a key (unless it is alone in a leaf other than the first, see
  \<open>Unlinked_leaf_stays_linked\<close>) succeeds: the pages then represent \<open>M\<close> without the key, the
  engine's invariant holds, the tree is no higher, no page id is lost and \<open>Get\<close> answers every key as
  that map does. Overflow pages, raised separators, merged and borrowing leaves, emptied parents
  and a new root are included. The only error is a full page, and it needs a tree with a page that
  has less than 512 bytes (an internal page) or the largest entry (a leaf) left.\<close>
theorem Delete_updates_map:
  assumes "engineOk env s" "dbRep (envPageSize env) fl (engineView env s) ot C M" "length key \<le> maxKeyBytes"
    and "optHeight ot < fuel" "length (C key) < fuel" "\<not> aloneInLeaf ot key"
  shows "(\<exists>e t. Delete (engineOps env) fuel key s = Inl e \<and> pageFull e \<and> ot = Some t \<and> \<not> slack (envPageSize env) 512 t) \<or>
    (\<exists>s' ot'. Delete (engineOps env) fuel key s = Inr s' \<and> engineOk env s' \<and>
      dbRep (envPageSize env) fl (engineView env s') ot' (C(key := [])) (M(key := None)) \<and>
      optHeight ot' \<le> optHeight ot \<and> svRoom (engineView env s) \<le> svRoom (engineView env s') \<and>
      (\<forall>k fuel'. optHeight ot' < fuel' \<and> length (C k) < fuel' \<longrightarrow>
        Get (engineOps env) fl fuel' s' k = Inr ((M(key := None)) k)))"
proof -
  from txn.Delete_ok [where env = env, unfolded engineOps_page, OF assms]
  consider (full) "\<exists>e t. Delete (engineOps env) fuel key s = Inl e \<and> pageFull e \<and> ot = Some t \<and> \<not> slack (envPageSize env) 512 t"
    | (gone) s' ot' where "Delete (engineOps env) fuel key s = Inr s'" "engineOk env s'"
      "dbRep (envPageSize env) fl (engineView env s') ot' (C(key := [])) (M(key := None))"
      "optHeight ot' \<le> optHeight ot" "svRoom (engineView env s) \<le> svRoom (engineView env s')" by blast
  then show ?thesis
  proof cases
    case gone
    have "Get (engineOps env) fl fuel' s' k = Inr ((M(key := None)) k)"
      if "optHeight ot' < fuel'" "length (C k) < fuel'" for k fuel'
      using txn.Get_ok [where env = env, unfolded engineOps_page, OF gone(2,3) that(1), of k] that(2) by simp
    then show ?thesis using gone by blast
  qed blast
qed

theorem Delete_updates_map_witness:
  "\<exists>s'. Delete (engineOps plainEnv) 1 [1] (treeEngine 2 (Leaf 1 [[1], [2]] [[7], [8]])) = Inr s' \<and>
    (\<exists>fuel. Get (engineOps plainEnv) storedFlate fuel s' [1] = Inr None \<and> Get (engineOps plainEnv) storedFlate fuel s' [2] = Inr (Some [8]))"
proof -
  let ?t = "Leaf 1 [[1], [2]] [[7], [8]]" and ?s = "treeEngine 2 (Leaf 1 [[1], [2]] [[7], [8]])"
  have t: "treeOk 4096 [] None ?t" "uniform ?t 0" "distinct (pids ?t)" "\<forall>p \<in> set (pids ?t). 0 < p \<and> p < (2 :: uint64)"
    by (simp_all add: entriesOk_def within_def maxKeyBytes_def inlineThreshold_def leafSerializedSize_def btreeHeaderSize_def)
  have "\<forall>(k, v) \<in> set (entries ?t). \<not> isOverflowStub v \<and> \<not> isCompressedValue v"
    by (simp add: isOverflowStub_def isCompressedValue_def compressHeaderSize_def)
  from treeEngine_map [OF t this] have r: "dbRep 4096 storedFlate (engineView plainEnv ?s) (Some ?t) (\<lambda>_. []) (map_of (entries ?t))" .
  have "slack 4096 512 ?t"
    by (simp add: leafSerializedSize_def btreeHeaderSize_def maxKeyBytes_def inlineThreshold_def)
  moreover have "(\<exists>e t. Delete (engineOps plainEnv) 1 [1] ?s = Inl e \<and> pageFull e \<and> Some ?t = Some t \<and> \<not> slack 4096 512 t) \<or>
    (\<exists>s' ot'. Delete (engineOps plainEnv) 1 [1] ?s = Inr s' \<and> engineOk plainEnv s' \<and>
      dbRep 4096 storedFlate (engineView plainEnv s') ot' ((\<lambda>_. [])([1] := [])) ((map_of (entries ?t))([1] := None)) \<and>
      optHeight ot' \<le> optHeight (Some ?t) \<and> svRoom (engineView plainEnv ?s) \<le> svRoom (engineView plainEnv s') \<and>
      (\<forall>k fuel'. optHeight ot' < fuel' \<and> length ([] :: uint64 list) < fuel' \<longrightarrow>
        Get (engineOps plainEnv) storedFlate fuel' s' k = Inr (((map_of (entries ?t))([1] := None)) k)))"
    by (rule Delete_updates_map [where env = plainEnv, unfolded plainEnv_simps, OF treeEngine_ok(1) [OF t] r])
      (simp_all add: maxKeyBytes_def optHeight_def aloneInLeaf_def)
  ultimately obtain s' ot' where "Delete (engineOps plainEnv) 1 [1] ?s = Inr s'"
    "\<forall>k fuel'. optHeight ot' < fuel' \<and> 0 < fuel' \<longrightarrow>
        Get (engineOps plainEnv) storedFlate fuel' s' k = Inr (((map_of (entries ?t))([1] := None)) k)" by auto
  then show ?thesis by (intro exI [of _ s'] conjI exI [of _ "Suc (optHeight ot')"]) simp_all
qed

text \<open>C10: An emptied leaf stays in the leaf chain. When \<open>Delete\<close> removes the only entry of a leaf
  that has a left neighbour in its parent, the parent forgets the leaf and, where page ids are
  reused, its page goes on the free list; but the neighbour's page still names it as the next
  leaf, so once the page is handed out again \<open>AscendRange\<close> runs into whatever it then holds.\<close>
theorem Unlinked_leaf_stays_linked:
  assumes "engineOk env s" "optTree (envPageSize env) (engineView env s)
      (Some (plug as (Node q (ks1 @ k # ks2) (ts1 @ Leaf l lks lvs # Leaf pid [key] [val] # ts2))))"
    and "list_all crumbOk as" "length ts1 = length ks1" "length key \<le> maxKeyBytes"
    and "height (plug as (Node q (ks1 @ k # ks2) (ts1 @ Leaf l lks lvs # Leaf pid [key] [val] # ts2))) < fuel"
    and "\<not> isOverflowStub val" "as \<noteq> [] \<or> ts1 \<noteq> [] \<or> ts2 \<noteq> []"
  shows "\<exists>s' txn page pg ptrs. Delete (engineOps env) fuel key s = Inr s' \<and> egWtxn s' = Some txn \<and>
    readData env s' l = Inr page \<and> mapR leafNext (parseLeafPage page) = Inr pid \<and>
    readData env s' q = Inr pg \<and> mapR inPtrs (parseInternalPage pg) = Inr ptrs \<and> l \<in> set ptrs \<and> pid \<notin> set ptrs \<and>
    (envPageReuse env \<and> FormatVersion (txHdr txn) = formatVersionV3 \<longrightarrow> pid \<in> txFreePageSet txn)"
proof -
  obtain s1 s' page pg where D: "Delete (engineOps env) fuel key s = Inr s'" "opRelease (engineOps env) pid s1 = Inr s'" "engineOk env s'"
    "svPage (engineView env s') l = Inr page" "mapR leafNext (parseLeafPage page) = Inr pid"
    "svPage (engineView env s') q = Inr pg" "mapR inPtrs (parseInternalPage pg) = Inr (map rootId (ts1 @ Leaf l lks lvs # ts2))"
    "pid \<notin> set (map rootId (ts1 @ Leaf l lks lvs # ts2))"
    by (rule txn.Delete_unlinked [where env = env, unfolded engineOps_page, OF assms])
  obtain txn where t: "egWtxn s' = Some txn" using D(3) by (rule engineOk_txn)
  have "releasePageID env pid s1 = Inr s'" using D(2) by (simp add: engineOps_def)
  from released_free [OF this t] D show ?thesis
    by (intro exI [of _ s'] exI [of _ txn] exI [of _ page] exI [of _ pg] exI [of _ "map rootId (ts1 @ Leaf l lks lvs # ts2)"])
      (simp add: engineView_def t)
qed

theorem Unlinked_leaf_stays_linked_witness:
  "\<exists>s' page. Delete (engineOps plainEnv) 2 [2]
      (treeEngine 5 (Node 4 [[2], [3]] [Leaf 1 [[1]] [[7]], Leaf 2 [[2]] [[8]], Leaf 3 [[3]] [[9]]])) = Inr s' \<and>
    readData plainEnv s' 1 = Inr page \<and> mapR leafNext (parseLeafPage page) = Inr 2"
proof -
  let ?t = "Node 4 [[2], [3]] [Leaf 1 [[1]] [[7]], Leaf 2 [[2]] [[8]], Leaf 3 [[3]] [[9]]]"
  have t: "treeOk 4096 [] None ?t" "uniform ?t 1" "distinct (pids ?t)" "\<forall>p \<in> set (pids ?t). 0 < p \<and> p < (5 :: uint64)"
    by (simp_all add: entriesOk_def within_def maxKeyBytes_def inlineThreshold_def leafSerializedSize_def btreeHeaderSize_def
        internalSerializedSize_def)
  have o: "optTree 4096 (engineView plainEnv (treeEngine 5 ?t))
      (Some (plug [] (Node 4 ([] @ [2] # [[3]]) ([] @ Leaf 1 [[1]] [[7]] # Leaf 2 [[2]] [[8]] # [Leaf 3 [[3]] [[9]]]))))"
    using treeEngine_ok(2) [OF t] by simp
  from Unlinked_leaf_stays_linked [where env = plainEnv and fuel = 2, unfolded plainEnv_simps, OF treeEngine_ok(1) [OF t] o]
  show ?thesis by (simp add: maxKeyBytes_def isOverflowStub_def) blast
qed

text \<open>C11: A deletion that fails. Deleting the first key of a leaf puts the key after it into the
  parent in place of the old separator; when the parent page has no room for the longer key,
  \<open>Delete\<close> answers the error of a corrupt tree, on a tree that satisfies the invariant.\<close>
theorem Delete_fails_on_full_parent:
  assumes "engineOk env s" "optTree (envPageSize env) (engineView env s)
      (Some (plug as (Node q (ks1 @ k # ks2) (ts1 @ a # Leaf pid (key # m # ms) vs # ts2))))"
    and "list_all crumbOk as" "length ts1 = length ks1" "length key \<le> maxKeyBytes"
    and "height (plug as (Node q (ks1 @ k # ks2) (ts1 @ a # Leaf pid (key # m # ms) vs # ts2))) < fuel"
    and "\<not> isOverflowStub (vs ! 0)" "envPageSize env < internalSerializedSize (ks1 @ m # ks2)"
  shows "Delete (engineOps env) fuel key s = Inl (ErrCorruptTree ''internal page full'')"
  by (rule txn.Delete_separator_full [where env = env, unfolded engineOps_page, OF assms])

definition longKey :: "byte \<Rightarrow> bytes" where
  "longKey b = b # 0 # replicate 254 0"

definition wideTree :: btree where
  "wideTree = Node 40 ([9] # map (\<lambda>i. longKey (of_nat i)) [10..<25])
     (Leaf 1 [[1]] [[0]] # Leaf 2 [[9], longKey 9] [[0], [0]] # map (\<lambda>i. Leaf (of_nat i) [longKey (of_nat i)] [[0]]) [10..<25])"

lemma longKey_facts: "length (longKey b) = 256" "longKey b < longKey c \<longleftrightarrow> b < c" "[] < longKey b" "[] \<le> longKey b"
  "[9] < longKey b \<longleftrightarrow> 9 \<le> b" "[9] \<le> longKey b \<longleftrightarrow> 9 \<le> b" "longKey b \<le> longKey c \<longleftrightarrow> b \<le> c"
  by (auto simp: longKey_def)

lemma wideTree_ok:
  "treeOk 4096 [] None wideTree" "uniform wideTree 1" "distinct (pids wideTree)"
  "\<forall>p \<in> set (pids wideTree). 0 < p \<and> p < (50 :: uint64)" "height wideTree < 2"
  by (simp_all add: wideTree_def upt_rec entriesOk_def within_def maxKeyBytes_def inlineThreshold_def leafSerializedSize_def
      btreeHeaderSize_def internalSerializedSize_def longKey_facts)

theorem Delete_fails_on_full_parent_witness:
  "Delete (engineOps plainEnv) 2 [9] (treeEngine 50 wideTree) = Inl (ErrCorruptTree ''internal page full'')"
proof -
  let ?keys = "map (\<lambda>i. longKey (of_nat i)) [10..<25]" and ?us = "map (\<lambda>i. Leaf (of_nat i) [longKey (of_nat i)] [[0]]) [10..<25]"
  have w: "plug [] (Node 40 ([] @ [9] # ?keys) ([] @ Leaf 1 [[1]] [[0]] # Leaf 2 ([9] # longKey 9 # []) [[0], [0]] # ?us)) = wideTree"
    by (simp add: wideTree_def)
  have o: "optTree 4096 (engineView plainEnv (treeEngine 50 wideTree))
      (Some (plug [] (Node 40 ([] @ [9] # ?keys) ([] @ Leaf 1 [[1]] [[0]] # Leaf 2 ([9] # longKey 9 # []) [[0], [0]] # ?us))))"
    unfolding w by (rule treeEngine_ok(2) [OF wideTree_ok(1-4)])
  show ?thesis
    by (rule Delete_fails_on_full_parent [where env = plainEnv, unfolded plainEnv_simps, OF treeEngine_ok(1) [OF wideTree_ok(1-4)] o,
          unfolded w]) (use wideTree_ok(5) in \<open>simp_all add: maxKeyBytes_def isOverflowStub_def internalSerializedSize_def
          longKey_facts upt_rec btreeHeaderSize_def\<close>)
qed

end
