(* ===== verification/TxStore.thy ===== *)
theory TxStore
  imports DeleteMap WriteTxn SecondaryKeys
begin

text \<open>
  The transaction handle of the root package (\<open>tx.go\<close>, the version lookup of
  \<open>mvcc.go\<close>, \<open>requireWritable\<close> of \<open>primitives.go\<close>, the errors of
  \<open>errors.go\<close>): a \<open>Tx\<close> is the engine it works on, its snapshot number and the
  cells written so far. Reads and writes go to the B+ tree of \<open>Overflow\<close>,
  \<open>BTreeRead\<close> and \<open>BTreeDelete\<close> on the engine of \<open>EngineStore\<close>; a read-only
  transaction reads below the root it was opened with. The lemmas state each operation on the map
  the pages represent (\<open>holds\<close>): the laws of an ordered key-value store that the layers
  above rely on.
\<close>

subsection \<open>Errors\<close>

datatype dbError =
    ErrClosed
  | ErrDatabaseClosed
  | ErrTxReadOnly
  | ErrInvalidArgument "dbError option"
  | ErrSeamNotFound
  | ErrSeamEndpointMismatch
  | ErrCellNotFound
  | ErrNoFreeCellPlacement
  | ErrFacetDerivationMismatch
  | ErrSpatialScanLimit
  | ErrReadSeqFuture
  | ErrCommitFinalization "dbError option"
  | ErrSnapshotTagNotFound
  | ErrSnapshotTagLabelTooLong
  | ErrEmbeddingDimension
  | ErrCorruptDatabase "dbError option"
  | ErrCorruptGraph string
  | OfEngine engine_error
  | OfRecord record_error
  | OfIndex index_error
  | OfLattice lattice_error
  | OfHook string
  | OfContext string
  | DBFailure string

text \<open>
  The argument of \<open>ErrInvalidArgument\<close> is the error it wraps, when it wraps one;
  \<open>OfHook\<close> is an error of user code, \<open>OfContext\<close> one of \<open>ctx.Err()\<close>,
  \<open>DBFailure\<close> one made with \<open>fmt.Errorf\<close>.
\<close>

definition mapL :: "('e \<Rightarrow> 'f) \<Rightarrow> 'e + 'a \<Rightarrow> 'f + 'a" where
  "mapL f m = (case m of Inl e \<Rightarrow> Inl (f e) | Inr x \<Rightarrow> Inr x)"

lemma mapL_simps [simp]: "mapL f (Inl e) = Inl (f e)" "mapL f (Inr x) = Inr x"
  by (simp_all add: mapL_def)

lemma mapL_Inr [simp]: "mapL f m = Inr x \<longleftrightarrow> m = Inr x"
  by (cases m) simp_all

definition mapEngineDataError :: "engine_error \<Rightarrow> dbError" where
  "mapEngineDataError e =
     (case e of
        ErrPageAuthentication \<Rightarrow> ErrCorruptDatabase (Some (OfEngine e))
      | ErrCorruptTree _ \<Rightarrow> ErrCorruptDatabase (Some (OfEngine e))
      | ErrBadPageSize \<Rightarrow> ErrCorruptDatabase (Some (OfEngine e))
      | _ \<Rightarrow> if e = EngineFailure ''EOF'' then ErrCorruptDatabase (Some (OfEngine e)) else OfEngine e)"

subsection \<open>Configuration and transaction\<close>

text \<open>
  What a handle is opened with. \<open>cfFuel\<close> bounds the descents and scans of the tree: 2^65
  exceeds twice the number of page ids, so it never runs out. Validator and hooks are user code,
  the ULID parser and SHA-256 library code.
\<close>

record dbConfig =
  cfEnv :: engineEnv
  cfFlate :: flate
  cfFuel :: nat
  cfMVCC :: bool
  cfChangelog :: bool
  cfValidator :: "(CellRecord \<Rightarrow> string option) option"
  cfAfterPutCell :: "(CellRecord \<Rightarrow> string option) option"
  cfAfterPutSeam :: "(SeamRecord \<Rightarrow> string option) option"
  cfParseULID :: "bytes \<Rightarrow> bytes option"
  cfULIDString :: "bytes \<Rightarrow> bytes"
  cfSHA256 :: "bytes \<Rightarrow> bytes"

record clogEntry =
  clOp :: byte
  clKey :: bytes
  clEncoded :: bytes

record Tx =
  txStore :: engine
  txOpen :: bool
  txWritable :: bool
  txReadSeq :: uint64
  txWriteSeq :: uint64
  txRoot :: uint64
  txOverlay :: "PackedCoord \<Rightarrow> CellRecord option"
  txDeleted :: "PackedCoord set"
  txClog :: "clogEntry list"
  txEmbeddingDim :: uint16
  txEmbeddingMetric :: byte

text \<open>
  \<open>txOpen\<close> says that the database is still open (\<open>activeEng() \<noteq> nil\<close>);
  \<open>txRoot\<close> is \<open>cachedBTreeRoot\<close>, \<open>txOverlay\<close> and \<open>txDeleted\<close> are
  \<open>cellOverlay\<close> and \<open>cellDeleted\<close>, empty where the code has a nil map; \<open>txEmbeddingDim\<close> and \<open>txEmbeddingMetric\<close> are the
  fields of the open engine, which survive the transaction. A nil
  \<open>Tx\<close> is not represented. After an error the callers drop the transaction with its state.
\<close>

definition requireWritable :: "Tx \<Rightarrow> dbError + unit" where
  "requireWritable tx =
     (if \<not> txWritable tx then Inl ErrTxReadOnly
      else if \<not> txOpen tx then Inl ErrDatabaseClosed else Inr ())"

text \<open>The tree's operations under a configuration.\<close>

definition treeGet :: "dbConfig \<Rightarrow> engine \<Rightarrow> bytes \<Rightarrow> engine_error + bytes option" where
  "treeGet c s key = Get (engineOps (cfEnv c)) (cfFlate c) (cfFuel c) s key"

definition treeGetUsingRoot :: "dbConfig \<Rightarrow> engine \<Rightarrow> uint64 \<Rightarrow> bytes \<Rightarrow> engine_error + bytes option" where
  "treeGetUsingRoot c s root key = GetUsingRoot (engineOps (cfEnv c)) (cfFlate c) (cfFuel c) s root key"

definition treePut :: "dbConfig \<Rightarrow> bytes \<Rightarrow> bytes \<Rightarrow> engine \<Rightarrow> engine_error + engine" where
  "treePut c key val s = Put (engineOps (cfEnv c)) (cfFlate c) (cfFuel c) key val s"

definition treeDelete :: "dbConfig \<Rightarrow> bytes \<Rightarrow> engine \<Rightarrow> engine_error + engine" where
  "treeDelete c key s = Delete (engineOps (cfEnv c)) (cfFuel c) key s"

definition treeAscend ::
  "dbConfig \<Rightarrow> engine \<Rightarrow> bytes option \<Rightarrow> bytes option \<Rightarrow> 'a visitor \<Rightarrow> 'a \<Rightarrow> engine_error + 'a" where
  "treeAscend c s start to fn acc =
     AscendRange (engineOps (cfEnv c)) (loadValue (engineOps (cfEnv c)) (cfFlate c) (cfFuel c) s) fn (cfFuel c) s start to acc"

definition treeAscendFromRoot ::
  "dbConfig \<Rightarrow> engine \<Rightarrow> uint64 \<Rightarrow> bytes option \<Rightarrow> bytes option \<Rightarrow> 'a visitor \<Rightarrow> 'a \<Rightarrow> engine_error + 'a" where
  "treeAscendFromRoot c s root start to fn acc =
     AscendRangeFromRoot (engineOps (cfEnv c)) (loadValue (engineOps (cfEnv c)) (cfFlate c) (cfFuel c) s) fn (cfFuel c) s root start to acc"

definition treeDescend ::
  "dbConfig \<Rightarrow> engine \<Rightarrow> bytes option \<Rightarrow> bytes option \<Rightarrow> 'a visitor \<Rightarrow> 'a \<Rightarrow> engine_error + 'a" where
  "treeDescend c s start to fn acc =
     DescendRange (engineOps (cfEnv c)) (loadValue (engineOps (cfEnv c)) (cfFlate c) (cfFuel c) s) fn (cfFuel c) s start to acc"

definition treeDescendFromRoot ::
  "dbConfig \<Rightarrow> engine \<Rightarrow> uint64 \<Rightarrow> bytes option \<Rightarrow> bytes option \<Rightarrow> 'a visitor \<Rightarrow> 'a \<Rightarrow> engine_error + 'a" where
  "treeDescendFromRoot c s root start to fn acc =
     DescendRangeFromRoot (engineOps (cfEnv c)) (loadValue (engineOps (cfEnv c)) (cfFlate c) (cfFuel c) s) fn (cfFuel c) s root start to acc"

subsection \<open>Operations\<close>

definition getDirect :: "dbConfig \<Rightarrow> Tx \<Rightarrow> bytes \<Rightarrow> dbError + bytes option" where
  "getDirect c tx key = mapL mapEngineDataError
     (if \<not> txWritable tx then treeGetUsingRoot c (txStore tx) (txRoot tx) key else treeGet c (txStore tx) key)"

definition TxGet :: "dbConfig \<Rightarrow> Tx \<Rightarrow> bytes \<Rightarrow> dbError + bytes option" where
  "TxGet c tx key =
     (if \<not> txOpen tx then Inl ErrDatabaseClosed
      else if \<not> txWritable tx then mapL mapEngineDataError (treeGetUsingRoot c (txStore tx) (txRoot tx) key)
      else mapL mapEngineDataError (treeGet c (txStore tx) key))"

definition putDirect :: "dbConfig \<Rightarrow> bytes \<Rightarrow> bytes \<Rightarrow> Tx \<Rightarrow> dbError + Tx" where
  "putDirect c key val tx =
     bindR (requireWritable tx) (\<lambda>_.
       mapR (\<lambda>s. tx\<lparr>txStore := s\<rparr>) (mapL mapEngineDataError (treePut c key val (txStore tx))))"

definition deleteDirect :: "dbConfig \<Rightarrow> bytes \<Rightarrow> Tx \<Rightarrow> dbError + Tx" where
  "deleteDirect c key tx =
     bindR (requireWritable tx) (\<lambda>_.
       mapR (\<lambda>s. tx\<lparr>txStore := s\<rparr>) (mapL mapEngineDataError (treeDelete c key (txStore tx))))"

definition TxPut :: "dbConfig \<Rightarrow> bytes \<Rightarrow> bytes \<Rightarrow> Tx \<Rightarrow> dbError + Tx" where
  "TxPut c key val tx =
     bindR (requireWritable tx) (\<lambda>_.
     bindR (if cfMVCC c \<and> prefix CellPrefix key
            then (case ParseCellVersionKey key of Inl e \<Rightarrow> Inl (ErrInvalidArgument (Some (OfIndex e))) | Inr _ \<Rightarrow> Inr ())
            else Inr ()) (\<lambda>_.
       mapR (\<lambda>s. tx\<lparr>txStore := s\<rparr>) (mapL mapEngineDataError (treePut c key val (txStore tx)))))"

definition TxAscendRange ::
  "dbConfig \<Rightarrow> Tx \<Rightarrow> bytes option \<Rightarrow> bytes option \<Rightarrow> 'a visitor \<Rightarrow> 'a \<Rightarrow> dbError + 'a" where
  "TxAscendRange c tx start to fn acc =
     (if \<not> txOpen tx then Inl ErrDatabaseClosed
      else if \<not> txWritable tx \<and> txRoot tx \<noteq> 0
      then mapL mapEngineDataError (treeAscendFromRoot c (txStore tx) (txRoot tx) start to fn acc)
      else mapL mapEngineDataError (treeAscend c (txStore tx) start to fn acc))"

definition descendRange ::
  "dbConfig \<Rightarrow> Tx \<Rightarrow> bytes option \<Rightarrow> bytes option \<Rightarrow> 'a visitor \<Rightarrow> 'a \<Rightarrow> dbError + 'a" where
  "descendRange c tx start to fn acc =
     (if \<not> txOpen tx then Inl ErrDatabaseClosed
      else if \<not> txWritable tx
      then mapL mapEngineDataError (treeDescendFromRoot c (txStore tx) (txRoot tx) start to fn acc)
      else mapL mapEngineDataError (treeDescend c (txStore tx) start to fn acc))"

definition noteChangelog :: "dbConfig \<Rightarrow> byte \<Rightarrow> bytes \<Rightarrow> bytes \<Rightarrow> Tx \<Rightarrow> Tx" where
  "noteChangelog c op key encoded tx =
     (if \<not> txWritable tx \<or> \<not> cfChangelog c then tx
      else tx\<lparr>txClog := txClog tx @ [\<lparr>clOp = op, clKey = key, clEncoded = encoded\<rparr>]\<rparr>)"

text \<open>The newest row at or below \<open>to\<close> whose key carries a commit number.\<close>

definition getVisibleVersionRaw ::
  "dbConfig \<Rightarrow> Tx \<Rightarrow> bytes \<Rightarrow> bytes \<Rightarrow> (bytes \<Rightarrow> uint64 option) \<Rightarrow> dbError + (bytes \<times> uint64) option" where
  "getVisibleVersionRaw c tx from to parseCommitSeq =
     descendRange c tx (Some from) (Some to)
       (\<lambda>k v acc. case parseCommitSeq k of None \<Rightarrow> (True, acc) | Some seq \<Rightarrow> (False, Some (v, seq))) None"


subsection \<open>Reads depend on the pages only\<close>

text \<open>
  \<open>BeginWriteTxn\<close> changes no page: what a read-only transaction reads is what a write
  transaction begun at the same moment would read.
\<close>

definition sameReads :: "'s pageOps \<Rightarrow> 's \<Rightarrow> 's \<Rightarrow> bool" where
  "sameReads ops s s' \<longleftrightarrow> opRead ops s = opRead ops s' \<and> opRoot ops s = opRoot ops s'"

lemma rawGet_same: "sameReads ops s s' \<Longrightarrow> rawGet ops fuel s pid key = rawGet ops fuel s' pid key"
  by (induction fuel arbitrary: pid) (simp_all add: sameReads_def cong: if_cong)

lemma readOverflowChain_same:
  "sameReads ops s s' \<Longrightarrow> readOverflowChain ops fuel s pid n result = readOverflowChain ops fuel s' pid n result"
  by (induction fuel arbitrary: pid result) (simp_all add: sameReads_def Let_def)

lemma loadValue_same: "sameReads ops s s' \<Longrightarrow> loadValue ops fl fuel s = loadValue ops fl fuel s'"
  by (rule ext) (simp add: loadValue_def readOverflowChain_same split: prod.split)

lemma GetUsingRoot_same: "sameReads ops s s' \<Longrightarrow> GetUsingRoot ops fl fuel s root key = GetUsingRoot ops fl fuel s' root key"
  by (simp add: GetUsingRoot_def rawGet_same loadValue_same)

lemma leftmostLeaf_same: "sameReads ops s s' \<Longrightarrow> leftmostLeaf ops fuel s pid start = leftmostLeaf ops fuel s' pid start"
  by (induction fuel arbitrary: pid) (simp_all add: sameReads_def cong: if_cong)

lemma rightmostLeaf_same: "sameReads ops s s' \<Longrightarrow> rightmostLeaf ops fuel s pid to = rightmostLeaf ops fuel s' pid to"
  by (induction fuel arbitrary: pid) (simp_all add: sameReads_def cong: if_cong)

lemma prevLeaf_same: "sameReads ops s s' \<Longrightarrow> prevLeaf ops fuel s pid par root = prevLeaf ops fuel s' pid par root"
proof (induction fuel arbitrary: pid par)
  case (Suc fuel)
  then have "opRead ops s = opRead ops s'" by (simp add: sameReads_def)
  then show ?case by (simp add: Suc.IH [OF Suc.prems] rightmostLeaf_same [OF Suc.prems] cong: if_cong option.case_cong nat.case_cong)
qed simp

lemma ascendLeaves_same:
  "sameReads ops s s' \<Longrightarrow>
   ascendLeaves ops load fn start to fuel s pid started acc = ascendLeaves ops load fn start to fuel s' pid started acc"
proof (induction fuel arbitrary: pid started acc)
  case (Suc fuel)
  then have "opRead ops s = opRead ops s'" by (simp add: sameReads_def)
  then show ?case by (simp add: Suc.IH [OF Suc.prems] cong: if_cong prod.case_cong)
qed simp

lemma descendLeaves_same:
  "sameReads ops s s' \<Longrightarrow>
   descendLeaves ops load fn start to depth fuel s root pid acc = descendLeaves ops load fn start to depth fuel s' root pid acc"
proof (induction fuel arbitrary: pid acc)
  case (Suc fuel)
  then have "opRead ops s = opRead ops s'" by (simp add: sameReads_def)
  then show ?case by (simp add: Suc.IH [OF Suc.prems] prevLeaf_same [OF Suc.prems] cong: if_cong prod.case_cong)
qed simp

lemma tree_same:
  assumes "sameReads (engineOps (cfEnv c)) s s'"
  shows "treeGetUsingRoot c s root key = treeGetUsingRoot c s' root key"
    "treeAscendFromRoot c s root start to fn acc = treeAscendFromRoot c s' root start to fn acc"
    "treeDescendFromRoot c s root start to fn acc = treeDescendFromRoot c s' root start to fn acc"
    "treeAscend c s start to fn acc = treeAscend c s' start to fn acc"
  using assms
  by (simp_all add: treeGetUsingRoot_def GetUsingRoot_same [OF assms] treeAscendFromRoot_def treeDescendFromRoot_def
      AscendRangeFromRoot_def DescendRangeFromRoot_def loadValue_same [OF assms] leftmostLeaf_same [OF assms]
      rightmostLeaf_same [OF assms] ascendLeaves_same [OF assms] descendLeaves_same [OF assms] treeAscend_def AscendRange_def)
    (simp add: sameReads_def leftmostLeaf_same [OF assms] ascendLeaves_same [OF assms] cong: if_cong)

text \<open>Loading the free list touches neither the header nor the pages.\<close>

lemma addLoadedFreePages_keep:
  "addLoadedFreePages seen ids txn = Inr txn' \<Longrightarrow> txHdr txn' = txHdr txn \<and> txDirty txn' = txDirty txn"
  by (induction ids arbitrary: txn)
    (auto simp: bindR_eq_Inr addLoadedFreePage_def split: if_splits)

lemma loadFreelistPages_keep:
  "loadFreelistPages env s seen remaining pageID expected txn = Inr (n, txn') \<Longrightarrow>
   txHdr txn' = txHdr txn \<and> txDirty txn' = txDirty txn"
proof (induction env s seen remaining pageID expected txn arbitrary: n txn' rule: loadFreelistPages.induct)
  case (1 env s seen remaining pageID expected txn)
  show ?case
  proof (cases "pageID = 0")
    case True
    then show ?thesis using "1.prems" by (subst (asm) loadFreelistPages.simps) simp
  next
    case False
    with "1.prems" obtain page nextID gen ids t where l: "pageID < NextPageID (txHdr txn)" "expected \<noteq> 0" "pageID \<notin> seen"
      "pageID \<notin> txFreePageSet txn" "isOk (validateDataPageGeneration env s pageID expected)"
      "decodeFreelistPage page = Inr (nextID, gen, ids)" "\<not> remaining < of_nat (length ids)"
      "readPagePooled env s pageID = Inr page" "addLoadedFreePages (insert pageID seen) ids txn = Inr t"
      "loadFreelistPages env s (insert pageID seen) (remaining - of_nat (length ids)) nextID gen
        (t\<lparr>txFreelistPageIDs := txFreelistPageIDs t @ [pageID]\<rparr>) = Inr (n, txn')"
      by (subst (asm) loadFreelistPages.simps) (auto simp: bindR_eq_Inr not_le split: if_splits)
    have "\<not> (pageID \<ge> NextPageID (txHdr txn) \<or> expected = 0)" "\<not> \<not> isOk (validateDataPageGeneration env s pageID expected)"
      using l(1,2,5) by simp_all
    from "1.IH" [OF False this(1) l(3,4) this(2) l(8) l(6) refl refl l(7) l(9) l(10)] addLoadedFreePages_keep [OF l(9)]
    show ?thesis by simp
  qed
qed

lemma begin_same:
  assumes "BeginWriteTxn env s = Inr s'" "egOverlay s' = (\<lambda>_. None)"
  shows "sameReads (engineOps env) s s'"
proof -
  from assms(1) obtain hdr where h: "egWtxn s = None" "visibleHeader env s = Inr hdr"
    "loadWriteTxnFreelist env (withTxn (newTxn hdr) s) = Inr s'"
    by (auto simp: BeginWriteTxn_def bindR_eq_Inr split: if_splits)
  have "\<exists>txn. s' = withTxn txn s \<and> txHdr txn = hdr \<and> txDirty txn = (\<lambda>_. None)"
  proof (cases "FormatVersion hdr = formatVersionV3")
    case False
    with h(3) show ?thesis
      by (intro exI [of _ "newTxn hdr"]) (simp add: loadWriteTxnFreelist_def withTxn_def newTxn_def)
  next
    case True
    with h(3) obtain t1 n t2 where l: "addLoadedFreePages {} (take (unat (min (FreelistCount hdr) (of_nat HeaderInlineFreelistCapacity)))
          (InlineFreelist hdr)) ((newTxn hdr)\<lparr>txFreePageSet := {}\<rparr>) = Inr t1"
      "loadFreelistPages env (withTxn (newTxn hdr) s) {} (FreelistCount hdr - min (FreelistCount hdr) (of_nat HeaderInlineFreelistCapacity))
          (FreelistHead hdr) (FreelistHeadGeneration hdr) t1 = Inr (n, t2)"
      "s' = withTxn (t2\<lparr>txFreePageIDs := sort (txFreePageIDs t2)\<rparr>) (withTxn (newTxn hdr) s)"
      by (auto simp: loadWriteTxnFreelist_def Let_def bindR_eq_Inr withTxn_def newTxn_def split: if_splits)
    show ?thesis
      using l(3) addLoadedFreePages_keep [OF l(1)] loadFreelistPages_keep [OF l(2)]
      by (intro exI [of _ "t2\<lparr>txFreePageIDs := sort (txFreePageIDs t2)\<rparr>"]) (simp add: withTxn_def newTxn_def)
  qed
  then obtain txn where t: "s' = withTxn txn s" "txHdr txn = hdr" "txDirty txn = (\<lambda>_. None)" by blast
  have "visibleHeader env s' = Inr hdr" by (simp add: t visibleHeader_def withTxn_def)
  with h(2) have vis: "visibleHeader env s' = visibleHeader env s" by simp
  then have "validateRootPageGeneration env s' = validateRootPageGeneration env s"
    by (auto simp: validateRootPageGeneration_def fun_eq_iff)
  then have val: "validateRootPageGeneration env (s\<lparr>egWtxn := Some txn\<rparr>) = validateRootPageGeneration env s"
    by (simp add: t(1) withTxn_def)
  have "readPagePooled env s p = readPagePooled env s' p" for p
    using assms(2) h(1,2) t
    by (simp add: readPagePooled_def readPageFromDisk_def pooledTransformRead_def val withTxn_def vis cong: option.case_cong)
  then show ?thesis using vis by (auto simp: sameReads_def engineOps_def)
qed

subsection \<open>The store as a map\<close>

text \<open>Page ids are 64 bits, so no tree is higher than 2^64 and no chain is longer.\<close>

lemma distinct_pages: "distinct (ps :: uint64 list) \<Longrightarrow> length ps \<le> 2 ^ 64"
proof -
  assume "distinct ps"
  then have "length ps = card (set ps)" by (simp add: distinct_card)
  also have "\<dots> \<le> card (UNIV :: uint64 set)" by (rule card_mono) simp_all
  finally show ?thesis by (simp add: card_word)
qed

lemma height_pids: "height t \<le> length (pids t)"
proof (induction t)
  case (Node pid ks ts)
  have "height u \<le> length (concat (map pids ts))" if "u \<in> set ts" for u
    using Node that by (induction ts) force+
  then have "n \<in> insert 0 (set (map height ts)) \<Longrightarrow> n \<le> length (concat (map pids ts))" for n by force
  then have "Max (insert 0 (set (map height ts))) \<le> length (concat (map pids ts))" by (subst Max_le_iff) auto
  then show ?case by simp
qed simp

lemma leaves_le_pids: "length (leaves t) \<le> length (pids t)"
proof (induction t)
  case (Node pid ks ts)
  have "length (concat (map leaves ts)) \<le> length (concat (map pids ts))"
    using Node by (induction ts) force+
  then show ?case by simp
qed simp

lemma optTree_small:
  assumes "optTree n V ot"
  shows "optHeight ot \<le> 2 ^ 64" "optLeaves ot \<le> 2 ^ 64"
proof -
  have "length (pids t) \<le> 2 ^ 64" if "ot = Some t" for t
    using assms that by (intro distinct_pages) (simp add: optTree_def treeIn_def)
  then show "optHeight ot \<le> 2 ^ 64" "optLeaves ot \<le> 2 ^ 64"
    using height_pids leaves_le_pids
    by (auto simp: optHeight_def optLeaves_def split: option.split) (meson le_trans)+
qed

text \<open>
  \<open>kv c n s M\<close>: the engine is in a write transaction, its pages represent the map \<open>M\<close>
  and there is room for \<open>n\<close> more \<open>Put\<close>s of the largest value.
\<close>

definition cfgOk :: "dbConfig \<Rightarrow> bool" where
  "cfgOk c \<longleftrightarrow> flateOk (cfFlate c) \<and> envMaxValueBytes (cfEnv c) \<le> 2 ^ 20 \<and> 2 ^ 65 + 1 < cfFuel c"

definition valuePages :: "dbConfig \<Rightarrow> nat" where
  "valuePages c = overflowPages (envPageSize (cfEnv c)) (2 * unat (envMaxValueBytes (cfEnv c)) + 69)"

definition kv :: "dbConfig \<Rightarrow> nat \<Rightarrow> engine \<Rightarrow> (bytes \<Rightarrow> bytes option) \<Rightarrow> bool" where
  "kv c n s M \<longleftrightarrow> cfgOk c \<and> engineOk (cfEnv c) s \<and>
     (\<exists>ot C. dbRep (envPageSize (cfEnv c)) (cfFlate c) (engineView (cfEnv c) s) ot C M \<and>
       n * (valuePages c + optHeight ot + n + 4) \<le> svRoom (engineView (cfEnv c) s))"

definition fits :: "dbConfig \<Rightarrow> bytes \<Rightarrow> bytes \<Rightarrow> bool" where
  "fits c key val \<longleftrightarrow> length key \<le> maxKeyBytes \<and> length val \<le> unat (envMaxValueBytes (cfEnv c)) \<and> \<not> isOverflowStub val"

lemma kvE:
  assumes "kv c n s M"
  obtains ot C where "cfgOk c" "engineOk (cfEnv c) s"
    "dbRep (envPageSize (cfEnv c)) (cfFlate c) (engineView (cfEnv c) s) ot C M"
    "n * (valuePages c + optHeight ot + n + 4) \<le> svRoom (engineView (cfEnv c) s)"
    "2 * optHeight ot + 1 < cfFuel c" "optLeaves ot < cfFuel c" "\<forall>k. length (C k) < cfFuel c" "optHeight ot < cfFuel c"
proof -
  from assms obtain ot C where k: "cfgOk c" "engineOk (cfEnv c) s"
    "dbRep (envPageSize (cfEnv c)) (cfFlate c) (engineView (cfEnv c) s) ot C M"
    "n * (valuePages c + optHeight ot + n + 4) \<le> svRoom (engineView (cfEnv c) s)"
    by (auto simp: kv_def)
  have "optHeight ot \<le> 2 ^ 64" "optLeaves ot \<le> 2 ^ 64" using optTree_small k(3) by (auto simp: dbRep_def)
  moreover have C: "length (C k) \<le> 2 ^ 64" for k using k(3) distinct_pages by (simp add: dbRep_def)
  moreover have "(2 :: nat) ^ 65 = 2 * 2 ^ 64" by simp
  moreover have "2 ^ 65 + 1 < cfFuel c" using k(1) by (simp add: cfgOk_def)
  ultimately have "2 * optHeight ot + 1 < cfFuel c" "optLeaves ot < cfFuel c" "optHeight ot < cfFuel c" "2 ^ 64 < cfFuel c"
    by linarith+
  with C that [OF k] show thesis by (meson le_less_trans)
qed

lemma overflowPages_le: "length val \<le> unat (envMaxValueBytes (cfEnv c)) \<Longrightarrow>
    overflowPages (envPageSize (cfEnv c)) (2 * length val + 69) \<le> valuePages c"
  unfolding valuePages_def by (rule txn.overflowPages_mono) simp

lemma kv_mono: "kv c n s M \<Longrightarrow> m \<le> n \<Longrightarrow> kv c m s M"
  unfolding kv_def by (meson add_le_mono le_trans mult_le_mono order_refl)

lemma kv_get: "kv c n s M \<Longrightarrow> treeGet c s key = Inr (M key)"
proof -
  assume "kv c n s M"
  then obtain ot C where k: "engineOk (cfEnv c) s"
    "dbRep (envPageSize (cfEnv c)) (cfFlate c) (engineView (cfEnv c) s) ot C M"
    "optHeight ot < cfFuel c" "\<forall>k. length (C k) < cfFuel c" by (rule kvE)
  from txn.Get_ok [where env = "cfEnv c", unfolded engineOps_page, OF k(1-3)] k(4)
  show ?thesis by (simp add: treeGet_def)
qed

lemma kv_put:
  assumes "kv c (Suc n) s M" "fits c key val"
  shows "\<exists>s'. treePut c key val s = Inr s' \<and> kv c n s' (M(key \<mapsto> val))"
proof -
  from assms(1) obtain ot C where k: "cfgOk c" "engineOk (cfEnv c) s"
    "dbRep (envPageSize (cfEnv c)) (cfFlate c) (engineView (cfEnv c) s) ot C M"
    "Suc n * (valuePages c + optHeight ot + Suc n + 4) \<le> svRoom (engineView (cfEnv c) s)"
    "\<forall>k. length (C k) < cfFuel c" "optHeight ot < cfFuel c" by (rule kvE)
  let ?K = "overflowPages (envPageSize (cfEnv c)) (2 * length val + 69)"
  have K: "?K \<le> valuePages c" using assms(2) by (intro overflowPages_le) (simp add: fits_def)
  then have room: "?K + optHeight ot + 4 \<le> svRoom (engineView (cfEnv c) s)" using k(4) by simp
  have f: "flateOk (cfFlate c)" "length key \<le> maxKeyBytes" "length val \<le> unat (envMaxValueBytes (cfEnv c))"
    "envMaxValueBytes (cfEnv c) \<le> 2 ^ 20" "\<not> isOverflowStub val" "length (C key) < cfFuel c"
    using assms(2) k(1,5) by (simp_all add: fits_def cfgOk_def)
  have mv: "opMaxValueBytes (engineOps (cfEnv c)) = envMaxValueBytes (cfEnv c)" by (simp add: engineOps_def)
  from txn.Put_ok [where env = "cfEnv c", unfolded engineOps_page mv, OF k(2,3) f(1-5) k(6) f(6) room]
  obtain s' t C' where p: "Put (engineOps (cfEnv c)) (cfFlate c) (cfFuel c) key val s = Inr s'" "engineOk (cfEnv c) s'"
    "dbRep (envPageSize (cfEnv c)) (cfFlate c) (engineView (cfEnv c) s') (Some t) C' (M(key \<mapsto> val))"
    "height t \<le> optHeight ot + 1"
    "svRoom (engineView (cfEnv c) s) \<le> svRoom (engineView (cfEnv c) s') + ?K + optHeight ot + 4" by blast
  have "n * (valuePages c + height t + n + 4) \<le> n * (valuePages c + optHeight ot + Suc n + 4)"
    using p(4) by (intro mult_le_mono2) simp
  moreover have "n * (valuePages c + optHeight ot + Suc n + 4) + (valuePages c + optHeight ot + Suc n + 4) \<le> svRoom (engineView (cfEnv c) s)"
    using k(4) by simp
  ultimately have "n * (valuePages c + height t + n + 4) \<le> svRoom (engineView (cfEnv c) s')"
    using p(5) K by linarith
  then have "kv c n s' (M(key \<mapsto> val))" using k(1) p(2,3) by (auto simp: kv_def optHeight_def intro!: exI [of _ "Some t"])
  then show ?thesis using p(1) by (simp add: treePut_def)
qed

text \<open>
  A key that is alone in a leaf other than the first: its deletion leaves the leaf in the chain
  (\<open>DeleteMap\<close>), which the map of the store does not survive.
\<close>

definition lonely :: "dbConfig \<Rightarrow> engine \<Rightarrow> bytes \<Rightarrow> bool" where
  "lonely c s key \<longleftrightarrow> (\<exists>ot. optTree (envPageSize (cfEnv c)) (engineView (cfEnv c) s) ot \<and> aloneInLeaf ot key)"

lemma kv_delete:
  assumes "kv c n s M" "length key \<le> maxKeyBytes" "\<not> lonely c s key"
  shows "(\<exists>e. treeDelete c key s = Inl e \<and> pageFull e) \<or> (\<exists>s'. treeDelete c key s = Inr s' \<and> kv c n s' (M(key := None)))"
proof -
  from assms(1) obtain ot C where k: "cfgOk c" "engineOk (cfEnv c) s"
    "dbRep (envPageSize (cfEnv c)) (cfFlate c) (engineView (cfEnv c) s) ot C M"
    "n * (valuePages c + optHeight ot + n + 4) \<le> svRoom (engineView (cfEnv c) s)"
    "\<forall>k. length (C k) < cfFuel c" "optHeight ot < cfFuel c" by (rule kvE)
  have "\<not> aloneInLeaf ot key" using assms(3) k(3) by (auto simp: lonely_def dbRep_def)
  from txn.Delete_ok [where env = "cfEnv c", unfolded engineOps_page, OF k(2,3) assms(2) k(6) _ this] k(5)
  consider (full) e where "Delete (engineOps (cfEnv c)) (cfFuel c) key s = Inl e" "pageFull e"
    | (gone) s' ot' where "Delete (engineOps (cfEnv c)) (cfFuel c) key s = Inr s'" "engineOk (cfEnv c) s'"
      "dbRep (envPageSize (cfEnv c)) (cfFlate c) (engineView (cfEnv c) s') ot' (C(key := [])) (M(key := None))"
      "optHeight ot' \<le> optHeight ot" "svRoom (engineView (cfEnv c) s) \<le> svRoom (engineView (cfEnv c) s')"
    by blast
  then show ?thesis
  proof cases
    case gone
    have "n * (valuePages c + optHeight ot' + n + 4) \<le> n * (valuePages c + optHeight ot + n + 4)"
      using gone(4) by (intro mult_le_mono2) simp
    then have "kv c n s' (M(key := None))"
      using k(1,4) gone(2,3,5) unfolding kv_def by (meson le_trans)
    then show ?thesis using gone(1) by (simp add: treeDelete_def)
  qed (simp add: treeDelete_def)
qed

lemma kv_scans:
  assumes "kv c n s M"
  shows "treeAscend c s start to fn acc = visit Inr fn (filter (\<lambda>(k, v). inRange start to k) (contents M)) acc"
    "treeDescend c s start to fn acc = visit Inr fn (rev (filter (\<lambda>(k, v). inRange start to k) (contents M))) acc"
proof -
  from assms obtain ot C where k: "engineOk (cfEnv c) s"
    "dbRep (envPageSize (cfEnv c)) (cfFlate c) (engineView (cfEnv c) s) ot C M"
    "2 * optHeight ot + 1 < cfFuel c" "optLeaves ot < cfFuel c" "\<forall>k. length (C k) < cfFuel c" by (rule kvE)
  from txn.scans_ok [where env = "cfEnv c", unfolded engineOps_page, OF this]
  show "treeAscend c s start to fn acc = visit Inr fn (filter (\<lambda>(k, v). inRange start to k) (contents M)) acc"
    "treeDescend c s start to fn acc = visit Inr fn (rev (filter (\<lambda>(k, v). inRange start to k) (contents M))) acc"
    by (simp_all add: treeAscend_def treeDescend_def)
qed

subsection \<open>The laws of the store\<close>

text \<open>Handing a list of entries to a callback until it stops.\<close>

fun pass :: "'a visitor \<Rightarrow> (bytes \<times> bytes) list \<Rightarrow> 'a \<Rightarrow> 'a" where
  "pass fn [] acc = acc"
| "pass fn ((k, v) # kvs) acc = (case fn k v acc of (goOn, acc) \<Rightarrow> if goOn then pass fn kvs acc else acc)"

lemma visit_pass: "visit Inr fn kvs acc = Inr (pass fn kvs acc)"
  by (induction kvs arbitrary: acc) (auto split: prod.split)

definition rows :: "(bytes \<Rightarrow> bytes option) \<Rightarrow> bytes option \<Rightarrow> bytes option \<Rightarrow> (bytes \<times> bytes) list" where
  "rows M start to = filter (\<lambda>(k, v). inRange start to k) (contents M)"

text \<open>A transaction on a store that holds the map \<open>M\<close>.\<close>

definition holds :: "dbConfig \<Rightarrow> nat \<Rightarrow> Tx \<Rightarrow> (bytes \<Rightarrow> bytes option) \<Rightarrow> bool" where
  "holds c n tx M \<longleftrightarrow> txOpen tx \<and>
     (if txWritable tx then kv c n (txStore tx) M
      else \<exists>s. BeginWriteTxn (cfEnv c) (txStore tx) = Inr s \<and> kv c n s M \<and> txRoot tx = svRoot (engineView (cfEnv c) s))"

lemma kv_root:
  assumes "kv c n s M"
  shows "opRoot (engineOps (cfEnv c)) s = Inr (svRoot (engineView (cfEnv c) s))"
  using assms txn.read_root unfolding kv_def by blast

lemma holds_readonly:
  assumes "holds c n tx M" "\<not> txWritable tx"
  obtains s where "sameReads (engineOps (cfEnv c)) (txStore tx) s" "kv c n s M" "txRoot tx = svRoot (engineView (cfEnv c) s)"
proof -
  from assms obtain s where s: "BeginWriteTxn (cfEnv c) (txStore tx) = Inr s" "kv c n s M"
    "txRoot tx = svRoot (engineView (cfEnv c) s)" by (auto simp: holds_def)
  then have "egOverlay s = (\<lambda>_. None)" by (simp add: kv_def engineOk_def)
  from that [OF begin_same [OF s(1) this] s(2,3)] show thesis .
qed

lemma fromRoot:
  assumes "kv c n s M" "root = svRoot (engineView (cfEnv c) s)"
  shows "treeGetUsingRoot c s root key = treeGet c s key"
    "treeAscendFromRoot c s root start to fn acc = treeAscend c s start to fn acc"
    "treeDescendFromRoot c s root start to fn acc = treeDescend c s start to fn acc"
  by (simp_all add: treeGetUsingRoot_def treeGet_def Get_def treeAscendFromRoot_def treeAscend_def AscendRange_def
      treeDescendFromRoot_def treeDescend_def DescendRange_def kv_root [OF assms(1)] assms(2))

lemma holds_get:
  assumes "holds c n tx M"
  shows "TxGet c tx key = Inr (M key)" "getDirect c tx key = Inr (M key)"
proof -
  show "getDirect c tx key = Inr (M key)"
  proof (cases "txWritable tx")
    case True
    then have k: "kv c n (txStore tx) M" using assms by (simp add: holds_def)
    show ?thesis using True by (simp add: getDirect_def kv_get [OF k])
  next
    case False
    from assms False obtain s where s: "sameReads (engineOps (cfEnv c)) (txStore tx) s" "kv c n s M"
      "txRoot tx = svRoot (engineView (cfEnv c) s)" by (rule holds_readonly)
    show ?thesis using False by (simp add: getDirect_def tree_same [OF s(1)] fromRoot [OF s(2,3)] kv_get [OF s(2)])
  qed
  then show "TxGet c tx key = Inr (M key)" using assms by (auto simp: TxGet_def getDirect_def holds_def)
qed

lemma holds_scan:
  assumes "holds c n tx M"
  shows "TxAscendRange c tx start to fn acc = Inr (pass fn (rows M start to) acc)"
    "descendRange c tx start to fn acc = Inr (pass fn (rev (rows M start to)) acc)"
proof -
  have o: "txOpen tx" using assms by (simp add: holds_def)
  show "TxAscendRange c tx start to fn acc = Inr (pass fn (rows M start to) acc)"
    "descendRange c tx start to fn acc = Inr (pass fn (rev (rows M start to)) acc)"
  proof (atomize (full), cases "txWritable tx")
    case True
    then have k: "kv c n (txStore tx) M" using assms by (simp add: holds_def)
    from True show "TxAscendRange c tx start to fn acc = Inr (pass fn (rows M start to) acc) \<and>
        descendRange c tx start to fn acc = Inr (pass fn (rev (rows M start to)) acc)"
      using o by (simp add: TxAscendRange_def descendRange_def kv_scans [OF k] visit_pass rows_def)
  next
    case False
    from assms False obtain s where s: "sameReads (engineOps (cfEnv c)) (txStore tx) s" "kv c n s M"
      "txRoot tx = svRoot (engineView (cfEnv c) s)" by (rule holds_readonly)
    show "TxAscendRange c tx start to fn acc = Inr (pass fn (rows M start to) acc) \<and>
        descendRange c tx start to fn acc = Inr (pass fn (rev (rows M start to)) acc)"
      using False o by (simp add: TxAscendRange_def descendRange_def tree_same [OF s(1)] fromRoot [OF s(2,3)]
          kv_scans [OF s(2)] visit_pass rows_def)
  qed
qed

lemma holds_put:
  assumes "holds c (Suc n) tx M" "txWritable tx" "fits c key val"
  shows "\<exists>s. putDirect c key val tx = Inr (tx\<lparr>txStore := s\<rparr>) \<and> holds c n (tx\<lparr>txStore := s\<rparr>) (M(key \<mapsto> val))"
proof -
  have h: "kv c (Suc n) (txStore tx) M" "txOpen tx" using assms(1,2) by (auto simp: holds_def)
  from kv_put [OF h(1) assms(3)] obtain s where "treePut c key val (txStore tx) = Inr s" "kv c n s (M(key \<mapsto> val))" by blast
  then show ?thesis using h(2) assms(2) by (auto simp: putDirect_def requireWritable_def holds_def)
qed

lemma holds_delete:
  assumes "holds c n tx M" "txWritable tx" "length key \<le> maxKeyBytes" "\<not> lonely c (txStore tx) key"
  shows "(\<exists>e. deleteDirect c key tx = Inl (ErrCorruptDatabase (Some (OfEngine e))) \<and> pageFull e) \<or>
    (\<exists>s. deleteDirect c key tx = Inr (tx\<lparr>txStore := s\<rparr>) \<and> holds c n (tx\<lparr>txStore := s\<rparr>) (M(key := None)))"
proof -
  have h: "kv c n (txStore tx) M" "txOpen tx" using assms(1,2) by (auto simp: holds_def)
  have e: "pageFull e \<Longrightarrow> mapEngineDataError e = ErrCorruptDatabase (Some (OfEngine e))" for e
    by (auto simp: pageFull_def mapEngineDataError_def)
  from kv_delete [OF h(1) assms(3,4)] show ?thesis
    using h(2) assms(2) e by (auto simp: deleteDirect_def requireWritable_def holds_def)
qed

lemma holds_mono: "holds c n tx M \<Longrightarrow> m \<le> n \<Longrightarrow> holds c m tx M"
  by (auto simp: holds_def intro: kv_mono split: if_splits)

lemma holds_update:
  "holds c n (tx\<lparr>txOverlay := ov\<rparr>) M = holds c n tx M" "holds c n (tx\<lparr>txDeleted := del\<rparr>) M = holds c n tx M"
  "holds c n (tx\<lparr>txClog := cl\<rparr>) M = holds c n tx M"
  by (simp_all add: holds_def)

lemma kv_finite: "kv c n s M \<Longrightarrow> finite (dom M)"
proof -
  assume "kv c n s M"
  then obtain ot C where r: "dbRep (envPageSize (cfEnv c)) (cfFlate c) (engineView (cfEnv c) s) ot C M" by (rule kvE)
  have "dom M \<subseteq> fst ` set (optEntries ot)"
  proof
    fix k
    assume "k \<in> dom M"
    then have "M k \<noteq> None" by (simp add: domIff)
    then have "map_of (optEntries ot) k \<noteq> None" by (intro notI) (simp add: dbRep_no_entry(1) [OF r])
    then show "k \<in> fst ` set (optEntries ot)" by (simp add: map_of_eq_None_iff)
  qed
  then show ?thesis by (rule finite_subset) simp
qed

lemma holds_finite: "holds c n tx M \<Longrightarrow> finite (dom M)"
  using kv_finite by (auto simp: holds_def split: if_splits)

subsection \<open>Rows in key order\<close>

lemma rows_facts:
  assumes "finite (dom M)"
  shows "set (rows M start to) = {(k, v). M k = Some v \<and> inRange start to k}"
    "sorted_wrt (<) (map fst (rows M start to))"
proof -
  have s: "set (sorted_list_of_set (dom M)) = dom M" "sorted_wrt (<) (sorted_list_of_set (dom M))"
    using assms by simp_all
  show "set (rows M start to) = {(k, v). M k = Some v \<and> inRange start to k}"
    using s(1) by (auto simp: rows_def contents_def)
  have "rows M start to = map (\<lambda>k. (k, the (M k))) (filter (inRange start to) (sorted_list_of_set (dom M)))"
    by (simp add: rows_def contents_def filter_map comp_def)
  then show "sorted_wrt (<) (map fst (rows M start to))"
    using sorted_wrt_filter [OF s(2)] by (simp add: comp_def)
qed

text \<open>The first row below a bound that a test accepts.\<close>

lemma find_greatest:
  assumes "sorted_wrt (>) (map fst kvs)" "(k, v) \<in> set kvs" "P k v" "\<And>k' v'. (k', v') \<in> set kvs \<Longrightarrow> P k' v' \<Longrightarrow> k' \<le> (k :: bytes)"
  shows "find (\<lambda>(k, v). P k v) kvs = Some (k, v)"
  using assms
proof (induction kvs)
  case (Cons e kvs)
  obtain k0 v0 where e: "e = (k0, v0)" by force
  show ?case
  proof (cases "P k0 v0")
    case True
    then have "k0 \<le> k" using Cons.prems(4) [of k0 v0] e by simp
    then have "(k, v) = (k0, v0)" using Cons.prems(1,2) e by (auto simp: image_iff)
    then show ?thesis using e True by simp
  next
    case False
    then have "(k, v) \<in> set kvs" using Cons.prems(2,3) e by auto
    moreover have "sorted_wrt (>) (map fst kvs)" using Cons.prems(1) by simp
    ultimately have "find (\<lambda>(k, v). P k v) kvs = Some (k, v)"
      using Cons.IH Cons.prems(3,4) by (metis list.set_intros(2))
    then show ?thesis using e False by simp
  qed
qed simp

lemma pass_find:
  "pass (\<lambda>k v acc. case parse k of None \<Rightarrow> (True, acc) | Some seq \<Rightarrow> (False, Some (v, seq))) kvs acc =
   (case find (\<lambda>(k, v). parse k \<noteq> None) kvs of None \<Rightarrow> acc | Some (k, v) \<Rightarrow> Some (v, the (parse k)))"
  by (induction kvs arbitrary: acc) (auto split: option.split)

subsection \<open>Versions of a logical key\<close>

text \<open>
  The newest version of a record at a commit number: what the version lookup should find.
  \<open>row\<close> is the key of each version.
\<close>

definition newest :: "(bytes \<Rightarrow> bytes option) \<Rightarrow> (uint64 \<Rightarrow> bytes) \<Rightarrow> uint64 \<Rightarrow> (bytes \<times> uint64) option" where
  "newest M row r = (if \<exists>s \<le> r. M (row s) \<noteq> None
     then let s = Max {s. s \<le> r \<and> M (row s) \<noteq> None} in Some (the (M (row s)), s) else None)"

lemma newest_Some:
  "newest M row r = Some (v, s) \<longleftrightarrow> s \<le> r \<and> M (row s) = Some v \<and> (\<forall>s'. s' \<le> r \<and> M (row s') \<noteq> None \<longrightarrow> s' \<le> s)"
proof
  let ?S = "{s. s \<le> r \<and> M (row s) \<noteq> None}"
  assume "newest M row r = Some (v, s)"
  then have e: "?S \<noteq> {}" and v: "s = Max ?S" "v = the (M (row s))" by (auto simp: newest_def Let_def split: if_splits)
  have "Max ?S \<in> ?S" "\<forall>s' \<in> ?S. s' \<le> Max ?S" using e Max_in [of ?S] by simp_all
  then show "s \<le> r \<and> M (row s) = Some v \<and> (\<forall>s'. s' \<le> r \<and> M (row s') \<noteq> None \<longrightarrow> s' \<le> s)"
    unfolding v(1) [symmetric] using v(2) by auto
next
  assume s: "s \<le> r \<and> M (row s) = Some v \<and> (\<forall>s'. s' \<le> r \<and> M (row s') \<noteq> None \<longrightarrow> s' \<le> s)"
  then have "Max {s. s \<le> r \<and> M (row s) \<noteq> None} = s" by (intro Max_eqI) auto
  then show "newest M row r = Some (v, s)" using s by (auto simp: newest_def Let_def)
qed

lemma newest_None: "newest M row r = None \<longleftrightarrow> (\<forall>s \<le> r. M (row s) = None)"
  by (auto simp: newest_def Let_def)

lemma newest_cong: "(\<And>s. s \<le> r \<Longrightarrow> M (row s) = M' (row' s)) \<Longrightarrow> newest M row r = newest M' row' r"
proof -
  assume eq: "\<And>s. s \<le> r \<Longrightarrow> M (row s) = M' (row' s)"
  show ?thesis
  proof (cases "newest M' row' r")
    case None
    moreover have "newest M row r = None" using None eq unfolding newest_None by simp
    ultimately show ?thesis by simp
  next
    case (Some vs)
    obtain v s where vs: "vs = (v, s)" by force
    have "newest M row r = Some (v, s)" using Some eq unfolding newest_Some vs by auto
    then show ?thesis using Some vs by simp
  qed
qed

text \<open>
  A family of versioned rows: the keys of the versions of one record are ordered by their commit
  numbers, and between the first and a later one the parser accepts no other key.
\<close>

locale version_rows =
  fixes row :: "uint64 \<Rightarrow> bytes" and parse :: "bytes \<Rightarrow> uint64 option"
  assumes row_less: "row s < row s' \<longleftrightarrow> s < s'"
    and parse_row: "parse (row s) = Some s"
    and parse_between: "row 0 \<le> k \<Longrightarrow> k \<le> row r \<Longrightarrow> parse k = Some s \<Longrightarrow> k = row s"
begin

lemma row_le: "row s \<le> row s' \<longleftrightarrow> s \<le> s'"
  using row_less [of s' s] by (simp add: not_less [symmetric])

lemma row_eq: "row s = row s' \<longleftrightarrow> s = s'"
  using row_le [of s s'] row_le [of s' s] by (auto simp: order.antisym)

lemma getVisibleVersion_newest:
  assumes "holds c n tx M"
  shows "getVisibleVersionRaw c tx (row 0) (row r) parse = Inr (newest M row r)"
proof -
  let ?kvs = "rev (rows M (Some (row 0)) (Some (row r)))"
  note fin = holds_finite [OF assms]
  have s: "sorted_wrt (>) (map fst ?kvs)" 
    using rows_facts(2) [OF fin, of "Some (row 0)" "Some (row r)"] by (simp add: sorted_wrt_rev rev_map flip: rev_map)
  have m: "(k, v) \<in> set (rows M (Some (row 0)) (Some (row r))) \<longleftrightarrow> M k = Some v \<and> row 0 \<le> k \<and> k \<le> row r" for k v
    using rows_facts(1) [OF fin] by (simp add: inRange_def)
  have "(case find (\<lambda>(k, v). parse k \<noteq> None) ?kvs of None \<Rightarrow> None | Some (k, v) \<Rightarrow> Some (v, the (parse k))) = newest M row r"
  proof (cases "newest M row r")
    case None
    have "\<not> (\<exists>kv \<in> set ?kvs. case kv of (k, v) \<Rightarrow> parse k \<noteq> None)"
    proof
      assume "\<exists>kv \<in> set ?kvs. case kv of (k, v) \<Rightarrow> parse k \<noteq> None"
      then obtain k v s' where "M k = Some v" "row 0 \<le> k" "k \<le> row r" "parse k = Some s'" using m by auto
      then show False using None parse_between [of k r s'] by (auto simp: newest_None row_le)
    qed
    then have "find (\<lambda>(k, v). parse k \<noteq> None) ?kvs = None" by (auto simp: find_None_iff)
    then show ?thesis using None by simp
  next
    case (Some vs)
    obtain v s' where vs: "vs = (v, s')" by force
    with Some have n: "s' \<le> r" "M (row s') = Some v" "\<forall>s. s \<le> r \<and> M (row s) \<noteq> None \<longrightarrow> s \<le> s'"
      by (simp_all add: newest_Some)
    have "find (\<lambda>(k, v). parse k \<noteq> None) ?kvs = Some (row s', v)"
    proof (rule find_greatest [OF s])
      show "(row s', v) \<in> set ?kvs" using n by (simp add: m row_le)
      show "parse (row s') \<noteq> None" by (simp add: parse_row)
      show "k' \<le> row s'" if kv: "(k', v') \<in> set ?kvs" "parse k' \<noteq> None" for k' v'
      proof -
        from kv obtain t where "M k' = Some v'" "row 0 \<le> k'" "k' \<le> row r" "parse k' = Some t" using m by auto
        with parse_between [OF this(2-4)] n(3) show ?thesis by (simp add: row_le)
      qed
    qed
    then show ?thesis using Some vs by (simp add: parse_row)
  qed
  then show ?thesis by (simp add: getVisibleVersionRaw_def holds_scan [OF assms] pass_find)
qed

text \<open>Writing a version that is newer than all others changes no older snapshot.\<close>

lemma newest_put_old: "r < s \<Longrightarrow> newest (M(row s \<mapsto> v)) row r = newest M row r"
  by (rule newest_cong) (auto simp: row_eq)

lemma newest_put_new:
  assumes "s \<le> r" "\<And>s'. s' \<le> r \<Longrightarrow> M (row s') \<noteq> None \<Longrightarrow> s' \<le> s"
  shows "newest (M(row s \<mapsto> v)) row r = Some (v, s)"
  using assms by (auto simp: newest_Some row_eq)

end

end
