(* ===== verification/HnswGraph.thy ===== *)
theory HnswGraph
  imports TxStore
begin

text \<open>
  The nearest-neighbour graph of \<open>internal/hnsw\<close>: the node and metadata formats of
  \<open>node.go\<close> and insertion, search and deletion of \<open>graph.go\<close> over the storage
  interface. A vector is an element of any type; the similarity of two vectors and the
  floating-point part of the layer choice are parameters, and so is the sorting of
  \<open>sort.Slice\<close>, which may put equal scores in any order. Scores are taken from a linear
  order: stored vectors are finite, so that no score is a NaN. The two loops of a search take fuel, one
  unit per round; the theorems show that the number of stored vectors is enough.
\<close>

subsection \<open>Nodes and metadata\<close>

record HnswNode =
  hnCoord :: PackedCoord
  hnMaxLayer :: byte
  hnNeighbors :: "PackedCoord list list"

record HnswMeta =
  hmM :: uint16
  hmEfC :: uint16
  hmMaxLayer :: byte
  hmCount :: uint64

definition appendCoordBE :: "PackedCoord \<Rightarrow> bytes" where
  "appendCoordBE c = PutUint64 (packedHi c) @ PutUint64 (packedLo c)"

definition EncodeNode :: "HnswNode \<Rightarrow> bytes" where
  "EncodeNode n = hnMaxLayer n #
     concat (map (\<lambda>layer. PutUint16 (of_nat (length layer)) @ concat (map appendCoordBE layer)) (hnNeighbors n))"

primrec decodeNeighbors :: "nat \<Rightarrow> bytes \<Rightarrow> dbError + PackedCoord list" where
  "decodeNeighbors 0 data = Inr []"
| "decodeNeighbors (Suc n) data =
     (let c = PackedCoord (Uint64 (slice 8 16 data)) (Uint64 (slice 0 8 data))
      in if \<not> isOk (Unpack c) then Inl (ErrCorruptGraph ''invalid layer neighbor'')
         else mapR ((#) c) (decodeNeighbors n (drop 16 data)))"

primrec decodeLayers :: "nat \<Rightarrow> bytes \<Rightarrow> dbError + PackedCoord list list \<times> bytes" where
  "decodeLayers 0 data = Inr ([], data)"
| "decodeLayers (Suc n) data =
     (if length data < 2 then Inl (ErrCorruptGraph ''truncated layer count'')
      else let cnt = unat (Uint16 (take 2 data)); data = drop 2 data; need = cnt * 16
      in if length data < need then Inl (ErrCorruptGraph ''truncated layer neighbors'')
      else bindR (decodeNeighbors cnt data) (\<lambda>layer.
           bindR (decodeLayers n (drop need data)) (\<lambda>(layers, rest). Inr (layer # layers, rest))))"

definition DecodeNode :: "PackedCoord \<Rightarrow> bytes \<Rightarrow> dbError + HnswNode" where
  "DecodeNode coord data =
     (case data of
        [] \<Rightarrow> Inl (ErrCorruptGraph ''node data too short'')
      | maxLayer # data \<Rightarrow>
          if \<not> isOk (Unpack coord) then Inl (ErrCorruptGraph ''invalid node coordinate'')
          else bindR (decodeLayers (unat maxLayer + 1) data) (\<lambda>(layers, rest).
            if rest \<noteq> [] then Inl (ErrCorruptGraph ''trailing bytes'')
            else Inr \<lparr>hnCoord = coord, hnMaxLayer = maxLayer, hnNeighbors = layers\<rparr>))"

definition EncodeMeta :: "HnswMeta \<Rightarrow> bytes" where
  "EncodeMeta m = PutUint16 (hmM m) @ PutUint16 (hmEfC m) @ [hmMaxLayer m] @ PutUint64 (hmCount m)"

definition DecodeMeta :: "bytes \<Rightarrow> dbError + HnswMeta" where
  "DecodeMeta data =
     (if length data \<noteq> 13 then Inl (ErrCorruptGraph ''meta must be exactly 13 bytes'')
      else let m = \<lparr>hmM = Uint16 (slice 0 2 data), hmEfC = Uint16 (slice 2 4 data), hmMaxLayer = data ! 4,
             hmCount = Uint64 (slice 5 13 data)\<rparr>
      in if hmM m < 2 then Inl (ErrCorruptGraph ''M must be at least 2'')
         else if hmEfC m = 0 then Inl (ErrCorruptGraph ''EfConstruction must be positive'')
         else Inr m)"

subsection \<open>Storage\<close>

text \<open>The \<open>Storage\<close> interface, on a state \<open>'s\<close> with vectors \<open>'v\<close>.\<close>

record ('s, 'v) hnswStorage =
  GetHNSWMeta :: "'s \<Rightarrow> dbError + HnswMeta option"
  PutHNSWMeta :: "HnswMeta \<Rightarrow> 's \<Rightarrow> dbError + 's"
  GetHNSWEntry :: "'s \<Rightarrow> dbError + PackedCoord option"
  PutHNSWEntry :: "PackedCoord \<Rightarrow> 's \<Rightarrow> dbError + 's"
  DeleteHNSWEntry :: "'s \<Rightarrow> dbError + 's"
  GetHNSWNode :: "'s \<Rightarrow> PackedCoord \<Rightarrow> dbError + HnswNode option"
  PutHNSWNode :: "HnswNode \<Rightarrow> 's \<Rightarrow> dbError + 's"
  DeleteHNSWNode :: "PackedCoord \<Rightarrow> 's \<Rightarrow> dbError + 's"
  GetEmbeddingVec :: "'s \<Rightarrow> PackedCoord \<Rightarrow> dbError + 'v option"

definition DefaultM :: uint16 where "DefaultM = 16"
definition DefaultEfConstruction :: uint16 where "DefaultEfConstruction = 200"

text \<open>
  The two lists of a search are in descending order of similarity. \<open>insertSorted\<close> is the
  bisection of \<open>sort.Search\<close> and the insertion behind it.
\<close>

type_synonym 'd scored = "PackedCoord \<times> 'd"

definition insertSorted :: "'d::linorder scored list \<Rightarrow> 'd scored \<Rightarrow> 'd scored list" where
  "insertSorted a s = (let i = sortSearch (length a) (\<lambda>j. snd (a ! j) < snd s) in take i a @ s # drop i a)"

subsection \<open>Search\<close>

text \<open>One round over the neighbours of the current point; the flag says whether it moved.\<close>

primrec greedyNeighbors ::
  "('s, 'v) hnswStorage \<Rightarrow> ('v \<Rightarrow> 'v \<Rightarrow> 'd::linorder) \<Rightarrow> 's \<Rightarrow> 'v \<Rightarrow> PackedCoord list \<Rightarrow>
   PackedCoord \<times> 'd \<times> bool \<Rightarrow> dbError + PackedCoord \<times> 'd \<times> bool" where
  "greedyNeighbors st sim s vec [] ep = Inr ep"
| "greedyNeighbors st sim s vec (nbr # nbrs) ep =
     bindR (GetEmbeddingVec st s nbr) (\<lambda>nv.
       case nv of
         None \<Rightarrow> Inl (ErrCorruptGraph ''descent neighbor embedding is missing'')
       | Some nbrVec \<Rightarrow>
           let d = sim vec nbrVec
           in greedyNeighbors st sim s vec nbrs (if d > fst (snd ep) then (nbr, d, True) else ep))"

primrec greedyLayer ::
  "('s, 'v) hnswStorage \<Rightarrow> ('v \<Rightarrow> 'v \<Rightarrow> 'd::linorder) \<Rightarrow> nat \<Rightarrow> 's \<Rightarrow> 'v \<Rightarrow> nat \<Rightarrow> PackedCoord \<Rightarrow> 'd \<Rightarrow>
   dbError + PackedCoord \<times> 'd" where
  "greedyLayer st sim 0 s vec lc ep epDist = Inl (OfEngine OutOfFuel)"
| "greedyLayer st sim (Suc fuel) s vec lc ep epDist =
     bindR (GetHNSWNode st s ep) (\<lambda>n.
       case n of
         None \<Rightarrow> Inl (ErrCorruptGraph ''descent node is missing'')
       | Some epNode \<Rightarrow>
           if lc \<ge> length (hnNeighbors epNode) then Inl (ErrCorruptGraph ''descent node is missing layer'')
           else bindR (greedyNeighbors st sim s vec (hnNeighbors epNode ! lc) (ep, epDist, False)) (\<lambda>(ep, epDist, changed).
             if changed then greedyLayer st sim fuel s vec lc ep epDist else Inr (ep, epDist)))"

text \<open>The layers from the start down to the stop: the list \<open>lcs\<close>.\<close>

primrec greedyLayers ::
  "('s, 'v) hnswStorage \<Rightarrow> ('v \<Rightarrow> 'v \<Rightarrow> 'd::linorder) \<Rightarrow> nat \<Rightarrow> 's \<Rightarrow> 'v \<Rightarrow> nat list \<Rightarrow> PackedCoord \<Rightarrow> 'd \<Rightarrow>
   dbError + PackedCoord \<times> 'd" where
  "greedyLayers st sim fuel s vec [] ep epDist = Inr (ep, epDist)"
| "greedyLayers st sim fuel s vec (lc # lcs) ep epDist =
     bindR (greedyLayer st sim fuel s vec lc ep epDist) (\<lambda>(ep, epDist). greedyLayers st sim fuel s vec lcs ep epDist)"

definition greedyDescend ::
  "('s, 'v) hnswStorage \<Rightarrow> ('v \<Rightarrow> 'v \<Rightarrow> 'd::linorder) \<Rightarrow> nat \<Rightarrow> 's \<Rightarrow> 'v \<Rightarrow> PackedCoord \<Rightarrow> 'v \<Rightarrow> nat \<Rightarrow> nat \<Rightarrow>
   dbError + PackedCoord \<times> 'd" where
  "greedyDescend st sim fuel s vec ep epVec startLayer stopLayer =
     greedyLayers st sim fuel s vec (rev [stopLayer ..< startLayer + 1]) ep (sim vec epVec)"

definition neighborsAtLayer ::
  "('s, 'v) hnswStorage \<Rightarrow> 's \<Rightarrow> PackedCoord \<Rightarrow> nat \<Rightarrow> dbError + PackedCoord list" where
  "neighborsAtLayer st s coord layer =
     bindR (GetHNSWNode st s coord) (\<lambda>n.
       case n of
         None \<Rightarrow> Inl (ErrCorruptGraph ''candidate node is missing'')
       | Some node \<Rightarrow>
           if layer \<ge> length (hnNeighbors node) then Inl (ErrCorruptGraph ''candidate node is missing layer'')
           else Inr (hnNeighbors node ! layer))"

primrec expandSearchNeighbors ::
  "('s, 'v) hnswStorage \<Rightarrow> ('v \<Rightarrow> 'v \<Rightarrow> 'd::linorder) \<Rightarrow> 's \<Rightarrow> 'v \<Rightarrow> nat \<Rightarrow> PackedCoord list \<Rightarrow>
   PackedCoord set \<Rightarrow> 'd scored list \<Rightarrow> 'd scored list \<Rightarrow>
   dbError + PackedCoord set \<times> 'd scored list \<times> 'd scored list" where
  "expandSearchNeighbors st sim s vec ef [] visited candidates results = Inr (visited, candidates, results)"
| "expandSearchNeighbors st sim s vec ef (nbr # nbrs) visited candidates results =
     (if nbr \<in> visited then expandSearchNeighbors st sim s vec ef nbrs visited candidates results
      else bindR (GetEmbeddingVec st s nbr) (\<lambda>nv.
        case nv of
          None \<Rightarrow> Inl (ErrCorruptGraph ''neighbor embedding is missing'')
        | Some nbrVec \<Rightarrow>
            let visited = insert nbr visited; distance = sim vec nbrVec
            in if length results < ef \<or> distance > snd (results ! (length results - 1))
               then let result = (nbr, distance); results = insertSorted results result;
                      results = (if length results > ef then take ef results else results)
                    in expandSearchNeighbors st sim s vec ef nbrs visited (insertSorted candidates result) results
               else expandSearchNeighbors st sim s vec ef nbrs visited candidates results))"

primrec searchLoop ::
  "('s, 'v) hnswStorage \<Rightarrow> ('v \<Rightarrow> 'v \<Rightarrow> 'd::linorder) \<Rightarrow> nat \<Rightarrow> 's \<Rightarrow> 'v \<Rightarrow> nat \<Rightarrow> nat \<Rightarrow>
   PackedCoord set \<Rightarrow> 'd scored list \<Rightarrow> 'd scored list \<Rightarrow> dbError + 'd scored list" where
  "searchLoop st sim 0 s vec ef layer visited candidates results = Inl (OfEngine OutOfFuel)"
| "searchLoop st sim (Suc fuel) s vec ef layer visited candidates results =
     (case candidates of
        [] \<Rightarrow> Inr results
      | best # candidates \<Rightarrow>
          if snd best < snd (results ! (length results - 1)) \<and> length results \<ge> ef then Inr results
          else bindR (neighborsAtLayer st s (fst best) layer) (\<lambda>neighbors.
               bindR (expandSearchNeighbors st sim s vec ef neighbors visited candidates results)
                 (\<lambda>(visited, candidates, results). searchLoop st sim fuel s vec ef layer visited candidates results)))"

definition searchLayer ::
  "('s, 'v) hnswStorage \<Rightarrow> ('v \<Rightarrow> 'v \<Rightarrow> 'd::linorder) \<Rightarrow> nat \<Rightarrow> 's \<Rightarrow> 'v \<Rightarrow> PackedCoord \<Rightarrow> nat \<Rightarrow> nat \<Rightarrow>
   dbError + 'd scored list" where
  "searchLayer st sim fuel s vec ep ef layer =
     bindR (GetEmbeddingVec st s ep) (\<lambda>ev.
       case ev of
         None \<Rightarrow> Inl (ErrCorruptGraph ''candidate embedding is missing'')
       | Some epVec \<Rightarrow> let e = (ep, sim vec epVec) in searchLoop st sim fuel s vec ef layer {ep} [e] [e])"

text \<open>The first result of \<open>Search\<close> is \<open>None\<close> where the code answers \<open>nil, nil\<close>.\<close>

definition Search ::
  "('s, 'v) hnswStorage \<Rightarrow> ('v \<Rightarrow> 'v \<Rightarrow> 'd::linorder) \<Rightarrow> nat \<Rightarrow> 's \<Rightarrow> 'v \<Rightarrow> int \<Rightarrow> int \<Rightarrow> dbError + 'd scored list option" where
  "Search st sim fuel s vec k efSearch =
     (let efSearch = (if efSearch \<le> 0 then 100 else efSearch); k = (if k \<le> 0 then 10 else k);
          efSearch = (if efSearch < k then k else efSearch)
      in bindR (GetHNSWMeta st s) (\<lambda>m.
         case m of
           None \<Rightarrow> Inr None
         | Some meta \<Rightarrow>
             if hmCount meta = 0 then Inr None
             else bindR (GetHNSWEntry st s) (\<lambda>e.
               case e of
                 None \<Rightarrow> Inl (ErrCorruptGraph ''non-empty graph has no entry point'')
               | Some entryCoord \<Rightarrow>
                   bindR (GetEmbeddingVec st s entryCoord) (\<lambda>ev.
                     case ev of
                       None \<Rightarrow> Inl (ErrCorruptGraph ''entry embedding is missing'')
                     | Some entryVec \<Rightarrow>
                         bindR (greedyDescend st sim fuel s vec entryCoord entryVec (unat (hmMaxLayer meta)) 1) (\<lambda>(ep, _).
                         bindR (searchLayer st sim fuel s vec ep (nat efSearch) 0) (\<lambda>candidates.
                           Inr (Some (if int (length candidates) > k then take (nat k) candidates else candidates))))))))"

subsection \<open>Insertion and deletion\<close>

definition initSingleNodeGraph :: "('s, 'v) hnswStorage \<Rightarrow> PackedCoord \<Rightarrow> HnswMeta \<Rightarrow> 's \<Rightarrow> dbError + 's" where
  "initSingleNodeGraph st coord meta s =
     bindR (PutHNSWNode st \<lparr>hnCoord = coord, hnMaxLayer = 0, hnNeighbors = [[]]\<rparr> s) (\<lambda>s.
     bindR (PutHNSWEntry st coord s) (PutHNSWMeta st meta))"

definition layerLimit :: "HnswMeta \<Rightarrow> nat \<Rightarrow> uint16" where
  "layerLimit meta lc = (if lc = 0 then hmM meta * 2 else hmM meta)"

text \<open>The links a neighbour gains when its co-neighbours lose theirs.\<close>

primrec repairWithCoNeighbors ::
  "PackedCoord \<Rightarrow> PackedCoord \<Rightarrow> uint16 \<Rightarrow> PackedCoord list \<Rightarrow> PackedCoord list \<Rightarrow> PackedCoord list" where
  "repairWithCoNeighbors removed self limit [] links = links"
| "repairWithCoNeighbors removed self limit (coNbr # nbrs) links =
     repairWithCoNeighbors removed self limit nbrs
       (if coNbr = self \<or> coNbr = removed \<or> coNbr \<in> set links then links
        else if (of_nat (length links) :: uint16) < limit then links @ [coNbr] else links)"

primrec repairLayer ::
  "('s, 'v) hnswStorage \<Rightarrow> PackedCoord \<Rightarrow> nat \<Rightarrow> uint16 \<Rightarrow> PackedCoord list \<Rightarrow> PackedCoord list \<Rightarrow> 's \<Rightarrow> dbError + 's" where
  "repairLayer st coord lc limit nbrList [] s = Inr s"
| "repairLayer st coord lc limit nbrList (nbr # nbrs) s =
     bindR (GetHNSWNode st s nbr) (\<lambda>n.
       case n of
         None \<Rightarrow> repairLayer st coord lc limit nbrList nbrs s
       | Some nbrNode \<Rightarrow>
           if lc \<ge> length (hnNeighbors nbrNode) then repairLayer st coord lc limit nbrList nbrs s
           else bindR (PutHNSWNode st (nbrNode\<lparr>hnNeighbors := (hnNeighbors nbrNode)[lc :=
                    repairWithCoNeighbors coord nbr limit nbrList (remove1 coord (hnNeighbors nbrNode ! lc))]\<rparr>) s)
                  (repairLayer st coord lc limit nbrList nbrs))"

primrec repairLayers ::
  "('s, 'v) hnswStorage \<Rightarrow> HnswMeta \<Rightarrow> PackedCoord \<Rightarrow> nat \<Rightarrow> PackedCoord list list \<Rightarrow> 's \<Rightarrow> dbError + 's" where
  "repairLayers st meta coord lc [] s = Inr s"
| "repairLayers st meta coord lc (nbrList # layers) s =
     bindR (repairLayer st coord lc (layerLimit meta lc) nbrList nbrList s) (repairLayers st meta coord (Suc lc) layers)"

definition repairNeighborLinks :: "('s, 'v) hnswStorage \<Rightarrow> HnswNode \<Rightarrow> HnswMeta \<Rightarrow> 's \<Rightarrow> dbError + 's" where
  "repairNeighborLinks st node meta s = repairLayers st meta (hnCoord node) 0 (hnNeighbors node) s"

text \<open>The first neighbour at the highest layer that has one.\<close>

definition findBestNeighborForEntry :: "HnswNode \<Rightarrow> PackedCoord option" where
  "findBestNeighborForEntry node =
     map_option (\<lambda>lc. hnNeighbors node ! lc ! 0)
       (find (\<lambda>lc. hnNeighbors node ! lc \<noteq> []) (rev [0 ..< unat (hnMaxLayer node) + 1]))"

definition promoteNewEntryPoint ::
  "('s, 'v) hnswStorage \<Rightarrow> HnswNode \<Rightarrow> HnswMeta \<Rightarrow> 's \<Rightarrow> dbError + HnswMeta \<times> 's" where
  "promoteNewEntryPoint st node meta s =
     (case findBestNeighborForEntry node of
        None \<Rightarrow> Inr (meta\<lparr>hmMaxLayer := 0\<rparr>, s)
      | Some newEntry \<Rightarrow>
          bindR (GetHNSWNode st s newEntry) (\<lambda>n.
            let meta = meta\<lparr>hmMaxLayer := (case n of Some newEntryNode \<Rightarrow> hnMaxLayer newEntryNode | None \<Rightarrow> 0)\<rparr>
            in bindR (PutHNSWEntry st newEntry s) (\<lambda>s. Inr (meta, s))))"

definition removeNode ::
  "('s, 'v) hnswStorage \<Rightarrow> HnswNode \<Rightarrow> HnswMeta \<Rightarrow> PackedCoord \<Rightarrow> 's \<Rightarrow> dbError + 's" where
  "removeNode st node meta entryCoord s =
     bindR (repairNeighborLinks st node meta s) (\<lambda>s.
     bindR (DeleteHNSWNode st (hnCoord node) s) (\<lambda>s.
     let meta = meta\<lparr>hmCount := hmCount meta - 1\<rparr>
     in if hmCount meta = 0
        then bindR (DeleteHNSWEntry st s) (PutHNSWMeta st (meta\<lparr>hmMaxLayer := 0\<rparr>))
        else bindR (if hnCoord node = entryCoord then promoteNewEntryPoint st node meta s else Inr (meta, s))
               (\<lambda>(meta, s). PutHNSWMeta st meta s)))"

text \<open>A missing entry point is the zero coordinate to \<open>removeNode\<close>, as in the code.\<close>

definition graphDelete :: "('s, 'v) hnswStorage \<Rightarrow> PackedCoord \<Rightarrow> 's \<Rightarrow> dbError + 's" where
  "graphDelete st coord s =
     bindR (GetHNSWMeta st s) (\<lambda>m.
       case m of
         None \<Rightarrow> Inr s
       | Some meta \<Rightarrow>
           if hmCount meta = 0 then Inr s
           else bindR (GetHNSWNode st s coord) (\<lambda>n.
             case n of
               None \<Rightarrow> Inr s
             | Some node \<Rightarrow>
                 bindR (GetHNSWEntry st s) (\<lambda>e.
                   removeNode st node meta (case e of None \<Rightarrow> PackedCoord 0 0 | Some p \<Rightarrow> p) s)))"

definition layerForCoord :: "(uint64 \<Rightarrow> uint16 \<Rightarrow> byte) \<Rightarrow> PackedCoord \<Rightarrow> uint16 \<Rightarrow> byte" where
  "layerForCoord floatLayer coord m =
     (let hi = packedHi coord; x = packedLo coord XOR (push_bit 32 hi OR drop_bit 32 hi);
          x = x + 0x9e3779b97f4a7c15;
          x = (x XOR drop_bit 30 x) * 0xbf58476d1ce4e5b9;
          x = (x XOR drop_bit 27 x) * 0x94d049bb133111eb;
          x = x XOR drop_bit 31 x
      in floatLayer (drop_bit 11 x + 1) m)"

text \<open>Scores of the neighbours whose vector can be read, sorted; an owner without a vector only truncates.\<close>

primrec scoreNeighbors ::
  "('s, 'v) hnswStorage \<Rightarrow> ('v \<Rightarrow> 'v \<Rightarrow> 'd) \<Rightarrow> 's \<Rightarrow> 'v \<Rightarrow> PackedCoord list \<Rightarrow> 'd scored list" where
  "scoreNeighbors st sim s ownerVec [] = []"
| "scoreNeighbors st sim s ownerVec (nbr # nbrs) =
     (case GetEmbeddingVec st s nbr of
        Inr (Some nbrVec) \<Rightarrow> [(nbr, sim ownerVec nbrVec)]
      | _ \<Rightarrow> []) @ scoreNeighbors st sim s ownerVec nbrs"

definition pruneNeighbors ::
  "('s, 'v) hnswStorage \<Rightarrow> ('v \<Rightarrow> 'v \<Rightarrow> 'd) \<Rightarrow> ('d scored list \<Rightarrow> 'd scored list) \<Rightarrow> 's \<Rightarrow> PackedCoord \<Rightarrow>
   PackedCoord list \<Rightarrow> nat \<Rightarrow> PackedCoord list" where
  "pruneNeighbors st sim sortBy s owner neighbors limit =
     (case GetEmbeddingVec st s owner of
        Inr (Some ownerVec) \<Rightarrow> map fst (take limit (sortBy (scoreNeighbors st sim s ownerVec neighbors)))
      | _ \<Rightarrow> take limit neighbors)"

primrec connectBidirectional ::
  "('s, 'v) hnswStorage \<Rightarrow> ('v \<Rightarrow> 'v \<Rightarrow> 'd) \<Rightarrow> ('d scored list \<Rightarrow> 'd scored list) \<Rightarrow> PackedCoord \<Rightarrow> 'd scored list \<Rightarrow>
   nat \<Rightarrow> uint16 \<Rightarrow> 's \<Rightarrow> dbError + 's" where
  "connectBidirectional st sim sortBy coord [] layer limit s = Inr s"
| "connectBidirectional st sim sortBy coord (sel # selected) layer limit s =
     bindR (GetHNSWNode st s (fst sel)) (\<lambda>n.
       case n of
         None \<Rightarrow> connectBidirectional st sim sortBy coord selected layer limit s
       | Some nbrNode \<Rightarrow>
           let layers = hnNeighbors nbrNode @ replicate (Suc layer - length (hnNeighbors nbrNode)) [];
               links = layers ! layer @ [coord];
               links = (if (of_nat (length links) :: uint16) > limit
                        then pruneNeighbors st sim sortBy s (fst sel) links (unat limit) else links)
           in bindR (PutHNSWNode st (nbrNode\<lparr>hnNeighbors := layers[layer := links]\<rparr>) s)
                (connectBidirectional st sim sortBy coord selected layer limit))"

primrec insertConnectLayers ::
  "('s, 'v) hnswStorage \<Rightarrow> ('v \<Rightarrow> 'v \<Rightarrow> 'd::linorder) \<Rightarrow> ('d scored list \<Rightarrow> 'd scored list) \<Rightarrow> nat \<Rightarrow> PackedCoord \<Rightarrow>
   'v \<Rightarrow> HnswMeta \<Rightarrow> nat list \<Rightarrow> PackedCoord \<Rightarrow> HnswNode \<Rightarrow> 's \<Rightarrow> dbError + HnswNode \<times> 's" where
  "insertConnectLayers st sim sortBy fuel coord vec meta [] ep newNode s = Inr (newNode, s)"
| "insertConnectLayers st sim sortBy fuel coord vec meta (lc # lcs) ep newNode s =
     bindR (searchLayer st sim fuel s vec ep (unat (hmEfC meta)) lc) (\<lambda>candidates.
       let limit = layerLimit meta lc; selected = take (unat limit) candidates;
           newNode = newNode\<lparr>hnNeighbors := (hnNeighbors newNode)[lc := map fst selected]\<rparr>
       in bindR (connectBidirectional st sim sortBy coord selected lc limit s)
            (insertConnectLayers st sim sortBy fuel coord vec meta lcs
               (case candidates of [] \<Rightarrow> ep | c # _ \<Rightarrow> fst c) newNode))"

text \<open>No metadata in the answer: the graph became empty.\<close>

definition handleExistingNode ::
  "('s, 'v) hnswStorage \<Rightarrow> PackedCoord \<Rightarrow> PackedCoord \<Rightarrow> HnswMeta \<Rightarrow> 's \<Rightarrow> dbError + (PackedCoord \<times> HnswMeta option) \<times> 's" where
  "handleExistingNode st coord entryCoord meta s =
     bindR (GetHNSWNode st s coord) (\<lambda>n.
       case n of
         None \<Rightarrow> Inr ((entryCoord, Some meta), s)
       | Some existing \<Rightarrow>
           bindR (removeNode st existing meta entryCoord s) (\<lambda>s.
           bindR (if entryCoord = coord then GetHNSWEntry st s else Inr (Some entryCoord)) (\<lambda>e.
             case e of
               None \<Rightarrow> Inr ((PackedCoord 0 0, None), s)
             | Some entry \<Rightarrow> bindR (GetHNSWMeta st s) (\<lambda>m. Inr ((entry, m), s)))))"

definition graphInsert ::
  "('s, 'v) hnswStorage \<Rightarrow> ('v \<Rightarrow> 'v \<Rightarrow> 'd::linorder) \<Rightarrow> ('d scored list \<Rightarrow> 'd scored list) \<Rightarrow>
   (uint64 \<Rightarrow> uint16 \<Rightarrow> byte) \<Rightarrow> nat \<Rightarrow> PackedCoord \<Rightarrow> 'v \<Rightarrow> 's \<Rightarrow> dbError + 's" where
  "graphInsert st sim sortBy floatLayer fuel coord vec s =
     (let fresh = \<lparr>hmM = DefaultM, hmEfC = DefaultEfConstruction, hmMaxLayer = 0, hmCount = 1\<rparr>
      in bindR (GetHNSWMeta st s) (\<lambda>m.
         case m of
           None \<Rightarrow> initSingleNodeGraph st coord fresh s
         | Some meta \<Rightarrow>
             bindR (GetHNSWEntry st s) (\<lambda>e.
               case e of
                 None \<Rightarrow> initSingleNodeGraph st coord (meta\<lparr>hmCount := 1, hmMaxLayer := 0\<rparr>) s
               | Some entryCoord \<Rightarrow>
                   bindR (handleExistingNode st coord entryCoord meta s) (\<lambda>((entryCoord, m), s).
                     case m of
                       None \<Rightarrow> initSingleNodeGraph st coord fresh s
                     | Some meta \<Rightarrow>
                         let nodeLayer = layerForCoord floatLayer coord (hmM meta);
                             newNode = \<lparr>hnCoord = coord, hnMaxLayer = nodeLayer,
                               hnNeighbors = replicate (unat nodeLayer + 1) []\<rparr>
                         in bindR (GetEmbeddingVec st s entryCoord) (\<lambda>ev.
                            case ev of
                              None \<Rightarrow> Inl (ErrCorruptGraph ''entry embedding is missing'')
                            | Some entryVec \<Rightarrow>
                                bindR (greedyDescend st sim fuel s vec entryCoord entryVec (unat (hmMaxLayer meta))
                                         (unat nodeLayer + 1)) (\<lambda>(ep, _).
                                bindR (insertConnectLayers st sim sortBy fuel coord vec meta
                                         (rev [0 ..< min (unat nodeLayer) (unat (hmMaxLayer meta)) + 1]) ep newNode s) (\<lambda>(newNode, s).
                                bindR (PutHNSWNode st newNode s) (\<lambda>s.
                                bindR (if nodeLayer > hmMaxLayer meta
                                       then bindR (PutHNSWEntry st coord s) (\<lambda>s. Inr (meta\<lparr>hmMaxLayer := nodeLayer\<rparr>, s))
                                       else Inr (meta, s)) (\<lambda>(meta, s).
                                  PutHNSWMeta st (meta\<lparr>hmCount := hmCount meta + 1\<rparr>) s)))))))))"

end
