(* ===== verification/HnswSearch.thy ===== *)
theory HnswSearch
  imports HnswGraph
begin

text \<open>
  What a search of the graph returns, and that it returns: the descent moves to strictly better
  points and the beam search visits each stored vector once, so the number of stored vectors bounds
  the rounds of both.
\<close>

subsection \<open>Rounds\<close>

definition stored :: "('s, 'v) hnswStorage \<Rightarrow> 's \<Rightarrow> PackedCoord set" where
  "stored st s = {p. \<exists>v. GetEmbeddingVec st s p = Inr (Some v)}"

definition score :: "('s, 'v) hnswStorage \<Rightarrow> ('v \<Rightarrow> 'v \<Rightarrow> 'd) \<Rightarrow> 's \<Rightarrow> 'v \<Rightarrow> PackedCoord \<Rightarrow> 'd" where
  "score st sim s vec p = (case GetEmbeddingVec st s p of Inr (Some v) \<Rightarrow> sim vec v | _ \<Rightarrow> sim vec undefined)"

lemma score_simp [simp]: "GetEmbeddingVec st s p = Inr (Some v) \<Longrightarrow> score st sim s vec p = sim vec v"
  by (simp add: score_def)

lemma stored_simp [simp]: "GetEmbeddingVec st s p = Inr (Some v) \<Longrightarrow> p \<in> stored st s"
  by (simp add: stored_def)

text \<open>The storage answers without running out of fuel itself.\<close>

definition answers :: "('s, 'v) hnswStorage \<Rightarrow> 's \<Rightarrow> bool" where
  "answers st s \<longleftrightarrow> GetHNSWMeta st s \<noteq> Inl (OfEngine OutOfFuel) \<and> GetHNSWEntry st s \<noteq> Inl (OfEngine OutOfFuel) \<and>
     (\<forall>p. GetHNSWNode st s p \<noteq> Inl (OfEngine OutOfFuel) \<and> GetEmbeddingVec st s p \<noteq> Inl (OfEngine OutOfFuel))"

lemma bindR_fuel:
  "bindR m f = Inl (OfEngine OutOfFuel) \<longleftrightarrow> m = Inl (OfEngine OutOfFuel) \<or> (\<exists>x. m = Inr x \<and> f x = Inl (OfEngine OutOfFuel))"
  by (cases m) auto

subsection \<open>The descent\<close>

lemma greedyNeighbors_better:
  assumes "greedyNeighbors st sim s vec nbrs (ep, d, c) = Inr (ep', d', c')"
  shows "(c' = c \<and> ep' = ep \<and> d' = d) \<or> (c' \<and> ep' \<in> stored st s \<and> d' = score st sim s vec ep' \<and> d < d')"
  using assms
proof (induction nbrs arbitrary: ep d c)
  case (Cons nbr nbrs)
  then obtain v where v: "GetEmbeddingVec st s nbr = Inr (Some v)"
    "greedyNeighbors st sim s vec nbrs (if sim vec v > d then (nbr, sim vec v, True) else (ep, d, c)) = Inr (ep', d', c')"
    by (auto simp: bindR_eq_Inr Let_def split: option.splits)
  show ?case
  proof (cases "sim vec v > d")
    case True
    with Cons.IH [of nbr "sim vec v" True] v show ?thesis by auto
  next
    case False
    with Cons.IH [of ep d c] v show ?thesis by simp
  qed
qed simp

lemma greedyNeighbors_fuel:
  "answers st s \<Longrightarrow> greedyNeighbors st sim s vec nbrs ep \<noteq> Inl (OfEngine OutOfFuel)"
  by (induction nbrs arbitrary: ep) (auto simp: answers_def bindR_fuel Let_def split: option.splits)

lemma greedyLayer_fuel:
  fixes d :: "'d :: linorder"
  assumes "answers st s" "finite (stored st s)" "card {p \<in> stored st s. d < score st sim s vec p} < fuel"
  shows "greedyLayer st sim fuel s vec lc ep d \<noteq> Inl (OfEngine OutOfFuel)"
  using assms(3)
proof (induction fuel arbitrary: ep d)
  case (Suc fuel)
  have "greedyLayer st sim fuel s vec lc ep' d' \<noteq> Inl (OfEngine OutOfFuel)"
    if "greedyNeighbors st sim s vec nbrs (ep, d, False) = Inr (ep', d', True)" for nbrs ep' d'
  proof (rule Suc.IH)
    have e: "ep' \<in> stored st s" "d' = score st sim s vec ep'" "d < d'" using greedyNeighbors_better [OF that] by auto
    then have "{p \<in> stored st s. d' < score st sim s vec p} \<subset> {p \<in> stored st s. d < score st sim s vec p}" by auto
    then have "card {p \<in> stored st s. d' < score st sim s vec p} < card {p \<in> stored st s. d < score st sim s vec p}"
      using assms(2) by (intro psubset_card_mono) simp_all
    then show "card {p \<in> stored st s. d' < score st sim s vec p} < fuel" using Suc.prems by simp
  qed
  moreover have "greedyNeighbors st sim s vec nbrs (ep, d, False) \<noteq> Inl (OfEngine OutOfFuel)" for nbrs
    by (rule greedyNeighbors_fuel [OF assms(1)])
  ultimately show ?case
    using assms(1) by (auto simp: bindR_fuel answers_def split: option.splits if_splits)
qed simp

lemma greedyLayer_stored:
  "greedyLayer st sim fuel s vec lc ep d = Inr (ep', d') \<Longrightarrow> ep \<in> stored st s \<Longrightarrow> d = score st sim s vec ep \<Longrightarrow>
   ep' \<in> stored st s \<and> d' = score st sim s vec ep' \<and> d \<le> d'"
proof (induction fuel arbitrary: ep d)
  case (Suc fuel)
  then obtain nbrs e1 d1 c1 where g: "greedyNeighbors st sim s vec nbrs (ep, d, False) = Inr (e1, d1, c1)"
    "(if c1 then greedyLayer st sim fuel s vec lc e1 d1 else Inr (e1, d1)) = Inr (ep', d')"
    by (auto simp: bindR_eq_Inr split: option.splits if_splits)
  from greedyNeighbors_better [OF g(1)] have "e1 \<in> stored st s \<and> d1 = score st sim s vec e1 \<and> d \<le> d1"
    using Suc.prems by auto
  then show ?case using g(2) Suc.IH [of e1 d1] by (cases c1) (auto intro: order_trans)
qed simp

lemma greedyLayers_facts:
  fixes d :: "'d :: linorder"
  assumes "answers st s" "finite (stored st s)" "card (stored st s) < fuel" "ep \<in> stored st s" "d = score st sim s vec ep"
  shows "greedyLayers st sim fuel s vec lcs ep d \<noteq> Inl (OfEngine OutOfFuel) \<and>
    (\<forall>ep' d'. greedyLayers st sim fuel s vec lcs ep d = Inr (ep', d') \<longrightarrow>
      ep' \<in> stored st s \<and> d' = score st sim s vec ep' \<and> d \<le> d')"
  using assms(4,5)
proof (induction lcs arbitrary: ep d)
  case (Cons lc lcs)
  have "card {p \<in> stored st s. d < score st sim s vec p} \<le> card (stored st s)" using assms(2) by (intro card_mono) auto
  then have "greedyLayer st sim fuel s vec lc ep d \<noteq> Inl (OfEngine OutOfFuel)"
    using assms(3) by (intro greedyLayer_fuel [OF assms(1,2)]) simp
  then show ?case
    using Cons.IH greedyLayer_stored [OF _ Cons.prems]
    by (cases "greedyLayer st sim fuel s vec lc ep d") (fastforce intro: order_trans)+
qed simp

subsection \<open>The beam search\<close>

lemma insertSorted_spec:
  assumes "sorted_wrt (\<ge>) (map snd a)"
  shows "sorted_wrt (\<ge>) (map snd (insertSorted a x))" "mset (insertSorted a x) = add_mset x (mset a)"
    "length (insertSorted a x) = Suc (length a)"
proof -
  define i where "i = sortSearch (length a) (\<lambda>j. snd (a ! j) < snd x)"
  have a: "snd (a ! k) \<le> snd (a ! j)" if "j \<le> k" "k < length a" for j k
    using assms that by (cases "j = k") (simp_all add: sorted_wrt_iff_nth_less)
  let ?f = "\<lambda>j. snd (a ! j) < snd x"
  have "0 \<le> sortSearchFrom ?f 0 (length a) \<and> sortSearchFrom ?f 0 (length a) \<le> length a \<and>
      (\<forall>j. 0 \<le> j \<longrightarrow> j < sortSearchFrom ?f 0 (length a) \<longrightarrow> \<not> ?f j) \<and>
      (\<forall>j. sortSearchFrom ?f 0 (length a) \<le> j \<longrightarrow> j < length a \<longrightarrow> ?f j)"
  proof (rule sortSearchFrom_spec)
    show "?f k" if "0 \<le> j" "j \<le> k" "k < length a" "?f j" for j k
      using a [OF that(2,3)] that(4) by (rule le_less_trans)
  qed simp
  then have "i \<le> length a" "\<forall>j < i. \<not> ?f j" "\<forall>j. i \<le> j \<longrightarrow> j < length a \<longrightarrow> ?f j"
    unfolding i_def sortSearch_def by blast+
  then have j: "i \<le> length a" "\<And>j. j < i \<Longrightarrow> snd x \<le> snd (a ! j)" "\<And>j. i \<le> j \<Longrightarrow> j < length a \<Longrightarrow> snd (a ! j) \<le> snd x"
    by (simp_all add: not_less less_imp_le)
  have i: "snd x \<le> snd y" if y: "y \<in> set (take i a)" for y
  proof -
    from y obtain j where "j < length (take i a)" "take i a ! j = y" unfolding in_set_conv_nth by blast
    then show ?thesis using j(2) [of j] by simp
  qed
  have i': "snd y \<le> snd x" if y: "y \<in> set (drop i a)" for y
  proof -
    from y obtain j where "j < length (drop i a)" "drop i a ! j = y" unfolding in_set_conv_nth by blast
    then show ?thesis using j(3) [of "i + j"] j(1) by simp
  qed
  have e: "insertSorted a x = take i a @ x # drop i a" by (simp add: insertSorted_def Let_def i_def)
  have "sorted_wrt (\<ge>) (map snd (take i a) @ map snd (drop i a))" using assms by (simp flip: map_append)
  then have "sorted_wrt (\<ge>) (map snd (take i a))" "sorted_wrt (\<ge>) (map snd (drop i a))"
    "\<forall>d \<in> set (map snd (take i a)). \<forall>d' \<in> set (map snd (drop i a)). d' \<le> d"
    unfolding sorted_wrt_append by blast+
  then show "sorted_wrt (\<ge>) (map snd (insertSorted a x))"
    unfolding e map_append list.map sorted_wrt_append using i i' by auto
  have "mset a = mset (take i a) + mset (drop i a)" by (simp flip: mset_append)
  then show "mset (insertSorted a x) = add_mset x (mset a)" by (simp add: e)
  show "length (insertSorted a x) = Suc (length a)" by (simp add: e)
qed

lemma sorted_hd: "x \<in> set xs \<Longrightarrow> sorted_wrt (\<ge>) (map snd xs) \<Longrightarrow> snd x \<le> (snd (hd xs) :: 'd::linorder)"
  by (cases xs) auto

text \<open>
  The state of a search: both lists sorted, the results distinct, visited and with their scores,
  at most \<open>ef\<close> of them.
\<close>

definition beamOk :: "('s, 'v) hnswStorage \<Rightarrow> ('v \<Rightarrow> 'v \<Rightarrow> 'd::linorder) \<Rightarrow> 's \<Rightarrow> 'v \<Rightarrow> nat \<Rightarrow>
  PackedCoord set \<Rightarrow> 'd scored list \<Rightarrow> 'd scored list \<Rightarrow> bool" where
  "beamOk st sim s vec ef visited candidates results \<longleftrightarrow> sorted_wrt (\<ge>) (map snd candidates) \<and>
     sorted_wrt (\<ge>) (map snd results) \<and> distinct (map fst results) \<and> fst ` set results \<subseteq> visited \<and>
     visited \<subseteq> stored st s \<and> (\<forall>(p, d) \<in> set results. d = score st sim s vec p) \<and>
     results \<noteq> [] \<and> length results \<le> ef"

lemma expand_ok:
  assumes "expandSearchNeighbors st sim s vec ef nbrs visited cs rs = Inr (visited', cs', rs')"
    and "beamOk st sim s vec ef visited cs rs" "finite (stored st s)"
  shows "beamOk st sim s vec ef visited' cs' rs' \<and> visited \<subseteq> visited' \<and> snd (hd rs) \<le> snd (hd rs') \<and>
    length cs' + card (stored st s - visited') \<le> length cs + card (stored st s - visited)"
  using assms(1,2)
proof (induction nbrs arbitrary: visited cs rs)
  case (Cons nbr nbrs)
  show ?case
  proof (cases "nbr \<in> visited")
    case True
    then show ?thesis using Cons by simp
  next
    case False
    with Cons.prems(1) obtain v where v: "GetEmbeddingVec st s nbr = Inr (Some v)"
      by (auto simp: bindR_eq_Inr split: option.splits)
    define d where "d = sim vec v"
    define rs1 where "rs1 = (if length rs < ef \<or> d > snd (rs ! (length rs - 1)) then take ef (insertSorted rs (nbr, d)) else rs)"
    define cs1 where "cs1 = (if length rs < ef \<or> d > snd (rs ! (length rs - 1)) then insertSorted cs (nbr, d) else cs)"
    note b = Cons.prems(2) [unfolded beamOk_def]
    have cut: "(if length xs > ef then take ef xs else xs) = take ef xs" for xs :: "'d scored list" by simp
    have step: "expandSearchNeighbors st sim s vec ef nbrs (insert nbr visited) cs1 rs1 = Inr (visited', cs', rs')"
      using Cons.prems(1) False v unfolding rs1_def cs1_def d_def
      by (cases "length rs < ef \<or> sim vec v > snd (rs ! (length rs - 1))")
        (simp_all only: expandSearchNeighbors.simps Let_def cut if_True if_False bindR_Inr option.case)
    have rs: "sorted_wrt (\<ge>) (map snd rs)" and cs: "sorted_wrt (\<ge>) (map snd cs)" using b by simp_all
    note ins = insertSorted_spec [OF rs, of "(nbr, d)"] insertSorted_spec [OF cs, of "(nbr, d)"]
    have set: "set (insertSorted rs (nbr, d)) = insert (nbr, d) (set rs)"
      using ins(2) by (metis set_mset_add_mset_insert set_mset_mset)
    have "mset (map fst (insertSorted rs (nbr, d))) = add_mset nbr (mset (map fst rs))" using ins(2) by simp
    moreover have "nbr \<notin> fst ` set rs" using b False by blast
    ultimately have dist: "distinct (map fst (insertSorted rs (nbr, d)))"
      using b by (metis distinct.simps(2) image_set mset.simps(2) mset_eq_imp_distinct_iff)
    have sub: "set (take ef (insertSorted rs (nbr, d))) \<subseteq> insert (nbr, d) (set rs)" using set set_take_subset by metis
    have sorted': "sorted_wrt (\<ge>) (map snd (take ef (insertSorted rs (nbr, d))))"
      using ins(1) by (simp add: take_map [symmetric] sorted_wrt_take)
    have "0 < ef" using b by (metis length_greater_0_conv order.strict_trans2)
    then have ne: "take ef (insertSorted rs (nbr, d)) \<noteq> []" using ins(3) by (cases "insertSorted rs (nbr, d)") auto
    have "beamOk st sim s vec ef (insert nbr visited) cs1 rs1"
    proof (cases "length rs < ef \<or> d > snd (rs ! (length rs - 1))")
      case True
      have "distinct (map fst (take ef (insertSorted rs (nbr, d))))" using dist by (simp add: take_map [symmetric])
      moreover have "fst ` set (take ef (insertSorted rs (nbr, d))) \<subseteq> fst ` insert (nbr, d) (set rs)"
        using sub by (rule image_mono)
      then have "fst ` set (take ef (insertSorted rs (nbr, d))) \<subseteq> insert nbr visited" using b by auto
      moreover have "\<forall>(p, d) \<in> set (take ef (insertSorted rs (nbr, d))). d = score st sim s vec p"
        using sub b v by (auto simp: d_def)
      ultimately show ?thesis
        using True b v ne sorted' ins(4) by (simp add: beamOk_def rs1_def cs1_def)
    next
      case False
      then show ?thesis using b v by (auto simp: beamOk_def rs1_def cs1_def)
    qed
    then have IH: "beamOk st sim s vec ef visited' cs' rs'" "insert nbr visited \<subseteq> visited'" "snd (hd rs1) \<le> snd (hd rs')"
      "length cs' + card (stored st s - visited') \<le> length cs1 + card (stored st s - insert nbr visited)"
      using Cons.IH [OF step] by blast+
    have "card (stored st s - visited) = Suc (card (stored st s - insert nbr visited))"
      using v False assms(3) card.remove [of "stored st s - visited" nbr] Diff_insert [of "stored st s" nbr visited] by simp
    moreover have "length cs1 \<le> Suc (length cs)" using ins(6) by (simp add: cs1_def)
    moreover have "snd (hd rs) \<le> snd (hd rs1)"
    proof (cases "length rs < ef \<or> d > snd (rs ! (length rs - 1))")
      case True
      have "hd rs \<in> set (insertSorted rs (nbr, d))" using b set by simp
      then have "snd (hd rs) \<le> snd (hd (insertSorted rs (nbr, d)))" using ins(1) by (rule sorted_hd)
      then show ?thesis using True ne by (simp add: rs1_def hd_take)
    qed (simp add: rs1_def)
    ultimately show ?thesis using IH by (auto intro: order_trans)
  qed
qed simp

lemma expand_fuel:
  fixes cs :: "'d::linorder scored list"
  assumes "answers st s"
  shows "expandSearchNeighbors st sim s vec ef nbrs visited cs rs \<noteq> Inl (OfEngine OutOfFuel)"
  using assms
  by (induction nbrs arbitrary: visited cs rs) (auto simp: answers_def bindR_fuel Let_def split: option.splits)

lemma searchLoop_ok:
  fixes cs :: "'d::linorder scored list"
  assumes "answers st s" "finite (stored st s)" "beamOk st sim s vec ef visited cs rs"
    "length cs + card (stored st s - visited) < fuel"
  shows "searchLoop st sim fuel s vec ef layer visited cs rs \<noteq> Inl (OfEngine OutOfFuel) \<and>
    (\<forall>rs'. searchLoop st sim fuel s vec ef layer visited cs rs = Inr rs' \<longrightarrow>
      (\<exists>visited' cs'. beamOk st sim s vec ef visited' cs' rs' \<and> snd (hd rs) \<le> snd (hd rs')))"
  using assms(3,4)
proof (induction fuel arbitrary: visited cs rs)
  case (Suc fuel)
  show ?case
  proof (cases cs)
    case Nil
    then show ?thesis using Suc.prems(1) by auto
  next
    case (Cons best cs0)
    show ?thesis
    proof (cases "snd best < snd (rs ! (length rs - 1)) \<and> length rs \<ge> ef")
      case True
      then show ?thesis using Cons Suc.prems(1) by auto
    next
      case False
      let ?step = "\<lambda>nbrs. expandSearchNeighbors st sim s vec ef nbrs visited cs0 rs"
      have run: "searchLoop st sim (Suc fuel) s vec ef layer visited cs rs =
          bindR (neighborsAtLayer st s (fst best) layer) (\<lambda>nbrs. bindR (?step nbrs)
            (\<lambda>(visited, cs, rs). searchLoop st sim fuel s vec ef layer visited cs rs))"
        by (simp only: Cons searchLoop.simps list.case if_not_P [OF False])
      have b: "beamOk st sim s vec ef visited cs0 rs" using Suc.prems(1) Cons by (simp add: beamOk_def)
      have n: "neighborsAtLayer st s (fst best) layer \<noteq> Inl (OfEngine OutOfFuel)"
        using assms(1) by (auto simp: neighborsAtLayer_def bindR_fuel answers_def split: option.splits)
      have next_ok: "searchLoop st sim fuel s vec ef layer v c r \<noteq> Inl (OfEngine OutOfFuel) \<and>
          (\<forall>rs'. searchLoop st sim fuel s vec ef layer v c r = Inr rs' \<longrightarrow>
            (\<exists>visited' cs'. beamOk st sim s vec ef visited' cs' rs' \<and> snd (hd rs) \<le> snd (hd rs')))"
        if "?step nbrs = Inr (v, c, r)" for nbrs v c r
      proof -
        note e = expand_ok [OF that b assms(2)]
        have "length c + card (stored st s - v) < fuel" using e Suc.prems(2) Cons by simp
        then show ?thesis using Suc.IH [of v c r] e by (meson order_trans)
      qed
      show ?thesis
      proof (cases "neighborsAtLayer st s (fst best) layer")
        case (Inl e)
        then show ?thesis using run n by simp
      next
        case (Inr nbrs)
        show ?thesis
        proof (cases "?step nbrs")
          case (Inl e)
          then show ?thesis using run Inr expand_fuel [OF assms(1), of sim vec ef nbrs visited cs0 rs] by simp
        next
          case (Inr vcr)
          then show ?thesis using run \<open>neighborsAtLayer _ _ _ _ = _\<close> next_ok [of nbrs] by (cases vcr) simp
        qed
      qed
    qed
  qed
qed simp

text \<open>What the beam search from a stored point returns.\<close>

definition ranking :: "('s, 'v) hnswStorage \<Rightarrow> ('v \<Rightarrow> 'v \<Rightarrow> 'd::linorder) \<Rightarrow> 's \<Rightarrow> 'v \<Rightarrow> 'd scored list \<Rightarrow> bool" where
  "ranking st sim s vec rs \<longleftrightarrow> sorted_wrt (\<ge>) (map snd rs) \<and> distinct (map fst rs) \<and>
     (\<forall>(p, d) \<in> set rs. p \<in> stored st s \<and> d = score st sim s vec p)"

lemma beamOk_ranking: "beamOk st sim s vec ef visited cs rs \<Longrightarrow> ranking st sim s vec rs \<and> rs \<noteq> [] \<and> length rs \<le> ef"
  by (auto simp: beamOk_def ranking_def image_subset_iff)

lemma searchLayer_ok:
  assumes "answers st s" "finite (stored st s)" "card (stored st s) < fuel" "0 < ef" "ep \<in> stored st s"
  shows "searchLayer st sim fuel s vec ep ef layer \<noteq> Inl (OfEngine OutOfFuel)"
    and "searchLayer st sim fuel s vec ep ef layer = Inr rs \<Longrightarrow>
      ranking st sim s vec rs \<and> rs \<noteq> [] \<and> length rs \<le> ef \<and> score st sim s vec ep \<le> snd (hd rs)"
proof -
  from assms(5) obtain v where v: "GetEmbeddingVec st s ep = Inr (Some v)" by (auto simp: stored_def)
  let ?e = "[(ep, sim vec v)]"
  have "beamOk st sim s vec ef {ep} ?e ?e" using v assms(4) by (simp add: beamOk_def)
  moreover have "length ?e + card (stored st s - {ep}) < fuel"
    using assms(2,3,5) card_gt_0_iff [of "stored st s"] by (auto simp: card_Diff_singleton)
  ultimately have "searchLoop st sim fuel s vec ef layer {ep} ?e ?e \<noteq> Inl (OfEngine OutOfFuel) \<and>
    (\<forall>rs'. searchLoop st sim fuel s vec ef layer {ep} ?e ?e = Inr rs' \<longrightarrow>
      (\<exists>visited' cs'. beamOk st sim s vec ef visited' cs' rs' \<and> snd (hd ?e) \<le> snd (hd rs')))"
    by (rule searchLoop_ok [OF assms(1,2)])
  moreover have "searchLayer st sim fuel s vec ep ef layer = searchLoop st sim fuel s vec ef layer {ep} ?e ?e"
    by (simp add: searchLayer_def v Let_def)
  ultimately show "searchLayer st sim fuel s vec ep ef layer \<noteq> Inl (OfEngine OutOfFuel)"
    "searchLayer st sim fuel s vec ep ef layer = Inr rs \<Longrightarrow>
      ranking st sim s vec rs \<and> rs \<noteq> [] \<and> length rs \<le> ef \<and> score st sim s vec ep \<le> snd (hd rs)"
    using v beamOk_ranking by fastforce+
qed

subsection \<open>The search\<close>

lemma bindR_someE: "bindR m f = Inr y \<Longrightarrow> (\<And>x. m = Inr x \<Longrightarrow> f x = Inr y \<Longrightarrow> thesis) \<Longrightarrow> thesis"
  by (auto simp: bindR_eq_Inr)

lemma case_someE:
  "(case x of None \<Rightarrow> Inl e | Some a \<Rightarrow> g a) = Inr y \<Longrightarrow> (\<And>a. x = Some a \<Longrightarrow> g a = Inr y \<Longrightarrow> thesis) \<Longrightarrow> thesis"
  "(case x of None \<Rightarrow> Inr None | Some a \<Rightarrow> g a) = Inr (Some z) \<Longrightarrow>
    (\<And>a. x = Some a \<Longrightarrow> g a = Inr (Some z) \<Longrightarrow> thesis) \<Longrightarrow> thesis"
  by (auto split: option.splits)

lemma if_someE: "(if b then Inr None else m) = Inr (Some z) \<Longrightarrow> (m = Inr (Some z) \<Longrightarrow> thesis) \<Longrightarrow> thesis"
  by (auto split: if_splits)

lemma ranking_take: "ranking st sim s vec rs \<Longrightarrow> ranking st sim s vec (take k rs)"
  by (auto simp: ranking_def take_map [symmetric] sorted_wrt_take dest: in_set_takeD)

lemma Search_run:
  fixes k efSearch :: int
  assumes "answers st s" "finite (stored st s)" "card (stored st s) < fuel"
  shows "Search st sim fuel s vec k efSearch \<noteq> Inl (OfEngine OutOfFuel)"
    and "Search st sim fuel s vec k efSearch = Inr (Some rs) \<Longrightarrow>
      ranking st sim s vec rs \<and> rs \<noteq> [] \<and> int (length rs) \<le> (if k \<le> 0 then 10 else k) \<and>
      (\<exists>e. GetHNSWEntry st s = Inr (Some e) \<and> score st sim s vec e \<le> snd (hd rs))"
proof -
  define k' where "k' = (if k \<le> 0 then 10 else k)"
  define ef where "ef = (let e = (if efSearch \<le> 0 then 100 else efSearch) in if e < k' then k' else e)"
  have pos: "0 < k'" "k' \<le> ef" by (simp_all add: k'_def ef_def Let_def)
  define cut :: "'c scored list \<Rightarrow> 'c scored list" where
    "cut cs = (if int (length cs) > k' then take (nat k') cs else cs)" for cs
  have run: "Search st sim fuel s vec k efSearch = bindR (GetHNSWMeta st s) (\<lambda>m. case m of None \<Rightarrow> Inr None
      | Some meta \<Rightarrow> if hmCount meta = 0 then Inr None
          else bindR (GetHNSWEntry st s) (\<lambda>e. case e of None \<Rightarrow> Inl (ErrCorruptGraph ''non-empty graph has no entry point'')
            | Some entryCoord \<Rightarrow> bindR (GetEmbeddingVec st s entryCoord) (\<lambda>ev. case ev of
                None \<Rightarrow> Inl (ErrCorruptGraph ''entry embedding is missing'')
              | Some entryVec \<Rightarrow>
                  bindR (greedyDescend st sim fuel s vec entryCoord entryVec (unat (hmMaxLayer meta)) 1) (\<lambda>(ep, _).
                  bindR (searchLayer st sim fuel s vec ep (nat ef) 0) (\<lambda>candidates.
                    Inr (Some (cut candidates)))))))"
    by (simp only: Search_def k'_def ef_def cut_def Let_def)
  have desc: "greedyDescend st sim fuel s vec e v top 1 \<noteq> Inl (OfEngine OutOfFuel) \<and>
      (\<forall>ep d. greedyDescend st sim fuel s vec e v top 1 = Inr (ep, d) \<longrightarrow>
        ep \<in> stored st s \<and> score st sim s vec e \<le> score st sim s vec ep)"
    if "GetEmbeddingVec st s e = Inr (Some v)" for e v top
    unfolding greedyDescend_def
    using greedyLayers_facts [OF assms, of e "sim vec v" sim vec "rev [1 ..< top + 1]"] that by auto
  note layer = searchLayer_ok [OF assms, of "nat ef" _ sim vec 0]
  show "Search st sim fuel s vec k efSearch \<noteq> Inl (OfEngine OutOfFuel)"
  proof -
    have no: "searchLayer st sim fuel s vec ep (nat ef) 0 \<noteq> Inl (OfEngine OutOfFuel)"
      if "GetEmbeddingVec st s e = Inr (Some v)" "greedyDescend st sim fuel s vec e v top 1 = Inr (ep, d)" for e v top ep d
      using desc [OF that(1)] that(2) layer(1) [of ep] pos by auto
    have "greedyDescend st sim fuel s vec e v top 1 \<noteq> Inl (OfEngine OutOfFuel)"
      if "GetEmbeddingVec st s e = Inr (Some v)" for e v top using desc [OF that] by blast
    then show ?thesis
      unfolding run using assms(1) no by (auto simp: bindR_fuel answers_def split: option.splits if_splits)
  qed
  assume "Search st sim fuel s vec k efSearch = Inr (Some rs)"
  then obtain top e v ep d cs where r: "GetHNSWEntry st s = Inr (Some e)" "GetEmbeddingVec st s e = Inr (Some v)"
    "greedyDescend st sim fuel s vec e v top 1 = Inr (ep, d)"
    "searchLayer st sim fuel s vec ep (nat ef) 0 = Inr cs" "rs = cut cs"
    unfolding run by (elim bindR_someE case_someE if_someE case_prodE) (auto simp: bindR_eq_Inr)
  from desc [OF r(2)] r(3) have ep: "ep \<in> stored st s" "score st sim s vec e \<le> score st sim s vec ep" by blast+
  have cs: "ranking st sim s vec cs" "cs \<noteq> []" "score st sim s vec ep \<le> snd (hd cs)"
    using layer(2) [OF _ ep(1) r(4)] pos by auto
  have "ranking st sim s vec rs" "rs \<noteq> []" "hd rs = hd cs" "int (length rs) \<le> k'"
    using cs(1,2) pos ranking_take by (auto simp: r(5) cut_def hd_take)
  then show "ranking st sim s vec rs \<and> rs \<noteq> [] \<and> int (length rs) \<le> (if k \<le> 0 then 10 else k) \<and>
      (\<exists>e. GetHNSWEntry st s = Inr (Some e) \<and> score st sim s vec e \<le> snd (hd rs))"
    using r(1) ep(2) cs(3) by (auto simp: k'_def intro: order_trans)
qed

subsection \<open>A graph in memory\<close>

record memGraph =
  mgMeta :: "HnswMeta option"
  mgEntry :: "PackedCoord option"
  mgNodes :: "PackedCoord \<Rightarrow> HnswNode option"
  mgVecs :: "PackedCoord \<Rightarrow> int option"

definition memStorage :: "(memGraph, int) hnswStorage" where
  "memStorage = \<lparr>GetHNSWMeta = (\<lambda>s. Inr (mgMeta s)), PutHNSWMeta = (\<lambda>m s. Inr (s\<lparr>mgMeta := Some m\<rparr>)),
     GetHNSWEntry = (\<lambda>s. Inr (mgEntry s)), PutHNSWEntry = (\<lambda>p s. Inr (s\<lparr>mgEntry := Some p\<rparr>)),
     DeleteHNSWEntry = (\<lambda>s. Inr (s\<lparr>mgEntry := None\<rparr>)), GetHNSWNode = (\<lambda>s p. Inr (map_option (\<lambda>n. n\<lparr>hnCoord := p\<rparr>) (mgNodes s p))),
     PutHNSWNode = (\<lambda>n s. Inr (s\<lparr>mgNodes := (mgNodes s)(hnCoord n \<mapsto> n)\<rparr>)),
     DeleteHNSWNode = (\<lambda>p s. Inr (s\<lparr>mgNodes := (mgNodes s)(p := None)\<rparr>)), GetEmbeddingVec = (\<lambda>s p. Inr (mgVecs s p))\<rparr>"

text \<open>Two nodes at the points 3 and 8; the second links to the first, the first to nothing.\<close>

definition pairGraph :: memGraph where
  "pairGraph = \<lparr>mgMeta = Some \<lparr>hmM = 16, hmEfC = 200, hmMaxLayer = 0, hmCount = 2\<rparr>, mgEntry = Some (PackedCoord 8 0),
     mgNodes = [PackedCoord 3 0 \<mapsto> \<lparr>hnCoord = PackedCoord 3 0, hnMaxLayer = 0, hnNeighbors = [[]]\<rparr>,
       PackedCoord 8 0 \<mapsto> \<lparr>hnCoord = PackedCoord 8 0, hnMaxLayer = 0, hnNeighbors = [[PackedCoord 3 0]]\<rparr>],
     mgVecs = [PackedCoord 3 0 \<mapsto> 3, PackedCoord 8 0 \<mapsto> 8]\<rparr>"

definition closeness :: "int \<Rightarrow> int \<Rightarrow> int" where
  "closeness x y = - \<bar>x - y\<bar>"

subsection \<open>Properties\<close>

text \<open>C13: A search of the vector graph returns, whatever the links of the graph are. With one unit of fuel more
  than there are stored vectors neither the greedy descent nor the beam search runs out of it (each
  round of the first moves to a strictly better point, the second visits each vector once), so the code's loops
  end. The answer is ranked: at most \<open>k\<close> (by default 10) distinct points in descending order
  of similarity, each with the similarity of its own vector, and none when the graph is empty; the first is at least as
  close as the entry point.\<close>
theorem Search_terminates_ranked:
  fixes sim :: "'v \<Rightarrow> 'v \<Rightarrow> 'd::linorder"
  assumes "answers st s" "finite {p. \<exists>v. GetEmbeddingVec st s p = Inr (Some v)}"
    "card {p. \<exists>v. GetEmbeddingVec st s p = Inr (Some v)} < fuel"
  shows "Search st sim fuel s vec k efSearch \<noteq> Inl (OfEngine OutOfFuel) \<and>
    (Search st sim fuel s vec k efSearch = Inr (Some rs) \<longrightarrow>
      sorted_wrt (\<ge>) (map snd rs) \<and> distinct (map fst rs) \<and> 0 < length rs \<and> int (length rs) \<le> (if k \<le> 0 then 10 else k) \<and>
      (\<forall>(p, d) \<in> set rs. \<exists>v. GetEmbeddingVec st s p = Inr (Some v) \<and> d = sim vec v) \<and>
      (\<exists>e. GetHNSWEntry st s = Inr (Some e) \<and> (\<forall>v. GetEmbeddingVec st s e = Inr (Some v) \<longrightarrow> sim vec v \<le> snd (hd rs))))"
proof (intro conjI impI)
  have a: "finite (stored st s)" "card (stored st s) < fuel" using assms(2,3) by (simp_all add: stored_def)
  show "Search st sim fuel s vec k efSearch \<noteq> Inl (OfEngine OutOfFuel)" by (rule Search_run(1) [OF assms(1) a])
  have v: "\<exists>v. GetEmbeddingVec st s p = Inr (Some v) \<and> d = sim vec v" if "ranking st sim s vec rs" "(p, d) \<in> set rs" for p d
    using that by (fastforce simp: ranking_def stored_def)
  assume "Search st sim fuel s vec k efSearch = Inr (Some rs)"
  from Search_run(2) [OF assms(1) a this] have r: "ranking st sim s vec rs" "rs \<noteq> []"
    "int (length rs) \<le> (if k \<le> 0 then 10 else k)"
    "\<exists>e. GetHNSWEntry st s = Inr (Some e) \<and> score st sim s vec e \<le> snd (hd rs)" by blast+
  have "\<forall>(p, d) \<in> set rs. \<exists>v. GetEmbeddingVec st s p = Inr (Some v) \<and> d = sim vec v" using v [OF r(1)] by blast
  moreover have "\<exists>e. GetHNSWEntry st s = Inr (Some e) \<and> (\<forall>v. GetEmbeddingVec st s e = Inr (Some v) \<longrightarrow> sim vec v \<le> snd (hd rs))"
    using r(4) by force
  ultimately show "sorted_wrt (\<ge>) (map snd rs)" "distinct (map fst rs)" "0 < length rs"
    "int (length rs) \<le> (if k \<le> 0 then 10 else k)"
    "\<forall>(p, d) \<in> set rs. \<exists>v. GetEmbeddingVec st s p = Inr (Some v) \<and> d = sim vec v"
    "\<exists>e. GetHNSWEntry st s = Inr (Some e) \<and> (\<forall>v. GetEmbeddingVec st s e = Inr (Some v) \<longrightarrow> sim vec v \<le> snd (hd rs))"
    using r(1-3) by (simp_all add: ranking_def)
qed

theorem Search_terminates_ranked_witness:
  "Search memStorage closeness 3 pairGraph 4 5 0 \<noteq> Inl (OfEngine OutOfFuel) \<and>
   Search memStorage closeness 3 pairGraph 4 5 0 = Inr (Some [(PackedCoord 3 0, -1), (PackedCoord 8 0, -4)]) \<and>
   sorted_wrt (\<ge>) (map snd [(PackedCoord 3 0, -1 :: int), (PackedCoord 8 0, -4)])"
proof -
  have "{p. \<exists>v. GetEmbeddingVec memStorage pairGraph p = Inr (Some v)} = {PackedCoord 3 0, PackedCoord 8 0}"
    by (auto simp: memStorage_def pairGraph_def)
  moreover have "answers memStorage pairGraph" by (simp add: answers_def memStorage_def)
  moreover have run: "Search memStorage closeness 3 pairGraph 4 5 0 = Inr (Some [(PackedCoord 3 0, -1), (PackedCoord 8 0, -4)])"
    by code_simp
  ultimately show ?thesis
    using Search_terminates_ranked [where st = memStorage and s = pairGraph and fuel = 3 and sim = closeness and vec = 4 and k = 5 and
        efSearch = 0 and rs = "[(PackedCoord 3 0, -1), (PackedCoord 8 0, -4)]"]
    by (simp add: card_insert_if)
qed

end
