(* ===== verification/HnswRepair.thy ===== *)
theory HnswRepair
  imports HnswSearch
begin

text \<open>
  The stored form of the graph and its repair: the node and metadata codecs are canonical, and
  deletion rewrites the nodes the deleted one links to and no others.
\<close>

subsection \<open>Codecs\<close>

lemma length_appendCoordBE [simp]: "length (appendCoordBE c) = 16"
  by (simp add: appendCoordBE_def)

lemma coord_bytes:
  "16 \<le> length data \<Longrightarrow> appendCoordBE (PackedCoord (Uint64 (slice 8 16 data)) (Uint64 (slice 0 8 data))) = take 16 data"
proof -
  assume l: "16 \<le> length data"
  then have "slice 0 8 data @ slice 8 16 data = take 16 data"
    by (simp add: slice_def) (metis add.commute le_add_diff_inverse numeral_Bit0 numeral_plus_numeral take_add take_drop)
  moreover have "length (slice 8 16 data) = 8" "length (slice 0 8 data) = 8" using l by (simp_all add: slice_def)
  ultimately show ?thesis by (simp add: appendCoordBE_def Put_Uint)
qed

lemma coord_bytes_back:
  "PackedCoord (Uint64 (slice 8 16 (appendCoordBE c @ r))) (Uint64 (slice 0 8 (appendCoordBE c @ r))) = c"
  by (cases c) (simp add: appendCoordBE_def slice_def)

lemma decodeNeighbors_iff:
  "n * 16 \<le> length data \<Longrightarrow> decodeNeighbors n data = Inr l \<longleftrightarrow>
   length l = n \<and> (\<forall>c \<in> set l. isOk (Unpack c)) \<and> take (n * 16) data = concat (map appendCoordBE l)"
proof (induction n arbitrary: data l)
  case (Suc n)
  let ?c = "PackedCoord (Uint64 (slice 8 16 data)) (Uint64 (slice 0 8 data))"
  have len: "16 \<le> length data" "n * 16 \<le> length (drop 16 data)" using Suc.prems by simp_all
  have split: "take (Suc n * 16) data = take 16 data @ take (n * 16) (drop 16 data)" by (simp add: take_add)
  note c = coord_bytes [OF len(1)]
  have "decodeNeighbors (Suc n) data = Inr l \<longleftrightarrow> isOk (Unpack ?c) \<and> (\<exists>l'. decodeNeighbors n (drop 16 data) = Inr l' \<and> l = ?c # l')"
    by (auto simp: Let_def mapR_eq_Inr)
  also have "\<dots> \<longleftrightarrow> length l = Suc n \<and> (\<forall>c \<in> set l. isOk (Unpack c)) \<and> take (Suc n * 16) data = concat (map appendCoordBE l)"
  proof
    assume "isOk (Unpack ?c) \<and> (\<exists>l'. decodeNeighbors n (drop 16 data) = Inr l' \<and> l = ?c # l')"
    then show "length l = Suc n \<and> (\<forall>c \<in> set l. isOk (Unpack c)) \<and> take (Suc n * 16) data = concat (map appendCoordBE l)"
      using Suc.IH [OF len(2)] split c by auto
  next
    assume a: "length l = Suc n \<and> (\<forall>c \<in> set l. isOk (Unpack c)) \<and> take (Suc n * 16) data = concat (map appendCoordBE l)"
    then obtain d l' where l: "l = d # l'" by (cases l) auto
    then have t: "take 16 data = appendCoordBE d" "take (n * 16) (drop 16 data) = concat (map appendCoordBE l')"
      using a split len(1) by (auto simp: append_eq_append_conv)
    have "data = appendCoordBE d @ drop 16 data" using t(1) by (metis append_take_drop_id)
    then have "?c = d" using coord_bytes_back [of d "drop 16 data"] by simp
    then show "isOk (Unpack ?c) \<and> (\<exists>l'. decodeNeighbors n (drop 16 data) = Inr l' \<and> l = ?c # l')"
      using a l t(2) Suc.IH [OF len(2), of l'] by simp
  qed
  finally show ?case .
qed auto

definition encLayer :: "PackedCoord list \<Rightarrow> bytes" where
  "encLayer layer = PutUint16 (of_nat (length layer)) @ concat (map appendCoordBE layer)"

definition layerFits :: "PackedCoord list \<Rightarrow> bool" where
  "layerFits layer \<longleftrightarrow> length layer < 2 ^ 16 \<and> (\<forall>c \<in> set layer. isOk (Unpack c))"

lemma length_coords [simp]: "length (concat (map appendCoordBE l)) = length l * 16"
  by (induction l) simp_all

lemma decodeLayers_iff:
  "decodeLayers n data = Inr (layers, rest) \<longleftrightarrow>
   length layers = n \<and> (\<forall>l \<in> set layers. layerFits l) \<and> data = concat (map encLayer layers) @ rest"
proof (induction n arbitrary: data layers)
  case 0
  then show ?case by auto
next
  case (Suc n)
  have run: "decodeLayers (Suc n) data = Inr (layers, rest) \<longleftrightarrow> 2 \<le> length data \<and>
      (let cnt = unat (Uint16 (take 2 data)) in cnt * 16 \<le> length (drop 2 data) \<and>
        (\<exists>l layers'. decodeNeighbors cnt (drop 2 data) = Inr l \<and> decodeLayers n (drop (cnt * 16) (drop 2 data)) = Inr (layers', rest) \<and>
          layers = l # layers'))"
    by (auto simp: Let_def bindR_eq_Inr not_less)
  show ?case
  proof
    assume "decodeLayers (Suc n) data = Inr (layers, rest)"
    then obtain cnt l layers' where d: "2 \<le> length data" "cnt = unat (Uint16 (take 2 data))" "cnt * 16 \<le> length (drop 2 data)"
      "decodeNeighbors cnt (drop 2 data) = Inr l" "decodeLayers n (drop (cnt * 16) (drop 2 data)) = Inr (layers', rest)"
      "layers = l # layers'" unfolding run by (auto simp: Let_def)
    have l: "length l = cnt" "\<forall>c \<in> set l. isOk (Unpack c)" "take (cnt * 16) (drop 2 data) = concat (map appendCoordBE l)"
      using d(4) decodeNeighbors_iff [OF d(3)] by blast+
    have b: "cnt < 2 ^ 16" unfolding d(2) by (rule order_less_le_trans [OF unsigned_less]) simp
    have "of_nat cnt = Uint16 (take 2 data)" by (simp add: d(2))
    then have "PutUint16 (of_nat cnt) = take 2 data" using d(1) by (simp add: Put_Uint)
    then have "data = encLayer l @ drop (cnt * 16) (drop 2 data)"
      unfolding encLayer_def l(1) l(3) [symmetric] by (simp only: append_assoc append_take_drop_id)
    with Suc.IH [of "drop (cnt * 16) (drop 2 data)" layers'] d(5,6) l b
    show "length layers = Suc n \<and> (\<forall>l \<in> set layers. layerFits l) \<and> data = concat (map encLayer layers) @ rest"
      by (auto simp: layerFits_def)
  next
    assume a: "length layers = Suc n \<and> (\<forall>l \<in> set layers. layerFits l) \<and> data = concat (map encLayer layers) @ rest"
    then obtain l layers' where l: "layers = l # layers'" by (cases layers) auto
    have f: "length l < 2 ^ 16" "\<forall>c \<in> set l. isOk (Unpack c)" using a l by (auto simp: layerFits_def)
    let ?r = "concat (map encLayer layers') @ rest"
    have data: "data = PutUint16 (of_nat (length l)) @ concat (map appendCoordBE l) @ ?r" using a l by (simp add: encLayer_def)
    then have c: "unat (Uint16 (take 2 data)) = length l" "drop 2 data = concat (map appendCoordBE l) @ ?r" "2 \<le> length data"
      using f(1) by (simp_all add: unat_of_nat)
    have "decodeNeighbors (length l) (drop 2 data) = Inr l" using f(2) by (subst decodeNeighbors_iff) (simp_all add: c(2))
    moreover have "decodeLayers n ?r = Inr (layers', rest)" using Suc.IH [of ?r layers'] a l by auto
    ultimately show "decodeLayers (Suc n) data = Inr (layers, rest)"
      unfolding run using c l by (simp add: Let_def)
  qed
qed

definition nodeFits :: "HnswNode \<Rightarrow> bool" where
  "nodeFits n \<longleftrightarrow> isOk (Unpack (hnCoord n)) \<and> length (hnNeighbors n) = unat (hnMaxLayer n) + 1 \<and>
     (\<forall>l \<in> set (hnNeighbors n). layerFits l)"

lemma DecodeNode_iff: "DecodeNode coord data = Inr n \<longleftrightarrow> nodeFits n \<and> hnCoord n = coord \<and> data = EncodeNode n"
proof (cases data)
  case Nil
  then show ?thesis by (simp add: DecodeNode_def EncodeNode_def)
next
  case (Cons m d)
  have "EncodeNode n = hnMaxLayer n # concat (map encLayer (hnNeighbors n))" for n
    by (simp add: EncodeNode_def encLayer_def [abs_def])
  then show ?thesis
    using Cons by (cases n) (auto simp: DecodeNode_def nodeFits_def bindR_eq_Inr decodeLayers_iff simp del: decodeLayers.simps split: if_splits)
qed

lemma DecodeMeta_iff: "DecodeMeta data = Inr m \<longleftrightarrow> 2 \<le> hmM m \<and> hmEfC m \<noteq> 0 \<and> data = EncodeMeta m"
proof
  assume "DecodeMeta data = Inr m"
  then have l: "length data = 13" and m: "m = \<lparr>hmM = Uint16 (slice 0 2 data), hmEfC = Uint16 (slice 2 4 data),
      hmMaxLayer = data ! 4, hmCount = Uint64 (slice 5 13 data)\<rparr>" "2 \<le> hmM m" "hmEfC m \<noteq> 0"
    by (auto simp: DecodeMeta_def Let_def not_less split: if_splits)
  have "data = slice 0 2 data @ slice 2 4 data @ [data ! 4] @ slice 5 13 data"
    using l by (intro nth_equalityI) (auto simp: slice_def nth_append less_Suc_eq numeral_eq_Suc)
  then show "2 \<le> hmM m \<and> hmEfC m \<noteq> 0 \<and> data = EncodeMeta m"
    using l m by (simp add: EncodeMeta_def Put_Uint slice_def)
next
  assume "2 \<le> hmM m \<and> hmEfC m \<noteq> 0 \<and> data = EncodeMeta m"
  then show "DecodeMeta data = Inr m"
    by (cases m) (auto simp: DecodeMeta_def EncodeMeta_def slice_def Let_def not_less nth_append)
qed

subsection \<open>Repair after a deletion\<close>

text \<open>A storage whose writes change the node they name and nothing else that a search reads.\<close>

definition writesOneNode :: "('s, 'v) hnswStorage \<Rightarrow> bool" where
  "writesOneNode st \<longleftrightarrow>
     (\<forall>s s' n. PutHNSWNode st n s = Inr s' \<longrightarrow> GetEmbeddingVec st s' = GetEmbeddingVec st s \<and>
        (\<forall>p. p \<noteq> hnCoord n \<longrightarrow> GetHNSWNode st s' p = GetHNSWNode st s p)) \<and>
     (\<forall>s s' q. DeleteHNSWNode st q s = Inr s' \<longrightarrow> GetEmbeddingVec st s' = GetEmbeddingVec st s \<and>
        (\<forall>p. p \<noteq> q \<longrightarrow> GetHNSWNode st s' p = GetHNSWNode st s p)) \<and>
     (\<forall>s s'. (\<exists>e. PutHNSWEntry st e s = Inr s') \<or> DeleteHNSWEntry st s = Inr s' \<or> (\<exists>m. PutHNSWMeta st m s = Inr s') \<longrightarrow>
        GetEmbeddingVec st s' = GetEmbeddingVec st s \<and> GetHNSWNode st s' = GetHNSWNode st s) \<and>
     (\<forall>s p n. GetHNSWNode st s p = Inr (Some n) \<longrightarrow> hnCoord n = p)"

definition untouched :: "('s, 'v) hnswStorage \<Rightarrow> PackedCoord \<Rightarrow> 's \<Rightarrow> 's \<Rightarrow> bool" where
  "untouched st q s s' \<longleftrightarrow> GetEmbeddingVec st s' = GetEmbeddingVec st s \<and> GetHNSWNode st s' q = GetHNSWNode st s q"

lemma untouched_trans: "untouched st q s s1 \<Longrightarrow> untouched st q s1 s2 \<Longrightarrow> untouched st q s s2"
  by (simp add: untouched_def)

lemma put_untouched: "writesOneNode st \<Longrightarrow> PutHNSWNode st n s = Inr s' \<Longrightarrow> q \<noteq> hnCoord n \<Longrightarrow> untouched st q s s'"
  unfolding writesOneNode_def untouched_def by blast

lemma repairLayer_untouched:
  assumes "writesOneNode st" "repairLayer st coord lc limit nbrList nbrs s = Inr s'" "q \<notin> set nbrs"
  shows "untouched st q s s'"
  using assms(2,3)
proof (induction nbrs arbitrary: s)
  case (Cons nbr nbrs)
  from Cons.prems(1) obtain n where n: "GetHNSWNode st s nbr = Inr n" by (auto simp: bindR_eq_Inr)
  show ?case
  proof (cases "\<exists>node. n = Some node \<and> lc < length (hnNeighbors node)")
    case False
    then have "repairLayer st coord lc limit nbrList nbrs s = Inr s'"
      using Cons.prems(1) n by (auto simp: not_less split: option.splits)
    then show ?thesis using Cons.IH Cons.prems(2) by simp
  next
    case True
    then obtain node where node: "n = Some node" "lc < length (hnNeighbors node)" by blast
    then obtain s1 where s1: "PutHNSWNode st (node\<lparr>hnNeighbors := (hnNeighbors node)[lc :=
        repairWithCoNeighbors coord nbr limit nbrList (remove1 coord (hnNeighbors node ! lc))]\<rparr>) s = Inr s1"
      "repairLayer st coord lc limit nbrList nbrs s1 = Inr s'"
      using Cons.prems(1) n by (auto simp: bindR_eq_Inr)
    have "hnCoord node = nbr" using assms(1) n node(1) by (auto simp: writesOneNode_def)
    then have "untouched st q s s1" using put_untouched [OF assms(1) s1(1)] Cons.prems(2) by simp
    then show ?thesis using Cons.IH [OF s1(2)] Cons.prems(2) untouched_trans by simp
  qed
qed (simp add: untouched_def)

lemma repairLayers_untouched:
  assumes "writesOneNode st" "repairLayers st meta coord lc layers s = Inr s'" "q \<notin> \<Union> (set ` set layers)"
  shows "untouched st q s s'"
  using assms(2,3)
proof (induction layers arbitrary: lc s)
  case (Cons nbrs layers)
  then obtain s1 where "repairLayer st coord lc (layerLimit meta lc) nbrs nbrs s = Inr s1"
    "repairLayers st meta coord (Suc lc) layers s1 = Inr s'" by (auto simp: bindR_eq_Inr)
  then show ?case
    using repairLayer_untouched [OF assms(1)] Cons.IH Cons.prems(2) untouched_trans by fastforce
qed (simp add: untouched_def)

lemma promote_entry:
  assumes "promoteNewEntryPoint st node m s = Inr (m', s')"
  shows "s' = s \<or> (\<exists>e. PutHNSWEntry st e s = Inr s')"
proof (cases "findBestNeighborForEntry node")
  case None
  then show ?thesis using assms by (simp add: promoteNewEntryPoint_def)
next
  case (Some e)
  then show ?thesis using assms by (auto simp: promoteNewEntryPoint_def bindR_eq_Inr Let_def)
qed

lemma graphDelete_untouched:
  assumes "writesOneNode st" "graphDelete st coord s = Inr s'" "GetHNSWNode st s coord = Inr (Some node)"
    "q \<notin> \<Union> (set ` set (hnNeighbors node))" "q \<noteq> coord"
  shows "untouched st q s s'"
proof -
  have c: "hnCoord node = coord" using assms(1,3) by (auto simp: writesOneNode_def)
  have meta: "untouched st q t t'" if "PutHNSWMeta st m t = Inr t'" for t t' m
    using assms(1) that unfolding writesOneNode_def untouched_def by metis
  have entry: "untouched st q t t'" if "PutHNSWEntry st e t = Inr t' \<or> DeleteHNSWEntry st t = Inr t'" for t t' e
    using assms(1) that unfolding writesOneNode_def untouched_def by metis
  obtain m where m: "GetHNSWMeta st s = Inr m" using assms(2) by (auto simp: graphDelete_def bindR_eq_Inr)
  show ?thesis
  proof (cases "\<exists>meta. m = Some meta \<and> hmCount meta \<noteq> 0")
    case False
    then have "s' = s" using assms(2) m by (auto simp: graphDelete_def split: option.splits)
    then show ?thesis by (simp add: untouched_def)
  next
    case True
    then obtain mt where mt: "m = Some mt" "hmCount mt \<noteq> 0" by blast
    then obtain e where "removeNode st node mt e s = Inr s'"
      using assms(2,3) m by (auto simp: graphDelete_def bindR_eq_Inr)
    then obtain s1 s2 where s: "repairNeighborLinks st node mt s = Inr s1" "DeleteHNSWNode st coord s1 = Inr s2"
      and rest: "(let meta = mt\<lparr>hmCount := hmCount mt - 1\<rparr> in if hmCount meta = 0
          then bindR (DeleteHNSWEntry st s2) (PutHNSWMeta st (meta\<lparr>hmMaxLayer := 0\<rparr>))
          else bindR (if hnCoord node = e then promoteNewEntryPoint st node meta s2 else Inr (meta, s2))
                 (\<lambda>(meta, s). PutHNSWMeta st meta s)) = Inr s'"
      unfolding removeNode_def c bindR_eq_Inr by blast
    have "untouched st q s s1"
      using s(1) assms(4) unfolding repairNeighborLinks_def by (intro repairLayers_untouched [OF assms(1)])
    moreover have "untouched st q s1 s2" using s(2) assms(1,5) unfolding writesOneNode_def untouched_def by metis
    moreover have "untouched st q s2 s'"
    proof (cases "hmCount mt - 1 = 0")
      case True
      then obtain s3 where "DeleteHNSWEntry st s2 = Inr s3"
        "PutHNSWMeta st (mt\<lparr>hmCount := hmCount mt - 1, hmMaxLayer := 0\<rparr>) s3 = Inr s'"
        using rest by (auto simp: bindR_eq_Inr)
      then show ?thesis using entry meta by (meson untouched_trans)
    next
      case False
      define mt1 where "mt1 = mt\<lparr>hmCount := hmCount mt - 1\<rparr>"
      have "bindR (if hnCoord node = e then promoteNewEntryPoint st node mt1 s2 else Inr (mt1, s2))
          (\<lambda>(meta, s). PutHNSWMeta st meta s) = Inr s'"
        using rest False by (simp add: Let_def mt1_def cong: if_cong)
      then obtain x where x: "(if hnCoord node = e then promoteNewEntryPoint st node mt1 s2 else Inr (mt1, s2)) = Inr x"
        "(case x of (meta, s) \<Rightarrow> PutHNSWMeta st meta s) = Inr s'" unfolding bindR_eq_Inr by blast
      obtain mt' s3 where "x = (mt', s3)" by force
      with x have r: "(if hnCoord node = e then promoteNewEntryPoint st node mt1 s2 else Inr (mt1, s2)) = Inr (mt', s3)"
        "PutHNSWMeta st mt' s3 = Inr s'" by simp_all
      have "s3 = s2 \<or> (\<exists>e. PutHNSWEntry st e s2 = Inr s3)"
        using r(1) promote_entry [of st node mt1 s2 mt' s3] by (cases "hnCoord node = e") auto
      then have "untouched st q s2 s3" using entry by (auto simp: untouched_def)
      then show ?thesis using meta [OF r(2)] by (rule untouched_trans)
    qed
    ultimately show ?thesis by (meson untouched_trans)
  qed
qed

lemma expand_fails:
  assumes "GetEmbeddingVec st s q = Inr None"
  shows "q \<in> set nbrs \<Longrightarrow> q \<notin> visited \<Longrightarrow> expandSearchNeighbors st sim s vec ef nbrs visited cs rs \<noteq> Inr r"
proof (induction nbrs arbitrary: visited cs rs)
  case (Cons nbr nbrs)
  show ?case
  proof (cases "nbr = q")
    case True
    then show ?thesis using assms Cons.prems(2) by simp
  next
    case False
    then show ?thesis using Cons by (auto simp: bindR_eq_Inr Let_def split: option.splits if_splits)
  qed
qed simp

lemma searchLayer_fails:
  assumes "GetEmbeddingVec st s q = Inr None" "neighborsAtLayer st s p layer = Inr nbrs" "q \<in> set nbrs" "p \<noteq> q"
  shows "searchLayer st sim fuel s vec p ef layer \<noteq> Inr rs"
proof
  assume "searchLayer st sim fuel s vec p ef layer = Inr rs"
  then obtain v where v: "GetEmbeddingVec st s p = Inr (Some v)"
    "searchLoop st sim fuel s vec ef layer {p} [(p, sim vec v)] [(p, sim vec v)] = Inr rs"
    by (auto simp: searchLayer_def bindR_eq_Inr Let_def split: option.splits)
  then obtain f where "fuel = Suc f" by (cases fuel) auto
  then have "bindR (expandSearchNeighbors st sim s vec ef nbrs {p} [] [(p, sim vec v)])
      (\<lambda>(visited, candidates, results). searchLoop st sim f s vec ef layer visited candidates results) = Inr rs"
  proof -
    let ?e = "(p, sim vec v)"
    have n: "\<not> (snd ?e < snd ([?e] ! (length [?e] - 1)) \<and> length [?e] \<ge> ef)" by simp
    from v(2) show ?thesis
      unfolding \<open>fuel = Suc f\<close> searchLoop.simps list.case if_not_P [OF n] fst_conv assms(2) bindR_Inr .
  qed
  then obtain r where "expandSearchNeighbors st sim s vec ef nbrs {p} [] [(p, sim vec v)] = Inr r"
    unfolding bindR_eq_Inr by blast
  moreover have "q \<notin> {p}" using assms(4) by simp
  ultimately show False using expand_fails [OF assms(1,3)] by metis
qed

subsection \<open>Properties\<close>

text \<open>C32: The formats of graph nodes and metadata are canonical. \<open>DecodeNode\<close> accepts exactly the bytes
  that \<open>EncodeNode\<close> writes for a node of the coordinate with one neighbour list per layer,
  fewer than 2^16 links in each and every coordinate on the lattice; \<open>DecodeMeta\<close> exactly those of
  \<open>EncodeMeta\<close> for at least two links per node and a positive beam width.\<close>
theorem Hnsw_codec:
  "(DecodeNode coord data = Inr n \<longleftrightarrow> data = EncodeNode n \<and> hnCoord n = coord \<and> isOk (Unpack coord) \<and>
     length (hnNeighbors n) = unat (hnMaxLayer n) + 1 \<and> (\<forall>l \<in> set (hnNeighbors n). length l < 2 ^ 16 \<and> (\<forall>c \<in> set l. isOk (Unpack c)))) \<and>
   (DecodeMeta mdata = Inr m \<longleftrightarrow> mdata = EncodeMeta m \<and> 2 \<le> hmM m \<and> hmEfC m \<noteq> 0)"
  by (auto simp: DecodeNode_iff DecodeMeta_iff nodeFits_def layerFits_def)

theorem Hnsw_codec_witness:
  "DecodeNode zeroPacked (EncodeNode \<lparr>hnCoord = zeroPacked, hnMaxLayer = 1, hnNeighbors = [[zeroPacked], []]\<rparr>) =
     Inr \<lparr>hnCoord = zeroPacked, hnMaxLayer = 1, hnNeighbors = [[zeroPacked], []]\<rparr> \<and>
   DecodeMeta (EncodeMeta \<lparr>hmM = 16, hmEfC = 200, hmMaxLayer = 1, hmCount = 2\<rparr>) = Inr \<lparr>hmM = 16, hmEfC = 200, hmMaxLayer = 1, hmCount = 2\<rparr>"
proof -
  have "isOk (Unpack zeroPacked)" by code_simp
  then show ?thesis
    using Hnsw_codec [of zeroPacked _ "\<lparr>hnCoord = zeroPacked, hnMaxLayer = 1, hnNeighbors = [[zeroPacked], []]\<rparr>"
        _ "\<lparr>hmM = 16, hmEfC = 200, hmMaxLayer = 1, hmCount = 2\<rparr>"] by simp
qed

text \<open>C14: Deletion from the vector graph leaves one-sided links. \<open>graphDelete\<close> rewrites the nodes the deleted node
  links to; a node that links to it without being linked back (pruning makes links one-sided) keeps its link, and
  every search of layer 0 that starts at it fails afterwards, because the vector of the deleted point is gone.\<close>
theorem Dangling_link_breaks_search:
  assumes "writesOneNode st" "graphDelete st coord s = Inr s'" "GetHNSWNode st s coord = Inr (Some node)"
    "GetEmbeddingVec st s coord = Inr None" "neighborsAtLayer st s q 0 = Inr nbrs" "coord \<in> set nbrs"
    "q \<notin> \<Union> (set ` set (hnNeighbors node))" "q \<noteq> coord"
  shows "neighborsAtLayer st s' q 0 = Inr nbrs \<and> (\<exists>e. searchLayer st sim fuel s' vec q ef 0 = Inl e)"
proof -
  have u: "GetEmbeddingVec st s' coord = Inr None" "GetHNSWNode st s' q = GetHNSWNode st s q"
    using graphDelete_untouched [OF assms(1-3,7,8)] assms(4) by (simp_all add: untouched_def)
  then have n: "neighborsAtLayer st s' q 0 = Inr nbrs" using assms(5) by (simp add: neighborsAtLayer_def)
  have "searchLayer st sim fuel s' vec q ef 0 \<noteq> Inr rs" for rs
    by (rule searchLayer_fails [OF u(1) n assms(6,8)])
  then show ?thesis using n by (cases "searchLayer st sim fuel s' vec q ef 0") auto
qed

text \<open>Before the deletion the search from the linking node finds both points; after the vector and then
  the node of the other one are deleted, as \<open>DeleteEmbedding\<close> does, it answers that the graph is corrupt.\<close>

definition halfDeleted :: memGraph where
  "halfDeleted = pairGraph\<lparr>mgVecs := [PackedCoord 8 0 \<mapsto> 8]\<rparr>"

lemma pair_searches:
  "searchLayer memStorage closeness 3 pairGraph 4 (PackedCoord 8 0) 100 0 = Inr [(PackedCoord 3 0, -1), (PackedCoord 8 0, -4)]"
  "bindR (graphDelete memStorage (PackedCoord 3 0) halfDeleted) (\<lambda>s. searchLayer memStorage closeness 3 s 4 (PackedCoord 8 0) 100 0) =
     Inl (ErrCorruptGraph ''neighbor embedding is missing'')"
  by code_simp+

theorem Dangling_link_breaks_search_witness:
  "searchLayer memStorage closeness 3 pairGraph 4 (PackedCoord 8 0) 100 0 = Inr [(PackedCoord 3 0, -1), (PackedCoord 8 0, -4)] \<and>
   (\<exists>s'. graphDelete memStorage (PackedCoord 3 0) halfDeleted = Inr s' \<and>
     searchLayer memStorage closeness 3 s' 4 (PackedCoord 8 0) 100 0 = Inl (ErrCorruptGraph ''neighbor embedding is missing'') \<and>
     (\<forall>vec fuel. \<exists>e. searchLayer memStorage closeness fuel s' vec (PackedCoord 8 0) 100 0 = Inl e))"
proof -
  obtain s' where s': "graphDelete memStorage (PackedCoord 3 0) halfDeleted = Inr s'"
    by (simp add: graphDelete_def memStorage_def pairGraph_def halfDeleted_def removeNode_def repairNeighborLinks_def)
  have w: "writesOneNode memStorage" by (auto simp: writesOneNode_def memStorage_def)
  have n: "GetHNSWNode memStorage halfDeleted (PackedCoord 3 0) = Inr (Some \<lparr>hnCoord = PackedCoord 3 0, hnMaxLayer = 0, hnNeighbors = [[]]\<rparr>)"
    "GetEmbeddingVec memStorage halfDeleted (PackedCoord 3 0) = Inr None"
    "neighborsAtLayer memStorage halfDeleted (PackedCoord 8 0) 0 = Inr [PackedCoord 3 0]"
    by (simp_all add: memStorage_def pairGraph_def halfDeleted_def neighborsAtLayer_def)
  have "\<exists>e. searchLayer memStorage closeness fuel s' vec (PackedCoord 8 0) 100 0 = Inl e" for vec fuel
    using Dangling_link_breaks_search [OF w s' n, where sim = closeness and fuel = fuel and vec = vec and ef = 100] by simp
  then show ?thesis using pair_searches s' by auto
qed

end
