(* ===== verification/TxEmbedding.thy ===== *)
theory TxEmbedding
  imports HnswGraph
begin

text \<open>
  Embeddings of cells: \<open>tx_embedding.go\<close>, the index state of
  \<open>embedding_index_state.go\<close>, the graph's storage in the B+ tree
  (\<open>tx_hnsw_storage.go\<close>) and the engine's embedding configuration
  (\<open>internal/engine/embedding_config.go\<close>). A vector is the list of its 32-bit components. The
  storage adapter's caches are not modelled: they hold what was last read or written under the
  same transaction.
\<close>

subsection \<open>Index state\<close>

definition HNSWMetaKey :: bytes where "HNSWMetaKey = ascii ''hnsw/meta''"
definition HNSWEntryKey :: bytes where "HNSWEntryKey = ascii ''hnsw/entry''"
definition HNSWStateKey :: bytes where "HNSWStateKey = ascii ''hnsw/state''"

definition embeddingIndexStateVersion :: byte where "embeddingIndexStateVersion = 1"
definition embeddingIndexStateSize :: nat where "embeddingIndexStateSize = 10"
definition embeddingIndexDirtyFlag :: byte where "embeddingIndexDirtyFlag = 1"

record embeddingIndexState =
  eiRevision :: uint64
  eiDirty :: bool

definition advanceEmbeddingIndexRevision :: "embeddingIndexState \<Rightarrow> dbError + embeddingIndexState" where
  "advanceEmbeddingIndexRevision state =
     (if eiRevision state = - 1 then Inl (ErrCorruptDatabase None)
      else Inr (state\<lparr>eiRevision := eiRevision state + 1\<rparr>))"

definition loadEmbeddingIndexState :: "dbConfig \<Rightarrow> Tx \<Rightarrow> dbError + embeddingIndexState option" where
  "loadEmbeddingIndexState c tx =
     bindR (getDirect c tx HNSWStateKey) (\<lambda>found.
       case found of
         None \<Rightarrow> Inr None
       | Some encoded \<Rightarrow>
           if length encoded \<noteq> embeddingIndexStateSize \<or> encoded ! 0 \<noteq> embeddingIndexStateVersion \<or>
              encoded ! 1 AND NOT embeddingIndexDirtyFlag \<noteq> 0
           then Inl (ErrCorruptDatabase None)
           else Inr (Some \<lparr>eiRevision = Uint64 (drop 2 encoded),
                  eiDirty = (encoded ! 1 AND embeddingIndexDirtyFlag \<noteq> 0)\<rparr>))"

definition putEmbeddingIndexState :: "dbConfig \<Rightarrow> embeddingIndexState \<Rightarrow> Tx \<Rightarrow> dbError + Tx" where
  "putEmbeddingIndexState c state tx =
     putDirect c HNSWStateKey
       ([embeddingIndexStateVersion, if eiDirty state then embeddingIndexDirtyFlag else 0] @ PutUint64 (eiRevision state)) tx"

definition recordEmbeddingMutation :: "dbConfig \<Rightarrow> bool \<Rightarrow> Tx \<Rightarrow> dbError + bool \<times> Tx" where
  "recordEmbeddingMutation c deferIndex tx =
     bindR (loadEmbeddingIndexState c tx) (\<lambda>found.
       case (found, deferIndex) of
         (None, False) \<Rightarrow> Inr (True, tx)
       | _ \<Rightarrow>
           bindR (advanceEmbeddingIndexRevision
                    (case found of Some state \<Rightarrow> state | None \<Rightarrow> \<lparr>eiRevision = 0, eiDirty = False\<rparr>)) (\<lambda>state.
           let state = state\<lparr>eiDirty := eiDirty state \<or> deferIndex\<rparr>
           in bindR (putEmbeddingIndexState c state tx) (\<lambda>tx. Inr (\<not> eiDirty state, tx))))"

subsection \<open>Vectors\<close>

definition finiteFloat32 :: "uint32 \<Rightarrow> bool" where
  "finiteFloat32 w \<longleftrightarrow> w AND 0x7F800000 \<noteq> 0x7F800000"

definition encodeFloat32s :: "uint32 list \<Rightarrow> bytes" where
  "encodeFloat32s v = concat (map (\<lambda>f. rev (PutUint32 f)) v)"

primrec decodeFloat32s :: "nat \<Rightarrow> bytes \<Rightarrow> dbError + uint32 list" where
  "decodeFloat32s 0 encoded = Inr []"
| "decodeFloat32s (Suc n) encoded =
     (let f = Uint32 (rev (take 4 encoded))
      in if \<not> finiteFloat32 f then Inl (ErrCorruptDatabase None)
         else mapR ((#) f) (decodeFloat32s n (drop 4 encoded)))"

definition decodeEmbedding :: "bytes \<Rightarrow> uint16 \<Rightarrow> dbError + uint32 list" where
  "decodeEmbedding encoded dimension =
     (if dimension = 0 \<or> length encoded \<noteq> unat dimension * 4 then Inl (ErrCorruptDatabase None)
      else decodeFloat32s (unat dimension) encoded)"

definition validateEmbeddingVector :: "uint32 list \<Rightarrow> dbError + unit" where
  "validateEmbeddingVector vec =
     (if vec = [] \<or> length vec > 65535 then Inl ErrEmbeddingDimension
      else if \<not> list_all finiteFloat32 vec then Inl (ErrInvalidArgument None) else Inr ())"

subsection \<open>The graph's storage\<close>

text \<open>The storage adapter, without its caches.\<close>

definition corruptGraph :: "dbError + 'a \<Rightarrow> dbError + 'a" where
  "corruptGraph = mapL (\<lambda>e. ErrCorruptDatabase (Some e))"

definition loadEntry :: "dbConfig \<Rightarrow> Tx \<Rightarrow> dbError + PackedCoord option" where
  "loadEntry c tx =
     bindR (getDirect c tx HNSWEntryKey) (\<lambda>found.
       case found of
         None \<Rightarrow> Inr None
       | Some val \<Rightarrow>
           if length val \<noteq> 16 then Inl (ErrCorruptDatabase None)
           else let p = PackedCoord (Uint64 (slice 8 16 val)) (Uint64 (slice 0 8 val))
           in if \<not> isOk (Unpack p) then Inl (ErrCorruptDatabase None) else Inr (Some p))"

definition txHNSWStorage :: "dbConfig \<Rightarrow> (Tx, uint32 list) hnswStorage" where
  "txHNSWStorage c = \<lparr>
     GetHNSWMeta = (\<lambda>tx. bindR (getDirect c tx HNSWMetaKey) (\<lambda>found.
       case found of None \<Rightarrow> Inr None | Some val \<Rightarrow> mapR Some (corruptGraph (DecodeMeta val)))),
     PutHNSWMeta = (\<lambda>m. putDirect c HNSWMetaKey (EncodeMeta m)),
     GetHNSWEntry = loadEntry c,
     PutHNSWEntry = (\<lambda>p. putDirect c HNSWEntryKey (appendCoordBE p)),
     DeleteHNSWEntry = deleteDirect c HNSWEntryKey,
     GetHNSWNode = (\<lambda>tx p. bindR (getDirect c tx (HNSWNodeKey p)) (\<lambda>found.
       case found of None \<Rightarrow> Inr None | Some val \<Rightarrow> mapR Some (corruptGraph (DecodeNode p val)))),
     PutHNSWNode = (\<lambda>n. putDirect c (HNSWNodeKey (hnCoord n)) (EncodeNode n)),
     DeleteHNSWNode = (\<lambda>p. deleteDirect c (HNSWNodeKey p)),
     GetEmbeddingVec = (\<lambda>tx p. bindR (getDirect c tx (EmbedKey p)) (\<lambda>found.
       case found of None \<Rightarrow> Inr None | Some val \<Rightarrow> mapR Some (decodeEmbedding val (txEmbeddingDim tx))))\<rparr>"

subsection \<open>Operations\<close>

definition validatePackedCoordInvariant :: "PackedCoord \<Rightarrow> dbError + unit" where
  "validatePackedCoordInvariant coord = (case Unpack coord of Inl e \<Rightarrow> Inl (OfLattice e) | Inr _ \<Rightarrow> Inr ())"

definition invalidTypedRecord :: "dbError + unit \<Rightarrow> dbError + unit" where
  "invalidTypedRecord = mapL (\<lambda>e. ErrInvalidArgument (Some e))"

text \<open>The configuration reaches the header with the transaction, the engine's fields at once.\<close>

definition SetEmbeddingConfig :: "dbConfig \<Rightarrow> uint16 \<Rightarrow> byte \<Rightarrow> Tx \<Rightarrow> dbError + Tx" where
  "SetEmbeddingConfig c dim metric tx =
     (if dim = 0 \<or> txEmbeddingDim tx \<noteq> 0 \<and> txEmbeddingDim tx \<noteq> dim then Inl (OfEngine ErrInvalidEmbeddingConfig)
      else if txEmbeddingDim tx = dim then Inr tx
      else bindR (mapL OfEngine (UpdateHeader (cfEnv c) (\<lambda>h. h\<lparr>EmbeddingDim := dim, EmbeddingMetric := metric\<rparr>) (txStore tx))) (\<lambda>s.
        Inr (tx\<lparr>txStore := s, txEmbeddingDim := dim, txEmbeddingMetric := metric\<rparr>)))"

definition DistanceCosine :: byte where "DistanceCosine = 0"

definition PutEmbeddingWithOptions ::
  "dbConfig \<Rightarrow> (byte \<Rightarrow> uint32 list \<Rightarrow> uint32 list \<Rightarrow> 'd::linorder) \<Rightarrow> ('d scored list \<Rightarrow> 'd scored list) \<Rightarrow>
   (uint64 \<Rightarrow> uint16 \<Rightarrow> byte) \<Rightarrow> PackedCoord \<Rightarrow> uint32 list \<Rightarrow> bool \<Rightarrow> Tx \<Rightarrow> dbError + Tx" where
  "PutEmbeddingWithOptions c sim sortBy floatLayer coord vec deferIndexMaintenance tx =
     bindR (requireWritable tx) (\<lambda>_.
     bindR (invalidTypedRecord (validatePackedCoordInvariant coord)) (\<lambda>_.
     bindR (validateEmbeddingVector vec) (\<lambda>_.
     bindR (if txEmbeddingDim tx = 0
            then let metric = (if txEmbeddingMetric tx = 0 then DistanceCosine else txEmbeddingMetric tx)
                 in bindR (SetEmbeddingConfig c (of_nat (length vec)) metric tx) (\<lambda>tx. Inr (of_nat (length vec), tx))
            else Inr (txEmbeddingDim tx, tx)) (\<lambda>(dim, tx).
       if (of_nat (length vec) :: uint16) \<noteq> dim then Inl ErrEmbeddingDimension
       else bindR (putDirect c (EmbedKey coord) (encodeFloat32s vec) tx) (\<lambda>tx.
            bindR (recordEmbeddingMutation c deferIndexMaintenance tx) (\<lambda>(maintainGraph, tx).
              if \<not> maintainGraph then Inr tx
              else graphInsert (txHNSWStorage c) (sim (txEmbeddingMetric tx)) sortBy floatLayer (cfFuel c) coord vec tx))))))"

definition GetEmbedding :: "dbConfig \<Rightarrow> Tx \<Rightarrow> PackedCoord \<Rightarrow> dbError + uint32 list option" where
  "GetEmbedding c tx coord =
     (if \<not> txOpen tx then Inl ErrDatabaseClosed
      else if txEmbeddingDim tx = 0 then Inr None
      else bindR (getDirect c tx (EmbedKey coord)) (\<lambda>found.
        case found of None \<Rightarrow> Inr None | Some val \<Rightarrow> mapR Some (decodeEmbedding val (txEmbeddingDim tx))))"

definition deleteEmbeddingIfEnabled :: "dbConfig \<Rightarrow> PackedCoord \<Rightarrow> Tx \<Rightarrow> dbError + Tx" where
  "deleteEmbeddingIfEnabled c coord tx =
     (if txEmbeddingDim tx = 0 then Inr tx
      else bindR (deleteDirect c (EmbedKey coord) tx) (\<lambda>tx.
           bindR (recordEmbeddingMutation c False tx) (\<lambda>(maintainGraph, tx).
             if \<not> maintainGraph then Inr tx else graphDelete (txHNSWStorage c) coord tx)))"

definition DeleteEmbedding :: "dbConfig \<Rightarrow> PackedCoord \<Rightarrow> Tx \<Rightarrow> dbError + Tx" where
  "DeleteEmbedding c coord tx =
     bindR (requireWritable tx) (\<lambda>_.
     bindR (invalidTypedRecord (validatePackedCoordInvariant coord)) (\<lambda>_.
       if txEmbeddingDim tx = 0 then Inr tx
       else bindR (deleteDirect c (EmbedKey coord) tx) (\<lambda>tx.
            bindR (recordEmbeddingMutation c False tx) (\<lambda>(maintainGraph, tx).
              if \<not> maintainGraph then Inr tx else graphDelete (txHNSWStorage c) coord tx))))"

end
