(* ===== verification/TxCells.thy ===== *)
theory TxCells
  imports TxEmbedding
begin

text \<open>
  Cells in a transaction: validation (\<open>record_validation.go\<close>), the visible version of a cell
  or facet (\<open>mvcc.go\<close>), \<open>PutCell\<close> and \<open>GetCell\<close> (\<open>primitives.go\<close>),
  the source, time and tag rows (\<open>cell_secondary.go\<close>) and \<open>DeleteCell\<close>
  (\<open>delete_cell.go\<close>). Under MVCC every write of a cell is a row of its own, numbered by the
  commit; a read takes the newest row that is not newer than the snapshot.
\<close>

subsection \<open>Validation\<close>

definition finiteFloat64 :: "uint64 \<Rightarrow> bool" where
  "finiteFloat64 w \<longleftrightarrow> w AND 0x7FF0000000000000 \<noteq> 0x7FF0000000000000"

definition validateFiniteInvariant :: "string \<Rightarrow> uint64 \<Rightarrow> dbError + unit" where
  "validateFiniteInvariant field v = (if finiteFloat64 v then Inr () else Inl (DBFailure (field @ '' must be finite'')))"

definition validateProvenanceInvariants :: "ProvenanceWire \<Rightarrow> dbError + unit" where
  "validateProvenanceInvariants p = validateFiniteInvariant ''provenance confidence'' (Confidence p)"

definition validateCellInvariants :: "CellRecord \<Rightarrow> dbError + unit" where
  "validateCellInvariants r =
     bindR (validatePackedCoordInvariant (cellKey r)) (\<lambda>_.
     bindR (case ClusterHint r of None \<Rightarrow> Inr () | Some h \<Rightarrow> validatePackedCoordInvariant h) (\<lambda>_.
       validateProvenanceInvariants (cellProvenance r)))"

subsection \<open>Visible versions\<close>

definition OpPutCell :: byte where "OpPutCell = 1"
definition OpPutSeam :: byte where "OpPutSeam = 2"
definition OpResolveSeam :: byte where "OpResolveSeam = 3"
definition OpPutFacet :: byte where "OpPutFacet = 4"
definition OpPutEdge :: byte where "OpPutEdge = 5"
definition OpDeleteCell :: byte where "OpDeleteCell = 6"

definition getCellVisibleRaw :: "dbConfig \<Rightarrow> Tx \<Rightarrow> PackedCoord \<Rightarrow> dbError + (bytes \<times> uint64) option" where
  "getCellVisibleRaw c tx key =
     (if \<not> txOpen tx then Inl ErrDatabaseClosed
      else if \<not> cfMVCC c then mapR (map_option (\<lambda>raw. (raw, 0))) (TxGet c tx (CellKey key))
      else if key \<in> txDeleted tx then Inr None
      else case txOverlay tx key of
        Some r \<Rightarrow> mapR (\<lambda>b. Some (b, txWriteSeq tx)) (mapL OfRecord (EncodeCell r))
      | None \<Rightarrow>
          bindR (getVisibleVersionRaw c tx (CellKeyWithVersion key 0) (CellKeyWithVersion key (txReadSeq tx))
                   ParseCommitSeqFromCellKey) (\<lambda>found.
            case found of
              None \<Rightarrow> Inr None
            | Some (val, seq) \<Rightarrow> if val = [] then Inr None else Inr (Some (val, seq))))"

definition visibleCellAndSeq :: "dbConfig \<Rightarrow> Tx \<Rightarrow> PackedCoord \<Rightarrow> dbError + (CellRecord \<times> uint64) option" where
  "visibleCellAndSeq c tx key =
     bindR (getCellVisibleRaw c tx key) (\<lambda>found.
       case found of
         None \<Rightarrow> Inr None
       | Some (raw, seq) \<Rightarrow> mapR (\<lambda>r. Some (r, seq)) (mapL OfRecord (DecodeCell raw)))"

definition GetCell :: "dbConfig \<Rightarrow> Tx \<Rightarrow> PackedCoord \<Rightarrow> dbError + CellRecord option" where
  "GetCell c tx key =
     bindR (getCellVisibleRaw c tx key) (\<lambda>found.
       case found of
         None \<Rightarrow> Inr None
       | Some (raw, _) \<Rightarrow> mapR Some (mapL OfRecord (DecodeCell raw)))"

definition getFacetVisibleRaw :: "dbConfig \<Rightarrow> Tx \<Rightarrow> PackedCoord \<Rightarrow> byte \<Rightarrow> dbError + bytes option" where
  "getFacetVisibleRaw c tx p facetID =
     (if \<not> txOpen tx then Inl ErrDatabaseClosed
      else if \<not> cfMVCC c then bindR (mapL OfIndex (FacetKey p facetID)) (TxGet c tx)
      else bindR (mapL OfIndex (FacetKeyWithVersion p facetID 0)) (\<lambda>from.
           bindR (mapL OfIndex (FacetKeyWithVersion p facetID (txReadSeq tx))) (\<lambda>to.
           bindR (getVisibleVersionRaw c tx from to ParseFacetCommitSeq) (\<lambda>found.
             case found of
               None \<Rightarrow> Inr None
             | Some (val, _) \<Rightarrow> if val = [] then Inr None else Inr (Some val)))))"

subsection \<open>Index rows of a cell\<close>

definition cellSourceSecondaryKey :: "dbConfig \<Rightarrow> CellRecord \<Rightarrow> uint64 \<Rightarrow> dbError + bytes option" where
  "cellSourceSecondaryKey c r commitSeq =
     (let sid = TrimSpace (SourceID (cellProvenance r))
      in if sid = [] then Inr None
         else if cfMVCC c then mapR Some (mapL OfIndex (SourceKeyWithVersion sid (cellKey r) commitSeq))
         else mapR Some (mapL OfIndex (SourceKey sid (cellKey r))))"

definition cellTimeSecondaryKey :: "dbConfig \<Rightarrow> CellRecord \<Rightarrow> uint64 \<Rightarrow> bytes option" where
  "cellTimeSecondaryKey c r commitSeq =
     (case WeekBucketFromValidity (cellValidity r) of
        None \<Rightarrow> None
      | Some b \<Rightarrow> Some (if cfMVCC c then TimeKeyWithVersion b (cellKey r) commitSeq else TimeKey b (cellKey r)))"

definition cellTagSecondaryKey :: "dbConfig \<Rightarrow> bytes \<Rightarrow> PackedCoord \<Rightarrow> uint64 \<Rightarrow> dbError + bytes" where
  "cellTagSecondaryKey c tag key commitSeq =
     mapL OfIndex (if cfMVCC c then TagKeyWithVersion tag key commitSeq else TagKey tag key)"

definition emptySecondaryVal :: bytes where "emptySecondaryVal = []"

primrec removeTagRows :: "dbConfig \<Rightarrow> PackedCoord \<Rightarrow> uint64 \<Rightarrow> bytes list \<Rightarrow> Tx \<Rightarrow> dbError + Tx" where
  "removeTagRows c key commitSeq [] tx = Inr tx"
| "removeTagRows c key commitSeq (tag # tags) tx =
     bindR (cellTagSecondaryKey c tag key commitSeq) (\<lambda>k.
     bindR (deleteDirect c k tx) (removeTagRows c key commitSeq tags))"

definition removeCellSecondaryIndex :: "dbConfig \<Rightarrow> CellRecord \<Rightarrow> uint64 \<Rightarrow> Tx \<Rightarrow> dbError + Tx" where
  "removeCellSecondaryIndex c r commitSeq tx =
     (if \<not> txOpen tx then Inl ErrDatabaseClosed
      else bindR (cellSourceSecondaryKey c r commitSeq) (\<lambda>k.
           bindR (case k of None \<Rightarrow> Inr tx | Some k \<Rightarrow> deleteDirect c k tx) (\<lambda>tx.
           bindR (case cellTimeSecondaryKey c r commitSeq of None \<Rightarrow> Inr tx | Some tk \<Rightarrow> deleteDirect c tk tx) (\<lambda>tx.
             removeTagRows c (cellKey r) commitSeq (UniqueSortedTags (Tags r)) tx))))"

definition tooLong :: "dbError \<Rightarrow> dbError" where
  "tooLong e = (if e = OfIndex ErrSourceIDTooLong \<or> e = OfIndex ErrTagTooLong then ErrInvalidArgument (Some e) else e)"

primrec putTagRows :: "dbConfig \<Rightarrow> PackedCoord \<Rightarrow> uint64 \<Rightarrow> bytes list \<Rightarrow> Tx \<Rightarrow> dbError + Tx" where
  "putTagRows c key commitSeq [] tx = Inr tx"
| "putTagRows c key commitSeq (tag # tags) tx =
     bindR (mapL tooLong (cellTagSecondaryKey c tag key commitSeq)) (\<lambda>k.
     bindR (putDirect c k emptySecondaryVal tx) (putTagRows c key commitSeq tags))"

definition putCellSecondaryIndex :: "dbConfig \<Rightarrow> CellRecord \<Rightarrow> uint64 \<Rightarrow> Tx \<Rightarrow> dbError + Tx" where
  "putCellSecondaryIndex c r commitSeq tx =
     bindR (mapL tooLong (cellSourceSecondaryKey c r commitSeq)) (\<lambda>k.
     bindR (case k of None \<Rightarrow> Inr tx | Some k \<Rightarrow> putDirect c k emptySecondaryVal tx) (\<lambda>tx.
     bindR (case cellTimeSecondaryKey c r commitSeq of None \<Rightarrow> Inr tx | Some tk \<Rightarrow> putDirect c tk emptySecondaryVal tx) (\<lambda>tx.
       putTagRows c (cellKey r) commitSeq (UniqueSortedTags (Tags r)) tx)))"

subsection \<open>Writing a cell\<close>

text \<open>
  A context is the sequence of answers its \<open>Err\<close> method gives during the call. The hooks
  are called with the record; their errors come back to the caller.
\<close>

type_synonym ctx = "nat \<Rightarrow> string option"

definition ctxErr :: "ctx \<Rightarrow> nat \<Rightarrow> dbError + unit" where
  "ctxErr ctx i = (case ctx i of None \<Rightarrow> Inr () | Some e \<Rightarrow> Inl (OfContext e))"

definition callHook :: "('r \<Rightarrow> string option) option \<Rightarrow> 'r \<Rightarrow> dbError + unit" where
  "callHook h r = (case h of None \<Rightarrow> Inr ()
     | Some f \<Rightarrow> (case f r of None \<Rightarrow> Inr () | Some e \<Rightarrow> Inl (OfHook e)))"

definition PutCell :: "dbConfig \<Rightarrow> ctx \<Rightarrow> CellRecord \<Rightarrow> Tx \<Rightarrow> dbError + Tx" where
  "PutCell c ctx r tx =
     bindR (ctxErr ctx 0) (\<lambda>_.
     bindR (requireWritable tx) (\<lambda>_.
     bindR (invalidTypedRecord (validateCellInvariants r)) (\<lambda>_.
     bindR (callHook (cfValidator c) r) (\<lambda>_.
     bindR (mapL OfRecord (EncodeCell r)) (\<lambda>data.
     if \<not> cfMVCC c
     then bindR (GetCell c tx (cellKey r)) (\<lambda>old.
          let key = CellKey (cellKey r)
          in bindR (putDirect c key data tx) (\<lambda>tx.
             bindR (case old of None \<Rightarrow> Inr tx | Some old \<Rightarrow> removeCellSecondaryIndex c old 0 tx) (\<lambda>tx.
             bindR (putCellSecondaryIndex c r 0 tx) (\<lambda>tx.
             let tx = noteChangelog c OpPutCell key data tx
             in bindR (callHook (cfAfterPutCell c) r) (\<lambda>_. Inr tx)))))
     else bindR (visibleCellAndSeq c tx (cellKey r)) (\<lambda>_.
          bindR (putDirect c (CellKeyWithVersion (cellKey r) (txWriteSeq tx)) data tx) (\<lambda>tx.
          bindR (putCellSecondaryIndex c r (txWriteSeq tx) tx) (\<lambda>tx.
          let tx = tx\<lparr>txOverlay := (txOverlay tx)(cellKey r \<mapsto> r), txDeleted := txDeleted tx - {cellKey r}\<rparr>;
              tx = noteChangelog c OpPutCell (CellKey (cellKey r)) data tx
          in bindR (callHook (cfAfterPutCell c) r) (\<lambda>_. Inr tx)))))))))"

subsection \<open>Deleting a cell\<close>

primrec deleteKeys :: "dbConfig \<Rightarrow> bytes list \<Rightarrow> Tx \<Rightarrow> dbError + Tx" where
  "deleteKeys c [] tx = Inr tx"
| "deleteKeys c (k # ks) tx = bindR (deleteDirect c k tx) (deleteKeys c ks)"

definition deleteFacetsForCell :: "dbConfig \<Rightarrow> PackedCoord \<Rightarrow> Tx \<Rightarrow> dbError + Tx" where
  "deleteFacetsForCell c key tx =
     bindR (mapL OfIndex (FacetRangeLower key)) (\<lambda>lo.
     bindR (mapL OfIndex (FacetRangeUpper key)) (\<lambda>hi.
     bindR (TxAscendRange c tx (Some lo) (Some hi) (\<lambda>k v keys. (True, keys @ [k])) []) (\<lambda>keys.
       deleteKeys c keys tx)))"

primrec tombstoneFacets :: "dbConfig \<Rightarrow> PackedCoord \<Rightarrow> byte list \<Rightarrow> Tx \<Rightarrow> dbError + Tx" where
  "tombstoneFacets c key [] tx = Inr tx"
| "tombstoneFacets c key (facetID # ids) tx =
     bindR (getFacetVisibleRaw c tx key facetID) (\<lambda>found.
       case found of
         None \<Rightarrow> tombstoneFacets c key ids tx
       | Some _ \<Rightarrow>
           bindR (mapL OfIndex (FacetKeyWithVersion key facetID (txWriteSeq tx))) (\<lambda>tombKey.
           bindR (putDirect c tombKey [] tx) (tombstoneFacets c key ids)))"

text \<open>The loop variable runs from 0 to \<open>MaxFacetID\<close>.\<close>

definition tombstoneFacetsForCell :: "dbConfig \<Rightarrow> PackedCoord \<Rightarrow> Tx \<Rightarrow> dbError + Tx" where
  "tombstoneFacetsForCell c key tx = tombstoneFacets c key (map of_nat [0 ..< unat MaxFacetID + 1]) tx"

definition deleteOutboundEdges :: "dbConfig \<Rightarrow> PackedCoord \<Rightarrow> Tx \<Rightarrow> dbError + Tx" where
  "deleteOutboundEdges c key tx =
     (let pre = EdgeFromPrefix key
      in bindR (TxAscendRange c tx (Some pre) None
                  (\<lambda>k v keys. if \<not> prefix pre k then (False, keys) else (True, keys @ [k])) []) (\<lambda>keys.
           deleteKeys c keys tx))"

definition deleteCellV1 :: "dbConfig \<Rightarrow> PackedCoord \<Rightarrow> Tx \<Rightarrow> dbError + bool \<times> Tx" where
  "deleteCellV1 c key tx =
     bindR (GetCell c tx key) (\<lambda>found.
       case found of
         None \<Rightarrow> Inr (False, tx)
       | Some old \<Rightarrow>
           bindR (deleteDirect c (CellKey key) tx) (\<lambda>tx.
           bindR (removeCellSecondaryIndex c old 0 tx) (\<lambda>tx.
           bindR (deleteFacetsForCell c key tx) (\<lambda>tx.
           bindR (deleteOutboundEdges c key tx) (\<lambda>tx.
           bindR (deleteEmbeddingIfEnabled c key tx) (\<lambda>tx.
             Inr (True, noteChangelog c OpDeleteCell (CellKey key) [] tx)))))))"

definition deleteCellMVCC :: "dbConfig \<Rightarrow> PackedCoord \<Rightarrow> Tx \<Rightarrow> dbError + bool \<times> Tx" where
  "deleteCellMVCC c key tx =
     bindR (visibleCellAndSeq c tx key) (\<lambda>found.
       case found of
         None \<Rightarrow> Inr (False, tx)
       | Some (old, oldSeq) \<Rightarrow>
           bindR (putDirect c (CellKeyWithVersion key (txWriteSeq tx)) [] tx) (\<lambda>tx.
           bindR (removeCellSecondaryIndex c old oldSeq tx) (\<lambda>tx.
           bindR (tombstoneFacetsForCell c key tx) (\<lambda>tx.
           bindR (deleteOutboundEdges c key tx) (\<lambda>tx.
           bindR (deleteEmbeddingIfEnabled c key tx) (\<lambda>tx.
             let tx = tx\<lparr>txDeleted := insert key (txDeleted tx), txOverlay := (txOverlay tx)(key := None)\<rparr>
             in Inr (True, noteChangelog c OpDeleteCell (CellKey key) [] tx)))))))"

definition DeleteCellWithOutcome :: "dbConfig \<Rightarrow> ctx \<Rightarrow> PackedCoord \<Rightarrow> Tx \<Rightarrow> dbError + bool \<times> Tx" where
  "DeleteCellWithOutcome c ctx key tx =
     bindR (ctxErr ctx 0) (\<lambda>_.
     bindR (requireWritable tx) (\<lambda>_.
     bindR (invalidTypedRecord (validatePackedCoordInvariant key)) (\<lambda>_.
       if \<not> cfMVCC c then deleteCellV1 c key tx else deleteCellMVCC c key tx)))"

definition DeleteCell :: "dbConfig \<Rightarrow> ctx \<Rightarrow> PackedCoord \<Rightarrow> Tx \<Rightarrow> dbError + Tx" where
  "DeleteCell c ctx key tx = mapR snd (DeleteCellWithOutcome c ctx key tx)"

subsection \<open>Facets\<close>

definition validateFacetInvariants :: "FacetRecord \<Rightarrow> dbError + unit" where
  "validateFacetInvariants r = validatePackedCoordInvariant (facetKey r)"

definition PutFacet :: "dbConfig \<Rightarrow> FacetRecord \<Rightarrow> Tx \<Rightarrow> dbError + Tx" where
  "PutFacet c r tx =
     bindR (requireWritable tx) (\<lambda>_.
     bindR (invalidTypedRecord (validateFacetInvariants r)) (\<lambda>_.
     bindR (mapL OfRecord (EncodeFacet r)) (\<lambda>data.
     bindR (mapL OfIndex (if cfMVCC c then FacetKeyWithVersion (facetKey r) (FacetID r) (txWriteSeq tx)
                          else FacetKey (facetKey r) (FacetID r))) (\<lambda>key.
     bindR (putDirect c key data tx) (\<lambda>tx. Inr (noteChangelog c OpPutFacet key data tx))))))"

definition UpdateFacet :: "dbConfig \<Rightarrow> FacetRecord \<Rightarrow> Tx \<Rightarrow> dbError + Tx" where
  "UpdateFacet c r tx =
     bindR (requireWritable tx) (\<lambda>_.
     bindR (GetCell c tx (facetKey r)) (\<lambda>cell.
       case cell of
         None \<Rightarrow> Inl ErrCellNotFound
       | Some cell \<Rightarrow>
           if DerivationHash r \<noteq> cfSHA256 c (RawContent cell) then Inl ErrFacetDerivationMismatch
           else PutFacet c r tx))"

definition GetFacet :: "dbConfig \<Rightarrow> Tx \<Rightarrow> PackedCoord \<Rightarrow> byte \<Rightarrow> dbError + FacetRecord option" where
  "GetFacet c tx key facetID =
     (if facetID > MaxFacetID then Inl (ErrInvalidArgument None)
      else if \<not> txOpen tx then Inl ErrDatabaseClosed
      else bindR (getFacetVisibleRaw c tx key facetID) (\<lambda>found.
        case found of
          None \<Rightarrow> Inr None
        | Some raw \<Rightarrow> mapR Some (mapL OfRecord (DecodeFacet raw))))"

end
