(* ===== verification/CellSnapshots.thy ===== *)
theory CellSnapshots
  imports TxCells
begin

text \<open>
  What the cell operations of \<open>TxCells\<close> do to the map of the store under MVCC: a store is
  a set of versioned rows, \<open>cellAt\<close> is the cell a snapshot number stands for, and each
  operation changes it for its own commit number and later ones only. A transaction's invariant
  ties its overlay to the rows it has written, so that \<open>GetCell\<close> inside an update reads the
  transaction's own writes and in a view the snapshot.
\<close>

subsection \<open>Versioned rows\<close>

interpretation cellRows: version_rows "CellKeyWithVersion p" ParseCommitSeqFromCellKey for p
proof
  show "CellKeyWithVersion p s < CellKeyWithVersion p s' \<longleftrightarrow> s < s'" for s s'
    using CellKeyWithVersion_order [of p s' p s] by (auto simp: not_le [symmetric])
  show "ParseCommitSeqFromCellKey (CellKeyWithVersion p s) = Some s" for s
    by (auto simp: ParseCommitSeq_iff ParseCellVersionKey_iff)
  show "k = CellKeyWithVersion p s"
    if k: "CellKeyWithVersion p 0 \<le> k" "k \<le> CellKeyWithVersion p r" "ParseCommitSeqFromCellKey k = Some s" for k r s
  proof -
    obtain q where "k = CellKeyWithVersion q s" using k(3) by (auto simp: ParseCommitSeq_iff ParseCellVersionKey_iff)
    then show ?thesis using k(1,2) by (auto simp: CellKeyWithVersion_order)
  qed
qed

lemma facet_rows: "f \<le> 5 \<Longrightarrow> version_rows (\<lambda>s. facet.vkey ((p, f), s)) ParseFacetCommitSeq"
proof
  fix s s' r k
  assume f: "f \<le> 5"
  show "facet.vkey ((p, f), s) < facet.vkey ((p, f), s') \<longleftrightarrow> s < s'" by (simp add: facet.vkey_less)
  have "FacetKeyWithVersion p f s = Inr (facet.vkey ((p, f), s))" using f by (simp add: FacetKeyWithVersion_base)
  then show "ParseFacetCommitSeq (facet.vkey ((p, f), s)) = Some s" by (rule ParseFacetKeyWithVersion_round)
  assume k: "facet.vkey ((p, f), 0) \<le> k" "k \<le> facet.vkey ((p, f), r)" "ParseFacetCommitSeq k = Some s"
  then obtain q g where "ParseFacetKey k = Inr (q, g)" by (auto simp: ParseFacetCommitSeq_def split: sum.splits)
  then have g: "g \<le> 5" "k = facetBase (q, g) \<or> (\<exists>t. k = facet.vkey ((q, g), t))" by (simp_all add: ParseFacetKey_shape)
  have "k \<noteq> facetBase (q, g)"
  proof
    assume b: "k = facetBase (q, g)"
    have lt: "facetBase v < facet.vkey (w, t) \<longleftrightarrow> v < w \<or> v = w" for v w :: "PackedCoord \<times> byte" and t
    proof -
      have "length (PutUint64 t) = 8" by simp
      then have "[] < PutUint64 t" by (cases "PutUint64 t") simp_all
      then show ?thesis
        using lex_append [of "facetBase v" "facetBase w" "[]" "PutUint64 t"] facetBase_less [of v w] facet.key_inject [of v w]
        by (simp add: facet.vkey_def)
    qed
    have "length (facetBase (q, g)) \<noteq> length (facet.vkey ((p, f), r))" by (simp add: facet.vkey_def)
    then have "facetBase (q, g) \<noteq> facet.vkey ((p, f), r)" by metis
    then have "facetBase (q, g) < facet.vkey ((p, f), r)" using k(2) b by simp
    then have "facetBase (q, g) < facet.vkey ((p, f), 0)" by (simp add: lt)
    then show False using k(1,2) b by simp
  qed
  then obtain t where t: "k = facet.vkey ((q, g), t)" using g(2) by blast
  then have "(q, g) = (p, f)" using k(1,2) by (auto simp: facet.v.key_le)
  moreover have "FacetKeyWithVersion q g t = Inr k" using g(1) t by (simp add: FacetKeyWithVersion_base)
  then have "t = s" using ParseFacetKeyWithVersion_round(2) k(3) by fastforce
  ultimately show "k = facet.vkey ((p, f), s)" using t by simp
qed

subsection \<open>The cell at a snapshot\<close>

definition rowCell :: "bytes \<Rightarrow> CellRecord option" where
  "rowCell v = (if v = [] then None else case DecodeCell v of Inl _ \<Rightarrow> None | Inr r \<Rightarrow> Some r)"

definition cellAt :: "(bytes \<Rightarrow> bytes option) \<Rightarrow> PackedCoord \<Rightarrow> uint64 \<Rightarrow> CellRecord option" where
  "cellAt M p r = Option.bind (newest M (CellKeyWithVersion p) r) (\<lambda>(v, _). rowCell v)"

text \<open>Every cell row is a tombstone or the encoding of a record for its coordinate.\<close>

definition cellsOk :: "(bytes \<Rightarrow> bytes option) \<Rightarrow> bool" where
  "cellsOk M \<longleftrightarrow> (\<forall>p s v. M (CellKeyWithVersion p s) = Some v \<longrightarrow>
     v = [] \<or> (\<exists>r. EncodeCell r = Inr v \<and> cellKey r = p))"

lemma EncodeCell_nonempty: "EncodeCell r = Inr v \<Longrightarrow> v \<noteq> []"
  by (auto simp: EncodeCell_def AppendEnvelope_def bindR_eq_Inr Let_def MagicCell_def ascii_def split: if_splits)

lemma rowCell_simps: "rowCell [] = None" "EncodeCell r = Inr v \<Longrightarrow> rowCell v = Some r"
  using cell_codec [of v r] EncodeCell_nonempty [of r v] by (auto simp: rowCell_def)

text \<open>
  The transaction's bookkeeping: its commit number is above its snapshot and every stored row's
  but its own; a coordinate in the overlay or among the deleted has the row the transaction
  wrote, the others have none.
\<close>

definition txOk :: "Tx \<Rightarrow> (bytes \<Rightarrow> bytes option) \<Rightarrow> bool" where
  "txOk tx M \<longleftrightarrow> cellsOk M \<and>
     (if txWritable tx
      then txReadSeq tx < txWriteSeq tx \<and>
        (\<forall>p s. M (CellKeyWithVersion p s) \<noteq> None \<longrightarrow> s \<le> txReadSeq tx \<or> s = txWriteSeq tx) \<and>
        (\<forall>p. M (CellKeyWithVersion p (txWriteSeq tx)) =
           (if p \<in> txDeleted tx then Some []
            else case txOverlay tx p of None \<Rightarrow> None | Some r \<Rightarrow> (case EncodeCell r of Inl _ \<Rightarrow> None | Inr v \<Rightarrow> Some v))) \<and>
        (\<forall>p r. txOverlay tx p = Some r \<longrightarrow> isOk (EncodeCell r) \<and> cellKey r = p \<and> p \<notin> txDeleted tx)
      else txOverlay tx = (\<lambda>_. None) \<and> txDeleted tx = {})"

definition txSeq :: "Tx \<Rightarrow> uint64" where
  "txSeq tx = (if txWritable tx then txWriteSeq tx else txReadSeq tx)"

text \<open>The row a transaction sees.\<close>

definition cellRow :: "(bytes \<Rightarrow> bytes option) \<Rightarrow> PackedCoord \<Rightarrow> uint64 \<Rightarrow> (bytes \<times> uint64) option" where
  "cellRow M p r = (case newest M (CellKeyWithVersion p) r of
     None \<Rightarrow> None | Some (v, s) \<Rightarrow> if v = [] then None else Some (v, s))"

lemma cellAt_row: "cellAt M p r = Option.bind (cellRow M p r) (\<lambda>(v, _). rowCell v)"
  by (auto simp: cellAt_def cellRow_def rowCell_def split: option.split)

lemma getCellVisibleRaw_row:
  assumes "holds c n tx M" "cfMVCC c" "txOk tx M"
  shows "getCellVisibleRaw c tx p = Inr (cellRow M p (txSeq tx))"
proof -
  have o: "txOpen tx" using assms(1) by (simp add: holds_def)
  note look = cellRows.getVisibleVersion_newest [OF assms(1)]
  show ?thesis
  proof (cases "txWritable tx")
    case False
    then have "txOverlay tx = (\<lambda>_. None)" "txDeleted tx = {}" using assms(3) by (simp_all add: txOk_def)
    then show ?thesis
      using o assms(2) False by (simp add: getCellVisibleRaw_def look txSeq_def cellRow_def split: option.split)
  next
    case True
    let ?w = "txWriteSeq tx"
    have I: "txReadSeq tx < ?w" "\<And>s. M (CellKeyWithVersion p s) \<noteq> None \<Longrightarrow> s \<le> txReadSeq tx \<or> s = ?w"
      "M (CellKeyWithVersion p ?w) = (if p \<in> txDeleted tx then Some []
         else case txOverlay tx p of None \<Rightarrow> None | Some r \<Rightarrow> (case EncodeCell r of Inl _ \<Rightarrow> None | Inr v \<Rightarrow> Some v))"
      "\<And>r. txOverlay tx p = Some r \<Longrightarrow> isOk (EncodeCell r) \<and> p \<notin> txDeleted tx"
      using assms(3) True by (simp_all add: txOk_def)
    have top: "newest M (CellKeyWithVersion p) ?w = Some (v, ?w)" if "M (CellKeyWithVersion p ?w) = Some v" for v
      using that by (simp add: newest_Some)
    consider (deleted) "p \<in> txDeleted tx" | (overlay) r where "p \<notin> txDeleted tx" "txOverlay tx p = Some r"
      | (older) "p \<notin> txDeleted tx" "txOverlay tx p = None" by (cases "txOverlay tx p") auto
    then show ?thesis
    proof cases
      case deleted
      then have "newest M (CellKeyWithVersion p) ?w = Some ([], ?w)" using I(3) by (intro top) simp
      then show ?thesis using o assms(2) deleted True by (simp add: getCellVisibleRaw_def txSeq_def cellRow_def)
    next
      case overlay
      then obtain v where v: "EncodeCell r = Inr v" using I(4) by (cases "EncodeCell r") auto
      then have "newest M (CellKeyWithVersion p) ?w = Some (v, ?w)" using I(3) overlay by (intro top) simp
      then show ?thesis
        using o assms(2) overlay True v EncodeCell_nonempty [OF v] by (simp add: getCellVisibleRaw_def txSeq_def cellRow_def)
    next
      case older
      then have none: "M (CellKeyWithVersion p ?w) = None" using I(3) by simp
      have "newest M (CellKeyWithVersion p) ?w = newest M (CellKeyWithVersion p) (txReadSeq tx)"
      proof (cases "newest M (CellKeyWithVersion p) (txReadSeq tx)")
        case None
        then have "M (CellKeyWithVersion p s) = None" if "s \<le> ?w" for s using I(2) [of s] none that None unfolding newest_None by (cases "M (CellKeyWithVersion p s)") auto
        then show ?thesis using None newest_None [of M "CellKeyWithVersion p" ?w] by simp
      next
        case (Some vs)
        obtain v s where vs: "vs = (v, s)" by force
        have n: "s \<le> txReadSeq tx" "M (CellKeyWithVersion p s) = Some v"
          "\<And>s'. s' \<le> txReadSeq tx \<Longrightarrow> M (CellKeyWithVersion p s') \<noteq> None \<Longrightarrow> s' \<le> s"
          using Some unfolding vs newest_Some by blast+
        have "s \<le> ?w" using n(1) I(1) by simp
        moreover have "s' \<le> s" if "M (CellKeyWithVersion p s') \<noteq> None" for s'
          using I(2) [OF that] n(3) [of s'] none that by auto
        ultimately show ?thesis unfolding Some unfolding vs newest_Some using n(2) by blast
      qed
      then show ?thesis
        using o assms(2) older True by (simp add: getCellVisibleRaw_def look txSeq_def cellRow_def split: option.split)
    qed
  qed
qed

lemma cellRow_decodes:
  assumes "cellsOk M" "cellRow M p r = Some (v, s)"
  obtains rec where "DecodeCell v = Inr rec" "EncodeCell rec = Inr v" "cellKey rec = p" "cellAt M p r = Some rec" "s \<le> r"
    "M (CellKeyWithVersion p s) = Some v"
proof -
  from assms(2) have m: "newest M (CellKeyWithVersion p) r = Some (v, s)" "v \<noteq> []"
    by (auto simp: cellRow_def split: option.splits if_splits)
  then have k: "M (CellKeyWithVersion p s) = Some v" "s \<le> r" by (simp_all add: newest_Some)
  obtain rec where "EncodeCell rec = Inr v" "cellKey rec = p"
    using assms(1) [unfolded cellsOk_def, rule_format, of p s v] m(2) k by blast
  then show thesis
    using that cell_codec k rowCell_simps(2) m(1) by (simp add: cellAt_def)
qed

lemma GetCell_at:
  assumes "holds c n tx M" "cfMVCC c" "txOk tx M"
  shows "GetCell c tx p = Inr (cellAt M p (txSeq tx))"
proof (cases "cellRow M p (txSeq tx)")
  case None
  then show ?thesis by (simp add: GetCell_def getCellVisibleRaw_row [OF assms] cellAt_row)
next
  case (Some vs)
  obtain v s where vs: "vs = (v, s)" by force
  have "cellsOk M" using assms(3) by (simp add: txOk_def)
  then obtain rec where "DecodeCell v = Inr rec" "cellAt M p (txSeq tx) = Some rec"
    using Some vs by (elim cellRow_decodes) blast+
  then show ?thesis using Some vs by (simp add: GetCell_def getCellVisibleRaw_row [OF assms])
qed

lemma visibleCellAndSeq_at:
  assumes "holds c n tx M" "cfMVCC c" "txOk tx M"
  shows "visibleCellAndSeq c tx p = Inr (map_option (\<lambda>(v, s). (the (rowCell v), s)) (cellRow M p (txSeq tx)))"
proof (cases "cellRow M p (txSeq tx)")
  case None
  then show ?thesis by (simp add: visibleCellAndSeq_def getCellVisibleRaw_row [OF assms])
next
  case (Some vs)
  obtain v s where vs: "vs = (v, s)" by force
  have "cellsOk M" using assms(3) by (simp add: txOk_def)
  then obtain rec where "DecodeCell v = Inr rec" "EncodeCell rec = Inr v"
    using Some vs by (elim cellRow_decodes) blast+
  then show ?thesis using Some vs rowCell_simps(2) by (simp add: visibleCellAndSeq_def getCellVisibleRaw_row [OF assms])
qed

end
