(* ===== verification/CellWrites.thy ===== *)
theory CellWrites
  imports CellSnapshots
begin

text \<open>
  What \<open>PutCell\<close> writes under MVCC: the row of the new version, an index row for its source,
  its week and each of its tags, all numbered with the commit; and what the transaction and every
  snapshot then read.
\<close>

subsection \<open>Index rows\<close>

definition cellIndexRows :: "CellRecord \<Rightarrow> uint64 \<Rightarrow> bytes list" where
  "cellIndexRows r s =
     (let sid = TrimSpace (SourceID (cellProvenance r)); tail = appendPackedCoordBE [] (cellKey r) @ PutUint64 s
      in (if sid = [] then [] else [framedHead SourcePrefix sid @ tail]) @
         (case WeekBucketFromValidity (cellValidity r) of None \<Rightarrow> [] | Some b \<Rightarrow> [TimeKeyWithVersion b (cellKey r) s]) @
         map (\<lambda>t. framedHead TagPrefix t @ tail) (UniqueSortedTags (Tags r)))"

definition indexable :: "CellRecord \<Rightarrow> bool" where
  "indexable r \<longleftrightarrow> length (TrimSpace (SourceID (cellProvenance r))) \<le> MaxSourceIDBytes \<and>
     (\<forall>t \<in> set (UniqueSortedTags (Tags r)). length t \<le> MaxTagBytes)"

definition putRows :: "bytes list \<Rightarrow> (bytes \<Rightarrow> bytes option) \<Rightarrow> bytes \<Rightarrow> bytes option" where
  "putRows ks M = (\<lambda>k. if k \<in> set ks then Some [] else M k)"

lemma putRows_simps [simp]:
  "putRows [] M = M" "putRows ks (M(k \<mapsto> [])) = putRows (k # ks) M" "putRows ks (putRows ks' M) = putRows (ks' @ ks) M"
  by (auto simp: putRows_def)

lemma putRow_ok:
  assumes "holds c (Suc n) tx M" "txWritable tx" "length k \<le> maxKeyBytes"
  shows "\<exists>s. putDirect c k emptySecondaryVal tx = Inr (tx\<lparr>txStore := s\<rparr>) \<and> holds c n (tx\<lparr>txStore := s\<rparr>) (putRows [k] M)"
proof -
  have "fits c k []" using assms(3) by (simp add: fits_def isOverflowStub_def)
  from holds_put [OF assms(1,2) this] show ?thesis by (simp add: emptySecondaryVal_def putRows_def fun_upd_def)
qed

lemma row_lengths:
  "length s \<le> 220 \<Longrightarrow> length (framedHead SourcePrefix s @ appendPackedCoordBE [] p @ PutUint64 q) \<le> maxKeyBytes"
  "length s \<le> 220 \<Longrightarrow> length (framedHead TagPrefix s @ appendPackedCoordBE [] p @ PutUint64 q) \<le> maxKeyBytes"
  "length (TimeKeyWithVersion b p q) \<le> maxKeyBytes" "length (CellKeyWithVersion p q) \<le> maxKeyBytes"
  by (simp_all add: framedHead_def SourcePrefix_def TagPrefix_def maxKeyBytes_def ascii_def TimeKeyWithVersion_def
      TimeKey_def TimePrefix_def appendPackedCoordBE_def CellKeyWithVersion_def CellKey_def CellPrefix_def)

lemma putTagRows_ok:
  assumes "holds c (length tags + n) tx M" "txWritable tx" "cfMVCC c" "\<forall>t \<in> set tags. length t \<le> MaxTagBytes"
  shows "\<exists>s. putTagRows c p q tags tx = Inr (tx\<lparr>txStore := s\<rparr>) \<and> holds c n (tx\<lparr>txStore := s\<rparr>)
    (putRows (map (\<lambda>t. framedHead TagPrefix t @ appendPackedCoordBE [] p @ PutUint64 q) tags) M)"
  using assms
proof (induction tags arbitrary: tx M)
  case Nil
  then show ?case by (auto intro: exI [of _ "txStore tx"])
next
  case (Cons t tags)
  let ?k = "framedHead TagPrefix t @ appendPackedCoordBE [] p @ PutUint64 q"
  have key: "cellTagSecondaryKey c t p q = Inr ?k"
    using Cons.prems(3,4) by (simp add: cellTagSecondaryKey_def TagKeyWithVersion_iff)
  have l: "length ?k \<le> maxKeyBytes" using Cons.prems(4) by (intro row_lengths(2)) (simp add: MaxTagBytes_def)
  obtain s where s: "putDirect c ?k emptySecondaryVal tx = Inr (tx\<lparr>txStore := s\<rparr>)"
    "holds c (length tags + n) (tx\<lparr>txStore := s\<rparr>) (putRows [?k] M)"
    using putRow_ok [OF _ Cons.prems(2) l] Cons.prems(1) by fastforce
  from Cons.IH [OF s(2)] Cons.prems(2-4) obtain s' where
    "putTagRows c p q tags (tx\<lparr>txStore := s\<rparr>) = Inr (tx\<lparr>txStore := s'\<rparr>)"
    "holds c n (tx\<lparr>txStore := s'\<rparr>) (putRows (map (\<lambda>t. framedHead TagPrefix t @ appendPackedCoordBE [] p @ PutUint64 q) tags) (putRows [?k] M))"
    by auto
  then show ?case using s(1) key by (intro exI [of _ s']) simp
qed

lemma putOption_ok:
  assumes "xs = (case k of None \<Rightarrow> [] | Some x \<Rightarrow> [x])" "holds c (length xs + n) tx M" "txWritable tx"
    "\<forall>x \<in> set xs. length x \<le> maxKeyBytes"
  shows "\<exists>s. (case k of None \<Rightarrow> Inr tx | Some x \<Rightarrow> putDirect c x emptySecondaryVal tx) = Inr (tx\<lparr>txStore := s\<rparr>) \<and>
    holds c n (tx\<lparr>txStore := s\<rparr>) (putRows xs M)"
proof (cases k)
  case None
  then show ?thesis using assms(1,2) by (intro exI [of _ "txStore tx"]) simp
next
  case (Some x)
  then show ?thesis using assms putRow_ok [of c n tx M x] by simp
qed

lemma putCellSecondaryIndex_ok:
  assumes "holds c (length (cellIndexRows r q) + n) tx M" "txWritable tx" "cfMVCC c" "indexable r"
  shows "\<exists>s. putCellSecondaryIndex c r q tx = Inr (tx\<lparr>txStore := s\<rparr>) \<and>
    holds c n (tx\<lparr>txStore := s\<rparr>) (putRows (cellIndexRows r q) M)"
proof -
  let ?p = "cellKey r" and ?sid = "TrimSpace (SourceID (cellProvenance r))" and ?tags = "UniqueSortedTags (Tags r)"
  let ?tail = "appendPackedCoordBE [] ?p @ PutUint64 q"
  let ?tagRows = "map (\<lambda>t. framedHead TagPrefix t @ ?tail) ?tags"
  let ?time = "case WeekBucketFromValidity (cellValidity r) of None \<Rightarrow> [] | Some b \<Rightarrow> [TimeKeyWithVersion b ?p q]"
  let ?src = "if ?sid = [] then [] else [framedHead SourcePrefix ?sid @ ?tail]"
  have rows: "cellIndexRows r q = ?src @ ?time @ ?tagRows" by (simp add: cellIndexRows_def Let_def)
  define k where "k = (if ?sid = [] then None else Some (framedHead SourcePrefix ?sid @ ?tail))"
  have k: "cellSourceSecondaryKey c r q = Inr k" "?src = (case k of None \<Rightarrow> [] | Some k \<Rightarrow> [k])"
    using assms(3,4) SourceKeyWithVersion_iff [of ?sid ?p q "framedHead SourcePrefix ?sid @ ?tail"]
    by (simp_all add: k_def cellSourceSecondaryKey_def Let_def indexable_def)
  have t: "?time = (case cellTimeSecondaryKey c r q of None \<Rightarrow> [] | Some k \<Rightarrow> [k])"
    using assms(3) by (simp add: cellTimeSecondaryKey_def split: option.split)
  have len: "\<forall>x \<in> set ?src. length x \<le> maxKeyBytes" "\<forall>x \<in> set ?time. length x \<le> maxKeyBytes"
    using assms(4) by (auto simp: indexable_def MaxSourceIDBytes_def intro: row_lengths simp del: length_append split: option.splits)
  have h: "holds c (length ?src + (length ?time + (length ?tags + n))) tx M"
    using assms(1) rows by (simp add: add.assoc)
  obtain s1 where s1: "(case k of None \<Rightarrow> Inr tx | Some x \<Rightarrow> putDirect c x emptySecondaryVal tx) = Inr (tx\<lparr>txStore := s1\<rparr>)"
    "holds c (length ?time + (length ?tags + n)) (tx\<lparr>txStore := s1\<rparr>) (putRows ?src M)"
    using putOption_ok [OF k(2) h assms(2)] len(1) by blast
  obtain s2 where "(case cellTimeSecondaryKey c r q of None \<Rightarrow> Inr (tx\<lparr>txStore := s1\<rparr>)
      | Some x \<Rightarrow> putDirect c x emptySecondaryVal (tx\<lparr>txStore := s1\<rparr>)) = Inr (tx\<lparr>txStore := s1, txStore := s2\<rparr>)"
    "holds c (length ?tags + n) (tx\<lparr>txStore := s1, txStore := s2\<rparr>) (putRows ?time (putRows ?src M))"
    using putOption_ok [OF t s1(2) _ len(2)] assms(2) by auto
  then have s2: "(case cellTimeSecondaryKey c r q of None \<Rightarrow> Inr (tx\<lparr>txStore := s1\<rparr>)
      | Some x \<Rightarrow> putDirect c x emptySecondaryVal (tx\<lparr>txStore := s1\<rparr>)) = Inr (tx\<lparr>txStore := s2\<rparr>)"
    "holds c (length ?tags + n) (tx\<lparr>txStore := s2\<rparr>) (putRows ?time (putRows ?src M))" by simp_all
  from putTagRows_ok [OF s2(2) _ assms(3), of ?p q] assms(2,4) obtain s where
    "putTagRows c ?p q ?tags (tx\<lparr>txStore := s2\<rparr>) = Inr (tx\<lparr>txStore := s\<rparr>)"
    "holds c n (tx\<lparr>txStore := s\<rparr>) (putRows ?tagRows (putRows ?time (putRows ?src M)))"
    by (auto simp: indexable_def)
  then show ?thesis using s1(1) s2(1) k(1) rows by (auto simp: putCellSecondaryIndex_def intro: exI [of _ s])
qed

subsection \<open>Writing a version\<close>

lemma cellKey_not_index: "CellKeyWithVersion p s \<notin> set (cellIndexRows r q)"
  by (auto simp: cellIndexRows_def Let_def framedHead_def SourcePrefix_def TagPrefix_def TimeKeyWithVersion_def TimeKey_def
      TimePrefix_def CellKeyWithVersion_def CellKey_def appendPackedCoordBE_def CellPrefix_def ascii_def split: if_splits option.splits)

definition afterPut :: "CellRecord \<Rightarrow> bytes \<Rightarrow> uint64 \<Rightarrow> (bytes \<Rightarrow> bytes option) \<Rightarrow> bytes \<Rightarrow> bytes option" where
  "afterPut r data q M = putRows (cellIndexRows r q) (M(CellKeyWithVersion (cellKey r) q \<mapsto> data))"

lemma CellKeyWithVersion_inject [simp]: "CellKeyWithVersion p s = CellKeyWithVersion q t \<longleftrightarrow> p = q \<and> s = t"
  using cell.v.key_inject [of "(p, s)" "(q, t)"] by simp

lemma afterPut_cell:
  "afterPut r data q M (CellKeyWithVersion p s) =
     (if p = cellKey r \<and> s = q then Some data else M (CellKeyWithVersion p s))"
  by (simp add: afterPut_def putRows_def cellKey_not_index)

text \<open>What a caller must grant for a write to be accepted.\<close>

definition acceptable :: "dbConfig \<Rightarrow> ctx \<Rightarrow> CellRecord \<Rightarrow> bytes \<Rightarrow> bool" where
  "acceptable c ctx r data \<longleftrightarrow> ctx 0 = None \<and> validateCellInvariants r = Inr () \<and> callHook (cfValidator c) r = Inr () \<and>
     callHook (cfAfterPutCell c) r = Inr () \<and> EncodeCell r = Inr data \<and>
     length data \<le> unat (envMaxValueBytes (cfEnv c)) \<and> indexable r"

lemma EncodeCell_not_stub: "EncodeCell r = Inr v \<Longrightarrow> \<not> isOverflowStub v"
  by (auto simp: EncodeCell_def AppendEnvelope_def bindR_eq_Inr Let_def MagicCell_def ascii_def isOverflowStub_def
      overflowMagic0_def split: if_splits)

lemma newest_cells_cong:
  "(\<And>s. s \<le> r \<Longrightarrow> M' (CellKeyWithVersion p s) = M (CellKeyWithVersion p s)) \<Longrightarrow> cellAt M' p r = cellAt M p r"
  by (simp add: cellAt_def newest_cong [of r M' "CellKeyWithVersion p" M "CellKeyWithVersion p"])

definition putState :: "dbConfig \<Rightarrow> CellRecord \<Rightarrow> bytes \<Rightarrow> engine \<Rightarrow> Tx \<Rightarrow> Tx" where
  "putState c r data s tx = noteChangelog c OpPutCell (CellKey (cellKey r)) data
     (tx\<lparr>txStore := s, txOverlay := (txOverlay tx)(cellKey r \<mapsto> r), txDeleted := txDeleted tx - {cellKey r}\<rparr>)"

lemma PutCell_ok:
  assumes h: "holds c (length (cellIndexRows r (txWriteSeq tx)) + Suc n) tx M" "txWritable tx" "cfMVCC c" "txOk tx M"
    and r: "acceptable c ctx r data"
  shows "\<exists>s. let tx' = noteChangelog c OpPutCell (CellKey (cellKey r)) data
        (tx\<lparr>txStore := s, txOverlay := (txOverlay tx)(cellKey r \<mapsto> r), txDeleted := txDeleted tx - {cellKey r}\<rparr>)
      in PutCell c ctx r tx = Inr tx' \<and> holds c n tx' (afterPut r data (txWriteSeq tx) M)"
proof -
  let ?q = "txWriteSeq tx"
  have a: "ctx 0 = None" "validateCellInvariants r = Inr ()" "callHook (cfValidator c) r = Inr ()"
    "callHook (cfAfterPutCell c) r = Inr ()" "EncodeCell r = Inr data" "length data \<le> unat (envMaxValueBytes (cfEnv c))" "indexable r"
    using r by (simp_all add: acceptable_def)
  have "fits c (CellKeyWithVersion (cellKey r) ?q) data"
    using a(6) EncodeCell_not_stub [OF a(5)] row_lengths(4) by (simp add: fits_def)
  with holds_put [of c "length (cellIndexRows r ?q) + n" tx M] h(1,2) obtain s1 where s1:
    "putDirect c (CellKeyWithVersion (cellKey r) ?q) data tx = Inr (tx\<lparr>txStore := s1\<rparr>)"
    "holds c (length (cellIndexRows r ?q) + n) (tx\<lparr>txStore := s1\<rparr>) (M(CellKeyWithVersion (cellKey r) ?q \<mapsto> data))" by auto
  from putCellSecondaryIndex_ok [OF s1(2)] h(2,3) a(7) obtain s where s:
    "putCellSecondaryIndex c r ?q (tx\<lparr>txStore := s1\<rparr>) = Inr (tx\<lparr>txStore := s\<rparr>)"
    "holds c n (tx\<lparr>txStore := s\<rparr>) (afterPut r data ?q M)" by (auto simp: afterPut_def)
  have o: "txOpen tx" using h(1) by (simp add: holds_def)
  have "PutCell c ctx r tx = Inr (noteChangelog c OpPutCell (CellKey (cellKey r)) data
      (tx\<lparr>txStore := s, txOverlay := (txOverlay tx)(cellKey r \<mapsto> r), txDeleted := txDeleted tx - {cellKey r}\<rparr>))"
    using a(1-5) h(2,3) o s1(1) s(1) visibleCellAndSeq_at [OF h(1,3,4)]
    by (simp add: PutCell_def ctxErr_def requireWritable_def invalidTypedRecord_def Let_def)
  moreover have "holds c n (noteChangelog c OpPutCell (CellKey (cellKey r)) data
      (tx\<lparr>txStore := s, txOverlay := (txOverlay tx)(cellKey r \<mapsto> r), txDeleted := txDeleted tx - {cellKey r}\<rparr>)) (afterPut r data ?q M)"
    using s(2) h(2) by (simp add: noteChangelog_def holds_def)
  ultimately show ?thesis by (auto simp: Let_def)
qed

lemma txOk_afterPut:
  assumes "txOk tx M" "txWritable tx" "EncodeCell r = Inr data"
  shows "txOk (noteChangelog c op key b (tx\<lparr>txStore := s, txOverlay := (txOverlay tx)(cellKey r \<mapsto> r), txDeleted := txDeleted tx - {cellKey r}\<rparr>))
    (afterPut r data (txWriteSeq tx) M)"
proof -
  have "cellsOk (afterPut r data (txWriteSeq tx) M)"
    using assms by (auto simp: txOk_def cellsOk_def afterPut_cell)
  then show ?thesis
    using assms by (auto simp: txOk_def afterPut_cell noteChangelog_def isOk_def split: if_splits)
qed

lemma cellAt_afterPut:
  assumes "txOk tx M" "txWritable tx" "EncodeCell r = Inr data"
  shows "q < txWriteSeq tx \<Longrightarrow> cellAt (afterPut r data (txWriteSeq tx) M) p q = cellAt M p q"
    "p \<noteq> cellKey r \<Longrightarrow> cellAt (afterPut r data (txWriteSeq tx) M) p q = cellAt M p q"
    "txWriteSeq tx \<le> q \<Longrightarrow> cellAt (afterPut r data (txWriteSeq tx) M) (cellKey r) q = Some r"
proof -
  let ?M = "afterPut r data (txWriteSeq tx) M"
  show "q < txWriteSeq tx \<Longrightarrow> cellAt ?M p q = cellAt M p q" "p \<noteq> cellKey r \<Longrightarrow> cellAt ?M p q = cellAt M p q"
    by (rule newest_cells_cong; auto simp: afterPut_cell)+
  have "s \<le> txWriteSeq tx" if "M (CellKeyWithVersion p s) \<noteq> None" for p s
  proof -
    have "s \<le> txReadSeq tx \<or> s = txWriteSeq tx" "txReadSeq tx < txWriteSeq tx"
      using assms(1,2) that unfolding txOk_def by simp_all
    then show ?thesis by auto
  qed
  then have "txWriteSeq tx \<le> q \<Longrightarrow> newest ?M (CellKeyWithVersion (cellKey r)) q = Some (data, txWriteSeq tx)"
    by (auto simp: newest_Some afterPut_cell)
  then show "txWriteSeq tx \<le> q \<Longrightarrow> cellAt ?M (cellKey r) q = Some r"
    using assms(3) by (simp add: cellAt_def rowCell_simps)
qed

subsection \<open>A concrete transaction\<close>

text \<open>The first update of an empty database of format 2.\<close>

definition sampleCfg :: dbConfig where
  "sampleCfg = \<lparr>cfEnv = plainEnv, cfFlate = storedFlate, cfFuel = 2 ^ 66, cfMVCC = True, cfChangelog = False,
     cfValidator = None, cfAfterPutCell = None, cfAfterPutSeam = None, cfParseULID = (\<lambda>_. None), cfULIDString = id,
     cfSHA256 = (\<lambda>_. [])\<rparr>"

definition sampleTx :: Tx where
  "sampleTx = \<lparr>txStore = emptyEngine, txOpen = True, txWritable = True, txReadSeq = 0, txWriteSeq = 1, txRoot = 0,
     txOverlay = \<lambda>_. None, txDeleted = {}, txClog = [], txEmbeddingDim = 0, txEmbeddingMetric = 0\<rparr>"

definition taggedCell :: CellRecord where
  "taggedCell = \<lparr>cellKey = zeroPacked, RawContent = [104, 105],
     cellProvenance = \<lparr>SourceID = [115], Confidence = 0, CreatedAt = 1, UpdatedAt = 2\<rparr>,
     cellValidity = \<lparr>ValidFrom = None, ValidTo = None\<rparr>, Tags = [[97]], ClusterHint = None\<rparr>"

lemma valuePages_plain: "valuePages sampleCfg \<le> 8300"
  by (simp add: valuePages_def sampleCfg_def overflowPages_def overflowPayloadPerPage_def)

lemma sampleTx_ok:
  assumes "n \<le> 1000"
  shows "holds sampleCfg n sampleTx (\<lambda>_. None)" "txOk sampleTx (\<lambda>_. None)"
proof -
  have "n * (valuePages sampleCfg + 0 + n + 4) \<le> 1000 * (8300 + 0 + 1000 + 4)"
    using assms valuePages_plain by (intro mult_le_mono add_le_mono) simp_all
  also have "\<dots> \<le> svRoom (engineView plainEnv emptyEngine)" by (simp add: emptyEngine_ok(3))
  finally have "kv sampleCfg n emptyEngine (\<lambda>_. None)"
    unfolding kv_def using emptyEngine_ok(1) emptyEngine_rep [of storedFlate] storedFlate_ok
    by (auto simp: sampleCfg_def cfgOk_def optHeight_def intro!: exI [of _ None] exI [of _ "\<lambda>_. []"])
  then show "holds sampleCfg n sampleTx (\<lambda>_. None)" by (simp add: holds_def sampleTx_def)
  show "txOk sampleTx (\<lambda>_. None)" by (simp add: txOk_def cellsOk_def sampleTx_def)
qed

lemma taggedCell_encodes: "\<exists>data. EncodeCell taggedCell = Inr data \<and> length data \<le> 8192"
  by (simp add: EncodeCell_def encodeCellPayloadV1_def taggedCell_def AppendEnvelope_def appendString32_def
      appendProvenance_def appendValidity_def appendTagList_def appendClusterHint_def appendOptionalInt64_def
      putUint32BE_def uint32FromInt_def appendPackedCoord_def appendInt64BE_def appendFloat64BE_def maxTags_def MaxPayload_def
      MaxStringField_def MagicCell_def ascii_def Let_def)

lemma taggedCell_ok:
  "\<exists>data. acceptable sampleCfg (\<lambda>_. None) taggedCell data"
  "length (cellIndexRows taggedCell q) = 2" "cellKey taggedCell = zeroPacked"
proof -
  have "validateCellInvariants taggedCell = Inr ()" "indexable taggedCell" by code_simp+
  then show "\<exists>data. acceptable sampleCfg (\<lambda>_. None) taggedCell data"
    using taggedCell_encodes by (auto simp: acceptable_def callHook_def sampleCfg_def)
  have "TrimSpace [115] = [115]" "UniqueSortedTags [[97]] = [[97]]" by code_simp+
  then show "length (cellIndexRows taggedCell q) = 2" "cellKey taggedCell = zeroPacked"
    by (simp_all add: cellIndexRows_def taggedCell_def WeekBucketFromValidity_def Let_def)
qed

subsection \<open>Properties\<close>

text \<open>C4: Writing a cell under MVCC. When the record passes validation and hooks and its encoding fits,
  \<open>PutCell\<close> succeeds; the store then holds exactly the new version's row and the index rows of its source,
  week and tags besides what it held; the transaction reads the new record back and every other cell
  as before; and every snapshot before the transaction's commit number reads what it read before.\<close>
theorem PutCell_versioned:
  assumes "holds c (length (cellIndexRows r (txWriteSeq tx)) + Suc n) tx M" "txWritable tx" "cfMVCC c" "txOk tx M"
    and "acceptable c ctx r data"
  shows "\<exists>tx' M'. PutCell c ctx r tx = Inr tx' \<and> holds c n tx' M' \<and> txOk tx' M' \<and>
    M' = (\<lambda>k. if k \<in> set (cellIndexRows r (txWriteSeq tx)) then Some []
              else if k = CellKeyWithVersion (cellKey r) (txWriteSeq tx) then Some data else M k) \<and>
    GetCell c tx' (cellKey r) = Inr (Some r) \<and> (\<forall>p. p \<noteq> cellKey r \<longrightarrow> GetCell c tx' p = GetCell c tx p) \<and>
    (\<forall>p q. q < txWriteSeq tx \<longrightarrow> cellAt M' p q = cellAt M p q)"
proof -
  let ?q = "txWriteSeq tx" and ?M = "afterPut r data (txWriteSeq tx) M"
  from PutCell_ok [OF assms] obtain s where
    p: "PutCell c ctx r tx = Inr (putState c r data s tx)" "holds c n (putState c r data s tx) ?M"
    by (auto simp: Let_def putState_def)
  have e: "EncodeCell r = Inr data" using assms(5) by (simp add: acceptable_def)
  have ok: "txOk (putState c r data s tx) ?M" unfolding putState_def by (rule txOk_afterPut [OF assms(4,2) e])
  have seq: "txSeq (putState c r data s tx) = ?q" "txSeq tx = ?q"
    using assms(2) by (simp_all add: txSeq_def putState_def noteChangelog_def)
  note get = GetCell_at [OF p(2) assms(3) ok, unfolded seq] GetCell_at [OF assms(1,3,4), unfolded seq]
  note cell = cellAt_afterPut [OF assms(4,2) e]
  show ?thesis
    using p ok get cell by (intro exI [of _ "putState c r data s tx"] exI [of _ ?M]) (auto simp: afterPut_def putRows_def fun_eq_iff)
qed

theorem PutCell_versioned_witness:
  "\<exists>tx'. PutCell sampleCfg (\<lambda>_. None) taggedCell sampleTx = Inr tx' \<and> GetCell sampleCfg tx' zeroPacked = Inr (Some taggedCell)"
proof -
  obtain data where d: "acceptable sampleCfg (\<lambda>_. None) taggedCell data" using taggedCell_ok(1) by blast
  have h: "holds sampleCfg (length (cellIndexRows taggedCell (txWriteSeq sampleTx)) + Suc 0) sampleTx (\<lambda>_. None)"
    by (rule sampleTx_ok) (simp add: taggedCell_ok(2))
  have "txWritable sampleTx" "cfMVCC sampleCfg" "txOk sampleTx (\<lambda>_. None)"
    using sampleTx_ok(2) [of 0] by (simp_all add: sampleTx_def sampleCfg_def)
  from PutCell_versioned [OF h this d] show ?thesis unfolding taggedCell_ok(3) by blast
qed

end
