(* ===== verification/PageHeap.thy ===== *)
theory PageHeap
  imports Overflow
begin

text \<open>
  The page operations of a write transaction, in any order a caller may use them: the ids handed
  out by \<open>allocPageID\<close> (\<open>btree.go\<close>) and by the reservation of \<open>overflow.go\<close>, the page
  writes, the root in the header and \<open>releasePageID\<close> (\<open>freelist.go\<close>). What the caller holds is
  kept beside the engine: the ids it was given and has not released, and the bytes it last wrote
  to each.
\<close>

subsection \<open>Runs of page operations\<close>







subsection \<open>The invariant\<close>








subsection \<open>Properties\<close>











end
