(* ===== verification/Spec2Isabelle.thy ===== *)
theory Spec2Isabelle
  imports Prelude Lattice HexRings Records Keys SecondaryKeys PageFormat LeafSplit HeaderFormat WalRecovery
    PageStore BTree BTreeRead FreelistFormat EngineStore Overflow Commit WriteTxn
    BTreeDelete TreeEngine DeleteMap TxStore HnswGraph HnswSearch HnswRepair
    TxEmbedding TxCells CellSnapshots CellWrites PageHeap
begin

text \<open>
  A verification library for HexxlaDB, an embedded multi-version key-value database written in Go
  whose records live on the cells of a hexagonal lattice. Paths below are relative to
  \<open>src/internal\<close> of the repository, those without a directory are files of the root package.

  \<^bold>\<open>The program.\<close> The public package turns operations on cells, facets, edges and seams
  into reads and writes of byte keys and byte values. \<open>lattice\<close> supplies the coordinates,
  their packed 64-bit keys and the walks over them; \<open>record\<close> the wire formats of the values;
  \<open>index\<close> and \<open>mvcc\<close> the keys, their scan bounds and the choice of the visible
  version. \<open>engine\<close> is the store: a B+ tree over pages, overflow pages for long values,
  a page allocator, a header page, and a redo log that makes a commit atomic.

  \<^bold>\<open>Conventions.\<close> A Go integer is a word of its width and wraps as in Go; an \<open>int\<close> that
  only counts the bytes of a slice is a \<open>nat\<close>. Strings and byte slices are byte lists, ordered
  lexicographically as \<open>bytes.Compare\<close> does. A function that returns an error is a sum whose
  left side is the package's error type; a panic is an error value of its own. Fixed-size arrays are
  lists with the length as an invariant. Maps of the code are functions to \<open>option\<close>, its sets
  are sets. Mutable state is passed explicitly. A Go callback or iterator consumer is a function on
  its own state that also says whether it wants more.

  \<^bold>\<open>Theories and code.\<close>

  \<^item> \<open>Prelude\<close>: words, byte strings, slices, big-endian integers, results, shared lemmas.
  \<^item> \<open>Lattice\<close> (\<open>lattice/coord.go\<close>, \<open>neighbors.go\<close>, \<open>bounds.go\<close>,
    \<open>packed.go\<close>): zigzag and Morton codes; \<open>Pack\<close> and \<open>Unpack\<close> are inverse with
    an exact domain.
  \<^item> \<open>HexRings\<close> (\<open>lattice/ring.go\<close>, \<open>walk.go\<close>, \<open>superhex.go\<close>,
    \<open>lod.go\<close>): rings and discs are the sets of cells by distance, the lazy iterators behave
    like the slices, the two hierarchies partition the lattice.
  \<^item> \<open>Records\<close> (\<open>record/*.go\<close>): envelope, cell, facet, edge and seam formats and tag
    normalisation; the locale \<open>wire_codec\<close> (a reader accepts exactly what its writer writes)
    is interpreted for every field and payload.
  \<^item> \<open>Keys\<close> and \<open>SecondaryKeys\<close> (\<open>index/*.go\<close>,
    \<open>mvcc/version_suffix_cell_key.go\<close>): builders, parsers and range bounds of all keys; the
    locales \<open>ordered_key\<close> and \<open>prefix_family\<close> make the bounds exact.
  \<^item> \<open>PageFormat\<close> (\<open>engine/btree_page.go\<close>, \<open>page_offset.go\<close>): the page codec,
    and the lookups on raw pages.
  \<^item> \<open>LeafSplit\<close> (\<open>engine/btree_cascade_*.go\<close>, the pure parts): leaf and internal
    splits, sorted insertion.
  \<^item> \<open>HeaderFormat\<close> (\<open>engine/header.go\<close>, \<open>header_auth.go\<close>,
    \<open>max_value_bytes.go\<close>): the header page and its authentication.
  \<^item> \<open>WalRecovery\<close> (\<open>engine/wal.go\<close>, recovery in \<open>engine.go\<close>, the commit of
    \<open>writetxn.go\<close>): a commit as a list of disk effects and recovery as the code's replay.
    \<open>diskStep\<close> is an effect as the process sees it, \<open>ioStep\<close> the same with the writes kept
    apart that no sync covers yet; \<open>crashes\<close> relates a run to the disks a crash can leave: of
    the primary file any subset of the unsynced page and header writes, pages torn arbitrarily and
    the header between sectors, of the log a prefix of its unsynced appends, the last one torn. So
    every sync of the commit but the last primary one is what some case of the proof rests on, and
    that one and the last log sync make the finished commit durable. That appends reach the disk in
    order is an assumption; the log whose marker overtook a page record is treated apart.
  \<^item> \<open>PageHeap\<close>: sequences of page operations of a write transaction (allocation, reservation,
    writes, root, release) and the invariant they keep.
  \<^item> \<open>PageStore\<close>: the calls the tree makes of the engine as a record \<open>pageOps\<close>, the
    tree's view of an engine state as \<open>storeView\<close>, and the contract between them as the locale
    \<open>page_store\<close>.
  \<^item> \<open>BTree\<close> and \<open>BTreeRead\<close> (\<open>engine/btree.go\<close>,
    \<open>btree_cascade_insert.go\<close>, \<open>btree_cascade_internal.go\<close>): lookup, insertion, root
    growth and the four range scans over \<open>pageOps\<close>. The datatype \<open>btree\<close> is the abstract
    tree; \<open>rep\<close> says which pages hold it, \<open>treeOk\<close> that keys are sorted and within the
    separators. Insertion is proved against the abstract tree, the scans against the chain of its
    leaves.
  \<^item> \<open>EngineStore\<close> (\<open>engine/engine.go\<close>, \<open>hooks.go\<close>, \<open>writetxn.go\<close>,
    \<open>freelist.go\<close>): the open engine: header and page access, page hooks, the write
    transaction's buffers, the allocator. \<open>engineOk\<close> is its invariant; the interpretation
    \<open>txn\<close> discharges the contract \<open>page_store\<close> for it.
  \<^item> \<open>Overflow\<close> (\<open>engine/overflow.go\<close>, \<open>compress.go\<close>, \<open>Get\<close> and
    \<open>Put\<close> of \<open>btree.go\<close>): long values in page chains, compression, and the map the
    whole stack represents (\<open>dbRep\<close>).

  \<^item> \<open>Commit\<close> (\<open>engine/writetxn.go\<close>, \<open>group_wal.go\<close>): the classic commit, whose
    effects on the disk are the \<open>commitSteps\<close> of \<open>WalRecovery\<close>, and the group commit
    with its queue of jobs; the schedules of writers and flusher are the inductive \<open>group_run\<close>.
    Both leave the buffered pages over the old ones and the new header; every schedule writes the
    commits in queue order.
  \<^item> \<open>FreelistFormat\<close> and \<open>WriteTxn\<close> (\<open>engine/freelist.go\<close>,
    \<open>writetxn.go\<close>): the stored free list, loading it at \<open>BeginWriteTxn\<close>, storing it
    at \<open>CommitWriteTxn\<close>. A committed transaction is followed by one that sees the same pages
    and the same map.
  \<^item> \<open>BTreeDelete\<close> and \<open>DeleteMap\<close> (\<open>engine/btree_delete.go\<close>): deletion with
    its overflow pages, separators, merges, borrowed entries, emptied parents and root collapse. A tree
    is seen as a subtree in a context (\<open>plug\<close>), each operation as a change of the subtree;
    \<open>removal\<close> is what taking a child out of its parent leaves. \<open>Delete\<close> updates the map
    unless it meets one of the two defects stated beside it. \<open>TreeEngine\<close> builds an engine for
    any given tree.

  \<^item> \<open>TxStore\<close> (\<open>tx.go\<close>, \<open>mvcc.go\<close> of the root package): the transaction handle, its
    reads, writes and scans on the tree and the version lookup. \<open>kv\<close> says that an engine in a
    write transaction holds a map and has room for so many more writes, \<open>holds\<close> that a
    transaction does, reading or writing; the laws of an ordered map are proved for both. The locale
    \<open>version_rows\<close> is a family of rows numbered by commits: the lookup finds the newest one a
    snapshot may see.
  \<^item> \<open>TxCells\<close>, \<open>CellSnapshots\<close> and \<open>CellWrites\<close> (\<open>primitives.go\<close>,
    \<open>cell_secondary.go\<close>, \<open>delete_cell.go\<close>, \<open>facets_edges.go\<close>,
    \<open>record_validation.go\<close>): cells, their index rows, deletion and facets. \<open>cellAt\<close> is
    the cell of a snapshot; \<open>txOk\<close> ties the overlay of a transaction to the rows it wrote.
  \<^item> \<open>HnswGraph\<close>, \<open>HnswSearch\<close> and \<open>HnswRepair\<close> (\<open>hnsw/graph.go\<close>,
    \<open>node.go\<close>): the vector graph over its storage interface; its searches end and rank, its
    node format is canonical, its deletion leaves one-sided links.
  \<^item> \<open>TxEmbedding\<close> (\<open>tx_embedding.go\<close>, \<open>embedding_index_state.go\<close>,
    \<open>tx_hnsw_storage.go\<close>): vectors in a transaction and the storage the graph works on.

  \<^bold>\<open>Fuel.\<close> Loops that follow page pointers take fuel and answer \<open>OutOfFuel\<close> when it runs
  out, because a damaged file can make them run forever. A descent needs more than the height of
  the tree, a chain more than its number of pages, a scan more than the number of leaves, and
  \<open>prevLeaf\<close> more than twice the height; the properties say so in their hypotheses and prove
  that the operation then returns. All other loops are structural or carry a termination proof.

  \<^bold>\<open>Parameters.\<close> HMAC-SHA-256, DEFLATE, the ULID package, the page hooks (encryption) and what a
  page that was never written reads as are arguments. The hypotheses about them are the documented
  behaviour: \<open>hooksOk\<close> (a page read back is the page written, and an authenticated page starts
  with its generation), \<open>flateOk\<close> (inflating inverts deflating, with the documented bound on
  the expansion), and injectivity of the MAC only where authenticity is claimed.

  \<^bold>\<open>Not modelled.\<close> Input and output errors of the operating system, file locks and file creation;
  goroutines and mutexes (the engine is a sequential state; readers and the writer do not overlap
  in the model, and the flusher's steps are atomic per batch); field-of-view
  shadow casting (floating-point geometry); the changelog stream; of the public package: opening, queries,
  export and maintenance; the commands, terminal interface and examples; the panic of \<open>make\<close> in \<open>Ring\<close> for a radius whose slice does not fit memory;
  what a cell hook does to the transaction beyond its answer (\<open>callHook\<close> is a function of the record).
\<close>

end
